(* ===== verification/Ovms_Prelude.thy ===== *)
theory Ovms_Prelude
  imports Main
begin

text \<open>
  Shared vocabulary of the development: the exceptions of the C++ code as values, the
  operations of \<open>std::string\<close> the sources use (a string is a list of bytes, so
  \<open>string\<close> and its length are the \<open>char\<close> sequence and \<open>size()\<close> of the code, a position
  is a \<open>nat\<close> and \<open>npos\<close> is \<open>None\<close>), the character classes of the C locale, and the
  machine locale in which a component with guarded operations inherits run invariants.
\<close>

section \<open>Exceptions and results\<close>

text \<open>
  Exceptions the modelled code can raise; \<open>Diverges\<close> marks a call that never returns.
\<close>

datatype exn = LogicError string | RuntimeError string | OutOfRange | InvalidArgument string | Diverges

type_synonym 'a result = "exn + 'a"

fun rbind :: "'e + 'a \<Rightarrow> ('a \<Rightarrow> 'e + 'b) \<Rightarrow> 'e + 'b" where
  "rbind (Inl e) f = Inl e"
| "rbind (Inr x) f = f x"

lemma rbind_Inr_iff: "rbind m f = Inr y \<longleftrightarrow> (\<exists>x. m = Inr x \<and> f x = Inr y)"
  by (cases m) auto

lemma rbind_assoc: "rbind (rbind m f) g = rbind m (\<lambda>x. rbind (f x) g)"
  by (cases m) auto

text \<open>
  The status codes (\<open>src/status.hpp\<close>) the modelled functions return.
\<close>

datatype StatusCode =
    SC_OK
  | SC_OK_RELOADED
  | SC_OK_NOT_RELOADED
  | SC_INTERNAL_ERROR
  | SC_UNKNOWN_ERROR
  | SC_PATH_INVALID
  | SC_FILE_INVALID
  | SC_MODEL_NOT_LOADED
  | SC_ALLOW_CACHE_WITH_CUSTOM_LOADER
  | SC_REQUESTED_DYNAMIC_PARAMETERS_ON_SUBSCRIBED_MODEL
  | SC_SHAPE_WRONG_FORMAT
  | SC_DIM_WRONG_FORMAT
  | SC_LAYOUT_WRONG_FORMAT
  | SC_CANNOT_CONVERT_FLAT_SHAPE
  | SC_PIPELINE_DEFINITION_NOT_LOADED_YET
  | SC_PIPELINE_DEFINITION_NOT_LOADED_ANYMORE
  | SC_PIPELINE_TRIED_TO_SET_INPUT_SHARD_FOR_ORDINARY_INPUT_HANDLER
  | SC_PIPELINE_TRIED_TO_SET_THE_SAME_INPUT_TWICE
  | SC_PIPELINE_INCONSISTENT_SHARD_DIMENSIONS
  | SC_PIPELINE_CYCLE_FOUND
  | SC_PIPELINE_CONTAINS_UNCONNECTED_NODES
  | SC_PIPELINE_MISSING_ENTRY_OR_EXIT
  | SC_PIPELINE_WRONG_DEMULTIPLEXER_GATHER_NODES_ORDER
  | SC_PIPELINE_MULTIPLE_ENTRY_NODES
  | SC_PIPELINE_MULTIPLE_EXIT_NODES
  | SC_PIPELINE_NODE_NAME_DUPLICATE
  | SC_PIPELINE_NAME_OCCUPIED
  | SC_PIPELINE_DEFINITION_INVALID_NODE_LIBRARY
  | SC_PIPELINE_NODE_REFERING_TO_MISSING_MODEL
  | SC_PIPELINE_NODE_REFERING_TO_MISSING_NODE
  | SC_PIPELINE_NODE_REFERING_TO_MISSING_DATA_SOURCE
  | SC_PIPELINE_NODE_REFERING_TO_MISSING_MODEL_OUTPUT
  | SC_PIPELINE_EXIT_USED_AS_NODE_DEPENDENCY
  | SC_PIPELINE_NODE_GATHER_FROM_NOT_EXISTING_NODE
  | SC_PIPELINE_NODE_GATHER_FROM_NOT_DEMULTIPLEXER
  | SC_PIPELINE_NOT_ENOUGH_SHAPE_DIMENSIONS_TO_DEMULTIPLY
  | SC_PIPELINE_DEMULTIPLY_COUNT_DOES_NOT_MATCH_TENSOR_SHARD_COUNT
  | SC_PIPELINE_MANUAL_GATHERING_FROM_MULTIPLE_NODES_NOT_SUPPORTED
  | SC_PIPELINE_NOT_ALL_INPUTS_CONNECTED
  | SC_PIPELINE_CONNECTION_TO_MISSING_MODEL_INPUT
  | SC_PIPELINE_MODEL_INPUT_CONNECTED_TO_MULTIPLE_DATA_SOURCES
  | SC_PIPELINE_STRING_DEMUILTIPLICATION_UNSUPPORTED
  | SC_PIPELINE_INPUTS_AMBIGUOUS_METADATA
  | SC_PIPELINE_STREAM_ID_NOT_READY_YET
  | SC_PIPELINE_TOO_LARGE_DIMENSION_SIZE_TO_DEMULTIPLY
  | SC_PIPELINE_WRONG_NUMBER_OF_DIMENSIONS_TO_DEMULTIPLY
  | SC_PIPELINE_WRONG_DIMENSION_SIZE_TO_DEMULTIPLY
  | SC_PIPELINE_DEMULTIPLEXER_NO_RESULTS
  | SC_NODE_LIBRARY_INITIALIZE_FAILED
  | SC_NODE_LIBRARY_METADATA_FAILED
  | SC_NODE_LIBRARY_MISSING
  | SC_NODE_LIBRARY_OUTPUTS_CORRUPTED
  | SC_NODE_LIBRARY_OUTPUTS_CORRUPTED_COUNT
  | SC_NODE_LIBRARY_EXECUTION_FAILED
  | SC_NODE_LIBRARY_OUTPUT_MISSING_NAME
  | SC_NODE_LIBRARY_INVALID_PRECISION
  | SC_NODE_LIBRARY_INVALID_CONTENT_SIZE
  | SC_NODE_LIBRARY_MISSING_OUTPUT
  | SC_OV_INTERNAL_INFERENCE_ERROR
  | SC_OV_INTERNAL_DESERIALIZATION_ERROR
  | SC_OV_INTERNAL_SERIALIZATION_ERROR
  | SC_INVALID_NO_OF_SHAPE_DIMENSIONS
  | SC_INVALID_BATCH_DIMENSION
  | SC_INVALID_BATCH_SIZE
  | SC_INVALID_MISSING_OUTPUT
  | SC_PIPELINE_DEFINITION_ALREADY_EXIST
  | SC_FORBIDDEN_MODEL_DYNAMIC_PARAMETER
  | SC_INVALID_SHAPE
  | SC_INVALID_PRECISION
  | SC_INVALID_MISSING_INPUT
  | SC_MODEL_MISSING
  | SC_NOT_IMPLEMENTED

text \<open>\<open>Status::ok\<close>\<close>

definition status_ok :: "StatusCode \<Rightarrow> bool" where
  "status_ok c \<longleftrightarrow> c = SC_OK \<or> c = SC_OK_RELOADED \<or> c = SC_OK_NOT_RELOADED"

section \<open>Characters of the C locale\<close>

abbreviation char_code :: "char \<Rightarrow> nat" where
  "char_code c \<equiv> of_char c"

definition is_space :: "char \<Rightarrow> bool" where
  "is_space c \<longleftrightarrow> char_code c = 32 \<or> (9 \<le> char_code c \<and> char_code c \<le> 13)"

definition is_digit :: "char \<Rightarrow> bool" where
  "is_digit c \<longleftrightarrow> 48 \<le> char_code c \<and> char_code c \<le> 57"

definition is_upper :: "char \<Rightarrow> bool" where
  "is_upper c \<longleftrightarrow> 65 \<le> char_code c \<and> char_code c \<le> 90"

definition is_lower :: "char \<Rightarrow> bool" where
  "is_lower c \<longleftrightarrow> 97 \<le> char_code c \<and> char_code c \<le> 122"

definition is_alnum :: "char \<Rightarrow> bool" where
  "is_alnum c \<longleftrightarrow> is_digit c \<or> is_upper c \<or> is_lower c"

definition to_lower :: "char \<Rightarrow> char" where
  "to_lower c = (if is_upper c then char_of (char_code c + 32) else c)"

definition to_upper :: "char \<Rightarrow> char" where
  "to_upper c = (if is_lower c then char_of (char_code c - 32) else c)"

section \<open>Strings\<close>

text \<open>The pattern \<open>p\<close> stands at position \<open>i\<close> of \<open>s\<close>, as \<open>s.compare(i, p.size(), p) == 0\<close>.\<close>

definition occurs_at :: "string \<Rightarrow> string \<Rightarrow> nat \<Rightarrow> bool" where
  "occurs_at p s i \<longleftrightarrow> i + length p \<le> length s \<and> take (length p) (drop i s) = p"

text \<open>\<open>s.find(p, from)\<close>\<close>

definition str_find :: "string \<Rightarrow> string \<Rightarrow> nat \<Rightarrow> nat option" where
  "str_find p s from = List.find (occurs_at p s) [from..<Suc (length s)]"

text \<open>\<open>s.rfind(p, k)\<close>: the last occurrence that begins at or before \<open>k\<close>.\<close>

definition str_rfind_upto :: "string \<Rightarrow> string \<Rightarrow> nat \<Rightarrow> nat option" where
  "str_rfind_upto p s k = List.find (occurs_at p s) (rev [0..<Suc (min k (length s))])"

definition str_rfind :: "string \<Rightarrow> string \<Rightarrow> nat option" where
  "str_rfind p s = str_rfind_upto p s (length s)"

text \<open>\<open>s.substr(pos, n)\<close> and \<open>s.substr(pos)\<close>: \<open>std::out_of_range\<close> when \<open>pos > s.size()\<close>.\<close>

definition str_substr :: "string \<Rightarrow> nat \<Rightarrow> nat \<Rightarrow> string result" where
  "str_substr s pos n = (if length s < pos then Inl OutOfRange else Inr (take n (drop pos s)))"

definition str_substr_from :: "string \<Rightarrow> nat \<Rightarrow> string result" where
  "str_substr_from s pos = (if length s < pos then Inl OutOfRange else Inr (drop pos s))"

definition contains :: "string \<Rightarrow> string \<Rightarrow> bool" where
  "contains p s \<longleftrightarrow> str_find p s 0 \<noteq> None"

lemma List_find_upt_Some_iff:
  "List.find P [a..<b] = Some i \<longleftrightarrow> a \<le> i \<and> i < b \<and> P i \<and> (\<forall>j. a \<le> j \<and> j < i \<longrightarrow> \<not> P j)"
proof -
  have "List.find P [a..<b] = Some i \<longleftrightarrow>
      (\<exists>k < b - a. P (a + k) \<and> i = a + k \<and> (\<forall>j<k. \<not> P (a + j)))"
    by (auto simp: find_Some_iff nth_append)
  also have "\<dots> \<longleftrightarrow> a \<le> i \<and> i < b \<and> P i \<and> (\<forall>j. a \<le> j \<and> j < i \<longrightarrow> \<not> P j)"
  proof
    assume "\<exists>k < b - a. P (a + k) \<and> i = a + k \<and> (\<forall>j<k. \<not> P (a + j))"
    then obtain k where k: "k < b - a" "P (a + k)" "i = a + k" "\<forall>j<k. \<not> P (a + j)" by blast
    have "\<not> P j" if "a \<le> j" "j < i" for j
      using k(3) k(4)[rule_format, of "j - a"] that by simp
    with k show "a \<le> i \<and> i < b \<and> P i \<and> (\<forall>j. a \<le> j \<and> j < i \<longrightarrow> \<not> P j)" by auto
  next
    assume "a \<le> i \<and> i < b \<and> P i \<and> (\<forall>j. a \<le> j \<and> j < i \<longrightarrow> \<not> P j)"
    then show "\<exists>k < b - a. P (a + k) \<and> i = a + k \<and> (\<forall>j<k. \<not> P (a + j))"
      by (intro exI[of _ "i - a"]) auto
  qed
  finally show ?thesis .
qed

lemma str_find_Some_iff:
  "str_find p s k = Some i \<longleftrightarrow>
     k \<le> i \<and> occurs_at p s i \<and> (\<forall>j. k \<le> j \<and> j < i \<longrightarrow> \<not> occurs_at p s j)"
  unfolding str_find_def List_find_upt_Some_iff by (auto simp: occurs_at_def)

lemma str_find_None_iff: "str_find p s k = None \<longleftrightarrow> (\<forall>j\<ge>k. \<not> occurs_at p s j)"
  unfolding str_find_def find_None_iff by (auto simp: occurs_at_def)

lemma occurs_at_bound: "occurs_at p s i \<Longrightarrow> i + length p \<le> length s"
  by (simp add: occurs_at_def)

lemma occurs_at_iff_append:
  "occurs_at p s i \<longleftrightarrow> (\<exists>u v. s = u @ p @ v \<and> length u = i)"
proof
  assume "occurs_at p s i"
  then have "s = take i s @ p @ drop (i + length p) s" and "length (take i s) = i"
    by (auto simp: occurs_at_def add.commute) (metis append_take_drop_id drop_drop add.commute)
  then show "\<exists>u v. s = u @ p @ v \<and> length u = i" by blast
qed (auto simp: occurs_at_def)

lemma str_find_bound: "str_find p s k = Some i \<Longrightarrow> k \<le> i \<and> i + length p \<le> length s"
  by (auto simp: str_find_Some_iff occurs_at_def)

lemma str_find_split:
  "str_find p s k = Some i \<Longrightarrow> s = take i s @ p @ drop (i + length p) s"
  by (auto simp: str_find_Some_iff occurs_at_def) (metis append_take_drop_id drop_drop add.commute)

lemma List_find_rev_upt_Some_iff:
  "List.find P (rev [0..<Suc n]) = Some i \<longleftrightarrow> i \<le> n \<and> P i \<and> (\<forall>j. i < j \<and> j \<le> n \<longrightarrow> \<not> P j)"
proof (induction n)
  case (Suc n)
  have "List.find P (rev [0..<Suc (Suc n)]) =
      (if P (Suc n) then Some (Suc n) else List.find P (rev [0..<Suc n]))"
    by simp
  then show ?case using Suc by (auto simp: le_Suc_eq simp del: upt_Suc)
qed auto

lemma str_rfind_upto_Some_iff:
  "str_rfind_upto p s k = Some i \<longleftrightarrow>
     i \<le> k \<and> occurs_at p s i \<and> (\<forall>j. i < j \<and> j \<le> k \<longrightarrow> \<not> occurs_at p s j)"
  unfolding str_rfind_upto_def List_find_rev_upt_Some_iff by (auto simp: occurs_at_def)

lemma contains_iff: "contains p s \<longleftrightarrow> (\<exists>u v. s = u @ p @ v)"
  unfolding contains_def by (auto simp: str_find_None_iff occurs_at_iff_append)

lemma drop_while_rev_split:
  "\<exists>t. xs = rev (dropWhile P (rev xs)) @ t \<and> (\<forall>x\<in>set t. P x)"
proof -
  have "rev xs = takeWhile P (rev xs) @ dropWhile P (rev xs)" by simp
  then have "xs = rev (dropWhile P (rev xs)) @ rev (takeWhile P (rev xs))"
    by (metis rev_append rev_rev_ident)
  moreover have "\<forall>x\<in>set (rev (takeWhile P (rev xs))). P x"
    by (auto dest: set_takeWhileD)
  ultimately show ?thesis by blast
qed

section \<open>Guarded machines\<close>

text \<open>
  A component whose operations either raise an exception or deliver the next state.
  An exception leaves the object as it was, so a run over a list of events keeps the
  state of every rejected event.
\<close>

definition try_step :: "('s \<Rightarrow> 'e \<Rightarrow> exn + 's) \<Rightarrow> 's \<Rightarrow> 'e \<Rightarrow> 's" where
  "try_step step s e = (case step s e of Inl _ \<Rightarrow> s | Inr s' \<Rightarrow> s')"

fun run_steps :: "('s \<Rightarrow> 'e \<Rightarrow> exn + 's) \<Rightarrow> 's \<Rightarrow> 'e list \<Rightarrow> 's" where
  "run_steps step s [] = s"
| "run_steps step s (e # es) = run_steps step (try_step step s e) es"

lemma run_steps_append: "run_steps step s (es @ fs) = run_steps step (run_steps step s es) fs"
  by (induction es arbitrary: s) auto

locale guarded_machine =
  fixes step :: "'s \<Rightarrow> 'e \<Rightarrow> exn + 's"
    and inv :: "'s \<Rightarrow> bool"
  assumes step_preserves: "inv s \<Longrightarrow> step s e = Inr s' \<Longrightarrow> inv s'"
begin

text \<open>A rejected event leaves the invariant alone, an accepted one keeps it.\<close>

lemma try_step_preserves: "inv s \<Longrightarrow> inv (try_step step s e)"
  by (auto simp: try_step_def split: sum.splits intro: step_preserves)

lemma run_preserves: "inv s \<Longrightarrow> inv (run_steps step s es)"
  by (induction es arbitrary: s) (auto intro: try_step_preserves)

end

text \<open>The accepted events of a run, in order.\<close>

fun accepted :: "('s \<Rightarrow> 'e \<Rightarrow> exn + 's) \<Rightarrow> 's \<Rightarrow> 'e list \<Rightarrow> 'e list" where
  "accepted step s [] = []"
| "accepted step s (e # es) =
     (case step s e of Inl _ \<Rightarrow> accepted step s es | Inr t \<Rightarrow> e # accepted step t es)"

locale refined_machine =
  fixes step :: "'s \<Rightarrow> 'e \<Rightarrow> exn + 's"
    and abs :: "'s \<Rightarrow> 'a"
    and spec :: "'e \<Rightarrow> 'a \<Rightarrow> 'a"
  assumes step_refines: "step s e = Inr t \<Longrightarrow> abs t = spec e (abs s)"
begin

lemma run_refines: "abs (run_steps step s es) = fold spec (accepted step s es) (abs s)"
  by (induction es arbitrary: s) (auto simp: try_step_def step_refines split: sum.splits)

end

end
