(* ===== verification/Text_Utils.thy ===== *)
theory Text_Utils
  imports Ovms_Prelude
begin

text \<open>
  The string helpers of \<open>src/stringutils.cpp\<close> and the number conversions of the C++
  standard library they rest on. Strings are byte lists; in-place functions return the new
  value. The floating-point conversions \<open>stof\<close> and \<open>stringToFloatVector\<close> are not modelled.
\<close>

section \<open>Joining, trimming and splitting\<close>

fun joins :: "string list \<Rightarrow> string \<Rightarrow> string" where
  "joins [] d = []"
| "joins [x] d = x"
| "joins (x # y # ys) d = x @ d @ joins (y # ys) d"

definition ltrim :: "string \<Rightarrow> string" where
  "ltrim s = dropWhile is_space s"

definition rtrim :: "string \<Rightarrow> string" where
  "rtrim s = rev (dropWhile is_space (rev s))"

definition trim :: "string \<Rightarrow> string" where
  "trim s = rtrim (ltrim s)"

definition trim_copy :: "string \<Rightarrow> string" where
  "trim_copy s = trim s"

definition erase_spaces :: "string \<Rightarrow> string" where
  "erase_spaces s = filter (\<lambda>c. \<not> is_space c) s"

text \<open>
  \<open>std::getline\<close> until it fails: a piece ends at the delimiter or at the end of the stream,
  and a stream that has nothing left gives no piece.
\<close>

function tokenize :: "string \<Rightarrow> char \<Rightarrow> string list" where
  "tokenize s d =
     (if s = [] then []
      else takeWhile (\<lambda>c. c \<noteq> d) s # tokenize (drop 1 (dropWhile (\<lambda>c. c \<noteq> d) s)) d)"
  by pat_completeness auto
termination
proof (relation "measure (\<lambda>(s, d). length s)", goal_cases)
  case (2 s d)
  then show ?case
    using length_dropWhile_le [of "\<lambda>c. c \<noteq> d" s] by (cases s) auto
qed simp

declare tokenize.simps [simp del]

definition endsWith :: "string \<Rightarrow> string \<Rightarrow> bool" where
  "endsWith s m \<longleftrightarrow> length m \<le> length s \<and>
     list_all2 (\<lambda>a b. to_lower a = to_lower b) (drop (length s - length m) s) m"

definition startsWith :: "string \<Rightarrow> string \<Rightarrow> bool" where
  "startsWith s p \<longleftrightarrow> (if \<not> length p \<le> length s then False else take (length p) s = p)"

section \<open>Numbers\<close>

definition digit_value :: "char \<Rightarrow> nat" where
  "digit_value c = char_code c - 48"

definition digits_value :: "string \<Rightarrow> nat" where
  "digits_value ds = foldl (\<lambda>n c. 10 * n + digit_value c) 0 ds"

text \<open>
  \<open>strtol\<close> and its kin in base ten: white space, an optional sign, digits. The result is the
  sign, the magnitude and the number of characters consumed; no digits, no conversion.
\<close>

definition parse_number :: "string \<Rightarrow> (bool \<times> nat \<times> nat) option" where
  "parse_number s =
     (let ws = takeWhile is_space s;
          r = dropWhile is_space s;
          signed = (r \<noteq> [] \<and> (hd r = CHR ''-'' \<or> hd r = CHR ''+''));
          neg = (signed \<and> hd r = CHR ''-'');
          ds = takeWhile is_digit (if signed then tl r else r)
      in if ds = [] then None
         else Some (neg, digits_value ds, length ws + (if signed then 1 else 0) + length ds))"

text \<open>\<open>std::stoi\<close> and \<open>std::stoll\<close>: the value and the consumed length.\<close>

definition std_signed :: "nat \<Rightarrow> string \<Rightarrow> (int \<times> nat) result" where
  "std_signed bits s =
     (case parse_number s of
        None \<Rightarrow> Inl (InvalidArgument s)
      | Some (neg, m, k) \<Rightarrow>
          let v = (if neg then - int m else int m)
          in if v < - (2 ^ (bits - 1)) \<or> 2 ^ (bits - 1) \<le> v then Inl OutOfRange else Inr (v, k))"

definition std_stoi :: "string \<Rightarrow> (int \<times> nat) result" where
  "std_stoi s = std_signed 32 s"

definition std_stoll :: "string \<Rightarrow> (int \<times> nat) result" where
  "std_stoll s = std_signed 64 s"

text \<open>\<open>std::stoul\<close> and \<open>std::stoull\<close> (64 bit): a minus sign negates the unsigned value.\<close>

definition std_stoul :: "string \<Rightarrow> (nat \<times> nat) result" where
  "std_stoul s =
     (case parse_number s of
        None \<Rightarrow> Inl (InvalidArgument s)
      | Some (neg, m, k) \<Rightarrow>
          if 2 ^ 64 \<le> m then Inl OutOfRange
          else Inr (if neg then (2 ^ 64 - m) mod 2 ^ 64 else m, k))"

definition stou32 :: "string \<Rightarrow> nat option" where
  "stou32 input =
     (let str = erase_spaces input
      in if str \<noteq> [] \<and> hd str = CHR ''-'' then None
         else case std_stoul str of
                Inl _ \<Rightarrow> None
              | Inr (val, _) \<Rightarrow> if 2 ^ 32 - 1 < val then None else Some val)"

definition stou64 :: "string \<Rightarrow> nat option" where
  "stou64 str =
     (if str = [] then None
      else if hd str = CHR ''-'' then None
      else case std_stoul str of
             Inl _ \<Rightarrow> None
           | Inr (val, idx) \<Rightarrow> if idx \<noteq> length str then None else Some val)"

definition stoi32 :: "string \<Rightarrow> int option" where
  "stoi32 str =
     (if str = [] then None
      else case std_stoi str of
             Inl _ \<Rightarrow> None
           | Inr (val, idx) \<Rightarrow> if idx \<noteq> length str then None else Some val)"

definition stoi64 :: "string \<Rightarrow> int option" where
  "stoi64 str =
     (if str = [] then None
      else let isMinus = (hd str = CHR ''-''); i = (if isMinus then 1 else 0)
           in if \<not> list_all is_digit (drop i str) then None
              else if 1 < length str \<and> str ! i = CHR ''0'' then None
              else case std_stoll str of Inl _ \<Rightarrow> None | Inr (val, _) \<Rightarrow> Some val)"

section \<open>Unicode, case, overlaps, escapes\<close>

text \<open>The scan of \<open>isValidUtf8\<close> from the last byte, over the reversed text.\<close>

fun utf8_scan :: "string \<Rightarrow> nat \<Rightarrow> bool" where
  "utf8_scan [] byte_counter = False"
| "utf8_scan (c # cs) byte_counter =
     (if \<not> byte_counter \<le> 3 then False
      else let x = char_code c
           in if x div 2 ^ 7 = 0 \<and> byte_counter = 0 then True
              else if x div 2 ^ 6 = 2 then utf8_scan cs (Suc byte_counter)
              else if x div 2 ^ 5 = 6 \<and> byte_counter + 1 = 2 then True
              else if x div 2 ^ 4 = 14 \<and> byte_counter + 1 = 3 then True
              else if x div 2 ^ 3 = 30 \<and> byte_counter + 1 = 4 then True
              else False)"

definition isValidUtf8 :: "string \<Rightarrow> bool" where
  "isValidUtf8 text = (if length text = 0 then False else utf8_scan (rev text) 0)"

definition toLower :: "string \<Rightarrow> string" where
  "toLower s = map to_lower s"

definition stringsOverlap :: "string \<Rightarrow> string \<Rightarrow> bool" where
  "stringsOverlap lhs rhs =
     (if lhs = [] \<and> rhs = [] then True
      else list_ex (\<lambda>n. drop (length lhs - n) lhs = take n rhs) [1..<Suc (min (length lhs) (length rhs))])"

fun escape_char :: "char \<Rightarrow> string" where
  "escape_char c =
     (if c = CHR 0x22 then [CHR 0x5C, CHR 0x22]
      else if c = CHR 0x5C then [CHR 0x5C, CHR 0x5C]
      else if c = CHR 0x08 then [CHR 0x5C, CHR ''b'']
      else if c = CHR 0x0C then [CHR 0x5C, CHR ''f'']
      else if c = CHR 0x0A then [CHR 0x5C, CHR ''n'']
      else if c = CHR 0x0D then [CHR 0x5C, CHR ''r'']
      else if c = CHR 0x09 then [CHR 0x5C, CHR ''t'']
      else [c])"

definition escapeSpecialCharacters :: "string \<Rightarrow> string" where
  "escapeSpecialCharacters text = concat (map escape_char text)"

section \<open>Trimming\<close>

lemma trim_split:
  "\<exists>a b. s = a @ trim s @ b \<and> list_all is_space a \<and> list_all is_space b"
proof -
  obtain b where b: "ltrim s = rtrim (ltrim s) @ b" "\<forall>c\<in>set b. is_space c"
    using drop_while_rev_split [of "ltrim s" is_space] by (auto simp: rtrim_def)
  have "s = takeWhile is_space s @ ltrim s" by (simp add: ltrim_def)
  with b(1) have "s = takeWhile is_space s @ trim s @ b" by (simp add: trim_def)
  then show ?thesis using b(2)
    by (intro exI[of _ "takeWhile is_space s"] exI[of _ b]) (auto simp: list_all_iff dest: set_takeWhileD)
qed

lemma hd_ltrim: "ltrim s \<noteq> [] \<Longrightarrow> \<not> is_space (hd (ltrim s))"
  unfolding ltrim_def by (rule hd_dropWhile)

lemma last_rtrim: "rtrim s \<noteq> [] \<Longrightarrow> \<not> is_space (last (rtrim s))"
  unfolding rtrim_def by (simp add: last_rev hd_dropWhile)

lemma hd_rtrim: "rtrim s \<noteq> [] \<Longrightarrow> hd (rtrim s) = hd s"
  using drop_while_rev_split [of s is_space] by (metis hd_append rtrim_def)

lemma trim_ends:
  "trim s \<noteq> [] \<Longrightarrow> \<not> is_space (hd (trim s)) \<and> \<not> is_space (last (trim s))"
  unfolding trim_def
  by (metis hd_ltrim hd_rtrim last_rtrim dropWhile.simps(1) rev.simps(1) rtrim_def)

lemma trim_fixed: "s = [] \<or> (\<not> is_space (hd s) \<and> \<not> is_space (last s)) \<Longrightarrow> trim s = s"
proof (cases s)
  case (Cons c cs)
  assume "s = [] \<or> (\<not> is_space (hd s) \<and> \<not> is_space (last s))"
  with Cons have "\<not> is_space c" "\<not> is_space (last s)" by auto
  moreover have "rev s = last s # rev (butlast s)" using Cons by (metis append_butlast_last_id list.simps(3) rev_eq_Cons_iff rev_rev_ident)
  ultimately show ?thesis using Cons by (simp add: trim_def ltrim_def rtrim_def)
qed (simp add: trim_def ltrim_def rtrim_def)

lemma trim_idem [simp]: "trim (trim s) = trim s"
  using trim_ends [of s] by (intro trim_fixed) blast

section \<open>Overlaps\<close>

lemma stringsOverlap_iff:
  "stringsOverlap lhs rhs \<longleftrightarrow>
     (lhs = [] \<and> rhs = []) \<or> (\<exists>a m b. m \<noteq> [] \<and> lhs = a @ m \<and> rhs = m @ b)"
proof
  assume "stringsOverlap lhs rhs"
  then consider "lhs = [] \<and> rhs = []"
    | n where "1 \<le> n" "n \<le> length lhs" "n \<le> length rhs" "drop (length lhs - n) lhs = take n rhs"
    by (auto simp: stringsOverlap_def list_ex_iff simp del: upt_Suc split: if_splits)
  then show "(lhs = [] \<and> rhs = []) \<or> (\<exists>a m b. m \<noteq> [] \<and> lhs = a @ m \<and> rhs = m @ b)"
  proof cases
    case (2 n)
    then have "take n rhs \<noteq> []" "lhs = take (length lhs - n) lhs @ take n rhs" "rhs = take n rhs @ drop n rhs"
      by auto (metis append_take_drop_id)
    then show ?thesis by blast
  qed simp
next
  assume "(lhs = [] \<and> rhs = []) \<or> (\<exists>a m b. m \<noteq> [] \<and> lhs = a @ m \<and> rhs = m @ b)"
  then show "stringsOverlap lhs rhs"
  proof
    assume "\<exists>a m b. m \<noteq> [] \<and> lhs = a @ m \<and> rhs = m @ b"
    then obtain a m b where "m \<noteq> []" "lhs = a @ m" "rhs = m @ b" by blast
    then show ?thesis
      by (auto simp: stringsOverlap_def list_ex_iff Suc_le_eq simp del: upt_Suc intro!: bexI[of _ "length m"])
  qed (simp add: stringsOverlap_def)
qed

section \<open>Splitting and joining\<close>

lemma tokenize_Nil [simp]: "tokenize [] d = []"
  by (simp add: tokenize.simps)

lemma tokenize_piece: "d \<notin> set x \<Longrightarrow> tokenize (x @ d # r) d = x # tokenize r d"
proof -
  assume "d \<notin> set x"
  then have "takeWhile (\<lambda>c. c \<noteq> d) (x @ d # r) = x" and "dropWhile (\<lambda>c. c \<noteq> d) (x @ d # r) = d # r"
    by (auto simp: takeWhile_append dropWhile_append takeWhile_eq_all_conv)
  then show ?thesis by (subst tokenize.simps) simp
qed

lemma tokenize_last: "d \<notin> set x \<Longrightarrow> x \<noteq> [] \<Longrightarrow> tokenize x d = [x]"
proof -
  assume "d \<notin> set x" "x \<noteq> []"
  then have "takeWhile (\<lambda>c. c \<noteq> d) x = x" and "dropWhile (\<lambda>c. c \<noteq> d) x = []"
    by (auto simp: takeWhile_eq_all_conv dropWhile_eq_Nil_conv)
  with \<open>x \<noteq> []\<close> show ?thesis by (subst tokenize.simps) (simp del: dropWhile_eq_Nil_conv)
qed

lemma tokenize_joins_aux:
  "xs \<noteq> [] \<Longrightarrow> \<forall>x\<in>set xs. d \<notin> set x \<Longrightarrow> last xs \<noteq> [] \<Longrightarrow> tokenize (joins xs [d]) d = xs"
  by (induction xs "[d]" rule: joins.induct) (auto simp: tokenize_last tokenize_piece)

lemma tokenize_free: "x \<in> set (tokenize s d) \<Longrightarrow> d \<notin> set x"
proof (induction s d rule: tokenize.induct)
  case (1 s d)
  then show ?case
    by (subst (asm) (2) tokenize.simps) (auto split: if_splits dest: set_takeWhileD)
qed

lemma joins_Cons: "joins (x # xs) d = x @ (if xs = [] then [] else d @ joins xs d)"
  by (cases xs) auto

lemma joins_tokenize_aux: "s = [] \<or> last s \<noteq> d \<Longrightarrow> joins (tokenize s d) [d] = s"
proof (induction s d rule: tokenize.induct)
  case (1 s d)
  show ?case
  proof (cases "s = []")
    case False
    let ?r = "dropWhile (\<lambda>c. c \<noteq> d) s"
    show ?thesis
    proof (cases ?r)
      case Nil
      then have "takeWhile (\<lambda>c. c \<noteq> d) s = s" by (simp add: dropWhile_eq_Nil_conv takeWhile_eq_all_conv)
      with False Nil show ?thesis by (subst tokenize.simps) (simp del: dropWhile_eq_Nil_conv)
    next
      case (Cons c r)
      then have c: "c = d" using hd_dropWhile [of "\<lambda>c. c \<noteq> d" s] by auto
      have s: "s = takeWhile (\<lambda>c. c \<noteq> d) s @ d # r" using Cons c by (metis takeWhile_dropWhile_id)
      with 1(2) False have r: "r \<noteq> []" "last r \<noteq> d" by (metis last_appendR last_ConsL last_ConsR list.simps(3))+
      with 1(1) False Cons have IH: "joins (tokenize r d) [d] = r" by simp
      have "tokenize r d \<noteq> []" using r(1) by (subst tokenize.simps) simp
      moreover have "tokenize s d = takeWhile (\<lambda>c. c \<noteq> d) s # tokenize r d"
        using False Cons by (subst tokenize.simps) simp
      ultimately show ?thesis using IH s by (simp add: joins_Cons)
    qed
  qed simp
qed

section \<open>Canonical decimals\<close>

text \<open>The decimal numeral of a number, without leading zeros.\<close>

fun dec_nat :: "nat \<Rightarrow> string" where
  "dec_nat n = (if n < 10 then [char_of (48 + n)] else dec_nat (n div 10) @ [char_of (48 + n mod 10)])"

declare dec_nat.simps [simp del]

definition dec_int :: "int \<Rightarrow> string" where
  "dec_int n = (if n < 0 then CHR ''-'' # dec_nat (nat (- n)) else dec_nat (nat n))"

lemma digits_value_snoc: "digits_value (ds @ [c]) = 10 * digits_value ds + digit_value c"
  by (simp add: digits_value_def)

lemma digits_value_Nil [simp]: "digits_value [] = 0"
  by (simp add: digits_value_def)

lemma digit_char [simp]:
  "n < 10 \<Longrightarrow> is_digit (char_of (48 + n))" "n < 10 \<Longrightarrow> digit_value (char_of (48 + n)) = n"
  by (simp_all add: is_digit_def digit_value_def of_char_of)

lemma char_of_digit: "is_digit c \<Longrightarrow> char_of (48 + digit_value c) = c"
  by (simp add: is_digit_def digit_value_def)

lemma digit_value_less: "is_digit c \<Longrightarrow> digit_value c < 10"
  by (auto simp: is_digit_def digit_value_def)

lemma dec_nat_digits: "list_all is_digit (dec_nat n)"
proof (induction n rule: dec_nat.induct)
  case (1 n)
  then show ?case by (subst dec_nat.simps) auto
qed

lemma dec_nat_nonempty [simp]: "dec_nat n \<noteq> []"
  by (subst dec_nat.simps) simp

lemma digits_value_dec_nat [simp]: "digits_value (dec_nat n) = n"
proof (induction n rule: dec_nat.induct)
  case (1 n)
  show ?case
  proof (cases "n < 10")
    case True
    then show ?thesis using digits_value_snoc [of "[]" "char_of (48 + n)"] by (subst dec_nat.simps) simp
  next
    case False
    then have "digits_value (dec_nat n) = 10 * (n div 10) + n mod 10"
      using 1 by (subst dec_nat.simps) (simp add: digits_value_snoc)
    then show ?thesis by simp
  qed
qed

lemma digits_value_pos:
  "list_all is_digit ds \<Longrightarrow> ds \<noteq> [] \<Longrightarrow> hd ds \<noteq> CHR ''0'' \<Longrightarrow> 0 < digits_value ds"
proof (induction ds rule: rev_induct)
  case (snoc c ds)
  show ?case
  proof (cases ds)
    case Nil
    with snoc have "is_digit c" "c \<noteq> CHR ''0''" by auto
    moreover have "(char_of (48 :: nat) :: char) = CHR ''0''" by code_simp
    ultimately have "digit_value c \<noteq> 0" by (metis add_0_right char_of_digit)
    then show ?thesis using Nil digits_value_snoc [of "[]" c] by simp
  next
    case (Cons a list)
    with snoc have "0 < digits_value ds" by auto
    then show ?thesis by (simp add: digits_value_snoc)
  qed
qed simp

lemma dec_nat_canonical:
  "list_all is_digit ds \<Longrightarrow> ds \<noteq> [] \<Longrightarrow> (1 < length ds \<longrightarrow> hd ds \<noteq> CHR ''0'') \<Longrightarrow>
   dec_nat (digits_value ds) = ds"
proof (induction ds rule: rev_induct)
  case (snoc c ds)
  then have c: "digit_value c < 10" "char_of (48 + digit_value c) = c"
    by (simp_all add: digit_value_less char_of_digit)
  show ?case
  proof (cases "ds = []")
    case True
    then show ?thesis using c digits_value_snoc [of "[]" c] by (subst dec_nat.simps) simp
  next
    case False
    with snoc have "0 < digits_value ds" "dec_nat (digits_value ds) = ds"
      using digits_value_pos [of ds] by (auto simp: hd_append)
    then show ?thesis using c by (subst dec_nat.simps) (simp add: digits_value_snoc)
  qed
qed simp

lemma dec_nat_head: "1 < length (dec_nat n) \<Longrightarrow> hd (dec_nat n) \<noteq> CHR ''0''"
proof (induction n rule: dec_nat.induct)
  case (1 n)
  show ?case
  proof (cases "n < 10")
    case True
    with 1(2) show ?thesis by (simp add: dec_nat.simps)
  next
    case False
    then have d: "dec_nat n = dec_nat (n div 10) @ [char_of (48 + n mod 10)]"
      by (subst dec_nat.simps) simp
    show ?thesis
    proof (cases "n div 10 < 10")
      case True
      have "hd (dec_nat (n div 10)) \<noteq> CHR ''0''"
      proof
        assume "hd (dec_nat (n div 10)) = CHR ''0''"
        then have "char_of (48 + n div 10) = CHR ''0''" using True by (simp add: dec_nat.simps)
        then have "digit_value (char_of (48 + n div 10)) = 0" by (simp add: digit_value_def)
        with True False show False by simp
      qed
      then show ?thesis by (simp add: d hd_append)
    next
      case F: False
      then have "1 < length (dec_nat (n div 10))"
        by (subst dec_nat.simps) (simp add: length_greater_0_conv)
      with 1(1) False show ?thesis by (simp add: d hd_append)
    qed
  qed
qed

lemma takeWhile_id: "list_all P xs \<Longrightarrow> takeWhile P xs = xs"
  by (simp add: takeWhile_eq_all_conv list_all_iff)

lemma sign_not_space: "\<not> is_space CHR ''-''" "\<not> is_digit CHR ''-''"
  by (simp_all add: is_space_def is_digit_def)

lemma digit_not_space: "is_digit c \<Longrightarrow> \<not> is_space c"
  by (auto simp: is_space_def is_digit_def)

lemma digit_not_sign: "is_digit c \<Longrightarrow> c \<noteq> CHR ''-'' \<and> c \<noteq> CHR ''+''"
  by (auto simp: is_digit_def)

lemma parse_number_digits:
  "list_all is_digit ds \<Longrightarrow> ds \<noteq> [] \<Longrightarrow> parse_number ds = Some (False, digits_value ds, length ds)"
  by (cases ds) (auto simp: parse_number_def digit_not_space digit_not_sign takeWhile_id Let_def)

lemma parse_number_minus:
  "list_all is_digit ds \<Longrightarrow>
   parse_number (CHR ''-'' # ds) = (if ds = [] then None else Some (True, digits_value ds, Suc (length ds)))"
  by (auto simp: parse_number_def sign_not_space takeWhile_id Let_def)

lemma stoi64_plain:
  "ds \<noteq> [] \<Longrightarrow> hd ds \<noteq> CHR ''-'' \<Longrightarrow>
   stoi64 ds = (if list_all is_digit ds \<and> (1 < length ds \<longrightarrow> hd ds \<noteq> CHR ''0'') \<and> digits_value ds < 2 ^ 63
                then Some (int (digits_value ds)) else None)"
  by (auto simp: stoi64_def std_stoll_def std_signed_def parse_number_digits hd_conv_nth Let_def)

lemma stoi64_minus:
  "stoi64 (CHR ''-'' # ds) =
     (if list_all is_digit ds \<and> ds \<noteq> [] \<and> hd ds \<noteq> CHR ''0'' \<and> digits_value ds \<le> 2 ^ 63
      then Some (- int (digits_value ds)) else None)"
  by (cases ds)
     (auto simp: stoi64_def std_stoll_def std_signed_def parse_number_minus Let_def)

lemma dec_nat_hd_digit: "is_digit (hd (dec_nat n))"
  using dec_nat_digits [of n] dec_nat_nonempty [of n] by (cases "dec_nat n") auto

lemma dec_nat_hd_zero: "0 < n \<Longrightarrow> hd (dec_nat n) \<noteq> CHR ''0''"
proof
  assume n: "0 < n" and h: "hd (dec_nat n) = CHR ''0''"
  then have "\<not> 1 < length (dec_nat n)" using dec_nat_head by blast
  with h have "dec_nat n = [CHR ''0'']" by (cases "dec_nat n") auto
  then have "digits_value (dec_nat n) = 0" by (simp add: digits_value_def digit_value_def)
  with n show False by simp
qed

section \<open>UTF-8 and escapes: the reference definitions\<close>

text \<open>The UTF-8 encoding of a code point.\<close>

definition utf8_encode :: "nat \<Rightarrow> string" where
  "utf8_encode u =
     (if u < 2 ^ 7 then [char_of u]
      else if u < 2 ^ 11 then [char_of (192 + u div 2 ^ 6), char_of (128 + u mod 2 ^ 6)]
      else if u < 2 ^ 16 then [char_of (224 + u div 2 ^ 12), char_of (128 + u div 2 ^ 6 mod 2 ^ 6),
                               char_of (128 + u mod 2 ^ 6)]
      else [char_of (240 + u div 2 ^ 18), char_of (128 + u div 2 ^ 12 mod 2 ^ 6),
            char_of (128 + u div 2 ^ 6 mod 2 ^ 6), char_of (128 + u mod 2 ^ 6)])"

text \<open>Reading the escapes of a JSON string back.\<close>

fun unescape :: "string \<Rightarrow> string" where
  "unescape [] = []"
| "unescape [c] = [c]"
| "unescape (c # d # r) =
     (if c = CHR 0x5C then
        (if d = CHR ''b'' then CHR 0x08 else if d = CHR ''f'' then CHR 0x0C
         else if d = CHR ''n'' then CHR 0x0A else if d = CHR ''r'' then CHR 0x0D
         else if d = CHR ''t'' then CHR 0x09 else d) # unescape r
      else c # unescape (d # r))"

lemma unescape_escape_char: "unescape (escape_char c @ r) = c # unescape r"
  by (cases r) auto

lemma byte_of_char: "n < 256 \<Longrightarrow> char_code (char_of n) = n"
  by (simp add: of_char_of)

lemma utf8_shape:
  fixes x :: nat
  assumes "x < 256"
  shows "utf8_scan (char_of x # cs) k =
    (if \<not> k \<le> 3 then False
     else if x < 128 \<and> k = 0 then True
     else if 128 \<le> x \<and> x < 192 then utf8_scan cs (Suc k)
     else if 192 \<le> x \<and> x < 224 \<and> k = 1 then True
     else if 224 \<le> x \<and> x < 240 \<and> k = 2 then True
     else if 240 \<le> x \<and> x < 248 \<and> k = 3 then True else False)"
proof -
  have d: "x div 2 ^ 7 = 0 \<longleftrightarrow> x < 128" "x div 2 ^ 6 = 2 \<longleftrightarrow> 128 \<le> x \<and> x < 192"
    "x div 2 ^ 5 = 6 \<longleftrightarrow> 192 \<le> x \<and> x < 224" "x div 2 ^ 4 = 14 \<longleftrightarrow> 224 \<le> x \<and> x < 240"
    "x div 2 ^ 3 = 30 \<longleftrightarrow> 240 \<le> x \<and> x < 248"
    using assms by auto
  show ?thesis unfolding utf8_scan.simps byte_of_char [OF assms] d Let_def by auto
qed

declare utf8_scan.simps(2) [simp del] escape_char.simps [simp del]

section \<open>Properties\<close>

text \<open>
  \<open>trim\<close> removes exactly the white space at both ends. The argument is the result between
  two runs of white space, and the result has no white space at either end; trimming again
  changes nothing.
\<close>

theorem trim_removes_exactly_the_surrounding_space:
  "(\<exists>a b. s = a @ trim s @ b \<and> list_all is_space a \<and> list_all is_space b) \<and>
   (trim s = [] \<or> \<not> (is_space (hd (trim s)) \<or> is_space (last (trim s)))) \<and>
   trim (trim s) = trim s"
  using trim_split [of s] trim_ends [of s] by auto

text \<open>
  \<open>tokenize\<close> and \<open>joins\<close> are inverse to each other: pieces that do not hold the delimiter
  come back from the joined text when the last one is not empty, and the pieces of a text that
  does not end with the delimiter join to that text. (An empty last piece is lost: the
  \<open>std::getline\<close> loop stops at the end of the stream.)
\<close>

theorem tokenize_joins_roundtrip:
  assumes "\<forall>x\<in>set xs. d \<notin> set x" "xs = [] \<or> last xs \<noteq> []" "s = [] \<or> last s \<noteq> d"
  shows "tokenize (joins xs [d]) d = xs \<and> joins (tokenize s d) [d] = s"
  using assms tokenize_joins_aux [of xs d] joins_tokenize_aux [of s d] by (cases "xs = []") auto

theorem tokenize_joins_roundtrip_witness:
  "tokenize (joins [''a'', [], ''bc''] '','') CHR '','' = [''a'', [], ''bc''] \<and>
   joins (tokenize '',x'' CHR '','') '','' = '',x''"
  by (rule tokenize_joins_roundtrip) auto

text \<open>
  \<open>stoi64\<close> accepts exactly the canonical decimal numerals of the 64-bit integers: it returns
  \<open>n\<close> for a text if and only if the text is the numeral of \<open>n\<close> (no sign but a minus, no leading
  zero, no \<open>-0\<close>, no space, nothing after it) and \<open>n\<close> lies between \<open>- 2 ^ 63\<close> and \<open>2 ^ 63 - 1\<close>.
\<close>

theorem stoi64_accepts_exactly_canonical_decimals:
  "stoi64 s = Some n \<longleftrightarrow> s = dec_int n \<and> - (2 ^ 63) \<le> n \<and> n < 2 ^ 63"
proof (cases "s \<noteq> [] \<and> hd s = CHR ''-''")
  case True
  then obtain ds where s: "s = CHR ''-'' # ds" by (cases s) auto
  show ?thesis
  proof
    assume "stoi64 s = Some n"
    then have "list_all is_digit ds" "ds \<noteq> []" "hd ds \<noteq> CHR ''0''" "n = - int (digits_value ds)"
        "digits_value ds \<le> 2 ^ 63"
      by (auto simp: s stoi64_minus split: if_splits)
    then show "s = dec_int n \<and> - (2 ^ 63) \<le> n \<and> n < 2 ^ 63"
      using digits_value_pos [of ds] dec_nat_canonical [of ds] by (auto simp: s dec_int_def)
  next
    assume n: "s = dec_int n \<and> - (2 ^ 63) \<le> n \<and> n < 2 ^ 63"
    have "n < 0"
    proof (rule ccontr)
      assume "\<not> n < 0"
      with n have "dec_nat (nat n) = CHR ''-'' # ds" by (simp add: s dec_int_def)
      with dec_nat_hd_digit [of "nat n"] sign_not_space show False by simp
    qed
    with n show "stoi64 s = Some n"
      by (auto simp: dec_int_def stoi64_minus dec_nat_digits dec_nat_hd_zero)
  qed
next
  case False
  show ?thesis
  proof (cases "s = []")
    case True
    then show ?thesis by (auto simp: stoi64_def dec_int_def dec_nat_nonempty [symmetric])
  next
    case F: False
    show ?thesis
    proof
      assume "stoi64 s = Some n"
      then show "s = dec_int n \<and> - (2 ^ 63) \<le> n \<and> n < 2 ^ 63"
        using False F dec_nat_canonical [of s] by (auto simp: stoi64_plain dec_int_def split: if_splits)
    next
      assume n: "s = dec_int n \<and> - (2 ^ 63) \<le> n \<and> n < 2 ^ 63"
      then have "\<not> n < 0" using False F by (auto simp: dec_int_def)
      with n False F show "stoi64 s = Some n"
        using dec_nat_head [of "nat n"] by (auto simp: dec_int_def stoi64_plain dec_nat_digits)
    qed
  qed
qed

text \<open>
  \<open>isValidUtf8\<close> decides whether a text ends with a whole character: appending the encoding
  of a code point makes it true, whatever stands before; a proper, non-empty prefix of that
  encoding at the end makes it false.
\<close>

theorem isValidUtf8_tells_complete_endings:
  assumes "u < 2 ^ 21" "0 < k" "k < length (utf8_encode u)"
  shows "isValidUtf8 (t @ utf8_encode u) \<and> \<not> isValidUtf8 (t @ take k (utf8_encode u))"
proof -
  have b: "u div 64 mod 64 < 64" "u mod 64 < 64" "u div 4096 mod 64 < 64" by simp_all
  consider "u < 2 ^ 7" | "2 ^ 7 \<le> u \<and> u < 2 ^ 11" | "2 ^ 11 \<le> u \<and> u < 2 ^ 16" | "2 ^ 16 \<le> u" by linarith
  then show ?thesis
  proof cases
    case 2
    then have "u div 64 < 32" "k = 1" using assms by (auto simp: utf8_encode_def)
    then show ?thesis using 2 b by (simp add: utf8_encode_def isValidUtf8_def utf8_shape)
  next
    case 3
    then have "u div 4096 < 16" "k = 1 \<or> k = 2" using assms by (auto simp: utf8_encode_def)
    then show ?thesis using 3 b by (auto simp: utf8_encode_def isValidUtf8_def utf8_shape)
  next
    case 4
    then have "u div 262144 < 8" "k = 1 \<or> k = 2 \<or> k = 3" using assms by (auto simp: utf8_encode_def)
    then show ?thesis using 4 b by (auto simp: utf8_encode_def isValidUtf8_def utf8_shape numeral_3_eq_3)
  qed (use assms in \<open>simp add: utf8_encode_def\<close>)
qed

theorem isValidUtf8_tells_complete_endings_witness:
  "isValidUtf8 (''a'' @ utf8_encode 8364) \<and> \<not> isValidUtf8 (''a'' @ take 2 (utf8_encode 8364))"
  by (rule isValidUtf8_tells_complete_endings) (simp_all add: utf8_encode_def)

text \<open>
  \<open>escapeSpecialCharacters\<close> loses nothing: reading the escapes of the escaped text
  back, each escape sequence in turn, gives the text, whatever bytes it holds.
\<close>

theorem escapeSpecialCharacters_roundtrip: "unescape (escapeSpecialCharacters s) = s"
  by (induction s) (simp_all add: escapeSpecialCharacters_def unescape_escape_char)

text \<open>
  \<open>stou64\<close> is meant to reject negative numbers, but looks only at the first character: after
  a space the minus sign reaches \<open>std::stoull\<close>, which negates modulo \<open>2 ^ 64\<close>.
\<close>

theorem stou64_accepts_a_negative_number_after_a_space:
  "stou64 ''-5'' = None \<and> stou64 '' -5'' = Some (2 ^ 64 - 5)"
  by (simp add: stou64_def std_stoul_def parse_number_def is_space_def is_digit_def digits_value_def
      digit_value_def Let_def)

end
