(* ===== verification/Shapes.thy ===== *)
theory Shapes
  imports Text_Utils
begin

text \<open>
  Tensor dimensions and shapes (\<open>src/shape.hpp\<close>, \<open>src/shape.cpp\<close>): the checked constructor,
  matching, intersection and the parser of the configuration syntax. A dimension is the pair of
  64-bit bounds of the code, both \<open>-1\<close> for an unbounded one; bounds are only compared, never
  added, so they are \<open>int\<close>. A request's dimensions are \<open>size_t\<close> and converted to 64-bit signed
  where the code converts them. The conversions from and to \<open>ov::Dimension\<close> are not modelled.
\<close>

datatype Mode = FIXED | AUTO

record Dimension =
  dim_minimum :: int
  dim_maximum :: int

definition DYNAMIC_DIMENSION :: int where
  "DYNAMIC_DIMENSION = -1"

definition DIMENSION_RANGE_DELIMETER :: char where
  "DIMENSION_RANGE_DELIMETER = CHR '':''"

section \<open>Dimensions\<close>

definition Dimension_range :: "int \<Rightarrow> int \<Rightarrow> Dimension result" where
  "Dimension_range mn mx =
     (if mn = -1 \<and> mx \<noteq> -1 then Inl (InvalidArgument ''Invalid range'')
      else if mn < -1 \<or> mx < -1 then Inl (InvalidArgument ''Range must not be lower than -1'')
      else if mx < mn then Inl (InvalidArgument ''Range maximum must be higher or equal to minimum'')
      else Inr \<lparr>dim_minimum = mn, dim_maximum = mx\<rparr>)"

definition Dimension_static :: "int \<Rightarrow> Dimension result" where
  "Dimension_static d = Dimension_range d d"

definition dim_any :: Dimension where
  "dim_any = \<lparr>dim_minimum = DYNAMIC_DIMENSION, dim_maximum = DYNAMIC_DIMENSION\<rparr>"

definition dim_isDynamic :: "Dimension \<Rightarrow> bool" where
  "dim_isDynamic d =
     (if dim_minimum d \<noteq> dim_maximum d then True
      else if dim_minimum d = DYNAMIC_DIMENSION then True else False)"

definition dim_isStatic :: "Dimension \<Rightarrow> bool" where
  "dim_isStatic d = (\<not> dim_isDynamic d)"

definition dim_isAny :: "Dimension \<Rightarrow> bool" where
  "dim_isAny d = (dim_maximum d = DYNAMIC_DIMENSION \<and> dim_minimum d = DYNAMIC_DIMENSION)"

definition getStaticValue :: "Dimension \<Rightarrow> int result" where
  "getStaticValue d =
     (if dim_isDynamic d then Inl (InvalidArgument ''getStaticValue but dimension dynamic'')
      else Inr (dim_maximum d))"

definition getMinValue :: "Dimension \<Rightarrow> int result" where
  "getMinValue d =
     (if dim_isStatic d then Inl (InvalidArgument ''getMinValue but dimension static'')
      else if dim_isAny d then Inl (InvalidArgument ''getMinValue but dimension any'')
      else Inr (dim_minimum d))"

definition getMaxValue :: "Dimension \<Rightarrow> int result" where
  "getMaxValue d =
     (if dim_isStatic d then Inl (InvalidArgument ''getMaxValue but dimension static'')
      else if dim_isAny d then Inl (InvalidArgument ''getMinValue but dimension any'')
      else Inr (dim_maximum d))"

definition getLowerBound :: "Dimension \<Rightarrow> int result" where
  "getLowerBound d = (if dim_isStatic d then getStaticValue d else getMinValue d)"

definition getUpperBound :: "Dimension \<Rightarrow> int result" where
  "getUpperBound d = (if dim_isStatic d then getStaticValue d else getMaxValue d)"

definition dim_match :: "Dimension \<Rightarrow> int \<Rightarrow> bool result" where
  "dim_match d v =
     (if v < -1 then Inr False
      else if dim_isAny d then Inr True
      else if dim_isStatic d then rbind (getStaticValue d) (\<lambda>s. Inr (s = v))
      else rbind (getMinValue d) (\<lambda>mn.
        if v < mn then Inr False
        else rbind (getMaxValue d) (\<lambda>mx.
          if mx < v then Inr False else Inr True)))"

definition partiallyFitsInto :: "Dimension \<Rightarrow> Dimension \<Rightarrow> bool result" where
  "partiallyFitsInto d nxt =
     (if dim_isAny nxt \<or> dim_isAny d then Inr True
      else if dim_isStatic d then rbind (getStaticValue d) (dim_match nxt)
      else if dim_isStatic nxt then rbind (getStaticValue nxt) (dim_match d)
      else rbind (getMinValue nxt) (\<lambda>nmn. rbind (getMaxValue d) (\<lambda>mx.
        if mx < nmn then Inr False
        else rbind (getMaxValue nxt) (\<lambda>nmx. rbind (getMinValue d) (\<lambda>mn.
          if nmx < mn then Inr False else Inr True)))))"

definition dim_createIntersection :: "Dimension \<Rightarrow> Dimension \<Rightarrow> Dimension option result" where
  "dim_createIntersection d other =
     (if d = dim_any then Inr (Some other)
      else if other = dim_any then Inr (Some d)
      else rbind (getLowerBound d) (\<lambda>l1. rbind (getLowerBound other) (\<lambda>l2.
           rbind (getUpperBound d) (\<lambda>u1. rbind (getUpperBound other) (\<lambda>u2.
             if min u1 u2 < max l1 l2 then Inr None
             else rbind (Dimension_range (max l1 l2) (min u1 u2)) (\<lambda>r. Inr (Some r)))))))"

definition dim_toString :: "Dimension \<Rightarrow> string" where
  "dim_toString d =
     (if dim_isStatic d then dec_int (dim_minimum d)
      else if dim_maximum d = DYNAMIC_DIMENSION then dec_int DYNAMIC_DIMENSION
      else ''['' @ dec_int (dim_minimum d) @ ''~'' @ dec_int (dim_maximum d) @ '']'')"

text \<open>\<open>s.find_first_not_of(cs) == npos\<close>\<close>

definition only_chars :: "string \<Rightarrow> string \<Rightarrow> bool" where
  "only_chars cs s = list_all (\<lambda>c. c \<in> set cs) s"

text \<open>A standard conversion inside \<open>try ... catch (...)\<close> that returns the status.\<close>

definition caught :: "'e \<Rightarrow> 'a result \<Rightarrow> 'e + 'a" where
  "caught e r = (case r of Inl _ \<Rightarrow> Inl e | Inr x \<Rightarrow> Inr x)"

definition std_stoi_val :: "string \<Rightarrow> int result" where
  "std_stoi_val s = rbind (std_stoi s) (\<lambda>(v, _). Inr v)"

definition dim_fromString :: "string \<Rightarrow> StatusCode + Dimension" where
  "dim_fromString str =
     (let strCopy = erase_spaces str
      in if CHR '':'' \<in> set strCopy then
           (if \<not> only_chars ''0123456789:'' strCopy then Inl SC_DIM_WRONG_FORMAT
            else if count_list strCopy DIMENSION_RANGE_DELIMETER \<noteq> 1 then Inl SC_DIM_WRONG_FORMAT
            else let tokens = tokenize strCopy DIMENSION_RANGE_DELIMETER
              in if length tokens = 2 then
                   rbind (caught SC_DIM_WRONG_FORMAT (std_stoi_val (tokens ! 0))) (\<lambda>dimNumberMin.
                   rbind (caught SC_DIM_WRONG_FORMAT (std_stoi_val (tokens ! 1))) (\<lambda>dimNumberMax.
                     if 0 < dimNumberMin \<and> 0 < dimNumberMax then
                       caught SC_DIM_WRONG_FORMAT (Dimension_range dimNumberMin dimNumberMax)
                     else if dimNumberMin \<ge> dimNumberMax then Inl SC_DIM_WRONG_FORMAT
                     else Inl SC_DIM_WRONG_FORMAT))
                 else Inl SC_DIM_WRONG_FORMAT)
         else let cnt = count_list strCopy (CHR ''-'')
           in if 1 < cnt then Inl SC_DIM_WRONG_FORMAT
              else if cnt = 1 \<and> hd strCopy \<noteq> CHR ''-'' then Inl SC_DIM_WRONG_FORMAT
              else if \<not> only_chars ''0123456789-'' strCopy then Inl SC_DIM_WRONG_FORMAT
              else rbind (caught SC_DIM_WRONG_FORMAT (std_stoi_val strCopy)) (\<lambda>dimNumber.
                     if dimNumber = DYNAMIC_DIMENSION then Inr dim_any
                     else if 0 \<le> dimNumber then
                       caught SC_DIM_WRONG_FORMAT (Dimension_static dimNumber)
                     else Inl SC_DIM_WRONG_FORMAT))"

section \<open>Shapes\<close>

type_synonym Shape = "Dimension list"

text \<open>\<open>static_cast<dimension_value_t>\<close> of a \<open>size_t\<close>.\<close>

definition to_dimension_value :: "nat \<Rightarrow> int" where
  "to_dimension_value n = signed_take_bit 63 (int n)"

text \<open>The constructor does not throw here: the value is not negative.\<close>

fun fromFlatShape :: "nat list \<Rightarrow> StatusCode + Shape" where
  "fromFlatShape [] = Inr []"
| "fromFlatShape (dim # rest) =
     (if 2 ^ 63 - 1 < dim then Inl SC_CANNOT_CONVERT_FLAT_SHAPE
      else rbind (caught SC_INTERNAL_ERROR (Dimension_static (to_dimension_value dim)))
             (\<lambda>d. rbind (fromFlatShape rest) (\<lambda>ds. Inr (d # ds))))"

definition Shape_flat :: "nat list \<Rightarrow> Shape result" where
  "Shape_flat s =
     (case fromFlatShape s of
        Inl _ \<Rightarrow> Inl (InvalidArgument ''Could not convert from flat shape'')
      | Inr sh \<Rightarrow> Inr sh)"

definition shape_eq :: "Shape \<Rightarrow> Shape \<Rightarrow> bool" where
  "shape_eq s t \<longleftrightarrow> length s = length t \<and> list_all2 (=) s t"

fun match_dims :: "(Dimension \<times> nat) list \<Rightarrow> bool result" where
  "match_dims [] = Inr True"
| "match_dims ((d, v) # rest) =
     rbind (dim_match d (to_dimension_value v)) (\<lambda>b. if \<not> b then Inr False else match_dims rest)"

definition shape_match :: "Shape \<Rightarrow> nat list \<Rightarrow> bool result" where
  "shape_match s ovShape =
     (if length s \<noteq> length ovShape then Inr False else match_dims (zip s ovShape))"

text \<open>
  The overload that leaves one position out. Its first loop runs to \<open>skipPosition\<close> whatever the
  size is; a position beyond the shape reads outside the vector (here \<open>OutOfRange\<close>) unless an
  earlier dimension already differs.
\<close>

definition shape_match_skip :: "Shape \<Rightarrow> nat list \<Rightarrow> nat \<Rightarrow> bool result" where
  "shape_match_skip s ovShape skipPosition =
     (if length s \<noteq> length ovShape then Inr False
      else rbind (match_dims (zip (take skipPosition s) (take skipPosition ovShape))) (\<lambda>b.
        if \<not> b then Inr False
        else if length s < skipPosition then Inl OutOfRange
        else match_dims (zip (drop (skipPosition + 1) s) (drop (skipPosition + 1) ovShape))))"

fun intersect_dims :: "Shape \<Rightarrow> Shape \<Rightarrow> Shape option result" where
  "intersect_dims (d # ds) (e # es) =
     rbind (dim_createIntersection d e) (\<lambda>r.
       case r of None \<Rightarrow> Inr None
       | Some i \<Rightarrow> rbind (intersect_dims ds es) (\<lambda>rs. Inr (map_option ((#) i) rs)))"
| "intersect_dims _ _ = Inr (Some [])"

definition shape_createIntersection :: "Shape \<Rightarrow> Shape \<Rightarrow> Shape option result" where
  "shape_createIntersection s other =
     (if length s \<noteq> length other then Inr None else intersect_dims s other)"

definition shape_toString :: "Shape \<Rightarrow> string" where
  "shape_toString s = ''('' @ joins (map dim_toString s) '','' @ '')''"

text \<open>One token of \<open>Shape::fromString\<close>.\<close>

definition dim_token :: "string \<Rightarrow> StatusCode + Dimension" where
  "dim_token token =
     (let minus = count_list token (CHR ''-'');
          colons = count_list token DIMENSION_RANGE_DELIMETER
      in if 1 < minus then Inl SC_SHAPE_WRONG_FORMAT
         else if minus = 1 \<and> token \<noteq> [] \<and> hd token \<noteq> CHR ''-'' then Inl SC_SHAPE_WRONG_FORMAT
         else if 1 < colons then Inl SC_SHAPE_WRONG_FORMAT
         else if colons = 0 then
           rbind (caught SC_SHAPE_WRONG_FORMAT (std_stoi_val token)) (\<lambda>dimValue.
             if dimValue = DYNAMIC_DIMENSION \<or> 0 \<le> dimValue then
               caught SC_SHAPE_WRONG_FORMAT (Dimension_static dimValue)
             else Inl SC_SHAPE_WRONG_FORMAT)
         else let subTokens = tokenize token DIMENSION_RANGE_DELIMETER
           in if length subTokens \<noteq> 2 \<or> subTokens ! 0 = [] \<or> subTokens ! 1 = [] then
                Inl SC_SHAPE_WRONG_FORMAT
              else rbind (caught SC_SHAPE_WRONG_FORMAT (std_stoi_val (subTokens ! 0))) (\<lambda>dimMin.
                   rbind (caught SC_SHAPE_WRONG_FORMAT (std_stoi_val (subTokens ! 1))) (\<lambda>dimMax.
                     if dimMin < 0 \<or> dimMax < 0 then Inl SC_SHAPE_WRONG_FORMAT
                     else if dimMax \<le> dimMin then Inl SC_SHAPE_WRONG_FORMAT
                     else caught SC_SHAPE_WRONG_FORMAT (Dimension_range dimMin dimMax))))"

fun dim_tokens :: "string list \<Rightarrow> StatusCode + Shape" where
  "dim_tokens [] = Inr []"
| "dim_tokens (t # ts) = rbind (dim_token t) (\<lambda>d. rbind (dim_tokens ts) (\<lambda>ds. Inr (d # ds)))"

definition shape_fromString :: "string \<Rightarrow> StatusCode + Shape" where
  "shape_fromString strIn =
     (let str = erase_spaces strIn
      in if \<not> only_chars ''0123456789(),-:'' str then Inl SC_SHAPE_WRONG_FORMAT
         else if count_list str (CHR ''('') \<noteq> 1 then Inl SC_SHAPE_WRONG_FORMAT
         else if count_list str (CHR '')'') \<noteq> 1 then Inl SC_SHAPE_WRONG_FORMAT
         else if length str \<le> 2 then Inl SC_SHAPE_WRONG_FORMAT
         else if hd str \<noteq> CHR ''('' \<or> last str \<noteq> CHR '')'' then Inl SC_SHAPE_WRONG_FORMAT
         else dim_tokens (tokenize (tl (butlast str)) (CHR '','')))"

record ShapeInfo =
  si_shapeMode :: Mode
  si_shape :: Shape

definition shapeInfo_eq :: "ShapeInfo \<Rightarrow> ShapeInfo \<Rightarrow> bool" where
  "shapeInfo_eq a b \<longleftrightarrow> si_shapeMode a = si_shapeMode b \<and> shape_eq (si_shape a) (si_shape b)"

definition shapeInfo_toString :: "ShapeInfo \<Rightarrow> string" where
  "shapeInfo_toString i =
     shape_toString (si_shape i) @ '' ('' @ (if si_shapeMode i = FIXED then ''fixed'' else ''auto'') @ '')''"

section \<open>Well-formed dimensions\<close>

text \<open>What the checked constructor lets through.\<close>

definition wf_dim :: "Dimension \<Rightarrow> bool" where
  "wf_dim d \<longleftrightarrow> d = dim_any \<or> (0 \<le> dim_minimum d \<and> dim_minimum d \<le> dim_maximum d)"

definition wf_shape :: "Shape \<Rightarrow> bool" where
  "wf_shape = list_all wf_dim"

lemmas dim_defs = dim_any_def DYNAMIC_DIMENSION_def dim_isDynamic_def dim_isStatic_def dim_isAny_def

lemmas dim_getters = getStaticValue_def getMinValue_def getMaxValue_def getLowerBound_def getUpperBound_def

lemma dim_eqI: "dim_minimum d = dim_minimum e \<Longrightarrow> dim_maximum d = dim_maximum e \<Longrightarrow> d = (e :: Dimension)"
  by (cases d; cases e) simp

lemma dim_isAny_iff: "dim_isAny d \<longleftrightarrow> d = dim_any"
  by (auto simp: dim_defs intro: dim_eqI)

lemma wf_dim_any [simp]: "wf_dim dim_any"
  by (simp add: wf_dim_def)

lemma Dimension_range_wf:
  "Dimension_range mn mx = Inr d \<longleftrightarrow>
     wf_dim d \<and> dim_minimum d = mn \<and> dim_maximum d = mx"
  by (cases d) (auto simp: Dimension_range_def wf_dim_def dim_defs)

lemma dim_isDynamic_iff: "dim_isDynamic d \<longleftrightarrow> \<not> dim_isStatic d"
  by (simp add: dim_isStatic_def)

lemma dim_isStatic_wf: "wf_dim d \<Longrightarrow> dim_isStatic d \<longleftrightarrow> d \<noteq> dim_any \<and> dim_minimum d = dim_maximum d"
  by (auto simp: wf_dim_def dim_defs split: if_splits)

lemma wf_dim_nonneg: "wf_dim d \<Longrightarrow> d \<noteq> dim_any \<Longrightarrow> 0 \<le> dim_minimum d \<and> dim_minimum d \<le> dim_maximum d"
  by (auto simp: wf_dim_def)

lemma dim_match_wf:
  "wf_dim d \<Longrightarrow>
     dim_match d v = Inr (-1 \<le> v \<and> (d = dim_any \<or> (dim_minimum d \<le> v \<and> v \<le> dim_maximum d)))"
  by (cases "d = dim_any")
     (auto simp: dim_match_def dim_isAny_iff dim_getters dim_isDynamic_iff dim_isStatic_wf dest!: wf_dim_nonneg)

lemma wf_dim_bounds:
  "wf_dim d \<Longrightarrow> d \<noteq> dim_any \<Longrightarrow>
     getLowerBound d = Inr (dim_minimum d) \<and> getUpperBound d = Inr (dim_maximum d)"
  by (auto simp: dim_getters dim_isDynamic_iff dim_isStatic_wf dim_isAny_iff)

lemma dim_createIntersection_wf:
  assumes "wf_dim d" "wf_dim e"
  shows "dim_createIntersection d e =
    Inr (if d = dim_any then Some e else if e = dim_any then Some d
         else if min (dim_maximum d) (dim_maximum e) < max (dim_minimum d) (dim_minimum e) then None
         else Some \<lparr>dim_minimum = max (dim_minimum d) (dim_minimum e),
                     dim_maximum = min (dim_maximum d) (dim_maximum e)\<rparr>)"
  using assms wf_dim_bounds [of d] wf_dim_bounds [of e]
  by (auto simp: dim_createIntersection_def Dimension_range_def wf_dim_def)

section \<open>Intersection as the meet of what is matched\<close>

locale intersectable =
  fixes wf :: "'d \<Rightarrow> bool"
    and mat :: "'d \<Rightarrow> 'v \<Rightarrow> exn + bool"
    and inter :: "'d \<Rightarrow> 'd \<Rightarrow> exn + 'd option"
  assumes mat_total: "wf d \<Longrightarrow> mat d v = Inr True \<or> mat d v = Inr False"
    and inter_total: "wf d \<Longrightarrow> wf e \<Longrightarrow> \<exists>r. inter d e = Inr r"
    and inter_None: "wf d \<Longrightarrow> wf e \<Longrightarrow> inter d e = Inr None \<Longrightarrow>
      \<not> (mat d v = Inr True \<and> mat e v = Inr True)"
    and inter_Some: "wf d \<Longrightarrow> wf e \<Longrightarrow> inter d e = Inr (Some f) \<Longrightarrow>
      wf f \<and> (mat f v = Inr True \<longleftrightarrow> mat d v = Inr True \<and> mat e v = Inr True)"
begin

text \<open>The order of the arguments does not matter for what the result matches.\<close>

lemma inter_commute:
  assumes "wf d" "wf e" "inter d e = Inr (Some f)" "inter e d = Inr (Some g)"
  shows "mat f v = mat g v"
  using assms inter_Some [of d e f v] inter_Some [of e d g v] mat_total [of f v] mat_total [of g v]
  by metis

text \<open>A value matched by both sides makes the intersection exist, and lies in it.\<close>

lemma inter_exists:
  assumes "wf d" "wf e" "mat d v = Inr True" "mat e v = Inr True"
  shows "\<exists>f. inter d e = Inr (Some f) \<and> wf f \<and> mat f v = Inr True"
  using assms inter_total [of d e] inter_None [of d e v] inter_Some [of d e _ v]
  by (metis option.exhaust)

lemma inter_characterised:
  assumes "wf d" "wf e"
  shows "(inter d e = Inr None \<and> (\<forall>v. \<not> (mat d v = Inr True \<and> mat e v = Inr True))) \<or>
         (\<exists>f. inter d e = Inr (Some f) \<and> wf f \<and>
              (\<forall>v. mat f v = Inr (mat d v = Inr True \<and> mat e v = Inr True)))"
proof -
  obtain r where r: "inter d e = Inr r" using inter_total [OF assms] by blast
  show ?thesis
  proof (cases r)
    case None
    then show ?thesis using r inter_None [OF assms] by blast
  next
    case (Some f)
    then have "wf f" using r inter_Some [OF assms] by blast
    moreover have "mat f v = Inr (mat d v = Inr True \<and> mat e v = Inr True)" for v
      using inter_Some [OF assms, of f v] r Some mat_total [OF \<open>wf f\<close>, of v] by auto
    ultimately show ?thesis using r Some by blast
  qed
qed

end

interpretation dim: intersectable wf_dim dim_match dim_createIntersection
proof (unfold_locales, goal_cases)
  case (1 d v)
  then show ?case by (auto simp: dim_match_wf)
next
  case (2 d e)
  then show ?case by (simp add: dim_createIntersection_wf)
next
  case (3 d e v)
  then show ?case
    by (auto simp: dim_createIntersection_wf dim_match_wf split: if_splits)
next
  case (4 d e f v)
  then have "wf_dim f"
    by (auto simp: dim_createIntersection_wf wf_dim_def split: if_splits)
  with 4 show ?case
    by (auto simp: dim_createIntersection_wf dim_match_wf wf_dim_def split: if_splits)
      (auto simp: dim_defs)
qed

text \<open>Shapes: dimension by dimension.\<close>

lemma match_dims_total:
  "list_all (\<lambda>(d, v). wf_dim d) ps \<Longrightarrow>
     match_dims ps = Inr (list_all (\<lambda>(d, v). dim_match d (to_dimension_value v) = Inr True) ps)"
  by (induction ps rule: match_dims.induct) (auto simp: dim_match_wf)

lemma shape_match_wf:
  assumes "wf_shape s"
  shows "shape_match s vs =
    Inr (list_all2 (\<lambda>d v. dim_match d (to_dimension_value v) = Inr True) s vs)"
proof (cases "length s = length vs")
  case True
  have "list_all (\<lambda>(d, v). wf_dim d) (zip s vs)"
    using assms by (auto simp: wf_shape_def list_all_iff dest: set_zip_leftD)
  then show ?thesis using True by (simp add: shape_match_def match_dims_total list_all2_iff list_all_iff)
qed (auto simp: shape_match_def dest: list_all2_lengthD)

lemma intersect_dims_cases:
  assumes "length s = length t" "wf_shape s" "wf_shape t"
  shows "(intersect_dims s t = Inr None \<and>
            (\<exists>i < length s. dim_createIntersection (s ! i) (t ! i) = Inr None)) \<or>
         (\<exists>r. intersect_dims s t = Inr (Some r) \<and> length r = length s \<and>
            (\<forall>i < length s. dim_createIntersection (s ! i) (t ! i) = Inr (Some (r ! i))))"
  using assms
proof (induction s t rule: list_induct2)
  case (Cons d ds e es)
  then have wf: "wf_dim d" "wf_dim e" and IH: "wf_shape ds" "wf_shape es" by (auto simp: wf_shape_def)
  obtain r where r: "dim_createIntersection d e = Inr r" using dim.inter_total [OF wf] by blast
  show ?case
  proof (cases r)
    case None
    then show ?thesis using r by auto
  next
    case (Some i)
    show ?thesis
      using Cons.IH [OF IH]
    proof
      assume "intersect_dims ds es = Inr None \<and>
        (\<exists>i < length ds. dim_createIntersection (ds ! i) (es ! i) = Inr None)"
      then show ?thesis using r Some by (auto intro: exI[of _ "Suc _"])
    next
      assume "\<exists>r. intersect_dims ds es = Inr (Some r) \<and> length r = length ds \<and>
        (\<forall>i < length ds. dim_createIntersection (ds ! i) (es ! i) = Inr (Some (r ! i)))"
      then obtain rs where "intersect_dims ds es = Inr (Some rs)" "length rs = length ds"
        "\<forall>i < length ds. dim_createIntersection (ds ! i) (es ! i) = Inr (Some (rs ! i))" by blast
      then have "intersect_dims (d # ds) (e # es) = Inr (Some (i # rs)) \<and> length (i # rs) = length (d # ds) \<and>
        (\<forall>j < length (d # ds). dim_createIntersection ((d # ds) ! j) ((e # es) ! j) = Inr (Some ((i # rs) ! j)))"
        using r Some by (auto simp: less_Suc_eq_0_disj)
      then show ?thesis by blast
    qed
  qed
qed simp

interpretation shp: intersectable wf_shape shape_match shape_createIntersection
proof (unfold_locales, goal_cases)
  case (1 s v)
  then show ?case by (auto simp: shape_match_wf)
next
  case (2 s t)
  then show ?case using intersect_dims_cases [of s t] by (auto simp: shape_createIntersection_def)
next
  case (3 s t v)
  show ?case
  proof (cases "length s = length t")
    case True
    then obtain i where i: "i < length s" "dim_createIntersection (s ! i) (t ! i) = Inr None"
      using 3 intersect_dims_cases [of s t] by (auto simp: shape_createIntersection_def)
    have "wf_dim (s ! i)" "wf_dim (t ! i)" using 3 i(1) True by (auto simp: wf_shape_def list_all_length)
    from dim.inter_None [OF this i(2), of "to_dimension_value (v ! i)"] i(1)
    show ?thesis using 3 by (auto simp: shape_match_wf list_all2_conv_all_nth)
  qed (use 3 in \<open>auto simp: shape_match_wf dest!: list_all2_lengthD\<close>)
next
  case (4 s t f v)
  then have l: "length s = length t" by (auto simp: shape_createIntersection_def split: if_splits)
  with 4 intersect_dims_cases [of s t] have f: "length f = length s"
      "\<forall>i < length s. dim_createIntersection (s ! i) (t ! i) = Inr (Some (f ! i))"
    by (auto simp: shape_createIntersection_def)
  have step: "wf_dim (f ! i) \<and> (dim_match (f ! i) x = Inr True \<longleftrightarrow>
      dim_match (s ! i) x = Inr True \<and> dim_match (t ! i) x = Inr True)" if "i < length s" for i x
    using dim.inter_Some [of "s ! i" "t ! i" "f ! i" x] 4 f(2) l that
    by (auto simp: wf_shape_def list_all_length)
  then have "wf_shape f" using f(1) by (auto simp: wf_shape_def list_all_length)
  then show ?case using 4 step f(1) l by (auto simp: shape_match_wf list_all2_conv_all_nth)
qed

section \<open>Partial fit\<close>

lemma partiallyFitsInto_wf:
  assumes "wf_dim d" "wf_dim e"
  shows "partiallyFitsInto d e = Inr (dim_createIntersection d e \<noteq> Inr None)"
  using assms wf_dim_nonneg [of d] wf_dim_nonneg [of e]
  by (cases "d = dim_any"; cases "e = dim_any")
     (auto simp: partiallyFitsInto_def dim_isAny_iff dim_getters dim_isDynamic_iff dim_isStatic_wf
        dim_match_wf dim_createIntersection_wf)

section \<open>The configuration syntax\<close>

text \<open>How a dimension and a shape are written in a configuration.\<close>

definition dim_spec :: "Dimension \<Rightarrow> string" where
  "dim_spec d =
     (if dim_minimum d = dim_maximum d then dec_int (dim_minimum d)
      else dec_int (dim_minimum d) @ '':'' @ dec_int (dim_maximum d))"

definition shape_spec :: "Shape \<Rightarrow> string" where
  "shape_spec s = ''('' @ joins (map dim_spec s) '','' @ '')''"

lemma parse_dec_int: "parse_number (dec_int n) = Some (n < 0, nat \<bar>n\<bar>, length (dec_int n))"
  using parse_number_digits [OF dec_nat_digits dec_nat_nonempty, of "nat n"]
    parse_number_minus [OF dec_nat_digits, of "nat (- n)"]
  by (auto simp: dec_int_def)

lemma stoi_dec_int:
  "- (2 ^ 31) \<le> n \<Longrightarrow> n < 2 ^ 31 \<Longrightarrow> std_stoi_val (dec_int n) = Inr n"
  by (auto simp: std_stoi_val_def std_stoi_def std_signed_def parse_dec_int Let_def)

lemma dec_int_chars: "set (dec_int n) \<subseteq> insert CHR ''-'' (Collect is_digit)"
  using dec_nat_digits by (auto simp: dec_int_def list_all_iff)

lemma dec_nat_chars: "set (dec_nat n) \<subseteq> Collect is_digit"
  using dec_nat_digits by (auto simp: list_all_iff)

lemma dec_int_nonneg: "0 \<le> n \<Longrightarrow> dec_int n = dec_nat (nat n)"
  by (simp add: dec_int_def)

lemma count_digits: "list_all is_digit ds \<Longrightarrow> \<not> is_digit c \<Longrightarrow> count_list ds c = 0"
  by (auto simp: count_list_0_iff list_all_iff)

lemma not_digits [simp]:
  "\<not> is_digit CHR '':''" "\<not> is_digit CHR '',''" "\<not> is_digit CHR ''(''" "\<not> is_digit CHR '')''" "\<not> is_digit CHR ''-''"
  by (simp_all add: is_digit_def)

lemma tokenize_pair:
  "d \<notin> set a \<Longrightarrow> d \<notin> set b \<Longrightarrow> b \<noteq> [] \<Longrightarrow> tokenize (a @ d # b) d = [a, b]"
  by (simp add: tokenize_piece tokenize_last)

lemma dec_int_minus_count: "count_list (dec_int n) CHR ''-'' = (if n < 0 then 1 else 0)"
  by (simp add: dec_int_def count_digits [OF dec_nat_digits])

lemma dec_int_head: "hd (dec_int n) = CHR ''-'' \<longleftrightarrow> n < 0"
  using dec_nat_hd_digit [of "nat n"] sign_not_space(2) by (auto simp: dec_int_def)

lemma dec_int_colons: "count_list (dec_int n) CHR '':'' = 0"
  by (simp add: dec_int_def count_digits [OF dec_nat_digits])

lemma dim_token_single:
  assumes "-1 \<le> n" "n < 2 ^ 31"
  shows "dim_token (dec_int n) = Inr \<lparr>dim_minimum = n, dim_maximum = n\<rparr>"
  using assms
  by (simp add: dim_token_def dec_int_minus_count dec_int_head dec_int_colons DIMENSION_RANGE_DELIMETER_def
      stoi_dec_int DYNAMIC_DIMENSION_def caught_def Dimension_static_def Dimension_range_def Let_def)

lemma dim_token_range:
  assumes "0 \<le> a" "a < b" "b < 2 ^ 31"
  shows "dim_token (dec_int a @ CHR '':'' # dec_int b) = Inr \<lparr>dim_minimum = a, dim_maximum = b\<rparr>"
proof -
  have "CHR '':'' \<notin> set (dec_nat (nat a))" "CHR '':'' \<notin> set (dec_nat (nat b))"
    using dec_nat_chars not_digits(1) by blast+
  then have tok: "tokenize (dec_int a @ CHR '':'' # dec_int b) CHR '':'' = [dec_int a, dec_int b]"
    using assms by (intro tokenize_pair) (auto simp: dec_int_nonneg)
  have ne: "dec_int a \<noteq> []" "dec_int b \<noteq> []" using assms by (simp_all add: dec_int_nonneg)
  show ?thesis
    using assms
    by (simp add: dim_token_def dec_int_minus_count dec_int_colons DIMENSION_RANGE_DELIMETER_def tok ne
        stoi_dec_int caught_def Dimension_range_def Let_def)
qed

definition dim_fits_int32 :: "Dimension \<Rightarrow> bool" where
  "dim_fits_int32 d \<longleftrightarrow> dim_maximum d < 2 ^ 31"

lemma dim_token_spec: "wf_dim d \<Longrightarrow> dim_fits_int32 d \<Longrightarrow> dim_token (dim_spec d) = Inr d"
  using dim_token_single [of "dim_minimum d"] dim_token_range [of "dim_minimum d" "dim_maximum d"]
  by (cases d) (auto simp: dim_spec_def wf_dim_def dim_fits_int32_def dim_any_def DYNAMIC_DIMENSION_def)

lemma dim_tokens_spec:
  "wf_shape s \<Longrightarrow> list_all dim_fits_int32 s \<Longrightarrow> dim_tokens (map dim_spec s) = Inr s"
  by (induction s) (auto simp: wf_shape_def dim_token_spec)

definition spec_char :: "char \<Rightarrow> bool" where
  "spec_char c \<longleftrightarrow> is_digit c \<or> c = CHR ''-'' \<or> c = CHR '':''"

lemma dim_spec_chars: "list_all spec_char (dim_spec d)"
  using dec_int_chars by (fastforce simp: dim_spec_def list_all_iff spec_char_def)

lemma dim_spec_nonempty: "dim_spec d \<noteq> []"
  by (auto simp: dim_spec_def dec_int_def)

lemma joins_chars: "\<forall>x\<in>set xs. list_all P x \<Longrightarrow> list_all P d \<Longrightarrow> list_all P (joins xs d)"
  by (induction xs d rule: joins.induct) auto

lemma dim_token_wf: "dim_token t = Inr d \<Longrightarrow> wf_dim d"
  by (auto simp: dim_token_def caught_def Dimension_static_def Dimension_range_wf rbind_Inr_iff Let_def
      split: if_splits sum.splits)

lemma dim_tokens_wf: "dim_tokens ts = Inr s \<Longrightarrow> wf_shape s \<and> length s = length ts"
  by (induction ts arbitrary: s) (auto simp: wf_shape_def rbind_Inr_iff dest: dim_token_wf)

lemma is_digit_in: "is_digit c \<Longrightarrow> c \<in> set ''0123456789''"
proof -
  assume "is_digit c"
  then have "char_code c \<in> set [48..<58]" unfolding set_upt by (auto simp: is_digit_def)
  then have "char_of (char_code c) \<in> set (map char_of [48..<58::nat])" unfolding set_map by blast
  also have "map char_of [48..<58::nat] = ''0123456789''" by code_simp
  finally show ?thesis by simp
qed

lemma shape_spec_lexed:
  assumes "s \<noteq> []"
  defines "w \<equiv> shape_spec s"
  shows "erase_spaces w = w" "only_chars ''0123456789(),-:'' w" "count_list w CHR ''('' = 1"
    "count_list w CHR '')'' = 1" "2 < length w" "hd w = CHR ''(''" "last w = CHR '')''"
    "tl (butlast w) = joins (map dim_spec s) '',''"
proof -
  let ?b = "joins (map dim_spec s) '',''"
  have b: "list_all (\<lambda>c. spec_char c \<or> c = CHR '','') ?b"
    using dim_spec_chars by (intro joins_chars) (auto simp: list_all_iff)
  have "?b \<noteq> []" using assms(1) dim_spec_nonempty by (cases s) (auto simp: joins_Cons)
  then show "2 < length w" by (cases ?b) (auto simp: w_def shape_spec_def)
  have w: "w = CHR ''('' # ?b @ '')''" by (simp add: w_def shape_spec_def)
  have sp: "\<not> is_space c" if "c \<in> set w" for c
    using that b digit_not_space by (auto simp: w list_all_iff spec_char_def) (auto simp: is_space_def)
  then show "erase_spaces w = w" by (simp add: erase_spaces_def)
  show "only_chars ''0123456789(),-:'' w"
    using b is_digit_in by (fastforce simp: w only_chars_def list_all_iff spec_char_def)
  have "count_list ?b CHR ''('' = 0" "count_list ?b CHR '')'' = 0"
    using b by (auto simp: count_list_0_iff list_all_iff spec_char_def)
  then show "count_list w CHR ''('' = 1" "count_list w CHR '')'' = 1" by (simp_all add: w)
  show "hd w = CHR ''(''" "last w = CHR '')''" "tl (butlast w) = ?b" by (simp_all add: w butlast_append)
qed

section \<open>Properties\<close>

text \<open>
  C26: the intersection of two shapes is exactly what both match. For shapes with checked
  dimensions \<open>createIntersection\<close> never throws; it returns nothing exactly when no tensor shape
  is matched by both, and otherwise a shape with checked dimensions that matches a tensor shape
  if and only if both arguments do.
\<close>

theorem shape_intersection_is_the_meet:
  assumes "wf_shape s" "wf_shape t"
  shows "(shape_createIntersection s t = Inr None \<and>
            (\<forall>v. \<not> (shape_match s v = Inr True \<and> shape_match t v = Inr True))) \<or>
         (\<exists>r. shape_createIntersection s t = Inr (Some r) \<and> wf_shape r \<and>
            (\<forall>v. shape_match r v = Inr (shape_match s v = Inr True \<and> shape_match t v = Inr True)))"
  using assms by (rule shp.inter_characterised)

theorem shape_intersection_is_the_meet_witness:
  defines "s \<equiv> [\<lparr>dim_minimum = 1, dim_maximum = 1\<rparr>, \<lparr>dim_minimum = 10, dim_maximum = 20\<rparr>]"
    and "t \<equiv> [dim_any, \<lparr>dim_minimum = 15, dim_maximum = 30\<rparr>]"
  shows "(shape_createIntersection s t = Inr None \<and>
            (\<forall>v. \<not> (shape_match s v = Inr True \<and> shape_match t v = Inr True))) \<or>
         (\<exists>r. shape_createIntersection s t = Inr (Some r) \<and> wf_shape r \<and>
            (\<forall>v. shape_match r v = Inr (shape_match s v = Inr True \<and> shape_match t v = Inr True)))"
  by (rule shape_intersection_is_the_meet) (simp_all add: s_def t_def wf_shape_def wf_dim_def)

text \<open>
  Two checked dimensions fit partially if and only if some dimension value is matched by
  both, which is also when their intersection exists; the relation is symmetric.
\<close>

theorem partial_fit_means_a_common_value:
  assumes "wf_dim d" "wf_dim e"
  shows "partiallyFitsInto d e = Inr (\<exists>v. dim_match d v = Inr True \<and> dim_match e v = Inr True) \<and>
         partiallyFitsInto d e = partiallyFitsInto e d"
proof -
  have ex: "(\<exists>v. dim_match d v = Inr True \<and> dim_match e v = Inr True) \<longleftrightarrow>
      dim_createIntersection d e \<noteq> Inr None" if wf: "wf_dim d" "wf_dim e" for d e
  proof
    assume "dim_createIntersection d e \<noteq> Inr None"
    then obtain f where f: "wf_dim f" "\<forall>v. dim_match f v = Inr (dim_match d v = Inr True \<and> dim_match e v = Inr True)"
      using dim.inter_characterised [OF wf] by blast
    have "dim_match f (dim_maximum f) = Inr True"
      using f(1) wf_dim_nonneg [OF f(1)]
      by (cases "f = dim_any") (auto simp: dim_match_wf, simp add: dim_defs)
    with f(2) show "\<exists>v. dim_match d v = Inr True \<and> dim_match e v = Inr True" by auto
  qed (use dim.inter_None [OF wf] in blast)
  show ?thesis using assms ex [OF assms] ex [OF assms(2,1)] by (auto simp: partiallyFitsInto_wf)
qed

theorem partial_fit_means_a_common_value_witness:
  "partiallyFitsInto \<lparr>dim_minimum = 1, dim_maximum = 5\<rparr> \<lparr>dim_minimum = 5, dim_maximum = 9\<rparr> =
     Inr (\<exists>v. dim_match \<lparr>dim_minimum = 1, dim_maximum = 5\<rparr> v = Inr True \<and>
              dim_match \<lparr>dim_minimum = 5, dim_maximum = 9\<rparr> v = Inr True) \<and>
   partiallyFitsInto \<lparr>dim_minimum = 1, dim_maximum = 5\<rparr> \<lparr>dim_minimum = 5, dim_maximum = 9\<rparr> =
     partiallyFitsInto \<lparr>dim_minimum = 5, dim_maximum = 9\<rparr> \<lparr>dim_minimum = 1, dim_maximum = 5\<rparr>"
  by (rule partial_fit_means_a_common_value) (simp_all add: wf_dim_def)

text \<open>
  C32: the parser of shapes accepts the configuration syntax and only yields checked shapes. The
  text of a non-empty checked shape with bounds that fit an \<open>int\<close> parses to that shape; any text
  that parses gives checked dimensions (bounds ordered, none below \<open>-1\<close>) and at least one of
  them.
\<close>

theorem shape_syntax_roundtrip:
  assumes "wf_shape s" "list_all dim_fits_int32 s" "s \<noteq> []" "shape_fromString t = Inr u"
  shows "shape_fromString (shape_spec s) = Inr s \<and> wf_shape u \<and> u \<noteq> []"
proof
  have "tokenize (joins (map dim_spec s) [CHR '','']) CHR '','' = map dim_spec s"
  proof (rule tokenize_joins_aux)
    show "\<forall>x\<in>set (map dim_spec s). CHR '','' \<notin> set x"
      using dim_spec_chars by (fastforce simp: list_all_iff spec_char_def)
  qed (use assms(3) dim_spec_nonempty in \<open>auto simp: last_map\<close>)
  then show "shape_fromString (shape_spec s) = Inr s"
    using shape_spec_lexed [OF assms(3)] dim_tokens_spec [OF assms(1,2)]
    by (simp add: shape_fromString_def Let_def)
next
  obtain w where w: "2 < length w" "dim_tokens (tokenize (tl (butlast w)) CHR '','') = Inr u"
    using assms(4) by (auto simp: shape_fromString_def Let_def not_le split: if_splits)
  then have "tl (butlast w) \<noteq> []" by (cases w; cases "tl w") auto
  then have "tokenize (tl (butlast w)) CHR '','' \<noteq> []" by (subst tokenize.simps) simp
  then show "wf_shape u \<and> u \<noteq> []" using dim_tokens_wf [OF w(2)] by auto
qed

theorem shape_syntax_roundtrip_witness:
  "shape_fromString (shape_spec [dim_any, \<lparr>dim_minimum = 1, dim_maximum = 8\<rparr>, \<lparr>dim_minimum = 3, dim_maximum = 3\<rparr>]) =
     Inr [dim_any, \<lparr>dim_minimum = 1, dim_maximum = 8\<rparr>, \<lparr>dim_minimum = 3, dim_maximum = 3\<rparr>] \<and>
   wf_shape [\<lparr>dim_minimum = 5, dim_maximum = 5\<rparr>] \<and> [\<lparr>dim_minimum = 5, dim_maximum = 5\<rparr>] \<noteq> ([] :: Shape)"
proof (rule shape_syntax_roundtrip)
  show "shape_fromString ''( 5 )'' = Inr [\<lparr>dim_minimum = 5, dim_maximum = 5\<rparr>]" by code_simp
qed (simp_all add: wf_shape_def wf_dim_def dim_fits_int32_def dim_any_def DYNAMIC_DIMENSION_def)

text \<open>
  The two parsers of a range disagree on a range of one value: \<open>Dimension::fromString\<close> takes
  \<open>5:5\<close> as the static dimension 5 although its own error message asks for a maximum higher than
  the minimum, \<open>Shape::fromString\<close> rejects it; and a range from zero is accepted in a shape but
  not as a single dimension.
\<close>

theorem range_parsers_disagree:
  "dim_fromString ''5:5'' = Inr \<lparr>dim_minimum = 5, dim_maximum = 5\<rparr> \<and>
   shape_fromString ''(5:5)'' = Inl SC_SHAPE_WRONG_FORMAT \<and>
   dim_fromString ''0:5'' = Inl SC_DIM_WRONG_FORMAT \<and>
   shape_fromString ''(0:5)'' = Inr [\<lparr>dim_minimum = 0, dim_maximum = 5\<rparr>]"
  by code_simp

end
