(* ===== verification/Layouts.thy ===== *)
theory Layouts
  imports Shapes
begin

text \<open>
  Tensor layouts (\<open>src/layout.cpp\<close>) and the layout entry of a model configuration
  (\<open>src/layout_configuration.cpp\<close>). A \<open>Layout\<close> is a string with the batch index the
  constructor computed; \<open>Layout::fromOvLayout\<close> takes its text from OpenVINO and is modelled
  from that text on.
\<close>

definition ALLOWED_DIMENSION_LETTERS :: string where
  "ALLOWED_DIMENSION_LETTERS = ''NCHWD''"

definition ETC_CHAR :: char where
  "ETC_CHAR = CHR ''.''"

definition UNDEFINED_DIMENSION_CHAR :: char where
  "UNDEFINED_DIMENSION_CHAR = CHR ''?''"

definition ALLOWED_DIMENSION_LETTERS_AND_CHARS :: string where
  "ALLOWED_DIMENSION_LETTERS_AND_CHARS = ALLOWED_DIMENSION_LETTERS @ [ETC_CHAR, UNDEFINED_DIMENSION_CHAR]"

definition ETC_LAYOUT_DELIMETER :: string where
  "ETC_LAYOUT_DELIMETER = ''...''"

definition BATCH_DIMENSION_LETTER :: string where
  "BATCH_DIMENSION_LETTER = ''N''"

definition UNSPECIFIED_LAYOUT :: string where
  "UNSPECIFIED_LAYOUT = ''...''"

definition DEFAULT_LAYOUT :: string where
  "DEFAULT_LAYOUT = ''N...''"

section \<open>Layouts\<close>

record Layout =
  lay_str :: string
  lay_batchIndex :: "nat option"

text \<open>The scan over the dots: \<open>dotCount\<close>, \<open>firstEtcAppeared\<close>, \<open>fullEtcAppeared\<close>.\<close>

fun scan_dots :: "string \<Rightarrow> nat \<Rightarrow> bool \<Rightarrow> bool \<Rightarrow> StatusCode" where
  "scan_dots [] dotCount firstEtc fullEtc = (if firstEtc \<and> \<not> fullEtc then SC_LAYOUT_WRONG_FORMAT else SC_OK)"
| "scan_dots (c # cs) dotCount firstEtc fullEtc =
     (if c = ETC_CHAR then
        if fullEtc then SC_LAYOUT_WRONG_FORMAT
        else if 3 \<le> dotCount + 1 then scan_dots cs (dotCount + 1) False True
        else scan_dots cs (dotCount + 1) True fullEtc
      else if firstEtc then SC_LAYOUT_WRONG_FORMAT
      else scan_dots cs dotCount firstEtc fullEtc)"

definition layout_validate :: "string \<Rightarrow> StatusCode" where
  "layout_validate s =
     (if \<not> only_chars ALLOWED_DIMENSION_LETTERS_AND_CHARS s then SC_LAYOUT_WRONG_FORMAT
      else if list_ex (\<lambda>c. 1 < count_list s c) ALLOWED_DIMENSION_LETTERS then SC_LAYOUT_WRONG_FORMAT
      else scan_dots s 0 False False)"

definition retrieveBatchIndex :: "string \<Rightarrow> nat option" where
  "retrieveBatchIndex s =
     (if layout_validate s \<noteq> SC_OK then None
      else let batchPos = str_find BATCH_DIMENSION_LETTER s 0;
               etcPos = str_find ETC_LAYOUT_DELIMETER s 0
        in if s = UNSPECIFIED_LAYOUT then None
           else case batchPos of
                  None \<Rightarrow> None
                | Some b \<Rightarrow> (case etcPos of
                               Some e \<Rightarrow> if e < b then None else batchPos
                             | None \<Rightarrow> batchPos))"

definition Layout_of :: "string \<Rightarrow> Layout" where
  "Layout_of str = \<lparr>lay_str = str, lay_batchIndex = retrieveBatchIndex str\<rparr>"

text \<open>The default constructor: an empty string and no batch index.\<close>

definition empty_Layout :: Layout where
  "empty_Layout = \<lparr>lay_str = [], lay_batchIndex = None\<rparr>"

definition getUnspecifiedLayout :: Layout where
  "getUnspecifiedLayout = Layout_of UNSPECIFIED_LAYOUT"

definition getDefaultLayout :: "nat \<Rightarrow> Layout" where
  "getDefaultLayout numOfDimensions =
     (if numOfDimensions \<noteq> 0 then Layout_of DEFAULT_LAYOUT else getUnspecifiedLayout)"

definition fromOvLayout :: "string \<Rightarrow> Layout" where
  "fromOvLayout strCopy = Layout_of (filter (\<lambda>c. \<not> (c = CHR ''['' \<or> c = CHR '']'' \<or> c = CHR '','')) strCopy)"

definition containsEtc :: "string \<Rightarrow> bool" where
  "containsEtc s \<longleftrightarrow> str_find ETC_LAYOUT_DELIMETER s 0 \<noteq> None"

definition getNumberOfKnownDimensions :: "string \<Rightarrow> nat" where
  "getNumberOfKnownDimensions s =
     length (filter (\<lambda>c. c \<in> set ALLOWED_DIMENSION_LETTERS \<or> c = UNDEFINED_DIMENSION_CHAR) s)"

definition layout_isCompatible :: "string \<Rightarrow> Shape \<Rightarrow> bool" where
  "layout_isCompatible s sh =
     (if containsEtc s then getNumberOfKnownDimensions s \<le> length sh
      else getNumberOfKnownDimensions s = length sh)"

text \<open>The dots of one side are replaced by as many undefined dimensions as are missing.\<close>

definition expand_etc :: "string \<Rightarrow> nat \<Rightarrow> string option" where
  "expand_etc s numberOfDimensions =
     (if containsEtc s then
        let knownDimensions = length (filter (\<lambda>c. c \<noteq> ETC_CHAR) s)
        in if numberOfDimensions < knownDimensions then None
           else case str_find ETC_LAYOUT_DELIMETER s 0 of
                  Some i \<Rightarrow> Some (take i s @ replicate (numberOfDimensions - knownDimensions) UNDEFINED_DIMENSION_CHAR
                                  @ drop (i + length ETC_LAYOUT_DELIMETER) s)
                | None \<Rightarrow> Some s
      else Some s)"

text \<open>The merging loop from index \<open>i\<close>; \<open>lhs\<close> is changed in place.\<close>

fun merge_layouts :: "string \<Rightarrow> string \<Rightarrow> nat \<Rightarrow> nat \<Rightarrow> string option" where
  "merge_layouts lhs rhs i 0 = Some lhs"
| "merge_layouts lhs rhs i (Suc k) =
     (if lhs ! i = rhs ! i then merge_layouts lhs rhs (Suc i) k
      else if rhs ! i \<noteq> UNDEFINED_DIMENSION_CHAR \<and> rhs ! i \<in> set lhs then None
      else if lhs ! i = UNDEFINED_DIMENSION_CHAR then merge_layouts (lhs[i := rhs ! i]) rhs (Suc i) k
      else if rhs ! i = UNDEFINED_DIMENSION_CHAR then merge_layouts lhs rhs (Suc i) k
      else None)"

text \<open>The result is the changed copy of \<open>*this\<close>: the string operations leave its batch index.\<close>

definition layout_createIntersection :: "Layout \<Rightarrow> Layout \<Rightarrow> nat \<Rightarrow> Layout option" where
  "layout_createIntersection this other numberOfDimensions =
     (case expand_etc (lay_str this) numberOfDimensions of
        None \<Rightarrow> None
      | Some lhs \<Rightarrow>
          (case expand_etc (lay_str other) numberOfDimensions of
             None \<Rightarrow> None
           | Some rhs \<Rightarrow>
               if length lhs \<noteq> length rhs \<or> length lhs \<noteq> numberOfDimensions then None
               else map_option (\<lambda>s. this\<lparr>lay_str := s\<rparr>) (merge_layouts lhs rhs 0 (length lhs))))"

section \<open>Layout configuration\<close>

definition LAYOUT_CONFIGURATION_DELIMETER :: char where
  "LAYOUT_CONFIGURATION_DELIMETER = CHR '':''"

record LayoutConfiguration =
  lc_tensor :: Layout
  lc_model :: Layout

definition LayoutConfiguration_of2 :: "string \<Rightarrow> string \<Rightarrow> LayoutConfiguration" where
  "LayoutConfiguration_of2 tensorLayout modelLayout =
     \<lparr>lc_tensor = Layout_of tensorLayout, lc_model = Layout_of modelLayout\<rparr>"

definition LayoutConfiguration_of :: "string \<Rightarrow> LayoutConfiguration" where
  "LayoutConfiguration_of layout = LayoutConfiguration_of2 layout layout"

definition lc_isSet :: "LayoutConfiguration \<Rightarrow> bool" where
  "lc_isSet c \<longleftrightarrow> lay_str (lc_tensor c) \<noteq> [] \<or> lay_str (lc_model c) \<noteq> []"

definition lc_fromString :: "string \<Rightarrow> StatusCode + LayoutConfiguration" where
  "lc_fromString configurationStr =
     (let configurationCopy = map to_upper (erase_spaces configurationStr);
          delimCount = count_list configurationCopy LAYOUT_CONFIGURATION_DELIMETER
      in if \<not> only_chars (ALLOWED_DIMENSION_LETTERS_AND_CHARS @ [LAYOUT_CONFIGURATION_DELIMETER]) configurationCopy
         then Inl SC_LAYOUT_WRONG_FORMAT
         else if 1 < delimCount then Inl SC_LAYOUT_WRONG_FORMAT
         else if delimCount = 0 then Inr (LayoutConfiguration_of configurationCopy)
         else let tokens = tokenize configurationCopy LAYOUT_CONFIGURATION_DELIMETER
           in if 2 < length tokens then Inl SC_LAYOUT_WRONG_FORMAT
              else if length tokens = 2 then Inr (LayoutConfiguration_of2 (tokens ! 0) (tokens ! 1))
              else if length tokens = 1 then Inr (LayoutConfiguration_of (tokens ! 0))
              else Inl SC_LAYOUT_WRONG_FORMAT)"

definition lc_toString :: "LayoutConfiguration \<Rightarrow> string" where
  "lc_toString c =
     (if lay_str (lc_tensor c) = [] then lay_str (lc_model c)
      else lay_str (lc_tensor c) @ [LAYOUT_CONFIGURATION_DELIMETER] @ lay_str (lc_model c))"

definition lc_eq :: "LayoutConfiguration \<Rightarrow> LayoutConfiguration \<Rightarrow> bool" where
  "lc_eq a b \<longleftrightarrow> lay_str (lc_tensor a) = lay_str (lc_tensor b) \<and> lay_str (lc_model a) = lay_str (lc_model b)"

section \<open>What validation accepts\<close>

lemmas layout_consts = ALLOWED_DIMENSION_LETTERS_def ALLOWED_DIMENSION_LETTERS_AND_CHARS_def ETC_CHAR_def
  UNDEFINED_DIMENSION_CHAR_def ETC_LAYOUT_DELIMETER_def BATCH_DIMENSION_LETTER_def UNSPECIFIED_LAYOUT_def
  DEFAULT_LAYOUT_def

lemma scan_after_full: "scan_dots s n False True = SC_OK \<longleftrightarrow> ETC_CHAR \<notin> set s"
  by (induction s) auto

lemma scan_two: "scan_dots s 2 True False = SC_OK \<longleftrightarrow> (\<exists>v. s = ETC_CHAR # v \<and> ETC_CHAR \<notin> set v)"
  by (cases s) (auto simp: scan_after_full)

lemma scan_one:
  "scan_dots s (Suc 0) True False = SC_OK \<longleftrightarrow> (\<exists>v. s = ETC_CHAR # ETC_CHAR # v \<and> ETC_CHAR \<notin> set v)"
  using scan_two by (cases s) (auto simp: numeral_2_eq_2)

lemma scan_start:
  "scan_dots s 0 False False = SC_OK \<longleftrightarrow>
     ETC_CHAR \<notin> set s \<or>
     (\<exists>u v. s = u @ ETC_LAYOUT_DELIMETER @ v \<and> ETC_CHAR \<notin> set u \<and> ETC_CHAR \<notin> set v)"
proof (induction s)
  case (Cons c s)
  show ?case
  proof (cases "c = ETC_CHAR")
    case True
    have "(\<exists>u v. c # s = u @ ETC_LAYOUT_DELIMETER @ v \<and> ETC_CHAR \<notin> set u \<and> ETC_CHAR \<notin> set v) \<longleftrightarrow>
        (\<exists>v. s = ETC_CHAR # ETC_CHAR # v \<and> ETC_CHAR \<notin> set v)"
      (is "?l \<longleftrightarrow> ?r")
    proof
      assume ?l
      then obtain u v where uv: "c # s = u @ ETC_LAYOUT_DELIMETER @ v" "ETC_CHAR \<notin> set u" "ETC_CHAR \<notin> set v"
        by blast
      then have "u = []" using True by (cases u) auto
      then show ?r using uv by (auto simp: ETC_LAYOUT_DELIMETER_def ETC_CHAR_def)
    next
      assume ?r
      then obtain v where "c # s = [] @ ETC_LAYOUT_DELIMETER @ v" "ETC_CHAR \<notin> set v"
        using True by (auto simp: ETC_LAYOUT_DELIMETER_def ETC_CHAR_def)
      then show ?l by (metis empty_iff list.set(1))
    qed
    then show ?thesis using True by (simp add: scan_one)
  next
    case False
    have "(\<exists>u v. c # s = u @ ETC_LAYOUT_DELIMETER @ v \<and> ETC_CHAR \<notin> set u \<and> ETC_CHAR \<notin> set v) \<longleftrightarrow>
        (\<exists>u v. s = u @ ETC_LAYOUT_DELIMETER @ v \<and> ETC_CHAR \<notin> set u \<and> ETC_CHAR \<notin> set v)"
      (is "?l \<longleftrightarrow> ?r")
    proof
      assume ?l
      then obtain u v where uv: "c # s = u @ ETC_LAYOUT_DELIMETER @ v" "ETC_CHAR \<notin> set u" "ETC_CHAR \<notin> set v"
        by blast
      then have "s = tl u @ ETC_LAYOUT_DELIMETER @ v" "ETC_CHAR \<notin> set (tl u)"
        using False by (cases u; simp add: ETC_LAYOUT_DELIMETER_def ETC_CHAR_def)+
      then show ?r using uv by blast
    next
      assume ?r
      then obtain u v where "c # s = (c # u) @ ETC_LAYOUT_DELIMETER @ v" "ETC_CHAR \<notin> set (c # u)" "ETC_CHAR \<notin> set v"
        using False by auto
      then show ?l by blast
    qed
    then show ?thesis using False Cons.IH by simp
  qed
qed (auto simp: ETC_LAYOUT_DELIMETER_def)

lemma layout_validate_OK:
  "layout_validate s = SC_OK \<longleftrightarrow>
     only_chars ALLOWED_DIMENSION_LETTERS_AND_CHARS s \<and>
     (\<forall>c\<in>set ALLOWED_DIMENSION_LETTERS. count_list s c \<le> 1) \<and>
     (ETC_CHAR \<notin> set s \<or>
      (\<exists>u v. s = u @ ETC_LAYOUT_DELIMETER @ v \<and> ETC_CHAR \<notin> set u \<and> ETC_CHAR \<notin> set v))"
proof -
  have "list_ex (\<lambda>c. 1 < count_list s c) ALLOWED_DIMENSION_LETTERS \<longleftrightarrow>
      \<not> (\<forall>c\<in>set ALLOWED_DIMENSION_LETTERS. count_list s c \<le> 1)"
    by (metis list_ex_iff not_le)
  then show ?thesis unfolding layout_validate_def scan_start [symmetric] by simp
qed

section \<open>The merge of two layouts\<close>

text \<open>A position that one side leaves undefined is taken from the other side.\<close>

definition merged :: "string \<Rightarrow> string \<Rightarrow> string" where
  "merged a b = map2 (\<lambda>x y. if x = UNDEFINED_DIMENSION_CHAR then y else x) a b"

definition compatible :: "string \<Rightarrow> string \<Rightarrow> bool" where
  "compatible a b \<longleftrightarrow>
     list_all2 (\<lambda>x y. x = y \<or> x = UNDEFINED_DIMENSION_CHAR \<or> y = UNDEFINED_DIMENSION_CHAR) a b"

text \<open>No letter stands at two positions.\<close>

definition letters_once :: "string \<Rightarrow> bool" where
  "letters_once s \<longleftrightarrow>
     (\<forall>i < length s. \<forall>j < length s. s ! i = s ! j \<and> s ! i \<noteq> UNDEFINED_DIMENSION_CHAR \<longrightarrow> i = j)"

lemma letters_once_nth:
  "letters_once s \<Longrightarrow> i < length s \<Longrightarrow> j < length s \<Longrightarrow> s ! i = s ! j \<Longrightarrow>
     s ! i \<noteq> UNDEFINED_DIMENSION_CHAR \<Longrightarrow> i = j"
  by (simp add: letters_once_def)

lemma count_list_two:
  assumes "i < j" "j < length s" "s ! i = c" "s ! j = c"
  shows "2 \<le> count_list s c"
proof -
  have s: "s = take j s @ drop j s" by simp
  have "take j s ! i \<in> set (take j s)" using assms by (intro nth_mem) simp
  moreover have "s ! j \<in> set (drop j s)" by (metis Cons_nth_drop_Suc assms(2) list.set_intros(1))
  ultimately have "c \<in> set (take j s)" "c \<in> set (drop j s)" using assms by simp_all
  then have "count_list (take j s) c \<noteq> 0" "count_list (drop j s) c \<noteq> 0"
    by (auto simp: count_list_0_iff)
  then show ?thesis by (subst s, subst count_list_append) linarith
qed

lemma letters_onceI:
  assumes "\<And>c. c \<in> set s \<Longrightarrow> c \<noteq> UNDEFINED_DIMENSION_CHAR \<Longrightarrow> count_list s c \<le> 1"
  shows "letters_once s"
  unfolding letters_once_def
proof (intro allI impI)
  fix i j
  assume ij: "i < length s" "j < length s" "s ! i = s ! j \<and> s ! i \<noteq> UNDEFINED_DIMENSION_CHAR"
  then have "count_list s (s ! i) \<le> 1" using assms [of "s ! i"] nth_mem by blast
  then have "\<not> i < j" "\<not> j < i"
    using ij(1,2) ij(3) [THEN conjunct1] count_list_two [of i j s "s ! i"] count_list_two [of j i s "s ! i"]
    by fastforce+
  then show "i = j" by simp
qed

lemma letters_once_update:
  "letters_once s \<Longrightarrow> i < length s \<Longrightarrow> c \<notin> set s \<Longrightarrow> letters_once (s[i := c])"
  unfolding letters_once_def by (auto simp: nth_list_update split: if_splits)

lemma merged_nth:
  "i < length a \<Longrightarrow> i < length b \<Longrightarrow>
     merged a b ! i = (if a ! i = UNDEFINED_DIMENSION_CHAR then b ! i else a ! i)"
  by (simp add: merged_def)

lemma length_merged [simp]: "length (merged a b) = min (length a) (length b)"
  by (simp add: merged_def)

lemma compatible_nth:
  "compatible a b \<longleftrightarrow> length a = length b \<and>
     (\<forall>i < length a. a ! i = b ! i \<or> a ! i = UNDEFINED_DIMENSION_CHAR \<or> b ! i = UNDEFINED_DIMENSION_CHAR)"
  by (simp add: compatible_def list_all2_conv_all_nth)

text \<open>A letter of the right side that stands elsewhere on the left makes the merge repeat it.\<close>

lemma merge_clash:
  assumes len: "length a = n" "length b = n" "i < n" "j < n" "j \<noteq> i"
    and clash: "b ! i \<noteq> UNDEFINED_DIMENSION_CHAR" "a ! i \<noteq> b ! i"
      "a ! j = b ! i \<or> merged a b ! j = b ! i"
  shows "\<not> (compatible a b \<and> letters_once (merged a b))"
proof
  assume c: "compatible a b \<and> letters_once (merged a b)"
  then have "a ! i = UNDEFINED_DIMENSION_CHAR" using len clash by (auto simp: compatible_nth)
  then have i: "merged a b ! i = b ! i" using len by (simp add: merged_nth)
  moreover have "merged a b ! j = b ! i" using clash len by (auto simp: merged_nth)
  ultimately show False
    using letters_once_nth [of "merged a b" i j] c len clash(1) by simp
qed

lemma merge_step_list:
  assumes "length a = n" "length b = n" "i < n"
  shows "(take i (merged a b) @ drop i a)[i := merged a b ! i] = take (Suc i) (merged a b) @ drop (Suc i) a"
  using assms
  by (intro nth_equalityI) (auto simp: nth_append nth_list_update min_def less_Suc_eq)

lemma merge_layouts_spec:
  assumes len: "length a = n" "length b = n"
  shows "i + k = n \<Longrightarrow> lhs = take i (merged a b) @ drop i a \<Longrightarrow> letters_once lhs \<Longrightarrow>
    \<forall>j < i. a ! j = b ! j \<or> a ! j = UNDEFINED_DIMENSION_CHAR \<or> b ! j = UNDEFINED_DIMENSION_CHAR \<Longrightarrow>
    merge_layouts lhs b i k =
      (if compatible a b \<and> letters_once (merged a b) then Some (merged a b) else None)"
proof (induction k arbitrary: i lhs)
  case 0
  then show ?case using len by (simp add: compatible_nth)
next
  case (Suc k)
  let ?m = "merged a b"
  have i: "i < n" using Suc.prems(1) by simp
  have nth: "lhs ! i = a ! i" "length lhs = n"
    using Suc.prems(1,2) len i by (simp_all add: nth_append)
  have elem: "\<exists>j < n. (j < i \<and> ?m ! j = c) \<or> (i \<le> j \<and> a ! j = c)" if "c \<in> set lhs" for c
  proof -
    obtain j where "j < n" "lhs ! j = c" using \<open>c \<in> set lhs\<close> nth(2) by (metis in_set_conv_nth)
    then show ?thesis using len i Suc.prems(2) by (cases "j < i") (auto simp: nth_append intro!: exI[of _ j])
  qed
  have next_lhs: "lhs[i := ?m ! i] = take (Suc i) ?m @ drop (Suc i) a"
    using merge_step_list [OF len i] Suc.prems(2) by simp
  have same: "lhs[i := ?m ! i] = lhs" if "?m ! i = a ! i" using that nth by (metis list_update_id)
  have done_below: "\<forall>j < Suc i. a ! j = b ! j \<or> a ! j = UNDEFINED_DIMENSION_CHAR \<or> b ! j = UNDEFINED_DIMENSION_CHAR"
    if "a ! i = b ! i \<or> a ! i = UNDEFINED_DIMENSION_CHAR \<or> b ! i = UNDEFINED_DIMENSION_CHAR"
    using that Suc.prems(4) by (auto simp: less_Suc_eq)
  have IH: "merge_layouts (lhs[i := ?m ! i]) b (Suc i) k =
      (if compatible a b \<and> letters_once ?m then Some ?m else None)"
    if "letters_once (lhs[i := ?m ! i])"
      "a ! i = b ! i \<or> a ! i = UNDEFINED_DIMENSION_CHAR \<or> b ! i = UNDEFINED_DIMENSION_CHAR"
    using that Suc.prems(1) by (intro Suc.IH next_lhs done_below) auto
  have mi: "?m ! i = (if a ! i = UNDEFINED_DIMENSION_CHAR then b ! i else a ! i)"
    using len i by (simp add: merged_nth)
  consider (eq) "a ! i = b ! i"
    | (clash) "a ! i \<noteq> b ! i" "b ! i \<noteq> UNDEFINED_DIMENSION_CHAR" "b ! i \<in> set lhs"
    | (fill) "a ! i \<noteq> b ! i" "b ! i \<noteq> UNDEFINED_DIMENSION_CHAR" "b ! i \<notin> set lhs"
        "a ! i = UNDEFINED_DIMENSION_CHAR"
    | (keep) "a ! i \<noteq> b ! i" "b ! i = UNDEFINED_DIMENSION_CHAR" "a ! i \<noteq> UNDEFINED_DIMENSION_CHAR"
    | (differ) "a ! i \<noteq> b ! i" "b ! i \<noteq> UNDEFINED_DIMENSION_CHAR" "b ! i \<notin> set lhs"
        "a ! i \<noteq> UNDEFINED_DIMENSION_CHAR"
    by metis
  then show ?case
  proof cases
    case eq
    then have "lhs[i := ?m ! i] = lhs" using mi same by auto
    then show ?thesis using IH eq Suc.prems(3) nth by simp
  next
    case clash
    obtain j where j: "j < n" "(j < i \<and> ?m ! j = b ! i) \<or> (i \<le> j \<and> a ! j = b ! i)"
      using elem [OF clash(3)] by blast
    then have "\<not> (compatible a b \<and> letters_once ?m)"
      using clash by (intro merge_clash [OF len i]) auto
    then show ?thesis using clash nth by auto
  next
    case fill
    then have "letters_once (lhs[i := ?m ! i])"
      using Suc.prems(3) nth i mi by (simp add: letters_once_update)
    then show ?thesis using IH fill nth mi by simp
  next
    case keep
    then have "lhs[i := ?m ! i] = lhs" using mi same by auto
    then show ?thesis using IH keep Suc.prems(3) nth by simp
  next
    case differ
    then have "\<not> compatible a b" using i len by (auto simp: compatible_nth)
    then show ?thesis using differ nth by simp
  qed
qed

section \<open>Expansion of the dots\<close>

text \<open>A layout with one entry per dimension.\<close>

definition positional :: "string \<Rightarrow> bool" where
  "positional s \<longleftrightarrow> only_chars (ALLOWED_DIMENSION_LETTERS @ [UNDEFINED_DIMENSION_CHAR]) s \<and> letters_once s"

lemma letters_once_Cons:
  assumes "letters_once (x # s)"
  shows "letters_once s \<and> (x \<noteq> UNDEFINED_DIMENSION_CHAR \<longrightarrow> x \<notin> set s)"
proof
  have "i = j" if "i < length s" "j < length s" "s ! i = s ! j \<and> s ! i \<noteq> UNDEFINED_DIMENSION_CHAR" for i j
    using letters_once_nth [OF assms, of "Suc i" "Suc j"] that by auto
  then show "letters_once s" unfolding letters_once_def by blast
  show "x \<noteq> UNDEFINED_DIMENSION_CHAR \<longrightarrow> x \<notin> set s"
    using letters_once_nth [OF assms, of 0 "Suc _"] by (fastforce simp: in_set_conv_nth)
qed

lemma letters_once_count: "letters_once s \<Longrightarrow> c \<noteq> UNDEFINED_DIMENSION_CHAR \<Longrightarrow> count_list s c \<le> 1"
proof (induction s)
  case (Cons x s)
  then show ?case using letters_once_Cons [OF Cons.prems(1)] by (auto simp: count_list_0_iff)
qed simp

lemma undefined_no_letter: "UNDEFINED_DIMENSION_CHAR \<notin> set ALLOWED_DIMENSION_LETTERS"
  by (simp add: layout_consts)

lemma etc_no_letter: "ETC_CHAR \<notin> set ALLOWED_DIMENSION_LETTERS" "ETC_CHAR \<noteq> UNDEFINED_DIMENSION_CHAR"
  by (simp_all add: layout_consts)

lemma positional_valid: "positional s \<Longrightarrow> layout_validate s = SC_OK"
proof -
  assume p: "positional s"
  then have "only_chars ALLOWED_DIMENSION_LETTERS_AND_CHARS s" "ETC_CHAR \<notin> set s"
    using etc_no_letter
    by (auto simp: positional_def only_chars_def ALLOWED_DIMENSION_LETTERS_AND_CHARS_def list_all_iff)
  moreover have "\<forall>c\<in>set ALLOWED_DIMENSION_LETTERS. count_list s c \<le> 1"
  proof
    fix c
    assume "c \<in> set ALLOWED_DIMENSION_LETTERS"
    then have "c \<noteq> UNDEFINED_DIMENSION_CHAR" using undefined_no_letter by metis
    then show "count_list s c \<le> 1" using p by (intro letters_once_count) (simp_all add: positional_def)
  qed
  ultimately show ?thesis by (simp add: layout_validate_OK)
qed

lemma find_etc: "ETC_CHAR \<notin> set u \<Longrightarrow> str_find ETC_LAYOUT_DELIMETER (u @ ETC_LAYOUT_DELIMETER @ v) 0 = Some (length u)"
proof -
  assume u: "ETC_CHAR \<notin> set u"
  have "\<not> occurs_at ETC_LAYOUT_DELIMETER (u @ ETC_LAYOUT_DELIMETER @ v) j" if j: "j < length u" for j
  proof
    assume "occurs_at ETC_LAYOUT_DELIMETER (u @ ETC_LAYOUT_DELIMETER @ v) j"
    then obtain x y where e: "u @ ETC_LAYOUT_DELIMETER @ v = x @ ETC_LAYOUT_DELIMETER @ y" "length x = j"
      by (auto simp: occurs_at_iff_append)
    have "u ! j = (u @ ETC_LAYOUT_DELIMETER @ v) ! j" using j by (simp add: nth_append)
    also have "\<dots> = ETC_CHAR" using e by (simp add: nth_append ETC_LAYOUT_DELIMETER_def ETC_CHAR_def)
    finally show False using u j by (metis nth_mem)
  qed
  then show ?thesis by (auto simp: str_find_Some_iff occurs_at_iff_append)
qed

lemma no_etc: "ETC_CHAR \<notin> set s \<Longrightarrow> \<not> containsEtc s"
  by (auto simp: containsEtc_def str_find_None_iff occurs_at_iff_append ETC_LAYOUT_DELIMETER_def ETC_CHAR_def)

lemma expand_dots:
  assumes "ETC_CHAR \<notin> set u" "ETC_CHAR \<notin> set v"
  shows "expand_etc (u @ ETC_LAYOUT_DELIMETER @ v) n =
    (if n < length u + length v then None
     else Some (u @ replicate (n - (length u + length v)) UNDEFINED_DIMENSION_CHAR @ v))"
proof -
  have "filter (\<lambda>c. c \<noteq> ETC_CHAR) (u @ ETC_LAYOUT_DELIMETER @ v) = u @ v"
  proof -
    have "filter (\<lambda>c. c \<noteq> ETC_CHAR) u = u" "filter (\<lambda>c. c \<noteq> ETC_CHAR) v = v"
      using assms by (auto intro!: filter_True)
    then show ?thesis by (simp add: ETC_LAYOUT_DELIMETER_def ETC_CHAR_def)
  qed
  then show ?thesis
    using find_etc [OF assms(1), of v]
    by (simp add: expand_etc_def containsEtc_def Let_def)
qed

lemma expand_positional:
  assumes "layout_validate s = SC_OK" "expand_etc s n = Some a"
  shows "positional a"
proof -
  have chars: "only_chars ALLOWED_DIMENSION_LETTERS_AND_CHARS s"
    and once: "\<forall>c\<in>set ALLOWED_DIMENSION_LETTERS. count_list s c \<le> 1"
    using assms(1) by (auto simp: layout_validate_OK)
  from assms(1) consider "ETC_CHAR \<notin> set s"
    | u v where "s = u @ ETC_LAYOUT_DELIMETER @ v" "ETC_CHAR \<notin> set u" "ETC_CHAR \<notin> set v"
    by (auto simp: layout_validate_OK)
  then have "ETC_CHAR \<notin> set a \<and> only_chars ALLOWED_DIMENSION_LETTERS_AND_CHARS a \<and>
      (\<forall>c\<in>set ALLOWED_DIMENSION_LETTERS. count_list a c \<le> 1)"
  proof cases
    case 1
    then have "a = s" using assms(2) no_etc by (simp add: expand_etc_def)
    then show ?thesis using 1 chars once by simp
  next
    case 2
    then obtain k where a: "a = u @ replicate k UNDEFINED_DIMENSION_CHAR @ v"
      using assms(2) expand_dots [of u v n] by (auto split: if_splits)
    have "count_list a c \<le> 1" if c: "c \<in> set ALLOWED_DIMENSION_LETTERS" for c
    proof -
      have "c \<noteq> UNDEFINED_DIMENSION_CHAR" using c by (auto simp: layout_consts)
      then have "count_list (replicate k UNDEFINED_DIMENSION_CHAR) c = 0" by (auto simp: count_list_0_iff)
      moreover have "count_list u c + count_list v c \<le> 1" using once c by (auto simp: 2(1))
      ultimately show ?thesis by (simp add: a)
    qed
    then show ?thesis
      using 2 chars etc_no_letter
      by (auto simp: a only_chars_def ALLOWED_DIMENSION_LETTERS_AND_CHARS_def list_all_iff)
  qed
  then have chars_a: "\<forall>c\<in>set a. c \<in> set ALLOWED_DIMENSION_LETTERS \<or> c = UNDEFINED_DIMENSION_CHAR"
    and "\<forall>c\<in>set ALLOWED_DIMENSION_LETTERS. count_list a c \<le> 1"
    by (auto simp: only_chars_def ALLOWED_DIMENSION_LETTERS_AND_CHARS_def list_all_iff)
  then have "letters_once a" by (intro letters_onceI) blast
  then show ?thesis using chars_a by (auto simp: positional_def only_chars_def list_all_iff)
qed

lemma set_merged: "set (merged a b) \<subseteq> set a \<union> set b"
  by (auto simp: merged_def dest: set_zip_leftD set_zip_rightD split: if_splits)

lemma merged_positional:
  assumes "positional a" "positional b" "letters_once (merged a b)"
  shows "positional (merged a b)"
  using assms set_merged [of a b] unfolding positional_def only_chars_def list_all_iff by blast

lemma merged_commute: "compatible a b \<Longrightarrow> merged a b = merged b a"
  by (rule nth_equalityI) (auto simp: merged_nth compatible_nth)

lemma compatible_commute: "compatible a b \<longleftrightarrow> compatible b a"
  by (auto simp: compatible_nth)

section \<open>Properties\<close>

text \<open>
  C33: the intersection of two valid layouts for a number of dimensions. It exists exactly when
  both, with the dots expanded, have that many entries, agree wherever both name a letter, and
  the position-wise merge repeats no letter; its text is then that merge, which is a valid layout
  again. Neither the existence nor the text depends on the order of the arguments.
\<close>

theorem layout_intersection_is_the_merge:
  assumes "layout_validate (lay_str l) = SC_OK" "layout_validate (lay_str m) = SC_OK"
  shows "(map_option lay_str (layout_createIntersection l m n) = Some r \<longleftrightarrow>
            (\<exists>a b. expand_etc (lay_str l) n = Some a \<and> expand_etc (lay_str m) n = Some b \<and>
                   length a = n \<and> length b = n \<and> compatible a b \<and> letters_once (merged a b) \<and>
                   r = merged a b \<and> layout_validate r = SC_OK)) \<and>
         map_option lay_str (layout_createIntersection l m n) =
         map_option lay_str (layout_createIntersection m l n)"
proof -
  have main: "map_option lay_str (layout_createIntersection l m n) =
      (case (expand_etc (lay_str l) n, expand_etc (lay_str m) n) of
         (Some a, Some b) \<Rightarrow> if length a = n \<and> length b = n \<and> compatible a b \<and> letters_once (merged a b)
                              then Some (merged a b) else None
       | _ \<Rightarrow> None)" if v: "layout_validate (lay_str l) = SC_OK" for l m
  proof (cases "expand_etc (lay_str l) n"; cases "expand_etc (lay_str m) n")
    fix a b
    assume ab: "expand_etc (lay_str l) n = Some a" "expand_etc (lay_str m) n = Some b"
    have once: "letters_once a" using expand_positional [OF v ab(1)] by (simp add: positional_def)
    show ?thesis
    proof (cases "length a = n \<and> length b = n")
      case True
      then have "merge_layouts a b 0 n =
          (if compatible a b \<and> letters_once (merged a b) then Some (merged a b) else None)"
        using once by (intro merge_layouts_spec) auto
      then show ?thesis using ab True by (auto simp: layout_createIntersection_def)
    qed (use ab in \<open>auto simp: layout_createIntersection_def\<close>)
  qed (auto simp: layout_createIntersection_def)
  have valid: "layout_validate (merged a b) = SC_OK"
    if "expand_etc (lay_str l) n = Some a" "expand_etc (lay_str m) n = Some b" "letters_once (merged a b)" for a b
    using expand_positional [OF assms(1) that(1)] expand_positional [OF assms(2) that(2)] that(3)
    by (intro positional_valid merged_positional)
  show ?thesis
    using main [OF assms(1), of m] main [OF assms(2), of l] valid compatible_commute merged_commute
    by (auto split: option.splits)
qed

theorem layout_intersection_is_the_merge_witness:
  "(map_option lay_str (layout_createIntersection (Layout_of ''N...'') (Layout_of ''...D'') 4) = Some ''N??D'' \<longleftrightarrow>
      (\<exists>a b. expand_etc (lay_str (Layout_of ''N...'')) 4 = Some a \<and>
             expand_etc (lay_str (Layout_of ''...D'')) 4 = Some b \<and>
             length a = 4 \<and> length b = 4 \<and> compatible a b \<and> letters_once (merged a b) \<and>
             ''N??D'' = merged a b \<and> layout_validate ''N??D'' = SC_OK)) \<and>
   map_option lay_str (layout_createIntersection (Layout_of ''N...'') (Layout_of ''...D'') 4) =
   map_option lay_str (layout_createIntersection (Layout_of ''...D'') (Layout_of ''N...'') 4)"
  by (rule layout_intersection_is_the_merge) code_simp+

text \<open>
  An intersection keeps the batch index of its left argument although its text may name a
  batch position: the copy is changed through \<open>std::string\<close> operations that do not recompute it.
  Meeting \<open>...\<close> with \<open>NCHW\<close> gives \<open>NCHW\<close> without a batch index, in the other order with index 0.
\<close>

theorem layout_intersection_batch_index_is_stale:
  "layout_createIntersection (Layout_of ''...'') (Layout_of ''NCHW'') 4 =
     Some \<lparr>lay_str = ''NCHW'', lay_batchIndex = None\<rparr> \<and>
   layout_createIntersection (Layout_of ''NCHW'') (Layout_of ''...'') 4 =
     Some \<lparr>lay_str = ''NCHW'', lay_batchIndex = Some 0\<rparr> \<and>
   lay_batchIndex (Layout_of ''NCHW'') = Some 0"
  by code_simp

end
