(* ===== verification/Model_Config.thy ===== *)
theory Model_Config
  imports Layouts
begin

text \<open>
  The part of \<open>ModelConfig\<close> (\<open>src/modelconfig.hpp\<close>, \<open>src/modelconfig.cpp\<close>) that decides whether a
  served version has to be reloaded, and the model version policies
  (\<open>src/model_version_policy.hpp\<close>, \<open>src/model_version_policy.cpp\<close>). Hash maps are association
  lists with one entry per key. The values of the plugin configuration are \<open>ov::Any\<close> in the code
  and stand here for their text. Reading a configuration from JSON is not modelled.
\<close>

section \<open>Version policies\<close>

datatype ModelVersionPolicy =
    AllModelVersionPolicy
  | SpecificModelVersionPolicy "int list"
  | LatestModelVersionPolicy nat

text \<open>\<open>std::set_intersection\<close> and \<open>std::set_difference\<close> of two ranges.\<close>

fun set_intersection :: "int list \<Rightarrow> int list \<Rightarrow> int list" where
  "set_intersection (x # xs) (y # ys) =
     (if x < y then set_intersection xs (y # ys)
      else if y < x then set_intersection (x # xs) ys
      else x # set_intersection xs ys)"
| "set_intersection _ _ = []"

fun set_difference :: "int list \<Rightarrow> int list \<Rightarrow> int list" where
  "set_difference (x # xs) (y # ys) =
     (if x < y then x # set_difference xs (y # ys)
      else if y < x then set_difference (x # xs) ys
      else set_difference xs ys)"
| "set_difference xs ys = xs"

text \<open>The constructor of the specific policy sorts its versions.\<close>

definition new_SpecificModelVersionPolicy :: "int list \<Rightarrow> ModelVersionPolicy" where
  "new_SpecificModelVersionPolicy versions = SpecificModelVersionPolicy (sort versions)"

definition getDefaultVersionPolicy :: ModelVersionPolicy where
  "getDefaultVersionPolicy = LatestModelVersionPolicy 1"

definition all_filter :: "int list \<Rightarrow> int list" where
  "all_filter versions = versions"

definition specific_filter :: "int list \<Rightarrow> int list \<Rightarrow> int list" where
  "specific_filter specificVersions versions = set_intersection (sort versions) specificVersions"

definition latest_filter :: "nat \<Rightarrow> int list \<Rightarrow> int list" where
  "latest_filter numVersions versions = take numVersions (rev (sort versions))"

fun policy_filter :: "ModelVersionPolicy \<Rightarrow> int list \<Rightarrow> int list" where
  "policy_filter AllModelVersionPolicy versions = all_filter versions"
| "policy_filter (SpecificModelVersionPolicy specificVersions) versions = specific_filter specificVersions versions"
| "policy_filter (LatestModelVersionPolicy numVersions) versions = latest_filter numVersions versions"

fun policy_toString :: "ModelVersionPolicy \<Rightarrow> string" where
  "policy_toString AllModelVersionPolicy = ''all''"
| "policy_toString (SpecificModelVersionPolicy specificVersions) =
     ''specific: '' @ concat (map (\<lambda>v. dec_int v @ '' '') specificVersions)"
| "policy_toString (LatestModelVersionPolicy numVersions) = ''latest: '' @ dec_nat numVersions"

section \<open>Model configuration\<close>

record ModelConfig =
  mc_name :: string
  mc_basePath :: string
  mc_targetDevice :: string
  mc_batchingMode :: Mode
  mc_batchSize :: "Dimension option"
  mc_modelVersionPolicy :: ModelVersionPolicy
  mc_nireq :: nat
  mc_cacheDir :: string
  mc_isAllowCacheTrue :: bool
  mc_version :: int
  mc_pluginConfig :: "(string \<times> string) list"
  mc_layout :: LayoutConfiguration
  mc_shapes :: "(string \<times> ShapeInfo) list"
  mc_layouts :: "(string \<times> LayoutConfiguration) list"
  mc_customLoaderOptionsConfigMap :: "(string \<times> string) list"

definition isBatchSizeConfigurationEqual :: "ModelConfig \<Rightarrow> ModelConfig \<Rightarrow> bool" where
  "isBatchSizeConfigurationEqual this rhs =
     (if (mc_batchSize this \<noteq> None) \<noteq> (mc_batchSize rhs \<noteq> None) then False
      else if mc_batchSize this \<noteq> None \<and> the (mc_batchSize this) \<noteq> the (mc_batchSize rhs) then False
      else True)"

text \<open>The loop over one map with a lookup in the other.\<close>

definition entries_equal :: "('v \<Rightarrow> 'v \<Rightarrow> bool) \<Rightarrow> (string \<times> 'v) list \<Rightarrow> (string \<times> 'v) list \<Rightarrow> bool" where
  "entries_equal eq this rhs =
     (if length this \<noteq> length rhs then False
      else list_all (\<lambda>(name, v). case map_of rhs name of None \<Rightarrow> False | Some w \<Rightarrow> eq v w) this)"

definition isLayoutConfigurationEqual :: "ModelConfig \<Rightarrow> ModelConfig \<Rightarrow> bool" where
  "isLayoutConfigurationEqual this rhs =
     (if \<not> lc_eq (mc_layout this) (mc_layout rhs) then False
      else entries_equal lc_eq (mc_layouts this) (mc_layouts rhs))"

definition isShapeConfigurationEqual :: "ModelConfig \<Rightarrow> ModelConfig \<Rightarrow> bool" where
  "isShapeConfigurationEqual this rhs = entries_equal shapeInfo_eq (mc_shapes this) (mc_shapes rhs)"

definition isCustomLoaderConfigChanged :: "ModelConfig \<Rightarrow> ModelConfig \<Rightarrow> bool" where
  "isCustomLoaderConfigChanged this rhs =
     (let a = mc_customLoaderOptionsConfigMap this; b = mc_customLoaderOptionsConfigMap rhs
      in if length a \<noteq> length b then True
         else if 0 < length a \<and> 0 < length b then (if a \<noteq> b then True else False)
         else False)"

definition isReloadRequired :: "ModelConfig \<Rightarrow> ModelConfig \<Rightarrow> bool" where
  "isReloadRequired this rhs =
     (if mc_name this \<noteq> mc_name rhs then True
      else if mc_basePath this \<noteq> mc_basePath rhs then True
      else if mc_targetDevice this \<noteq> mc_targetDevice rhs then True
      else if mc_batchingMode this \<noteq> mc_batchingMode rhs then True
      else if \<not> isBatchSizeConfigurationEqual this rhs then True
      else if mc_nireq this \<noteq> mc_nireq rhs then True
      else if mc_pluginConfig this \<noteq> mc_pluginConfig rhs then True
      else if \<not> isLayoutConfigurationEqual this rhs then True
      else if \<not> isShapeConfigurationEqual this rhs then True
      else if isCustomLoaderConfigChanged this rhs then True
      else if mc_isAllowCacheTrue this \<noteq> mc_isAllowCacheTrue rhs then True
      else False)"

definition isCustomLoaderRequiredToLoadModel :: "ModelConfig \<Rightarrow> bool" where
  "isCustomLoaderRequiredToLoadModel c \<longleftrightarrow> 0 < length (mc_customLoaderOptionsConfigMap c)"

definition anyShapeSetToAuto :: "ModelConfig \<Rightarrow> bool" where
  "anyShapeSetToAuto c = list_ex (\<lambda>(name, shapeInfo). si_shapeMode shapeInfo = AUTO) (mc_shapes c)"

definition isDynamicParameterEnabled :: "ModelConfig \<Rightarrow> bool" where
  "isDynamicParameterEnabled c \<longleftrightarrow> mc_batchingMode c = AUTO \<or> anyShapeSetToAuto c"

definition extractBatchingParams :: "string \<Rightarrow> Mode \<times> Dimension option" where
  "extractBatchingParams configBatchSize =
     (if configBatchSize = ''auto'' then (AUTO, None)
      else if configBatchSize = [] then (FIXED, None)
      else case dim_fromString configBatchSize of
             Inl _ \<Rightarrow> (FIXED, None)
           | Inr dim \<Rightarrow> (FIXED, Some dim))"

section \<open>Set operations on sorted ranges\<close>

lemma set_intersection_set:
  "sorted xs \<Longrightarrow> sorted ys \<Longrightarrow> set (set_intersection xs ys) = set xs \<inter> set ys"
proof (induction xs ys rule: set_intersection.induct)
  case (1 x xs y ys)
  then show ?case by (cases x y rule: linorder_cases) auto
qed auto

lemma set_intersection_subset: "set (set_intersection xs ys) \<subseteq> set xs \<inter> set ys"
  by (induction xs ys rule: set_intersection.induct) auto

lemma set_intersection_distinct:
  "distinct xs \<Longrightarrow> distinct (set_intersection xs ys)"
  using set_intersection_subset by (induction xs ys rule: set_intersection.induct) fastforce+

lemma set_intersection_sorted: "sorted xs \<Longrightarrow> sorted (set_intersection xs ys)"
  using set_intersection_subset by (induction xs ys rule: set_intersection.induct) fastforce+

lemma set_difference_set:
  "sorted xs \<Longrightarrow> sorted ys \<Longrightarrow> distinct xs \<Longrightarrow> set (set_difference xs ys) = set xs - set ys"
proof (induction xs ys rule: set_difference.induct)
  case (1 x xs y ys)
  then show ?case by (cases x y rule: linorder_cases) auto
qed auto

lemma set_difference_subset: "set (set_difference xs ys) \<subseteq> set xs"
  by (induction xs ys rule: set_difference.induct) auto

lemma set_difference_distinct: "distinct xs \<Longrightarrow> distinct (set_difference xs ys)"
  using set_difference_subset by (induction xs ys rule: set_difference.induct) fastforce+

lemma set_difference_sorted: "sorted xs \<Longrightarrow> sorted (set_difference xs ys)"
  using set_difference_subset by (induction xs ys rule: set_difference.induct) fastforce+

lemma sort_unique: "distinct vs \<Longrightarrow> distinct ws \<Longrightarrow> set vs = set ws \<Longrightarrow> sort vs = sort (ws :: int list)"
  by (intro sorted_distinct_set_unique) simp_all

section \<open>The contract of a policy\<close>

text \<open>
  What the manager relies on: a policy only asks for versions that are there, never for one
  version twice, and its answer depends on the versions and not on their order.
\<close>

locale version_policy =
  fixes pol :: "int list \<Rightarrow> int list"
  assumes pol_subset: "set (pol vs) \<subseteq> set vs"
    and pol_distinct: "distinct vs \<Longrightarrow> distinct (pol vs)"
    and pol_order: "distinct vs \<Longrightarrow> distinct ws \<Longrightarrow> set vs = set ws \<Longrightarrow> set (pol vs) = set (pol ws)"
begin

text \<open>A version that is no longer available is not requested again.\<close>

lemma removed_not_requested: "v \<notin> set (pol (filter (\<lambda>w. w \<noteq> v) vs))"
  using pol_subset [of "filter (\<lambda>w. w \<noteq> v) vs"] by auto

lemma requested_available: "v \<in> set (pol vs) \<Longrightarrow> v \<in> set vs"
  using pol_subset by blast

lemma pol_sort: "distinct vs \<Longrightarrow> set (sort (pol (sort vs))) = set (pol vs)"
  using pol_order [of "sort vs" vs] by simp

lemma pol_Nil [simp]: "pol [] = []"
  using pol_subset [of "[]"] by simp

end

interpretation all: version_policy all_filter
  by unfold_locales (simp_all add: all_filter_def)

interpretation specific: version_policy "specific_filter vs" for vs
proof (unfold_locales, goal_cases)
  case (1 ws)
  then show ?case using set_intersection_subset [of "sort ws" vs] by (auto simp: specific_filter_def)
next
  case (2 ws)
  then show ?case by (simp add: specific_filter_def set_intersection_distinct)
next
  case (3 ws us)
  then have "sort ws = sort us" by (rule sort_unique)
  then show ?case by (simp add: specific_filter_def)
qed

interpretation latest: version_policy "latest_filter n" for n
proof (unfold_locales, goal_cases)
  case (1 ws)
  then show ?case using set_take_subset [of n "rev (sort ws)"] by (auto simp: latest_filter_def)
next
  case (2 ws)
  then show ?case by (simp add: latest_filter_def)
next
  case (3 ws us)
  then have "sort ws = sort us" by (rule sort_unique)
  then show ?case by (simp add: latest_filter_def)
qed

interpretation pol: version_policy "policy_filter p" for p
proof (unfold_locales, goal_cases)
  case (1 ws)
  then show ?case using all.pol_subset specific.pol_subset latest.pol_subset by (cases p) auto
next
  case (2 ws)
  then show ?case using all.pol_distinct specific.pol_distinct latest.pol_distinct by (cases p) auto
next
  case (3 ws us)
  then show ?case
    using all.pol_order [OF 3] specific.pol_order [OF 3] latest.pol_order [OF 3] by (cases p) auto
qed

section \<open>Properties\<close>

text \<open>
  The latest policy serves the highest versions. Of distinct available versions it asks for
  exactly as many as it is configured for (or all when there are fewer), highest first, and every
  version it leaves out is lower than every one it takes; the default policy asks for the single
  highest version.
\<close>

theorem latest_policy_takes_the_highest:
  assumes "distinct versions" "v \<in> set (latest_filter n versions)" "w \<in> set versions - set (latest_filter n versions)"
  shows "length (latest_filter n versions) = min n (length versions) \<and>
         sorted_wrt (>) (latest_filter n versions) \<and> w < v \<and>
         policy_filter getDefaultVersionPolicy versions = [Max (set versions)]"
proof -
  let ?r = "rev (sort versions)"
  have desc: "sorted_wrt (>) ?r"
    using assms(1) by (simp add: sorted_wrt_rev strict_sorted_iff)
  have split: "?r = take n ?r @ drop n ?r" by simp
  then have w: "w \<in> set (drop n ?r)"
    using assms(3) by (metis DiffD1 DiffD2 Un_iff latest_filter_def set_append set_rev set_sort)
  have "w < v"
    using desc assms(2) w unfolding latest_filter_def
    by (subst (asm) split) (simp add: sorted_wrt_append del: append_take_drop_id)
  moreover have "sorted_wrt (>) (latest_filter n versions)"
    using desc by (simp add: latest_filter_def sorted_wrt_take)
  moreover have "take 1 ?r = [Max (set versions)]"
  proof -
    have ne: "sort versions \<noteq> []" using assms(3) by (metis Diff_iff empty_iff list.set(1) set_sort)
    then obtain ys y where ys: "sort versions = ys @ [y]" by (cases "sort versions" rule: rev_cases) auto
    have "sorted (ys @ [y])" using ys by (metis sorted_sort)
    then have "Max (set (ys @ [y])) = y" by (intro Max_eqI) (auto simp: sorted_append)
    then show ?thesis using ys by (metis One_nat_def rev.simps(2) rev_append rev_rev_ident append_Cons append_Nil
        set_sort take_Suc_Cons take_0 rev_is_rev_conv rev.simps(1))
  qed
  ultimately show ?thesis
    by (simp add: latest_filter_def getDefaultVersionPolicy_def min.commute)
qed

theorem latest_policy_takes_the_highest_witness:
  "length (latest_filter 2 [3, 10, 7]) = min 2 (length [3, 10, 7 :: int]) \<and>
   sorted_wrt (>) (latest_filter 2 [3, 10, 7]) \<and> 3 < (7 :: int) \<and>
   policy_filter getDefaultVersionPolicy [3, 10, 7] = [Max (set [3, 10, 7])]"
  by (rule latest_policy_takes_the_highest) (simp_all add: latest_filter_def)

end
