(* ===== verification/Serving_Status.thy ===== *)
theory Serving_Status
  imports Ovms_Prelude
begin

text \<open>
  The life cycle of a served model version (\<open>src/modelversionstatus.cpp\<close>), the state
  machine of a pipeline or graph definition (\<open>src/dags/pipelinedefinitionstatus.cpp\<close>) and
  the waiting loop of a request for a definition
  (\<open>src/single_version_servable_definition.cpp\<close>). Logging is not modelled.
\<close>

section \<open>Status of a model version\<close>

datatype ModelVersionState = START | LOADING | AVAILABLE | UNLOADING | END

datatype ModelVersionStatusErrorCode = OK | UNKNOWN | FAILED_PRECONDITION

text \<open>The enumerators carry the numbers of the TensorFlow Serving protocol.\<close>

fun state_number :: "ModelVersionState \<Rightarrow> int" where
  "state_number START = 10"
| "state_number LOADING = 20"
| "state_number AVAILABLE = 30"
| "state_number UNLOADING = 40"
| "state_number END = 50"

fun error_number :: "ModelVersionStatusErrorCode \<Rightarrow> int" where
  "error_number OK = 0"
| "error_number UNKNOWN = 2"
| "error_number FAILED_PRECONDITION = 9"

text \<open>Comparison of enumerators is comparison of their numbers.\<close>

instantiation ModelVersionState :: linorder
begin

definition less_eq_ModelVersionState :: "ModelVersionState \<Rightarrow> ModelVersionState \<Rightarrow> bool" where
  "less_eq_ModelVersionState a b \<longleftrightarrow> state_number a \<le> state_number b"

definition less_ModelVersionState :: "ModelVersionState \<Rightarrow> ModelVersionState \<Rightarrow> bool" where
  "less_ModelVersionState a b \<longleftrightarrow> state_number a < state_number b"

instance
proof
  fix a b :: ModelVersionState
  show "a \<le> b \<Longrightarrow> b \<le> a \<Longrightarrow> a = b"
    by (cases a; cases b) (auto simp: less_eq_ModelVersionState_def)
qed (auto simp: less_eq_ModelVersionState_def less_ModelVersionState_def)

end

fun ModelVersionStateToString :: "ModelVersionState \<Rightarrow> string" where
  "ModelVersionStateToString START = ''START''"
| "ModelVersionStateToString LOADING = ''LOADING''"
| "ModelVersionStateToString AVAILABLE = ''AVAILABLE''"
| "ModelVersionStateToString UNLOADING = ''UNLOADING''"
| "ModelVersionStateToString END = ''END''"

fun ModelVersionStatusErrorCodeToString :: "ModelVersionStatusErrorCode \<Rightarrow> string" where
  "ModelVersionStatusErrorCodeToString OK = ''OK''"
| "ModelVersionStatusErrorCodeToString UNKNOWN = ''UNKNOWN''"
| "ModelVersionStatusErrorCodeToString FAILED_PRECONDITION = ''FAILED_PRECONDITION''"

record ModelVersionStatus =
  mvs_modelName :: string
  mvs_version :: int
  mvs_state :: ModelVersionState
  mvs_errorCode :: ModelVersionStatusErrorCode

definition new_ModelVersionStatus :: "string \<Rightarrow> int \<Rightarrow> ModelVersionState \<Rightarrow> ModelVersionStatus" where
  "new_ModelVersionStatus name ver st =
     \<lparr>mvs_modelName = name, mvs_version = ver, mvs_state = st, mvs_errorCode = OK\<rparr>"

definition getStateString :: "ModelVersionStatus \<Rightarrow> string" where
  "getStateString s = ModelVersionStateToString (mvs_state s)"

definition getErrorMsg :: "ModelVersionStatus \<Rightarrow> string" where
  "getErrorMsg s = ModelVersionStatusErrorCodeToString (mvs_errorCode s)"

definition willEndUnloaded :: "ModelVersionStatus \<Rightarrow> bool" where
  "willEndUnloaded s \<longleftrightarrow> UNLOADING \<le> mvs_state s"

definition isFailedLoading :: "ModelVersionStatus \<Rightarrow> bool" where
  "isFailedLoading s \<longleftrightarrow> mvs_state s = LOADING \<and> mvs_errorCode s = UNKNOWN"

definition setState :: "ModelVersionState \<Rightarrow> ModelVersionStatusErrorCode \<Rightarrow> ModelVersionStatus \<Rightarrow> ModelVersionStatus" where
  "setState st ec s = s\<lparr>mvs_state := st, mvs_errorCode := ec\<rparr>"

definition setLoading :: "ModelVersionStatusErrorCode \<Rightarrow> ModelVersionStatus \<Rightarrow> ModelVersionStatus" where
  "setLoading ec s = s\<lparr>mvs_state := LOADING, mvs_errorCode := ec\<rparr>"

definition setAvailable :: "ModelVersionStatusErrorCode \<Rightarrow> ModelVersionStatus \<Rightarrow> ModelVersionStatus" where
  "setAvailable ec s = s\<lparr>mvs_state := AVAILABLE, mvs_errorCode := ec\<rparr>"

definition setUnloading :: "ModelVersionStatusErrorCode \<Rightarrow> ModelVersionStatus \<Rightarrow> ModelVersionStatus" where
  "setUnloading ec s = s\<lparr>mvs_state := UNLOADING, mvs_errorCode := ec\<rparr>"

definition setEnd :: "ModelVersionStatusErrorCode \<Rightarrow> ModelVersionStatus \<Rightarrow> ModelVersionStatus" where
  "setEnd ec s = s\<lparr>mvs_state := END, mvs_errorCode := ec\<rparr>"

lemmas mvs_setters = setState_def setLoading_def setAvailable_def setUnloading_def setEnd_def

lemma willEndUnloaded_iff: "willEndUnloaded s \<longleftrightarrow> mvs_state s \<in> {UNLOADING, END}"
  by (cases "mvs_state s") (auto simp: willEndUnloaded_def less_eq_ModelVersionState_def)

lemma ModelVersionStateToString_inj: "ModelVersionStateToString a = ModelVersionStateToString b \<Longrightarrow> a = b"
  by (cases a; cases b) auto

section \<open>State machine of a pipeline definition\<close>

datatype PipelineDefinitionStateCode =
    BEGIN | RELOADING | LOADING_PRECONDITION_FAILED
  | LOADING_PRECONDITION_FAILED_REQUIRED_REVALIDATION
  | AVAILABLE_REQUIRED_REVALIDATION | PIPELINE_AVAILABLE | RETIRED

text \<open>The classes of the state pattern, in the order of the template arguments.\<close>

datatype PipelineState =
    BeginState | ReloadState | AvailableState | AvailableRequiredRevalidation
  | LoadingPreconditionFailedState | LoadingFailedLastValidationRequiredRevalidation | RetiredState

datatype PipelineEvent =
    ReloadEvent | ValidationFailedEvent | ValidationPassedEvent | UsedModelChangedEvent | RetireEvent

datatype StateAction = StateChanger PipelineState | StateKeeper

fun pds_getStateCode :: "PipelineState \<Rightarrow> PipelineDefinitionStateCode" where
  "pds_getStateCode BeginState = BEGIN"
| "pds_getStateCode ReloadState = RELOADING"
| "pds_getStateCode AvailableState = PIPELINE_AVAILABLE"
| "pds_getStateCode AvailableRequiredRevalidation = AVAILABLE_REQUIRED_REVALIDATION"
| "pds_getStateCode LoadingPreconditionFailedState = LOADING_PRECONDITION_FAILED"
| "pds_getStateCode LoadingFailedLastValidationRequiredRevalidation =
     LOADING_PRECONDITION_FAILED_REQUIRED_REVALIDATION"
| "pds_getStateCode RetiredState = RETIRED"

fun pipelineDefinitionStateCodeToString :: "PipelineDefinitionStateCode \<Rightarrow> string" where
  "pipelineDefinitionStateCodeToString BEGIN = ''BEGIN''"
| "pipelineDefinitionStateCodeToString RELOADING = ''RELOADING''"
| "pipelineDefinitionStateCodeToString LOADING_PRECONDITION_FAILED = ''LOADING_PRECONDITION_FAILED''"
| "pipelineDefinitionStateCodeToString LOADING_PRECONDITION_FAILED_REQUIRED_REVALIDATION =
     ''LOADING_PRECONDITION_FAILED_REQUIRED_REVALIDATION''"
| "pipelineDefinitionStateCodeToString AVAILABLE_REQUIRED_REVALIDATION = ''AVAILABLE_REQUIRED_REVALIDATION''"
| "pipelineDefinitionStateCodeToString PIPELINE_AVAILABLE = ''AVAILABLE''"
| "pipelineDefinitionStateCodeToString RETIRED = ''RETIRED''"

definition invalid_transition :: exn where
  "invalid_transition = LogicError ''Tried to conduct invalid transition.''"

fun begin_handle :: "PipelineEvent \<Rightarrow> StateAction result" where
  "begin_handle ReloadEvent = Inl invalid_transition"
| "begin_handle ValidationPassedEvent = Inr (StateChanger AvailableState)"
| "begin_handle ValidationFailedEvent = Inr (StateChanger LoadingPreconditionFailedState)"
| "begin_handle UsedModelChangedEvent = Inl invalid_transition"
| "begin_handle RetireEvent = Inl invalid_transition"

fun reload_handle :: "PipelineEvent \<Rightarrow> StateAction result" where
  "reload_handle ReloadEvent = Inl invalid_transition"
| "reload_handle ValidationPassedEvent = Inr (StateChanger AvailableState)"
| "reload_handle ValidationFailedEvent = Inr (StateChanger LoadingPreconditionFailedState)"
| "reload_handle UsedModelChangedEvent = Inl invalid_transition"
| "reload_handle RetireEvent = Inl invalid_transition"

fun available_handle :: "PipelineEvent \<Rightarrow> StateAction result" where
  "available_handle ReloadEvent = Inr (StateChanger ReloadState)"
| "available_handle ValidationPassedEvent = Inl invalid_transition"
| "available_handle ValidationFailedEvent = Inl invalid_transition"
| "available_handle UsedModelChangedEvent = Inr (StateChanger AvailableRequiredRevalidation)"
| "available_handle RetireEvent = Inr (StateChanger RetiredState)"

fun available_required_handle :: "PipelineEvent \<Rightarrow> StateAction result" where
  "available_required_handle ReloadEvent = Inr (StateChanger ReloadState)"
| "available_required_handle ValidationPassedEvent = Inr (StateChanger AvailableState)"
| "available_required_handle ValidationFailedEvent = Inr (StateChanger LoadingPreconditionFailedState)"
| "available_required_handle UsedModelChangedEvent = Inr StateKeeper"
| "available_required_handle RetireEvent = Inr (StateChanger RetiredState)"

fun failed_handle :: "PipelineEvent \<Rightarrow> StateAction result" where
  "failed_handle ReloadEvent = Inr (StateChanger ReloadState)"
| "failed_handle ValidationPassedEvent = Inl invalid_transition"
| "failed_handle ValidationFailedEvent = Inl invalid_transition"
| "failed_handle UsedModelChangedEvent = Inr (StateChanger LoadingFailedLastValidationRequiredRevalidation)"
| "failed_handle RetireEvent = Inr (StateChanger RetiredState)"

fun failed_required_handle :: "PipelineEvent \<Rightarrow> StateAction result" where
  "failed_required_handle ReloadEvent = Inr (StateChanger ReloadState)"
| "failed_required_handle ValidationPassedEvent = Inr (StateChanger AvailableState)"
| "failed_required_handle ValidationFailedEvent = Inr (StateChanger LoadingPreconditionFailedState)"
| "failed_required_handle UsedModelChangedEvent = Inr StateKeeper"
| "failed_required_handle RetireEvent = Inr (StateChanger RetiredState)"

fun retired_handle :: "PipelineEvent \<Rightarrow> StateAction result" where
  "retired_handle ReloadEvent = Inr (StateChanger ReloadState)"
| "retired_handle ValidationPassedEvent = Inl invalid_transition"
| "retired_handle ValidationFailedEvent = Inl invalid_transition"
| "retired_handle UsedModelChangedEvent = Inl invalid_transition"
| "retired_handle RetireEvent = Inl invalid_transition"

text \<open>\<open>std::visit\<close> over the current state of the variant.\<close>

fun state_handle :: "PipelineState \<Rightarrow> PipelineEvent \<Rightarrow> StateAction result" where
  "state_handle BeginState e = begin_handle e"
| "state_handle ReloadState e = reload_handle e"
| "state_handle AvailableState e = available_handle e"
| "state_handle AvailableRequiredRevalidation e = available_required_handle e"
| "state_handle LoadingPreconditionFailedState e = failed_handle e"
| "state_handle LoadingFailedLastValidationRequiredRevalidation e = failed_required_handle e"
| "state_handle RetiredState e = retired_handle e"

text \<open>\<open>execute\<close>: a \<open>StateChanger\<close> calls \<open>changeStateTo\<close>, a \<open>StateKeeper\<close> does nothing.\<close>

fun execute_action :: "StateAction \<Rightarrow> PipelineState \<Rightarrow> PipelineState" where
  "execute_action (StateChanger t) s = t"
| "execute_action StateKeeper s = s"

text \<open>\<open>MachineState::handle\<close>: the exception of an invalid transition is rethrown.\<close>

definition pds_handle :: "PipelineState \<Rightarrow> PipelineEvent \<Rightarrow> exn + PipelineState" where
  "pds_handle s e = rbind (state_handle s e) (\<lambda>a. Inr (execute_action a s))"

definition pds_initial :: PipelineState where
  "pds_initial = BeginState"

definition pds_isAvailable :: "PipelineState \<Rightarrow> bool" where
  "pds_isAvailable s \<longleftrightarrow>
     pds_getStateCode s = PIPELINE_AVAILABLE \<or> pds_getStateCode s = AVAILABLE_REQUIRED_REVALIDATION"

definition pds_canEndLoaded :: "PipelineState \<Rightarrow> bool" where
  "pds_canEndLoaded s \<longleftrightarrow>
     pds_isAvailable s \<or>
     pds_getStateCode s = LOADING_PRECONDITION_FAILED_REQUIRED_REVALIDATION \<or>
     pds_getStateCode s = BEGIN \<or>
     pds_getStateCode s = RELOADING"

definition pds_isRevalidationRequired :: "PipelineState \<Rightarrow> bool" where
  "pds_isRevalidationRequired s \<longleftrightarrow>
     pds_getStateCode s = LOADING_PRECONDITION_FAILED_REQUIRED_REVALIDATION \<or>
     pds_getStateCode s = AVAILABLE_REQUIRED_REVALIDATION"

definition pds_convertToModelStatus :: "PipelineState \<Rightarrow> ModelVersionState \<times> ModelVersionStatusErrorCode" where
  "pds_convertToModelStatus s =
     (case pds_getStateCode s of
        BEGIN \<Rightarrow> (LOADING, OK)
      | RELOADING \<Rightarrow> (LOADING, OK)
      | LOADING_PRECONDITION_FAILED_REQUIRED_REVALIDATION \<Rightarrow> (LOADING, OK)
      | LOADING_PRECONDITION_FAILED \<Rightarrow> (LOADING, FAILED_PRECONDITION)
      | AVAILABLE_REQUIRED_REVALIDATION \<Rightarrow> (AVAILABLE, OK)
      | PIPELINE_AVAILABLE \<Rightarrow> (AVAILABLE, OK)
      | RETIRED \<Rightarrow> (END, OK))"

section \<open>Properties of the state machine\<close>

lemma pds_handle_simps [simp]:
  "pds_handle BeginState e = rbind (begin_handle e) (\<lambda>a. Inr (execute_action a BeginState))"
  "pds_handle ReloadState e = rbind (reload_handle e) (\<lambda>a. Inr (execute_action a ReloadState))"
  "pds_handle AvailableState e = rbind (available_handle e) (\<lambda>a. Inr (execute_action a AvailableState))"
  "pds_handle AvailableRequiredRevalidation e =
     rbind (available_required_handle e) (\<lambda>a. Inr (execute_action a AvailableRequiredRevalidation))"
  "pds_handle LoadingPreconditionFailedState e =
     rbind (failed_handle e) (\<lambda>a. Inr (execute_action a LoadingPreconditionFailedState))"
  "pds_handle LoadingFailedLastValidationRequiredRevalidation e =
     rbind (failed_required_handle e) (\<lambda>a. Inr (execute_action a LoadingFailedLastValidationRequiredRevalidation))"
  "pds_handle RetiredState e = rbind (retired_handle e) (\<lambda>a. Inr (execute_action a RetiredState))"
  by (simp_all add: pds_handle_def)

lemmas pds_predicates = pds_isAvailable_def pds_canEndLoaded_def pds_isRevalidationRequired_def
  pds_convertToModelStatus_def

lemma pds_available_cases:
  "pds_isAvailable s \<longleftrightarrow> s \<in> {AvailableState, AvailableRequiredRevalidation}"
  by (cases s) (auto simp: pds_isAvailable_def)

text \<open>
  The specification of a definition's status: whether the last validation of the current
  configuration passed, failed, or is still to come, and whether a used model has changed
  since. It is computed from the accepted events alone, newest last.
\<close>

datatype verdict = NotValidated | Passed | Failed

record spec_status =
  sp_verdict :: verdict
  sp_stale :: bool
  sp_retired :: bool

fun spec_event :: "PipelineEvent \<Rightarrow> spec_status \<Rightarrow> spec_status" where
  "spec_event ReloadEvent s = \<lparr>sp_verdict = NotValidated, sp_stale = False, sp_retired = False\<rparr>"
| "spec_event ValidationPassedEvent s = \<lparr>sp_verdict = Passed, sp_stale = False, sp_retired = sp_retired s\<rparr>"
| "spec_event ValidationFailedEvent s = \<lparr>sp_verdict = Failed, sp_stale = False, sp_retired = sp_retired s\<rparr>"
| "spec_event UsedModelChangedEvent s = s\<lparr>sp_stale := True\<rparr>"
| "spec_event RetireEvent s = \<lparr>sp_verdict = NotValidated, sp_stale = False, sp_retired = True\<rparr>"

definition spec_initial :: spec_status where
  "spec_initial = \<lparr>sp_verdict = NotValidated, sp_stale = False, sp_retired = False\<rparr>"

fun abs_status :: "PipelineState \<Rightarrow> spec_status" where
  "abs_status BeginState = \<lparr>sp_verdict = NotValidated, sp_stale = False, sp_retired = False\<rparr>"
| "abs_status ReloadState = \<lparr>sp_verdict = NotValidated, sp_stale = False, sp_retired = False\<rparr>"
| "abs_status AvailableState = \<lparr>sp_verdict = Passed, sp_stale = False, sp_retired = False\<rparr>"
| "abs_status AvailableRequiredRevalidation = \<lparr>sp_verdict = Passed, sp_stale = True, sp_retired = False\<rparr>"
| "abs_status LoadingPreconditionFailedState = \<lparr>sp_verdict = Failed, sp_stale = False, sp_retired = False\<rparr>"
| "abs_status LoadingFailedLastValidationRequiredRevalidation =
     \<lparr>sp_verdict = Failed, sp_stale = True, sp_retired = False\<rparr>"
| "abs_status RetiredState = \<lparr>sp_verdict = NotValidated, sp_stale = False, sp_retired = True\<rparr>"

lemma pds_handle_refines:
  "pds_handle s e = Inr t \<Longrightarrow> abs_status t = spec_event e (abs_status s)"
  by (cases s; cases e) auto

interpretation pds: refined_machine pds_handle abs_status spec_event
  by unfold_locales (rule pds_handle_refines)

lemma fold_spec_verdict_Passed:
  "sp_verdict (fold spec_event es s) = Passed \<Longrightarrow>
     (\<exists>us vs. es = us @ ValidationPassedEvent # vs \<and> set vs \<subseteq> {UsedModelChangedEvent}) \<or>
     (sp_verdict s = Passed \<and> set es \<subseteq> {UsedModelChangedEvent})"
proof (induction es rule: rev_induct)
  case (snoc e es)
  show ?case
  proof (cases e)
    case UsedModelChangedEvent
    with snoc consider us vs where "es = us @ ValidationPassedEvent # vs" "set vs \<subseteq> {UsedModelChangedEvent}"
      | "sp_verdict s = Passed" "set es \<subseteq> {UsedModelChangedEvent}" by fastforce
    then show ?thesis
    proof cases
      case (1 us vs)
      then have "es @ [e] = us @ ValidationPassedEvent # (vs @ [e])" "set (vs @ [e]) \<subseteq> {UsedModelChangedEvent}"
        using UsedModelChangedEvent by auto
      then show ?thesis by blast
    qed (use UsedModelChangedEvent in auto)
  next
    case ValidationPassedEvent
    then have "es @ [e] = es @ ValidationPassedEvent # []" by simp
    then show ?thesis by fastforce
  qed (use snoc.prems in auto)
qed auto

lemma fold_spec_passed:
  "sp_verdict s = Passed \<Longrightarrow> set vs \<subseteq> {UsedModelChangedEvent} \<Longrightarrow> sp_verdict (fold spec_event vs s) = Passed"
  by (induction vs arbitrary: s) auto

lemma available_is_passed: "pds_isAvailable s \<longleftrightarrow> sp_verdict (abs_status s) = Passed"
  by (cases s) (simp_all add: pds_available_cases)

section \<open>Waiting for a definition\<close>

text \<open>
  \<open>waitForLoaded\<close> polls a status that other threads change: \<open>obs i\<close> is the state that the
  \<open>i\<close>-th call of \<open>getStateCode\<close> reads, so \<open>canEndLoaded\<close>, which calls it twice, reads two
  of them. The loop counter is the number of 1 ms time steps. The result is the status and whether the unload
  guard is held when the function returns.
\<close>

definition canEndLoaded_obs :: "(nat \<Rightarrow> PipelineState) \<Rightarrow> nat \<Rightarrow> bool" where
  "canEndLoaded_obs obs k \<longleftrightarrow>
     pds_isAvailable (obs (Suc k)) \<or>
     pds_getStateCode (obs k) = LOADING_PRECONDITION_FAILED_REQUIRED_REVALIDATION \<or>
     pds_getStateCode (obs k) = BEGIN \<or>
     pds_getStateCode (obs k) = RELOADING"

fun wait_loop :: "StatusCode \<Rightarrow> StatusCode \<Rightarrow> (nat \<Rightarrow> PipelineState) \<Rightarrow> nat \<Rightarrow> nat \<Rightarrow> StatusCode \<times> bool" where
  "wait_loop yet anymore obs 0 k =
     (if \<not> pds_isAvailable (obs k)
      then (if pds_getStateCode (obs (Suc k)) \<noteq> RETIRED then (yet, True) else (anymore, True))
      else (SC_OK, True))"
| "wait_loop yet anymore obs (Suc n) k =
     (if pds_isAvailable (obs k) then (SC_OK, True)
      else if \<not> canEndLoaded_obs obs (Suc k)
      then (if pds_getStateCode (obs (k + 3)) \<noteq> RETIRED then (yet, False) else (anymore, False))
      else wait_loop yet anymore obs n (k + 3))"

definition waitForLoaded ::
  "StatusCode \<Rightarrow> StatusCode \<Rightarrow> (nat \<Rightarrow> PipelineState) \<Rightarrow> nat \<Rightarrow> StatusCode \<times> bool" where
  "waitForLoaded yet anymore obs timeoutMicroseconds =
     wait_loop yet anymore obs (timeoutMicroseconds div 1000) 0"

text \<open>The codes of \<open>PipelineDefinition\<close>.\<close>

definition pipeline_waitForLoaded :: "(nat \<Rightarrow> PipelineState) \<Rightarrow> nat \<Rightarrow> StatusCode \<times> bool" where
  "pipeline_waitForLoaded =
     waitForLoaded SC_PIPELINE_DEFINITION_NOT_LOADED_YET SC_PIPELINE_DEFINITION_NOT_LOADED_ANYMORE"

lemma wait_loop_OK:
  "wait_loop yet anymore obs n k = (SC_OK, g) \<Longrightarrow> yet \<noteq> SC_OK \<Longrightarrow> anymore \<noteq> SC_OK \<Longrightarrow>
     g \<and> (\<exists>i\<ge>k. i \<le> k + 3 * n \<and> pds_isAvailable (obs i))"
proof (induction n arbitrary: k)
  case (Suc n)
  show ?case
  proof (cases "pds_isAvailable (obs k)")
    case False
    with Suc.prems have "wait_loop yet anymore obs n (k + 3) = (SC_OK, g)"
      by (auto split: if_splits)
    from Suc.IH [OF this Suc.prems(2,3)]
    obtain i where "g" "k + 3 \<le> i" "i \<le> k + 3 + 3 * n" "pds_isAvailable (obs i)" by blast
    then show ?thesis by (intro conjI exI[of _ i]) auto
  qed (use Suc.prems in auto)
qed (auto split: if_splits)

lemma wait_loop_available:
  "\<forall>i. k \<le> i \<and> i < m \<longrightarrow> pds_canEndLoaded (obs i) \<and> \<not> pds_isAvailable (obs i) \<Longrightarrow>
   \<forall>i\<ge>m. pds_isAvailable (obs i) \<Longrightarrow> m \<le> k + 3 * n \<Longrightarrow>
   wait_loop yet anymore obs n k = (SC_OK, True)"
proof (induction n arbitrary: k)
  case (Suc n)
  show ?case
  proof (cases "pds_isAvailable (obs k)")
    case False
    with Suc.prems(2) have km: "k < m" by (meson not_le)
    have "canEndLoaded_obs obs (Suc k)"
    proof (cases "Suc k < m")
      case True
      with Suc.prems(1) have "pds_canEndLoaded (obs (Suc k)) \<and> \<not> pds_isAvailable (obs (Suc k))" by simp
      then show ?thesis by (auto simp: canEndLoaded_obs_def pds_canEndLoaded_def)
    next
      case False
      with Suc.prems(2) show ?thesis by (simp add: canEndLoaded_obs_def)
    qed
    moreover have "wait_loop yet anymore obs n (k + 3) = (SC_OK, True)"
      using Suc.prems by (intro Suc.IH) auto
    ultimately show ?thesis using False by simp
  qed simp
qed auto

section \<open>The properties\<close>

text \<open>
  C11: After any sequence of events, rejected ones included, a definition is available exactly when the
  last event it accepted, model change notifications aside, was a passed validation: a reload, a
  retirement or a failed validation always closes it, and a passed validation opens it until then,
  also when used models change meanwhile.
\<close>

theorem available_only_after_passed_validation:
  "pds_isAvailable (run_steps pds_handle pds_initial es) \<longleftrightarrow>
     (\<exists>us vs. accepted pds_handle pds_initial es = us @ ValidationPassedEvent # vs \<and> set vs \<subseteq> {UsedModelChangedEvent})"
proof
  let ?acc = "accepted pds_handle pds_initial es"
  assume "pds_isAvailable (run_steps pds_handle pds_initial es)"
  then have "sp_verdict (fold spec_event ?acc (abs_status pds_initial)) = Passed"
    by (simp add: available_is_passed pds.run_refines)
  then show "\<exists>us vs. ?acc = us @ ValidationPassedEvent # vs \<and> set vs \<subseteq> {UsedModelChangedEvent}"
    by (auto dest!: fold_spec_verdict_Passed simp: pds_initial_def)
next
  assume "\<exists>us vs. accepted pds_handle pds_initial es = us @ ValidationPassedEvent # vs \<and> set vs \<subseteq> {UsedModelChangedEvent}"
  then show "pds_isAvailable (run_steps pds_handle pds_initial es)"
    by (auto simp: available_is_passed pds.run_refines fold_spec_passed)
qed

text \<open>
  The status a definition reports to clients agrees with its predicates: it reports AVAILABLE
  exactly when it is available, LOADING without an error exactly when it can still end up loaded but
  is not available, FAILED_PRECONDITION exactly when it failed and nothing has changed since, and
  END exactly when it is retired.
\<close>

theorem reported_status_agrees_with_predicates:
  "(fst (pds_convertToModelStatus s) = AVAILABLE \<longleftrightarrow> pds_isAvailable s)
   \<and> (pds_convertToModelStatus s = (LOADING, OK) \<longleftrightarrow> pds_canEndLoaded s \<and> \<not> pds_isAvailable s)
   \<and> (snd (pds_convertToModelStatus s) = FAILED_PRECONDITION \<longleftrightarrow> s = LoadingPreconditionFailedState)
   \<and> (fst (pds_convertToModelStatus s) = END \<longleftrightarrow> s = RetiredState)
   \<and> (pds_isRevalidationRequired s \<longleftrightarrow> sp_stale (abs_status s))
   \<and> (willEndUnloaded \<lparr>mvs_modelName = n, mvs_version = v,
          mvs_state = fst (pds_convertToModelStatus s), mvs_errorCode = snd (pds_convertToModelStatus s)\<rparr>
        \<longleftrightarrow> s = RetiredState)"
  by (cases s) (auto simp: pds_predicates willEndUnloaded_iff)

text \<open>
  C34: When every read before the \<open>m\<close>-th finds the definition loading and not yet available, every read from
  the \<open>m\<close>-th on finds it available, and \<open>m\<close> is within the reads that fit the timeout, a wait for the
  definition returns OK with the unload guard held. A read is one look at the whole state, so a change of
  state between the parts of a look is not covered.
\<close>

theorem wait_succeeds_when_available_in_time:
  assumes loading: "\<forall>i<m. pds_canEndLoaded (obs i) \<and> \<not> pds_isAvailable (obs i)"
    and available: "\<forall>i\<ge>m. pds_isAvailable (obs i)"
    and in_time: "m \<le> 3 * (timeout div 1000)"
  shows "pipeline_waitForLoaded obs timeout = (SC_OK, True)"
  unfolding pipeline_waitForLoaded_def waitForLoaded_def
  using assms by (intro wait_loop_available [where m = m]) auto

theorem wait_succeeds_when_available_in_time_witness:
  "pipeline_waitForLoaded (\<lambda>i. if i < 4 then ReloadState else AvailableState) 2000 = (SC_OK, True)"
  by (rule wait_succeeds_when_available_in_time [where m = 4])
     (auto simp: pds_canEndLoaded_def pds_isAvailable_def)

text \<open>
  \<open>canEndLoaded\<close> reads the status twice. A definition that can end loaded at every
  instant, but becomes available and is reloaded between these reads, makes the wait give up at once
  as not loaded yet, whatever the timeout.
\<close>

theorem wait_gives_up_on_torn_read:
  "\<exists>obs. (\<forall>i. pds_canEndLoaded (obs i)) \<and>
     (\<forall>t. pipeline_waitForLoaded obs (1000 + t) = (SC_PIPELINE_DEFINITION_NOT_LOADED_YET, False))"
proof (intro exI conjI allI)
  let ?obs = "\<lambda>i::nat. if i = 1 then AvailableState else ReloadState"
  show "pds_canEndLoaded (?obs i)" for i by (simp add: pds_canEndLoaded_def pds_isAvailable_def)
  have "(1000 + t) div 1000 = Suc (t div 1000)" for t :: nat by (simp add: div_add_self1)
  then show "pipeline_waitForLoaded ?obs (1000 + t) = (SC_PIPELINE_DEFINITION_NOT_LOADED_YET, False)" for t
    by (simp add: pipeline_waitForLoaded_def waitForLoaded_def canEndLoaded_obs_def pds_isAvailable_def)
qed

end
