(* ===== verification/Model_Versions.thy ===== *)
theory Model_Versions
  imports Model_Config Serving_Status
begin

text \<open>
  The versions of a served model: one instance per version (\<open>src/modelinstance.cpp\<close>, the status
  side of loading, reloading and retiring), the model that holds them and its default version
  (\<open>src/model.cpp\<close>), and the manager's procedure that brings them in line with a configuration
  (\<open>getVersionsToChange\<close>, \<open>readAvailableVersions\<close> and \<open>reloadModelWithVersions\<close> of
  \<open>src/modelmanager.cpp\<close>). What OpenVINO, the device and the model files answer to the steps of
  loading is the parameter \<open>backend\<close>; waiting for running inferences, temporary files, downloads,
  metrics and logging are not modelled, nor are exceptions outside the guarded steps of loading, which
  \<open>addModelVersions\<close> and \<open>reloadModelVersions\<close> would answer with OK. A \<open>std::map\<close> over versions is an association list sorted
  by version.
\<close>

section \<open>One model instance\<close>

text \<open>
  The answers of the steps of loading for a configuration (which names the version): a status,
  or \<open>None\<close> for an exception.
\<close>

record backend =
  be_fetchModelFilepaths :: "ModelConfig \<Rightarrow> StatusCode"
  be_loadOVModel :: "ModelConfig \<Rightarrow> StatusCode option"
  be_loadTensors :: "ModelConfig \<Rightarrow> StatusCode option"
  be_loadOVCompiledModel :: "ModelConfig \<Rightarrow> StatusCode option"
  be_prepareInferenceRequestsQueue :: "ModelConfig \<Rightarrow> StatusCode option"

record ModelInstance =
  mi_status :: ModelVersionStatus
  mi_config :: ModelConfig
  mi_model :: bool
  mi_isCustomLoaderConfigChanged :: bool

definition setCacheOptions :: "ModelConfig \<Rightarrow> StatusCode" where
  "setCacheOptions config =
     (if mc_cacheDir config \<noteq> [] then
        if \<not> mc_isAllowCacheTrue config \<and>
           (isCustomLoaderRequiredToLoadModel config \<or> anyShapeSetToAuto config \<or> mc_batchingMode config = AUTO)
        then SC_OK
        else if mc_isAllowCacheTrue config \<and> isCustomLoaderRequiredToLoadModel config
        then SC_ALLOW_CACHE_WITH_CUSTOM_LOADER
        else SC_OK
      else SC_OK)"

definition fail_loading :: "StatusCode \<Rightarrow> ModelInstance \<Rightarrow> StatusCode \<times> ModelInstance" where
  "fail_loading c inst = (c, inst\<lparr>mi_status := setLoading UNKNOWN (mi_status inst)\<rparr>)"

text \<open>One step inside the \<open>try\<close> block.\<close>

definition guarded_step ::
  "StatusCode option \<Rightarrow> ModelInstance \<Rightarrow> (ModelInstance \<Rightarrow> StatusCode \<times> ModelInstance) \<Rightarrow> StatusCode \<times> ModelInstance" where
  "guarded_step r inst k =
     (case r of
        None \<Rightarrow> fail_loading SC_MODEL_NOT_LOADED inst
      | Some c \<Rightarrow> if \<not> status_ok c then fail_loading c inst else k inst)"

definition loadModelImpl :: "backend \<Rightarrow> ModelConfig \<Rightarrow> ModelInstance \<Rightarrow> StatusCode \<times> ModelInstance" where
  "loadModelImpl be config inst0 =
     (let hasLayoutConfigurationChanged = \<not> isLayoutConfigurationEqual config (mi_config inst0);
          inst = inst0\<lparr>mi_config := config\<rparr>;
          fetched = be_fetchModelFilepaths be config
      in if \<not> status_ok fetched then fail_loading fetched inst
         else guarded_step (Some (setCacheOptions config)) inst (\<lambda>inst.
           (if \<not> mi_model inst \<or> hasLayoutConfigurationChanged
            then guarded_step (be_loadOVModel be config) inst
            else (\<lambda>k. k inst)) (\<lambda>inst.
              let inst = inst\<lparr>mi_model := True\<rparr> in
              guarded_step (be_loadTensors be config) inst (\<lambda>inst.
              guarded_step (be_loadOVCompiledModel be config) inst (\<lambda>inst.
              guarded_step (be_prepareInferenceRequestsQueue be config) inst (\<lambda>inst.
                (SC_OK, inst\<lparr>mi_status := setAvailable OK (mi_status inst)\<rparr>)))))))"

definition loadModel :: "backend \<Rightarrow> ModelConfig \<Rightarrow> ModelInstance \<Rightarrow> StatusCode \<times> ModelInstance" where
  "loadModel be config inst =
     loadModelImpl be config
       (inst\<lparr>mi_status := setLoading OK (new_ModelVersionStatus (mc_name config) (mc_version config) START)\<rparr>)"

text \<open>\<open>unloadModelComponents\<close> as far as the state here goes.\<close>

definition unloadModelComponents :: "ModelInstance \<Rightarrow> ModelInstance" where
  "unloadModelComponents inst = inst\<lparr>mi_model := False\<rparr>"

definition retireModel :: "bool \<Rightarrow> ModelInstance \<Rightarrow> ModelInstance" where
  "retireModel isPermanent inst =
     (let inst = inst\<lparr>mi_status := (if isPermanent then setUnloading OK (mi_status inst)
                                    else setLoading OK (mi_status inst))\<rparr>;
          inst = unloadModelComponents inst
      in if isPermanent then inst\<lparr>mi_status := setEnd OK (mi_status inst)\<rparr> else inst)"

definition inst_cleanupFailedLoad :: "ModelInstance \<Rightarrow> ModelInstance" where
  "inst_cleanupFailedLoad inst =
     unloadModelComponents (inst\<lparr>mi_status := setLoading UNKNOWN (mi_status inst)\<rparr>)"

definition reloadModel :: "backend \<Rightarrow> ModelConfig \<Rightarrow> ModelInstance \<Rightarrow> StatusCode \<times> ModelInstance" where
  "reloadModel be config inst =
     (let inst = inst\<lparr>mi_status := setLoading OK (mi_status inst)\<rparr>;
          inst = (if isCustomLoaderRequiredToLoadModel (mi_config inst) \<and> mi_isCustomLoaderConfigChanged inst
                  then retireModel False (inst\<lparr>mi_isCustomLoaderConfigChanged := False\<rparr>)
                  else inst)
      in loadModelImpl be config inst)"

text \<open>A new instance: default configuration, state \<open>START\<close>.\<close>

definition empty_ModelConfig :: ModelConfig where
  "empty_ModelConfig =
     \<lparr>mc_name = [], mc_basePath = [], mc_targetDevice = [], mc_batchingMode = FIXED, mc_batchSize = None,
      mc_modelVersionPolicy = getDefaultVersionPolicy, mc_nireq = 0, mc_cacheDir = [], mc_isAllowCacheTrue = False,
      mc_version = -1, mc_pluginConfig = [], mc_layout = LayoutConfiguration_of2 [] [], mc_shapes = [],
      mc_layouts = [], mc_customLoaderOptionsConfigMap = []\<rparr>"

definition new_ModelInstance :: "string \<Rightarrow> int \<Rightarrow> ModelInstance" where
  "new_ModelInstance name version =
     \<lparr>mi_status = new_ModelVersionStatus name version START, mi_config = empty_ModelConfig,
      mi_model = False, mi_isCustomLoaderConfigChanged = False\<rparr>"

section \<open>The model\<close>

record Model =
  mdl_versions :: "(int \<times> ModelInstance) list"
  mdl_defaultVersion :: int
  mdl_customLoaderName :: string
  mdl_notifications :: nat

text \<open>\<open>notifySubscribers\<close> is counted.\<close>

definition notifySubscribers :: "Model \<Rightarrow> Model" where
  "notifySubscribers m = m\<lparr>mdl_notifications := mdl_notifications m + 1\<rparr>"

text \<open>\<open>std::map::emplace\<close>: nothing happens when the key is there.\<close>

fun emplace :: "int \<Rightarrow> 'a \<Rightarrow> (int \<times> 'a) list \<Rightarrow> (int \<times> 'a) list" where
  "emplace k x [] = [(k, x)]"
| "emplace k x ((l, y) # r) =
     (if k < l then (k, x) # (l, y) # r else if k = l then (l, y) # r else (l, y) # emplace k x r)"

text \<open>The object behind the pointer stored for a version changes.\<close>

definition set_instance :: "int \<Rightarrow> 'a \<Rightarrow> (int \<times> 'a) list \<Rightarrow> (int \<times> 'a) list" where
  "set_instance k x vs = map (\<lambda>(l, y). if l = k then (l, x) else (l, y)) vs"

definition getModelInstanceByVersion :: "Model \<Rightarrow> int \<Rightarrow> ModelInstance option" where
  "getModelInstanceByVersion m v = map_of (mdl_versions m) v"

definition inst_available :: "ModelInstance \<Rightarrow> bool" where
  "inst_available inst \<longleftrightarrow> mvs_state (mi_status inst) = AVAILABLE"

text \<open>
  The parameter is an \<open>int\<close>: a version that does not fit is cut to 32 bits before the comparison.
\<close>

definition to_int32 :: "int \<Rightarrow> int" where
  "to_int32 v = signed_take_bit 31 v"

definition updateDefaultVersion :: "int \<Rightarrow> Model \<Rightarrow> Model" where
  "updateDefaultVersion ignoredVersion m =
     m\<lparr>mdl_defaultVersion :=
         fold (\<lambda>(version, inst) newDefaultVersion.
                 if version \<noteq> ignoredVersion \<and> newDefaultVersion < version \<and> inst_available inst
                 then version else newDefaultVersion) (mdl_versions m) 0\<rparr>"

definition getDefaultModelInstance :: "Model \<Rightarrow> ModelInstance option" where
  "getDefaultModelInstance m = map_of (mdl_versions m) (mdl_defaultVersion m)"

definition addVersion :: "backend \<Rightarrow> ModelConfig \<Rightarrow> Model \<Rightarrow> StatusCode \<times> Model" where
  "addVersion be config m =
     (let version = mc_version config;
          inst = new_ModelInstance (mc_name config) version;
          inserted = (map_of (mdl_versions m) version = None);
          m = m\<lparr>mdl_versions := emplace version inst (mdl_versions m)\<rparr>;
          (status, loaded) = loadModel be config inst;
          m = (if inserted then m\<lparr>mdl_versions := set_instance version loaded (mdl_versions m)\<rparr> else m)
      in if \<not> status_ok status then (status, m)
         else (SC_OK, notifySubscribers (updateDefaultVersion 0 m)))"

text \<open>The loop of \<open>addVersions\<close>: the result status, the failed versions and the model.\<close>

fun addVersions_loop ::
  "backend \<Rightarrow> ModelConfig \<Rightarrow> int list \<Rightarrow> StatusCode \<times> int list \<times> Model \<Rightarrow> StatusCode \<times> int list \<times> Model" where
  "addVersions_loop be config [] acc = acc"
| "addVersions_loop be config (version # rest) (result, failed, m) =
     (let (status, m) = addVersion be (config\<lparr>mc_version := version\<rparr>) m
      in if \<not> status_ok status
         then addVersions_loop be config rest (status, failed @ [version], m)
         else addVersions_loop be config rest (result, failed, m))"

definition addVersions :: "backend \<Rightarrow> ModelConfig \<Rightarrow> int list \<Rightarrow> Model \<Rightarrow> StatusCode \<times> int list \<times> Model" where
  "addVersions be config versionsToStart m = addVersions_loop be config versionsToStart (SC_OK, [], m)"

text \<open>
  \<open>retireVersions\<close> and \<open>cleanupFailedLoad\<close> differ in what they do to the instance; each recomputes
  the default version first, leaving the version out, and then changes the instance.
\<close>

fun take_down_loop ::
  "(ModelInstance \<Rightarrow> ModelInstance) \<Rightarrow> int list \<Rightarrow> StatusCode \<times> Model \<Rightarrow> StatusCode \<times> Model" where
  "take_down_loop f [] acc = acc"
| "take_down_loop f (version # rest) (result, m) =
     (case getModelInstanceByVersion m version of
        None \<Rightarrow> take_down_loop f rest (SC_UNKNOWN_ERROR, m)
      | Some inst \<Rightarrow>
          let m = updateDefaultVersion (to_int32 version) m;
              m = m\<lparr>mdl_versions := set_instance version (f inst) (mdl_versions m)\<rparr>
          in take_down_loop f rest (result, m))"

definition retireVersions :: "int list \<Rightarrow> Model \<Rightarrow> StatusCode \<times> Model" where
  "retireVersions versionsToRetire m =
     (let (result, m) = take_down_loop (retireModel True) versionsToRetire (SC_OK, m)
      in (result, notifySubscribers m))"

definition cleanupFailedLoad :: "int list \<Rightarrow> Model \<Rightarrow> StatusCode \<times> Model" where
  "cleanupFailedLoad versionsToCleanUp m =
     (let (result, m) = take_down_loop inst_cleanupFailedLoad versionsToCleanUp (SC_OK, m)
      in (result, notifySubscribers m))"

text \<open>\<open>retireAllVersions\<close> and \<open>cleanupAllVersions\<close>, over the versions in order.\<close>

fun take_down_all :: "(ModelInstance \<Rightarrow> ModelInstance) \<Rightarrow> int list \<Rightarrow> Model \<Rightarrow> Model" where
  "take_down_all f [] m = m"
| "take_down_all f (version # rest) m =
     take_down_all f rest
       (updateDefaultVersion 0
          (m\<lparr>mdl_versions := map (\<lambda>(v, inst). if v = version then (v, f inst) else (v, inst)) (mdl_versions m)\<rparr>))"

definition retireAllVersions :: "Model \<Rightarrow> Model" where
  "retireAllVersions m = notifySubscribers (take_down_all (retireModel True) (map fst (mdl_versions m)) m)"

definition cleanupAllVersions :: "Model \<Rightarrow> Model" where
  "cleanupAllVersions m = notifySubscribers (take_down_all inst_cleanupFailedLoad (map fst (mdl_versions m)) m)"

fun reloadVersions_loop ::
  "backend \<Rightarrow> ModelConfig \<Rightarrow> int list \<Rightarrow> StatusCode \<times> int list \<times> Model \<Rightarrow> StatusCode \<times> int list \<times> Model" where
  "reloadVersions_loop be config [] acc = acc"
| "reloadVersions_loop be config (version # rest) (result, failed, m) =
     (case getModelInstanceByVersion m version of
        None \<Rightarrow> reloadVersions_loop be config rest (SC_UNKNOWN_ERROR, failed, m)
      | Some inst \<Rightarrow>
          let (status, inst) = reloadModel be (config\<lparr>mc_version := version\<rparr>) inst;
              m = m\<lparr>mdl_versions := set_instance version inst (mdl_versions m)\<rparr>
          in if \<not> status_ok status
             then reloadVersions_loop be config rest (status, failed @ [version], m)
             else reloadVersions_loop be config rest (result, failed, updateDefaultVersion 0 m))"

text \<open>The failed versions are appended to what the list already holds.\<close>

definition reloadVersions ::
  "backend \<Rightarrow> ModelConfig \<Rightarrow> int list \<Rightarrow> int list \<Rightarrow> Model \<Rightarrow> StatusCode \<times> int list \<times> Model" where
  "reloadVersions be config versionsToReload failed m =
     (let (result, failed, m) = reloadVersions_loop be config versionsToReload (SC_OK, failed, m)
      in (result, failed, notifySubscribers m))"

section \<open>The manager\<close>

text \<open>
  What the custom loader registry answers for a configuration: none is asked for, the named one
  is not there, or it is and blacklists some versions.
\<close>

datatype custom_loader = NoCustomLoader | is_LoaderNotFound: LoaderNotFound | LoaderFound "int \<Rightarrow> bool"

fun remove_blacklisted :: "custom_loader \<Rightarrow> int list \<Rightarrow> int list \<Rightarrow> int list" where
  "remove_blacklisted (LoaderFound bl) registered requested =
     fold (\<lambda>v r. if bl v then filter (\<lambda>w. w \<noteq> v) r else r) registered requested"
| "remove_blacklisted _ registered requested = requested"

definition needs_reload :: "ModelConfig \<Rightarrow> ModelInstance \<Rightarrow> bool" where
  "needs_reload newModelConfig inst \<longleftrightarrow>
     willEndUnloaded (mi_status inst) \<or> isFailedLoading (mi_status inst) \<or>
     isReloadRequired (mi_config inst) newModelConfig"

definition setCustomLoaderConfigChangeFlag :: "ModelInstance \<Rightarrow> ModelInstance" where
  "setCustomLoaderConfigChangeFlag inst = inst\<lparr>mi_isCustomLoaderConfigChanged := True\<rparr>"

text \<open>Versions to start, to reload and to retire, and the model with the flags the code sets.\<close>

definition flag_versions :: "int set \<Rightarrow> (int \<times> ModelInstance) list \<Rightarrow> (int \<times> ModelInstance) list" where
  "flag_versions F vs = map (\<lambda>(v, i). if v \<in> F then (v, setCustomLoaderConfigChangeFlag i) else (v, i)) vs"

definition getVersionsToChange ::
  "ModelConfig \<Rightarrow> custom_loader \<Rightarrow> Model \<Rightarrow> int list \<Rightarrow> int list \<times> int list \<times> int list \<times> Model" where
  "getVersionsToChange newModelConfig loader m requestedVersions0 =
     (let registeredModelVersions = map fst (mdl_versions m);
          requestedVersions = remove_blacklisted loader registeredModelVersions (sort requestedVersions0);
          inst = (\<lambda>v. the (map_of (mdl_versions m) v));
          alreadyRegistered = set_intersection requestedVersions registeredModelVersions;
          versionsToReload = filter (\<lambda>v. needs_reload newModelConfig (inst v)) alreadyRegistered;
          flagged = filter (\<lambda>v. isCustomLoaderConfigChanged (mi_config (inst v)) newModelConfig) versionsToReload;
          versionsToRetire = filter (\<lambda>v. \<not> willEndUnloaded (mi_status (inst v)))
                               (set_difference registeredModelVersions requestedVersions);
          versionsToStart = set_difference requestedVersions registeredModelVersions
      in (versionsToStart, versionsToReload, versionsToRetire,
          m\<lparr>mdl_versions := flag_versions (set flagged) (mdl_versions m)\<rparr>))"

text \<open>
  What the file system answers for the base path, and the names of its subdirectories in the
  order of a \<open>std::set<std::string>\<close>.
\<close>

record fs_view =
  fs_isDirectory :: "StatusCode \<times> bool"
  fs_isLocalFilesystem :: bool
  fs_isRegularFile :: bool
  fs_extension :: string
  fs_subdirs :: "StatusCode \<times> string list"

definition supportedSingleFileModelExtensions :: "string list" where
  "supportedSingleFileModelExtensions =
     [''.xml'', ''.onnx'', ''.pdmodel'', ''.pdiparams'', ''.pb'', ''.tflite'']"

text \<open>The loop over the directory names.\<close>

fun versions_of_dirs :: "string list \<Rightarrow> int list" where
  "versions_of_dirs [] = []"
| "versions_of_dirs (entry # dirs) =
     (case std_stoll entry of
        Inl _ \<Rightarrow> versions_of_dirs dirs
      | Inr (version, _) \<Rightarrow> if version \<le> 0 then versions_of_dirs dirs else version # versions_of_dirs dirs)"

text \<open>\<open>FileSystem::isPathEscaped\<close>, with \<open>find\<close> as in the code (the first occurrence).\<close>

definition isPathEscaped :: "string \<Rightarrow> bool" where
  "isPathEscaped path =
     (let escapedLinux = (str_find ''../'' path 0 = Some 0 \<or>
                          (str_find ''/..'' path 0 \<noteq> None \<and> str_find ''/..'' path 0 = Some (length path - 3)) \<or>
                          str_find ''/../'' path 0 \<noteq> None)
      in escapedLinux \<or> str_find [CHR ''.'', CHR ''.'', CHR 0x5C] path 0 = Some 0 \<or>
         (str_find [CHR 0x5C, CHR ''.'', CHR ''.''] path 0 \<noteq> None \<and>
          str_find [CHR 0x5C, CHR ''.'', CHR ''.''] path 0 = Some (length path - 3)) \<or>
         str_find [CHR 0x5C, CHR ''.'', CHR ''.'', CHR 0x5C] path 0 \<noteq> None)"

definition readAvailableVersions :: "fs_view \<Rightarrow> string \<Rightarrow> StatusCode + int list" where
  "readAvailableVersions fs base =
     (if isPathEscaped base then Inl SC_PATH_INVALID
      else if fst (fs_isDirectory fs) \<noteq> SC_OK then Inl (fst (fs_isDirectory fs))
      else if \<not> snd (fs_isDirectory fs) then
        (if fs_isLocalFilesystem fs \<and> fs_isRegularFile fs then
           (if fs_extension fs \<notin> set supportedSingleFileModelExtensions then Inl SC_FILE_INVALID else Inr [1])
         else Inl SC_PATH_INVALID)
      else if fst (fs_subdirs fs) \<noteq> SC_OK then Inl (fst (fs_subdirs fs))
      else Inr (versions_of_dirs (snd (fs_subdirs fs))))"

text \<open>
  \<open>std::binary_search\<close> as libstdc++ runs it (\<open>lower_bound\<close> over the first \<open>len\<close> elements from
  \<open>first\<close>); on a range that is not sorted its answer need not be membership.
\<close>

function lower_bound :: "int list \<Rightarrow> int \<Rightarrow> nat \<Rightarrow> nat \<Rightarrow> nat" where
  "lower_bound xs v first len =
     (if len = 0 then first
      else let half = len div 2
           in if xs ! (first + half) < v then lower_bound xs v (first + half + 1) (len - half - 1)
              else lower_bound xs v first half)"
  by pat_completeness auto
termination by (relation "measure (\<lambda>(xs, v, first, len). len)") auto

declare lower_bound.simps [simp del]

definition binary_search :: "int list \<Rightarrow> int \<Rightarrow> bool" where
  "binary_search xs v =
     (let i = lower_bound xs v 0 (length xs) in i < length xs \<and> \<not> v < xs ! i)"

text \<open>The failed versions leave the available ones, if the search finds them there.\<close>

definition drop_failed :: "int list \<Rightarrow> int list \<Rightarrow> int list" where
  "drop_failed failed availableVersions =
     fold (\<lambda>version av. if binary_search av version then filter (\<lambda>w. w \<noteq> version) av else av) failed availableVersions"

record reload_state =
  rs_model :: Model
  rs_available :: "int list"
  rs_start :: "int list"
  rs_reload :: "int list"
  rs_retire :: "int list"
  rs_failed :: "int list"
  rs_allFailed :: "int list"
  rs_status :: StatusCode

definition recompute :: "ModelConfig \<Rightarrow> custom_loader \<Rightarrow> reload_state \<Rightarrow> reload_state" where
  "recompute config loader s =
     (let (start, reload, retire, m) =
            getVersionsToChange config loader (rs_model s) (policy_filter (mc_modelVersionPolicy config) (rs_available s))
      in s\<lparr>rs_start := start, rs_reload := reload, rs_retire := retire, rs_model := m\<rparr>)"

text \<open>\<open>std::set::insert\<close> of every failed version.\<close>

definition note_failed :: "int list \<Rightarrow> int list \<Rightarrow> int list" where
  "note_failed failed allFailed = fold List.insert failed allFailed"

text \<open>
  The body of the loop that starts versions: it breaks when all of them loaded, else it takes the
  failed ones off the available versions and computes anew what to do.
\<close>

definition start_round ::
  "backend \<Rightarrow> ModelConfig \<Rightarrow> custom_loader \<Rightarrow> reload_state \<Rightarrow> bool \<times> reload_state" where
  "start_round be config loader s =
     (let (status, failed, m) = addVersions be config (rs_start s) (rs_model s);
          s = s\<lparr>rs_model := m, rs_failed := failed, rs_status := status\<rparr>
      in if status_ok status then (True, s)
         else (False, recompute config loader
                 (s\<lparr>rs_available := drop_failed failed (rs_available s),
                    rs_allFailed := note_failed failed (rs_allFailed s)\<rparr>)))"

text \<open>
  \<open>while (versionsToStart->size() > 0)\<close>, with a bound on the number of rounds; \<open>None\<close> when the
  loop has not ended by then.
\<close>

fun start_loop :: "nat \<Rightarrow> backend \<Rightarrow> ModelConfig \<Rightarrow> custom_loader \<Rightarrow> reload_state \<Rightarrow> reload_state option" where
  "start_loop 0 be config loader s = (if rs_start s = [] then Some s else None)"
| "start_loop (Suc n) be config loader s =
     (if rs_start s = [] then Some s
      else let (loaded, s) = start_round be config loader s
           in if loaded then Some s else start_loop n be config loader s)"

text \<open>
  From the end of that loop to the end of \<open>reloadModelWithVersions\<close>: the versions to reload are
  reloaded, what failed leaves the available versions, the versions to retire are computed anew
  and split into those that failed, which are cleaned up, and the others, which are retired.
\<close>

definition reload_part :: "backend \<Rightarrow> ModelConfig \<Rightarrow> reload_state \<Rightarrow> reload_state" where
  "reload_part be config s =
     (if rs_reload s \<noteq> [] then
        let (reloadStatus, failed, m) = reloadVersions be config (rs_reload s) (rs_failed s) (rs_model s)
        in s\<lparr>rs_failed := failed, rs_model := m,
             rs_status := (if \<not> status_ok reloadStatus then reloadStatus else rs_status s)\<rparr>
      else s)"

definition note_failures :: "reload_state \<Rightarrow> reload_state" where
  "note_failures s = s\<lparr>rs_available := drop_failed (rs_failed s) (rs_available s),
                       rs_allFailed := note_failed (rs_failed s) (rs_allFailed s)\<rparr>"

definition take_down_part :: "reload_state \<Rightarrow> StatusCode \<times> Model" where
  "take_down_part s =
     (let versionsToCleanup = filter (\<lambda>v. v \<in> set (rs_allFailed s)) (rs_retire s);
          versionsToRetire = filter (\<lambda>v. v \<notin> set (rs_allFailed s)) (rs_retire s);
          (status, m) = (if versionsToRetire \<noteq> [] then retireVersions versionsToRetire (rs_model s)
                         else (SC_OK, rs_model s))
      in if \<not> status_ok status then (status, m)
         else if versionsToCleanup \<noteq> [] then cleanupFailedLoad versionsToCleanup m else (SC_OK, m))"

definition finish_reload ::
  "backend \<Rightarrow> ModelConfig \<Rightarrow> custom_loader \<Rightarrow> bool \<Rightarrow> reload_state \<Rightarrow> StatusCode \<times> Model" where
  "finish_reload be config loader reloadNeeded s =
     (let s = recompute config loader (note_failures (reload_part be config s));
          (status, m) = take_down_part s
      in if \<not> status_ok status then (status, m)
         else if status_ok (rs_status s) \<and> reloadNeeded then (SC_OK_RELOADED, m)
         else (rs_status s, m))"

text \<open>
  The custom loader named by the configuration is recorded in the model; \<open>None\<close> only when the
  bound on the rounds is reached.
\<close>

definition reloadModelWithVersions ::
  "nat \<Rightarrow> backend \<Rightarrow> fs_view \<Rightarrow> custom_loader \<Rightarrow> bool \<Rightarrow> ModelConfig \<Rightarrow> Model \<Rightarrow> (StatusCode \<times> Model) option" where
  "reloadModelWithVersions fuel be fs loader anyVersionSubscribed config m0 =
     (if anyVersionSubscribed \<and> isDynamicParameterEnabled config
      then Some (SC_REQUESTED_DYNAMIC_PARAMETERS_ON_SUBSCRIBED_MODEL, m0)
      else case readAvailableVersions fs (mc_basePath config) of
        Inl c \<Rightarrow> Some (c, m0)
      | Inr availableVersions \<Rightarrow>
          let m = m0\<lparr>mdl_customLoaderName := []\<rparr>
          in if isCustomLoaderRequiredToLoadModel config \<and> is_LoaderNotFound loader
             then Some (SC_OK, retireAllVersions m)
             else
               let m = (if isCustomLoaderRequiredToLoadModel config
                        then m\<lparr>mdl_customLoaderName :=
                                 (case map_of (mc_customLoaderOptionsConfigMap config) ''loader_name'' of
                                    None \<Rightarrow> [] | Some n \<Rightarrow> n)\<rparr>
                        else m);
                   s = recompute config loader
                         \<lparr>rs_model = m, rs_available = availableVersions, rs_start = [], rs_reload = [],
                          rs_retire = [], rs_failed = [], rs_allFailed = [], rs_status = SC_OK\<rparr>;
                   reloadNeeded = (rs_start s \<noteq> [] \<or> rs_reload s \<noteq> [] \<or> rs_retire s \<noteq> [])
               in map_option (finish_reload be config loader reloadNeeded)
                    (start_loop fuel be config loader s))"

section \<open>The state of an instance after its operations\<close>

lemmas inst_ops = loadModelImpl_def guarded_step_def fail_loading_def mvs_setters

text \<open>What a load leaves behind: available exactly on success, otherwise failed.\<close>

definition loaded_or_failed :: "StatusCode \<times> ModelInstance \<Rightarrow> bool" where
  "loaded_or_failed r \<longleftrightarrow>
     (if status_ok (fst r) then inst_available (snd r) else isFailedLoading (mi_status (snd r)))"

lemma fail_loading_outcome: "\<not> status_ok c \<Longrightarrow> loaded_or_failed (fail_loading c inst)"
  by (simp add: loaded_or_failed_def fail_loading_def isFailedLoading_def mvs_setters)

lemma status_not_ok [simp]: "\<not> status_ok SC_MODEL_NOT_LOADED" "\<not> status_ok SC_UNKNOWN_ERROR" "status_ok SC_OK"
  by (simp_all add: status_ok_def)

lemma guarded_step_outcome:
  "(\<And>i. loaded_or_failed (k i)) \<Longrightarrow> loaded_or_failed (guarded_step r inst k)"
  by (auto simp: guarded_step_def fail_loading_outcome split: option.splits)

lemma loadModelImpl_outcome: "loaded_or_failed (loadModelImpl be config inst)"
proof -
  have "loaded_or_failed (SC_OK, i\<lparr>mi_status := setAvailable OK (mi_status i)\<rparr>)" for i
    by (simp add: loaded_or_failed_def inst_available_def mvs_setters)
  then show ?thesis
    unfolding loadModelImpl_def Let_def
    by (auto simp: fail_loading_outcome intro!: guarded_step_outcome)
qed

lemma loadModel_outcome: "loaded_or_failed (loadModel be config inst)"
  by (simp add: loadModel_def loadModelImpl_outcome)

lemma reloadModel_outcome: "loaded_or_failed (reloadModel be config inst)"
  by (simp add: reloadModel_def loadModelImpl_outcome Let_def)

lemma failed_not_available: "isFailedLoading (mi_status i) \<Longrightarrow> \<not> inst_available i"
  by (simp add: isFailedLoading_def inst_available_def)

lemma failed_not_unloaded: "isFailedLoading st \<Longrightarrow> \<not> willEndUnloaded st"
  by (simp add: isFailedLoading_def willEndUnloaded_iff)

lemma retired_not_available [simp]: "\<not> inst_available (retireModel p i)"
  by (simp add: retireModel_def inst_available_def unloadModelComponents_def mvs_setters Let_def)

lemma cleaned_not_available [simp]: "\<not> inst_available (inst_cleanupFailedLoad i)"
  by (simp add: inst_cleanupFailedLoad_def inst_available_def unloadModelComponents_def mvs_setters)

lemma new_not_available [simp]: "\<not> inst_available (new_ModelInstance n v)"
  by (simp add: new_ModelInstance_def new_ModelVersionStatus_def inst_available_def)

section \<open>The default version\<close>

definition available_versions :: "(int \<times> ModelInstance) list \<Rightarrow> int set" where
  "available_versions vs = {v. \<exists>i. (v, i) \<in> set vs \<and> inst_available i}"

text \<open>The default version is the highest available one, or 0 when there is none.\<close>

definition default_ok :: "Model \<Rightarrow> bool" where
  "default_ok m \<longleftrightarrow> mdl_defaultVersion m = Max (insert 0 (available_versions (mdl_versions m)))"

text \<open>The versions are sorted and fit an \<open>int\<close>.\<close>

definition wf_model :: "Model \<Rightarrow> bool" where
  "wf_model m \<longleftrightarrow> sorted_wrt (<) (map fst (mdl_versions m)) \<and>
     list_all (\<lambda>(v, _). - (2 ^ 31) \<le> v \<and> v < 2 ^ 31) (mdl_versions m)"

lemma available_versions_Cons:
  "available_versions ((v, i) # vs) = (if inst_available i then insert v (available_versions vs) else available_versions vs)"
  by (auto simp: available_versions_def)

lemma finite_available [simp]: "finite (available_versions vs)"
proof (rule finite_subset)
  show "available_versions vs \<subseteq> fst ` set vs" by (force simp: available_versions_def)
qed simp

lemma Max_insert_two:
  "finite S \<Longrightarrow> Max (insert a (insert v S)) = Max (insert (if a < v then v else a) S)" for a v :: int
  by (cases "S = {}") (auto simp: max_def)

lemma fold_default:
  "fold (\<lambda>(version, inst) d. if version \<noteq> k \<and> d < version \<and> inst_available inst then version else d) vs a =
     Max (insert a (available_versions vs - {k}))"
proof (induction vs arbitrary: a)
  case (Cons p vs)
  obtain v i where p: "p = (v, i)" by (cases p)
  show ?case
  proof (cases "v \<noteq> k \<and> inst_available i")
    case True
    then have e: "available_versions ((v, i) # vs) - {k} = insert v (available_versions vs - {k})"
      by (auto simp: available_versions_Cons)
    have "Max (insert a (insert v (available_versions vs - {k}))) =
        Max (insert (if a < v then v else a) (available_versions vs - {k}))"
      by (rule Max_insert_two) simp
    then show ?thesis using True Cons.IH by (simp add: p e)
  next
    case False
    then have e: "available_versions ((v, i) # vs) - {k} = available_versions vs - {k}"
      by (auto simp: available_versions_Cons)
    from False show ?thesis using Cons.IH by (auto simp: p e)
  qed
qed (simp add: available_versions_def)

lemma default_after_update:
  "mdl_defaultVersion (updateDefaultVersion k m) = Max (insert 0 (available_versions (mdl_versions m) - {k}))"
  by (simp add: updateDefaultVersion_def fold_default)

lemma updateDefaultVersion_frame [simp]: "mdl_versions (updateDefaultVersion k m) = mdl_versions m"
  by (simp add: updateDefaultVersion_def)

lemma notifySubscribers_frame [simp]:
  "mdl_versions (notifySubscribers m) = mdl_versions m"
  "mdl_defaultVersion (notifySubscribers m) = mdl_defaultVersion m"
  "default_ok (notifySubscribers m) = default_ok m"
  "wf_model (notifySubscribers m) = wf_model m"
  by (simp_all add: notifySubscribers_def default_ok_def wf_model_def)

lemma default_ok_update_0: "default_ok (updateDefaultVersion 0 m)"
proof -
  have "insert 0 (available_versions (mdl_versions m) - {0}) = insert 0 (available_versions (mdl_versions m))" by auto
  then show ?thesis by (simp add: default_ok_def default_after_update)
qed

lemma wf_model_update [simp]: "wf_model (updateDefaultVersion k m) = wf_model m"
  by (simp add: wf_model_def)

text \<open>Changing one instance.\<close>

lemma set_instance_fst [simp]: "map fst (set_instance v x vs) = map fst vs"
  by (induction vs) (auto simp: set_instance_def)

lemma fst_set_instance [simp]: "fst ` set (set_instance v x vs) = fst ` set vs"
  by (metis list.set_map set_instance_fst)

lemma set_instance_mem:
  "(w, i) \<in> set (set_instance v x vs) \<longleftrightarrow>
     (w \<noteq> v \<and> (w, i) \<in> set vs) \<or> (w = v \<and> i = x \<and> v \<in> fst ` set vs)"
proof (induction vs)
  case (Cons p vs)
  then show ?case by (cases p) (auto simp: set_instance_def)
qed (simp add: set_instance_def)

lemma available_set_instance:
  "available_versions (set_instance v x vs) =
     (available_versions vs - {v}) \<union> (if inst_available x \<and> v \<in> fst ` set vs then {v} else {})"
  unfolding available_versions_def set_instance_mem by auto

lemma map_of_set_instance:
  "map_of (set_instance v x vs) w = (if w = v \<and> map_of vs v \<noteq> None then Some x else map_of vs w)"
  by (induction vs) (auto simp: set_instance_def)

lemma wf_model_set_instance [simp]:
  "wf_model (m\<lparr>mdl_versions := set_instance v x (mdl_versions m)\<rparr>) = wf_model m"
proof -
  have "list_all (\<lambda>(v, _). - (2 ^ 31) \<le> v \<and> v < 2 ^ 31) vs \<longleftrightarrow>
      list_all (\<lambda>v. - (2 ^ 31) \<le> v \<and> v < 2 ^ 31) (map fst vs)" for vs :: "(int \<times> ModelInstance) list"
    by (induction vs) auto
  then show ?thesis by (simp add: wf_model_def)
qed

lemma to_int32_id: "- (2 ^ 31) \<le> v \<Longrightarrow> v < 2 ^ 31 \<Longrightarrow> to_int32 v = v"
  by (simp add: to_int32_def signed_take_bit_int_eq_self)

lemma wf_model_int32: "wf_model m \<Longrightarrow> v \<in> fst ` set (mdl_versions m) \<Longrightarrow> to_int32 v = v"
  by (fastforce simp: wf_model_def list_all_iff intro!: to_int32_id)

lemma map_of_key: "map_of vs v = Some i \<Longrightarrow> v \<in> fst ` set vs"
  by (metis domI dom_map_of_conv_image_fst)

section \<open>Operations keep the default version\<close>

definition keys :: "Model \<Rightarrow> int set" where
  "keys m = fst ` set (mdl_versions m)"

definition fits_int32 :: "int \<Rightarrow> bool" where
  "fits_int32 v \<longleftrightarrow> - (2 ^ 31) \<le> v \<and> v < 2 ^ 31"

lemma wf_model_iff:
  "wf_model m \<longleftrightarrow> sorted_wrt (<) (map fst (mdl_versions m)) \<and> (\<forall>v\<in>keys m. fits_int32 v)"
  by (fastforce simp: wf_model_def keys_def fits_int32_def list_all_iff)

lemma keys_map_of: "v \<in> keys m \<longleftrightarrow> map_of (mdl_versions m) v \<noteq> None"
  by (simp add: keys_def map_of_eq_None_iff)

lemma keys_notify [simp]: "keys (notifySubscribers m) = keys m"
  by (simp add: keys_def)

lemma keys_update [simp]: "keys (updateDefaultVersion k m) = keys m"
  by (simp add: keys_def)

lemma keys_set_instance [simp]: "keys (m\<lparr>mdl_versions := set_instance v x (mdl_versions m)\<rparr>) = keys m"
  by (simp add: keys_def)

lemma emplace_fst: "fst ` set (emplace k x vs) = insert k (fst ` set vs)"
  by (induction k x vs rule: emplace.induct) auto

lemma emplace_mem:
  "sorted_wrt (<) (map fst vs) \<Longrightarrow>
   (w, i) \<in> set (emplace k x vs) \<longleftrightarrow> (w, i) \<in> set vs \<or> (w = k \<and> i = x \<and> k \<notin> fst ` set vs)"
proof (induction k x vs rule: emplace.induct)
  case (2 k x l y r)
  show ?case
  proof (cases k l rule: linorder_cases)
    case less
    have "\<forall>w \<in> fst ` set r. l < w" using 2(2) by simp
    with less have "k \<notin> fst ` set r" by force
    with less show ?thesis by auto
  next
    case greater
    then have "emplace k x ((l, y) # r) = (l, y) # emplace k x r" by simp
    then show ?thesis using 2(1) 2(2) greater by simp
  qed simp
qed auto

lemma emplace_sorted: "sorted_wrt (<) (map fst vs) \<Longrightarrow> sorted_wrt (<) (map fst (emplace k x vs))"
proof (induction k x vs rule: emplace.induct)
  case (2 k x l y r)
  then have "\<forall>w \<in> set (map fst (emplace k x r)). l < w" if "l < k"
    using that by (simp add: emplace_fst)
  with 2 show ?case by auto
qed simp

lemma available_emplace:
  "sorted_wrt (<) (map fst vs) \<Longrightarrow> \<not> inst_available x \<Longrightarrow>
   available_versions (emplace k x vs) = available_versions vs"
  by (auto simp: available_versions_def emplace_mem)

lemma addVersion_spec:
  assumes wf: "wf_model m" and fits: "fits_int32 (mc_version config)"
    and r: "addVersion be config m = (st, m')"
  shows "wf_model m' \<and> keys m' = insert (mc_version config) (keys m) \<and> (default_ok m \<longrightarrow> default_ok m')"
proof -
  let ?v = "mc_version config" and ?i = "new_ModelInstance (mc_name config) (mc_version config)"
  let ?m1 = "m\<lparr>mdl_versions := emplace ?v ?i (mdl_versions m)\<rparr>"
  obtain c l where load: "loadModel be config ?i = (c, l)" by fastforce
  define m2 where "m2 = (if map_of (mdl_versions m) ?v = None
      then ?m1\<lparr>mdl_versions := set_instance ?v l (mdl_versions ?m1)\<rparr> else ?m1)"
  have sorted: "sorted_wrt (<) (map fst (mdl_versions m))" using wf by (simp add: wf_model_iff)
  have res: "(st, m') = (if \<not> status_ok c then (c, m2) else (SC_OK, notifySubscribers (updateDefaultVersion 0 m2)))"
    using r by (cases "map_of (mdl_versions m) ?v") (auto simp: addVersion_def load m2_def Let_def split: if_splits)
  have k1: "keys ?m1 = insert ?v (keys m)" by (simp add: keys_def emplace_fst)
  have w1: "wf_model ?m1"
    using wf fits k1 by (auto simp: wf_model_iff emplace_sorted)
  have k2: "keys m2 = insert ?v (keys m)" "wf_model m2"
    unfolding m2_def using k1 w1 wf_model_set_instance [where m = ?m1 and v = ?v and x = l]
      keys_set_instance [where m = ?m1 and v = ?v and x = l]
    by (auto simp: simp del: wf_model_set_instance keys_set_instance)
  have "default_ok m2" if "default_ok m" "\<not> status_ok c"
  proof -
    have "\<not> inst_available l"
      using loadModel_outcome [of be config ?i] that(2) load
      by (simp add: loaded_or_failed_def failed_not_available)
    then have "available_versions (mdl_versions m2) = available_versions (mdl_versions m)"
      using sorted by (auto simp: m2_def available_emplace available_set_instance)
        (auto simp: available_versions_def map_of_eq_None_iff image_iff)
    moreover have "mdl_defaultVersion m2 = mdl_defaultVersion m" by (simp add: m2_def)
    ultimately show ?thesis using that(1) by (simp add: default_ok_def)
  qed
  then show ?thesis using res k2 by (auto simp: default_ok_update_0 split: if_splits)
qed

lemma addVersions_loop_spec:
  assumes "addVersions_loop be config vs (c, failed, m) = (c', failed', m')"
    and "wf_model m" "\<forall>v\<in>set vs. fits_int32 v"
  shows "wf_model m' \<and> keys m' = keys m \<union> set vs \<and> (default_ok m \<longrightarrow> default_ok m') \<and>
    set failed' \<subseteq> set failed \<union> set vs"
  using assms
proof (induction vs arbitrary: c failed m)
  case (Cons v vs)
  obtain c1 m1 where a: "addVersion be (config\<lparr>mc_version := v\<rparr>) m = (c1, m1)" by fastforce
  have "wf_model m1 \<and> keys m1 = insert v (keys m) \<and> (default_ok m \<longrightarrow> default_ok m1)"
    using addVersion_spec [OF Cons.prems(2) _ a] Cons.prems(3) by simp
  moreover have "addVersions_loop be config vs
      (if \<not> status_ok c1 then (c1, failed @ [v], m1) else (c, failed, m1)) = (c', failed', m')"
    using Cons.prems(1) by (simp add: a split: if_splits)
  ultimately show ?case using Cons.IH Cons.prems(3) by (cases "status_ok c1") fastforce+
qed simp

lemma take_down_step:
  assumes "wf_model m" "map_of (mdl_versions m) v = Some i" "\<not> inst_available x"
  shows "default_ok ((updateDefaultVersion (to_int32 v) m)\<lparr>mdl_versions := set_instance v x (mdl_versions m)\<rparr>)"
proof -
  have "to_int32 v = v" using assms(1,2) by (blast intro: wf_model_int32 map_of_key)
  then have "mdl_defaultVersion (updateDefaultVersion (to_int32 v) m) =
      Max (insert 0 (available_versions (mdl_versions m) - {v}))" by (simp add: default_after_update)
  then show ?thesis using assms(3) by (simp add: default_ok_def available_set_instance)
qed

lemma take_down_loop_spec:
  assumes "take_down_loop f vs (c, m) = (c', m')" "wf_model m" "\<And>i. \<not> inst_available (f i)"
  shows "wf_model m' \<and> keys m' = keys m \<and> (default_ok m \<or> set vs \<inter> keys m \<noteq> {} \<longrightarrow> default_ok m') \<and>
    (set vs \<subseteq> keys m \<longrightarrow> c' = c)"
  using assms(1,2)
proof (induction vs arbitrary: c m)
  case (Cons v vs)
  show ?case
  proof (cases "getModelInstanceByVersion m v")
    case None
    then have "v \<notin> keys m" by (simp add: getModelInstanceByVersion_def keys_map_of)
    then show ?thesis using Cons None by auto
  next
    case (Some i)
    define m1 where "m1 = (updateDefaultVersion (to_int32 v) m)\<lparr>mdl_versions := set_instance v (f i) (mdl_versions m)\<rparr>"
    have m1: "default_ok m1" "wf_model m1" "keys m1 = keys m"
      using take_down_step [OF Cons.prems(2) _ assms(3)] Some Cons.prems(2)
        wf_model_set_instance [where m = "updateDefaultVersion (to_int32 v) m" and v = v and x = "f i"]
        keys_set_instance [where m = "updateDefaultVersion (to_int32 v) m" and v = v and x = "f i"]
      unfolding m1_def getModelInstanceByVersion_def by (simp_all del: wf_model_set_instance keys_set_instance)
    have "take_down_loop f vs (c, m1) = (c', m')"
      using Cons.prems(1) Some by (simp add: m1_def)
    from Cons.IH [OF this m1(2)] m1 show ?thesis by auto
  qed
qed simp

lemma reloadVersions_loop_spec:
  assumes "reloadVersions_loop be config vs (c, failed, m) = (c', failed', m')" "wf_model m" "distinct vs"
  shows "\<exists>new. failed' = failed @ new \<and> set new \<subseteq> set vs \<and> wf_model m' \<and> keys m' = keys m \<and>
    (default_ok m \<longrightarrow> default_ok m' \<or> new \<noteq> []) \<and>
    (\<forall>v. v \<notin> set vs \<longrightarrow> map_of (mdl_versions m') v = map_of (mdl_versions m) v) \<and>
    (\<forall>v\<in>set new. \<exists>i. map_of (mdl_versions m') v = Some i \<and> isFailedLoading (mi_status i))"
  using assms
proof (induction vs arbitrary: c failed m)
  case (Cons v vs)
  show ?case
  proof (cases "getModelInstanceByVersion m v")
    case None
    with Cons show ?thesis by fastforce
  next
    case (Some i)
    obtain s j where r: "reloadModel be (config\<lparr>mc_version := v\<rparr>) i = (s, j)" by fastforce
    have out: "if status_ok s then inst_available j else isFailedLoading (mi_status j)"
      using reloadModel_outcome [of be "config\<lparr>mc_version := v\<rparr>" i] r
      by (simp add: loaded_or_failed_def split: if_splits)
    define m1 where "m1 = m\<lparr>mdl_versions := set_instance v j (mdl_versions m)\<rparr>"
    have m1: "wf_model m1" "keys m1 = keys m" using Cons.prems(2) by (simp_all add: m1_def)
    have look: "map_of (mdl_versions m1) v = Some j" "\<forall>w. w \<noteq> v \<longrightarrow> map_of (mdl_versions m1) w = map_of (mdl_versions m) w"
      using Some by (simp_all add: m1_def map_of_set_instance getModelInstanceByVersion_def)
    show ?thesis
    proof (cases "status_ok s")
      case True
      then have "reloadVersions_loop be config vs (c, failed, updateDefaultVersion 0 m1) = (c', failed', m')"
        using Cons.prems(1) Some r by (simp add: m1_def)
      from Cons.IH [OF this] m1 Cons.prems(3) default_ok_update_0 [of m1]
      show ?thesis using look by fastforce
    next
      case False
      then have "reloadVersions_loop be config vs (s, failed @ [v], m1) = (c', failed', m')"
        using Cons.prems(1) Some r by (simp add: m1_def)
      from Cons.IH [OF this m1(1)] Cons.prems(3) obtain new where new:
        "failed' = (failed @ [v]) @ new" "set new \<subseteq> set vs" "wf_model m'" "keys m' = keys m1"
        "\<forall>w. w \<notin> set vs \<longrightarrow> map_of (mdl_versions m') w = map_of (mdl_versions m1) w"
        "\<forall>v\<in>set new. \<exists>i. map_of (mdl_versions m') v = Some i \<and> isFailedLoading (mi_status i)" by auto
      have "map_of (mdl_versions m') v = Some j" using new(5) Cons.prems(3) look by simp
      then show ?thesis using new m1(2) look out False Cons.prems(3)
        by (intro exI[of _ "v # new"]) auto
    qed
  qed
qed simp

section \<open>Binary search\<close>

lemma lower_bound_correct:
  assumes "sorted xs" "first + len \<le> length xs" "\<forall>i < first. xs ! i < v"
    "\<forall>i. first + len \<le> i \<and> i < length xs \<longrightarrow> v \<le> xs ! i"
  defines "r \<equiv> lower_bound xs v first len"
  shows "r \<le> length xs \<and> (\<forall>i < r. xs ! i < v) \<and> (\<forall>i. r \<le> i \<and> i < length xs \<longrightarrow> v \<le> xs ! i)"
  using assms(1-4) unfolding r_def
proof (induction xs v first len rule: lower_bound.induct)
  case (1 xs v first len)
  let ?half = "len div 2"
  show ?case
  proof (cases "len = 0")
    case True
    then have "lower_bound xs v first len = first" by (subst lower_bound.simps) simp
    with True 1(3-6) show ?thesis by simp
  next
    case False
    then have half: "?half < len" by simp
    show ?thesis
    proof (cases "xs ! (first + ?half) < v")
      case True
      have "xs ! i < v" if "i < first + ?half + 1" for i
        using True that sorted_nth_mono [OF 1(3), of i "first + ?half"] 1(4) half by fastforce
      moreover have "lower_bound xs v first len = lower_bound xs v (first + ?half + 1) (len - ?half - 1)"
        using False True by (subst lower_bound.simps) (simp add: Let_def)
      ultimately show ?thesis
        using 1(1) [OF False refl True 1(3)] 1(4-6) half by simp
    next
      case F: False
      have "v \<le> xs ! i" if "first + ?half \<le> i" "i < length xs" for i
        using F that sorted_nth_mono [OF 1(3), of "first + ?half" i] by simp
      then have "\<forall>i. first + ?half \<le> i \<and> i < length xs \<longrightarrow> v \<le> xs ! i" by blast
      moreover have "first + ?half \<le> length xs" using 1(4) half by simp
      moreover have e: "lower_bound xs v first len = lower_bound xs v first ?half"
        using False F by (subst lower_bound.simps) (simp add: Let_def)
      ultimately show ?thesis
        unfolding e using 1(5) by (intro 1(2) [OF False refl F 1(3)])
    qed
  qed
qed

lemma binary_search_sorted: "sorted xs \<Longrightarrow> binary_search xs v \<longleftrightarrow> v \<in> set xs"
proof -
  assume s: "sorted xs"
  let ?r = "lower_bound xs v 0 (length xs)"
  have r: "?r \<le> length xs" "\<forall>i < ?r. xs ! i < v" "\<forall>i. ?r \<le> i \<and> i < length xs \<longrightarrow> v \<le> xs ! i"
    using lower_bound_correct [OF s, of 0 "length xs" v] by simp_all
  show ?thesis
  proof
    assume "binary_search xs v"
    then have "?r < length xs" "xs ! ?r = v" using r(3) by (auto simp: binary_search_def Let_def)
    then show "v \<in> set xs" by (metis nth_mem)
  next
    assume "v \<in> set xs"
    then obtain i where i: "i < length xs" "xs ! i = v" by (auto simp: in_set_conv_nth)
    then have "?r \<le> i" using r(2) by (meson less_irrefl not_le)
    then show "binary_search xs v"
      using i sorted_nth_mono [OF s, of ?r i] by (auto simp: binary_search_def Let_def)
  qed
qed

lemma drop_failed_Cons:
  "drop_failed (v # failed) av =
     drop_failed failed (if binary_search av v then filter (\<lambda>w. w \<noteq> v) av else av)"
  by (simp add: drop_failed_def)

lemma drop_failed_Nil [simp]: "drop_failed [] av = av"
  by (simp add: drop_failed_def)

lemma drop_failed_subset: "set (drop_failed failed av) \<subseteq> set av"
proof (induction failed arbitrary: av)
  case (Cons v failed)
  show ?case
    using Cons.IH [of av] Cons.IH [of "filter (\<lambda>w. w \<noteq> v) av"] by (auto simp: drop_failed_Cons)
qed simp

lemma drop_failed_distinct: "distinct av \<Longrightarrow> distinct (drop_failed failed av)"
  by (induction failed arbitrary: av) (simp_all add: drop_failed_Cons)

lemma drop_failed_sorted:
  "sorted av \<Longrightarrow> sorted (drop_failed failed av) \<and> set (drop_failed failed av) = set av - set failed"
proof (induction failed arbitrary: av)
  case (Cons v failed)
  let ?av = "if binary_search av v then filter (\<lambda>w. w \<noteq> v) av else av"
  have "sorted ?av" using Cons.prems sorted_filter [of id av "\<lambda>w. w \<noteq> v"] by simp
  moreover have "set ?av = set av - {v}" using binary_search_sorted [OF Cons.prems, of v] by auto
  ultimately show ?case using Cons.IH [of ?av] by (auto simp: drop_failed_Cons)
qed simp

section \<open>The manager's procedure\<close>

lemma remove_blacklisted_subset: "set (remove_blacklisted l reg req) \<subseteq> set req"
proof (cases l)
  case (LoaderFound bl)
  have "set (fold (\<lambda>v r. if bl v then filter (\<lambda>w. w \<noteq> v) r else r) reg req) \<subseteq> set req"
  proof (induction reg arbitrary: req)
    case (Cons v reg)
    show ?case using Cons.IH [of req] Cons.IH [of "filter (\<lambda>w. w \<noteq> v) req"] by auto
  qed simp
  then show ?thesis using LoaderFound by simp
qed simp_all

lemma remove_blacklisted_sorted:
  "sorted req \<Longrightarrow> sorted (remove_blacklisted l reg req)"
proof (cases l)
  case (LoaderFound bl)
  have "sorted req \<Longrightarrow> sorted (fold (\<lambda>v r. if bl v then filter (\<lambda>w. w \<noteq> v) r else r) reg req)"
  proof (induction reg arbitrary: req)
    case (Cons v reg)
    then show ?case using sorted_filter [of id req "\<lambda>w. w \<noteq> v"] by simp
  qed simp
  then show "sorted req \<Longrightarrow> ?thesis" using LoaderFound by simp
qed simp_all

lemma remove_blacklisted_distinct:
  "distinct req \<Longrightarrow> distinct (remove_blacklisted l reg req)"
proof (cases l)
  case (LoaderFound bl)
  have "distinct req \<Longrightarrow> distinct (fold (\<lambda>v r. if bl v then filter (\<lambda>w. w \<noteq> v) r else r) reg req)"
    by (induction reg arbitrary: req) auto
  then show "distinct req \<Longrightarrow> ?thesis" using LoaderFound by simp
qed simp_all

definition blacklisted :: "custom_loader \<Rightarrow> int \<Rightarrow> bool" where
  "blacklisted loader v = (case loader of LoaderFound bl \<Rightarrow> bl v | _ \<Rightarrow> False)"

lemma remove_blacklisted_set:
  "set (remove_blacklisted l reg req) = {v \<in> set req. \<not> (v \<in> set reg \<and> blacklisted l v)}"
proof (cases l)
  case (LoaderFound bl)
  have "set (fold (\<lambda>v r. if bl v then filter (\<lambda>w. w \<noteq> v) r else r) reg req) =
      {v \<in> set req. \<not> (v \<in> set reg \<and> bl v)}"
    by (induction reg arbitrary: req) auto
  then show ?thesis using LoaderFound by (simp add: blacklisted_def)
qed (simp_all add: blacklisted_def)

lemma flag_versions_Cons [simp]:
  "flag_versions F [] = []"
  "flag_versions F ((v, i) # vs) =
     (v, if v \<in> F then setCustomLoaderConfigChangeFlag i else i) # flag_versions F vs"
  by (simp_all add: flag_versions_def)

lemma flag_frame [simp]:
  "inst_available (setCustomLoaderConfigChangeFlag i) = inst_available i"
  "mi_status (setCustomLoaderConfigChangeFlag i) = mi_status i"
  by (simp_all add: setCustomLoaderConfigChangeFlag_def inst_available_def)

lemma flag_available: "available_versions (flag_versions F vs) = available_versions vs"
proof (induction vs)
  case (Cons p vs)
  then show ?case by (cases p) (simp add: available_versions_Cons)
qed simp

lemma flag_fst [simp]: "map fst (flag_versions F vs) = map fst vs"
proof (induction vs)
  case (Cons p vs)
  then show ?case by (cases p) simp
qed simp

lemma flag_map_of: "map_option mi_status (map_of (flag_versions F vs) v) = map_option mi_status (map_of vs v)"
proof (induction vs)
  case (Cons p vs)
  then show ?case by (cases p) simp
qed simp

text \<open>What \<open>getVersionsToChange\<close> computes, as sets.\<close>

lemma getVersionsToChange_spec:
  assumes "wf_model m" "distinct req"
    and g: "getVersionsToChange config loader m req = (start, reload, retire, m')"
  defines "wanted \<equiv> set (remove_blacklisted loader (map fst (mdl_versions m)) (sort req))"
  shows "set start = wanted - keys m" "distinct start" "wanted \<subseteq> set req"
    "set reload = {v \<in> wanted \<inter> keys m. needs_reload config (the (map_of (mdl_versions m) v))}" "distinct reload"
    "set retire = {v \<in> keys m - wanted. \<not> willEndUnloaded (mi_status (the (map_of (mdl_versions m) v)))}"
    "wf_model m'" "keys m' = keys m" "default_ok m' = default_ok m"
    "mdl_defaultVersion m' = mdl_defaultVersion m"
    "\<forall>v. map_option mi_status (map_of (mdl_versions m') v) = map_option mi_status (map_of (mdl_versions m) v)"
proof -
  let ?reg = "map fst (mdl_versions m)" and ?w = "remove_blacklisted loader (map fst (mdl_versions m)) (sort req)"
  have reg: "sorted ?reg" "distinct ?reg" "set ?reg = keys m"
    using assms(1) by (auto simp: wf_model_iff strict_sorted_iff keys_def)
  have w: "sorted ?w" "distinct ?w" using assms(2) by (simp_all add: remove_blacklisted_sorted remove_blacklisted_distinct)
  show "set start = wanted - keys m" "distinct start"
    using g reg w set_difference_set [of ?w ?reg] set_difference_distinct [of ?w ?reg]
    by (auto simp: getVersionsToChange_def Let_def wanted_def)
  show "wanted \<subseteq> set req" unfolding wanted_def using remove_blacklisted_subset [of loader ?reg "sort req"] by simp
  show "set reload = {v \<in> wanted \<inter> keys m. needs_reload config (the (map_of (mdl_versions m) v))}" "distinct reload"
    using g reg w set_intersection_set [of ?w ?reg] set_intersection_distinct [of ?w ?reg]
    by (auto simp: getVersionsToChange_def Let_def wanted_def)
  show "set retire = {v \<in> keys m - wanted. \<not> willEndUnloaded (mi_status (the (map_of (mdl_versions m) v)))}"
    using g reg w set_difference_set [of ?reg ?w] by (auto simp: getVersionsToChange_def Let_def wanted_def)
  obtain F where m': "m' = m\<lparr>mdl_versions := flag_versions F (mdl_versions m)\<rparr>"
  proof -
    have "m' = snd (snd (snd (getVersionsToChange config loader m req)))" using g by simp
    moreover have "\<exists>F. snd (snd (snd (getVersionsToChange config loader m req))) =
        m\<lparr>mdl_versions := flag_versions F (mdl_versions m)\<rparr>"
      unfolding getVersionsToChange_def Let_def snd_conv by (rule exI, rule refl)
    ultimately show thesis using that by metis
  qed
  show k: "keys m' = keys m"
  proof -
    have "fst ` set (flag_versions F (mdl_versions m)) = fst ` set (mdl_versions m)"
      using flag_fst [of F "mdl_versions m"] by (metis list.set_map)
    then show ?thesis by (simp add: keys_def m')
  qed
  show "wf_model m'" using assms(1) k by (simp add: wf_model_iff m')
  show "mdl_defaultVersion m' = mdl_defaultVersion m" by (simp add: m')
  then show "default_ok m' = default_ok m" by (simp add: default_ok_def m' flag_available)
  show "\<forall>v. map_option mi_status (map_of (mdl_versions m') v) = map_option mi_status (map_of (mdl_versions m) v)"
    by (simp add: m' flag_map_of)
qed

text \<open>The state of the procedure between two of its steps.\<close>

definition state_ok :: "ModelConfig \<Rightarrow> reload_state \<Rightarrow> bool" where
  "state_ok config s \<longleftrightarrow>
     wf_model (rs_model s) \<and> distinct (rs_available s) \<and> (\<forall>v\<in>set (rs_available s). fits_int32 v) \<and>
     set (rs_start s) \<subseteq> set (rs_available s) - keys (rs_model s) \<and> distinct (rs_reload s) \<and>
     set (rs_reload s) \<subseteq> keys (rs_model s)"

lemma recompute_spec:
  fixes config :: ModelConfig and loader :: custom_loader
  assumes "wf_model (rs_model s)" "distinct (rs_available s)" "\<forall>v\<in>set (rs_available s). fits_int32 v"
  defines "t \<equiv> recompute config loader s"
  shows "state_ok config t" "keys (rs_model t) = keys (rs_model s)"
    "default_ok (rs_model t) = default_ok (rs_model s)" "rs_available t = rs_available s"
    "rs_allFailed t = rs_allFailed s" "rs_failed t = rs_failed s" "rs_status t = rs_status s"
    "set (rs_retire t) \<subseteq> keys (rs_model t)"
    "\<forall>v i. map_of (mdl_versions (rs_model s)) v = Some i \<and> isFailedLoading (mi_status i) \<and> v \<notin> set (rs_available s) \<longrightarrow>
       v \<in> set (rs_retire t)"
proof -
  let ?m = "rs_model s" and ?req = "policy_filter (mc_modelVersionPolicy config) (rs_available s)"
  obtain start reload retire m' where g: "getVersionsToChange config loader ?m ?req = (start, reload, retire, m')"
    by (metis prod_cases4)
  have t: "t = s\<lparr>rs_start := start, rs_reload := reload, rs_retire := retire, rs_model := m'\<rparr>"
    by (simp add: t_def recompute_def g)
  have req: "distinct ?req" "set ?req \<subseteq> set (rs_available s)"
    using assms(2) pol.pol_distinct pol.pol_subset by blast+
  note spec = getVersionsToChange_spec [OF assms(1) req(1) g]
  have "set start \<subseteq> set (rs_available s) - keys m'" "set reload \<subseteq> keys m'"
    using spec(1,3,4,8) req(2) by blast+
  then show "state_ok config t" using assms(1-3) spec(5,7) by (simp add: state_ok_def t)
  show "keys (rs_model t) = keys (rs_model s)" "default_ok (rs_model t) = default_ok (rs_model s)"
    using spec by (simp_all add: t)
  show "rs_available t = rs_available s" "rs_allFailed t = rs_allFailed s" "rs_failed t = rs_failed s"
    "rs_status t = rs_status s" by (simp_all add: t)
  show "set (rs_retire t) \<subseteq> keys (rs_model t)" using spec by (auto simp: t)
  show "\<forall>v i. map_of (mdl_versions (rs_model s)) v = Some i \<and> isFailedLoading (mi_status i) \<and> v \<notin> set (rs_available s) \<longrightarrow>
       v \<in> set (rs_retire t)"
  proof (intro allI impI)
    fix v i
    assume v: "map_of (mdl_versions (rs_model s)) v = Some i \<and> isFailedLoading (mi_status i) \<and> v \<notin> set (rs_available s)"
    then have "v \<in> keys ?m" by (simp add: keys_map_of)
    moreover have "v \<notin> set (remove_blacklisted loader (map fst (mdl_versions ?m)) (sort ?req))"
      using v spec(3) req(2) by blast
    ultimately show "v \<in> set (rs_retire t)" using v spec(6) by (simp add: t failed_not_unloaded)
  qed
qed

lemma start_round_spec:
  assumes "state_ok config s" "start_round be config loader s = (loaded, t)"
  shows "state_ok config t \<or> loaded" "wf_model (rs_model t)" "distinct (rs_available t)"
    "set (rs_available t) \<subseteq> set (rs_available s)"
    "keys (rs_model t) = keys (rs_model s) \<union> set (rs_start s)"
    "default_ok (rs_model s) \<longrightarrow> default_ok (rs_model t)"
    "loaded \<longrightarrow> rs_reload t = rs_reload s \<and> rs_available t = rs_available s"
    "sorted (rs_available s) \<longrightarrow> sorted (rs_available t)"
proof -
  obtain st failed m where a: "addVersions be config (rs_start s) (rs_model s) = (st, failed, m)"
    by (metis prod_cases3)
  have fits: "\<forall>v\<in>set (rs_start s). fits_int32 v" using assms(1) by (auto simp: state_ok_def)
  have m: "wf_model m" "keys m = keys (rs_model s) \<union> set (rs_start s)" "default_ok (rs_model s) \<longrightarrow> default_ok m"
    using addVersions_loop_spec [OF a [unfolded addVersions_def] _ fits] assms(1) by (auto simp: state_ok_def)
  define s1 where "s1 = s\<lparr>rs_model := m, rs_failed := failed, rs_status := st\<rparr>"
  define s2 where "s2 = s1\<lparr>rs_available := drop_failed failed (rs_available s),
    rs_allFailed := note_failed failed (rs_allFailed s)\<rparr>"
  have t: "(loaded, t) = (if status_ok st then (True, s1) else (False, recompute config loader s2))"
    using assms(2) by (auto simp: start_round_def a s1_def s2_def Let_def split: if_splits)
  have s2: "wf_model (rs_model s2)" "distinct (rs_available s2)" "\<forall>v\<in>set (rs_available s2). fits_int32 v"
    using m assms(1) drop_failed_subset [of failed "rs_available s"]
    by (auto simp: s1_def s2_def state_ok_def drop_failed_distinct)
  note rec = recompute_spec [OF s2, of config loader]
  show "state_ok config t \<or> loaded" using t rec(1) by (auto split: if_splits)
  show "wf_model (rs_model t)" using t rec(1) m by (auto simp: state_ok_def s1_def split: if_splits)
  show "distinct (rs_available t)"
    using t rec(4) s2(2) assms(1) by (auto simp: s1_def state_ok_def split: if_splits)
  show "set (rs_available t) \<subseteq> set (rs_available s)"
    using t rec(4) drop_failed_subset [of failed "rs_available s"] by (auto simp: s1_def s2_def split: if_splits)
  show "keys (rs_model t) = keys (rs_model s) \<union> set (rs_start s)"
    using t rec(2) m by (auto simp: s1_def s2_def split: if_splits)
  show "default_ok (rs_model s) \<longrightarrow> default_ok (rs_model t)"
    using t rec(3) m by (auto simp: s1_def s2_def split: if_splits)
  show "loaded \<longrightarrow> rs_reload t = rs_reload s \<and> rs_available t = rs_available s"
    using t by (auto simp: s1_def split: if_splits)
  show "sorted (rs_available s) \<longrightarrow> sorted (rs_available t)"
    using t rec(4) drop_failed_sorted [of "rs_available s" failed] by (auto simp: s1_def s2_def split: if_splits)
qed

lemma remaining_shrinks: "C \<subseteq> A \<Longrightarrow> S \<subseteq> A - K \<Longrightarrow> S \<noteq> {} \<Longrightarrow> C - (K \<union> S) \<subset> A - K"
  by auto

text \<open>The loop ends: every round registers a version that was available and not registered.\<close>

lemma start_loop_terminates:
  assumes "state_ok config s" "card (set (rs_available s) - keys (rs_model s)) \<le> n"
  shows "\<exists>t. start_loop n be config loader s = Some t"
  using assms
proof (induction n arbitrary: s)
  case 0
  then have "set (rs_available s) - keys (rs_model s) = {}" by simp
  moreover have "set (rs_start s) \<subseteq> set (rs_available s) - keys (rs_model s)"
    using 0(1) by (simp add: state_ok_def)
  ultimately have "set (rs_start s) \<subseteq> {}" by blast
  then show ?case by simp
next
  case (Suc n)
  obtain loaded t where r: "start_round be config loader s = (loaded, t)" by fastforce
  note spec = start_round_spec [OF Suc.prems(1) r]
  show ?case
  proof (cases "rs_start s = [] \<or> loaded")
    case False
    have "set (rs_start s) \<subseteq> set (rs_available s) - keys (rs_model s)" using Suc.prems(1) by (simp add: state_ok_def)
    moreover have "set (rs_start s) \<noteq> {}" using False by simp
    ultimately have "set (rs_available t) - keys (rs_model t) \<subset> set (rs_available s) - keys (rs_model s)"
      unfolding spec(5) using spec(4) by (intro remaining_shrinks)
    then have "card (set (rs_available t) - keys (rs_model t)) < card (set (rs_available s) - keys (rs_model s))"
      by (intro psubset_card_mono) auto
    then have "\<exists>u. start_loop n be config loader t = Some u"
      using Suc.IH [of t] spec(1) False Suc.prems(2) by simp
    then show ?thesis using False r by simp
  qed (use r in auto)
qed

text \<open>What the loop keeps.\<close>

definition loop_inv :: "reload_state \<Rightarrow> bool" where
  "loop_inv s \<longleftrightarrow> wf_model (rs_model s) \<and> default_ok (rs_model s) \<and> sorted (rs_available s) \<and>
     distinct (rs_available s) \<and> (\<forall>v\<in>set (rs_available s). fits_int32 v) \<and>
     distinct (rs_reload s) \<and> set (rs_reload s) \<subseteq> keys (rs_model s)"

lemma start_loop_inv:
  assumes "start_loop n be config loader s = Some t" "state_ok config s" "default_ok (rs_model s)" "sorted (rs_available s)"
  shows "loop_inv t"
  using assms
proof (induction n arbitrary: s)
  case 0
  then show ?case by (auto simp: loop_inv_def state_ok_def split: if_splits)
next
  case (Suc n)
  obtain loaded u where r: "start_round be config loader s = (loaded, u)" by fastforce
  note spec = start_round_spec [OF Suc.prems(2) r]
  consider "rs_start s = []" | "rs_start s \<noteq> []" "loaded" | "rs_start s \<noteq> []" "\<not> loaded" by blast
  then show ?case
  proof cases
    case 1
    then show ?thesis using Suc.prems by (auto simp: loop_inv_def state_ok_def)
  next
    case 2
    then have "t = u" using Suc.prems(1) r by simp
    then show ?thesis using spec 2 Suc.prems(2-4) by (auto simp: loop_inv_def state_ok_def)
  next
    case 3
    then have "start_loop n be config loader u = Some t" using Suc.prems(1) r by simp
    then show ?thesis using Suc.IH spec 3 Suc.prems(3,4) by blast
  qed
qed

lemma note_failed_set: "set (note_failed failed allFailed) = set allFailed \<union> set failed"
  by (induction failed arbitrary: allFailed) (auto simp: note_failed_def)

lemma retireVersions_spec:
  assumes "retireVersions vs m = (c, m')" "wf_model m" "set vs \<subseteq> keys m"
  shows "wf_model m' \<and> keys m' = keys m \<and> (default_ok m \<or> vs \<noteq> [] \<longrightarrow> default_ok m') \<and> c = SC_OK"
proof -
  obtain m1 where l: "take_down_loop (retireModel True) vs (SC_OK, m) = (c, m1)" "m' = notifySubscribers m1"
    using assms(1) by (auto simp: retireVersions_def split: prod.splits)
  have "set vs \<inter> keys m \<noteq> {}" if "vs \<noteq> []" using that assms(3) by (cases vs) auto
  then show ?thesis using take_down_loop_spec [OF l(1) assms(2)] assms(3) l(2) by auto
qed

lemma cleanupFailedLoad_spec:
  assumes "cleanupFailedLoad vs m = (c, m')" "wf_model m" "set vs \<subseteq> keys m"
  shows "wf_model m' \<and> keys m' = keys m \<and> (default_ok m \<or> vs \<noteq> [] \<longrightarrow> default_ok m') \<and> c = SC_OK"
proof -
  obtain m1 where l: "take_down_loop inst_cleanupFailedLoad vs (SC_OK, m) = (c, m1)" "m' = notifySubscribers m1"
    using assms(1) by (auto simp: cleanupFailedLoad_def split: prod.splits)
  have "set vs \<inter> keys m \<noteq> {}" if "vs \<noteq> []" using that assms(3) by (cases vs) auto
  then show ?thesis using take_down_loop_spec [OF l(1) assms(2)] assms(3) l(2) by auto
qed

text \<open>The reloading part of \<open>finish_reload\<close>: failures leave a failed version behind.\<close>

lemma reload_part_spec:
  assumes "loop_inv s"
    and r: "reloadVersions be config (rs_reload s) (rs_failed s) (rs_model s) = (c, failed, m)"
  shows "wf_model m" "keys m = keys (rs_model s)"
    "default_ok m \<or> (\<exists>v i. v \<in> set failed \<and> map_of (mdl_versions m) v = Some i \<and> isFailedLoading (mi_status i))"
proof -
  obtain m1 where l: "reloadVersions_loop be config (rs_reload s) (SC_OK, rs_failed s, rs_model s) = (c, failed, m1)"
    and m: "m = notifySubscribers m1"
    using r by (auto simp: reloadVersions_def split: prod.splits)
  have "wf_model (rs_model s)" "distinct (rs_reload s)" "default_ok (rs_model s)"
    using assms(1) by (simp_all add: loop_inv_def)
  with reloadVersions_loop_spec [OF l] obtain new where new:
    "failed = rs_failed s @ new" "wf_model m1" "keys m1 = keys (rs_model s)" "default_ok m1 \<or> new \<noteq> []"
    "\<forall>v\<in>set new. \<exists>i. map_of (mdl_versions m1) v = Some i \<and> isFailedLoading (mi_status i)" by auto
  show "wf_model m" "keys m = keys (rs_model s)" using new m by simp_all
  show "default_ok m \<or> (\<exists>v i. v \<in> set failed \<and> map_of (mdl_versions m) v = Some i \<and> isFailedLoading (mi_status i))"
    using new m by (cases new) auto
qed

lemma reload_part_state:
  assumes "loop_inv s"
  shows "wf_model (rs_model (reload_part be config s)) \<and> rs_available (reload_part be config s) = rs_available s \<and>
    (default_ok (rs_model (reload_part be config s)) \<or>
     (\<exists>v i. v \<in> set (rs_failed (reload_part be config s)) \<and>
        map_of (mdl_versions (rs_model (reload_part be config s))) v = Some i \<and> isFailedLoading (mi_status i)))"
proof (cases "rs_reload s = []")
  case False
  obtain st failed m where r: "reloadVersions be config (rs_reload s) (rs_failed s) (rs_model s) = (st, failed, m)"
    by (metis prod_cases3)
  show ?thesis using reload_part_spec [OF assms r] False by (simp add: reload_part_def r)
qed (use assms in \<open>simp add: reload_part_def loop_inv_def\<close>)

lemma take_down_part_spec:
  assumes "take_down_part t = (c, m)" "wf_model (rs_model t)" "set (rs_retire t) \<subseteq> keys (rs_model t)"
    "default_ok (rs_model t) \<or> set (rs_retire t) \<inter> set (rs_allFailed t) \<noteq> {}"
  shows "wf_model m \<and> default_ok m \<and> c = SC_OK"
proof -
  let ?clean = "filter (\<lambda>v. v \<in> set (rs_allFailed t)) (rs_retire t)"
    and ?ret = "filter (\<lambda>v. v \<notin> set (rs_allFailed t)) (rs_retire t)"
  have clean: "default_ok (rs_model t) \<or> ?clean \<noteq> []" using assms(4) by (auto simp: filter_empty_conv)
  obtain c1 m1 where m1: "(if ?ret \<noteq> [] then retireVersions ?ret (rs_model t) else (SC_OK, rs_model t)) = (c1, m1)"
    by fastforce
  have sub: "set ?ret \<subseteq> keys (rs_model t)" "set ?clean \<subseteq> keys (rs_model t)" using assms(3) by auto
  then have r1: "wf_model m1" "keys m1 = keys (rs_model t)" "default_ok (rs_model t) \<longrightarrow> default_ok m1" "c1 = SC_OK"
    using m1 assms(2) retireVersions_spec [of ?ret "rs_model t" c1 m1] by (auto split: if_splits)
  have "(if ?clean \<noteq> [] then cleanupFailedLoad ?clean m1 else (SC_OK, m1)) = (c, m)"
    using assms(1) m1 r1(4) by (simp add: take_down_part_def Let_def)
  then show ?thesis
    using r1 clean sub(2) cleanupFailedLoad_spec [of ?clean m1 c m] by (auto split: if_splits)
qed

lemma finish_reload_spec:
  assumes inv: "loop_inv s" and f: "finish_reload be config loader b s = (c, m')"
  shows "default_ok m' \<and> wf_model m'"
proof -
  define s1 where "s1 = reload_part be config s"
  define s2 where "s2 = note_failures s1"
  define t where "t = recompute config loader s2"
  note s1 = reload_part_state [OF inv, of be config, folded s1_def]
  have av: "sorted (rs_available s)" "distinct (rs_available s)" "\<forall>v\<in>set (rs_available s). fits_int32 v"
    using inv by (simp_all add: loop_inv_def)
  have s2: "wf_model (rs_model s2)" "distinct (rs_available s2)" "\<forall>v\<in>set (rs_available s2). fits_int32 v"
    "set (rs_available s2) \<inter> set (rs_failed s1) = {}" "rs_model s2 = rs_model s1"
    "set (rs_failed s1) \<subseteq> set (rs_allFailed s2)"
    using s1 av drop_failed_sorted [OF av(1), of "rs_failed s1"] drop_failed_distinct [OF av(2), of "rs_failed s1"]
    by (auto simp: s2_def note_failures_def note_failed_set)
  note rec = recompute_spec [OF s2(1-3), of config loader, folded t_def]
  have "default_ok (rs_model t) \<or> set (rs_retire t) \<inter> set (rs_allFailed t) \<noteq> {}"
  proof (cases "default_ok (rs_model s1)")
    case False
    then obtain v i where v: "v \<in> set (rs_failed s1)" "map_of (mdl_versions (rs_model s2)) v = Some i"
      "isFailedLoading (mi_status i)" using s1 s2(5) by auto
    then have "v \<in> set (rs_retire t)" using rec(9) s2(4) by blast
    moreover have "v \<in> set (rs_allFailed t)" using v(1) rec(5) s2(6) by auto
    ultimately show ?thesis by blast
  qed (use rec(3) s2(5) in simp)
  moreover have "wf_model (rs_model t)" using rec(1) by (simp add: state_ok_def)
  moreover obtain c2 m2 where m2: "take_down_part t = (c2, m2)" by fastforce
  ultimately have r: "wf_model m2 \<and> default_ok m2 \<and> c2 = SC_OK" using rec(8) by (intro take_down_part_spec)
  have "finish_reload be config loader b s =
      (if status_ok (rs_status t) \<and> b then (SC_OK_RELOADED, m2) else (rs_status t, m2))"
    using r by (simp add: finish_reload_def s1_def [symmetric] s2_def [symmetric] t_def [symmetric] m2 Let_def)
  then show ?thesis using f r by (auto split: if_splits)
qed

lemma take_down_all_spec:
  "wf_model m \<Longrightarrow> (default_ok m \<or> vs \<noteq> []) \<Longrightarrow>
     wf_model (take_down_all f vs m) \<and> default_ok (take_down_all f vs m)"
proof (induction vs arbitrary: m)
  case (Cons v vs)
  let ?m = "m\<lparr>mdl_versions := map (\<lambda>(w, inst). if w = v then (w, f inst) else (w, inst)) (mdl_versions m)\<rparr>"
  have k: "map fst (mdl_versions ?m) = map fst (mdl_versions m)" by (auto split: prod.splits)
  then have "keys ?m = keys m" unfolding keys_def by (metis list.set_map)
  with k Cons.prems(1) have "wf_model ?m" unfolding wf_model_iff k by simp
  then show ?case
    using Cons.IH [of "updateDefaultVersion 0 ?m"] default_ok_update_0 [of ?m] by simp
qed simp

lemma retireAllVersions_spec:
  "wf_model m \<Longrightarrow> default_ok m \<Longrightarrow> wf_model (retireAllVersions m) \<and> default_ok (retireAllVersions m)"
  using take_down_all_spec [of m] by (simp add: retireAllVersions_def)

lemma loader_name_frame:
  "wf_model (m\<lparr>mdl_customLoaderName := n\<rparr>) = wf_model m" "default_ok (m\<lparr>mdl_customLoaderName := n\<rparr>) = default_ok m"
  by (simp_all add: wf_model_def default_ok_def)

definition initial_state :: "Model \<Rightarrow> int list \<Rightarrow> reload_state" where
  "initial_state m av = \<lparr>rs_model = m, rs_available = av, rs_start = [], rs_reload = [],
     rs_retire = [], rs_failed = [], rs_allFailed = [], rs_status = SC_OK\<rparr>"

lemma reload_terminates_aux:
  assumes "wf_model m" "distinct av" "\<forall>v\<in>set av. fits_int32 v" "length av \<le> n"
  shows "\<exists>t. start_loop n be config loader (recompute config loader (initial_state m av)) = Some t"
proof -
  have "wf_model (rs_model (initial_state m av))" "distinct (rs_available (initial_state m av))"
    "\<forall>v\<in>set (rs_available (initial_state m av)). fits_int32 v"
    using assms by (simp_all add: initial_state_def)
  note rec = recompute_spec [OF this, of config loader]
  have "card (set av - keys m) \<le> card (set av)" by (intro card_mono) auto
  also have "\<dots> \<le> n" using assms(2,4) by (simp add: distinct_card)
  finally show ?thesis using rec(1,2,4) by (intro start_loop_terminates) (simp_all add: initial_state_def)
qed

lemma reload_inv_aux:
  assumes "wf_model m" "default_ok m" "distinct av" "sorted av" "\<forall>v\<in>set av. fits_int32 v"
    and "start_loop n be config loader (recompute config loader (initial_state m av)) = Some t"
  shows "loop_inv t"
proof -
  have "wf_model (rs_model (initial_state m av))" "distinct (rs_available (initial_state m av))"
    "\<forall>v\<in>set (rs_available (initial_state m av)). fits_int32 v"
    using assms by (simp_all add: initial_state_def)
  note rec = recompute_spec [OF this, of config loader]
  show ?thesis using rec(1,3,4) assms(2,4) by (intro start_loop_inv [OF assms(6)]) (simp_all add: initial_state_def)
qed

lemma reload_cases:
  assumes "readAvailableVersions fs (mc_basePath config) = Inr av"
  obtains c where "reloadModelWithVersions n be fs loader sub config mdl = Some (c, mdl)"
  | c where "reloadModelWithVersions n be fs loader sub config mdl =
      Some (c, retireAllVersions (mdl\<lparr>mdl_customLoaderName := []\<rparr>))"
  | b ln where "reloadModelWithVersions n be fs loader sub config mdl =
      map_option (finish_reload be config loader b)
        (start_loop n be config loader (recompute config loader (initial_state (mdl\<lparr>mdl_customLoaderName := ln\<rparr>) av)))"
proof -
  consider "sub \<and> isDynamicParameterEnabled config"
    | "\<not> (sub \<and> isDynamicParameterEnabled config)" "isCustomLoaderRequiredToLoadModel config \<and> is_LoaderNotFound loader"
    | "\<not> (sub \<and> isDynamicParameterEnabled config)" "\<not> (isCustomLoaderRequiredToLoadModel config \<and> is_LoaderNotFound loader)"
    by blast
  then show thesis
  proof cases
    case 1
    then show thesis by (intro that(1)) (simp add: reloadModelWithVersions_def)
  next
    case 2
    then show thesis by (intro that(2)) (auto simp: reloadModelWithVersions_def assms)
  next
    case 3
    have e: "(if isCustomLoaderRequiredToLoadModel config
              then (mdl\<lparr>mdl_customLoaderName := []\<rparr>)\<lparr>mdl_customLoaderName := ln\<rparr> else mdl\<lparr>mdl_customLoaderName := []\<rparr>) =
        mdl\<lparr>mdl_customLoaderName := (if isCustomLoaderRequiredToLoadModel config then ln else [])\<rparr>" for ln
      by simp
    show thesis
      using that(3) 3 unfolding reloadModelWithVersions_def assms
      by (simp only: sum.case Let_def if_False if_not_P e initial_state_def [symmetric] simp_thms)
  qed
qed

section \<open>A small repository\<close>

text \<open>Concrete inputs: a backend that cannot load some versions, and a base path with subdirectories.\<close>

definition failing_backend :: "int list \<Rightarrow> backend" where
  "failing_backend bad =
     \<lparr>be_fetchModelFilepaths = (\<lambda>_. SC_OK), be_loadOVModel = (\<lambda>_. Some SC_OK), be_loadTensors = (\<lambda>_. Some SC_OK),
      be_loadOVCompiledModel = (\<lambda>c. if mc_version c \<in> set bad then None else Some SC_OK),
      be_prepareInferenceRequestsQueue = (\<lambda>_. Some SC_OK)\<rparr>"

definition fs_with :: "string list \<Rightarrow> fs_view" where
  "fs_with dirs = \<lparr>fs_isDirectory = (SC_OK, True), fs_isLocalFilesystem = True, fs_isRegularFile = False,
     fs_extension = [], fs_subdirs = (SC_OK, dirs)\<rparr>"

definition all_versions_config :: ModelConfig where
  "all_versions_config = empty_ModelConfig\<lparr>mc_modelVersionPolicy := AllModelVersionPolicy\<rparr>"

definition empty_model :: Model where
  "empty_model = \<lparr>mdl_versions = [], mdl_defaultVersion = 0, mdl_customLoaderName = [], mdl_notifications = 0\<rparr>"

section \<open>Properties\<close>

text \<open>
  Loading and reloading report what they leave behind. Whatever the backend answers, the
  returned status is a success exactly when the instance ends up \<open>AVAILABLE\<close>, and otherwise the
  instance is in the failed-loading state from which the manager will try again.
\<close>

theorem load_reports_the_state_it_leaves:
  "(status_ok (fst (loadModel be config inst)) \<longleftrightarrow> mvs_state (mi_status (snd (loadModel be config inst))) = AVAILABLE) \<and>
   (\<not> status_ok (fst (loadModel be config inst)) \<longleftrightarrow> isFailedLoading (mi_status (snd (loadModel be config inst)))) \<and>
   (status_ok (fst (reloadModel be config inst)) \<longleftrightarrow> mvs_state (mi_status (snd (reloadModel be config inst))) = AVAILABLE) \<and>
   (\<not> status_ok (fst (reloadModel be config inst)) \<longleftrightarrow> isFailedLoading (mi_status (snd (reloadModel be config inst))))"
  using loadModel_outcome [of be config inst] reloadModel_outcome [of be config inst]
  by (auto simp: loaded_or_failed_def inst_available_def isFailedLoading_def split: if_splits)

text \<open>
  C3: From a well-formed model whose default version is the highest available one, and when the versions are
  listed without a failure, in increasing order, each once and each fitting an \<open>int\<close>, bringing the
  model in line with a configuration ends within as many rounds as there are versions, whatever the
  backend answers and whichever versions fail to load, and afterwards the model is well-formed and its
  default version is again the highest available one (0 when there is none).
\<close>

theorem reload_keeps_the_highest_available_default:
  assumes "wf_model m0" "default_ok m0" "readAvailableVersions fs (mc_basePath config) = Inr av"
    "sorted av" "distinct av" "list_all fits_int32 av" "length av \<le> n"
  shows "\<exists>c m. reloadModelWithVersions n be fs loader sub config m0 = Some (c, m) \<and> wf_model m \<and> default_ok m"
  using assms(3)
proof (cases rule: reload_cases [where n = n and be = be and loader = loader and sub = sub and mdl = m0])
  case (2 c)
  then show ?thesis using assms(1,2) retireAllVersions_spec by (simp add: loader_name_frame)
next
  case (3 b ln)
  let ?m = "m0\<lparr>mdl_customLoaderName := ln\<rparr>"
  have fits: "\<forall>v\<in>set av. fits_int32 v" using assms(6) by (simp add: list_all_iff)
  have m: "wf_model ?m" "default_ok ?m" using assms(1,2) by (simp_all add: loader_name_frame)
  from reload_terminates_aux [OF m(1) assms(5) fits assms(7), of be config loader]
  obtain t where t: "start_loop n be config loader (recompute config loader (initial_state ?m av)) = Some t" by blast
  have "loop_inv t" using reload_inv_aux [OF m assms(5,4) fits t] .
  moreover obtain c m' where "finish_reload be config loader b t = (c, m')" by fastforce
  ultimately show ?thesis using finish_reload_spec 3 t by auto
qed (use assms(1,2) in auto)

text \<open>
  The procedure ends for any distinct version numbers, sorted or not: as many rounds as there
  are version directories are enough, because each failing round registers a version that was
  not registered before.
\<close>

theorem reload_terminates_on_distinct_versions:
  assumes "wf_model m0" "readAvailableVersions fs (mc_basePath config) = Inr av"
    "distinct av" "list_all fits_int32 av" "length av \<le> n"
  shows "reloadModelWithVersions n be fs loader sub config m0 \<noteq> None"
  using assms(2)
proof (cases rule: reload_cases [where n = n and be = be and loader = loader and sub = sub and mdl = m0])
  case (3 b ln)
  have "wf_model (m0\<lparr>mdl_customLoaderName := ln\<rparr>)" "\<forall>v\<in>set av. fits_int32 v"
    using assms(1,4) by (simp_all add: loader_name_frame list_all_iff)
  from reload_terminates_aux [OF this(1) assms(3) this(2) assms(5), of be config loader]
  show ?thesis using 3 by auto
qed auto

theorem reload_keeps_the_highest_available_default_witness:
  "\<exists>c m. reloadModelWithVersions 2 (failing_backend [2]) (fs_with [''1'', ''2'']) NoCustomLoader False
      all_versions_config empty_model = Some (c, m) \<and> wf_model m \<and> default_ok m"
proof (rule reload_keeps_the_highest_available_default)
  show "readAvailableVersions (fs_with [''1'', ''2'']) (mc_basePath all_versions_config) = Inr [1, 2]" by code_simp
qed (simp_all add: empty_model_def wf_model_def default_ok_def available_versions_def fits_int32_def)

theorem reload_terminates_on_distinct_versions_witness:
  "reloadModelWithVersions 2 (failing_backend [10]) (fs_with [''10'', ''9'']) NoCustomLoader False
     all_versions_config empty_model \<noteq> None"
proof (rule reload_terminates_on_distinct_versions)
  show "readAvailableVersions (fs_with [''10'', ''9'']) (mc_basePath all_versions_config) = Inr [10, 9]" by code_simp
qed (simp_all add: empty_model_def wf_model_def fits_int32_def)

definition dup_start :: reload_state where
  "dup_start = recompute all_versions_config NoCustomLoader (initial_state empty_model [10, 10, 8, 9])"

definition dup_next :: reload_state where
  "dup_next = snd (start_round (failing_backend [10]) all_versions_config NoCustomLoader dup_start)"

lemma dup_first: "start_round (failing_backend [10]) all_versions_config NoCustomLoader dup_start = (False, dup_next)"
proof -
  have "fst (start_round (failing_backend [10]) all_versions_config NoCustomLoader dup_start) = False" by code_simp
  then show ?thesis by (simp add: dup_next_def prod_eq_iff)
qed

lemma dup_start_starts: "rs_start dup_start = [8, 9, 10, 10]"
  by code_simp

lemma dup_next_starts: "rs_start dup_next = [10]"
  by code_simp


definition dup_rest :: reload_state where
  "dup_rest = dup_next\<lparr>rs_failed := [10]\<rparr>"

lemma dup_second: "start_round (failing_backend [10]) all_versions_config NoCustomLoader dup_next = (False, dup_rest)"
  by code_simp

lemma dup_again: "start_round (failing_backend [10]) all_versions_config NoCustomLoader dup_rest = (False, dup_rest)"
  by code_simp

lemma dup_rest_starts: "rs_start dup_rest = [10]"
  by (simp add: dup_rest_def dup_next_starts)

lemma dup_loop: "start_loop n (failing_backend [10]) all_versions_config NoCustomLoader dup_rest = None"
  by (induction n) (simp_all add: dup_rest_starts dup_again)

lemma dup_loop_next: "start_loop n (failing_backend [10]) all_versions_config NoCustomLoader dup_next = None"
  by (cases n) (simp_all add: dup_next_starts dup_second dup_loop)

text \<open>
  Two directories that name the same version can keep the procedure going for ever. With the
  directories \<open>010\<close>, \<open>10\<close>, \<open>8\<close> and \<open>9\<close> (in the order of the set they come from) and a version
  10 that does not load, no number of rounds ends the loop: the second 10 is started again every
  time, and the binary search over the unsorted available versions does not find it to remove.
\<close>

theorem reload_never_ends_on_duplicate_directories:
  "reloadModelWithVersions n (failing_backend [10]) (fs_with [''010'', ''10'', ''8'', ''9'']) NoCustomLoader False
     all_versions_config empty_model = None"
proof -
  have r: "readAvailableVersions (fs_with [''010'', ''10'', ''8'', ''9'']) (mc_basePath all_versions_config) =
      Inr [10, 10, 8, 9]" by code_simp
  have c: "\<not> isCustomLoaderRequiredToLoadModel all_versions_config" by code_simp
  have m: "empty_model\<lparr>mdl_customLoaderName := []\<rparr> = empty_model" by (simp add: empty_model_def)
  have "start_loop n (failing_backend [10]) all_versions_config NoCustomLoader dup_start = None"
    by (cases n) (simp_all add: dup_start_starts dup_first dup_loop_next)
  then show ?thesis
    by (simp add: reloadModelWithVersions_def r c m dup_start_def [unfolded initial_state_def] Let_def)
qed

definition unsorted_config :: ModelConfig where
  "unsorted_config = all_versions_config\<lparr>mc_nireq := 4\<rparr>"

text \<open>
  With directories \<open>10\<close> and \<open>9\<close> (so listed, because the names are sorted as text) a reload of
  version 10 that fails leaves version 10 the default although version 9 is available: the
  failed version is not found by the binary search over \<open>[10, 9]\<close>, stays requested, and is not
  cleaned up. Directories \<open>8\<close> and \<open>9\<close> with the same failure give the default 8.
\<close>

theorem failed_default_stays_with_unsorted_versions:
  "(let m = snd (the (reloadModelWithVersions 2 (failing_backend []) (fs_with [''10'', ''9'']) NoCustomLoader False
                        all_versions_config empty_model));
        m' = snd (the (reloadModelWithVersions 2 (failing_backend [10]) (fs_with [''10'', ''9'']) NoCustomLoader False
                        unsorted_config m))
    in (mdl_defaultVersion m, mdl_defaultVersion m',
        map (\<lambda>(v, i). (v, mvs_state (mi_status i))) (mdl_versions m'))) =
     (10, 10, [(9, AVAILABLE), (10, LOADING)]) \<and>
   (let m = snd (the (reloadModelWithVersions 2 (failing_backend []) (fs_with [''8'', ''9'']) NoCustomLoader False
                        all_versions_config empty_model));
        m' = snd (the (reloadModelWithVersions 2 (failing_backend [9]) (fs_with [''8'', ''9'']) NoCustomLoader False
                        unsorted_config m))
    in (mdl_defaultVersion m, mdl_defaultVersion m')) = (9, 8)"
  by code_simp

text \<open>
  The version number is cut to 32 bits when its instance is retired. Retiring version
  20240101120000 leaves it the default version, in state \<open>END\<close>, although version 7 is available;
  retiring version 9 instead moves the default to 7.
\<close>

theorem retired_large_version_stays_default:
  "(let m = snd (snd (addVersions (failing_backend []) all_versions_config [7, 20240101120000] empty_model));
        m' = snd (retireVersions [20240101120000] m)
    in (mdl_defaultVersion m', map (\<lambda>(v, i). (v, mvs_state (mi_status i))) (mdl_versions m'))) =
     (20240101120000, [(7, AVAILABLE), (20240101120000, END)]) \<and>
   (let m = snd (snd (addVersions (failing_backend []) all_versions_config [7, 9] empty_model))
    in mdl_defaultVersion (snd (retireVersions [9] m))) = 7"
  by code_simp

text \<open>
  The check against paths that leave the repository looks at the first \<open>/..\<close> only: a path that
  ends in \<open>/..\<close> passes when an earlier directory name begins with two dots, and so does \<open>..\<close>
  itself, while the plain cases are caught.
\<close>

theorem escaping_paths_that_pass_the_check:
  "isPathEscaped ''/models/..'' \<and> isPathEscaped ''../models'' \<and> isPathEscaped ''/models/../x'' \<and>
   \<not> isPathEscaped ''/models/..a/b/..'' \<and> \<not> isPathEscaped ''..''"
  by code_simp

text \<open>
  C19: what the manager decides to do. For distinct requested versions, less the registered ones the
  custom loader blacklists: those not registered are started, those registered are reloaded
  exactly when they are unloaded, failed, or configured differently, and registered versions that
  are not requested are retired unless they already are. No version is in two of the lists, and
  the decision changes no status and not the default version.
\<close>

theorem versions_to_change_are_partitioned:
  assumes "wf_model m" "distinct req"
    and "getVersionsToChange config loader m req = (start, reload, retire, m')"
  shows "set start = {v \<in> set req. v \<notin> keys m} \<and>
    set reload = {v \<in> set req. v \<in> keys m \<and> \<not> blacklisted loader v \<and>
                    needs_reload config (the (map_of (mdl_versions m) v))} \<and>
    set retire = {v \<in> keys m. (v \<notin> set req \<or> blacklisted loader v) \<and>
                    \<not> willEndUnloaded (mi_status (the (map_of (mdl_versions m) v)))} \<and>
    set start \<inter> set reload = {} \<and> set start \<inter> set retire = {} \<and> set reload \<inter> set retire = {} \<and>
    mdl_defaultVersion m' = mdl_defaultVersion m \<and>
    map_option mi_status (map_of (mdl_versions m') v) = map_option mi_status (map_of (mdl_versions m) v)"
proof -
  note spec = getVersionsToChange_spec [OF assms]
  have w: "set (remove_blacklisted loader (map fst (mdl_versions m)) (sort req)) =
      {v \<in> set req. \<not> (v \<in> keys m \<and> blacklisted loader v)}"
    by (simp add: remove_blacklisted_set keys_def)
  show ?thesis using spec(1,4,6,10,11) unfolding w by auto
qed

theorem versions_to_change_are_partitioned_witness:
  defines "r \<equiv> getVersionsToChange all_versions_config (LoaderFound (\<lambda>v. v = 5)) empty_model [7, 5]"
  shows "set (fst r) = {v \<in> set [7, 5]. v \<notin> keys empty_model} \<and>
    set (fst (snd r)) = {v \<in> set [7, 5]. v \<in> keys empty_model \<and> \<not> blacklisted (LoaderFound (\<lambda>v. v = 5)) v \<and>
                    needs_reload all_versions_config (the (map_of (mdl_versions empty_model) v))} \<and>
    set (fst (snd (snd r))) = {v \<in> keys empty_model. (v \<notin> set [7, 5] \<or> blacklisted (LoaderFound (\<lambda>v. v = 5)) v) \<and>
                    \<not> willEndUnloaded (mi_status (the (map_of (mdl_versions empty_model) v)))} \<and>
    set (fst r) \<inter> set (fst (snd r)) = {} \<and> set (fst r) \<inter> set (fst (snd (snd r))) = {} \<and>
    set (fst (snd r)) \<inter> set (fst (snd (snd r))) = {} \<and>
    mdl_defaultVersion (snd (snd (snd r))) = mdl_defaultVersion empty_model \<and>
    map_option mi_status (map_of (mdl_versions (snd (snd (snd r)))) 7) =
      map_option mi_status (map_of (mdl_versions empty_model) 7)"
  by (rule versions_to_change_are_partitioned [of _ _ all_versions_config "LoaderFound (\<lambda>v. v = 5)"])
     (simp_all add: r_def empty_model_def wf_model_def)

end
