(* ===== verification/Sessions.thy ===== *)
theory Sessions
  imports Text_Utils
begin

text \<open>
  The sessions of a pipeline node: metadata of nested demultiplexer sessions
  (\<open>src/dags/nodesessionmetadata.cpp\<close>), the handlers that collect a node's inputs, plain
  (\<open>src/dags/nodeinputhandler.cpp\<close>) and gathering shards (\<open>src/dags/gathernodeinputhandler.cpp\<close>),
  and the node session over them (\<open>src/dags/nodesession.cpp\<close>). Session ids are \<open>uint32_t\<close>; their
  arithmetic is reduced modulo \<open>2 ^ 32\<close>. Hash maps are association lists with one entry per key,
  a \<open>std::set\<close> of names is a list without repetitions. A tensor is its element type, shape and
  bytes; \<open>ov::Tensor\<close> allocation is modelled by its documented size.
\<close>

section \<open>Session metadata\<close>

datatype Interface = GRPC | REST

datatype Method = ConfigReload | ConfigStatus | ModelInfer | ModelInferStream | ModelReady | ModelMetadata
  | V3Unary | V3Stream

type_synonym ExecutionContext = "Interface \<times> Method"

type_synonym session_id = nat

record CollapseDetails =
  cd_collapsedSessionNames :: "string list"
  cd_collapsedSessionSizes :: "session_id list"

record NodeSessionMetadata =
  sm_details :: "(string \<times> session_id \<times> session_id) list"
  sm_sessionsLevels :: "string list"
  sm_context :: ExecutionContext
  sm_cachedSessionKey :: string
  sm_cached :: bool

definition new_NodeSessionMetadata :: "ExecutionContext \<Rightarrow> NodeSessionMetadata" where
  "new_NodeSessionMetadata context =
     \<lparr>sm_details = [], sm_sessionsLevels = [], sm_context = context, sm_cachedSessionKey = [], sm_cached = False\<rparr>"

text \<open>The protected default constructor.\<close>

definition default_NodeSessionMetadata :: NodeSessionMetadata where
  "default_NodeSessionMetadata = new_NodeSessionMetadata (GRPC, ModelInfer)"

definition generateSubsessions :: "NodeSessionMetadata \<Rightarrow> string \<Rightarrow> session_id \<Rightarrow> NodeSessionMetadata list result" where
  "generateSubsessions this nodeName subsessionSize =
     (if length nodeName = 0 then Inl (LogicError ''Cannot generate subsession with empty parent name'')
      else if map_of (sm_details this) nodeName \<noteq> None
      then Inl (LogicError ''Cannot generate subsession with already used name'')
      else if subsessionSize = 0 then Inr []
      else Inr (map (\<lambda>counter. this\<lparr>sm_details := sm_details this @ [(nodeName, counter, subsessionSize)],
                                     sm_sessionsLevels := sm_sessionsLevels this @ [nodeName],
                                     sm_cached := False\<rparr>) [0..<subsessionSize]))"

text \<open>
  The loop of \<open>createSessionKey\<close> over the levels from the last one, with the counter \<open>j\<close> and the
  text written so far; \<open>n\<close> is the number of levels.
\<close>

fun key_loop :: "(string \<times> session_id \<times> session_id) list \<Rightarrow> string list \<Rightarrow> nat \<Rightarrow> string list \<Rightarrow> nat \<Rightarrow> string \<Rightarrow> string result" where
  "key_loop details ignored n [] j ss = Inr ss"
| "key_loop details ignored n (level # rest) j ss =
     (if 0 < length ignored \<and> j < length ignored \<and> length ignored \<le> n \<and> level \<notin> set ignored
      then Inl (LogicError ''Cannot collapse sessions not in LIFO order'')
      else if j < length ignored then key_loop details ignored n rest (j + 1) ss
      else case map_of details level of
             None \<Rightarrow> Inl OutOfRange
           | Some (sid, _) \<Rightarrow>
               key_loop details ignored n rest (j + 1)
                 (ss @ (if ss \<noteq> [] then ''_'' else []) @ level @ ''_'' @ dec_nat sid))"

definition createSessionKey :: "NodeSessionMetadata \<Rightarrow> string list \<Rightarrow> string result" where
  "createSessionKey this ignored =
     (if length (sm_details this) = 0 then Inr []
      else if list_ex (\<lambda>name. map_of (sm_details this) name = None) ignored
      then Inl (LogicError ''Tried to create session key ignoring non-existing subsession'')
      else key_loop (sm_details this) ignored (length (sm_sessionsLevels this)) (rev (sm_sessionsLevels this)) 0 [])"

text \<open>The key and the object with its cache.\<close>

definition getSessionKey :: "NodeSessionMetadata \<Rightarrow> string list \<Rightarrow> (string \<times> NodeSessionMetadata) result" where
  "getSessionKey this ignored =
     (if length ignored \<noteq> 0 then rbind (createSessionKey this ignored) (\<lambda>k. Inr (k, this))
      else if sm_cached this then Inr (sm_cachedSessionKey this, this)
      else rbind (createSessionKey this ignored) (\<lambda>k. Inr (k, this\<lparr>sm_cached := True, sm_cachedSessionKey := k\<rparr>)))"

definition getSubsessionSize :: "NodeSessionMetadata \<Rightarrow> string \<Rightarrow> session_id result" where
  "getSubsessionSize this subsessionName =
     (case map_of (sm_details this) subsessionName of
        None \<Rightarrow> Inl (LogicError ''Tried to take non existing subsession size'')
      | Some (_, sessionSize) \<Rightarrow> Inr sessionSize)"

text \<open>
  The check that the \<open>k\<close> innermost levels are the named ones. The loop counts down to
  \<open>size() - 1 - k\<close> in \<open>size_t\<close>: when \<open>k\<close> is the number of levels that bound wraps to the largest
  value and the loop is not entered; with no levels at all the index itself wraps.
\<close>

definition size_t :: "int \<Rightarrow> nat" where
  "size_t i = nat (i mod 2 ^ 64)"

definition lifo_check :: "string list \<Rightarrow> string list \<Rightarrow> unit result" where
  "lifo_check levels names =
     (let n = length levels;
          first = size_t (int n - 1);
          bound = size_t (int n - 1 - int (length names))
      in if \<not> bound < first then Inr ()
         else if n \<le> first then Inl OutOfRange
         else if list_all (\<lambda>i. levels ! i \<in> set names) (rev [bound + 1..<first + 1]) then Inr ()
         else Inl (LogicError ''Cannot collapse sessions not in LIFO order''))"

fun collapse_levels :: "NodeSessionMetadata \<Rightarrow> string list \<Rightarrow> string list \<Rightarrow> (CollapseDetails \<times> string list) result" where
  "collapse_levels this ignored [] = Inr (\<lparr>cd_collapsedSessionNames = [], cd_collapsedSessionSizes = []\<rparr>, [])"
| "collapse_levels this ignored (level # rest) =
     (if level \<in> set ignored then
        rbind (getSubsessionSize this level) (\<lambda>sz.
        rbind (collapse_levels this ignored rest) (\<lambda>(d, kept).
          Inr (\<lparr>cd_collapsedSessionNames = level # cd_collapsedSessionNames d,
                cd_collapsedSessionSizes = sz # cd_collapsedSessionSizes d\<rparr>, kept)))
      else rbind (collapse_levels this ignored rest) (\<lambda>(d, kept). Inr (d, level # kept)))"

definition getCollapsedSessionMetadata ::
  "NodeSessionMetadata \<Rightarrow> string list \<Rightarrow> (NodeSessionMetadata \<times> CollapseDetails) result" where
  "getCollapsedSessionMetadata this ignored =
     (if length ignored = 0 then Inl (LogicError ''Tried to collapse sessions with empty set'')
      else if list_ex (\<lambda>name. map_of (sm_details this) name = None) ignored
      then Inl (LogicError ''Tried to collapse nonexisting subsession'')
      else rbind (lifo_check (sm_sessionsLevels this) ignored) (\<lambda>_.
        let newMeta = default_NodeSessionMetadata\<lparr>sm_details := filter (\<lambda>(name, _). name \<notin> set ignored) (sm_details this)\<rparr>
        in rbind (collapse_levels this ignored (sm_sessionsLevels this)) (\<lambda>(d, kept).
             Inr (newMeta\<lparr>sm_sessionsLevels := kept\<rparr>, d))))"

text \<open>The summation over the innermost levels, in \<open>uint32_t\<close>.\<close>

fun shard_loop :: "(string \<times> session_id \<times> session_id) list \<Rightarrow> string list \<Rightarrow> nat \<Rightarrow> nat \<Rightarrow> session_id result" where
  "shard_loop details [] multiplyFactor shardId = Inr shardId"
| "shard_loop details (level # rest) multiplyFactor shardId =
     (case map_of details level of
        None \<Rightarrow> Inl OutOfRange
      | Some (sid, sessionSize) \<Rightarrow>
          shard_loop details rest ((multiplyFactor * sessionSize) mod 2 ^ 32)
            ((shardId + multiplyFactor * sid) mod 2 ^ 32))"

definition getShardId :: "NodeSessionMetadata \<Rightarrow> string list \<Rightarrow> session_id result" where
  "getShardId this collapsedNames =
     (if length collapsedNames = 0 then Inr 0
      else if length (sm_sessionsLevels this) < length collapsedNames
      then Inl (LogicError ''Tried to collapse more subsession levels than exists'')
      else rbind (lifo_check (sm_sessionsLevels this) collapsedNames) (\<lambda>_.
        shard_loop (sm_details this) (take (length collapsedNames) (rev (sm_sessionsLevels this))) 1 0))"

section \<open>Input handlers\<close>

record 'p Tensor =
  tn_precision :: 'p
  tn_shape :: "nat list"
  tn_data :: string

text \<open>A tensor with the tensor that owns its memory, if any.\<close>

type_synonym 'p TensorWithSource = "'p Tensor \<times> 'p Tensor option"

record 'p NodeInputHandler =
  ih_inputTensors :: "(string \<times> 'p Tensor) list"
  ih_sourceTensorRefs :: "'p Tensor list"
  ih_remainingDependencies :: nat
  ih_isUsed :: bool

definition new_NodeInputHandler :: "nat \<Rightarrow> 'p NodeInputHandler" where
  "new_NodeInputHandler inputsMissingCount =
     \<lparr>ih_inputTensors = [], ih_sourceTensorRefs = [], ih_remainingDependencies = inputsMissingCount, ih_isUsed = False\<rparr>"

definition add_source :: "'p Tensor option \<Rightarrow> 'p Tensor list \<Rightarrow> 'p Tensor list" where
  "add_source src refs = (case src of None \<Rightarrow> refs | Some t \<Rightarrow> refs @ [t])"

definition plain_setInput ::
  "string \<Rightarrow> 'p TensorWithSource \<Rightarrow> session_id \<Rightarrow> 'p NodeInputHandler \<Rightarrow> StatusCode \<times> 'p NodeInputHandler" where
  "plain_setInput inputName tensor shardId h =
     (if 0 < shardId then (SC_PIPELINE_TRIED_TO_SET_INPUT_SHARD_FOR_ORDINARY_INPUT_HANDLER, h)
      else if map_of (ih_inputTensors h) inputName \<noteq> None then (SC_PIPELINE_TRIED_TO_SET_THE_SAME_INPUT_TWICE, h)
      else (SC_OK, h\<lparr>ih_inputTensors := ih_inputTensors h @ [(inputName, fst tensor)],
                     ih_sourceTensorRefs := add_source (snd tensor) (ih_sourceTensorRefs h)\<rparr>))"

definition getInputs :: "'p NodeInputHandler \<Rightarrow> (string \<times> 'p Tensor) list \<times> 'p NodeInputHandler" where
  "getInputs h = (ih_inputTensors h, h\<lparr>ih_isUsed := True\<rparr>)"

definition clearInputs :: "'p NodeInputHandler \<Rightarrow> 'p NodeInputHandler" where
  "clearInputs h = h\<lparr>ih_inputTensors := [], ih_sourceTensorRefs := []\<rparr>"

definition isReady :: "'p NodeInputHandler \<Rightarrow> bool" where
  "isReady h = (if ih_isUsed h then False else ih_remainingDependencies h = 0)"

text \<open>\<open>--remainingDependencies\<close> on a \<open>uint32_t\<close>.\<close>

definition decrement :: "nat \<Rightarrow> nat" where
  "decrement n = (n + (2 ^ 32 - 1)) mod 2 ^ 32"

definition plain_notifyFinishedDependency :: "'p NodeInputHandler \<Rightarrow> StatusCode \<times> 'p NodeInputHandler" where
  "plain_notifyFinishedDependency h =
     (SC_OK, h\<lparr>ih_remainingDependencies := decrement (ih_remainingDependencies h)\<rparr>)"

record 'p GatherNodeInputHandler =
  gh_base :: "'p NodeInputHandler"
  gh_shardsStorage :: "(string \<times> (session_id \<times> 'p Tensor) list) list"
  gh_collapsingDetails :: CollapseDetails

definition new_GatherNodeInputHandler :: "nat \<Rightarrow> CollapseDetails \<Rightarrow> 'p GatherNodeInputHandler" where
  "new_GatherNodeInputHandler inputsMissingCount collapsingDetails =
     \<lparr>gh_base = (new_NodeInputHandler inputsMissingCount)
        \<lparr>ih_remainingDependencies :=
           foldl (\<lambda>a s. (a * s) mod 2 ^ 32) inputsMissingCount (cd_collapsedSessionSizes collapsingDetails)\<rparr>,
      gh_shardsStorage = [], gh_collapsingDetails = collapsingDetails\<rparr>"

definition gather_setInput ::
  "string \<Rightarrow> 'p TensorWithSource \<Rightarrow> session_id \<Rightarrow> 'p GatherNodeInputHandler \<Rightarrow> StatusCode \<times> 'p GatherNodeInputHandler" where
  "gather_setInput inputName tensor shardId h =
     (let base = gh_base h;
          h' = (\<lambda>storage. h\<lparr>gh_shardsStorage := storage,
                  gh_base := base\<lparr>ih_sourceTensorRefs := add_source (snd tensor) (ih_sourceTensorRefs base)\<rparr>\<rparr>)
      in case map_of (gh_shardsStorage h) inputName of
           None \<Rightarrow> (SC_OK, h' (gh_shardsStorage h @ [(inputName, [(shardId, fst tensor)])]))
         | Some shards \<Rightarrow>
             if map_of shards shardId \<noteq> None then (SC_INTERNAL_ERROR, h)
             else (SC_OK, h' (map (\<lambda>(n, s). if n = inputName then (n, s @ [(shardId, fst tensor)]) else (n, s))
                               (gh_shardsStorage h))))"

text \<open>\<open>memcpy\<close> into the consolidated buffer; a write beyond its end is \<open>OutOfRange\<close>.\<close>

definition memcpy_at :: "nat \<Rightarrow> string \<Rightarrow> string \<Rightarrow> string result" where
  "memcpy_at offset src dst =
     (if length dst < offset + length src then Inl OutOfRange
      else Inr (take offset dst @ src @ drop (offset + length src) dst))"

text \<open>The copy loop over the shards of one input.\<close>

fun copy_shards :: "'p \<Rightarrow> nat list \<Rightarrow> (session_id \<times> 'p Tensor) list \<Rightarrow> string \<Rightarrow> (StatusCode + string) result" where
  "copy_shards precision dims [] buf = Inr (Inr buf)"
| "copy_shards precision dims ((shardId, tensor) # rest) buf =
     (if tn_precision tensor \<noteq> precision \<or> tn_shape tensor \<noteq> dims
      then Inr (Inl SC_PIPELINE_INCONSISTENT_SHARD_DIMENSIONS)
      else rbind (memcpy_at (shardId * length (tn_data tensor)) (tn_data tensor) buf)
             (copy_shards precision dims rest))"

text \<open>
  The loop over the inputs: \<open>prepare\<close> is \<open>prepareConsolidatedTensor\<close>, which gives the fresh buffer
  for an element type and a shape, or a status.
\<close>

fun consolidate ::
  "('p \<Rightarrow> nat list \<Rightarrow> StatusCode + string) \<Rightarrow> nat list \<Rightarrow> (string \<times> (session_id \<times> 'p Tensor) list) list \<Rightarrow>
   (string \<times> 'p Tensor) list \<Rightarrow> (StatusCode \<times> (string \<times> 'p Tensor) list) result" where
  "consolidate prepare sizes [] inputs = Inr (SC_OK, inputs)"
| "consolidate prepare sizes ((inputName, shardMap) # rest) inputs =
     (case map_of shardMap 0 of
        None \<Rightarrow> Inl OutOfRange
      | Some firstShard \<Rightarrow>
          let dims = tn_shape firstShard; precision = tn_precision firstShard; newDims = sizes @ dims
          in case prepare precision newDims of
               Inl status \<Rightarrow> Inr (status, inputs)
             | Inr buf \<Rightarrow>
                 rbind (copy_shards precision dims shardMap buf) (\<lambda>r.
                   case r of
                     Inl status \<Rightarrow> Inr (status, inputs)
                   | Inr out \<Rightarrow>
                       consolidate prepare sizes rest
                         (if map_of inputs inputName = None
                          then inputs @ [(inputName, \<lparr>tn_precision = precision, tn_shape = newDims, tn_data = out\<rparr>)]
                          else inputs)))"

text \<open>\<open>createSharedTensor\<close>: \<open>ov::Tensor(precision, shape)\<close> allocates the bytes of all elements.\<close>

definition createSharedTensor :: "('p \<Rightarrow> nat) \<Rightarrow> 'p \<Rightarrow> nat list \<Rightarrow> StatusCode + string" where
  "createSharedTensor elem_size precision shape = Inr (replicate (elem_size precision * prod_list shape) CHR 0x00)"

definition gather_notifyFinishedDependency ::
  "('p \<Rightarrow> nat list \<Rightarrow> StatusCode + string) \<Rightarrow> 'p GatherNodeInputHandler \<Rightarrow> (StatusCode \<times> 'p GatherNodeInputHandler) result" where
  "gather_notifyFinishedDependency prepare h0 =
     (let h = h0\<lparr>gh_base := snd (plain_notifyFinishedDependency (gh_base h0))\<rparr>
      in if 0 < ih_remainingDependencies (gh_base h) then Inr (SC_OK, h)
         else rbind (consolidate prepare (cd_collapsedSessionSizes (gh_collapsingDetails h)) (gh_shardsStorage h)
                       (ih_inputTensors (gh_base h)))
                (\<lambda>(status, inputs). Inr (status, h\<lparr>gh_base := (gh_base h)\<lparr>ih_inputTensors := inputs\<rparr>\<rparr>)))"

section \<open>Node sessions\<close>

datatype 'p InputHandler = PlainHandler "'p NodeInputHandler" | GatherHandler "'p GatherNodeInputHandler"

record 'p NodeSession =
  ns_metadata :: NodeSessionMetadata
  ns_sessionKey :: string
  ns_nodeName :: string
  ns_inputHandler :: "'p InputHandler"

definition createNodeInputHandler :: "nat \<Rightarrow> CollapseDetails \<Rightarrow> 'p InputHandler" where
  "createNodeInputHandler inputsCount collapsingDetails =
     (if length (cd_collapsedSessionNames collapsingDetails) = 0
      then PlainHandler (new_NodeInputHandler inputsCount)
      else GatherHandler (new_GatherNodeInputHandler inputsCount collapsingDetails))"

definition new_NodeSession :: "NodeSessionMetadata \<Rightarrow> string \<Rightarrow> nat \<Rightarrow> CollapseDetails \<Rightarrow> 'p NodeSession result" where
  "new_NodeSession metadata nodeName inputsCount collapsingDetails =
     rbind (getSessionKey metadata []) (\<lambda>(key, m).
       Inr \<lparr>ns_metadata = metadata, ns_sessionKey = key, ns_nodeName = nodeName,
            ns_inputHandler = createNodeInputHandler inputsCount collapsingDetails\<rparr>)"

fun handler_setInput :: "string \<Rightarrow> 'p TensorWithSource \<Rightarrow> session_id \<Rightarrow> 'p InputHandler \<Rightarrow> StatusCode \<times> 'p InputHandler" where
  "handler_setInput n t i (PlainHandler h) = (let (c, h') = plain_setInput n t i h in (c, PlainHandler h'))"
| "handler_setInput n t i (GatherHandler h) = (let (c, h') = gather_setInput n t i h in (c, GatherHandler h'))"

fun handler_base :: "'p InputHandler \<Rightarrow> 'p NodeInputHandler" where
  "handler_base (PlainHandler h) = h"
| "handler_base (GatherHandler h) = gh_base h"

fun handler_notify ::
  "('p \<Rightarrow> nat list \<Rightarrow> StatusCode + string) \<Rightarrow> 'p InputHandler \<Rightarrow> (StatusCode \<times> 'p InputHandler) result" where
  "handler_notify prepare (PlainHandler h) =
     (let (c, h') = plain_notifyFinishedDependency h in Inr (c, PlainHandler h'))"
| "handler_notify prepare (GatherHandler h) =
     rbind (gather_notifyFinishedDependency prepare h) (\<lambda>(c, h'). Inr (c, GatherHandler h'))"

definition session_setInput :: "string \<Rightarrow> 'p TensorWithSource \<Rightarrow> session_id \<Rightarrow> 'p NodeSession \<Rightarrow> StatusCode \<times> 'p NodeSession" where
  "session_setInput n t i s = (let (c, h) = handler_setInput n t i (ns_inputHandler s) in (c, s\<lparr>ns_inputHandler := h\<rparr>))"

definition session_isReady :: "'p NodeSession \<Rightarrow> bool" where
  "session_isReady s = isReady (handler_base (ns_inputHandler s))"

definition session_notifyFinishedDependency ::
  "('p \<Rightarrow> nat list \<Rightarrow> StatusCode + string) \<Rightarrow> 'p NodeSession \<Rightarrow> (StatusCode \<times> 'p NodeSession) result" where
  "session_notifyFinishedDependency prepare s =
     rbind (handler_notify prepare (ns_inputHandler s)) (\<lambda>(c, h). Inr (c, s\<lparr>ns_inputHandler := h\<rparr>))"

lemma decrement_pos: "0 < n \<Longrightarrow> n < 2 ^ 32 \<Longrightarrow> decrement n = n - 1"
proof -
  assume n: "0 < n" "n < 2 ^ 32"
  then have "n + (2 ^ 32 - 1) = (n - 1) + 2 ^ 32" by simp
  then have "decrement n = (n - 1) mod 2 ^ 32" unfolding decrement_def by (metis mod_add_self2)
  then show ?thesis using n by simp
qed

section \<open>Well-formed metadata\<close>

text \<open>
  Metadata as generated: every level has its entry, no level twice, and every session id is below
  the size of its level.
\<close>

definition wf_meta :: "NodeSessionMetadata \<Rightarrow> bool" where
  "wf_meta m \<longleftrightarrow> distinct (sm_sessionsLevels m) \<and> map fst (sm_details m) = sm_sessionsLevels m \<and>
     list_all (\<lambda>(name, sid, sz). sid < sz) (sm_details m) \<and> length (sm_sessionsLevels m) < 2 ^ 31"

definition ids :: "NodeSessionMetadata \<Rightarrow> string list \<Rightarrow> nat list" where
  "ids m levels = map (\<lambda>l. fst (the (map_of (sm_details m) l))) levels"

definition sizes :: "NodeSessionMetadata \<Rightarrow> string list \<Rightarrow> nat list" where
  "sizes m levels = map (\<lambda>l. snd (the (map_of (sm_details m) l))) levels"

text \<open>The row-major index of a position in an array with the given dimensions.\<close>

fun flat_index :: "nat list \<Rightarrow> nat list \<Rightarrow> nat" where
  "flat_index (d # dims) (p # pos) = p * prod_list dims + flat_index dims pos"
| "flat_index _ _ = 0"

lemma wf_meta_lookup:
  assumes "wf_meta m" "l \<in> set (sm_sessionsLevels m)"
  shows "\<exists>sid sz. map_of (sm_details m) l = Some (sid, sz) \<and> sid < sz"
proof -
  have "l \<in> fst ` set (sm_details m)" using assms by (metis list.set_map wf_meta_def)
  then obtain p where "map_of (sm_details m) l = Some p" by (metis domIff dom_map_of_conv_image_fst option.exhaust)
  moreover then have "(l, p) \<in> set (sm_details m)" by (rule map_of_SomeD)
  ultimately show ?thesis using assms(1) by (cases p) (auto simp: wf_meta_def list_all_iff)
qed

lemma ids_below:
  "wf_meta m \<Longrightarrow> set ls \<subseteq> set (sm_sessionsLevels m) \<Longrightarrow> list_all2 (<) (ids m ls) (sizes m ls)"
  by (induction ls) (auto simp: ids_def sizes_def dest!: wf_meta_lookup)

lemma wf_meta_names:
  "wf_meta m \<Longrightarrow> map_of (sm_details m) name = None \<longleftrightarrow> name \<notin> set (sm_sessionsLevels m)"
  by (metis list.set_map map_of_eq_None_iff wf_meta_def)

text \<open>Subsessions of well-formed metadata are well formed.\<close>

lemma generateSubsessions_wf:
  assumes "wf_meta m" "length (sm_sessionsLevels m) + 1 < 2 ^ 31" "generateSubsessions m name n = Inr ms"
    "i < length ms"
  shows "wf_meta (ms ! i) \<and> sm_sessionsLevels (ms ! i) = sm_sessionsLevels m @ [name] \<and>
    ids (ms ! i) (sm_sessionsLevels (ms ! i)) = ids m (sm_sessionsLevels m) @ [i] \<and>
    sizes (ms ! i) (sm_sessionsLevels (ms ! i)) = sizes m (sm_sessionsLevels m) @ [n] \<and>
    sm_context (ms ! i) = sm_context m \<and> length ms = n"
proof -
  have new: "map_of (sm_details m) name = None" and "n \<noteq> 0" and ms: "ms = map (\<lambda>counter. m\<lparr>sm_details := sm_details m @ [(name, counter, n)],
      sm_sessionsLevels := sm_sessionsLevels m @ [name], sm_cached := False\<rparr>) [0..<n]"
    using assms(3,4) by (cases "map_of (sm_details m) name"; auto simp: generateSubsessions_def split: if_splits)+
  have i: "i < n" using assms(4) by (simp add: ms)
  have n: "name \<notin> set (sm_sessionsLevels m)" using new wf_meta_names [OF assms(1)] by blast
  have old: "map_of (sm_details m @ [(name, i, n)]) l = map_of (sm_details m) l" if "l \<in> set (sm_sessionsLevels m)" for l
    using wf_meta_lookup [OF assms(1) that] by (auto simp: map_add_def)
  have last: "map_of (sm_details m @ [(name, i, n)]) name = Some (i, n)" using new by (simp add: map_add_def)
  show ?thesis
    using assms(1,2) n i old last
    by (simp add: ms wf_meta_def ids_def sizes_def)
qed

section \<open>Collapsing in the order of nesting\<close>

text \<open>The named levels are the innermost ones.\<close>

definition innermost :: "string list \<Rightarrow> string list \<Rightarrow> bool" where
  "innermost levels names \<longleftrightarrow>
     length names \<le> length levels \<and> set (drop (length levels - length names) levels) \<subseteq> set names"

lemma innermost_iff:
  assumes "distinct levels" "distinct names" "set names \<subseteq> set levels"
  shows "innermost levels names \<longleftrightarrow> set (drop (length levels - length names) levels) = set names"
proof -
  have le: "length names \<le> length levels"
    using assms by (metis card_mono distinct_card finite_set)
  have "card (set (drop (length levels - length names) levels)) = card (set names)"
    using assms le by (simp add: distinct_card)
  then show ?thesis using le unfolding innermost_def by (metis card_subset_eq finite_set order_refl)
qed

lemma size_t_small: "0 \<le> i \<Longrightarrow> i < 2 ^ 64 \<Longrightarrow> size_t i = nat i"
  by (simp add: size_t_def)

lemma lifo_check_iff:
  assumes "length levels < 2 ^ 31" "distinct names" "set names \<subseteq> set levels" "distinct levels" "names \<noteq> []"
  shows "lifo_check levels names =
    (if innermost levels names then Inr () else Inl (LogicError ''Cannot collapse sessions not in LIFO order''))"
proof -
  let ?n = "length levels" and ?k = "length names"
  have k: "?k \<le> ?n" using assms(2,3,4) by (metis card_mono distinct_card finite_set)
  have k0: "0 < ?k" using assms(5) by simp
  have first: "size_t (int ?n - 1) = ?n - 1"
    using k k0 assms(1) by (subst size_t_small) auto
  show ?thesis
  proof (cases "?k = ?n")
    case True
    have "set names = set levels" using assms True
      by (metis card_subset_eq distinct_card finite_set)
    then have "innermost levels names" using True by (simp add: innermost_def)
    moreover have "\<not> size_t (int ?n - 1 - int ?k) < size_t (int ?n - 1)"
    proof -
      have "int ?n - 1 - int ?k = - 1" using True by simp
      then have "size_t (int ?n - 1 - int ?k) = 2 ^ 64 - 1" by (simp add: size_t_def)
      then show ?thesis using first assms(1) by simp
    qed
    ultimately show ?thesis by (simp add: lifo_check_def Let_def)
  next
    case False
    then have lt: "?k < ?n" using k by simp
    have bound: "size_t (int ?n - 1 - int ?k) = ?n - 1 - ?k"
      using lt assms(1) by (subst size_t_small) auto
    have "set (rev [?n - 1 - ?k + 1..<?n - 1 + 1]) = {?n - ?k..<?n}" using lt k0 by auto
    then have "list_all (\<lambda>i. levels ! i \<in> set names) (rev [?n - 1 - ?k + 1..<?n - 1 + 1]) \<longleftrightarrow>
        (\<forall>i \<in> {?n - ?k..<?n}. levels ! i \<in> set names)" by (simp only: list_all_iff)
    also have "\<dots> \<longleftrightarrow> innermost levels names"
    proof
      assume a: "\<forall>i \<in> {?n - ?k..<?n}. levels ! i \<in> set names"
      have "drop (?n - ?k) levels ! j \<in> set names" if "j < ?k" for j
    proof -
        have "?n - ?k + j \<in> {?n - ?k..<?n}" using that lt by auto
        then show ?thesis using a lt by simp
      qed
      then have "set (drop (?n - ?k) levels) \<subseteq> set names"
        using lt by (auto simp: in_set_conv_nth)
      then show "innermost levels names" using k by (simp add: innermost_def)
    next
      assume a: "innermost levels names"
      show "\<forall>i \<in> {?n - ?k..<?n}. levels ! i \<in> set names"
      proof
        fix i assume i: "i \<in> {?n - ?k..<?n}"
        then have "levels ! i = drop (?n - ?k) levels ! (i - (?n - ?k))" by simp
        also have "\<dots> \<in> set (drop (?n - ?k) levels)" using i lt by (intro nth_mem) auto
        finally show "levels ! i \<in> set names" using a by (auto simp: innermost_def)
      qed
    qed
    finally have cond: "list_all (\<lambda>i. levels ! i \<in> set names) (rev [?n - 1 - ?k + 1..<?n - 1 + 1]) \<longleftrightarrow>
        innermost levels names" .
    have "?n - 1 - ?k < ?n - 1" "\<not> ?n \<le> ?n - 1" using lt k0 by linarith+
    then show ?thesis unfolding lifo_check_def Let_def first bound cond by simp
  qed
qed

section \<open>Shard ids\<close>

lemma flat_index_snoc:
  "length dims = length pos \<Longrightarrow> flat_index (dims @ [d]) (pos @ [p]) = flat_index dims pos * d + p"
  by (induction dims pos rule: list_induct2) (auto simp: algebra_simps)

lemma flat_index_less:
  "list_all2 (<) pos dims \<Longrightarrow> flat_index dims pos < prod_list dims"
proof (induction pos dims rule: list_all2_induct)
  case (Cons p ps d ds)
  have "p * prod_list ds + flat_index ds ps < (p + 1) * prod_list ds" using Cons.IH by simp
  also have "\<dots> \<le> d * prod_list ds" using Cons.hyps(1) by (intro mult_right_mono) auto
  finally show ?case by simp
qed simp

text \<open>The last dimension varies fastest.\<close>

lemma flat_index_inj:
  assumes "list_all2 (<) pos dims" "list_all2 (<) pos' dims" "flat_index dims pos = flat_index dims pos'"
  shows "pos = pos'"
  using assms
proof (induction pos dims arbitrary: pos' rule: list_all2_induct)
  case (Cons p ps d ds)
  obtain q qs where pos': "pos' = q # qs" "list_all2 (<) qs ds" using Cons.prems(1) by (cases pos') auto
  have len: "length ds = length ps" "length ds = length qs"
    using Cons.hyps(2) pos'(2) by (auto dest: list_all2_lengthD)
  have lt: "flat_index ds ps < prod_list ds" "flat_index ds qs < prod_list ds"
    using flat_index_less Cons.hyps(2) pos'(2) by blast+
  have eq: "p * prod_list ds + flat_index ds ps = q * prod_list ds + flat_index ds qs"
    using Cons.prems(2) by (simp add: pos')
  then have "(p * prod_list ds + flat_index ds ps) div prod_list ds =
      (q * prod_list ds + flat_index ds qs) div prod_list ds" by simp
  then have "p = q" using lt by simp
  then show ?case using Cons.IH [OF pos'(2)] eq pos'(1) by simp
qed simp

lemma mod_add_mult: "(s + (x mod M) * y) mod M = (s + x * y) mod M" for s x y M :: nat
  by (metis mod_add_right_eq mod_mult_left_eq)

text \<open>The loop adds the digits from the last one, as long as nothing overflows.\<close>

lemma shard_loop_value:
  assumes "\<forall>l\<in>set ls. \<exists>sid sz. map_of details l = Some (sid, sz) \<and> sid < sz"
    and "mult * prod_list (map (\<lambda>l. snd (the (map_of details l))) ls) \<le> 2 ^ 32" "s < mult"
  shows "shard_loop details ls (mult mod 2 ^ 32) s =
    Inr (s + mult * flat_index (map (\<lambda>l. snd (the (map_of details l))) (rev ls))
                               (map (\<lambda>l. fst (the (map_of details l))) (rev ls)))"
  using assms
proof (induction ls arbitrary: mult s)
  case Nil
  then show ?case by simp
next
  case (Cons l ls)
  obtain sid sz where l: "map_of details l = Some (sid, sz)" "sid < sz" using Cons.prems(1) by auto
  let ?sz = "\<lambda>l. snd (the (map_of details l))" and ?id = "\<lambda>l. fst (the (map_of details l))"
  have pos: "1 \<le> prod_list (map ?sz ls)"
    using Cons.prems(1) by (induction ls) (auto simp: Suc_le_eq)
  have "mult * sz * 1 \<le> mult * sz * prod_list (map ?sz ls)" using pos by (intro mult_left_mono) auto
  also have "\<dots> \<le> 2 ^ 32" using Cons.prems(2) l by (simp add: mult.assoc)
  finally have le: "mult * sz \<le> 2 ^ 32" by simp
  have "s + mult * sid < mult * (sid + 1)" using Cons.prems(3) by simp
  also have "\<dots> \<le> mult * sz" using l(2) by (intro mult_left_mono) auto
  finally have s': "s + mult * sid < mult * sz" .
  have "mult * sid < 2 ^ 32" using s' le by linarith
  have m1: "((mult mod 2 ^ 32) * sz) mod 2 ^ 32 = (mult * sz) mod 2 ^ 32" by (rule mod_mult_left_eq)
  have m2: "(s + (mult mod 2 ^ 32) * sid) mod 2 ^ 32 = s + mult * sid"
  proof -
    have "(s + (mult mod 2 ^ 32) * sid) mod 2 ^ 32 = (s + mult * sid) mod 2 ^ 32" by (rule mod_add_mult)
    also have "\<dots> = s + mult * sid" using s' le by (intro mod_less) linarith
    finally show ?thesis .
  qed
  have "shard_loop details (l # ls) (mult mod 2 ^ 32) s =
      shard_loop details ls ((mult * sz) mod 2 ^ 32) (s + mult * sid)"
    using l m1 m2 by simp
  also have "\<dots> = Inr (s + mult * sid + mult * sz * flat_index (map ?sz (rev ls)) (map ?id (rev ls)))"
    using Cons.prems l s' by (intro Cons.IH) (auto simp: mult.assoc)
  also have "s + mult * sid + mult * sz * flat_index (map ?sz (rev ls)) (map ?id (rev ls)) =
      s + mult * flat_index (map ?sz (rev (l # ls))) (map ?id (rev (l # ls)))"
    using l by (simp add: flat_index_snoc algebra_simps)
  finally show ?case .
qed

lemma getShardId_value:
  assumes "wf_meta m" "distinct names" "set names \<subseteq> set (sm_sessionsLevels m)" "names \<noteq> []"
    "innermost (sm_sessionsLevels m) names"
  defines "inner \<equiv> drop (length (sm_sessionsLevels m) - length names) (sm_sessionsLevels m)"
  assumes "prod_list (sizes m inner) \<le> 2 ^ 32"
  shows "getShardId m names = Inr (flat_index (sizes m inner) (ids m inner))"
proof -
  have wf: "distinct (sm_sessionsLevels m)" "length (sm_sessionsLevels m) < 2 ^ 31" using assms(1) by (simp_all add: wf_meta_def)
  have k: "length names \<le> length (sm_sessionsLevels m)" using assms(5) by (simp add: innermost_def)
  have inner: "take (length names) (rev (sm_sessionsLevels m)) = rev inner"
    by (simp add: inner_def take_rev)
  have "\<forall>l\<in>set (rev inner). \<exists>sid sz. map_of (sm_details m) l = Some (sid, sz) \<and> sid < sz"
    using wf_meta_lookup [OF assms(1)] by (auto simp: inner_def dest: in_set_dropD)
  moreover have "1 * prod_list (map (\<lambda>l. snd (the (map_of (sm_details m) l))) (rev inner)) \<le> 2 ^ 32"
    using assms(7) by (simp add: sizes_def rev_map [symmetric] prod_list.rev)
  ultimately have "shard_loop (sm_details m) (rev inner) (1 mod 2 ^ 32) 0 =
      Inr (0 + 1 * flat_index (map (\<lambda>l. snd (the (map_of (sm_details m) l))) (rev (rev inner)))
        (map (\<lambda>l. fst (the (map_of (sm_details m) l))) (rev (rev inner))))"
    by (intro shard_loop_value) simp_all
  then have "shard_loop (sm_details m) (rev inner) 1 0 = Inr (flat_index (sizes m inner) (ids m inner))"
    by (simp add: sizes_def ids_def)
  moreover have "lifo_check (sm_sessionsLevels m) names = Inr ()"
    using lifo_check_iff [OF wf(2) assms(2,3) wf(1) assms(4)] assms(5) by simp
  ultimately show ?thesis using assms(4) k inner by (simp add: getShardId_def)
qed

section \<open>Session keys\<close>

text \<open>What a level adds to a key.\<close>

definition key_piece :: "(string \<times> session_id \<times> session_id) list \<Rightarrow> string \<Rightarrow> string" where
  "key_piece details level = level @ ''_'' @ dec_nat (fst (the (map_of details level)))"

lemma key_loop_text:
  assumes "length ignored \<le> j" "\<forall>l\<in>set ls. map_of details l \<noteq> None"
  shows "key_loop details ignored n ls j ss =
    Inr (ss @ (if ss \<noteq> [] \<and> ls \<noteq> [] then ''_'' else []) @ joins (map (key_piece details) ls) ''_'')"
  using assms
proof (induction ls arbitrary: j ss)
  case (Cons l ls)
  then obtain sid sz where l: "map_of details l = Some (sid, sz)" by auto
  have piece: "key_piece details l = l @ ''_'' @ dec_nat sid" by (simp add: key_piece_def l)
  have "key_loop details ignored n (l # ls) j ss =
      key_loop details ignored n ls (j + 1) (ss @ (if ss \<noteq> [] then ''_'' else []) @ key_piece details l)"
    using Cons.prems(1) l by (simp add: piece)
  also have "\<dots> = Inr ((ss @ (if ss \<noteq> [] then ''_'' else []) @ key_piece details l) @ (if ls \<noteq> [] then ''_'' else []) @
      joins (map (key_piece details) ls) ''_'')"
    using Cons.prems by (subst Cons.IH) (auto simp: piece)
  finally show ?case by (simp add: joins_Cons)
qed simp

text \<open>The ignored levels are passed over when they come first, and refused otherwise.\<close>

lemma key_loop_skip:
  assumes "length ignored \<le> n" "set ls \<subseteq> set ignored" "j + length ls \<le> length ignored"
  shows "key_loop details ignored n (ls @ rest) j ss = key_loop details ignored n rest (j + length ls) ss"
  using assms
proof (induction ls arbitrary: j)
  case (Cons l ls)
  then have "key_loop details ignored n ((l # ls) @ rest) j ss = key_loop details ignored n (ls @ rest) (j + 1) ss"
    by simp
  then show ?case using Cons by simp
qed simp

lemma key_loop_refuse:
  assumes "length ignored \<le> n" "j + length ls \<le> length ignored" "\<not> set ls \<subseteq> set ignored"
  shows "key_loop details ignored n (ls @ rest) j ss = Inl (LogicError ''Cannot collapse sessions not in LIFO order'')"
  using assms
proof (induction ls arbitrary: j)
  case (Cons l ls)
  show ?case
  proof (cases "l \<in> set ignored")
    case True
    then have "key_loop details ignored n ((l # ls) @ rest) j ss = key_loop details ignored n (ls @ rest) (j + 1) ss"
      using Cons.prems by simp
    then show ?thesis using Cons True by simp
  qed (use Cons.prems in \<open>cases ignored; simp\<close>)
qed simp

lemma names_fit: "distinct levels \<Longrightarrow> distinct names \<Longrightarrow> set names \<subseteq> set levels \<Longrightarrow> length names \<le> length levels"
  by (metis card_mono distinct_card finite_set)

lemma rev_split: "rev xs = rev (drop k xs) @ rev (take k xs)"
  by (metis append_take_drop_id rev_append)

lemma createSessionKey_value:
  assumes "wf_meta m" "distinct names" "set names \<subseteq> set (sm_sessionsLevels m)"
  defines "levels \<equiv> sm_sessionsLevels m"
  shows "createSessionKey m names =
    (if innermost levels names
     then Inr (joins (map (key_piece (sm_details m)) (rev (take (length levels - length names) levels))) ''_'')
     else Inl (LogicError ''Cannot collapse sessions not in LIFO order''))"
proof -
  let ?k = "length levels - length names"
  have d: "distinct levels" using assms(1) by (simp add: wf_meta_def levels_def)
  have le: "length names \<le> length levels" using names_fit [OF d assms(2)] assms(3) by (simp add: levels_def)
  have found: "\<not> list_ex (\<lambda>name. map_of (sm_details m) name = None) names"
    using assms(3) wf_meta_names [OF assms(1)] by (auto simp: list_ex_iff)
  show ?thesis
  proof (cases "levels = []")
    case True
    then have "sm_details m = []" "names = []" using assms(1,3) by (auto simp: wf_meta_def levels_def)
    then show ?thesis using True by (simp add: createSessionKey_def innermost_def)
  next
    case False
    then have "sm_details m \<noteq> []" using assms(1) by (auto simp: wf_meta_def levels_def)
    then have e: "createSessionKey m names =
        key_loop (sm_details m) names (length levels) (rev (drop ?k levels) @ rev (take ?k levels)) 0 []"
      using found rev_split [of levels ?k] by (simp add: createSessionKey_def levels_def)
    have len: "length (rev (drop ?k levels)) = length names" using le by simp
    show ?thesis
    proof (cases "innermost levels names")
      case True
      then have "set (rev (drop ?k levels)) \<subseteq> set names" by (simp add: innermost_def)
      then have "createSessionKey m names =
          key_loop (sm_details m) names (length levels) (rev (take ?k levels)) (length names) []"
        unfolding e using le len by (subst key_loop_skip) simp_all
      also have "\<dots> = Inr (joins (map (key_piece (sm_details m)) (rev (take ?k levels))) ''_'')"
        using wf_meta_names [OF assms(1)]
        by (subst key_loop_text) (auto simp: levels_def dest: in_set_takeD)
      finally show ?thesis using True by simp
    next
      case F: False
      then have "\<not> set (rev (drop ?k levels)) \<subseteq> set names" using le by (simp add: innermost_def)
      then show ?thesis unfolding e using F le len by (subst key_loop_refuse) simp_all
    qed
  qed
qed

text \<open>The same levels with different ids give different keys.\<close>

lemma dec_nat_prefix:
  assumes "dec_nat a @ x = dec_nat b @ y" "x = [] \<or> \<not> is_digit (hd x)" "y = [] \<or> \<not> is_digit (hd y)"
  shows "a = b \<and> x = y"
proof -
  have "takeWhile is_digit (dec_nat n @ z) = dec_nat n" if "z = [] \<or> \<not> is_digit (hd z)" for n z
    using that dec_nat_digits [of n] by (cases z) (auto simp: takeWhile_append list_all_iff takeWhile_eq_all_conv)
  with assms have "dec_nat a = dec_nat b" by metis
  then have "a = b" by (metis digits_value_dec_nat)
  with assms(1) show ?thesis by simp
qed

lemma joins_pieces_inj:
  assumes "joins (map (\<lambda>l. l @ ''_'' @ dec_nat (f l)) ls) ''_'' = joins (map (\<lambda>l. l @ ''_'' @ dec_nat (g l)) ls) ''_''"
  shows "map f ls = map g ls"
  using assms
proof (induction ls)
  case (Cons l ls)
  have us: "\<not> is_digit CHR ''_''" by (simp add: is_digit_def)
  have "dec_nat (f l) @ (if ls = [] then [] else ''_'' @ joins (map (\<lambda>l. l @ ''_'' @ dec_nat (f l)) ls) ''_'') =
      dec_nat (g l) @ (if ls = [] then [] else ''_'' @ joins (map (\<lambda>l. l @ ''_'' @ dec_nat (g l)) ls) ''_'')"
    using Cons.prems by (simp add: joins_Cons split: if_splits)
  from dec_nat_prefix [OF this] us show ?case using Cons.IH by (cases "ls = []") simp_all
qed simp

text \<open>The part of a key that names the ids of given levels determines them.\<close>

definition key_text :: "NodeSessionMetadata \<Rightarrow> string list \<Rightarrow> string" where
  "key_text m levels = joins (map (key_piece (sm_details m)) (rev levels)) ''_''"

lemma session_key_text_inj:
  assumes "key_text m levels = key_text m' levels"
  shows "ids m levels = ids m' levels"
proof -
  have "map (\<lambda>l. fst (the (map_of (sm_details m) l))) (rev levels) =
      map (\<lambda>l. fst (the (map_of (sm_details m') l))) (rev levels)"
    using assms unfolding key_text_def key_piece_def by (rule joins_pieces_inj)
  then show ?thesis by (simp add: ids_def rev_map [symmetric])
qed

lemma outer_ids_of_key:
  assumes "wf_meta m" "distinct names" "set names \<subseteq> set (sm_sessionsLevels m)" "innermost (sm_sessionsLevels m) names"
  shows "createSessionKey m names =
    Inr (key_text m (take (length (sm_sessionsLevels m) - length names) (sm_sessionsLevels m)))"
  using createSessionKey_value [OF assms(1-3)] assms(4) by (simp add: key_text_def)

section \<open>Collapsing\<close>

lemma collapse_levels_value:
  assumes "\<forall>l\<in>set ls. map_of (sm_details m) l \<noteq> None"
  shows "collapse_levels m ign ls =
    Inr (\<lparr>cd_collapsedSessionNames = filter (\<lambda>l. l \<in> set ign) ls,
          cd_collapsedSessionSizes = sizes m (filter (\<lambda>l. l \<in> set ign) ls)\<rparr>, filter (\<lambda>l. l \<notin> set ign) ls)"
  using assms
proof (induction ls)
  case (Cons l ls)
  then obtain sid sz where "map_of (sm_details m) l = Some (sid, sz)" by auto
  then show ?case using Cons by (simp add: getSubsessionSize_def sizes_def)
qed (simp add: sizes_def)

lemma filter_inner:
  assumes "distinct levels" "distinct names" "set names \<subseteq> set levels" "innermost levels names"
  shows "filter (\<lambda>l. l \<in> set names) levels = drop (length levels - length names) levels"
    "filter (\<lambda>l. l \<notin> set names) levels = take (length levels - length names) levels"
proof -
  let ?k = "length levels - length names"
  have s: "set (drop ?k levels) = set names" using innermost_iff [OF assms(1-3)] assms(4) by simp
  have l: "levels = take ?k levels @ drop ?k levels" by simp
  have "set (take ?k levels) \<inter> set names = {}"
    using assms(1) s by (subst (asm) l) (simp del: append_take_drop_id)
  then have t: "filter (\<lambda>l. l \<in> set names) (take ?k levels) = []" "filter (\<lambda>l. l \<notin> set names) (take ?k levels) = take ?k levels"
    by (auto simp: filter_empty_conv intro!: filter_True)
  have d: "filter (\<lambda>l. l \<in> set names) (drop ?k levels) = drop ?k levels" "filter (\<lambda>l. l \<notin> set names) (drop ?k levels) = []"
    using s by (auto simp: filter_empty_conv intro!: filter_True)
  show "filter (\<lambda>l. l \<in> set names) levels = drop ?k levels" "filter (\<lambda>l. l \<notin> set names) levels = take ?k levels"
    using t d by (subst l, simp only: filter_append append_Nil append_Nil2)+
qed

lemma map_of_filter_keys:
  "map_of (filter (\<lambda>(name, _). P name) xs) l = (if P l then map_of xs l else None)"
  by (induction xs) auto

lemma map_fst_filter: "map fst (filter (\<lambda>(name, _). P name) xs) = filter P (map fst xs)"
  by (induction xs) auto

text \<open>The metadata and details a successful collapse yields.\<close>

lemma collapse_value:
  assumes "wf_meta m" "distinct names" "set names \<subseteq> set (sm_sessionsLevels m)" "names \<noteq> []"
  defines "levels \<equiv> sm_sessionsLevels m"
  defines "k \<equiv> length levels - length names"
  shows "getCollapsedSessionMetadata m names =
    (if innermost levels names
     then Inr (default_NodeSessionMetadata
                 \<lparr>sm_details := filter (\<lambda>(name, _). name \<notin> set names) (sm_details m), sm_sessionsLevels := take k levels\<rparr>,
               \<lparr>cd_collapsedSessionNames = drop k levels, cd_collapsedSessionSizes = sizes m (drop k levels)\<rparr>)
     else Inl (LogicError ''Cannot collapse sessions not in LIFO order''))"
proof -
  have d: "distinct levels" "length levels < 2 ^ 31" using assms(1) by (simp_all add: wf_meta_def levels_def)
  have sub: "set names \<subseteq> set levels" using assms(3) by (simp add: levels_def)
  have found: "\<not> list_ex (\<lambda>name. map_of (sm_details m) name = None) names"
    using assms(3) wf_meta_names [OF assms(1)] by (auto simp: list_ex_iff)
  note lifo = lifo_check_iff [OF d(2) assms(2) sub d(1) assms(4)]
  have "\<forall>l\<in>set levels. map_of (sm_details m) l \<noteq> None" using wf_meta_names [OF assms(1)] by (simp add: levels_def)
  note coll = collapse_levels_value [OF this, of names]
  show ?thesis
    using assms(4) found lifo coll filter_inner [OF d(1) assms(2) sub]
    by (simp add: getCollapsedSessionMetadata_def levels_def [symmetric] k_def)
qed

lemma collapse_wf:
  assumes "wf_meta m" "distinct names" "set names \<subseteq> set (sm_sessionsLevels m)" "innermost (sm_sessionsLevels m) names"
  defines "c \<equiv> default_NodeSessionMetadata
      \<lparr>sm_details := filter (\<lambda>(name, _). name \<notin> set names) (sm_details m),
       sm_sessionsLevels := take (length (sm_sessionsLevels m) - length names) (sm_sessionsLevels m)\<rparr>"
  shows "wf_meta c" "createSessionKey c [] = createSessionKey m names"
proof -
  let ?levels = "sm_sessionsLevels m" and ?k = "length (sm_sessionsLevels m) - length names"
  have d: "distinct ?levels" "map fst (sm_details m) = ?levels" using assms(1) by (simp_all add: wf_meta_def)
  have keys: "map fst (sm_details c) = sm_sessionsLevels c"
    using filter_inner(2) [OF d(1) assms(2-4)] d(2) by (simp add: c_def map_fst_filter)
  then show wf: "wf_meta c"
    using assms(1) by (auto simp: wf_meta_def c_def list_all_iff)
  have "key_piece (sm_details c) l = key_piece (sm_details m) l" if "l \<in> set (take ?k ?levels)" for l
  proof -
    have "l \<in> set (filter (\<lambda>l. l \<notin> set names) ?levels)" using that by (simp only: filter_inner(2) [OF d(1) assms(2-4)])
    then have "l \<notin> set names" by simp
    then show ?thesis by (simp add: c_def key_piece_def map_of_filter_keys)
  qed
  then have pieces: "map (key_piece (sm_details c)) (rev (take ?k ?levels)) = map (key_piece (sm_details m)) (rev (take ?k ?levels))"
    by simp
  have kept: "sm_sessionsLevels c = take ?k ?levels" by (simp add: c_def)
  have "innermost l []" for l by (simp add: innermost_def)
  then have "createSessionKey c [] = Inr (joins (map (key_piece (sm_details c)) (rev (take ?k ?levels))) ''_'')"
    using createSessionKey_value [OF wf, of "[]"] by (simp add: kept)
  moreover have "createSessionKey m names = Inr (joins (map (key_piece (sm_details m)) (rev (take ?k ?levels))) ''_'')"
    using createSessionKey_value [OF assms(1-3)] assms(4) by simp
  ultimately show "createSessionKey c [] = createSessionKey m names" by (simp only: pieces)
qed

section \<open>Gathering shards\<close>

text \<open>The \<open>i\<close>-th block of \<open>w\<close> bytes.\<close>

definition block :: "nat \<Rightarrow> string \<Rightarrow> nat \<Rightarrow> string" where
  "block w buf i = take w (drop (i * w) buf)"

lemma blocks_determine:
  "length buf = n * w \<Longrightarrow> concat (map (block w buf) [0..<n]) = buf"
proof (induction n arbitrary: buf)
  case (Suc n)
  have "concat (map (block w (take (n * w) buf)) [0..<n]) = take (n * w) buf"
    using Suc by (intro Suc.IH) simp
  moreover have "block w (take (n * w) buf) i = block w buf i" if "i < n" for i
  proof -
    have "(i + 1) * w \<le> n * w" using that by (intro mult_right_mono) auto
    then show ?thesis by (simp add: block_def take_drop min_def algebra_simps)
  qed
  then have "map (block w (take (n * w) buf)) [0..<n] = map (block w buf) [0..<n]" by simp
  moreover have "block w buf n = drop (n * w) buf" using Suc.prems by (simp add: block_def)
  ultimately show ?case by simp
qed simp

lemma memcpy_block:
  assumes "length buf = n * w" "length src = w" "i < n"
  shows "\<exists>out. memcpy_at (i * w) src buf = Inr out \<and> length out = n * w \<and>
    (\<forall>j < n. block w out j = (if j = i then src else block w buf j))"
proof -
  have le: "i * w + w \<le> n * w" using assms(3) by (metis Suc_leI add.commute mult_Suc mult_le_mono1)
  let ?out = "take (i * w) buf @ src @ drop (i * w + w) buf"
  have "memcpy_at (i * w) src buf = Inr ?out" using assms le by (simp add: memcpy_at_def)
  moreover have len: "length ?out = n * w" using assms le by simp
  moreover have "block w ?out j = (if j = i then src else block w buf j)" if j: "j < n" for j
  proof (cases j i rule: linorder_cases)
    case less
    then have jw: "j * w + w \<le> i * w" by (metis Suc_leI add.commute mult_Suc mult_le_mono1)
    have "block w ?out j = take w (drop (j * w) (take (i * w) buf))"
      using jw le assms(1) by (simp add: block_def)
    also have "\<dots> = block w buf j" using jw by (simp add: block_def take_drop min_def add.commute)
    finally show ?thesis using less by simp
  next
    case equal
    then show ?thesis using assms le by (simp add: block_def)
  next
    case greater
    then have g: "i * w + w \<le> j * w" by (metis Suc_leI add.commute mult_Suc mult_le_mono1)
    then have "drop (j * w) ?out = drop (j * w - (i * w + w)) (drop (i * w + w) buf)"
      using assms le greater by simp
    also have "\<dots> = drop (j * w) buf" using g by simp
    finally show ?thesis using greater by (simp add: block_def)
  qed
  ultimately show ?thesis by blast
qed

text \<open>Shards of one element type, shape and byte size.\<close>

definition uniform :: "'p \<Rightarrow> nat list \<Rightarrow> nat \<Rightarrow> (session_id \<times> 'p Tensor) list \<Rightarrow> bool" where
  "uniform p dims w shards \<longleftrightarrow>
     (\<forall>(i, t)\<in>set shards. tn_precision t = p \<and> tn_shape t = dims \<and> length (tn_data t) = w)"

lemma copy_shards_blocks:
  assumes "uniform p dims w shards" "distinct (map fst shards)" "\<forall>i\<in>fst ` set shards. i < n" "length buf = n * w"
  shows "\<exists>out. copy_shards p dims shards buf = Inr (Inr out) \<and> length out = n * w \<and>
    (\<forall>j < n. block w out j = (case map_of shards j of Some t \<Rightarrow> tn_data t | None \<Rightarrow> block w buf j))"
  using assms
proof (induction shards arbitrary: buf)
  case (Cons s shards)
  obtain i t where s: "s = (i, t)" by (cases s)
  have t: "tn_precision t = p" "tn_shape t = dims" "length (tn_data t) = w" "i < n"
    using Cons.prems(1,3) by (auto simp: uniform_def s)
  obtain b where b: "memcpy_at (i * w) (tn_data t) buf = Inr b" "length b = n * w"
    "\<forall>j < n. block w b j = (if j = i then tn_data t else block w buf j)"
    using memcpy_block [OF Cons.prems(4) t(3,4)] by blast
  have new: "map_of shards i = None" using Cons.prems(2) by (simp add: s map_of_eq_None_iff)
  obtain out where out: "copy_shards p dims shards b = Inr (Inr out)" "length out = n * w"
    "\<forall>j < n. block w out j = (case map_of shards j of Some t \<Rightarrow> tn_data t | None \<Rightarrow> block w b j)"
    using Cons.IH [OF _ _ _ b(2)] Cons.prems(1-3) by (auto simp: uniform_def s)
  have "block w out j = (case map_of (s # shards) j of Some t \<Rightarrow> tn_data t | None \<Rightarrow> block w buf j)" if "j < n" for j
    using out(3) b(3) that new by (auto simp: s split: option.splits)
  then show ?case using out b t by (intro exI[of _ out]) (simp add: s)
qed simp

text \<open>All shards of an input are there, of one element type and shape.\<close>

definition complete :: "('p \<Rightarrow> nat) \<Rightarrow> nat \<Rightarrow> (session_id \<times> 'p Tensor) list \<Rightarrow> bool" where
  "complete elem_size n shards \<longleftrightarrow>
     distinct (map fst shards) \<and> fst ` set shards = {0..<n} \<and>
     (\<exists>p dims. uniform p dims (elem_size p * prod_list dims) shards)"

text \<open>The shards put together in the order of their ids.\<close>

definition assembled :: "nat list \<Rightarrow> (session_id \<times> 'p Tensor) list \<Rightarrow> 'p Tensor" where
  "assembled dims shards =
     (let first = the (map_of shards 0)
      in \<lparr>tn_precision = tn_precision first, tn_shape = dims @ tn_shape first,
          tn_data = concat (map (\<lambda>i. tn_data (the (map_of shards i))) [0..<prod_list dims])\<rparr>)"

lemma copy_shards_complete:
  assumes "complete elem_size n shards" "0 < n"
  obtains t where "map_of shards 0 = Some t"
    "\<And>buf. length buf = n * (elem_size (tn_precision t) * prod_list (tn_shape t)) \<Longrightarrow>
      copy_shards (tn_precision t) (tn_shape t) shards buf =
        Inr (Inr (concat (map (\<lambda>i. tn_data (the (map_of shards i))) [0..<n])))"
proof -
  obtain p dims where u: "uniform p dims (elem_size p * prod_list dims) shards"
    and ids: "distinct (map fst shards)" "fst ` set shards = {0..<n}"
    using assms(1) by (auto simp: complete_def)
  have look: "\<exists>t. map_of shards i = Some t" if "i < n" for i
    using that ids(2) by (metis atLeastLessThan_iff map_of_eq_None_iff not_Some_eq zero_le)
  then obtain t where t: "map_of shards 0 = Some t" using assms(2) by blast
  then have "(0, t) \<in> set shards" by (rule map_of_SomeD)
  then have pt: "tn_precision t = p" "tn_shape t = dims" using u by (auto simp: uniform_def)
  have "copy_shards p dims shards buf = Inr (Inr (concat (map (\<lambda>i. tn_data (the (map_of shards i))) [0..<n])))"
    if buf: "length buf = n * (elem_size p * prod_list dims)" for buf
  proof -
    let ?w = "elem_size p * prod_list dims"
    obtain out where out: "copy_shards p dims shards buf = Inr (Inr out)" "length out = n * ?w"
      "\<forall>j < n. block ?w out j = (case map_of shards j of Some t \<Rightarrow> tn_data t | None \<Rightarrow> block ?w buf j)"
      using copy_shards_blocks [OF u ids(1) _ buf] ids(2) by auto
    have "map (block ?w out) [0..<n] = map (\<lambda>i. tn_data (the (map_of shards i))) [0..<n]"
      using out(3) look by fastforce
    then have "out = concat (map (\<lambda>i. tn_data (the (map_of shards i))) [0..<n])"
      using blocks_determine [OF out(2)] by metis
    with out(1) show ?thesis by metis
  qed
  then show thesis using that t pt by blast
qed

lemma consolidate_complete:
  assumes "\<forall>(name, shards)\<in>set storage. complete elem_size (prod_list dims) shards" "0 < prod_list dims"
    "distinct (map fst storage)" "fst ` set storage \<inter> fst ` set inputs = {}"
  shows "consolidate (createSharedTensor elem_size) dims storage inputs =
    Inr (SC_OK, inputs @ map (\<lambda>(name, shards). (name, assembled dims shards)) storage)"
  using assms
proof (induction storage arbitrary: inputs)
  case (Cons s storage)
  obtain name shards where s: "s = (name, shards)" by (cases s)
  have "complete elem_size (prod_list dims) shards" using Cons.prems(1) by (simp add: s)
  then obtain t where t: "map_of shards 0 = Some t"
    "\<And>buf. length buf = prod_list dims * (elem_size (tn_precision t) * prod_list (tn_shape t)) \<Longrightarrow>
      copy_shards (tn_precision t) (tn_shape t) shards buf =
        Inr (Inr (concat (map (\<lambda>i. tn_data (the (map_of shards i))) [0..<prod_list dims])))"
    using copy_shards_complete Cons.prems(2) by metis
  have new: "map_of inputs name = None" using Cons.prems(4) by (auto simp: s map_of_eq_None_iff)
  have "consolidate (createSharedTensor elem_size) dims (s # storage) inputs =
      consolidate (createSharedTensor elem_size) dims storage (inputs @ [(name, assembled dims shards)])"
    using new by (simp add: s t(1) createSharedTensor_def t(2) assembled_def Let_def algebra_simps)
  also have "\<dots> = Inr (SC_OK, (inputs @ [(name, assembled dims shards)]) @
      map (\<lambda>(name, shards). (name, assembled dims shards)) storage)"
    using Cons.prems by (intro Cons.IH) (auto simp: s)
  finally show ?case by (simp add: s)
qed simp

section \<open>Counting dependencies\<close>

text \<open>What happens to a handler: an input arrives, or a dependency finishes.\<close>

datatype 'i handler_event = SetInput 'i | Finished

fun deliver ::
  "('h \<Rightarrow> 'i \<Rightarrow> StatusCode \<times> 'h) \<Rightarrow> ('h \<Rightarrow> (StatusCode \<times> 'h) result) \<Rightarrow> 'h \<Rightarrow> 'i handler_event list \<Rightarrow> 'h result" where
  "deliver set_input notify h [] = Inr h"
| "deliver set_input notify h (SetInput i # es) = deliver set_input notify (snd (set_input h i)) es"
| "deliver set_input notify h (Finished # es) = rbind (notify h) (\<lambda>(_, h'). deliver set_input notify h' es)"

definition finished :: "'i handler_event list \<Rightarrow> nat" where
  "finished es = length (filter (\<lambda>e. e = Finished) es)"

lemma finished_simps [simp]:
  "finished [] = 0" "finished (SetInput i # es) = finished es" "finished (Finished # es) = Suc (finished es)"
  by (simp_all add: finished_def)

lemma deliver_append:
  "deliver f g h (es @ fs) = rbind (deliver f g h es) (\<lambda>h'. deliver f g h' fs)"
proof (induction es arbitrary: h)
  case (Cons e es)
  then show ?case by (cases e; cases "g h") auto
qed simp

text \<open>
  What the node sessions rely on: inputs do not touch the counter, a refused input changes nothing,
  and every notification counts once.
\<close>

locale input_handler =
  fixes set_input :: "'h \<Rightarrow> 'i \<Rightarrow> StatusCode \<times> 'h"
    and notify :: "'h \<Rightarrow> (StatusCode \<times> 'h) result"
    and base :: "'h \<Rightarrow> 'p NodeInputHandler"
  assumes set_counter: "ih_remainingDependencies (base (snd (set_input h i))) = ih_remainingDependencies (base h)"
    and set_used: "ih_isUsed (base (snd (set_input h i))) = ih_isUsed (base h)"
    and set_refused: "fst (set_input h i) \<noteq> SC_OK \<Longrightarrow> snd (set_input h i) = h"
    and notify_counter: "notify h = Inr (c, h') \<Longrightarrow>
      ih_remainingDependencies (base h') = decrement (ih_remainingDependencies (base h))"
    and notify_used: "notify h = Inr (c, h') \<Longrightarrow> ih_isUsed (base h') = ih_isUsed (base h)"
begin

lemma deliver_counter:
  assumes "deliver set_input notify h es = Inr h'" "finished es \<le> ih_remainingDependencies (base h)"
    "ih_remainingDependencies (base h) < 2 ^ 32"
  shows "ih_remainingDependencies (base h') = ih_remainingDependencies (base h) - finished es \<and>
    ih_isUsed (base h') = ih_isUsed (base h)"
  using assms
proof (induction es arbitrary: h)
  case (Cons e es)
  show ?case
  proof (cases e)
    case (SetInput i)
    then show ?thesis using Cons set_counter [of h i] set_used [of h i] by simp
  next
    case Finished
    then obtain c h1 where h1: "notify h = Inr (c, h1)" "deliver set_input notify h1 es = Inr h'"
      using Cons.prems(1) by (auto simp: rbind_Inr_iff)
    have "ih_remainingDependencies (base h1) = ih_remainingDependencies (base h) - 1"
    proof -
      have "0 < ih_remainingDependencies (base h)" using Cons.prems(2) Finished by simp
      then show ?thesis using notify_counter [OF h1(1)] Cons.prems(3) by (simp add: decrement_pos)
    qed
    then show ?thesis using Cons.IH [OF h1(2)] Cons.prems Finished notify_used [OF h1(1)] by simp
  qed
qed simp

lemma ready_when_all_finished:
  assumes "deliver set_input notify h es = Inr h'" "finished es \<le> ih_remainingDependencies (base h)"
    "ih_remainingDependencies (base h) < 2 ^ 32" "\<not> ih_isUsed (base h)"
  shows "isReady (base h') \<longleftrightarrow> finished es = ih_remainingDependencies (base h)"
  using deliver_counter [OF assms(1-3)] assms(2,4) by (auto simp: isReady_def)

end

lemma plain_set_cases:
  "plain_setInput n t i h = (c, h') \<Longrightarrow> (c = SC_OK \<or> h' = h) \<and>
     ih_remainingDependencies h' = ih_remainingDependencies h \<and> ih_isUsed h' = ih_isUsed h"
  by (auto simp: plain_setInput_def split: if_splits)

lemma gather_set_cases:
  "gather_setInput n t i h = (c, h') \<Longrightarrow> (c = SC_OK \<or> h' = h) \<and>
     ih_remainingDependencies (gh_base h') = ih_remainingDependencies (gh_base h) \<and>
     ih_isUsed (gh_base h') = ih_isUsed (gh_base h)"
  by (auto simp: gather_setInput_def Let_def split: if_splits option.splits)

lemma gather_notify_counter:
  "gather_notifyFinishedDependency prepare h = Inr (c, h') \<Longrightarrow>
     ih_remainingDependencies (gh_base h') = decrement (ih_remainingDependencies (gh_base h)) \<and>
     ih_isUsed (gh_base h') = ih_isUsed (gh_base h)"
  by (auto simp: gather_notifyFinishedDependency_def plain_notifyFinishedDependency_def rbind_Inr_iff Let_def
      split: if_splits)

interpretation plain_handler: input_handler "\<lambda>h (n, t, i). plain_setInput n t i h"
  "\<lambda>h. Inr (plain_notifyFinishedDependency h)" "\<lambda>h. h"
  by unfold_locales (auto simp: plain_notifyFinishedDependency_def plain_setInput_def split: prod.splits)

interpretation gather_handler: input_handler "\<lambda>h (n, t, i). gather_setInput n t i h"
  "gather_notifyFinishedDependency prepare" gh_base for prepare
proof unfold_locales
  fix h :: "'a GatherNodeInputHandler" and i :: "string \<times> 'a TensorWithSource \<times> session_id"
  obtain n t k where i: "i = (n, t, k)" by (cases i)
  obtain c h' where "gather_setInput n t k h = (c, h')" by (cases "gather_setInput n t k h")
  with gather_set_cases [OF this]
  show "ih_remainingDependencies (gh_base (snd (case i of (n, t, i) \<Rightarrow> gather_setInput n t i h))) =
      ih_remainingDependencies (gh_base h)"
    "ih_isUsed (gh_base (snd (case i of (n, t, i) \<Rightarrow> gather_setInput n t i h))) = ih_isUsed (gh_base h)"
    "fst (case i of (n, t, i) \<Rightarrow> gather_setInput n t i h) \<noteq> SC_OK \<Longrightarrow>
      snd (case i of (n, t, i) \<Rightarrow> gather_setInput n t i h) = h"
    by (auto simp: i)
qed (auto dest: gather_notify_counter)

interpretation session_handler: input_handler "\<lambda>s (n, t, i). session_setInput n t i s"
  "session_notifyFinishedDependency prepare" "\<lambda>s. handler_base (ns_inputHandler s)" for prepare
proof unfold_locales
  fix s :: "'a NodeSession" and i :: "string \<times> 'a TensorWithSource \<times> session_id"
  obtain n t k where i: "i = (n, t, k)" by (cases i)
  obtain c s' where e: "session_setInput n t k s = (c, s')" by (cases "session_setInput n t k s")
  then have "(c = SC_OK \<or> s' = s) \<and>
      ih_remainingDependencies (handler_base (ns_inputHandler s')) = ih_remainingDependencies (handler_base (ns_inputHandler s)) \<and>
      ih_isUsed (handler_base (ns_inputHandler s')) = ih_isUsed (handler_base (ns_inputHandler s))"
    by (cases "ns_inputHandler s")
      (auto simp: session_setInput_def split: prod.splits dest!: plain_set_cases gather_set_cases)
  then show "ih_remainingDependencies (handler_base (ns_inputHandler (snd (case i of (n, t, i) \<Rightarrow> session_setInput n t i s)))) =
      ih_remainingDependencies (handler_base (ns_inputHandler s))"
    "ih_isUsed (handler_base (ns_inputHandler (snd (case i of (n, t, i) \<Rightarrow> session_setInput n t i s)))) =
      ih_isUsed (handler_base (ns_inputHandler s))"
    "fst (case i of (n, t, i) \<Rightarrow> session_setInput n t i s) \<noteq> SC_OK \<Longrightarrow>
      snd (case i of (n, t, i) \<Rightarrow> session_setInput n t i s) = s"
    by (auto simp: i e)
next
  fix s :: "'a NodeSession" and c s'
  assume "session_notifyFinishedDependency prepare s = Inr (c, s')"
  then have "ih_remainingDependencies (handler_base (ns_inputHandler s')) =
        decrement (ih_remainingDependencies (handler_base (ns_inputHandler s))) \<and>
      ih_isUsed (handler_base (ns_inputHandler s')) = ih_isUsed (handler_base (ns_inputHandler s))"
    by (cases "ns_inputHandler s")
      (auto simp: session_notifyFinishedDependency_def plain_notifyFinishedDependency_def rbind_Inr_iff
        split: prod.splits dest!: gather_notify_counter)
  then show "ih_remainingDependencies (handler_base (ns_inputHandler s')) =
      decrement (ih_remainingDependencies (handler_base (ns_inputHandler s)))"
    "ih_isUsed (handler_base (ns_inputHandler s')) = ih_isUsed (handler_base (ns_inputHandler s))" by simp_all
qed

lemma foldl_mod_prod:
  assumes "a * prod_list xs < (M::nat)"
  shows "foldl (\<lambda>a s. (a * s) mod M) (a mod M) xs = a * prod_list xs"
proof -
  have "foldl (\<lambda>a s. (a * s) mod M) (a mod M) xs = (a * prod_list xs) mod M"
    by (induction xs arbitrary: a) (simp_all add: mod_mult_left_eq mult.assoc)
  with assms show ?thesis by simp
qed

lemma new_handler_counter:
  assumes "inputsCount * prod_list (cd_collapsedSessionSizes cd) < 2 ^ 32" "inputsCount < 2 ^ 32"
    "length (cd_collapsedSessionNames cd) = length (cd_collapsedSessionSizes cd)"
  shows "ih_remainingDependencies (handler_base (createNodeInputHandler inputsCount cd)) =
      inputsCount * prod_list (cd_collapsedSessionSizes cd) \<and>
    \<not> ih_isUsed (handler_base (createNodeInputHandler inputsCount cd))"
  using foldl_mod_prod [OF assms(1)] assms(2,3)
  by (auto simp: createNodeInputHandler_def new_GatherNodeInputHandler_def new_NodeInputHandler_def)

section \<open>A gather handler that gets everything\<close>

text \<open>The arrivals of a list of events, and the shards of one input among them.\<close>

fun arrivals :: "'i handler_event list \<Rightarrow> 'i list" where
  "arrivals [] = []"
| "arrivals (SetInput i # es) = i # arrivals es"
| "arrivals (Finished # es) = arrivals es"

definition shards_of :: "string \<Rightarrow> (string \<times> 'p TensorWithSource \<times> session_id) list \<Rightarrow> (session_id \<times> 'p Tensor) list" where
  "shards_of name xs = map (\<lambda>(n, t, i). (i, fst t)) (filter (\<lambda>(n, t, i). n = name) xs)"

definition stores :: "(string \<times> (session_id \<times> 'p Tensor) list) list \<Rightarrow> (string \<times> 'p TensorWithSource \<times> session_id) list \<Rightarrow> bool" where
  "stores storage xs \<longleftrightarrow> distinct (map fst storage) \<and>
     (\<forall>name. map_of storage name = (if shards_of name xs = [] then None else Some (shards_of name xs)))"

abbreviation slot :: "string \<times> 'p TensorWithSource \<times> session_id \<Rightarrow> string \<times> session_id" where
  "slot \<equiv> \<lambda>(n, t, i). (n, i)"

lemma shards_of_snoc:
  "shards_of name (xs @ [(n, t, i)]) = shards_of name xs @ (if n = name then [(i, fst t)] else [])"
  by (simp add: shards_of_def)

lemma shards_of_ids: "i \<in> fst ` set (shards_of name xs) \<longleftrightarrow> (name, i) \<in> slot ` set xs"
  by (force simp: shards_of_def)

lemma map_of_update_at:
  "map_of (map (\<lambda>(n, s). if n = k then (n, f s) else (n, s)) xs) l =
     (if l = k then map_option f (map_of xs l) else map_of xs l)"
  by (induction xs) auto

lemma keys_update_at:
  "map (fst \<circ> (\<lambda>(n, s). if n = k then (n, f s) else (n, s))) xs = map fst xs"
  by auto

lemma gather_set_stores:
  assumes "stores (gh_shardsStorage h) xs" "(n, i) \<notin> slot ` set xs"
  shows "stores (gh_shardsStorage (snd (gather_setInput n t i h))) (xs @ [(n, t, i)]) \<and>
    gh_collapsingDetails (snd (gather_setInput n t i h)) = gh_collapsingDetails h \<and>
    ih_inputTensors (gh_base (snd (gather_setInput n t i h))) = ih_inputTensors (gh_base h) \<and>
    fst (gather_setInput n t i h) = SC_OK"
proof (cases "map_of (gh_shardsStorage h) n")
  case None
  then have "shards_of n xs = []" using assms(1) by (auto simp: stores_def split: if_splits)
  moreover have "n \<notin> fst ` set (gh_shardsStorage h)" using None by (simp add: map_of_eq_None_iff)
  ultimately show ?thesis
    using None assms(1) by (auto simp: gather_setInput_def Let_def stores_def shards_of_snoc map_add_def)
next
  case (Some shards)
  then have s: "shards = shards_of n xs" "shards_of n xs \<noteq> []"
    using assms(1) by (auto simp: stores_def split: if_splits)
  have "map_of shards i = None"
    using assms(2) shards_of_ids [of i n xs] by (simp add: s(1) map_of_eq_None_iff)
  then show ?thesis
    using Some s assms(1)
    by (auto simp: gather_setInput_def Let_def stores_def shards_of_snoc map_of_update_at keys_update_at)
qed

lemma gather_notify_before:
  assumes "1 < ih_remainingDependencies (gh_base h)" "ih_remainingDependencies (gh_base h) < 2 ^ 32"
  shows "\<exists>h'. gather_notifyFinishedDependency prepare h = Inr (SC_OK, h') \<and>
    gh_shardsStorage h' = gh_shardsStorage h \<and> gh_collapsingDetails h' = gh_collapsingDetails h \<and>
    ih_inputTensors (gh_base h') = ih_inputTensors (gh_base h) \<and>
    ih_isUsed (gh_base h') = ih_isUsed (gh_base h) \<and>
    ih_remainingDependencies (gh_base h') = ih_remainingDependencies (gh_base h) - 1"
  using assms by (simp add: gather_notifyFinishedDependency_def plain_notifyFinishedDependency_def decrement_pos)

text \<open>Before the last notification nothing is put together.\<close>

lemma gather_deliver_stores:
  assumes "stores (gh_shardsStorage h) xs" "distinct (map slot (xs @ arrivals es))"
    "finished es < ih_remainingDependencies (gh_base h)" "ih_remainingDependencies (gh_base h) < 2 ^ 32"
  shows "\<exists>h'. deliver (\<lambda>h (n, t, i). gather_setInput n t i h) (gather_notifyFinishedDependency prepare) h es = Inr h' \<and>
    stores (gh_shardsStorage h') (xs @ arrivals es) \<and> gh_collapsingDetails h' = gh_collapsingDetails h \<and>
    ih_inputTensors (gh_base h') = ih_inputTensors (gh_base h) \<and>
    ih_isUsed (gh_base h') = ih_isUsed (gh_base h) \<and>
    ih_remainingDependencies (gh_base h') = ih_remainingDependencies (gh_base h) - finished es"
  using assms
proof (induction es arbitrary: h xs)
  case (Cons e es)
  show ?case
  proof (cases e)
    case (SetInput x)
    obtain n t i where x: "x = (n, t, i)" by (cases x)
    let ?h = "snd (gather_setInput n t i h)"
    have "(n, i) \<notin> slot ` set xs" using Cons.prems(2) by (auto simp: SetInput x)
    note set = gather_set_stores [OF Cons.prems(1) this, of t]
    have keep: "ih_remainingDependencies (gh_base ?h) = ih_remainingDependencies (gh_base h)"
      "ih_isUsed (gh_base ?h) = ih_isUsed (gh_base h)"
      using gather_set_cases [of n t i h] by (metis prod.collapse)+
    have "\<exists>h'. deliver (\<lambda>h (n, t, i). gather_setInput n t i h) (gather_notifyFinishedDependency prepare) ?h es = Inr h' \<and>
      stores (gh_shardsStorage h') ((xs @ [(n, t, i)]) @ arrivals es) \<and> gh_collapsingDetails h' = gh_collapsingDetails ?h \<and>
      ih_inputTensors (gh_base h') = ih_inputTensors (gh_base ?h) \<and> ih_isUsed (gh_base h') = ih_isUsed (gh_base ?h) \<and>
      ih_remainingDependencies (gh_base h') = ih_remainingDependencies (gh_base ?h) - finished es"
      using Cons.prems set keep by (intro Cons.IH) (auto simp: SetInput x)
    then show ?thesis using set keep by (simp add: SetInput x)
  next
    case Finished
    obtain h1 where h1: "gather_notifyFinishedDependency prepare h = Inr (SC_OK, h1)"
      "gh_shardsStorage h1 = gh_shardsStorage h" "gh_collapsingDetails h1 = gh_collapsingDetails h"
      "ih_inputTensors (gh_base h1) = ih_inputTensors (gh_base h)" "ih_isUsed (gh_base h1) = ih_isUsed (gh_base h)"
      "ih_remainingDependencies (gh_base h1) = ih_remainingDependencies (gh_base h) - 1"
      using gather_notify_before [of h prepare] Cons.prems(3,4) by (auto simp: Finished)
    have "\<exists>h'. deliver (\<lambda>h (n, t, i). gather_setInput n t i h) (gather_notifyFinishedDependency prepare) h1 es = Inr h' \<and>
      stores (gh_shardsStorage h') (xs @ arrivals es) \<and> gh_collapsingDetails h' = gh_collapsingDetails h1 \<and>
      ih_inputTensors (gh_base h') = ih_inputTensors (gh_base h1) \<and> ih_isUsed (gh_base h') = ih_isUsed (gh_base h1) \<and>
      ih_remainingDependencies (gh_base h') = ih_remainingDependencies (gh_base h1) - finished es"
      using Cons.prems h1(2,6) by (intro Cons.IH) (auto simp: Finished)
    then show ?thesis using h1 by (simp add: Finished)
  qed
qed simp

section \<open>Properties\<close>

text \<open>
  C24: For metadata as generated, collapsing named levels is decided by one question, whether they
  are the innermost ones: then the collapse succeeds, its result is well formed and has the session
  key the original has when those levels are ignored, its details list the collapsed sizes, and the
  shard id is the row-major index of the collapsed ids, below the number of shards, unless the
  product of the sizes passes 32 bits; otherwise collapse, key and shard id all raise.
\<close>

theorem collapse_key_and_shard_agree:
  assumes "wf_meta m" "distinct names" "set names \<subseteq> set (sm_sessionsLevels m)" "names \<noteq> []"
  shows "if innermost (sm_sessionsLevels m) names
    then \<exists>c d. getCollapsedSessionMetadata m names = Inr (c, d) \<and> wf_meta c \<and>
      sm_sessionsLevels m = sm_sessionsLevels c @ cd_collapsedSessionNames d \<and>
      set (cd_collapsedSessionNames d) = set names \<and>
      cd_collapsedSessionSizes d = sizes m (cd_collapsedSessionNames d) \<and>
      createSessionKey c [] = createSessionKey m names \<and>
      (prod_list (cd_collapsedSessionSizes d) \<le> 2 ^ 32 \<longrightarrow>
        (\<exists>i. getShardId m names = Inr i \<and> i < prod_list (cd_collapsedSessionSizes d) \<and>
          i = flat_index (cd_collapsedSessionSizes d) (ids m (cd_collapsedSessionNames d))))
    else getCollapsedSessionMetadata m names = Inl (LogicError ''Cannot collapse sessions not in LIFO order'') \<and>
      createSessionKey m names = Inl (LogicError ''Cannot collapse sessions not in LIFO order'') \<and>
      getShardId m names = Inl (LogicError ''Cannot collapse sessions not in LIFO order'')"
proof (cases "innermost (sm_sessionsLevels m) names")
  case True
  let ?k = "length (sm_sessionsLevels m) - length names"
  let ?inner = "drop ?k (sm_sessionsLevels m)"
  have d: "distinct (sm_sessionsLevels m)" using assms(1) by (simp add: wf_meta_def)
  have s: "set ?inner = set names" using innermost_iff [OF d assms(2,3)] True by simp
  note wf = collapse_wf [OF assms(1-3) True]
  have i: "getShardId m names = Inr (flat_index (sizes m ?inner) (ids m ?inner)) \<and>
      flat_index (sizes m ?inner) (ids m ?inner) < prod_list (sizes m ?inner)" if "prod_list (sizes m ?inner) \<le> 2 ^ 32"
    using getShardId_value [OF assms True that] flat_index_less [OF ids_below [OF assms(1) set_drop_subset]] by blast
  show ?thesis
    using True wf s i collapse_value [OF assms] by simp
next
  case False
  have l: "distinct (sm_sessionsLevels m)" "length (sm_sessionsLevels m) < 2 ^ 31" using assms(1) by (simp_all add: wf_meta_def)
  have "getShardId m names = Inl (LogicError ''Cannot collapse sessions not in LIFO order'')"
    using lifo_check_iff [OF l(2) assms(2,3) l(1) assms(4)] False assms(4) names_fit [OF l(1) assms(2,3)]
    by (simp add: getShardId_def)
  then show ?thesis using False collapse_value [OF assms] createSessionKey_value [OF assms(1-3)] by simp
qed

definition two_levels :: NodeSessionMetadata where
  "two_levels = (new_NodeSessionMetadata (REST, ConfigStatus))
     \<lparr>sm_details := [(''ab'', 1, 2), (''cd'', 2, 3)], sm_sessionsLevels := [''ab'', ''cd'']\<rparr>"

lemma two_levels_wf: "wf_meta two_levels"
  by (simp add: wf_meta_def two_levels_def new_NodeSessionMetadata_def)

lemma collapse_key_and_shard_agree_witness:
  "\<exists>c d. getCollapsedSessionMetadata two_levels [''cd''] = Inr (c, d) \<and> wf_meta c"
proof -
  have "innermost (sm_sessionsLevels two_levels) [''cd'']" "distinct [''cd'']"
    "set [''cd''] \<subseteq> set (sm_sessionsLevels two_levels)" "[''cd''] \<noteq> []" by code_simp+
  with collapse_key_and_shard_agree [OF two_levels_wf, of "[''cd'']"] show ?thesis by auto
qed

text \<open>
  Two sessions over the same levels that gather into the same session (equal keys without the
  innermost levels) under the same shard id are the same session, so no shard is overwritten by
  another session's.
\<close>

theorem gathered_shards_are_unique:
  assumes "wf_meta m" "wf_meta m'" "sm_sessionsLevels m' = sm_sessionsLevels m"
    "sizes m' (sm_sessionsLevels m) = sizes m (sm_sessionsLevels m)"
    "distinct names" "set names \<subseteq> set (sm_sessionsLevels m)" "names \<noteq> []" "innermost (sm_sessionsLevels m) names"
    "prod_list (sizes m (drop (length (sm_sessionsLevels m) - length names) (sm_sessionsLevels m))) \<le> 2 ^ 32"
    "createSessionKey m names = createSessionKey m' names" "getShardId m names = getShardId m' names"
  shows "ids m (sm_sessionsLevels m) = ids m' (sm_sessionsLevels m)"
proof -
  let ?L = "sm_sessionsLevels m" and ?k = "length (sm_sessionsLevels m) - length names"
  let ?inner = "drop ?k ?L" and ?outer = "take ?k ?L"
  have sz: "sizes m' ?inner = sizes m ?inner" using assms(4) by (metis drop_map sizes_def)
  have "ids m ?outer = ids m' ?outer"
    using outer_ids_of_key [OF assms(1,5,6,8)] outer_ids_of_key [OF assms(2), of names] assms(3,5,6,8,10)
      session_key_text_inj [of m ?outer m'] by simp
  moreover have "ids m ?inner = ids m' ?inner"
  proof (rule flat_index_inj)
    show "list_all2 (<) (ids m ?inner) (sizes m ?inner)" by (rule ids_below [OF assms(1) set_drop_subset])
    show "list_all2 (<) (ids m' ?inner) (sizes m ?inner)"
      using ids_below [OF assms(2), of ?inner] assms(3) sz by (simp add: set_drop_subset)
    show "flat_index (sizes m ?inner) (ids m ?inner) = flat_index (sizes m ?inner) (ids m' ?inner)"
      using getShardId_value [OF assms(1,5,6,7,8,9)] getShardId_value [OF assms(2), of names] assms(3,5,6,7,8,9,11) sz
      by simp
  qed
  ultimately show ?thesis by (metis append_take_drop_id ids_def map_append)
qed

definition other_two_levels :: NodeSessionMetadata where
  "other_two_levels = two_levels\<lparr>sm_context := (GRPC, ModelInfer)\<rparr>"

lemma gathered_shards_are_unique_witness:
  "ids two_levels [''ab'', ''cd''] = ids other_two_levels [''ab'', ''cd'']"
proof -
  have l: "sm_sessionsLevels two_levels = [''ab'', ''cd'']" "sm_sessionsLevels other_two_levels = [''ab'', ''cd'']"
    "sm_details other_two_levels = sm_details two_levels" "sm_details two_levels = [(''ab'', 1, 2), (''cd'', 2, 3)]"
    by (simp_all add: other_two_levels_def two_levels_def)
  have wf: "wf_meta other_two_levels" using two_levels_wf by (simp add: wf_meta_def l)
  have "ids two_levels (sm_sessionsLevels two_levels) = ids other_two_levels (sm_sessionsLevels two_levels)"
    by (rule gathered_shards_are_unique [OF two_levels_wf wf, of "[''cd'']"])
      (simp_all add: l sizes_def innermost_def createSessionKey_def getShardId_def)
  then show ?thesis by (simp add: l)
qed

text \<open>
  C22: A node session is ready exactly when every awaited dependency has finished: the count the
  constructor computes, the number of inputs times the number of shards of the collapsed levels,
  is the number of notifications after which it reports ready, whatever inputs arrive in between
  and whether they are accepted.
\<close>

theorem session_ready_after_all_dependencies:
  assumes "new_NodeSession m nodeName inputsCount cd = Inr s"
    "inputsCount < 2 ^ 32" "inputsCount * prod_list (cd_collapsedSessionSizes cd) < 2 ^ 32"
    "length (cd_collapsedSessionNames cd) = length (cd_collapsedSessionSizes cd)"
    "deliver (\<lambda>s (n, t, i). session_setInput n t i s) (session_notifyFinishedDependency prepare) s es = Inr s'"
    "finished es \<le> inputsCount * prod_list (cd_collapsedSessionSizes cd)"
  shows "session_isReady s' \<longleftrightarrow> finished es = inputsCount * prod_list (cd_collapsedSessionSizes cd)"
proof -
  have "ns_inputHandler s = createNodeInputHandler inputsCount cd"
    using assms(1) by (auto simp: new_NodeSession_def rbind_Inr_iff)
  then have c: "ih_remainingDependencies (handler_base (ns_inputHandler s)) = inputsCount * prod_list (cd_collapsedSessionSizes cd)"
    "\<not> ih_isUsed (handler_base (ns_inputHandler s))"
    by (simp_all add: new_handler_counter [OF assms(3,2,4)])
  show ?thesis
    using session_handler.ready_when_all_finished [OF assms(5)] assms(3,6) c by (simp add: session_isReady_def)
qed

lemma session_ready_after_all_dependencies_witness:
  "\<exists>s'. deliver (\<lambda>s (n, t, i). session_setInput n t i s) (session_notifyFinishedDependency (createSharedTensor (\<lambda>_ :: unit. 1)))
     \<lparr>ns_metadata = new_NodeSessionMetadata (REST, ConfigStatus), ns_sessionKey = [], ns_nodeName = ''n'',
      ns_inputHandler = createNodeInputHandler 2 \<lparr>cd_collapsedSessionNames = [], cd_collapsedSessionSizes = []\<rparr>\<rparr>
     [Finished, Finished] = Inr s' \<and> session_isReady s'"
proof -
  let ?m = "new_NodeSessionMetadata (REST, ConfigStatus)" and ?cd = "\<lparr>cd_collapsedSessionNames = [], cd_collapsedSessionSizes = []\<rparr>"
  let ?s = "\<lparr>ns_metadata = ?m, ns_sessionKey = [], ns_nodeName = ''n'', ns_inputHandler = createNodeInputHandler 2 ?cd\<rparr> :: unit NodeSession"
  let ?run = "deliver (\<lambda>s (n, t, i). session_setInput n t i s) (session_notifyFinishedDependency (createSharedTensor (\<lambda>_. 1))) ?s"
  have n: "new_NodeSession ?m ''n'' 2 ?cd = Inr ?s"
    by (simp add: new_NodeSession_def getSessionKey_def new_NodeSessionMetadata_def createSessionKey_def)
  obtain s' where s': "?run [Finished, Finished] = Inr s'"
    by (simp add: createNodeInputHandler_def new_NodeInputHandler_def session_notifyFinishedDependency_def
        plain_notifyFinishedDependency_def)
  have "session_isReady s' \<longleftrightarrow> finished [Finished, Finished :: (string \<times> unit TensorWithSource \<times> session_id) handler_event] =
      2 * prod_list (cd_collapsedSessionSizes ?cd)"
    by (rule session_ready_after_all_dependencies [OF n _ _ _ s']) simp_all
  with s' show ?thesis by simp
qed

text \<open>
  C23: A gathering handler that receives, in any order and with notifications in between, every
  shard of every input once, the shards of an input being of one element type and shape, returns
  success on the last notification and then offers for every input one tensor: the collapsed sizes
  followed by the shape of the shards, with the bytes of the shards in the order of their ids.
\<close>

theorem gather_assembles_the_shards:
  fixes es :: "(string \<times> 'p TensorWithSource \<times> session_id) handler_event list"
  assumes "0 < deps * prod_list (cd_collapsedSessionSizes cd)" "deps * prod_list (cd_collapsedSessionSizes cd) < 2 ^ 32" "deps < 2 ^ 32"
    "finished es + 1 = deps * prod_list (cd_collapsedSessionSizes cd)"
    "distinct (map slot (arrivals es))"
    "\<forall>(n, t, i)\<in>set (arrivals es). complete elem_size (prod_list (cd_collapsedSessionSizes cd)) (shards_of n (arrivals es))"
  shows "\<exists>h h'. deliver (\<lambda>h (n, t, i). gather_setInput n t i h)
        (gather_notifyFinishedDependency (createSharedTensor elem_size)) (new_GatherNodeInputHandler deps cd) es = Inr h \<and>
      gather_notifyFinishedDependency (createSharedTensor elem_size) h = Inr (SC_OK, h') \<and> isReady (gh_base h') \<and>
      (\<forall>n. map_of (ih_inputTensors (gh_base h')) n =
        (if n \<in> fst ` set (arrivals es)
         then Some (assembled (cd_collapsedSessionSizes cd) (shards_of n (arrivals es))) else None))"
proof -
  let ?h0 = "new_GatherNodeInputHandler deps cd :: 'p GatherNodeInputHandler" and ?sz = "cd_collapsedSessionSizes cd"
  have r0: "ih_remainingDependencies (gh_base ?h0) = deps * prod_list ?sz" "\<not> ih_isUsed (gh_base ?h0)"
    "gh_collapsingDetails ?h0 = cd" "ih_inputTensors (gh_base ?h0) = []"
    using foldl_mod_prod [OF assms(2)] assms(3) by (simp_all add: new_GatherNodeInputHandler_def new_NodeInputHandler_def)
  have "stores (gh_shardsStorage ?h0) []" by (simp add: new_GatherNodeInputHandler_def stores_def shards_of_def)
  then obtain h where h: "deliver (\<lambda>h (n, t, i). gather_setInput n t i h)
        (gather_notifyFinishedDependency (createSharedTensor elem_size)) ?h0 es = Inr h"
    "stores (gh_shardsStorage h) (arrivals es)" "gh_collapsingDetails h = cd" "ih_inputTensors (gh_base h) = []"
    "\<not> ih_isUsed (gh_base h)" "ih_remainingDependencies (gh_base h) = 1"
    using gather_deliver_stores [of ?h0 "[]" es "createSharedTensor elem_size"] assms(2,4,5) r0 by auto
  have st: "map_of (gh_shardsStorage h) n = (if shards_of n (arrivals es) = [] then None else Some (shards_of n (arrivals es)))"
    "distinct (map fst (gh_shardsStorage h))" for n using h(2) by (simp_all add: stores_def)
  have some: "shards_of n (arrivals es) \<noteq> [] \<longleftrightarrow> n \<in> fst ` set (arrivals es)" for n
    by (force simp: shards_of_def filter_empty_conv)
  have all: "\<forall>(n, shards)\<in>set (gh_shardsStorage h). complete elem_size (prod_list ?sz) shards"
  proof clarify
    fix n shards assume "(n, shards) \<in> set (gh_shardsStorage h)"
    then have "map_of (gh_shardsStorage h) n = Some shards" using st(2) by simp
    then have "shards = shards_of n (arrivals es)" "n \<in> fst ` set (arrivals es)"
      using st(1) [of n] some [of n] by (auto split: if_splits)
    then show "complete elem_size (prod_list ?sz) shards" using assms(6) by auto
  qed
  let ?out = "map (\<lambda>(name, shards). (name, assembled ?sz shards)) (gh_shardsStorage h)"
  have "consolidate (createSharedTensor elem_size) ?sz (gh_shardsStorage h) [] = Inr (SC_OK, [] @ ?out)"
    using assms(1) by (intro consolidate_complete [OF all _ st(2)]) auto
  then have "gather_notifyFinishedDependency (createSharedTensor elem_size) h =
      Inr (SC_OK, h\<lparr>gh_base := (gh_base h)\<lparr>ih_remainingDependencies := 0, ih_inputTensors := ?out\<rparr>\<rparr>)"
    using h(3,4,6) by (simp add: gather_notifyFinishedDependency_def plain_notifyFinishedDependency_def decrement_pos)
  moreover have "map_of ?out n = (if n \<in> fst ` set (arrivals es) then Some (assembled ?sz (shards_of n (arrivals es))) else None)" for n
    by (simp add: map_of_map st(1) some [symmetric])
  ultimately show ?thesis using h(1,5) by (simp add: isReady_def)
qed

definition two_shards :: "(string \<times> unit TensorWithSource \<times> session_id) handler_event list" where
  "two_shards = [SetInput (''x'', (\<lparr>tn_precision = (), tn_shape = [1], tn_data = ''b''\<rparr>, None), 1), Finished,
     SetInput (''x'', (\<lparr>tn_precision = (), tn_shape = [1], tn_data = ''a''\<rparr>, None), 0)]"

lemma gather_assembles_the_shards_witness:
  "\<exists>h h'. deliver (\<lambda>h (n, t, i). gather_setInput n t i h)
        (gather_notifyFinishedDependency (createSharedTensor (\<lambda>_. 1)))
        (new_GatherNodeInputHandler 1 \<lparr>cd_collapsedSessionNames = [''d''], cd_collapsedSessionSizes = [2]\<rparr>) two_shards = Inr h \<and>
      gather_notifyFinishedDependency (createSharedTensor (\<lambda>_. 1)) h = Inr (SC_OK, h') \<and>
      map_of (ih_inputTensors (gh_base h')) ''x'' = Some \<lparr>tn_precision = (), tn_shape = [2, 1], tn_data = ''ab''\<rparr>"
proof -
  let ?cd = "\<lparr>cd_collapsedSessionNames = [''d''], cd_collapsedSessionSizes = [2]\<rparr>"
  have sh: "shards_of ''x'' (arrivals two_shards) =
      [(1, \<lparr>tn_precision = (), tn_shape = [1], tn_data = ''b''\<rparr>), (0, \<lparr>tn_precision = (), tn_shape = [1], tn_data = ''a''\<rparr>)]"
    by (simp add: two_shards_def shards_of_def)
  have c: "complete (\<lambda>_. 1) 2 (shards_of ''x'' (arrivals two_shards))"
    unfolding sh complete_def uniform_def by (auto intro!: exI[of _ "[1]"])
  have a: "assembled [2] (shards_of ''x'' (arrivals two_shards)) = \<lparr>tn_precision = (), tn_shape = [2, 1], tn_data = ''ab''\<rparr>"
    unfolding sh by (simp add: assembled_def numeral_2_eq_2)
  have only: "n = ''x''" if "(n, t, i) \<in> set (arrivals two_shards)" for n t i
    using that by (auto simp: two_shards_def)
  have x: "''x'' \<in> fst ` set (arrivals two_shards)" by (simp add: two_shards_def)
  have "\<exists>h h'. deliver (\<lambda>h (n, t, i). gather_setInput n t i h)
        (gather_notifyFinishedDependency (createSharedTensor (\<lambda>_. 1))) (new_GatherNodeInputHandler 1 ?cd) two_shards = Inr h \<and>
      gather_notifyFinishedDependency (createSharedTensor (\<lambda>_. 1)) h = Inr (SC_OK, h') \<and> isReady (gh_base h') \<and>
      (\<forall>n. map_of (ih_inputTensors (gh_base h')) n =
        (if n \<in> fst ` set (arrivals two_shards)
         then Some (assembled (cd_collapsedSessionSizes ?cd) (shards_of n (arrivals two_shards))) else None))"
  proof (rule gather_assembles_the_shards)
    show "\<forall>(n, t, i)\<in>set (arrivals two_shards).
        complete (\<lambda>_. 1) (prod_list (cd_collapsedSessionSizes ?cd)) (shards_of n (arrivals two_shards))"
      using c only by (auto dest!: only)
  qed (simp_all add: two_shards_def)
  then obtain h h' where f: "deliver (\<lambda>h (n, t, i). gather_setInput n t i h)
        (gather_notifyFinishedDependency (createSharedTensor (\<lambda>_. 1))) (new_GatherNodeInputHandler 1 ?cd) two_shards = Inr h"
      "gather_notifyFinishedDependency (createSharedTensor (\<lambda>_. 1)) h = Inr (SC_OK, h')"
      "\<forall>n. map_of (ih_inputTensors (gh_base h')) n =
        (if n \<in> fst ` set (arrivals two_shards)
         then Some (assembled (cd_collapsedSessionSizes ?cd) (shards_of n (arrivals two_shards))) else None)"
    by blast
  have "map_of (ih_inputTensors (gh_base h')) ''x'' = Some \<lparr>tn_precision = (), tn_shape = [2, 1], tn_data = ''ab''\<rparr>"
    using spec [OF f(3), of "''x''"] x a by simp
  with f(1,2) show ?thesis by blast
qed

text \<open>
  Collapsed metadata always carries the context of a gRPC inference, whatever the context of
  the metadata it is made from.
\<close>

theorem collapse_forgets_the_context:
  "\<exists>c d. getCollapsedSessionMetadata two_levels [''cd''] = Inr (c, d) \<and>
     sm_context two_levels = (REST, ConfigStatus) \<and> sm_context c = (GRPC, ModelInfer)"
proof -
  have "innermost (sm_sessionsLevels two_levels) [''cd'']" by code_simp
  then show ?thesis
    using collapse_value [OF two_levels_wf, of "[''cd'']"]
    by (simp add: two_levels_def new_NodeSessionMetadata_def default_NodeSessionMetadata_def)
qed

end
