(* ===== verification/Stream_Queue.thy ===== *)
theory Stream_Queue
  imports Ovms_Prelude "HOL-Library.Multiset"
begin

text \<open>
  The pool of inference streams (\<open>src/queue.hpp\<close>) shared by concurrent clients, as an interleaving
  of its atomic steps: a step is what a thread does between acquiring and releasing a mutex, split
  again where the other mutex is taken inside. A client is a guard object
  (\<open>src/executingstreamidguard.cpp\<close>, \<open>src/dags/nodestreamidguard.cpp\<close>) that asks for one stream
  and gives it back. Memory is sequentially consistent; the compare-and-swap loop on the back index
  runs under \<open>queue_mutex\<close>, so it is one step. A promise is the number of the client that waits
  for it.
\<close>

section \<open>The queue and its clients\<close>

text \<open>
  Where a client stands: without a stream; about to push its promise, holding \<open>front_mut\<close>; waiting
  on its future; owning a stream; giving one back, holding \<open>queue_mutex\<close> with the slot reserved;
  or about to set the promise it popped.
\<close>

datatype client =
    NoStream
  | BeforePush
  | Waiting
  | Owns int
  | BeforeWrite int nat
  | BeforeSet nat int

record stream_queue =
  q_streams :: "int list"
  q_front_idx :: nat
  q_back_idx :: nat
  q_promises :: "nat list"
  q_front_mut :: "nat option"
  q_queue_mutex :: "nat option"
  q_clients :: "client list"

text \<open>\<open>Queue(streamsLength)\<close> and \<open>m\<close> clients.\<close>

definition new_queue :: "nat \<Rightarrow> nat \<Rightarrow> stream_queue" where
  "new_queue n m =
     \<lparr>q_streams = map int [0..<n], q_front_idx = 0, q_back_idx = 0, q_promises = [],
      q_front_mut = None, q_queue_mutex = None, q_clients = replicate m NoStream\<rparr>"

datatype queue_event =
    GetIdleStream nat
  | PushPromise nat
  | TryToGetIdleStream nat
  | ReturnStream nat
  | WriteSlot nat
  | SetPromise nat

abbreviation blocked :: "exn + 'a" where
  "blocked \<equiv> Inl (LogicError ''not enabled'')"

definition set_client :: "nat \<Rightarrow> client \<Rightarrow> stream_queue \<Rightarrow> stream_queue" where
  "set_client t c q = q\<lparr>q_clients := (q_clients q)[t := c]\<rparr>"

definition client_is :: "nat \<Rightarrow> client \<Rightarrow> stream_queue \<Rightarrow> bool" where
  "client_is t c q \<longleftrightarrow> t < length (q_clients q) \<and> q_clients q ! t = c"

text \<open>The front slot is taken and marked.\<close>

definition take_front :: "nat \<Rightarrow> stream_queue \<Rightarrow> stream_queue" where
  "take_front t q =
     set_client t (Owns (q_streams q ! q_front_idx q))
       (q\<lparr>q_streams := (q_streams q)[q_front_idx q := -1],
          q_front_idx := (q_front_idx q + 1) mod length (q_streams q)\<rparr>)"

text \<open>\<open>getIdleStream\<close> up to the release of \<open>front_mut\<close>, or up to waiting for \<open>queue_mutex\<close>.\<close>

definition getIdleStream :: "nat \<Rightarrow> stream_queue \<Rightarrow> stream_queue result" where
  "getIdleStream t q =
     (if \<not> client_is t NoStream q \<or> q_front_mut q \<noteq> None then blocked
      else if q_streams q ! q_front_idx q < 0
      then Inr (set_client t BeforePush (q\<lparr>q_front_mut := Some t\<rparr>))
      else Inr (take_front t q))"

definition push_promise :: "nat \<Rightarrow> stream_queue \<Rightarrow> stream_queue result" where
  "push_promise t q =
     (if \<not> client_is t BeforePush q \<or> q_queue_mutex q \<noteq> None then blocked
      else Inr (set_client t Waiting (q\<lparr>q_promises := q_promises q @ [t], q_front_mut := None\<rparr>)))"

definition tryToGetIdleStream :: "nat \<Rightarrow> stream_queue \<Rightarrow> stream_queue result" where
  "tryToGetIdleStream t q =
     (if \<not> client_is t NoStream q \<or> q_front_mut q \<noteq> None then blocked
      else if q_streams q ! q_front_idx q < 0 then Inr q
      else Inr (take_front t q))"

text \<open>
  \<open>returnStream\<close> up to the release of \<open>queue_mutex\<close>, or up to the write of the slot; then the write,
  or the fulfilment of the promise.
\<close>

definition returnStream :: "nat \<Rightarrow> stream_queue \<Rightarrow> stream_queue result" where
  "returnStream t q =
     (if length (q_clients q) \<le> t \<or> q_queue_mutex q \<noteq> None then blocked
      else case q_clients q ! t of
             Owns v \<Rightarrow>
               (case q_promises q of
                  p # ps \<Rightarrow> Inr (set_client t (BeforeSet p v) (q\<lparr>q_promises := ps\<rparr>))
                | [] \<Rightarrow> Inr (set_client t (BeforeWrite v (q_back_idx q))
                               (q\<lparr>q_queue_mutex := Some t,
                                  q_back_idx := (q_back_idx q + 1) mod length (q_streams q)\<rparr>)))
           | _ \<Rightarrow> blocked)"

definition write_slot :: "nat \<Rightarrow> stream_queue \<Rightarrow> stream_queue result" where
  "write_slot t q =
     (if length (q_clients q) \<le> t then blocked
      else case q_clients q ! t of
             BeforeWrite v old \<Rightarrow>
               Inr (set_client t NoStream (q\<lparr>q_streams := (q_streams q)[old := v], q_queue_mutex := None\<rparr>))
           | _ \<Rightarrow> blocked)"

definition set_promise :: "nat \<Rightarrow> stream_queue \<Rightarrow> stream_queue result" where
  "set_promise t q =
     (if length (q_clients q) \<le> t then blocked
      else case q_clients q ! t of
             BeforeSet p v \<Rightarrow> Inr (set_client p (Owns v) (set_client t NoStream q))
           | _ \<Rightarrow> blocked)"

fun queue_step :: "stream_queue \<Rightarrow> queue_event \<Rightarrow> stream_queue result" where
  "queue_step q (GetIdleStream t) = getIdleStream t q"
| "queue_step q (PushPromise t) = push_promise t q"
| "queue_step q (TryToGetIdleStream t) = tryToGetIdleStream t q"
| "queue_step q (ReturnStream t) = returnStream t q"
| "queue_step q (WriteSlot t) = write_slot t q"
| "queue_step q (SetPromise t) = set_promise t q"

section \<open>The guard of a pipeline node\<close>

text \<open>
  \<open>NodeStreamIdGuard\<close>: the future is valid until its value is taken; a call gets the value the
  queue has set by the time it looks, if any. The list collects the returned streams.
\<close>

record stream_guard =
  g_futureStreamId :: bool
  g_streamId :: "int option"
  g_disarmed :: bool
  g_returned :: "int list"

definition new_guard :: stream_guard where
  "new_guard = \<lparr>g_futureStreamId = True, g_streamId = None, g_disarmed = False, g_returned = []\<rparr>"

abbreviation no_state :: "exn + 'a" where
  "no_state \<equiv> Inl (LogicError ''std::future_error: No associated state'')"

definition guard_tryGetId :: "int option \<Rightarrow> stream_guard \<Rightarrow> (int option \<times> stream_guard) result" where
  "guard_tryGetId ready g =
     (case g_streamId g of
        Some i \<Rightarrow> Inr (Some i, g)
      | None \<Rightarrow>
          if \<not> g_futureStreamId g then no_state
          else case ready of
                 None \<Rightarrow> Inr (None, g)
               | Some v \<Rightarrow> Inr (Some v, g\<lparr>g_streamId := Some v, g_futureStreamId := False\<rparr>))"

definition guard_tryDisarm :: "int option \<Rightarrow> stream_guard \<Rightarrow> (bool \<times> stream_guard) result" where
  "guard_tryDisarm ready g =
     (if \<not> g_futureStreamId g then no_state
      else case ready of
             None \<Rightarrow> Inr (g_disarmed g, g)
           | Some v \<Rightarrow> Inr (True, g\<lparr>g_streamId := Some v, g_futureStreamId := False,
                                   g_returned := g_returned g @ [v], g_disarmed := True\<rparr>))"

text \<open>The destructor waits for the value \<open>v\<close>.\<close>

definition guard_destroy :: "int \<Rightarrow> stream_guard \<Rightarrow> stream_guard result" where
  "guard_destroy v g =
     (if g_disarmed g then Inr g
      else case g_streamId g of
             Some i \<Rightarrow> Inr (g\<lparr>g_returned := g_returned g @ [i]\<rparr>)
           | None \<Rightarrow>
               if \<not> g_futureStreamId g then no_state
               else Inr (g\<lparr>g_streamId := Some v, g_futureStreamId := False, g_returned := g_returned g @ [v]\<rparr>))"

section \<open>The ring as a list of idle streams\<close>

definition client_streams :: "client \<Rightarrow> int list" where
  "client_streams c =
     (case c of Owns v \<Rightarrow> [v] | BeforeWrite v _ \<Rightarrow> [v] | BeforeSet _ v \<Rightarrow> [v] | _ \<Rightarrow> [])"

text \<open>All streams that are with clients.\<close>

definition taken :: "stream_queue \<Rightarrow> int list" where
  "taken q = concat (map client_streams (q_clients q))"

text \<open>
  Read from the front, the slots hold the idle streams, then marks; a slot that is reserved for a
  write is the next one.
\<close>

definition ring :: "stream_queue \<Rightarrow> int list \<Rightarrow> bool" where
  "ring q idle \<longleftrightarrow>
     0 < length (q_streams q) \<and> q_front_idx q < length (q_streams q) \<and> list_all (\<lambda>v. 0 \<le> v) idle \<and>
     length idle \<le> length (q_streams q) \<and>
     rotate (q_front_idx q) (q_streams q) = idle @ replicate (length (q_streams q) - length idle) (-1)"

definition next_slot :: "stream_queue \<Rightarrow> int list \<Rightarrow> nat" where
  "next_slot q idle = (q_front_idx q + length idle) mod length (q_streams q)"

definition client_target :: "client \<Rightarrow> nat list" where
  "client_target c = (case c of BeforeSet p _ \<Rightarrow> [p] | _ \<Rightarrow> [])"

text \<open>The holders of the mutexes, the reserved slot and the promises.\<close>

definition locks_ok :: "stream_queue \<Rightarrow> int list \<Rightarrow> bool" where
  "locks_ok q idle \<longleftrightarrow>
     (\<forall>t v old. client_is t (BeforeWrite v old) q \<longrightarrow>
        q_queue_mutex q = Some t \<and> old = next_slot q idle \<and> q_back_idx q = (old + 1) mod length (q_streams q)) \<and>
     (case q_queue_mutex q of None \<Rightarrow> q_back_idx q = next_slot q idle
                            | Some t \<Rightarrow> \<exists>v old. client_is t (BeforeWrite v old) q) \<and>
     (\<forall>t. client_is t BeforePush q \<longleftrightarrow> q_front_mut q = Some t)"

text \<open>The clients some promise is for.\<close>

definition awaited :: "stream_queue \<Rightarrow> nat multiset" where
  "awaited q = mset (q_promises q) + mset (concat (map client_target (q_clients q)))"

definition promises_ok :: "stream_queue \<Rightarrow> bool" where
  "promises_ok q \<longleftrightarrow> (\<forall>p. count (awaited q) p = (if client_is p Waiting q then 1 else 0))"

definition queue_inv :: "nat \<Rightarrow> stream_queue \<Rightarrow> bool" where
  "queue_inv n q \<longleftrightarrow> length (q_streams q) = n \<and>
     (\<exists>idle. ring q idle \<and> locks_ok q idle \<and> mset (idle @ taken q) = mset (map int [0..<n])) \<and> promises_ok q"

lemma set_client_simps [simp]:
  "q_streams (set_client t c q) = q_streams q" "q_front_idx (set_client t c q) = q_front_idx q"
  "q_back_idx (set_client t c q) = q_back_idx q" "q_promises (set_client t c q) = q_promises q"
  "q_front_mut (set_client t c q) = q_front_mut q" "q_queue_mutex (set_client t c q) = q_queue_mutex q"
  "length (q_clients (set_client t c q)) = length (q_clients q)"
  by (simp_all add: set_client_def)

lemma ring_set_client [simp]: "ring (set_client t c q) idle = ring q idle"
  "next_slot (set_client t c q) idle = next_slot q idle"
  by (simp_all add: ring_def next_slot_def)

lemma client_is_set_client [simp]:
  "client_is u c' (set_client t c q) \<longleftrightarrow> (if u = t then u < length (q_clients q) \<and> c' = c else client_is u c' q)"
  by (auto simp: client_is_def set_client_def)

lemma client_is_update [simp]:
  "client_is t c (q\<lparr>q_streams := a\<rparr>) = client_is t c q" "client_is t c (q\<lparr>q_front_idx := i\<rparr>) = client_is t c q"
  "client_is t c (q\<lparr>q_back_idx := i\<rparr>) = client_is t c q" "client_is t c (q\<lparr>q_promises := ps\<rparr>) = client_is t c q"
  "client_is t c (q\<lparr>q_front_mut := o1\<rparr>) = client_is t c q" "client_is t c (q\<lparr>q_queue_mutex := o2\<rparr>) = client_is t c q"
  by (simp_all add: client_is_def)

lemma mset_concat_update:
  "t < length xs \<Longrightarrow>
     mset (concat (map f (xs[t := c]))) + mset (f (xs ! t)) = mset (concat (map f xs)) + mset (f c)"
proof (induction xs arbitrary: t)
  case (Cons x xs)
  then show ?case by (cases t) (auto simp: union_ac)
qed simp

lemma taken_set_client:
  "client_is t old q \<Longrightarrow>
     mset (taken (set_client t c q)) + mset (client_streams old) = mset (taken q) + mset (client_streams c)"
  using mset_concat_update [of t "q_clients q" client_streams c]
  by (auto simp: taken_def set_client_def client_is_def)

lemma awaited_set_client:
  "client_is t old q \<Longrightarrow>
     awaited (set_client t c q) + mset (client_target old) = awaited q + mset (client_target c)"
  using mset_concat_update [of t "q_clients q" client_target c]
  by (auto simp: awaited_def set_client_def client_is_def ac_simps)

subsection \<open>Rotation\<close>

lemma mod_once: "a < 2 * n \<Longrightarrow> a mod n = (if a < n then a else a - n)" for a n :: nat
  by (simp add: mod_if [of a])

lemma rotate_update:
  assumes "k < length xs" "i < length xs"
  shows "rotate k (xs[(k + i) mod length xs := v]) = (rotate k xs)[i := v]"
proof (rule nth_equalityI)
  fix j assume j: "j < length (rotate k (xs[(k + i) mod length xs := v]))"
  have inj: "(k + j) mod length xs = (k + i) mod length xs \<longleftrightarrow> j = i"
    using j assms by (subst (1 2) mod_once) (auto split: if_splits)
  have bound: "(k + i) mod length xs < length xs" using assms by (intro mod_less_divisor) linarith
  show "rotate k (xs[(k + i) mod length xs := v]) ! j = (rotate k xs)[i := v] ! j"
    using j assms inj bound by (auto simp: nth_rotate nth_list_update)
qed simp

lemma ring_front:
  assumes "ring q idle"
  shows "q_streams q ! q_front_idx q = (case idle of [] \<Rightarrow> -1 | v # _ \<Rightarrow> v)"
proof -
  let ?n = "length (q_streams q)"
  have n: "0 < ?n" "q_front_idx q < ?n" using assms by (simp_all add: ring_def)
  have "q_streams q ! q_front_idx q = rotate (q_front_idx q) (q_streams q) ! 0"
    using n by (simp add: nth_rotate)
  also have "\<dots> = (idle @ replicate (?n - length idle) (-1)) ! 0" using assms by (simp add: ring_def)
  finally show ?thesis using n by (cases idle) auto
qed

lemma ring_take_front:
  assumes "ring q (v # idle)"
  shows "ring (take_front t q) idle \<and> next_slot (take_front t q) idle = next_slot q (v # idle)"
proof -
  let ?n = "length (q_streams q)" and ?f = "q_front_idx q"
  have r: "0 < ?n" "?f < ?n" "list_all (\<lambda>v. 0 \<le> v) idle" "Suc (length idle) \<le> ?n"
    "rotate ?f (q_streams q) = (v # idle) @ replicate (?n - Suc (length idle)) (-1)"
    using assms by (simp_all add: ring_def)
  have "rotate ((?f + 1) mod ?n) ((q_streams q)[?f := -1]) = rotate1 (rotate ?f ((q_streams q)[?f := -1]))"
    by (metis Suc_eq_plus1 length_list_update rotate_Suc rotate_conv_mod)
  also have "rotate ?f ((q_streams q)[?f := -1]) = (rotate ?f (q_streams q))[0 := -1]"
    using rotate_update [OF r(2) r(1), of "-1"] r(2) by simp
  also have "\<dots> = (-1) # idle @ replicate (?n - Suc (length idle)) (-1)" using r(5) by simp
  also have "rotate1 \<dots> = idle @ replicate (?n - length idle) (-1)"
  proof -
    have "?n - length idle = Suc (?n - Suc (length idle))" using r(4) by simp
    then show ?thesis by (simp add: replicate_append_same)
  qed
  finally have "rotate ((?f + 1) mod ?n) ((q_streams q)[?f := -1]) = idle @ replicate (?n - length idle) (-1)" .
  then show ?thesis
    using r by (simp add: ring_def take_front_def next_slot_def mod_add_left_eq)
qed

lemma ring_write:
  assumes "ring q idle" "length idle < length (q_streams q)" "0 \<le> v"
  shows "ring (q\<lparr>q_streams := (q_streams q)[next_slot q idle := v]\<rparr>) (idle @ [v])"
proof -
  let ?n = "length (q_streams q)" and ?f = "q_front_idx q"
  have r: "0 < ?n" "?f < ?n" "list_all (\<lambda>v. 0 \<le> v) idle"
    "rotate ?f (q_streams q) = idle @ replicate (?n - length idle) (-1)"
    using assms by (simp_all add: ring_def)
  have "rotate ?f ((q_streams q)[next_slot q idle := v]) = (rotate ?f (q_streams q))[length idle := v]"
    unfolding next_slot_def by (rule rotate_update [OF r(2) assms(2)])
  also have "\<dots> = idle @ (replicate (?n - length idle) (-1))[0 := v]" using r(4) by (simp add: list_update_append)
  also have "(replicate (?n - length idle) (-1))[0 := v] = v # replicate (?n - Suc (length idle)) (-1)"
    using assms(2) by (cases "?n - length idle") auto
  finally show ?thesis using r assms by (simp add: ring_def)
qed

section \<open>The invariant\<close>

definition inv_with :: "nat \<Rightarrow> stream_queue \<Rightarrow> int list \<Rightarrow> bool" where
  "inv_with n q idle \<longleftrightarrow> length (q_streams q) = n \<and> ring q idle \<and> locks_ok q idle \<and>
     mset idle + mset (taken q) = mset (map int [0..<n]) \<and> promises_ok q"

lemma queue_inv_iff: "queue_inv n q \<longleftrightarrow> (\<exists>idle. inv_with n q idle)"
  by (auto simp: queue_inv_def inv_with_def)

lemma client_is_eq: "client_is t a q \<Longrightarrow> client_is t b q \<longleftrightarrow> b = a"
  by (auto simp: client_is_def)

lemma front_lock: "locks_ok q idle \<Longrightarrow> q_front_mut q = Some u \<longleftrightarrow> client_is u BeforePush q"
  by (simp add: locks_ok_def)

lemma writer:
  "locks_ok q idle \<Longrightarrow> client_is t (BeforeWrite v old) q \<Longrightarrow>
     q_queue_mutex q = Some t \<and> old = next_slot q idle \<and> q_back_idx q = (old + 1) mod length (q_streams q)"
  by (simp add: locks_ok_def)

text \<open>A step of a client that neither starts nor ends a write.\<close>

lemma locks_step:
  assumes "locks_ok q idle" "client_is t old q"
    and cl: "\<And>u c'. client_is u c' q' \<longleftrightarrow> (if u = t then c' = c else client_is u c' q)"
    and "\<And>v i. old \<noteq> BeforeWrite v i" "\<And>v i. c \<noteq> BeforeWrite v i"
    and same: "q_back_idx q' = q_back_idx q" "q_queue_mutex q' = q_queue_mutex q" "next_slot q' idle' = next_slot q idle"
      "length (q_streams q') = length (q_streams q)"
    and front: "\<And>u. client_is u BeforePush q' \<longleftrightarrow> q_front_mut q' = Some u"
  shows "locks_ok q' idle'"
proof -
  have "client_is u (BeforeWrite v i) q' \<longleftrightarrow> client_is u (BeforeWrite v i) q" for u v i
    using assms(2,4,5) client_is_eq [OF assms(2)] by (auto simp: cl)
  then show ?thesis using assms(1) front by (cases "q_queue_mutex q") (simp_all add: locks_ok_def same)
qed

lemma promises_set_client:
  assumes "promises_ok q" "client_is t old q" "old \<noteq> Waiting" "c \<noteq> Waiting" "client_target old = client_target c"
  shows "promises_ok (set_client t c q)"
proof -
  have "awaited (set_client t c q) = awaited q"
    using awaited_set_client [OF assms(2), of c] assms(5) by simp
  moreover have "client_is p Waiting (set_client t c q) = client_is p Waiting q" for p
    using assms(2,3,4) client_is_eq [OF assms(2)] by auto
  ultimately show ?thesis using assms(1) by (simp add: promises_ok_def)
qed

lemma promises_ok_update [simp]:
  "promises_ok (q\<lparr>q_streams := a\<rparr>) = promises_ok q" "promises_ok (q\<lparr>q_front_idx := i\<rparr>) = promises_ok q"
  "promises_ok (q\<lparr>q_back_idx := i\<rparr>) = promises_ok q"
  "promises_ok (q\<lparr>q_front_mut := o1\<rparr>) = promises_ok q" "promises_ok (q\<lparr>q_queue_mutex := o2\<rparr>) = promises_ok q"
  by (simp_all add: promises_ok_def awaited_def)

lemma taken_update [simp]:
  "taken (q\<lparr>q_streams := a\<rparr>) = taken q" "taken (q\<lparr>q_front_idx := i\<rparr>) = taken q"
  "taken (q\<lparr>q_back_idx := i\<rparr>) = taken q" "taken (q\<lparr>q_promises := ps\<rparr>) = taken q"
  "taken (q\<lparr>q_front_mut := o1\<rparr>) = taken q" "taken (q\<lparr>q_queue_mutex := o2\<rparr>) = taken q"
  by (simp_all add: taken_def)

lemma take_front_inv:
  assumes "inv_with n q idle" "client_is t NoStream q" "q_front_mut q = None" "\<not> q_streams q ! q_front_idx q < 0"
  obtains v rest where "idle = v # rest" "inv_with n (take_front t q) rest"
    "client_is t (Owns v) (take_front t q)"
proof -
  have r: "ring q idle" using assms(1) by (simp add: inv_with_def)
  then obtain v rest where idle: "idle = v # rest" using ring_front [OF r] assms(4) by (cases idle) auto
  then have v: "q_streams q ! q_front_idx q = v" using ring_front [OF r] by simp
  note tf = ring_take_front [OF r [unfolded idle], of t]
  have loc: "q_back_idx (take_front t q) = q_back_idx q" "q_queue_mutex (take_front t q) = q_queue_mutex q"
    "q_front_mut (take_front t q) = q_front_mut q" "length (q_streams (take_front t q)) = length (q_streams q)"
    by (simp_all add: take_front_def)
  have cl: "client_is u c (take_front t q) \<longleftrightarrow> (if u = t then c = Owns v else client_is u c q)" for u c
    using assms(2) v by (auto simp: take_front_def client_is_def set_client_def)
  have lk: "locks_ok q idle" using assms(1) by (simp add: inv_with_def)
  have "client_is u BeforePush (take_front t q) \<longleftrightarrow> q_front_mut (take_front t q) = Some u" for u
    using lk assms(2,3) by (auto simp: locks_ok_def loc cl client_is_eq)
  then have "locks_ok (take_front t q) rest"
    using tf by (intro locks_step [OF lk assms(2) cl]) (simp_all add: loc idle)
  moreover have "mset (taken (take_front t q)) = mset (taken q) + {#v#}"
    using taken_set_client [of t NoStream "q\<lparr>q_streams := (q_streams q)[q_front_idx q := -1],
          q_front_idx := (q_front_idx q + 1) mod length (q_streams q)\<rparr>" "Owns v"] assms(2) v
    by (simp add: take_front_def client_streams_def)
  moreover have "promises_ok (take_front t q)"
    unfolding take_front_def v using assms(1,2)
    by (intro promises_set_client [of _ t NoStream]) (auto simp: inv_with_def client_target_def)
  ultimately have "inv_with n (take_front t q) rest"
    using assms(1) tf idle loc by (simp add: inv_with_def ac_simps)
  moreover have "client_is t (Owns v) (take_front t q)" by (simp add: cl)
  ultimately show thesis using that idle by blast
qed

lemma getIdleStream_inv:
  assumes "inv_with n q idle" "getIdleStream t q = Inr q'"
  shows "queue_inv n q'"
proof (cases "q_streams q ! q_front_idx q < 0")
  case True
  then have q': "q' = set_client t BeforePush (q\<lparr>q_front_mut := Some t\<rparr>)"
    and c: "client_is t NoStream q" "q_front_mut q = None"
    using assms(2) by (auto simp: getIdleStream_def split: if_splits)
  have "mset (taken q') = mset (taken q)"
    using taken_set_client [of t NoStream "q\<lparr>q_front_mut := Some t\<rparr>" BeforePush] c by (simp add: q' client_streams_def)
  moreover have "promises_ok q'"
    unfolding q' using assms(1) c
    by (intro promises_set_client [of _ t NoStream]) (auto simp: inv_with_def client_target_def)
  moreover have "locks_ok q' idle"
  proof (rule locks_step [OF _ c(1)])
    show "locks_ok q idle" using assms(1) by (simp add: inv_with_def)
    then show "client_is u BeforePush q' \<longleftrightarrow> q_front_mut q' = Some u" for u
      using c client_is_eq [OF c(1)] by (auto simp: locks_ok_def q') (auto simp: client_is_def)
    show "client_is u c' q' \<longleftrightarrow> (if u = t then c' = BeforePush else client_is u c' q)" for u c'
      using c(1) by (simp add: q') (simp add: client_is_def)
  qed (use c in \<open>simp_all add: q' next_slot_def\<close>)
  ultimately have "inv_with n q' idle" using assms(1) by (simp add: inv_with_def q' ring_def)
  then show ?thesis by (auto simp: queue_inv_iff)
next
  case False
  then have "q' = take_front t q" "client_is t NoStream q" "q_front_mut q = None"
    using assms(2) by (auto simp: getIdleStream_def split: if_splits)
  then show ?thesis using take_front_inv [OF assms(1) _ _ False] by (metis queue_inv_iff)
qed

lemma tryToGetIdleStream_inv:
  assumes "inv_with n q idle" "tryToGetIdleStream t q = Inr q'"
  shows "queue_inv n q'"
proof (cases "q_streams q ! q_front_idx q < 0")
  case True
  then show ?thesis using assms by (auto simp: tryToGetIdleStream_def queue_inv_iff split: if_splits)
next
  case False
  then have "q' = take_front t q" "client_is t NoStream q" "q_front_mut q = None"
    using assms(2) by (auto simp: tryToGetIdleStream_def split: if_splits)
  then show ?thesis using take_front_inv [OF assms(1) _ _ False] by (metis queue_inv_iff)
qed

lemma push_promise_inv:
  assumes "inv_with n q idle" "push_promise t q = Inr q'"
  shows "queue_inv n q'"
proof -
  have q': "q' = set_client t Waiting (q\<lparr>q_promises := q_promises q @ [t], q_front_mut := None\<rparr>)"
    and c: "client_is t BeforePush q" "q_queue_mutex q = None"
    using assms(2) by (auto simp: push_promise_def split: if_splits)
  have fm: "q_front_mut q = Some t" using assms(1) c(1) by (auto simp: inv_with_def locks_ok_def)
  have "mset (taken q') = mset (taken q)"
    using taken_set_client [of t BeforePush "q\<lparr>q_promises := q_promises q @ [t], q_front_mut := None\<rparr>" Waiting] c
    by (simp add: q' client_streams_def)
  moreover have "promises_ok q'"
  proof -
    have "awaited q' = awaited q + {#t#}"
      using awaited_set_client [of t BeforePush "q\<lparr>q_promises := q_promises q @ [t], q_front_mut := None\<rparr>" Waiting] c
      by (simp add: q' client_target_def) (simp add: awaited_def)
    moreover have "\<not> client_is t Waiting q" "t < length (q_clients q)" using c(1) by (auto simp: client_is_def)
    moreover have "promises_ok q" using assms(1) by (simp add: inv_with_def)
    ultimately show ?thesis unfolding promises_ok_def by (simp add: q')
  qed
  moreover have "locks_ok q' idle"
  proof (rule locks_step [OF _ c(1)])
    show "locks_ok q idle" using assms(1) by (simp add: inv_with_def)
    then show "client_is u BeforePush q' \<longleftrightarrow> q_front_mut q' = Some u" for u
      using c fm by (auto simp: locks_ok_def q')
    show "client_is u c' q' \<longleftrightarrow> (if u = t then c' = Waiting else client_is u c' q)" for u c'
      using c(1) by (simp add: q') (simp add: client_is_def)
  qed (use c in \<open>simp_all add: q' next_slot_def\<close>)
  ultimately have "inv_with n q' idle" using assms(1) by (simp add: inv_with_def q' ring_def)
  then show ?thesis by (auto simp: queue_inv_iff)
qed

lemma set_client_back [simp]:
  "set_client t a (q\<lparr>q_queue_mutex := m, q_back_idx := b\<rparr>) = (set_client t a q)\<lparr>q_queue_mutex := m, q_back_idx := b\<rparr>"
  by (simp add: set_client_def)

text \<open>There is room for the stream a client owns.\<close>

lemma room:
  assumes "inv_with n q idle" "v \<in># mset (taken q)"
  shows "length idle < n \<and> 0 \<le> v"
proof -
  have m: "mset idle + mset (taken q) = mset (map int [0..<n])" using assms(1) by (simp add: inv_with_def)
  then have "length idle + length (taken q) = n" by (metis diff_zero length_map length_upt size_mset size_union)
  moreover have "0 < length (taken q)" using assms(2) by (cases "taken q") auto
  moreover have "v \<in># mset (map int [0..<n])" using assms(2) m by (metis union_iff)
  ultimately show ?thesis by auto
qed

lemma client_stream_taken:
  "client_is t c q \<Longrightarrow> v \<in> set (client_streams c) \<Longrightarrow> v \<in># mset (taken q)"
  by (auto simp: taken_def client_is_def)

lemma returnStream_inv:
  assumes "inv_with n q idle" "returnStream t q = Inr q'"
  shows "queue_inv n q'"
proof -
  obtain v where c: "client_is t (Owns v) q" "q_queue_mutex q = None"
    using assms(2) by (auto simp: returnStream_def client_is_def split: if_splits client.splits)
  have lk: "locks_ok q idle" and pr: "promises_ok q" using assms(1) by (simp_all add: inv_with_def)
  show ?thesis
  proof (cases "q_promises q")
    case (Cons p ps)
    then have q': "q' = set_client t (BeforeSet p v) (q\<lparr>q_promises := ps\<rparr>)"
      using assms(2) c by (auto simp: returnStream_def client_is_def split: if_splits)
    have "mset (taken q') = mset (taken q)"
      using taken_set_client [of t "Owns v" "q\<lparr>q_promises := ps\<rparr>" "BeforeSet p v"] c by (simp add: q' client_streams_def)
    moreover have "promises_ok q'"
    proof -
      have "awaited q' = awaited q"
        using awaited_set_client [of t "Owns v" "q\<lparr>q_promises := ps\<rparr>" "BeforeSet p v"] c Cons
        by (simp add: q' client_target_def) (simp add: awaited_def)
      moreover have "client_is u Waiting q' = client_is u Waiting q" for u
        using client_is_eq [OF c(1)] by (auto simp: q')
      ultimately show ?thesis using pr by (simp add: promises_ok_def)
    qed
    moreover have "locks_ok q' idle"
    proof (rule locks_step [OF lk c(1)])
      show "client_is u BeforePush q' \<longleftrightarrow> q_front_mut q' = Some u" for u
        by (auto simp: q' front_lock [OF lk] client_is_eq [OF c(1)])
      show "client_is u c' q' \<longleftrightarrow> (if u = t then c' = BeforeSet p v else client_is u c' q)" for u c'
        using c(1) by (simp add: q') (simp add: client_is_def)
    qed (simp_all add: q' next_slot_def)
    ultimately have "inv_with n q' idle" using assms(1) by (simp add: inv_with_def q' ring_def)
    then show ?thesis by (auto simp: queue_inv_iff)
  next
    case Nil
    then have q': "q' = (set_client t (BeforeWrite v (q_back_idx q)) q)
        \<lparr>q_queue_mutex := Some t, q_back_idx := (q_back_idx q + 1) mod length (q_streams q)\<rparr>"
      using assms(2) c by (auto simp: returnStream_def client_is_def split: if_splits)
    have bk: "q_back_idx q = next_slot q idle" using lk c(2) by (simp add: locks_ok_def)
    have none: "\<not> client_is u (BeforeWrite w i) q" for u w i using writer [OF lk] c(2) by auto
    have t: "t < length (q_clients q)" using c(1) by (simp add: client_is_def)
    have wr: "client_is u (BeforeWrite w i) q' \<longleftrightarrow> u = t \<and> w = v \<and> i = q_back_idx q" for u w i
      using none t by (auto simp: q')
    have "client_is u BeforePush q' \<longleftrightarrow> q_front_mut q' = Some u" for u
      by (auto simp: q' front_lock [OF lk] client_is_eq [OF c(1)])
    moreover have "q_queue_mutex q' = Some t" "q_back_idx q = next_slot q' idle"
      "q_back_idx q' = (q_back_idx q + 1) mod length (q_streams q')"
      using bk by (simp_all add: q' next_slot_def)
    ultimately have "locks_ok q' idle" unfolding locks_ok_def wr by simp
    moreover have "mset (taken q') = mset (taken q)"
      using taken_set_client [OF c(1), of "BeforeWrite v (q_back_idx q)"] by (simp add: q' client_streams_def)
    moreover have "promises_ok q'"
      unfolding q' using pr c(1)
      by (simp, intro promises_set_client [of _ t "Owns v"]) (auto simp: client_target_def)
    ultimately have "inv_with n q' idle" using assms(1) by (simp add: inv_with_def q' ring_def)
    then show ?thesis by (auto simp: queue_inv_iff)
  qed
qed

lemma write_slot_inv:
  assumes "inv_with n q idle" "write_slot t q = Inr q'"
  shows "queue_inv n q'"
proof -
  obtain v old where c: "client_is t (BeforeWrite v old) q"
    and q': "q' = set_client t NoStream (q\<lparr>q_streams := (q_streams q)[old := v], q_queue_mutex := None\<rparr>)"
    using assms(2) by (auto simp: write_slot_def client_is_def split: if_splits client.splits)
  have lk: "locks_ok q idle" and pr: "promises_ok q" and n: "length (q_streams q) = n"
    using assms(1) by (simp_all add: inv_with_def)
  have m: "q_queue_mutex q = Some t" "old = next_slot q idle" "q_back_idx q = (old + 1) mod n"
    using writer [OF lk c] n by simp_all
  have r: "length idle < n" "0 \<le> v"
    using room [OF assms(1)] client_stream_taken [OF c, of v] by (auto simp: client_streams_def)
  have ring: "ring (q\<lparr>q_streams := (q_streams q)[old := v]\<rparr>) (idle @ [v])"
    unfolding m(2) using assms(1) r n by (intro ring_write) (simp_all add: inv_with_def)
  have only: "u = t" if "client_is u (BeforeWrite w i) q" for u w i
    using writer [OF lk that] m(1) by simp
  have gave: "mset (taken q') + {#v#} = mset (taken q)"
    using taken_set_client [of t "BeforeWrite v old" "q\<lparr>q_streams := (q_streams q)[old := v], q_queue_mutex := None\<rparr>" NoStream] c
    by (simp add: q' client_streams_def)
  moreover have "promises_ok q'"
    unfolding q' using pr c
    by (intro promises_set_client [of _ t "BeforeWrite v old"]) (auto simp: client_target_def)
  moreover have "locks_ok q' (idle @ [v])"
  proof -
    have "next_slot q' (idle @ [v]) = q_back_idx q'"
      using m(2,3) n by (simp add: q' next_slot_def mod_Suc_eq)
    moreover have "\<not> client_is u (BeforeWrite w i) q'" for u w i using only [of u w i] by (auto simp: q')
    moreover have "client_is u BeforePush q' \<longleftrightarrow> q_front_mut q' = Some u" for u
      by (auto simp: q' front_lock [OF lk] client_is_eq [OF c])
    moreover have "q_queue_mutex q' = None" by (simp add: q')
    ultimately show ?thesis by (simp add: locks_ok_def)
  qed
  moreover have "mset (idle @ [v]) + mset (taken q') = mset (map int [0..<n])"
  proof -
    have "mset (idle @ [v]) + mset (taken q') = mset idle + (mset (taken q') + {#v#})" by simp
    also have "\<dots> = mset idle + mset (taken q)" by (simp only: gave)
    also have "\<dots> = mset (map int [0..<n])" using assms(1) unfolding inv_with_def by blast
    finally show ?thesis .
  qed
  ultimately have "inv_with n q' (idle @ [v])"
    using assms(1) ring n by (simp add: inv_with_def q' ring_def)
  then show ?thesis by (auto simp: queue_inv_iff)
qed

lemma set_promise_inv:
  assumes "inv_with n q idle" "set_promise t q = Inr q'"
  shows "queue_inv n q'"
proof -
  obtain p v where c: "client_is t (BeforeSet p v) q"
    and q': "q' = set_client p (Owns v) (set_client t NoStream q)"
    using assms(2) by (auto simp: set_promise_def client_is_def split: if_splits client.splits)
  let ?q = "set_client t NoStream q"
  have lk: "locks_ok q idle" and pr: "promises_ok q" using assms(1) by (simp_all add: inv_with_def)
  have aw: "awaited ?q + {#p#} = awaited q"
    using awaited_set_client [OF c, of NoStream] by (simp add: client_target_def)
  then have "0 < count (awaited q) p" by (metis count_add_mset add_mset_add_single zero_less_Suc)
  then have w: "client_is p Waiting q" using pr by (auto simp: promises_ok_def split: if_splits)
  then have neq: "p \<noteq> t" using client_is_eq [OF c] by auto
  then have w': "client_is p Waiting ?q" using w by simp
  have "mset (taken q') = mset (taken q)"
    using taken_set_client [OF w', of "Owns v"] taken_set_client [OF c, of NoStream]
    by (simp add: q' client_streams_def)
  moreover have "promises_ok q'"
  proof -
    have aw': "awaited q' + {#p#} = awaited q"
      using awaited_set_client [OF w', of "Owns v"] aw by (simp add: q' client_target_def)
    have "count (awaited q') u = (if client_is u Waiting q' then 1 else 0)" for u
    proof -
      have "count (awaited q) u = count (awaited q') u + (if u = p then 1 else 0)"
        unfolding aw' [symmetric] by simp
      moreover have "client_is u Waiting q' \<longleftrightarrow> u \<noteq> p \<and> client_is u Waiting q"
        using neq w client_is_eq [OF c] by (auto simp: q')
      moreover have "count (awaited q) u = (if client_is u Waiting q then 1 else 0)" using pr by (simp add: promises_ok_def)
      ultimately show ?thesis using w by (auto split: if_splits)
    qed
    then show ?thesis by (simp add: promises_ok_def)
  qed
  moreover have "locks_ok ?q idle"
  proof (rule locks_step [OF lk c])
    show "client_is u BeforePush ?q \<longleftrightarrow> q_front_mut ?q = Some u" for u
      by (auto simp: front_lock [OF lk] client_is_eq [OF c])
    show "client_is u c' ?q \<longleftrightarrow> (if u = t then c' = NoStream else client_is u c' q)" for u c'
      using c by simp (simp add: client_is_def)
  qed simp_all
  then have "locks_ok q' idle"
  proof (rule locks_step [OF _ w'])
    show "client_is u BeforePush q' \<longleftrightarrow> q_front_mut q' = Some u" for u
      by (auto simp: q' front_lock [OF lk] client_is_eq [OF c] client_is_eq [OF w])
    show "client_is u c' q' \<longleftrightarrow> (if u = p then c' = Owns v else client_is u c' ?q)" for u c'
      using w by (simp add: q') (simp add: client_is_def)
  qed (simp_all add: q')
  ultimately have "inv_with n q' idle" using assms(1) by (simp add: inv_with_def q')
  then show ?thesis by (auto simp: queue_inv_iff)
qed

lemma queue_step_inv: "queue_inv n q \<Longrightarrow> queue_step q e = Inr q' \<Longrightarrow> queue_inv n q'"
  by (cases e)
    (auto simp: queue_inv_iff [of n q] intro: getIdleStream_inv push_promise_inv tryToGetIdleStream_inv
      returnStream_inv write_slot_inv set_promise_inv)

interpretation pool: guarded_machine queue_step "queue_inv n" for n
  by unfold_locales (rule queue_step_inv)

lemma new_queue_inv:
  assumes "0 < n"
  shows "queue_inv n (new_queue n m)"
proof -
  have none: "client_streams (replicate m NoStream ! t) = []" "client_target (replicate m NoStream ! t) = []"
    if "t < m" for t using that by (simp_all add: client_streams_def client_target_def)
  have cl: "client_is t c (new_queue n m) \<longleftrightarrow> t < m \<and> c = NoStream" for t c
    by (auto simp: client_is_def new_queue_def)
  have "concat (map f (replicate m c)) = []" if "f c = []" for f :: "client \<Rightarrow> 'a list" and c
    using that by (induction m) auto
  then have e: "taken (new_queue n m) = []" "awaited (new_queue n m) = {#}"
    by (simp_all add: taken_def awaited_def new_queue_def client_streams_def client_target_def)
  have "ring (new_queue n m) (map int [0..<n])"
    using assms by (simp add: ring_def new_queue_def list_all_iff)
  moreover have "locks_ok (new_queue n m) (map int [0..<n])"
    unfolding locks_ok_def cl by (simp add: new_queue_def next_slot_def)
  moreover have "promises_ok (new_queue n m)" by (simp add: promises_ok_def e cl)
  ultimately have "inv_with n (new_queue n m) (map int [0..<n])"
    by (simp add: inv_with_def e) (simp add: new_queue_def)
  then show ?thesis by (auto simp: queue_inv_iff)
qed

lemma reachable_inv: "0 < n \<Longrightarrow> queue_inv n (run_steps queue_step (new_queue n m) es)"
  by (intro pool.run_preserves new_queue_inv)

lemma mset_rotated: "mset (rotate k xs) = mset xs"
proof (induction k)
  case (Suc k)
  have "mset (rotate1 ys) = mset ys" for ys :: "'a list" by (cases ys) auto
  then show ?case using Suc by simp
qed simp

lemma idle_slots:
  assumes "ring q idle"
  shows "mset (filter (\<lambda>v. 0 \<le> v) (q_streams q)) = mset idle"
proof -
  have r: "list_all (\<lambda>v. 0 \<le> v) idle"
    "rotate (q_front_idx q) (q_streams q) = idle @ replicate (length (q_streams q) - length idle) (-1)"
    using assms by (simp_all add: ring_def)
  have "mset (filter (\<lambda>v. 0 \<le> v) (q_streams q)) = mset (filter (\<lambda>v. 0 \<le> v) (rotate (q_front_idx q) (q_streams q)))"
    by (metis mset_filter mset_rotated)
  also have "filter (\<lambda>v. 0 \<le> v) (rotate (q_front_idx q) (q_streams q)) = idle"
    using r by (simp add: list_all_iff filter_id_conv)
  finally show ?thesis .
qed

section \<open>Properties\<close>

text \<open>
  C4: Whatever the interleaving of any number of clients, every stream is either idle in exactly
  one slot or with exactly one client, none is lost and none is given to two clients; and every
  waiting client is in the queue of promises once or about to be served by one other client.
\<close>

theorem streams_are_never_shared_or_lost:
  assumes "0 < n" "q = run_steps queue_step (new_queue n m) es"
  shows "distinct (filter (\<lambda>v. 0 \<le> v) (q_streams q) @ taken q) \<and>
    set (filter (\<lambda>v. 0 \<le> v) (q_streams q) @ taken q) = {0..<int n} \<and>
    (\<forall>p. count (awaited q) p = (if client_is p Waiting q then 1 else 0))"
proof -
  obtain idle where "inv_with n q idle" using reachable_inv [OF assms(1)] assms(2) by (auto simp: queue_inv_iff)
  then have i: "ring q idle" "mset idle + mset (taken q) = mset (map int [0..<n])" "promises_ok q"
    unfolding inv_with_def by blast+
  have "mset (filter (\<lambda>v. 0 \<le> v) (q_streams q) @ taken q) = mset idle + mset (taken q)"
    using idle_slots [OF i(1)] by simp
  also note i(2)
  finally have m: "mset (filter (\<lambda>v. 0 \<le> v) (q_streams q) @ taken q) = mset (map int [0..<n])" .
  have "distinct (map int [0..<n])" by (simp add: distinct_map)
  then have "distinct (filter (\<lambda>v. 0 \<le> v) (q_streams q) @ taken q)" using mset_eq_imp_distinct_iff [OF m] by blast
  moreover have "set (filter (\<lambda>v. 0 \<le> v) (q_streams q) @ taken q) = set (map int [0..<n])"
    using mset_eq_setD [OF m] .
  moreover have "set (map int [0..<n]) = {0..<int n}" by (simp add: image_int_atLeastLessThan)
  ultimately show ?thesis using i(3) by (simp only: promises_ok_def simp_thms)
qed

definition some_events :: "queue_event list" where
  "some_events = [GetIdleStream 0, GetIdleStream 1, ReturnStream 0, WriteSlot 0, PushPromise 1]"

lemma streams_are_never_shared_or_lost_witness:
  "distinct (taken (run_steps queue_step (new_queue 1 2) some_events))"
proof -
  have "0 < (1 :: nat)" by simp
  from streams_are_never_shared_or_lost [OF this refl, of 2 some_events] show ?thesis by simp
qed

text \<open>
  The two mutexes never block each other for good: in every reachable state in which one is
  held, some holder can go on.
\<close>

theorem mutex_holders_can_go_on:
  assumes "0 < n" "q = run_steps queue_step (new_queue n m) es" "q_front_mut q \<noteq> None \<or> q_queue_mutex q \<noteq> None"
  shows "\<exists>t q'. queue_step q (PushPromise t) = Inr q' \<or> queue_step q (WriteSlot t) = Inr q'"
proof -
  obtain idle where "inv_with n q idle" using reachable_inv [OF assms(1)] assms(2) by (auto simp: queue_inv_iff)
  then have lk: "locks_ok q idle" by (simp add: inv_with_def)
  show ?thesis
  proof (cases "q_queue_mutex q")
    case None
    then obtain t where "client_is t BeforePush q" using assms(3) front_lock [OF lk] by auto
    then have "queue_step q (PushPromise t) =
        Inr (set_client t Waiting (q\<lparr>q_promises := q_promises q @ [t], q_front_mut := None\<rparr>))"
      using None by (simp add: push_promise_def)
    then show ?thesis by blast
  next
    case (Some t)
    then obtain v old where "client_is t (BeforeWrite v old) q" using lk by (auto simp: locks_ok_def)
    then have "queue_step q (WriteSlot t) =
        Inr (set_client t NoStream (q\<lparr>q_streams := (q_streams q)[old := v], q_queue_mutex := None\<rparr>))"
      by (simp add: write_slot_def client_is_def)
    then show ?thesis by blast
  qed
qed

lemma mutex_holders_can_go_on_witness:
  "\<exists>t q'. queue_step (run_steps queue_step (new_queue 1 2) [GetIdleStream 0, GetIdleStream 1]) (PushPromise t) = Inr q' \<or>
     queue_step (run_steps queue_step (new_queue 1 2) [GetIdleStream 0, GetIdleStream 1]) (WriteSlot t) = Inr q'"
proof -
  have "0 < (1 :: nat)" by simp
  moreover have "q_front_mut (run_steps queue_step (new_queue 1 2) [GetIdleStream 0, GetIdleStream 1]) \<noteq> None"
    by code_simp
  ultimately show ?thesis by (intro mutex_holders_can_go_on [OF _ refl]) simp_all
qed

text \<open>A request for a stream, by whatever call.\<close>

fun is_request :: "queue_event \<Rightarrow> bool" where
  "is_request (GetIdleStream t) \<longleftrightarrow> True"
| "is_request (TryToGetIdleStream t) \<longleftrightarrow> True"
| "is_request e \<longleftrightarrow> False"

lemma nothing_taken: "taken q = [] \<Longrightarrow> t < length (q_clients q) \<Longrightarrow> client_streams (q_clients q ! t) = []"
  by (auto simp: taken_def)

lemma only_requests:
  assumes "queue_inv n q" "taken q = []" "q_front_mut q = None" "\<not> is_request e"
  shows "\<exists>x. queue_step q e = Inl x"
proof -
  obtain idle where "locks_ok q idle" using assms(1) by (auto simp: queue_inv_def)
  then have "\<not> client_is t BeforePush q" for t using assms(3) by (simp add: front_lock [symmetric])
  moreover have idle: "client_streams (q_clients q ! t) = []" if "\<not> length (q_clients q) \<le> t" for t
    using nothing_taken [OF assms(2), of t] that by simp
  ultimately show ?thesis
  proof (cases e)
    case (ReturnStream t)
    then show ?thesis using idle [of t]
      by (cases "length (q_clients q) \<le> t"; cases "q_clients q ! t") (simp_all add: returnStream_def client_streams_def)
  next
    case (WriteSlot t)
    then show ?thesis using idle [of t]
      by (cases "length (q_clients q) \<le> t"; cases "q_clients q ! t") (simp_all add: write_slot_def client_streams_def)
  next
    case (SetPromise t)
    then show ?thesis using idle [of t]
      by (cases "length (q_clients q) \<le> t"; cases "q_clients q ! t") (simp_all add: set_promise_def client_streams_def)
  qed (use assms(4) in \<open>simp_all add: push_promise_def\<close>)
qed

text \<open>
  C36: A wakeup is lost whenever a client that found the front slot empty queues its promise only after
  every stream has come back, with any number of streams and clients and after any history: the client
  then waits although all streams are idle, and whatever calls follow, it stays so, the streams in their
  slots and its promise in the queue, until some client requests a stream.
\<close>

theorem wakeup_can_be_lost:
  assumes "0 < n" "q = run_steps queue_step (new_queue n m) es" "client_is c BeforePush q" "taken q = []"
  shows "\<exists>q'. queue_step q (PushPromise c) = Inr q' \<and> client_is c Waiting q' \<and> c \<in> set (q_promises q') \<and>
    set (filter (\<lambda>v. 0 \<le> v) (q_streams q')) = {0..<int n} \<and>
    (\<forall>es'. list_all (\<lambda>e. \<not> is_request e) es' \<longrightarrow> run_steps queue_step q' es' = q')"
proof -
  have inv: "queue_inv n q" using reachable_inv [OF assms(1)] assms(2) by simp
  then obtain idle where i: "locks_ok q idle" "ring q idle" "mset (idle @ taken q) = mset (map int [0..<n])" by (auto simp: queue_inv_def)
  have mutex: "q_queue_mutex q = None"
  proof (rule ccontr)
    assume "q_queue_mutex q \<noteq> None"
    then obtain u where "q_queue_mutex q = Some u" by blast
    moreover have "case q_queue_mutex q of None \<Rightarrow> q_back_idx q = next_slot q idle | Some t \<Rightarrow> \<exists>v old. client_is t (BeforeWrite v old) q"
      using i(1) by (simp only: locks_ok_def)
    ultimately obtain v old where "client_is u (BeforeWrite v old) q" by auto
    then show False using nothing_taken [OF assms(4), of u] by (simp add: client_is_def client_streams_def)
  qed
  define q' where "q' = set_client c Waiting (q\<lparr>q_promises := q_promises q @ [c], q_front_mut := None\<rparr>)"
  have step: "queue_step q (PushPromise c) = Inr q'" using assms(3) mutex by (simp add: push_promise_def q'_def)
  have "queue_inv n q'" using queue_step_inv [OF inv step] .
  moreover have "taken q' = []"
    using taken_set_client [of c BeforePush "q\<lparr>q_promises := q_promises q @ [c], q_front_mut := None\<rparr>" Waiting] assms(3,4)
    by (simp add: q'_def client_streams_def)
  moreover have "q_front_mut q' = None" by (simp add: q'_def)
  ultimately have stuck: "\<exists>x. queue_step q' e = Inl x" if "\<not> is_request e" for e using only_requests that by blast
  have "run_steps queue_step q' es' = q'" if "list_all (\<lambda>e. \<not> is_request e) es'" for es'
    using that
  proof (induction es')
    case (Cons e es')
    then obtain x where "queue_step q' e = Inl x" using stuck [of e] by auto
    then show ?case using Cons by (simp add: try_step_def)
  qed simp
  moreover have "set (filter (\<lambda>v. 0 \<le> v) (q_streams q')) = {0..<int n}"
  proof -
    have "set (filter (\<lambda>v. 0 \<le> v) (q_streams q)) = set idle" using mset_eq_setD [OF idle_slots [OF i(2)]] by simp
    also have "\<dots> = set (map int [0..<n])" using mset_eq_setD [OF i(3)] assms(4) by simp
    finally show ?thesis by (simp add: q'_def image_int_atLeastLessThan)
  qed
  moreover have "c < length (q_clients q)" using assms(3) by (simp add: client_is_def)
  then have "client_is c Waiting q'" "c \<in> set (q_promises q')" by (simp_all add: q'_def)
  ultimately show ?thesis using step by blast
qed

lemma wakeup_can_be_lost_witness:
  "\<exists>q'. queue_step (run_steps queue_step (new_queue 2 3)
        [GetIdleStream 0, GetIdleStream 1, GetIdleStream 2, ReturnStream 1, WriteSlot 1, ReturnStream 0, WriteSlot 0]) (PushPromise 2) =
      Inr q' \<and> client_is 2 Waiting q' \<and> set (filter (\<lambda>v. 0 \<le> v) (q_streams q')) = {0..<2}"
proof -
  let ?es = "[GetIdleStream 0, GetIdleStream 1, GetIdleStream 2, ReturnStream 1, WriteSlot 1, ReturnStream 0, WriteSlot 0]"
  have "client_is 2 BeforePush (run_steps queue_step (new_queue 2 3) ?es)" "taken (run_steps queue_step (new_queue 2 3) ?es) = []"
    by code_simp+
  from wakeup_can_be_lost [OF _ refl this] show ?thesis by auto
qed

section \<open>The guard\<close>

datatype guard_call = TryGetId "int option" | TryDisarm "int option"

fun guard_calls :: "guard_call list \<Rightarrow> stream_guard \<Rightarrow> stream_guard result" where
  "guard_calls [] g = Inr g"
| "guard_calls (TryGetId r # cs) g = rbind (guard_tryGetId r g) (\<lambda>(_, g'). guard_calls cs g')"
| "guard_calls (TryDisarm r # cs) g = rbind (guard_tryDisarm r g) (\<lambda>(_, g'). guard_calls cs g')"

fun offered :: "guard_call \<Rightarrow> int option" where
  "offered (TryGetId r) = r"
| "offered (TryDisarm r) = r"

definition guard_inv :: "int \<Rightarrow> stream_guard \<Rightarrow> bool" where
  "guard_inv v g \<longleftrightarrow>
     (case g_streamId g of
        None \<Rightarrow> g_futureStreamId g \<and> \<not> g_disarmed g \<and> g_returned g = []
      | Some i \<Rightarrow> i = v \<and> \<not> g_futureStreamId g \<and> g_returned g = (if g_disarmed g then [v] else []))"

lemma tryGetId_inv:
  assumes "guard_inv v g" "r = None \<or> r = Some v" "guard_tryGetId r g = Inr (x, g')"
  shows "guard_inv v g'"
  using assms by (cases "g_streamId g"; cases r) (auto simp: guard_tryGetId_def guard_inv_def split: if_splits)

lemma tryDisarm_inv:
  assumes "guard_inv v g" "r = None \<or> r = Some v" "guard_tryDisarm r g = Inr (x, g')"
  shows "guard_inv v g'"
  using assms by (cases "g_streamId g"; cases r) (auto simp: guard_tryDisarm_def guard_inv_def split: if_splits)

lemma guard_calls_inv:
  "guard_inv v g \<Longrightarrow> \<forall>c\<in>set cs. offered c = None \<or> offered c = Some v \<Longrightarrow> guard_calls cs g = Inr g' \<Longrightarrow> guard_inv v g'"
proof (induction cs arbitrary: g)
  case (Cons c cs)
  have r: "offered c = None \<or> offered c = Some v" using Cons.prems(2) by simp
  obtain g1 where "guard_inv v g1" "guard_calls cs g1 = Inr g'"
  proof (cases c)
    case (TryGetId r')
    with Cons.prems(3) obtain x g1 where "guard_tryGetId r' g = Inr (x, g1)" "guard_calls cs g1 = Inr g'"
      by (auto simp: rbind_Inr_iff)
    with tryGetId_inv [OF Cons.prems(1) _ this(1)] r TryGetId that show thesis by simp
  next
    case (TryDisarm r')
    with Cons.prems(3) obtain x g1 where "guard_tryDisarm r' g = Inr (x, g1)" "guard_calls cs g1 = Inr g'"
      by (auto simp: rbind_Inr_iff)
    with tryDisarm_inv [OF Cons.prems(1) _ this(1)] r TryDisarm that show thesis by simp
  qed
  then show ?case using Cons.IH Cons.prems(2) by simp
qed simp

text \<open>
  However often a node tries to get or to give up its stream, if no call raises, destroying the
  guard leaves exactly one return of exactly the stream it was given.
\<close>

theorem guard_returns_its_stream_once:
  assumes "guard_calls cs new_guard = Inr g" "\<forall>c\<in>set cs. offered c = None \<or> offered c = Some v"
  shows "\<exists>g'. guard_destroy v g = Inr g' \<and> g_returned g' = [v]"
proof -
  have "guard_inv v new_guard" by (simp add: guard_inv_def new_guard_def)
  then have "guard_inv v g" by (rule guard_calls_inv [OF _ assms(2,1)])
  then show ?thesis by (cases "g_streamId g"; cases "g_disarmed g") (auto simp: guard_destroy_def guard_inv_def)
qed

lemma guard_returns_its_stream_once_witness:
  "\<exists>g g'. guard_calls [TryGetId None, TryGetId (Some 3)] new_guard = Inr g \<and>
     guard_destroy 3 g = Inr g' \<and> g_returned g' = [3]"
proof -
  obtain g where g: "guard_calls [TryGetId None, TryGetId (Some 3)] new_guard = Inr g"
    by (simp add: guard_tryGetId_def new_guard_def)
  with guard_returns_its_stream_once [OF g, of 3] show ?thesis by auto
qed

end
