(* ===== verification/Parser_Text.thy ===== *)
theory Parser_Text
  imports Text_Utils
begin

text \<open>
  Text helpers of the generated-output parsers (\<open>src/llm/io_processing/utils.hpp\<close>,
  \<open>utils.cpp\<close>): the earliest of several tags, search and splitting that respect brackets and
  quotes, masking of delimited values, and small normalisations. The nesting counters are \<open>int\<close>
  in the code; they move by one per character, so they are unbounded integers here. Helpers that
  only call rapidjson are left out.
\<close>

section \<open>Definitions\<close>

text \<open>\<open>TagMatch\<close> as a pair of position and length.\<close>

type_synonym TagMatch = "nat \<times> nat"

definition earlier :: "string \<Rightarrow> string \<Rightarrow> TagMatch option \<Rightarrow> TagMatch option" where
  "earlier txt tag earliest =
     (if tag = [] then earliest
      else case str_find tag txt 0 of
             None \<Rightarrow> earliest
           | Some position \<Rightarrow>
               (case earliest of
                  None \<Rightarrow> Some (position, length tag)
                | Some (p, l) \<Rightarrow>
                    if position < p \<or> (position = p \<and> l < length tag) then Some (position, length tag) else earliest))"

definition findEarliestTag :: "string \<Rightarrow> string list \<Rightarrow> TagMatch option" where
  "findEarliestTag txt tags = fold (earlier txt) tags None"

record nesting =
  ne_bracketDepth :: int
  ne_braceDepth :: int
  ne_quoteDepth :: int
  ne_singleQuoteDepth :: int

definition no_nesting :: nesting where
  "no_nesting = \<lparr>ne_bracketDepth = 0, ne_braceDepth = 0, ne_quoteDepth = 0, ne_singleQuoteDepth = 0\<rparr>"

definition isWordChar :: "char \<Rightarrow> bool" where
  "isWordChar c \<longleftrightarrow> is_alnum c \<or> c = CHR ''_''"

text \<open>The double quote, the single quote and the backslash.\<close>

abbreviation dquote :: char where "dquote \<equiv> CHR 0x22"
abbreviation squote :: char where "squote \<equiv> CHR 0x27"
abbreviation backslash :: char where "backslash \<equiv> CHR 0x5C"

text \<open>The first position from \<open>j\<close> on that is not a space.\<close>

definition skip_spaces :: "string \<Rightarrow> nat \<Rightarrow> nat" where
  "skip_spaces str j = j + length (takeWhile is_space (drop j str))"

text \<open>What the character at \<open>i\<close> does to the nesting.\<close>

definition nesting_step :: "string \<Rightarrow> nat \<Rightarrow> nesting \<Rightarrow> nesting" where
  "nesting_step str i n =
     (let c = str ! i;
          insideAnyQuote = (ne_quoteDepth n \<noteq> 0 \<or> ne_singleQuoteDepth n \<noteq> 0)
      in if \<not> insideAnyQuote \<and> c = CHR ''{'' then n\<lparr>ne_braceDepth := ne_braceDepth n + 1\<rparr>
         else if \<not> insideAnyQuote \<and> c = CHR ''}'' then n\<lparr>ne_braceDepth := ne_braceDepth n - 1\<rparr>
         else if \<not> insideAnyQuote \<and> c = CHR ''['' then n\<lparr>ne_bracketDepth := ne_bracketDepth n + 1\<rparr>
         else if \<not> insideAnyQuote \<and> c = CHR '']'' then n\<lparr>ne_bracketDepth := ne_bracketDepth n - 1\<rparr>
         else if ne_singleQuoteDepth n = 0 \<and> c = dquote \<and> (i = 0 \<or> str ! (i - 1) \<noteq> backslash)
         then n\<lparr>ne_quoteDepth := 1 - ne_quoteDepth n\<rparr>
         else if ne_quoteDepth n = 0 \<and> c = squote \<and> (i = 0 \<or> str ! (i - 1) \<noteq> backslash)
         then (let prevIsWord = (0 < i \<and> isWordChar (str ! (i - 1)));
                   nextIsWord = (i + 1 < length str \<and> isWordChar (str ! (i + 1)))
               in if ne_singleQuoteDepth n = 0
                  then (if i = 0 \<or> \<not> prevIsWord then n\<lparr>ne_singleQuoteDepth := 1\<rparr> else n)
                  else if prevIsWord \<and> nextIsWord then n
                  else let j = skip_spaces str (i + 1)
                       in if j = length str \<or> \<not> isWordChar (str ! j) then n\<lparr>ne_singleQuoteDepth := 0\<rparr> else n)
         else n)"

definition unnested :: "nesting \<Rightarrow> bool" where
  "unnested n \<longleftrightarrow> ne_bracketDepth n = 0 \<and> ne_braceDepth n = 0 \<and> ne_quoteDepth n = 0 \<and> ne_singleQuoteDepth n = 0"

fun find_loop :: "string \<Rightarrow> string \<Rightarrow> nesting \<Rightarrow> nat list \<Rightarrow> nat option" where
  "find_loop str target n [] = None"
| "find_loop str target n (i # rest) =
     (if unnested n \<and> occurs_at target str i then Some i
      else find_loop str target (nesting_step str i n) rest)"

definition findInStringRespectingSpecialChars :: "string \<Rightarrow> string \<Rightarrow> nat \<Rightarrow> nat option" where
  "findInStringRespectingSpecialChars str target startPos = find_loop str target no_nesting [startPos..<length str]"

definition trimNewline :: "string \<Rightarrow> string" where
  "trimNewline str =
     (if str = [] then str
      else let s = (if last str = CHR 0x0A then butlast str else str)
           in if s = [] then s else if hd s = CHR 0x0A then tl s else s)"

definition trimSurroundingQuotes :: "string \<Rightarrow> string" where
  "trimSurroundingQuotes str =
     (if length str < 2 then str
      else let quote = hd str
           in if (quote \<noteq> dquote \<and> quote \<noteq> squote) \<or> last str \<noteq> quote then str
              else if str_find [quote] str 1 \<noteq> Some (length str - 1) then str
              else take (length str - 2) (drop 1 str))"

definition normalizeBooleanString :: "string \<Rightarrow> string" where
  "normalizeBooleanString val =
     (if val = ''True'' \<or> val = ''TRUE'' then ''true''
      else if val = ''False'' \<or> val = ''FALSE'' then ''false'' else val)"

fun replace_quotes :: "string \<Rightarrow> bool \<Rightarrow> bool \<Rightarrow> string" where
  "replace_quotes [] insideDoubleQuote insideSingleQuote = []"
| "replace_quotes (c # cs) insideDoubleQuote insideSingleQuote =
     (if c = backslash \<and> cs \<noteq> [] then c # hd cs # replace_quotes (tl cs) insideDoubleQuote insideSingleQuote
      else if c = dquote \<and> \<not> insideSingleQuote then c # replace_quotes cs (\<not> insideDoubleQuote) insideSingleQuote
      else if c = squote \<and> \<not> insideDoubleQuote then dquote # replace_quotes cs insideDoubleQuote (\<not> insideSingleQuote)
      else c # replace_quotes cs insideDoubleQuote insideSingleQuote)"

definition replaceSingleWithDoubleQuotes :: "string \<Rightarrow> string" where
  "replaceSingleWithDoubleQuotes input = replace_quotes input False False"

definition isWrappedByDelimiter :: "string \<Rightarrow> string \<Rightarrow> bool" where
  "isWrappedByDelimiter val delimiter \<longleftrightarrow>
     2 * length delimiter \<le> length val \<and> take (length delimiter) val = delimiter \<and>
     drop (length val - length delimiter) val = delimiter"

definition mask_char :: "char \<Rightarrow> char" where
  "mask_char c =
     (if c = dquote \<or> c = squote \<or> c = CHR ''{'' \<or> c = CHR ''}'' \<or> c = CHR ''['' \<or> c = CHR '']''
      then CHR 0x01 else c)"

text \<open>The characters from \<open>a\<close> up to \<open>b\<close> masked.\<close>

definition mask_range :: "nat \<Rightarrow> nat \<Rightarrow> string \<Rightarrow> string" where
  "mask_range a b s = take a s @ map mask_char (take (b - a) (drop a s)) @ drop (max a b) s"

function mask_loop :: "string \<Rightarrow> string \<Rightarrow> nat \<Rightarrow> string \<Rightarrow> string result" where
  "mask_loop txt delimiter pos masked =
     (case str_find delimiter txt pos of
        None \<Rightarrow> Inr masked
      | Some openPos \<Rightarrow>
          let valueStart = openPos + length delimiter
          in case str_find delimiter txt valueStart of
               None \<Rightarrow> Inr (mask_range valueStart (length txt) masked)
             | Some closePos \<Rightarrow>
                 if delimiter = [] then Inl Diverges
                 else mask_loop txt delimiter (closePos + length delimiter) (mask_range valueStart closePos masked))"
  by pat_completeness auto
termination
  by (relation "measure (\<lambda>(txt, _, pos, _). length txt + 1 - pos)") (auto dest!: str_find_bound simp: length_greater_0_conv [symmetric] simp del: length_greater_0_conv)

definition maskDelimitedStringValues :: "string \<Rightarrow> string \<Rightarrow> string result" where
  "maskDelimitedStringValues txt delimiter = mask_loop txt delimiter 0 txt"

lemma find_loop_member: "find_loop str target n is = Some i \<Longrightarrow> i \<in> set is \<and> occurs_at target str i"
  by (induction "is" arbitrary: n) (auto split: if_splits)

lemma find_respecting_bound:
  "findInStringRespectingSpecialChars str target k = Some i \<Longrightarrow> k \<le> i \<and> i < length str \<and> occurs_at target str i"
  unfolding findInStringRespectingSpecialChars_def by (auto dest!: find_loop_member)

text \<open>\<open>lookup\<close> is the masked content if there is one.\<close>

function split_loop :: "string \<Rightarrow> string \<Rightarrow> string \<Rightarrow> nat \<Rightarrow> string list result" where
  "split_loop content lookup separator pos =
     (case findInStringRespectingSpecialChars lookup separator pos of
        None \<Rightarrow> rbind (str_substr_from content pos) (\<lambda>p. Inr [p])
      | Some separatorPos \<Rightarrow>
          rbind (str_substr content pos (separatorPos - pos)) (\<lambda>p.
            if separator = [] then Inl Diverges
            else rbind (split_loop content lookup separator (separatorPos + length separator)) (\<lambda>ps. Inr (p # ps))))"
  by pat_completeness auto
termination
  by (relation "measure (\<lambda>(_, lookup, _, pos). length lookup - pos)")
    (auto dest!: find_respecting_bound simp: length_greater_0_conv [symmetric] simp del: length_greater_0_conv)

definition splitRespectingSpecialChars :: "string \<Rightarrow> string \<Rightarrow> string option \<Rightarrow> string list result" where
  "splitRespectingSpecialChars content separator maskedContent =
     split_loop content (case maskedContent of Some m \<Rightarrow> m | None \<Rightarrow> content) separator 0"

declare mask_loop.simps [simp del]
declare split_loop.simps [simp del]

section \<open>The earliest tag\<close>

text \<open>The best match among the tags seen so far.\<close>

definition best_match :: "string \<Rightarrow> string set \<Rightarrow> TagMatch option \<Rightarrow> bool" where
  "best_match txt tags m \<longleftrightarrow>
     (case m of
        None \<Rightarrow> \<forall>tag\<in>tags. tag \<noteq> [] \<longrightarrow> (\<forall>i. \<not> occurs_at tag txt i)
      | Some (p, l) \<Rightarrow>
          (\<exists>tag\<in>tags. tag \<noteq> [] \<and> length tag = l \<and> occurs_at tag txt p) \<and>
          (\<forall>tag\<in>tags. tag \<noteq> [] \<longrightarrow> (\<forall>i. occurs_at tag txt i \<longrightarrow> p \<le> i \<and> (i = p \<longrightarrow> length tag \<le> l))))"

lemma earlier_best:
  assumes "best_match txt tags m"
  shows "best_match txt (insert tag tags) (earlier txt tag m)"
proof (cases "tag = [] \<or> str_find tag txt 0 = None")
  case True
  then have "earlier txt tag m = m" by (auto simp: earlier_def)
  moreover have "tag = [] \<or> (\<forall>i. \<not> occurs_at tag txt i)" using True by (auto simp: str_find_None_iff)
  ultimately show ?thesis using assms by (auto simp: best_match_def split: option.splits)
next
  case False
  then obtain p where p: "str_find tag txt 0 = Some p" "tag \<noteq> []" by auto
  have here: "occurs_at tag txt p" "\<And>i. occurs_at tag txt i \<Longrightarrow> p \<le> i"
    using p(1) by (auto simp: str_find_Some_iff) (meson not_le_imp_less)
  show ?thesis
  proof (cases m)
    case None
    then show ?thesis using assms p here by (auto simp: best_match_def earlier_def)
  next
    case (Some ql)
    obtain q l where q: "ql = (q, l)" by (cases ql)
    show ?thesis
    proof (cases "p < q \<or> (p = q \<and> l < length tag)")
      case True
      then have e: "earlier txt tag m = Some (p, length tag)" by (auto simp: earlier_def p Some q)
      have "p \<le> i \<and> (i = p \<longrightarrow> length t \<le> length tag)" if "t \<in> insert tag tags" "t \<noteq> []" "occurs_at t txt i" for t i
      proof (cases "t = tag")
        case False
        then have "q \<le> i \<and> (i = q \<longrightarrow> length t \<le> l)" using assms that by (auto simp: best_match_def Some q)
        then show ?thesis using True by auto
      qed (use here(2) that in auto)
      then show ?thesis unfolding e using here(1) p(2) by (auto simp: best_match_def)
    next
      case F: False
      then have e: "earlier txt tag m = Some (q, l)" by (auto simp: earlier_def p Some q)
      have "q \<le> i \<and> (i = q \<longrightarrow> length tag \<le> l)" if "occurs_at tag txt i" for i
        using here(2) [OF that] F by auto
      then show ?thesis unfolding e using assms by (auto simp: best_match_def Some q)
    qed
  qed
qed

lemma fold_best:
  "best_match txt tags m \<Longrightarrow> best_match txt (tags \<union> set ts) (fold (earlier txt) ts m)"
proof (induction ts arbitrary: tags m)
  case (Cons t ts)
  from Cons.IH [OF earlier_best [OF Cons.prems, of t]] show ?case by simp
qed simp

lemma findEarliest_best: "best_match txt (set tags) (findEarliestTag txt tags)"
  using fold_best [of "txt" "{}" None tags] by (simp add: findEarliestTag_def best_match_def)

lemma findEarliest_bound:
  "findEarliestTag txt tags = Some (p, l) \<Longrightarrow> 0 < l \<and> p + l \<le> length txt"
  using findEarliest_best [of "txt" tags] by (auto simp: best_match_def dest: occurs_at_bound)

text \<open>
  \<open>findEarliestTag\<close> gives the first position at which any of the non-empty tags occurs with the
  length of the longest tag occurring there, and nothing when none occurs.
\<close>

theorem findEarliestTag_is_the_earliest_longest:
  "case findEarliestTag txt tags of
     None \<Rightarrow> (\<forall>tag i. \<not> (tag \<in> set tags \<and> tag \<noteq> [] \<and> occurs_at tag txt i))
   | Some (p, l) \<Rightarrow>
       (\<exists>tag. tag \<in> set tags \<and> tag \<noteq> [] \<and> length tag = l \<and> occurs_at tag txt p) \<and>
       (\<forall>tag i. \<not> (tag \<in> set tags \<and> tag \<noteq> [] \<and> occurs_at tag txt i \<and> (i < p \<or> (i = p \<and> l < length tag))))"
proof -
  note b = findEarliest_best [of "txt" tags]
  show ?thesis
  proof (cases "findEarliestTag txt tags")
    case None
    then show ?thesis using b by (auto simp: best_match_def)
  next
    case (Some pl)
    obtain p l where pl: "pl = (p, l)" by (cases pl)
    have "(\<exists>tag\<in>set tags. tag \<noteq> [] \<and> length tag = l \<and> occurs_at tag txt p) \<and>
        (\<forall>tag\<in>set tags. tag \<noteq> [] \<longrightarrow> (\<forall>i. occurs_at tag txt i \<longrightarrow> p \<le> i \<and> (i = p \<longrightarrow> length tag \<le> l)))"
      using b by (simp add: best_match_def Some pl)
    then show ?thesis by (auto simp: Some pl) (metis not_le)+
  qed
qed

section \<open>Masking\<close>

text \<open>The masked text differs from the text only by masks.\<close>

definition masks :: "string \<Rightarrow> string \<Rightarrow> bool" where
  "masks masked txt \<longleftrightarrow> list_all2 (\<lambda>m c. m = c \<or> m = CHR 0x01) masked txt"

lemma masks_refl: "masks s s"
  by (simp add: masks_def list_all2_refl)

lemma mask_char_cases: "mask_char c = c \<or> mask_char c = CHR 0x01"
  by (simp add: mask_char_def)

lemma masked_map:
  "list_all2 (\<lambda>m c. m = c \<or> m = CHR 0x01) xs ys \<Longrightarrow>
     list_all2 (\<lambda>m c. m = c \<or> m = CHR 0x01) (map mask_char xs) ys"
  by (induction rule: list_all2_induct) (auto simp: mask_char_def)

lemma unmasked_eq:
  "list_all2 (\<lambda>m c. m = c \<or> m = x) p q \<Longrightarrow> x \<notin> set p \<Longrightarrow> p = q"
  by (induction rule: list_all2_induct) auto

lemma mask_range_masks:
  assumes "masks m txt"
  shows "masks (mask_range a b m) txt"
proof -
  let ?P = "\<lambda>m c. m = c \<or> m = CHR 0x01"
  have len: "length m = length txt" using assms by (auto simp: masks_def dest: list_all2_lengthD)
  have split: "txt = take a txt @ take (b - a) (drop a txt) @ drop (max a b) txt"
  proof -
    have "drop (max a b) txt = drop (b - a) (drop a txt)" by (simp add: max_def)
    then show ?thesis by (metis append_take_drop_id)
  qed
  have "list_all2 ?P (take a m) (take a txt)" "list_all2 ?P (drop (max a b) m) (drop (max a b) txt)"
    "list_all2 ?P (take (b - a) (drop a m)) (take (b - a) (drop a txt))"
    using assms by (simp_all add: masks_def list_all2_takeI list_all2_dropI)
  moreover then have "list_all2 ?P (map mask_char (take (b - a) (drop a m))) (take (b - a) (drop a txt))"
    using masked_map by blast
  ultimately have "list_all2 ?P (mask_range a b m) (take a txt @ take (b - a) (drop a txt) @ drop (max a b) txt)"
    unfolding mask_range_def by (intro list_all2_appendI)
  then show ?thesis unfolding masks_def using split by simp
qed

lemma mask_loop_masks:
  assumes "masks masked txt" "delimiter \<noteq> []"
  shows "\<exists>m. mask_loop txt delimiter pos masked = Inr m \<and> masks m txt"
  using assms
proof (induction "txt" delimiter pos masked rule: mask_loop.induct)
  case (1 s d pos k)
  show ?case
  proof (cases "str_find d s pos")
    case None
    then show ?thesis using "1.prems" by (subst mask_loop.simps) simp
  next
    case o: (Some openPos)
    show ?thesis
    proof (cases "str_find d s (openPos + length d)")
      case None
      then show ?thesis using o mask_range_masks [OF "1.prems"(1)] by (subst mask_loop.simps) simp
    next
      case (Some closePos)
      have "\<exists>m. mask_loop s d (closePos + length d) (mask_range (openPos + length d) closePos k) = Inr m \<and> masks m s"
        using "1.prems" o Some by (intro "1.IH") (simp_all add: mask_range_masks)
      then show ?thesis using o Some "1.prems"(2) by (subst mask_loop.simps) simp
    qed
  qed
qed

lemma maskDelimitedStringValues_masks:
  "delimiter \<noteq> [] \<Longrightarrow> \<exists>m. maskDelimitedStringValues txt delimiter = Inr m \<and> masks m txt"
  unfolding maskDelimitedStringValues_def by (rule mask_loop_masks [OF masks_refl])

lemma masks_occurs:
  assumes "masks m txt" "CHR 0x01 \<notin> set p" "occurs_at p m i"
  shows "occurs_at p txt i"
proof -
  have "list_all2 (\<lambda>m c. m = c \<or> m = CHR 0x01) (take (length p) (drop i m)) (take (length p) (drop i txt))"
    using assms(1) by (simp add: masks_def list_all2_takeI list_all2_dropI)
  moreover have "take (length p) (drop i m) = p" using assms(3) by (simp add: occurs_at_def)
  ultimately have l: "list_all2 (\<lambda>m c. m = c \<or> m = CHR 0x01) p (take (length p) (drop i txt))" by simp
  then have "p = take (length p) (drop i txt)" using assms(2) by (rule unmasked_eq)
  moreover have "length m = length txt" using assms(1) by (auto simp: masks_def dest: list_all2_lengthD)
  ultimately show ?thesis using assms(3) by (metis occurs_at_def)
qed

section \<open>Splitting\<close>

lemma split_loop_joins:
  assumes "length lookup = length content" "\<And>i. occurs_at separator lookup i \<Longrightarrow> occurs_at separator content i"
    "separator \<noteq> []" "pos \<le> length content"
  shows "\<exists>parts. split_loop content lookup separator pos = Inr parts \<and> parts \<noteq> [] \<and> joins parts separator = drop pos content"
  using assms
proof (induction content lookup separator pos rule: split_loop.induct)
  case (1 content lookup separator pos)
  show ?case
  proof (cases "findInStringRespectingSpecialChars lookup separator pos")
    case None
    then show ?thesis using "1.prems"(4) by (subst split_loop.simps) (simp add: str_substr_from_def)
  next
    case (Some i)
    note b = find_respecting_bound [OF Some]
    have occ: "occurs_at separator content i" using b "1.prems"(2) by blast
    then have le: "i + length separator \<le> length content" by (rule occurs_at_bound)
    obtain parts where parts: "split_loop content lookup separator (i + length separator) = Inr parts" "parts \<noteq> []"
      "joins parts separator = drop (i + length separator) content"
      using "1.IH" [OF Some] "1.prems" le by auto
    have "split_loop content lookup separator pos = Inr (take (i - pos) (drop pos content) # parts)"
      using Some "1.prems"(3,4) parts(1) by (subst split_loop.simps) (simp add: str_substr_def)
    moreover have "joins (take (i - pos) (drop pos content) # parts) separator = drop pos content"
    proof -
      have "drop i content = separator @ drop (i + length separator) content"
        using occ by (metis append_take_drop_id drop_drop add.commute occurs_at_def)
      moreover have "drop pos content = take (i - pos) (drop pos content) @ drop i content"
        using b by (metis append_take_drop_id drop_drop le_add_diff_inverse2)
      ultimately show ?thesis using parts(2,3) by (simp add: joins_Cons)
    qed
    ultimately show ?thesis by blast
  qed
qed

text \<open>
  Splitting at a separator returns for every content and loses nothing: the parts joined with
  the separator are the content, also when the positions are looked up in the content with its
  delimited values masked.
\<close>

theorem split_parts_join_to_the_content:
  assumes "separator \<noteq> []" "CHR 0x01 \<notin> set separator" "delimiter \<noteq> []"
  shows "\<exists>masked parts parts'. splitRespectingSpecialChars content separator None = Inr parts \<and>
      joins parts separator = content \<and>
      maskDelimitedStringValues content delimiter = Inr masked \<and>
      splitRespectingSpecialChars content separator (Some masked) = Inr parts' \<and> joins parts' separator = content"
proof -
  obtain m where m: "maskDelimitedStringValues content delimiter = Inr m" "masks m content"
    using maskDelimitedStringValues_masks [OF assms(3)] by blast
  have "length m = length content" using m(2) by (auto simp: masks_def dest: list_all2_lengthD)
  then obtain ps' where "split_loop content m separator 0 = Inr ps'" "joins ps' separator = content"
    using split_loop_joins [of m content separator 0] masks_occurs [OF m(2) assms(2)] assms(1) by auto
  moreover obtain ps where "split_loop content content separator 0 = Inr ps" "joins ps separator = content"
    using split_loop_joins [of content content separator 0] assms(1) by auto
  ultimately show ?thesis using m(1) by (auto simp: splitRespectingSpecialChars_def)
qed

lemma split_parts_join_to_the_content_witness:
  "\<exists>parts. splitRespectingSpecialChars ''a,b'' '','' None = Inr parts \<and> joins parts '','' = ''a,b''"
  using split_parts_join_to_the_content [of "'',''" "''|''" "''a,b''"] by auto

end
