(* ===== verification/Output_Parsers.thy ===== *)
theory Output_Parsers
  imports Parser_Text
begin

text \<open>
  The specific parsers of generated text: the interface every parser offers
  (\<open>src/llm/io_processing/base_output_parser.hpp\<close>, \<open>output_parsing_config.hpp\<close>, \<open>delta.hpp\<close>), the
  default content parser, the Qwen3 and Gemma4 reasoning parsers and the classification of a
  rendered Gemma4 prompt. A parser object is its state with a record of operations; an operation
  gives the next state and a delta, nothing, or an exception. The tokenizer is a parameter.
\<close>

section \<open>The interface\<close>

text \<open>\<open>ov::genai::GenerationFinishReason\<close>; the code compares it with \<open>NONE\<close> only.\<close>

datatype FinishReason = FR_NONE | FR_STOP | FR_LENGTH | FR_TOOL_CALL

datatype Delta =
    ContentDelta string
  | ReasoningDelta string
  | ToolCallDelta int "string option" "string option" string
  | FinishDelta
  | AudioDelta string

record OutputParsingConfig =
  pc_startTags :: "string list"
  pc_tokenIdStartTags :: "string list"
  pc_preambleStartTags :: "string list"
  pc_endTags :: "string list"
  pc_stringsToErase :: "string list"
  pc_needsSpecialTokens :: bool
  pc_defaultDecodingWithSpecialTokens :: bool

definition empty_OutputParsingConfig :: OutputParsingConfig where
  "empty_OutputParsingConfig =
     \<lparr>pc_startTags = [], pc_tokenIdStartTags = [], pc_preambleStartTags = [], pc_endTags = [],
      pc_stringsToErase = [], pc_needsSpecialTokens = False, pc_defaultDecodingWithSpecialTokens = False\<rparr>"

text \<open>\<open>resolveSpecialTokenIds\<close>: a later tag with the same token replaces an earlier one.\<close>

definition resolveSpecialTokenIds :: "(string \<Rightarrow> int list) \<Rightarrow> OutputParsingConfig \<Rightarrow> int \<rightharpoonup> string" where
  "resolveSpecialTokenIds encode cfg =
     fold (\<lambda>tag m. if tag = [] then m else case encode tag of [t] \<Rightarrow> m(t \<mapsto> tag) | _ \<Rightarrow> m)
       (pc_tokenIdStartTags cfg) Map.empty"

record 's parser_ops =
  po_config :: OutputParsingConfig
  po_parseChunk :: "'s \<Rightarrow> string \<Rightarrow> int list \<Rightarrow> FinishReason \<Rightarrow> 's \<times> Delta option result"
  po_drainPendingDelta :: "'s \<Rightarrow> 's \<times> Delta option"
  po_resetState :: "'s \<Rightarrow> 's"
  po_setImplicitStart :: "bool \<Rightarrow> 's \<Rightarrow> 's"

text \<open>\<open>front()\<close> of a vector, whose emptiness the code does not check.\<close>

definition front_of :: "'a list \<Rightarrow> 'a result" where
  "front_of xs = (case xs of [] \<Rightarrow> Inl OutOfRange | x # _ \<Rightarrow> Inr x)"

section \<open>The default content parser\<close>

text \<open>
  The erasing loop of one tag: after an erasure the search goes on at the position of the erased
  tag. The empty tag is found for ever.
\<close>

function erase_loop :: "string \<Rightarrow> string \<Rightarrow> nat \<Rightarrow> string result" where
  "erase_loop tag content pos =
     (if tag = [] then Inl Diverges
      else case str_find tag content pos of
             None \<Rightarrow> Inr content
           | Some p \<Rightarrow> erase_loop tag (take p content @ drop (p + length tag) content) p)"
  by pat_completeness auto
termination
  by (relation "measure (\<lambda>(_, content, _). length content)")
    (auto dest!: str_find_bound simp: length_greater_0_conv [symmetric] simp del: length_greater_0_conv)

declare erase_loop.simps [simp del]

fun erase_tags :: "string list \<Rightarrow> string \<Rightarrow> string result" where
  "erase_tags [] content = Inr content"
| "erase_tags (tag # tags) content = rbind (erase_loop tag content 0) (erase_tags tags)"

definition default_parseChunk :: "OutputParsingConfig \<Rightarrow> string \<Rightarrow> FinishReason \<Rightarrow> Delta option result" where
  "default_parseChunk cfg buf finishReason =
     (let anyComplete = list_ex (\<lambda>tag. contains tag buf) (pc_stringsToErase cfg)
      in if \<not> anyComplete \<and> finishReason = FR_NONE \<and> list_ex (\<lambda>tag. stringsOverlap buf tag) (pc_stringsToErase cfg)
         then Inr None
         else if anyComplete
         then rbind (erase_tags (pc_stringsToErase cfg) buf) (\<lambda>content. Inr (Some (ContentDelta content)))
         else Inr (Some (ContentDelta buf)))"

definition default_config :: "string list \<Rightarrow> OutputParsingConfig" where
  "default_config stringsToErase = empty_OutputParsingConfig\<lparr>pc_stringsToErase := stringsToErase\<rparr>"

definition default_content_parser :: "string list \<Rightarrow> unit parser_ops" where
  "default_content_parser stringsToErase =
     \<lparr>po_config = default_config stringsToErase,
      po_parseChunk = (\<lambda>s buf _ fr. (s, default_parseChunk (default_config stringsToErase) buf fr)),
      po_drainPendingDelta = (\<lambda>s. (s, None)), po_resetState = (\<lambda>s. s), po_setImplicitStart = (\<lambda>_ s. s)\<rparr>"

section \<open>The Qwen3 reasoning parser\<close>

definition qwen3_config :: OutputParsingConfig where
  "qwen3_config = empty_OutputParsingConfig\<lparr>pc_startTags := [''<think>''], pc_endTags := [''</think>'']\<rparr>"

text \<open>The state: whether the start tag of the phase is consumed.\<close>

definition qwen3_parseChunk ::
  "OutputParsingConfig \<Rightarrow> bool \<Rightarrow> string \<Rightarrow> int list \<Rightarrow> FinishReason \<Rightarrow> bool \<times> Delta option result" where
  "qwen3_parseChunk cfg consumed chunk tokens finishReason =
     (if chunk = [] then (consumed, Inr None)
      else case front_of (pc_endTags cfg) of
        Inl e \<Rightarrow> (consumed, Inl e)
      | Inr endTag \<Rightarrow>
          let text1 = (case str_rfind endTag chunk of None \<Rightarrow> chunk | Some p \<Rightarrow> take p chunk)
          in case (if consumed then Inr text1
                   else case front_of (pc_startTags cfg) of
                          Inl e \<Rightarrow> Inl e
                        | Inr startTag \<Rightarrow>
                            Inr (case str_find startTag text1 0 of
                                   None \<Rightarrow> text1
                                 | Some p \<Rightarrow> drop (p + length startTag) text1)) of
               Inl e \<Rightarrow> (consumed, Inl e)
             | Inr text2 \<Rightarrow> (True, Inr (if text2 = [] then None else Some (ReasoningDelta text2))))"

definition qwen3_reasoning_parser :: "OutputParsingConfig \<Rightarrow> bool parser_ops" where
  "qwen3_reasoning_parser cfg =
     \<lparr>po_config = cfg, po_parseChunk = qwen3_parseChunk cfg,
      po_drainPendingDelta = (\<lambda>s. (s, None)), po_resetState = (\<lambda>_. False), po_setImplicitStart = (\<lambda>_ s. s)\<rparr>"

section \<open>The Gemma4 reasoning parser\<close>

datatype Phase = AwaitingOpener | AwaitingChannelHeader | Body

record gemma4_reasoning =
  gr_phase :: Phase
  gr_pendingChannelHeaderText :: string
  gr_implicitStart :: bool

definition gemma4_reasoning_config :: OutputParsingConfig where
  "gemma4_reasoning_config = empty_OutputParsingConfig
     \<lparr>pc_startTags := [''<|channel>''], pc_preambleStartTags := [''thought'' @ [CHR 0x0A]],
      pc_tokenIdStartTags := [''<|channel>''], pc_endTags := [''<channel|>''], pc_needsSpecialTokens := True\<rparr>"

definition new_gemma4_reasoning :: gemma4_reasoning where
  "new_gemma4_reasoning = \<lparr>gr_phase = AwaitingOpener, gr_pendingChannelHeaderText = [], gr_implicitStart = False\<rparr>"

definition gemma4_reasoning_reset :: "gemma4_reasoning \<Rightarrow> gemma4_reasoning" where
  "gemma4_reasoning_reset s = s\<lparr>gr_phase := AwaitingOpener, gr_pendingChannelHeaderText := []\<rparr>"

definition newline :: char where "newline = CHR 0x0A"

definition firstLineIsMultiWord :: "string \<Rightarrow> bool" where
  "firstLineIsMultiWord firstLine = list_ex is_space (dropWhile is_space firstLine)"

text \<open>
  The decision over the text before the body: the body's first text, or nothing yet.
\<close>

definition channel_header :: "string \<Rightarrow> string \<Rightarrow> FinishReason \<Rightarrow> string option" where
  "channel_header endTag pending finishReason =
     (let newlinePos = str_find [newline] pending 0;
          endTagPos = str_find endTag pending 0;
          multi = (case newlinePos of None \<Rightarrow> False | Some p \<Rightarrow> firstLineIsMultiWord (take p pending))
      in case newlinePos of
           Some p \<Rightarrow>
             if \<not> multi \<and> (case endTagPos of None \<Rightarrow> True | Some e \<Rightarrow> p < e) then Some (drop (p + 1) pending)
             else if endTagPos \<noteq> None \<or> finishReason \<noteq> FR_NONE then Some pending else None
         | None \<Rightarrow> if endTagPos \<noteq> None \<or> finishReason \<noteq> FR_NONE then Some pending else None)"

text \<open>What the body emits.\<close>

definition body_delta :: "string \<Rightarrow> string \<Rightarrow> Delta option" where
  "body_delta endTag s =
     (let t = (case str_find endTag s 0 of None \<Rightarrow> s | Some p \<Rightarrow> take p s)
      in if t = [] then None else Some (ReasoningDelta t))"

definition gemma4_reasoning_parseChunk ::
  "OutputParsingConfig \<Rightarrow> gemma4_reasoning \<Rightarrow> string \<Rightarrow> int list \<Rightarrow> FinishReason \<Rightarrow> gemma4_reasoning \<times> Delta option result" where
  "gemma4_reasoning_parseChunk cfg s chunk tokens finishReason =
     (if chunk = [] \<and> finishReason = FR_NONE then (s, Inr None)
      else case (if gr_phase s = AwaitingOpener
                 then (if gr_implicitStart s then Inr (chunk, s\<lparr>gr_phase := AwaitingChannelHeader\<rparr>)
                       else rbind (front_of (pc_startTags cfg)) (\<lambda>opener.
                         Inr (case str_find opener chunk 0 of
                                None \<Rightarrow> chunk
                              | Some p \<Rightarrow> drop (p + length opener) chunk,
                              s\<lparr>gr_phase := AwaitingChannelHeader\<rparr>)))
                 else Inr (chunk, s)) of
             Inl e \<Rightarrow> (s, Inl e)
           | Inr (text1, s1) \<Rightarrow>
               case front_of (pc_endTags cfg) of
                 Inl e \<Rightarrow> (s1, Inl e)
               | Inr endTag \<Rightarrow>
                   if gr_phase s1 = AwaitingChannelHeader
                   then let pending = gr_pendingChannelHeaderText s1 @ text1
                        in case channel_header endTag pending finishReason of
                             None \<Rightarrow> (s1\<lparr>gr_pendingChannelHeaderText := pending\<rparr>, Inr None)
                           | Some t \<Rightarrow> (s1\<lparr>gr_pendingChannelHeaderText := [], gr_phase := Body\<rparr>, Inr (body_delta endTag t))
                   else (s1, Inr (body_delta endTag text1)))"

definition gemma4_reasoning_parser :: "OutputParsingConfig \<Rightarrow> gemma4_reasoning parser_ops" where
  "gemma4_reasoning_parser cfg =
     \<lparr>po_config = cfg, po_parseChunk = gemma4_reasoning_parseChunk cfg,
      po_drainPendingDelta = (\<lambda>s. (s, None)), po_resetState = gemma4_reasoning_reset,
      po_setImplicitStart = (\<lambda>b s. s\<lparr>gr_implicitStart := b\<rparr>)\<rparr>"

section \<open>The state of a rendered prompt\<close>

datatype Gemma4RenderedPromptState = NEW_TURN | OPEN_THOUGHT | CLOSED_THOUGHT

definition anchors :: "string list" where
  "anchors = [''<|turn>model'' @ [newline], ''<|im_start|>assistant'' @ [newline], ''<tool_response|>'']"

definition latestGenerationBoundary :: "string \<Rightarrow> nat" where
  "latestGenerationBoundary prompt =
     fold (\<lambda>anchor boundary. case str_rfind anchor prompt of
             None \<Rightarrow> boundary | Some p \<Rightarrow> max boundary (p + length anchor)) anchors 0"

definition latestTag :: "string \<Rightarrow> string list \<Rightarrow> nat \<Rightarrow> nat option" where
  "latestTag prompt tags from_pos =
     fold (\<lambda>tag latest. if tag = [] then latest
             else case str_rfind tag prompt of
                    None \<Rightarrow> latest
                  | Some p \<Rightarrow> if from_pos \<le> p \<and> (case latest of None \<Rightarrow> True | Some l \<Rightarrow> l < p) then Some p else latest)
       tags None"

definition classifyRenderedPromptState :: "string \<Rightarrow> string list \<Rightarrow> string \<Rightarrow> Gemma4RenderedPromptState" where
  "classifyRenderedPromptState renderedPrompt thoughtStartTags thoughtEndTag =
     (let boundary = latestGenerationBoundary renderedPrompt;
          start = latestTag renderedPrompt thoughtStartTags boundary;
          end' = (if thoughtEndTag = [] then None else str_rfind thoughtEndTag renderedPrompt);
          endInCurrentSuffix = (case end' of None \<Rightarrow> False | Some e \<Rightarrow> boundary \<le> e)
      in case start of
           Some st \<Rightarrow>
             if \<not> endInCurrentSuffix \<or> the end' < st then OPEN_THOUGHT
             else if endInCurrentSuffix \<and> st < the end' then CLOSED_THOUGHT
             else NEW_TURN
         | None \<Rightarrow> if endInCurrentSuffix then CLOSED_THOUGHT else NEW_TURN)"

definition classifyGemma4RenderedPromptState :: "string \<Rightarrow> Gemma4RenderedPromptState" where
  "classifyGemma4RenderedPromptState renderedPrompt =
     classifyRenderedPromptState renderedPrompt [''<|channel>thought'' @ [newline]] ''<channel|>''"

section \<open>Erasing markers\<close>

text \<open>
  The reference: a left-to-right pass that leaves out every occurrence of the tag and does not look
  at what an erasure brings together.
\<close>

function strip :: "string \<Rightarrow> string \<Rightarrow> string" where
  "strip tag s =
     (if tag = [] \<or> s = [] then s
      else if occurs_at tag s 0 then strip tag (drop (length tag) s)
      else hd s # strip tag (tl s))"
  by pat_completeness auto
termination
  by (relation "measure (\<lambda>(_, s). length s)") auto

declare strip.simps [simp del]

lemma occurs_at_drop: "k \<le> length s \<Longrightarrow> occurs_at p (drop k s) i \<longleftrightarrow> occurs_at p s (k + i)"
  by (auto simp: occurs_at_def add.commute add.left_commute)

lemma strip_skip:
  assumes "\<forall>i<k. \<not> occurs_at tag s i" "k \<le> length s"
  shows "strip tag s = take k s @ strip tag (drop k s)"
  using assms
proof (induction k arbitrary: s)
  case (Suc k)
  then obtain c cs where s: "s = c # cs" by (cases s) auto
  show ?case
  proof (cases "tag = []")
    case True
    then show ?thesis by (simp add: strip.simps)
  next
    case False
    have "\<not> occurs_at tag s 0" using Suc.prems(1) by blast
    then have "strip tag s = c # strip tag cs" using False by (subst strip.simps) (simp add: s)
    moreover have "\<forall>i<k. \<not> occurs_at tag cs i"
    proof (intro allI impI)
      fix i assume "i < k"
      then have "\<not> occurs_at tag s (1 + i)" using Suc.prems(1) by simp
      then show "\<not> occurs_at tag cs i" using occurs_at_drop [of 1 s tag i] by (simp add: s)
    qed
    ultimately show ?thesis using Suc.IH [of cs] Suc.prems(2) by (simp add: s)
  qed
qed simp

lemma strip_none: "\<forall>i. \<not> occurs_at tag s i \<Longrightarrow> strip tag s = s"
  using strip_skip [of "length s" tag s] by (simp add: strip.simps [of tag "[]"])

lemma erase_loop_strip:
  "tag \<noteq> [] \<Longrightarrow> pos \<le> length content \<Longrightarrow>
     erase_loop tag content pos = Inr (take pos content @ strip tag (drop pos content))"
proof (induction tag content pos rule: erase_loop.induct)
  case (1 tag content pos)
  show ?case
  proof (cases "str_find tag content pos")
    case None
    then have "\<forall>i. \<not> occurs_at tag (drop pos content) i"
      using "1.prems"(2) by (simp add: str_find_None_iff occurs_at_drop)
    then show ?thesis using None "1.prems"(1) by (subst erase_loop.simps) (simp add: strip_none)
  next
    case (Some p)
    have b: "pos \<le> p" "p + length tag \<le> length content" using str_find_bound [OF Some] by auto
    let ?c = "take p content @ drop (p + length tag) content"
    have "erase_loop tag content pos = erase_loop tag ?c p" using Some "1.prems"(1) by (subst erase_loop.simps) simp
    also have "\<dots> = Inr (take p ?c @ strip tag (drop p ?c))"
      using "1.prems"(1) b by (intro "1.IH" [OF _ Some]) simp_all
    also have "take p ?c @ strip tag (drop p ?c) = take p content @ strip tag (drop (p + length tag) content)"
      using b by simp
    also have "\<dots> = take pos content @ strip tag (drop pos content)"
    proof -
      have none: "\<forall>i<p - pos. \<not> occurs_at tag (drop pos content) i"
        using Some b "1.prems"(2) by (auto simp: str_find_Some_iff occurs_at_drop)
      have "strip tag (drop pos content) = take (p - pos) (drop pos content) @ strip tag (drop p content)"
        using strip_skip [OF none] b by simp
      moreover have "strip tag (drop p content) = strip tag (drop (p + length tag) content)"
      proof -
        have "occurs_at tag (drop p content) 0" using Some b by (simp add: str_find_Some_iff occurs_at_drop)
        moreover have "p < length content" using b "1.prems"(1) by (cases tag) auto
        then have "drop p content \<noteq> []" by simp
        ultimately show ?thesis using "1.prems"(1) by (subst strip.simps) (simp add: add.commute)
      qed
      moreover have "take p content = take pos content @ take (p - pos) (drop pos content)"
        using b by (metis le_add_diff_inverse take_add)
      ultimately show ?thesis by simp
    qed
    finally show ?thesis .
  qed
qed

lemma erase_tags_strip:
  "[] \<notin> set tags \<Longrightarrow> erase_tags tags content = Inr (fold strip tags content)"
  by (induction tags arbitrary: content) (auto simp: erase_loop_strip)

lemma fold_strip_none: "\<forall>tag\<in>set tags. \<not> contains tag s \<Longrightarrow> fold strip tags s = s"
proof (induction tags)
  case (Cons tag tags)
  then have "strip tag s = s" by (intro strip_none) (simp add: contains_def str_find_None_iff)
  then show ?case using Cons by simp
qed simp

text \<open>A non-empty end of the buffer is the beginning of a marker.\<close>

definition ends_in_part_of :: "string \<Rightarrow> string \<Rightarrow> bool" where
  "ends_in_part_of buf tag \<longleftrightarrow> (\<exists>u v w. buf = u @ v \<and> tag = v @ w \<and> v \<noteq> [])"

lemma overlap_is_part_of_tag: "tag \<noteq> [] \<Longrightarrow> stringsOverlap buf tag \<longleftrightarrow> ends_in_part_of buf tag"
proof
  assume "tag \<noteq> []" "stringsOverlap buf tag"
  then obtain n where n: "1 \<le> n" "n \<le> length buf" "n \<le> length tag" "drop (length buf - n) buf = take n tag"
    by (auto simp: stringsOverlap_def list_ex_iff simp del: upt_Suc)
  have "buf = take (length buf - n) buf @ take n tag" using n(4) by (metis append_take_drop_id)
  moreover have "tag = take n tag @ drop n tag" by simp
  moreover have "take n tag \<noteq> []" using n by auto
  ultimately show "ends_in_part_of buf tag" unfolding ends_in_part_of_def by blast
next
  assume "tag \<noteq> []" "ends_in_part_of buf tag"
  then obtain u v w where s: "buf = u @ v" "tag = v @ w" "v \<noteq> []" by (auto simp: ends_in_part_of_def)
  have "length v \<in> set [1..<Suc (min (length buf) (length tag))]" using s by (auto simp: Suc_le_eq simp del: upt_Suc)
  moreover have "drop (length buf - length v) buf = take (length v) tag" using s by simp
  ultimately have "list_ex (\<lambda>n. drop (length buf - n) buf = take n tag) [1..<Suc (min (length buf) (length tag))]"
    unfolding list_ex_iff by blast
  then show "stringsOverlap buf tag" using s unfolding stringsOverlap_def by simp
qed

section \<open>Properties of the content parser\<close>

text \<open>
  The default content parser holds a buffer only before the end of generation, when it contains
  no marker and ends in a part of one; otherwise it emits the buffer without the markers, as one
  left-to-right pass per marker leaves them out.
\<close>

theorem content_parser_erases_markers:
  assumes "[] \<notin> set tags"
  shows "default_parseChunk (default_config tags) buf fr =
    Inr (if fr = FR_NONE \<and> list_all (\<lambda>tag. \<not> contains tag buf) tags \<and> list_ex (\<lambda>tag. ends_in_part_of buf tag) tags
         then None else Some (ContentDelta (fold strip tags buf)))"
proof -
  have o: "list_ex (stringsOverlap buf) tags \<longleftrightarrow> list_ex (ends_in_part_of buf) tags"
    using assms overlap_is_part_of_tag by (metis list_ex_iff)
  have "fold strip tags buf = buf" if "\<not> list_ex (\<lambda>tag. contains tag buf) tags"
    using that by (intro fold_strip_none) (auto simp: list_ex_iff)
  moreover have "list_all (\<lambda>tag. \<not> contains tag buf) tags \<longleftrightarrow> \<not> list_ex (\<lambda>tag. contains tag buf) tags"
    by (auto simp: list_ex_iff list_all_iff)
  ultimately show ?thesis
    using erase_tags_strip [OF assms] o by (simp add: default_parseChunk_def default_config_def empty_OutputParsingConfig_def Let_def)
qed

lemma content_parser_erases_markers_witness:
  "default_parseChunk (default_config [''<s>'']) ''a<s>b'' FR_NONE = Inr (Some (ContentDelta (strip ''<s>'' ''a<s>b'')))"
proof -
  have "[] \<notin> set [''<s>'']" "contains ''<s>'' ''a<s>b''" by code_simp+
  then show ?thesis using content_parser_erases_markers [of "[''<s>'']" "''a<s>b''" FR_NONE] by simp
qed

text \<open>
  Markers can reach the client: one that the erasure of another brings together is left in, and
  a marker split over two buffers is not held back when the first buffer contains a whole one.
\<close>

theorem content_markers_can_leak:
  "default_parseChunk (default_config [''<s>'']) ''<<s>s>'' FR_NONE = Inr (Some (ContentDelta ''<s>'')) \<and>
   default_parseChunk (default_config [''<s>'']) ''<s>x<'' FR_NONE = Inr (Some (ContentDelta ''x<'')) \<and>
   default_parseChunk (default_config [''<s>'']) ''s>y'' FR_NONE = Inr (Some (ContentDelta ''s>y''))"
proof -
  have e: "contains ''<s>'' ''<<s>s>''" "contains ''<s>'' ''<s>x<''" "\<not> contains ''<s>'' ''s>y''"
    "\<not> stringsOverlap ''s>y'' ''<s>''" by code_simp+
  have n: "[] \<notin> set [''<s>'']" by simp
  have "strip ''<s>'' ''<<s>s>'' = ''<s>''" "strip ''<s>'' ''<s>x<'' = ''x<''" "strip ''<s>'' ''s>y'' = ''s>y''" by code_simp+
  moreover have "\<not> ends_in_part_of ''s>y'' ''<s>''" using e(4) overlap_is_part_of_tag [of "''<s>''"] by simp
  ultimately show ?thesis using e by (simp add: content_parser_erases_markers [OF n])
qed

section \<open>Reasoning\<close>

definition reasoning_text :: "Delta option \<Rightarrow> string" where
  "reasoning_text d = (case d of Some (ReasoningDelta t) \<Rightarrow> t | _ \<Rightarrow> [])"

text \<open>All reasoning a parser emits over a list of chunks.\<close>

fun reasoning_run ::
  "('s \<Rightarrow> string \<Rightarrow> int list \<Rightarrow> FinishReason \<Rightarrow> 's \<times> Delta option result) \<Rightarrow> 's \<Rightarrow>
   (string \<times> FinishReason) list \<Rightarrow> string result" where
  "reasoning_run parse s [] = Inr []"
| "reasoning_run parse s ((chunk, fr) # rest) =
     (case parse s chunk [] fr of
        (s', Inl e) \<Rightarrow> Inl e
      | (s', Inr d) \<Rightarrow> rbind (reasoning_run parse s' rest) (\<lambda>t. Inr (reasoning_text d @ t)))"

abbreviation running :: "string list \<Rightarrow> (string \<times> FinishReason) list" where
  "running \<equiv> map (\<lambda>c. (c, FR_NONE))"

lemma str_rfind_None: "\<not> contains p s \<Longrightarrow> str_rfind p s = None"
proof -
  assume n: "\<not> contains p s"
  show ?thesis
  proof (cases "str_rfind p s")
    case (Some i)
    then have "occurs_at p s i" by (simp add: str_rfind_def str_rfind_upto_Some_iff)
    then show ?thesis using n by (simp add: contains_def str_find_None_iff)
  qed
qed

lemma str_rfind_end: "p \<noteq> [] \<Longrightarrow> str_rfind p (s @ p) = Some (length s)"
  by (auto simp: str_rfind_def str_rfind_upto_Some_iff occurs_at_def)

lemma str_find_front: "str_find p (p @ s) 0 = Some 0"
  by (simp add: str_find_Some_iff occurs_at_def)

lemma qwen3_consumed_run:
  assumes "pc_endTags cfg = endTag # es" "\<forall>c\<in>set cs. \<not> contains endTag c"
  shows "reasoning_run (qwen3_parseChunk cfg) True (running cs @ rest) =
    rbind (reasoning_run (qwen3_parseChunk cfg) True rest) (\<lambda>t. Inr (concat cs @ t))"
  using assms(2)
proof (induction cs)
  case Nil
  then show ?case by (cases "reasoning_run (qwen3_parseChunk cfg) True rest") simp_all
next
  case (Cons c cs)
  show ?case
  proof (cases "c = []")
    case True
    then show ?thesis using Cons by (simp add: qwen3_parseChunk_def reasoning_text_def rbind_assoc)
  next
    case False
    then have "qwen3_parseChunk cfg True c [] FR_NONE = (True, Inr (Some (ReasoningDelta c)))"
      using Cons.prems assms(1) by (simp add: qwen3_parseChunk_def front_of_def str_rfind_None)
    then show ?thesis using Cons by (simp add: reasoning_text_def rbind_assoc)
  qed
qed

text \<open>
  The Qwen3 parser hands on exactly the body: over a first chunk that begins with the start
  tag, any chunks without the end tag and a last one that ends in it, the emitted reasoning is what
  stands between the tags, later start tags included.
\<close>

theorem qwen3_reasoning_is_the_body:
  assumes "pc_startTags cfg = startTag # ss" "startTag \<noteq> []" "pc_endTags cfg = endTag # es" "endTag \<noteq> []"
    "\<forall>c\<in>set ((startTag @ b) # cs). \<not> contains endTag c"
  shows "reasoning_run (qwen3_parseChunk cfg) False
      (running ((startTag @ b) # cs) @ [(t @ endTag, fr)]) = Inr (b @ concat cs @ t)"
proof -
  let ?parse = "qwen3_parseChunk cfg"
  have nb: "str_rfind endTag (startTag @ b) = None" using assms(5) by (intro str_rfind_None) simp
  have "?parse False (startTag @ b) [] FR_NONE = (True, Inr (if b = [] then None else Some (ReasoningDelta b)))"
    using assms(1-4) nb by (simp add: qwen3_parseChunk_def front_of_def str_find_front)
  then have first: "reasoning_run ?parse False (running ((startTag @ b) # cs) @ [(t @ endTag, fr)]) =
      rbind (reasoning_run ?parse True (running cs @ [(t @ endTag, fr)])) (\<lambda>x. Inr (b @ x))"
    by (simp add: reasoning_text_def)
  have "?parse True (t @ endTag) [] fr = (True, Inr (if t = [] then None else Some (ReasoningDelta t)))"
    using str_rfind_end [OF assms(4), of t] assms(3,4) by (simp add: qwen3_parseChunk_def front_of_def)
  then have lst: "reasoning_run ?parse True [(t @ endTag, fr)] = Inr t" by (simp add: reasoning_text_def)
  have "reasoning_run ?parse True (running cs @ [(t @ endTag, fr)]) = Inr (concat cs @ t)"
    using assms(5) lst by (subst qwen3_consumed_run [OF assms(3)]) simp_all
  with first show ?thesis by simp
qed

lemma qwen3_reasoning_is_the_body_witness:
  "reasoning_run (qwen3_parseChunk qwen3_config) False
     (running [''<think>'' @ ''a'', ''b<think>''] @ [(''c'' @ ''</think>'', FR_NONE)]) = Inr ''ab<think>c''"
proof -
  have c: "pc_startTags qwen3_config = ''<think>'' # []" "pc_endTags qwen3_config = ''</think>'' # []"
    by (simp_all add: qwen3_config_def)
  have "\<not> contains ''</think>'' (''<think>'' @ ''a'')" "\<not> contains ''</think>'' ''b<think>''" by code_simp+
  then have "\<forall>c\<in>set ((''<think>'' @ ''a'') # [''b<think>'']). \<not> contains ''</think>'' c" by simp
  from qwen3_reasoning_is_the_body [OF c(1) _ c(2) _ this, of "''c''" FR_NONE] show ?thesis by simp
qed

section \<open>Gemma4 reasoning and chunks\<close>

text \<open>The header is the first line when that is one word; the rest is the body.\<close>

definition gemma4_body :: "string \<Rightarrow> string" where
  "gemma4_body t =
     (case str_find [newline] t 0 of
        None \<Rightarrow> t
      | Some p \<Rightarrow> if firstLineIsMultiWord (take p t) then t else drop (p + 1) t)"

lemma contains_append: "\<not> contains p (a @ b) \<Longrightarrow> \<not> contains p a \<and> \<not> contains p b"
  by (auto simp: contains_iff) (metis append_assoc)+

lemma contains_drop: "\<not> contains p s \<Longrightarrow> \<not> contains p (drop k s)"
  by (metis append_take_drop_id contains_append)

lemma str_find_not_contains: "\<not> contains p s \<Longrightarrow> str_find p s 0 = None"
  by (simp add: contains_def)

lemma str_find_append: "str_find p s 0 = Some i \<Longrightarrow> str_find p (s @ t) 0 = Some i"
  by (auto simp: str_find_Some_iff occurs_at_def)

lemma body_run:
  assumes "pc_endTags cfg = endTag # es" "gr_phase s = Body" "\<not> contains endTag (concat cs)"
  shows "reasoning_run (gemma4_reasoning_parseChunk cfg) s (running cs @ [([], FR_STOP)]) = Inr (concat cs)"
  using assms(3)
proof (induction cs)
  case Nil
  then show ?case using assms(1,2)
    by (simp add: gemma4_reasoning_parseChunk_def front_of_def body_delta_def str_find_not_contains reasoning_text_def)
next
  case (Cons c cs)
  have n: "\<not> contains endTag c" "\<not> contains endTag (concat cs)" using contains_append [of endTag c "concat cs"] Cons.prems by simp_all
  have "gemma4_reasoning_parseChunk cfg s c [] FR_NONE =
      (s, Inr (if c = [] then None else Some (ReasoningDelta c)))"
    using assms(1,2) n(1) by (simp add: gemma4_reasoning_parseChunk_def front_of_def body_delta_def str_find_not_contains)
  then show ?case using Cons.IH n(2) by (simp add: reasoning_text_def)
qed

lemma header_run:
  assumes "pc_endTags cfg = endTag # es" "gr_phase s = AwaitingChannelHeader"
    "\<not> contains endTag (gr_pendingChannelHeaderText s @ concat cs)"
    "channel_header endTag (gr_pendingChannelHeaderText s) FR_NONE = None"
  shows "reasoning_run (gemma4_reasoning_parseChunk cfg) s (running cs @ [([], FR_STOP)]) =
    Inr (gemma4_body (gr_pendingChannelHeaderText s @ concat cs))"
  using assms(2-)
proof (induction cs arbitrary: s)
  case Nil
  let ?p = "gr_pendingChannelHeaderText s"
  have n: "str_find endTag ?p 0 = None" using Nil.prems(2) by (simp add: str_find_not_contains)
  have "channel_header endTag ?p FR_STOP = Some ?p" "gemma4_body ?p = ?p"
    using Nil.prems(3) n by (auto simp: channel_header_def Let_def gemma4_body_def split: option.splits if_splits)
  then show ?case using assms(1) Nil.prems(1) n
    by (simp add: gemma4_reasoning_parseChunk_def front_of_def body_delta_def Let_def reasoning_text_def)
next
  case (Cons c cs)
  let ?p = "gr_pendingChannelHeaderText s"
  have n: "\<not> contains endTag (?p @ c)" "\<not> contains endTag (concat cs)"
    using Cons.prems(2) contains_append [of endTag "?p @ c" "concat cs"] by auto
  show ?case
  proof (cases "c = []")
    case True
    then show ?thesis using Cons.IH [of s] Cons.prems
      by (simp add: gemma4_reasoning_parseChunk_def reasoning_text_def)
  next
    case False
    show ?thesis
    proof (cases "channel_header endTag (?p @ c) FR_NONE")
      case None
      then have "gemma4_reasoning_parseChunk cfg s c [] FR_NONE =
          (s\<lparr>gr_pendingChannelHeaderText := ?p @ c\<rparr>, Inr None)"
        using assms(1) Cons.prems(1) False by (simp add: gemma4_reasoning_parseChunk_def front_of_def Let_def)
      then show ?thesis
        using Cons.IH [of "s\<lparr>gr_pendingChannelHeaderText := ?p @ c\<rparr>"] Cons.prems None by (simp add: reasoning_text_def)
    next
      case (Some t)
      let ?s = "s\<lparr>gr_pendingChannelHeaderText := [], gr_phase := Body\<rparr>"
      obtain i where i: "str_find [newline] (?p @ c) 0 = Some i" "\<not> firstLineIsMultiWord (take i (?p @ c))" "t = drop (i + 1) (?p @ c)"
        using Some str_find_not_contains [OF n(1)]
        by (auto simp: channel_header_def Let_def split: option.splits if_splits)
      have le: "i + 1 \<le> length (?p @ c)" using str_find_bound [OF i(1)] by simp
      have "gemma4_reasoning_parseChunk cfg s c [] FR_NONE = (?s, Inr (body_delta endTag t))"
        using assms(1) Cons.prems(1) False Some by (simp add: gemma4_reasoning_parseChunk_def front_of_def Let_def)
      moreover have "reasoning_text (body_delta endTag t) = t"
      proof -
        have "\<not> contains endTag t"
          unfolding i(3) by (rule contains_drop [OF n(1)])
        then show ?thesis by (simp add: body_delta_def str_find_not_contains reasoning_text_def)
      qed
      moreover have "reasoning_run (gemma4_reasoning_parseChunk cfg) ?s (running cs @ [([], FR_STOP)]) = Inr (concat cs)"
        using n(2) by (intro body_run [OF assms(1)]) simp_all
      moreover have "gemma4_body (?p @ concat (c # cs)) = t @ concat cs"
        using str_find_append [OF i(1), of "concat cs"] i(2,3) le by (simp add: gemma4_body_def)
      ultimately show ?thesis by simp
    qed
  qed
qed

text \<open>
  C31: In a thought that was opened by the prompt and whose text contains no closing tag, the Gemma4 parser's
  reasoning does not depend on how the text is cut into chunks: everything up to the end comes out without
  a one-word first line, whatever the chunks.
\<close>

theorem gemma4_reasoning_independent_of_chunks:
  assumes "\<not> contains ''<channel|>'' (concat chunks)"
  shows "reasoning_run (gemma4_reasoning_parseChunk gemma4_reasoning_config)
      (new_gemma4_reasoning\<lparr>gr_implicitStart := True\<rparr>) (running chunks @ [([], FR_STOP)]) =
    Inr (gemma4_body (concat chunks))"
proof -
  let ?cfg = gemma4_reasoning_config and ?s = "new_gemma4_reasoning\<lparr>gr_implicitStart := True\<rparr>"
  let ?h = "?s\<lparr>gr_phase := AwaitingChannelHeader\<rparr>"
  have cfg: "pc_endTags ?cfg = ''<channel|>'' # []" by (simp add: gemma4_reasoning_config_def)
  have same: "reasoning_run (gemma4_reasoning_parseChunk ?cfg) ?s (running cs @ [([], FR_STOP)]) =
      reasoning_run (gemma4_reasoning_parseChunk ?cfg) ?h (running cs @ [([], FR_STOP)])" for cs
  proof (induction cs)
    case (Cons c cs)
    then show ?case by (cases "c = []") (simp_all add: gemma4_reasoning_parseChunk_def new_gemma4_reasoning_def)
  qed (simp add: gemma4_reasoning_parseChunk_def new_gemma4_reasoning_def)
  have "channel_header ''<channel|>'' [] FR_NONE = None" by code_simp
  then have "reasoning_run (gemma4_reasoning_parseChunk ?cfg) ?h (running chunks @ [([], FR_STOP)]) =
      Inr (gemma4_body (gr_pendingChannelHeaderText ?h @ concat chunks))"
    using assms by (intro header_run [OF cfg]) (simp_all add: new_gemma4_reasoning_def)
  then show ?thesis using same by (simp add: new_gemma4_reasoning_def)
qed

lemma gemma4_reasoning_independent_of_chunks_witness:
  "reasoning_run (gemma4_reasoning_parseChunk gemma4_reasoning_config)
     (new_gemma4_reasoning\<lparr>gr_implicitStart := True\<rparr>) (running [''tho'', ''ught'' @ [newline], ''a b''] @ [([], FR_STOP)]) =
   Inr ''a b''"
proof -
  have "\<not> contains ''<channel|>'' (concat [''tho'', ''ught'' @ [newline], ''a b''])" by code_simp
  moreover have "gemma4_body (concat [''tho'', ''ught'' @ [newline], ''a b'']) = ''a b''" by code_simp
  ultimately show ?thesis using gemma4_reasoning_independent_of_chunks by metis
qed

section \<open>Rendered prompts\<close>

lemma str_rfind_Some_iff: "str_rfind p s = Some i \<longleftrightarrow> occurs_at p s i \<and> (\<forall>j. occurs_at p s j \<longrightarrow> j \<le> i)"
proof -
  have "occurs_at p s j \<Longrightarrow> j \<le> length s" for j by (simp add: occurs_at_def)
  then show ?thesis unfolding str_rfind_def str_rfind_upto_Some_iff by (metis not_le)
qed

lemma str_rfind_None_iff: "str_rfind p s = None \<longleftrightarrow> (\<forall>j. \<not> occurs_at p s j)"
proof
  assume "str_rfind p s = None"
  then have "\<forall>j \<in> set (rev [0..<Suc (length s)]). \<not> occurs_at p s j"
    by (simp add: str_rfind_def str_rfind_upto_def find_None_iff del: upt_Suc)
  then show "\<forall>j. \<not> occurs_at p s j" by (auto simp: occurs_at_def)
next
  assume n: "\<forall>j. \<not> occurs_at p s j"
  then show "str_rfind p s = None" by (cases "str_rfind p s") (auto simp: str_rfind_Some_iff)
qed

lemma boundary_le: "latestGenerationBoundary prompt \<le> length prompt"
proof -
  have "fold (\<lambda>anchor b. case str_rfind anchor prompt of None \<Rightarrow> b | Some p \<Rightarrow> max b (p + length anchor)) as b \<le> length prompt"
    if "b \<le> length prompt" for as b
    using that
  proof (induction as arbitrary: b)
    case (Cons a as)
    have "(case str_rfind a prompt of None \<Rightarrow> b | Some p \<Rightarrow> max b (p + length a)) \<le> length prompt"
      using Cons.prems by (auto simp: str_rfind_Some_iff occurs_at_def split: option.split)
    then show ?case using Cons.IH by simp
  qed simp
  then show ?thesis by (simp add: latestGenerationBoundary_def)
qed

text \<open>The greatest position with a property, if any.\<close>

definition greatest_pos :: "(nat \<Rightarrow> bool) \<Rightarrow> nat option \<Rightarrow> bool" where
  "greatest_pos P m \<longleftrightarrow> (case m of None \<Rightarrow> \<forall>i. \<not> P i | Some l \<Rightarrow> P l \<and> (\<forall>i. P i \<longrightarrow> i \<le> l))"

lemma rfind_greatest: "greatest_pos (occurs_at p s) (str_rfind p s)"
proof (cases "str_rfind p s")
  case None
  then have "\<forall>i. \<not> occurs_at p s i" using str_rfind_None_iff by blast
  with None show ?thesis by (simp add: greatest_pos_def)
next
  case (Some i)
  then have "occurs_at p s i \<and> (\<forall>j. occurs_at p s j \<longrightarrow> j \<le> i)" using str_rfind_Some_iff by blast
  with Some show ?thesis by (simp add: greatest_pos_def)
qed

lemma greatest_pos_from:
  "greatest_pos P m \<Longrightarrow>
     greatest_pos (\<lambda>p. k \<le> p \<and> P p) (case m of None \<Rightarrow> None | Some p \<Rightarrow> if k \<le> p then Some p else None)"
  by (cases m) (auto simp: greatest_pos_def intro: order_trans)

lemma greatest_pos_join:
  assumes "greatest_pos P m" "greatest_pos Q n"
  shows "greatest_pos (\<lambda>p. P p \<or> Q p)
    (case n of None \<Rightarrow> m | Some q \<Rightarrow> (case m of None \<Rightarrow> Some q | Some l \<Rightarrow> if l < q then Some q else m))"
  using assms
  by (cases m; cases n) (auto simp: greatest_pos_def not_less intro: order_trans [OF _ less_imp_le] order_trans)

lemma latestTag_greatest:
  "greatest_pos (\<lambda>p. k \<le> p \<and> (\<exists>tag. tag \<in> set tags \<and> tag \<noteq> [] \<and> occurs_at tag prompt p)) (latestTag prompt tags k)"
proof -
  let ?P = "\<lambda>seen p. k \<le> p \<and> (\<exists>tag. tag \<in> seen \<and> tag \<noteq> [] \<and> occurs_at tag prompt p)"
  let ?f = "\<lambda>tag latest. if tag = [] then latest
             else case str_rfind tag prompt of
                    None \<Rightarrow> latest
                  | Some p \<Rightarrow> if k \<le> p \<and> (case latest of None \<Rightarrow> True | Some l \<Rightarrow> l < p) then Some p else latest"
  have step: "greatest_pos (?P (insert t seen)) (?f t m)" if "greatest_pos (?P seen) m" for t seen m
  proof (cases "t = []")
    case True
    then have "?P (insert t seen) = ?P seen" by blast
    then show ?thesis using that True by simp
  next
    case False
    then have "?P (insert t seen) = (\<lambda>p. ?P seen p \<or> (k \<le> p \<and> occurs_at t prompt p))" by blast
    moreover have "?f t m = (case (case str_rfind t prompt of None \<Rightarrow> None | Some p \<Rightarrow> if k \<le> p then Some p else None) of
        None \<Rightarrow> m | Some q \<Rightarrow> (case m of None \<Rightarrow> Some q | Some l \<Rightarrow> if l < q then Some q else m))"
      using False by (auto split: option.split)
    ultimately show ?thesis
      using greatest_pos_join [OF that greatest_pos_from [OF rfind_greatest]] by simp
  qed
  have "greatest_pos (?P (set ts \<union> seen)) (fold ?f ts m)" if "greatest_pos (?P seen) m" for ts seen m
    using that
  proof (induction ts arbitrary: seen m)
    case (Cons t ts)
    from Cons.IH [OF step [OF Cons.prems, of t]] show ?case by simp
  qed simp
  moreover have "greatest_pos (?P {}) None" by (simp add: greatest_pos_def)
  ultimately have "greatest_pos (?P (set tags \<union> {})) (fold ?f tags None)" by blast
  then show ?thesis by (simp add: latestTag_def)
qed

lemma greatest_pos_shift:
  assumes "greatest_pos (\<lambda>p. b \<le> p \<and> P p) m"
  shows "greatest_pos (\<lambda>i. P (b + i)) (map_option (\<lambda>p. p - b) m)"
proof (cases m)
  case None
  then show ?thesis using assms by (simp add: greatest_pos_def)
next
  case (Some l)
  then have l: "b \<le> l" "P l" "\<And>p. b \<le> p \<Longrightarrow> P p \<Longrightarrow> p \<le> l" using assms by (auto simp: greatest_pos_def)
  have "i \<le> l - b" if "P (b + i)" for i using l(3) [OF _ that] by simp
  then show ?thesis using l(1,2) Some by (simp add: greatest_pos_def)
qed

definition by_positions :: "nat option \<Rightarrow> nat option \<Rightarrow> Gemma4RenderedPromptState" where
  "by_positions s e =
     (case s of
        Some i \<Rightarrow> (case e of None \<Rightarrow> OPEN_THOUGHT
                  | Some j \<Rightarrow> if j < i then OPEN_THOUGHT else if i < j then CLOSED_THOUGHT else NEW_TURN)
      | None \<Rightarrow> (case e of None \<Rightarrow> NEW_TURN | Some j \<Rightarrow> CLOSED_THOUGHT))"

lemma by_positions_shift:
  assumes "\<And>p. s = Some p \<Longrightarrow> b \<le> p" "\<And>p. e = Some p \<Longrightarrow> b \<le> p"
  shows "by_positions (map_option (\<lambda>p. p - b) s) (map_option (\<lambda>p. p - b) e) = by_positions s e"
proof (cases s)
  case (Some p)
  show ?thesis
  proof (cases e)
    case (Some q)
    then show ?thesis using assms \<open>s = Some p\<close> by (auto simp: by_positions_def less_diff_iff)
  qed (simp add: by_positions_def Some)
qed (cases e; simp add: by_positions_def)

lemma by_positions_verdict:
  assumes "greatest_pos S s" "greatest_pos E e"
  shows "by_positions s e = OPEN_THOUGHT \<longleftrightarrow> (\<exists>i. S i \<and> (\<forall>j. E j \<longrightarrow> j < i))"
    "by_positions s e = CLOSED_THOUGHT \<longleftrightarrow> (\<exists>j. E j \<and> (\<forall>i. S i \<longrightarrow> i < j))"
proof -
  have less: "(\<exists>i. A i \<and> (\<forall>j. B j \<longrightarrow> j < i)) \<longleftrightarrow> (\<exists>i. m = Some i \<and> (\<forall>j. n = Some j \<longrightarrow> j < i))"
    if "greatest_pos A m" "greatest_pos B n" for A B m n
    using that by (cases m; cases n) (auto simp: greatest_pos_def, (meson order_le_less_trans order_less_le_trans)+)
  show "by_positions s e = OPEN_THOUGHT \<longleftrightarrow> (\<exists>i. S i \<and> (\<forall>j. E j \<longrightarrow> j < i))"
    unfolding less [OF assms] by (auto simp: by_positions_def split: option.splits)
  show "by_positions s e = CLOSED_THOUGHT \<longleftrightarrow> (\<exists>j. E j \<and> (\<forall>i. S i \<longrightarrow> i < j))"
    unfolding less [OF assms(2,1)] by (auto simp: by_positions_def split: option.splits)
qed

text \<open>
  A rendered prompt is classified by its part after the last anchor alone: it is an open thought
  exactly when a start tag occurs there after every end tag, and a closed one exactly when an end
  tag occurs there after every start tag.
\<close>

theorem rendered_prompt_state_reads_the_last_turn:
  assumes "endTag \<noteq> []"
  shows "(classifyRenderedPromptState prompt startTags endTag = OPEN_THOUGHT \<longleftrightarrow>
      (\<exists>tag i. tag \<in> set startTags \<and> tag \<noteq> [] \<and> occurs_at tag (drop (latestGenerationBoundary prompt) prompt) i \<and>
        (\<forall>j. occurs_at endTag (drop (latestGenerationBoundary prompt) prompt) j \<longrightarrow> j < i))) \<and>
    (classifyRenderedPromptState prompt startTags endTag = CLOSED_THOUGHT \<longleftrightarrow>
      (\<exists>j. occurs_at endTag (drop (latestGenerationBoundary prompt) prompt) j \<and>
        (\<forall>tag i. tag \<in> set startTags \<and> tag \<noteq> [] \<and> occurs_at tag (drop (latestGenerationBoundary prompt) prompt) i \<longrightarrow> i < j)))"
proof -
  let ?b = "latestGenerationBoundary prompt"
  let ?suffix = "drop ?b prompt"
  let ?S = "\<lambda>p. \<exists>tag. tag \<in> set startTags \<and> tag \<noteq> [] \<and> occurs_at tag prompt p"
  define s where "s = latestTag prompt startTags ?b"
  define e where "e = (case str_rfind endTag prompt of None \<Rightarrow> None | Some p \<Rightarrow> if ?b \<le> p then Some p else None)"
  have sfx: "occurs_at p ?suffix i \<longleftrightarrow> occurs_at p prompt (?b + i)" for p i
    by (rule occurs_at_drop [OF boundary_le])
  have S: "greatest_pos (\<lambda>p. ?b \<le> p \<and> ?S p) s"
    unfolding s_def by (rule latestTag_greatest)
  have E: "greatest_pos (\<lambda>p. ?b \<le> p \<and> occurs_at endTag prompt p) e"
    unfolding e_def by (rule greatest_pos_from [OF rfind_greatest])
  have le: "\<And>p. s = Some p \<Longrightarrow> ?b \<le> p" "\<And>p. e = Some p \<Longrightarrow> ?b \<le> p"
    using S E by (auto simp: greatest_pos_def)
  have "classifyRenderedPromptState prompt startTags endTag = by_positions s e"
    using assms by (auto simp: classifyRenderedPromptState_def Let_def s_def e_def by_positions_def split: option.splits)
  also have "\<dots> = by_positions (map_option (\<lambda>p. p - ?b) s) (map_option (\<lambda>p. p - ?b) e)"
    by (rule by_positions_shift [OF le, symmetric])
  finally have cls: "classifyRenderedPromptState prompt startTags endTag = \<dots>" .
  have flat: "(\<exists>tag i. tag \<in> set startTags \<and> tag \<noteq> [] \<and> occurs_at tag prompt (?b + i) \<and> Q i) \<longleftrightarrow> (\<exists>i. ?S (?b + i) \<and> Q i)"
    "(\<forall>tag i. tag \<in> set startTags \<and> tag \<noteq> [] \<and> occurs_at tag prompt (?b + i) \<longrightarrow> Q i) \<longleftrightarrow> (\<forall>i. ?S (?b + i) \<longrightarrow> Q i)" for Q
    by blast+
  show ?thesis
    unfolding cls sfx flat
    using by_positions_verdict [OF greatest_pos_shift [OF S] greatest_pos_shift [OF E]] by simp
qed

lemma rendered_prompt_state_reads_the_last_turn_witness:
  "classifyRenderedPromptState ''<|turn>model'' [''<|channel>''] ''<channel|>'' \<noteq> OPEN_THOUGHT"
proof -
  have "drop (latestGenerationBoundary ''<|turn>model'') ''<|turn>model'' = ''<|turn>model''" by code_simp
  moreover have "str_find ''<|channel>'' ''<|turn>model'' 0 = None" by code_simp
  ultimately show ?thesis
    using rendered_prompt_state_reads_the_last_turn [of "''<channel|>''" "''<|turn>model''" "[''<|channel>'']"]
    by (auto simp: str_find_None_iff)
qed

section \<open>What the router asks of a parser\<close>

text \<open>
  A parser returns for every chunk; one for content moreover hands out what it holds once a
  generation ends.
\<close>

locale returning_parser =
  fixes ops :: "'s parser_ops"
  assumes returns: "\<exists>d. snd (po_parseChunk ops s chunk tokens fr) = Inr d"

locale content_parser = returning_parser +
  assumes flushes: "fr \<noteq> FR_NONE \<Longrightarrow> \<exists>s' d. po_parseChunk ops s chunk tokens fr = (s', Inr (Some d))"

lemma qwen3_returns:
  "pc_startTags cfg \<noteq> [] \<Longrightarrow> pc_endTags cfg \<noteq> [] \<Longrightarrow> returning_parser (qwen3_reasoning_parser cfg)"
  by unfold_locales
    (auto simp: qwen3_reasoning_parser_def qwen3_parseChunk_def front_of_def neq_Nil_conv Let_def split: option.split)

lemma gemma4_returns:
  "pc_startTags cfg \<noteq> [] \<Longrightarrow> pc_endTags cfg \<noteq> [] \<Longrightarrow> returning_parser (gemma4_reasoning_parser cfg)"
  by unfold_locales
    (auto simp: gemma4_reasoning_parser_def gemma4_reasoning_parseChunk_def front_of_def neq_Nil_conv Let_def
      split: option.split)

lemma default_content_returns: "[] \<notin> set tags \<Longrightarrow> content_parser (default_content_parser tags)"
  by unfold_locales (auto simp: default_content_parser_def default_parseChunk_def default_config_def
      empty_OutputParsingConfig_def Let_def erase_tags_strip)

interpretation qwen3: returning_parser "qwen3_reasoning_parser qwen3_config"
  by (rule qwen3_returns) (simp_all add: qwen3_config_def)

interpretation gemma4_thoughts: returning_parser "gemma4_reasoning_parser gemma4_reasoning_config"
  by (rule gemma4_returns) (simp_all add: gemma4_reasoning_config_def)

interpretation plain_content: content_parser "default_content_parser []"
  by (rule default_content_returns) simp

interpretation marked_content: content_parser "default_content_parser [''<s>'', ''<|im_end|>'']"
  by (rule default_content_returns) simp

end
