(* ===== verification/Output_Router.thy ===== *)
theory Output_Router
  imports Output_Parsers
begin

text \<open>
  The router of generated text (\<open>src/llm/io_processing/output_parser.cpp\<close>): it buffers decoded
  chunks, finds the tags that open and close the phases of a generation and gives each stretch of
  text to the parser of its phase. The parsers are objects with the interface of
  \<open>Output_Parsers\<close>, of any state types; a null pointer is \<open>None\<close>. The state that an exception leaves
  behind is kept: an operation yields the next state together with a delta, nothing or an
  exception. Trace logging is left out.
\<close>

section \<open>State\<close>

datatype TagLookupStatus = NOT_FOUND | FOUND_COMPLETE | FOUND_INCOMPLETE

datatype ProcessingPhase =
    PH_UNKNOWN
  | PH_CONTENT
  | PH_REASONING
  | PH_TOOL_CALLS_PROCESSING_TOOL
  | PH_TOOL_CALLS_WAITING_FOR_TOOL

text \<open>A parser object: its operations, its state and its resolved start tokens.\<close>

record 's parser_object =
  ob_ops :: "'s parser_ops"
  ob_state :: 's
  ob_resolvedStartTokenToTag :: "int \<rightharpoonup> string"

abbreviation ob_config :: "'s parser_object \<Rightarrow> OutputParsingConfig" where
  "ob_config ob \<equiv> po_config (ob_ops ob)"

definition ob_parseChunk ::
  "'s parser_object \<Rightarrow> string \<Rightarrow> int list \<Rightarrow> FinishReason \<Rightarrow> 's parser_object \<times> Delta option result" where
  "ob_parseChunk ob chunk tokens fr =
     (let (s, r) = po_parseChunk (ob_ops ob) (ob_state ob) chunk tokens fr in (ob\<lparr>ob_state := s\<rparr>, r))"

definition ob_drainPendingDelta :: "'s parser_object \<Rightarrow> 's parser_object \<times> Delta option" where
  "ob_drainPendingDelta ob = (let (s, d) = po_drainPendingDelta (ob_ops ob) (ob_state ob) in (ob\<lparr>ob_state := s\<rparr>, d))"

definition ob_resetState :: "'s parser_object \<Rightarrow> 's parser_object" where
  "ob_resetState ob = ob\<lparr>ob_state := po_resetState (ob_ops ob) (ob_state ob)\<rparr>"

definition ob_setImplicitStart :: "bool \<Rightarrow> 's parser_object \<Rightarrow> 's parser_object" where
  "ob_setImplicitStart b ob = ob\<lparr>ob_state := po_setImplicitStart (ob_ops ob) b (ob_state ob)\<rparr>"

record ('t, 'r, 'c) OutputParser =
  op_toolParser :: "'t parser_object option"
  op_reasoningParser :: "'r parser_object option"
  op_contentParser :: "'c parser_object"
  op_processingPhase :: ProcessingPhase
  op_buffer :: string
  op_implicitReasoningStart :: bool
  op_gemma4ToolHandoff :: bool
  op_pendingGemma4ToolHandoff :: bool
  op_toolsEnabledForChunk :: bool
  op_gemma4LogicalBoundary :: bool
  op_gemma4ReasoningClosed :: bool
  op_contentSpecialTokensVisible :: bool
  op_contentTokensToHide :: "string list"
  op_terminalContentFinish :: FinishReason
  op_defaultDecodingWithSpecialTokens :: bool

type_synonym ('t, 'r, 'c) outcome = "('t, 'r, 'c) OutputParser \<times> Delta option result"

text \<open>Dereferencing a null parser.\<close>

abbreviation null_parser :: "exn + 'a" where
  "null_parser \<equiv> Inl (LogicError ''null parser'')"

section \<open>Construction\<close>

definition supported_tool_parsers :: "string list" where
  "supported_tool_parsers = [''llama3'', ''hermes3'', ''phi4'', ''mistral'', ''gptoss'', ''qwen3coder'', ''devstral'',
     ''lfm2'', ''gemma4'', ''onyx'', ''minicpm5'']"

definition supported_reasoning_parsers :: "string list" where
  "supported_reasoning_parsers = [''qwen3'', ''gemma4'', ''gptoss'', ''minicpm5'', ''lfm2'', ''onyx'']"

text \<open>Which content parser the constructor makes.\<close>

datatype content_kind = OnyxContent | GptOssContent | DefaultContent "string list"

definition content_kind_for :: "string \<Rightarrow> string \<Rightarrow> content_kind" where
  "content_kind_for toolParserName reasoningParserName =
     (if toolParserName = ''onyx'' \<or> reasoningParserName = ''onyx'' then OnyxContent
      else if toolParserName = ''gptoss'' \<or> reasoningParserName = ''gptoss'' then GptOssContent
      else if toolParserName = ''gemma4''
      then DefaultContent [''<turn|>'', ''<|tool_response>'', ''<|channel>thought'' @ [newline], ''<channel|>'']
      else if toolParserName = ''lfm2'' then DefaultContent [''<|im_end|>'']
      else if toolParserName = ''minicpm5'' then DefaultContent [''<s>'', ''<|im_end|>'']
      else DefaultContent [])"

text \<open>
  The constructor; the parser classes it instantiates by name are parameters. The error texts leave
  out the list of supported names.
\<close>

definition new_OutputParser ::
  "(string \<Rightarrow> 't parser_object) \<Rightarrow> (string \<Rightarrow> 'r parser_object) \<Rightarrow> (content_kind \<Rightarrow> 'c parser_object) \<Rightarrow>
   string \<Rightarrow> string \<Rightarrow> ('t, 'r, 'c) OutputParser result" where
  "new_OutputParser make_tool make_reasoning make_content toolParserName reasoningParserName =
     (if toolParserName \<noteq> [] \<and> toolParserName \<notin> set supported_tool_parsers
      then Inl (RuntimeError (''Unsupported tool parser: '' @ toolParserName))
      else if reasoningParserName \<noteq> [] \<and> reasoningParserName \<notin> set supported_reasoning_parsers
      then Inl (RuntimeError (''Unsupported reasoning parser: '' @ reasoningParserName))
      else let tool = (if toolParserName = [] then None else Some (make_tool toolParserName));
               reasoning = (if reasoningParserName = [] then None else Some (make_reasoning reasoningParserName));
               handoff = (toolParserName = ''gemma4'' \<and> reasoningParserName = ''gemma4'');
               visible = (\<lambda>p. case p of None \<Rightarrow> False | Some ob \<Rightarrow> pc_defaultDecodingWithSpecialTokens (ob_config ob));
               visible_r = (\<lambda>p. case p of None \<Rightarrow> False | Some ob \<Rightarrow> pc_defaultDecodingWithSpecialTokens (ob_config ob))
           in Inr \<lparr>op_toolParser = tool, op_reasoningParser = reasoning,
                   op_contentParser = make_content (content_kind_for toolParserName reasoningParserName),
                   op_processingPhase = PH_UNKNOWN, op_buffer = [], op_implicitReasoningStart = False,
                   op_gemma4ToolHandoff = handoff, op_pendingGemma4ToolHandoff = False, op_toolsEnabledForChunk = False,
                   op_gemma4LogicalBoundary = True, op_gemma4ReasoningClosed = False, op_contentSpecialTokensVisible = True,
                   op_contentTokensToHide = (if toolParserName = ''gemma4''
                     then [''<|tool_call>'', ''<tool_call|>'', ''<|'' @ [dquote] @ ''|>''] else []),
                   op_terminalContentFinish = FR_NONE,
                   op_defaultDecodingWithSpecialTokens = (handoff \<or> visible tool \<or> visible_r reasoning)\<rparr>)"

definition isToolParserAvailable :: "('t, 'r, 'c) OutputParser \<Rightarrow> bool" where
  "isToolParserAvailable this \<longleftrightarrow> op_toolParser this \<noteq> None"

definition isReasoningParserAvailable :: "('t, 'r, 'c) OutputParser \<Rightarrow> bool" where
  "isReasoningParserAvailable this \<longleftrightarrow> op_reasoningParser this \<noteq> None"

definition getToolParserStartTag :: "('t, 'r, 'c) OutputParser \<Rightarrow> string result" where
  "getToolParserStartTag this =
     (case op_toolParser this of
        Some ob \<Rightarrow> front_of (pc_startTags (ob_config ob))
      | None \<Rightarrow> Inl (RuntimeError ''Tool parser is not available, cannot get start tag''))"

section \<open>Looking for tags\<close>

definition lookupTag :: "string \<Rightarrow> string \<Rightarrow> TagLookupStatus" where
  "lookupTag buffer tag =
     (if tag = [] then NOT_FOUND
      else if length buffer < length tag
      then (if stringsOverlap buffer tag then FOUND_INCOMPLETE else NOT_FOUND)
      else if length tag < length buffer
      then (if contains tag buffer then FOUND_COMPLETE
            else if stringsOverlap buffer tag then FOUND_INCOMPLETE else NOT_FOUND)
      else (if buffer = tag then FOUND_COMPLETE
            else if stringsOverlap buffer tag then FOUND_INCOMPLETE else NOT_FOUND))"

fun lookup_loop :: "string \<Rightarrow> string list \<Rightarrow> TagLookupStatus \<Rightarrow> TagLookupStatus" where
  "lookup_loop buffer [] finalTagLookupStatus = finalTagLookupStatus"
| "lookup_loop buffer (tag # tags) finalTagLookupStatus =
     (case lookupTag buffer tag of
        FOUND_COMPLETE \<Rightarrow> FOUND_COMPLETE
      | FOUND_INCOMPLETE \<Rightarrow> lookup_loop buffer tags FOUND_INCOMPLETE
      | NOT_FOUND \<Rightarrow> lookup_loop buffer tags finalTagLookupStatus)"

definition lookupTags :: "string \<Rightarrow> string list \<Rightarrow> TagLookupStatus" where
  "lookupTags buffer tags = lookup_loop buffer tags NOT_FOUND"

text \<open>
  A tool preamble of the Gemma4 pair counts only where a logical line begins: after a newline, or at
  the start of the buffer at a logical boundary, with nothing but spaces before it.
\<close>

definition line_start :: "bool \<Rightarrow> string \<Rightarrow> nat \<Rightarrow> bool" where
  "line_start boundary buffer pos =
     (let nl = (if pos = 0 then None else str_rfind_upto [newline] buffer (pos - 1));
          begin_pos = (case nl of None \<Rightarrow> 0 | Some p \<Rightarrow> p + 1)
      in (nl \<noteq> None \<or> boundary) \<and> list_all is_space (drop begin_pos (take pos buffer)))"

definition preamble_at :: "bool \<Rightarrow> string \<Rightarrow> string \<Rightarrow> nat \<Rightarrow> TagLookupStatus" where
  "preamble_at boundary buffer tag pos =
     (if \<not> line_start boundary buffer pos then NOT_FOUND
      else let n = min (length tag) (length buffer - pos)
           in if take n (drop pos buffer) = take n tag
              then (if n = length tag then FOUND_COMPLETE else FOUND_INCOMPLETE) else NOT_FOUND)"

definition lookupToolPreamble :: "('t, 'r, 'c) OutputParser \<Rightarrow> 't parser_object \<Rightarrow> TagLookupStatus" where
  "lookupToolPreamble this tool =
     (let buffer = op_buffer this; tags = pc_preambleStartTags (ob_config tool)
      in if \<not> op_gemma4ToolHandoff this then lookupTags buffer tags
         else let found = concat (map (\<lambda>tag. map (preamble_at (op_gemma4LogicalBoundary this) buffer tag) [0..<length buffer]) tags)
              in if FOUND_COMPLETE \<in> set found then FOUND_COMPLETE
                 else if FOUND_INCOMPLETE \<in> set found then FOUND_INCOMPLETE else NOT_FOUND)"

text \<open>The bare channel header of the Gemma4 pair at the start of the buffer.\<close>

fun bare_header :: "string \<Rightarrow> string list \<Rightarrow> TagLookupStatus \<Rightarrow> TagLookupStatus" where
  "bare_header buffer [] status = status"
| "bare_header buffer (tag # tags) status =
     (let n = min (length buffer) (length tag)
      in if n \<noteq> 0 \<and> take n buffer = take n tag
         then (if n = length tag then FOUND_COMPLETE else bare_header buffer tags FOUND_INCOMPLETE)
         else bare_header buffer tags status)"

section \<open>Delivering a stretch of text\<close>

definition content_boundary :: "string \<Rightarrow> bool \<Rightarrow> bool" where
  "content_boundary t old =
     (let nl = str_rfind [newline] t; begin_pos = (case nl of None \<Rightarrow> 0 | Some p \<Rightarrow> p + 1)
      in (nl \<noteq> None \<or> old) \<and> list_all is_space (drop begin_pos t))"

definition parseContentChunk :: "FinishReason \<Rightarrow> ProcessingPhase \<Rightarrow> ('t, 'r, 'c) OutputParser \<Rightarrow> ('t, 'r, 'c) outcome" where
  "parseContentChunk finishReason newPhase this =
     (let fr = (if op_terminalContentFinish this \<noteq> FR_NONE then op_terminalContentFinish this else finishReason);
          filtering = (\<not> op_contentSpecialTokensVisible this \<and> \<not> op_toolsEnabledForChunk this \<and> op_contentTokensToHide this \<noteq> [])
      in case (if filtering then erase_tags (op_contentTokensToHide this) (op_buffer this) else Inr (op_buffer this)) of
           Inl e \<Rightarrow> (this, Inl e)
         | Inr content \<Rightarrow>
             if filtering \<and> fr = FR_NONE \<and> list_ex (\<lambda>tag. stringsOverlap content tag) (op_contentTokensToHide this)
             then (this, Inr None)
             else case ob_parseChunk (op_contentParser this) content [] fr of
                    (ob, Inl e) \<Rightarrow> (this\<lparr>op_contentParser := ob\<rparr>, Inl e)
                  | (ob, Inr None) \<Rightarrow> (this\<lparr>op_contentParser := ob\<rparr>, Inr None)
                  | (ob, Inr (Some d)) \<Rightarrow>
                      let that = this\<lparr>op_contentParser := ob, op_buffer := [], op_processingPhase := newPhase\<rparr>
                      in case d of
                           ContentDelta t \<Rightarrow>
                             (that\<lparr>op_gemma4LogicalBoundary :=
                                (if op_gemma4ToolHandoff that then content_boundary t (op_gemma4LogicalBoundary that)
                                 else op_gemma4LogicalBoundary that)\<rparr>,
                              Inr (if t = [] then None else Some d))
                         | _ \<Rightarrow> (that, Inr (Some d)))"

text \<open>The part of the buffer up to the end of the earliest tag, and the rest.\<close>

definition owned_chunk :: "string \<Rightarrow> string list \<Rightarrow> string \<times> string" where
  "owned_chunk buffer endTags =
     (case findEarliestTag buffer endTags of
        None \<Rightarrow> (buffer, [])
      | Some (p, l) \<Rightarrow> (take (p + l) buffer, drop (p + l) buffer))"

definition parseToolCallChunk ::
  "int list \<Rightarrow> FinishReason \<Rightarrow> ProcessingPhase \<Rightarrow> ('t, 'r, 'c) OutputParser \<Rightarrow> ('t, 'r, 'c) outcome" where
  "parseToolCallChunk tokens finishReason newPhase this =
     (case op_toolParser this of
        None \<Rightarrow> (this, Inl (RuntimeError ''Tool parser is not available, cannot parse tool call chunk''))
      | Some tool \<Rightarrow>
          let (owned, remainder) = owned_chunk (op_buffer this) (pc_endTags (ob_config tool))
          in case ob_parseChunk tool owned tokens finishReason of
               (ob, Inl e) \<Rightarrow> (this\<lparr>op_toolParser := Some ob, op_buffer := []\<rparr>, Inl e)
             | (ob, Inr d) \<Rightarrow>
                 (this\<lparr>op_toolParser := Some ob, op_buffer := remainder, op_processingPhase := newPhase\<rparr>, Inr d))"

text \<open>The part of \<open>parseReasoningChunk\<close> after the Gemma4 handoff.\<close>

definition reasoning_envelope ::
  "int list \<Rightarrow> FinishReason \<Rightarrow> ProcessingPhase \<Rightarrow> 'r parser_object \<Rightarrow> ('t, 'r, 'c) OutputParser \<Rightarrow> ('t, 'r, 'c) outcome" where
  "reasoning_envelope tokens finishReason newPhase reasoning this =
     (let (owned, remainder) = owned_chunk (op_buffer this) (pc_endTags (ob_config reasoning));
          this1 = (if findEarliestTag (op_buffer this) (pc_endTags (ob_config reasoning)) = None then this
                   else this\<lparr>op_gemma4ReasoningClosed := True\<rparr>)
      in case ob_parseChunk reasoning owned tokens finishReason of
           (ob, Inl e) \<Rightarrow> (this1\<lparr>op_reasoningParser := Some ob, op_buffer := []\<rparr>, Inl e)
         | (ob, Inr d) \<Rightarrow>
             (this1\<lparr>op_reasoningParser := Some ob, op_buffer := remainder, op_processingPhase := newPhase\<rparr>, Inr d))"

definition before_end :: "TagMatch option \<Rightarrow> TagMatch option \<Rightarrow> bool" where
  "before_end start end' = (case start of None \<Rightarrow> False | Some (p, _) \<Rightarrow> (case end' of None \<Rightarrow> True | Some (q, _) \<Rightarrow> p < q))"

definition parseReasoningChunk ::
  "int list \<Rightarrow> FinishReason \<Rightarrow> ProcessingPhase \<Rightarrow> ('t, 'r, 'c) OutputParser \<Rightarrow> ('t, 'r, 'c) outcome" where
  "parseReasoningChunk tokens finishReason newPhase this =
     (case op_reasoningParser this of
        None \<Rightarrow> (this, Inl (RuntimeError ''Reasoning parser is not available, cannot parse reasoning chunk''))
      | Some reasoning \<Rightarrow>
          if \<not> (op_gemma4ToolHandoff this \<and> op_toolsEnabledForChunk this)
          then reasoning_envelope tokens finishReason newPhase reasoning this
          else case op_toolParser this of
            None \<Rightarrow> (this, null_parser)
          | Some tool \<Rightarrow>
              let buffer = op_buffer this;
                  toolStart = findEarliestTag buffer (pc_startTags (ob_config tool));
                  reasoningEnd = findEarliestTag buffer (pc_endTags (ob_config reasoning))
              in if before_end toolStart reasoningEnd
                 then let p = fst (the toolStart);
                          endTags = pc_endTags (ob_config reasoning)
                      in case ob_parseChunk reasoning (take p buffer @ (if endTags = [] then [] else hd endTags)) tokens FR_NONE of
                           (ob, Inl e) \<Rightarrow> (this\<lparr>op_reasoningParser := Some ob\<rparr>, Inl e)
                         | (ob, Inr d) \<Rightarrow>
                             let this1 = this\<lparr>op_reasoningParser := Some ob, op_buffer := drop p buffer,
                                   op_processingPhase := PH_UNKNOWN, op_gemma4ReasoningClosed := True\<rparr>
                             in case d of
                                  Some _ \<Rightarrow> (this1\<lparr>op_pendingGemma4ToolHandoff := True\<rparr>, Inr d)
                                | None \<Rightarrow> parseToolCallChunk tokens finishReason PH_TOOL_CALLS_PROCESSING_TOOL
                                            (this1\<lparr>op_pendingGemma4ToolHandoff := False\<rparr>)
                 else if lookupTags buffer (pc_startTags (ob_config tool)) = FOUND_INCOMPLETE \<and> finishReason = FR_NONE
                 then (this, Inr None)
                 else reasoning_envelope tokens finishReason newPhase reasoning this)"

section \<open>The phases\<close>

text \<open>A reasoning start tag is complete: the phase is entered unless its end tag is still open.\<close>

definition enter_reasoning ::
  "int list \<Rightarrow> FinishReason \<Rightarrow> 'r parser_object \<Rightarrow> ('t, 'r, 'c) OutputParser \<Rightarrow> ('t, 'r, 'c) outcome" where
  "enter_reasoning tokens finishReason reasoning this =
     (case lookupTags (op_buffer this) (pc_endTags (ob_config reasoning)) of
        FOUND_COMPLETE \<Rightarrow> parseReasoningChunk tokens finishReason PH_UNKNOWN this
      | FOUND_INCOMPLETE \<Rightarrow>
          if finishReason = FR_NONE then (this, Inr None) else parseReasoningChunk tokens finishReason PH_REASONING this
      | NOT_FOUND \<Rightarrow> parseReasoningChunk tokens finishReason PH_REASONING this)"

text \<open>\<open>reasoningStartTagStatus\<close> of the UNKNOWN phase.\<close>

definition reasoning_start :: "('t, 'r, 'c) OutputParser \<Rightarrow> 'r parser_object \<Rightarrow> TagLookupStatus" where
  "reasoning_start this reasoning =
     (let buffer = op_buffer this; status = lookupTags buffer (pc_startTags (ob_config reasoning))
      in if status \<noteq> NOT_FOUND then status
         else if \<not> op_gemma4ToolHandoff this then lookupTags buffer (pc_preambleStartTags (ob_config reasoning))
         else if \<not> op_gemma4ReasoningClosed this then bare_header buffer (pc_preambleStartTags (ob_config reasoning)) NOT_FOUND
         else NOT_FOUND)"

text \<open>The UNKNOWN phase; \<open>reasoning\<close> and \<open>tool\<close> are the parsers that stream.\<close>

definition unknown_phase ::
  "int list \<Rightarrow> FinishReason \<Rightarrow> 'r parser_object option \<Rightarrow> 't parser_object option \<Rightarrow> ('t, 'r, 'c) OutputParser \<Rightarrow> ('t, 'r, 'c) outcome" where
  "unknown_phase tokens finishReason reasoning tool this =
     (let rstatus = (case reasoning of None \<Rightarrow> NOT_FOUND | Some ob \<Rightarrow> reasoning_start this ob)
      in if rstatus = FOUND_COMPLETE then enter_reasoning tokens finishReason (the reasoning) this
         else let tstatus = (case tool of
                     None \<Rightarrow> NOT_FOUND
                   | Some ob \<Rightarrow> (let s = lookupTags (op_buffer this) (pc_startTags (ob_config ob))
                                in if s = NOT_FOUND then lookupToolPreamble this ob else s))
              in if tstatus = FOUND_COMPLETE
                 then parseToolCallChunk tokens finishReason PH_TOOL_CALLS_PROCESSING_TOOL this
                 else let anyStart = (if tstatus = FOUND_INCOMPLETE then tstatus else rstatus)
                      in if (reasoning = None \<and> tool = None) \<or> op_terminalContentFinish this \<noteq> FR_NONE \<or> anyStart = NOT_FOUND
                         then parseContentChunk finishReason PH_CONTENT this
                         else (this, Inr None))"

definition reasoning_phase :: "int list \<Rightarrow> FinishReason \<Rightarrow> ('t, 'r, 'c) OutputParser \<Rightarrow> ('t, 'r, 'c) outcome" where
  "reasoning_phase tokens finishReason this =
     (case op_reasoningParser this of
        None \<Rightarrow> (this, null_parser)
      | Some reasoning \<Rightarrow> enter_reasoning tokens finishReason reasoning this)"

definition content_phase ::
  "int list \<Rightarrow> FinishReason \<Rightarrow> 't parser_object option \<Rightarrow> ('t, 'r, 'c) OutputParser \<Rightarrow> ('t, 'r, 'c) outcome" where
  "content_phase tokens finishReason tool this =
     (case tool of
        None \<Rightarrow> parseContentChunk finishReason PH_CONTENT this
      | Some ob \<Rightarrow>
          let s = lookupTags (op_buffer this) (pc_startTags (ob_config ob));
              status = (if s = NOT_FOUND \<and> op_gemma4ToolHandoff this then lookupToolPreamble this ob else s)
          in if status = FOUND_COMPLETE then parseToolCallChunk tokens finishReason PH_TOOL_CALLS_PROCESSING_TOOL this
             else if status = FOUND_INCOMPLETE \<and> finishReason = FR_NONE then (this, Inr None)
             else parseContentChunk finishReason PH_CONTENT this)"

definition processing_tool_phase :: "int list \<Rightarrow> FinishReason \<Rightarrow> ('t, 'r, 'c) OutputParser \<Rightarrow> ('t, 'r, 'c) outcome" where
  "processing_tool_phase tokens finishReason this =
     (case op_toolParser this of
        None \<Rightarrow> (this, null_parser)
      | Some tool \<Rightarrow>
          let status = lookupTags (op_buffer this) (pc_endTags (ob_config tool))
          in if status = FOUND_INCOMPLETE \<and> finishReason = FR_NONE then (this, Inr None)
             else if status = FOUND_COMPLETE then parseToolCallChunk tokens finishReason PH_TOOL_CALLS_WAITING_FOR_TOOL this
             else parseToolCallChunk tokens finishReason PH_TOOL_CALLS_PROCESSING_TOOL this)"

text \<open>Waiting for the next tool call, without the check for a further Gemma4 thought.\<close>

definition waiting_rest :: "int list \<Rightarrow> FinishReason \<Rightarrow> ('t, 'r, 'c) OutputParser \<Rightarrow> ('t, 'r, 'c) outcome" where
  "waiting_rest tokens finishReason this =
     (case op_toolParser this of
        None \<Rightarrow> (this, null_parser)
      | Some tool \<Rightarrow>
          let status = lookupTags (op_buffer this) (pc_startTags (ob_config tool));
              contentTurnStartTags = pc_startTags (ob_config (op_contentParser this))
          in if status = FOUND_COMPLETE then parseToolCallChunk tokens finishReason PH_TOOL_CALLS_PROCESSING_TOOL this
             else if contentTurnStartTags \<noteq> []
             then (if lookupTags (op_buffer this) contentTurnStartTags = FOUND_COMPLETE then parseContentChunk finishReason PH_CONTENT this
                   else if finishReason \<noteq> FR_NONE then parseContentChunk finishReason PH_CONTENT this
                   else (this, Inr None))
             else if status = FOUND_INCOMPLETE \<and> finishReason = FR_NONE then (this, Inr None)
             else parseToolCallChunk tokens finishReason PH_TOOL_CALLS_WAITING_FOR_TOOL this)"

definition waiting_for_tool_phase :: "int list \<Rightarrow> FinishReason \<Rightarrow> ('t, 'r, 'c) OutputParser \<Rightarrow> ('t, 'r, 'c) outcome" where
  "waiting_for_tool_phase tokens finishReason this =
     (case (if op_gemma4ToolHandoff this then op_reasoningParser this else None) of
        None \<Rightarrow> waiting_rest tokens finishReason this
      | Some reasoning \<Rightarrow>
          (case lookupTags (op_buffer this) (pc_startTags (ob_config reasoning)) of
             FOUND_COMPLETE \<Rightarrow>
               (let ob = ob_resetState reasoning
                in enter_reasoning tokens finishReason ob
                     (this\<lparr>op_gemma4ReasoningClosed := False, op_reasoningParser := Some ob\<rparr>))
           | FOUND_INCOMPLETE \<Rightarrow>
               if finishReason = FR_NONE then (this, Inr None) else waiting_rest tokens finishReason this
           | NOT_FOUND \<Rightarrow> waiting_rest tokens finishReason this))"

definition streaming_reasoning :: "('t, 'r, 'c) OutputParser \<Rightarrow> 'r parser_object option" where
  "streaming_reasoning this =
     (case op_reasoningParser this of
        None \<Rightarrow> None
      | Some ob \<Rightarrow> if pc_startTags (ob_config ob) \<noteq> [] \<and> pc_endTags (ob_config ob) \<noteq> [] then Some ob else None)"

definition applied_tool :: "('t, 'r, 'c) OutputParser \<Rightarrow> bool \<Rightarrow> 't parser_object option" where
  "applied_tool this toolsAvailable =
     (case op_toolParser this of
        None \<Rightarrow> None
      | Some ob \<Rightarrow> if pc_startTags (ob_config ob) \<noteq> [] \<and> toolsAvailable then Some ob else None)"

definition op_parseChunk ::
  "string \<Rightarrow> int list \<Rightarrow> bool \<Rightarrow> FinishReason \<Rightarrow> ('t, 'r, 'c) OutputParser \<Rightarrow> ('t, 'r, 'c) outcome" where
  "op_parseChunk chunkResponse tokens toolsAvailable finishReason this0 =
     (let this = this0\<lparr>op_toolsEnabledForChunk := toolsAvailable, op_pendingGemma4ToolHandoff := False,
            op_terminalContentFinish := (if finishReason \<noteq> FR_NONE then finishReason else op_terminalContentFinish this0),
            op_buffer := op_buffer this0 @ chunkResponse\<rparr>
      in case op_processingPhase this of
           PH_UNKNOWN \<Rightarrow> unknown_phase tokens finishReason (streaming_reasoning this) (applied_tool this toolsAvailable) this
         | PH_REASONING \<Rightarrow> reasoning_phase tokens finishReason this
         | PH_CONTENT \<Rightarrow> content_phase tokens finishReason (applied_tool this toolsAvailable) this
         | PH_TOOL_CALLS_PROCESSING_TOOL \<Rightarrow> processing_tool_phase tokens finishReason this
         | PH_TOOL_CALLS_WAITING_FOR_TOOL \<Rightarrow> waiting_for_tool_phase tokens finishReason this)"

definition op_drainPendingDelta :: "('t, 'r, 'c) OutputParser \<Rightarrow> ('t, 'r, 'c) outcome" where
  "op_drainPendingDelta this =
     (if op_pendingGemma4ToolHandoff this
      then parseToolCallChunk [] FR_NONE PH_TOOL_CALLS_PROCESSING_TOOL (this\<lparr>op_pendingGemma4ToolHandoff := False\<rparr>)
      else let rest = (\<lambda>this. if op_buffer this = [] then (this, Inr None)
                              else op_parseChunk [] [] (op_toolsEnabledForChunk this) FR_NONE this)
           in case op_toolParser this of
                Some tool \<Rightarrow>
                  if op_processingPhase this \<in> {PH_TOOL_CALLS_PROCESSING_TOOL, PH_TOOL_CALLS_WAITING_FOR_TOOL}
                  then (case ob_drainPendingDelta tool of
                          (ob, Some d) \<Rightarrow> (this\<lparr>op_toolParser := Some ob\<rparr>, Inr (Some d))
                        | (ob, None) \<Rightarrow> rest (this\<lparr>op_toolParser := Some ob\<rparr>))
                  else rest this
              | None \<Rightarrow> rest this)"

section \<open>Modes\<close>

definition setImplicitReasoningStart :: "bool \<Rightarrow> ('t, 'r, 'c) OutputParser \<Rightarrow> ('t, 'r, 'c) OutputParser" where
  "setImplicitReasoningStart b this =
     (let this1 = this\<lparr>op_implicitReasoningStart := b\<rparr>
      in case op_reasoningParser this1 of
           None \<Rightarrow> this1
         | Some ob \<Rightarrow>
             this1\<lparr>op_reasoningParser := Some (ob_setImplicitStart b ob),
                   op_processingPhase :=
                     (if op_processingPhase this1 \<in> {PH_UNKNOWN, PH_REASONING}
                      then (if b then PH_REASONING else PH_UNKNOWN) else op_processingPhase this1)\<rparr>)"

definition resetStreamingState :: "('t, 'r, 'c) OutputParser \<Rightarrow> ('t, 'r, 'c) OutputParser" where
  "resetStreamingState this =
     (let this1 = this\<lparr>op_processingPhase := PH_UNKNOWN, op_buffer := [], op_pendingGemma4ToolHandoff := False,
            op_gemma4LogicalBoundary := True, op_gemma4ReasoningClosed := False, op_terminalContentFinish := FR_NONE,
            op_toolParser := map_option ob_resetState (op_toolParser this),
            op_reasoningParser := map_option ob_resetState (op_reasoningParser this),
            op_contentParser := ob_resetState (op_contentParser this)\<rparr>
      in if op_implicitReasoningStart this1 then setImplicitReasoningStart True this1 else this1)"

definition detectAndSetImplicitReasoningStart :: "string \<Rightarrow> ('t, 'r, 'c) OutputParser \<Rightarrow> ('t, 'r, 'c) OutputParser" where
  "detectAndSetImplicitReasoningStart renderedPrompt this =
     (case op_reasoningParser this of
        None \<Rightarrow> this
      | Some ob \<Rightarrow>
          let cfg = ob_config ob
          in setImplicitReasoningStart
               (if \<not> op_gemma4ToolHandoff this
                then list_ex (\<lambda>tag. tag \<noteq> [] \<and> endsWith (rtrim renderedPrompt) tag) (pc_startTags cfg)
                else classifyRenderedPromptState renderedPrompt (pc_startTags cfg)
                       (if pc_endTags cfg = [] then [] else hd (pc_endTags cfg)) = OPEN_THOUGHT) this)"

definition needSpecialTokensForCurrentDecode :: "bool \<Rightarrow> ('t, 'r, 'c) OutputParser \<Rightarrow> bool" where
  "needSpecialTokensForCurrentDecode userWantsSpecialTokens this =
     (case op_processingPhase this of
        PH_CONTENT \<Rightarrow> op_defaultDecodingWithSpecialTokens this \<or> userWantsSpecialTokens
      | PH_UNKNOWN \<Rightarrow> op_defaultDecodingWithSpecialTokens this \<or> userWantsSpecialTokens
      | PH_REASONING \<Rightarrow> (case op_reasoningParser this of None \<Rightarrow> False | Some ob \<Rightarrow> pc_needsSpecialTokens (ob_config ob))
      | _ \<Rightarrow> (case op_toolParser this of None \<Rightarrow> False | Some ob \<Rightarrow> pc_needsSpecialTokens (ob_config ob)))"

definition setContentSpecialTokensVisible :: "bool \<Rightarrow> ('t, 'r, 'c) OutputParser \<Rightarrow> ('t, 'r, 'c) OutputParser" where
  "setContentSpecialTokensVisible b this = this\<lparr>op_contentSpecialTokensVisible := b\<rparr>"

definition getPhaseStartTagForToken :: "int \<Rightarrow> bool \<Rightarrow> ('t, 'r, 'c) OutputParser \<Rightarrow> string" where
  "getPhaseStartTagForToken tokenId toolsAvailable this =
     (case (case op_toolParser this of
              Some ob \<Rightarrow>
                if toolsAvailable \<and> op_processingPhase this \<notin> {PH_TOOL_CALLS_PROCESSING_TOOL, PH_TOOL_CALLS_WAITING_FOR_TOOL}
                then ob_resolvedStartTokenToTag ob tokenId else None
            | None \<Rightarrow> None) of
        Some tag \<Rightarrow> tag
      | None \<Rightarrow>
          (case (case op_reasoningParser this of
                   Some ob \<Rightarrow> if op_processingPhase this \<noteq> PH_REASONING then ob_resolvedStartTokenToTag ob tokenId else None
                 | None \<Rightarrow> None) of
             Some tag \<Rightarrow> tag
           | None \<Rightarrow> []))"

section \<open>Tag lookup\<close>

lemma lookupTag_cases:
  "lookupTag buffer tag =
     (if tag = [] then NOT_FOUND else if contains tag buffer then FOUND_COMPLETE
      else if ends_in_part_of buffer tag then FOUND_INCOMPLETE else NOT_FOUND)"
proof (cases "tag = []")
  case False
  have "\<not> contains tag buffer" if "length buffer < length tag" using that by (auto simp: contains_iff)
  moreover have "contains tag buffer \<longleftrightarrow> buffer = tag" if "length buffer = length tag"
  proof
    assume "contains tag buffer"
    then show "buffer = tag" using that by (auto simp: contains_iff)
  next
    assume "buffer = tag"
    then have "buffer = [] @ tag @ []" by simp
    then show "contains tag buffer" unfolding contains_iff by blast
  qed
  ultimately show ?thesis
    using False overlap_is_part_of_tag [OF False] by (auto simp: lookupTag_def)
qed (simp add: lookupTag_def)

lemma lookup_loop_cases:
  "lookup_loop buffer tags st =
     (if FOUND_COMPLETE \<in> lookupTag buffer ` set tags then FOUND_COMPLETE
      else if FOUND_INCOMPLETE \<in> lookupTag buffer ` set tags then FOUND_INCOMPLETE else st)"
proof (induction tags arbitrary: st)
  case (Cons t ts)
  then show ?case by (cases "lookupTag buffer t") auto
qed simp

text \<open>
  \<open>lookupTags\<close> reports complete exactly when a non-empty tag stands in the buffer, and incomplete
  exactly when none does and the buffer ends in a part of one.
\<close>

theorem lookupTags_status:
  "(lookupTags buffer tags = FOUND_COMPLETE \<longleftrightarrow> list_ex (\<lambda>tag. tag \<noteq> [] \<and> contains tag buffer) tags) \<and>
   (lookupTags buffer tags = FOUND_INCOMPLETE \<longleftrightarrow>
      \<not> list_ex (\<lambda>tag. tag \<noteq> [] \<and> contains tag buffer) tags \<and>
      list_ex (\<lambda>tag. tag \<noteq> [] \<and> ends_in_part_of buffer tag) tags)"
proof -
  have c: "FOUND_COMPLETE \<in> lookupTag buffer ` set tags \<longleftrightarrow> list_ex (\<lambda>tag. tag \<noteq> [] \<and> contains tag buffer) tags"
    unfolding list_ex_iff image_iff lookupTag_cases by (auto split: if_splits)
  have i: "FOUND_INCOMPLETE \<in> lookupTag buffer ` set tags \<longleftrightarrow>
      list_ex (\<lambda>tag. tag \<noteq> [] \<and> \<not> contains tag buffer \<and> ends_in_part_of buffer tag) tags"
    unfolding list_ex_iff image_iff lookupTag_cases by (auto split: if_splits)
  show ?thesis
    unfolding lookupTags_def lookup_loop_cases c i by (auto simp: list_ex_iff)
qed

lemma lookupTags_single:
  "lookupTags buffer [tag] =
     (if tag = [] then NOT_FOUND else if contains tag buffer then FOUND_COMPLETE
      else if ends_in_part_of buffer tag then FOUND_INCOMPLETE else NOT_FOUND)"
  by (simp add: lookupTags_def lookupTag_cases)

section \<open>Well-formed routers\<close>

text \<open>Parsers that never raise.\<close>

definition total_parser :: "'s parser_object \<Rightarrow> bool" where
  "total_parser ob \<longleftrightarrow> (\<forall>s chunk tokens fr. \<exists>d. snd (po_parseChunk (ob_ops ob) s chunk tokens fr) = Inr d)"

lemma total_parse: "total_parser ob \<Longrightarrow> \<exists>s d. ob_parseChunk ob chunk tokens fr = (ob\<lparr>ob_state := s\<rparr>, Inr d)"
  unfolding total_parser_def ob_parseChunk_def by (metis (no_types, lifting) case_prod_beta)

lemma total_update [simp]: "total_parser (ob\<lparr>ob_state := s\<rparr>) = total_parser ob"
  by (simp add: total_parser_def)

text \<open>
  A phase that belongs to a parser has that parser, the Gemma4 handoff has both, and all of them are
  total.
\<close>

definition wf_router :: "('t, 'r, 'c) OutputParser \<Rightarrow> bool" where
  "wf_router this \<longleftrightarrow>
     (op_processingPhase this = PH_REASONING \<longrightarrow> op_reasoningParser this \<noteq> None) \<and>
     (op_processingPhase this \<in> {PH_TOOL_CALLS_PROCESSING_TOOL, PH_TOOL_CALLS_WAITING_FOR_TOOL} \<longrightarrow> op_toolParser this \<noteq> None) \<and>
     (op_gemma4ToolHandoff this \<longrightarrow> op_toolParser this \<noteq> None \<and> op_reasoningParser this \<noteq> None) \<and>
     (op_pendingGemma4ToolHandoff this \<longrightarrow> op_toolParser this \<noteq> None) \<and>
     (\<forall>ob. op_toolParser this = Some ob \<longrightarrow> total_parser ob) \<and>
     (\<forall>ob. op_reasoningParser this = Some ob \<longrightarrow> total_parser ob) \<and>
     total_parser (op_contentParser this) \<and> [] \<notin> set (op_contentTokensToHide this)"

text \<open>An outcome without an exception that leaves a well-formed router.\<close>

definition fine :: "('t, 'r, 'c) outcome \<Rightarrow> bool" where
  "fine o1 \<longleftrightarrow> wf_router (fst o1) \<and> (\<exists>d. snd o1 = Inr d)"

lemma fine_here [intro]: "wf_router this \<Longrightarrow> fine (this, Inr d)"
  by (simp add: fine_def)

lemma content_fine [intro]:
  assumes "wf_router this" "newPhase = PH_CONTENT"
  shows "fine (parseContentChunk fr newPhase this)"
proof -
  have hide: "[] \<notin> set (op_contentTokensToHide this)" and tot: "total_parser (op_contentParser this)"
    using assms(1) by (simp_all add: wf_router_def)
  obtain content where c: "(if \<not> op_contentSpecialTokensVisible this \<and> \<not> op_toolsEnabledForChunk this \<and>
      op_contentTokensToHide this \<noteq> [] then erase_tags (op_contentTokensToHide this) (op_buffer this)
      else Inr (op_buffer this)) = Inr content"
    using erase_tags_strip [OF hide] by (cases "\<not> op_contentSpecialTokensVisible this \<and> \<not> op_toolsEnabledForChunk this \<and>
      op_contentTokensToHide this \<noteq> []") auto
  let ?fr = "if op_terminalContentFinish this \<noteq> FR_NONE then op_terminalContentFinish this else fr"
  obtain s d where p: "ob_parseChunk (op_contentParser this) content [] ?fr = ((op_contentParser this)\<lparr>ob_state := s\<rparr>, Inr d)"
    using total_parse [OF tot] by blast
  show ?thesis
    using assms c p unfolding parseContentChunk_def Let_def
    by (cases d) (auto simp: fine_def wf_router_def split: Delta.split)
qed

lemma tool_fine [intro]:
  assumes "wf_router this" "op_toolParser this \<noteq> None"
    "newPhase \<in> {PH_TOOL_CALLS_PROCESSING_TOOL, PH_TOOL_CALLS_WAITING_FOR_TOOL}"
  shows "fine (parseToolCallChunk tokens fr newPhase this)"
proof -
  obtain tool where t: "op_toolParser this = Some tool" "total_parser tool" using assms by (auto simp: wf_router_def)
  obtain owned remainder where o: "owned_chunk (op_buffer this) (pc_endTags (ob_config tool)) = (owned, remainder)" by fastforce
  obtain s d where "ob_parseChunk tool owned tokens fr = (tool\<lparr>ob_state := s\<rparr>, Inr d)" using total_parse [OF t(2)] by blast
  then show ?thesis using assms t o by (auto simp: parseToolCallChunk_def fine_def wf_router_def)
qed

lemma envelope_fine:
  assumes "wf_router this" "op_reasoningParser this = Some reasoning" "newPhase \<in> {PH_UNKNOWN, PH_REASONING}"
  shows "fine (reasoning_envelope tokens fr newPhase reasoning this)"
proof -
  have t: "total_parser reasoning" using assms by (auto simp: wf_router_def)
  obtain owned remainder where o: "owned_chunk (op_buffer this) (pc_endTags (ob_config reasoning)) = (owned, remainder)" by fastforce
  obtain s d where "ob_parseChunk reasoning owned tokens fr = (reasoning\<lparr>ob_state := s\<rparr>, Inr d)" using total_parse [OF t] by blast
  then show ?thesis using assms t o by (auto simp: reasoning_envelope_def Let_def fine_def wf_router_def)
qed

lemma reasoning_fine [intro]:
  assumes "wf_router this" "op_reasoningParser this \<noteq> None" "newPhase \<in> {PH_UNKNOWN, PH_REASONING}"
  shows "fine (parseReasoningChunk tokens fr newPhase this)"
proof -
  obtain reasoning where r: "op_reasoningParser this = Some reasoning" "total_parser reasoning"
    using assms by (auto simp: wf_router_def)
  note env = envelope_fine [OF assms(1) r(1) assms(3)]
  show ?thesis
  proof (cases "op_gemma4ToolHandoff this \<and> op_toolsEnabledForChunk this")
    case False
    then show ?thesis using env by (simp add: parseReasoningChunk_def r(1))
  next
    case True
    then obtain tool where t: "op_toolParser this = Some tool" using assms(1) by (auto simp: wf_router_def)
    let ?start = "findEarliestTag (op_buffer this) (pc_startTags (ob_config tool))"
    show ?thesis
    proof (cases "before_end ?start (findEarliestTag (op_buffer this) (pc_endTags (ob_config reasoning)))")
      case False
      then show ?thesis using True env assms(1) by (auto simp: parseReasoningChunk_def r(1) t Let_def)
    next
      case handoff: True
      let ?p = "fst (the ?start)" and ?closers = "pc_endTags (ob_config reasoning)"
      let ?text = "take ?p (op_buffer this) @ (if ?closers = [] then [] else hd ?closers)"
      obtain s d where p: "ob_parseChunk reasoning ?text tokens FR_NONE = (reasoning\<lparr>ob_state := s\<rparr>, Inr d)"
        using total_parse [OF r(2)] by blast
      let ?that = "this\<lparr>op_reasoningParser := Some (reasoning\<lparr>ob_state := s\<rparr>), op_buffer := drop ?p (op_buffer this),
          op_processingPhase := PH_UNKNOWN, op_gemma4ReasoningClosed := True\<rparr>"
      have wf: "wf_router (?that\<lparr>op_pendingGemma4ToolHandoff := b\<rparr>)" for b
        using assms(1) r t by (auto simp: wf_router_def)
      have "parseReasoningChunk tokens fr newPhase this =
          (case d of Some _ \<Rightarrow> (?that\<lparr>op_pendingGemma4ToolHandoff := True\<rparr>, Inr d)
           | None \<Rightarrow> parseToolCallChunk tokens fr PH_TOOL_CALLS_PROCESSING_TOOL (?that\<lparr>op_pendingGemma4ToolHandoff := False\<rparr>))"
        using True handoff p by (simp add: parseReasoningChunk_def r(1) t Let_def del: append.simps)
      then show ?thesis
        using wf t by (cases d) (auto simp del: OutputParser.simps(1) intro!: tool_fine)
    qed
  qed
qed

lemma enter_fine [intro]:
  "wf_router this \<Longrightarrow> op_reasoningParser this \<noteq> None \<Longrightarrow> fine (enter_reasoning tokens fr reasoning this)"
  unfolding enter_reasoning_def by (auto split: TagLookupStatus.split)

lemma waiting_rest_fine:
  "wf_router this \<Longrightarrow> op_toolParser this \<noteq> None \<Longrightarrow> fine (waiting_rest tokens fr this)"
  unfolding waiting_rest_def Let_def by (auto split: option.split)

lemma unknown_fine:
  assumes "wf_router this" "reasoning \<noteq> None \<Longrightarrow> op_reasoningParser this \<noteq> None" "tool \<noteq> None \<Longrightarrow> op_toolParser this \<noteq> None"
  shows "fine (unknown_phase tokens fr reasoning tool this)"
proof -
  define rstatus where "rstatus = (case reasoning of None \<Rightarrow> NOT_FOUND | Some ob \<Rightarrow> reasoning_start this ob)"
  define tstatus where "tstatus = (case tool of None \<Rightarrow> NOT_FOUND
      | Some ob \<Rightarrow> (let s = lookupTags (op_buffer this) (pc_startTags (ob_config ob))
                   in if s = NOT_FOUND then lookupToolPreamble this ob else s))"
  have r: "rstatus = FOUND_COMPLETE \<Longrightarrow> reasoning \<noteq> None" and t: "tstatus = FOUND_COMPLETE \<Longrightarrow> tool \<noteq> None"
    by (auto simp: rstatus_def tstatus_def split: option.splits)
  show ?thesis
    unfolding unknown_phase_def Let_def rstatus_def [symmetric] tstatus_def [unfolded Let_def, symmetric]
    using assms(1) assms(2) [OF r] assms(3) [OF t] by (simp split: if_split) blast
qed

lemma wf_reset: "total_parser ob \<Longrightarrow> total_parser (ob_resetState ob)"
  by (simp add: ob_resetState_def)

lemma parseChunk_fine:
  assumes "wf_router this"
  shows "fine (op_parseChunk chunk tokens tools fr this)"
proof -
  let ?that = "this\<lparr>op_toolsEnabledForChunk := tools, op_pendingGemma4ToolHandoff := False,
            op_terminalContentFinish := (if fr \<noteq> FR_NONE then fr else op_terminalContentFinish this),
            op_buffer := op_buffer this @ chunk\<rparr>"
  have wf: "wf_router ?that" using assms by (simp add: wf_router_def)
  show ?thesis
  proof (cases "op_processingPhase this")
    case PH_UNKNOWN
    have "fine (unknown_phase tokens fr (streaming_reasoning ?that) (applied_tool ?that tools) ?that)"
    proof -
      have "streaming_reasoning ?that \<noteq> None \<Longrightarrow> op_reasoningParser ?that \<noteq> None"
        "applied_tool ?that tools \<noteq> None \<Longrightarrow> op_toolParser ?that \<noteq> None"
        by (auto simp: streaming_reasoning_def applied_tool_def split: option.splits)
      then show ?thesis by (rule unknown_fine [OF wf])
    qed
    then show ?thesis by (simp add: op_parseChunk_def PH_UNKNOWN Let_def)
  next
    case PH_CONTENT
    have "applied_tool ?that tools \<noteq> None \<Longrightarrow> op_toolParser ?that \<noteq> None"
      by (auto simp: applied_tool_def split: option.splits)
    then have "fine (content_phase tokens fr (applied_tool ?that tools) ?that)"
      using wf unfolding content_phase_def Let_def by (auto split: option.split)
    then show ?thesis by (simp add: op_parseChunk_def PH_CONTENT Let_def)
  next
    case PH_REASONING
    then have "op_reasoningParser ?that \<noteq> None" using assms by (simp add: wf_router_def)
    then have "fine (reasoning_phase tokens fr ?that)"
      using wf unfolding reasoning_phase_def by (auto split: option.split)
    then show ?thesis by (simp add: op_parseChunk_def PH_REASONING Let_def)
  next
    case PH_TOOL_CALLS_PROCESSING_TOOL
    then have "op_toolParser ?that \<noteq> None" using assms by (simp add: wf_router_def)
    then have "fine (processing_tool_phase tokens fr ?that)"
      using wf unfolding processing_tool_phase_def Let_def by (auto split: option.split)
    then show ?thesis by (simp add: op_parseChunk_def PH_TOOL_CALLS_PROCESSING_TOOL Let_def)
  next
    case PH_TOOL_CALLS_WAITING_FOR_TOOL
    then have t: "op_toolParser ?that \<noteq> None" using assms by (simp add: wf_router_def)
    have "fine (waiting_for_tool_phase tokens fr ?that)"
    proof (cases "if op_gemma4ToolHandoff ?that then op_reasoningParser ?that else None")
      case None
      then show ?thesis using waiting_rest_fine [OF wf t] by (simp add: waiting_for_tool_phase_def)
    next
      case (Some reasoning)
      then have r: "op_reasoningParser ?that = Some reasoning" by (auto split: if_splits)
      have "wf_router (?that\<lparr>op_gemma4ReasoningClosed := False, op_reasoningParser := Some (ob_resetState reasoning)\<rparr>)"
        using wf r by (auto simp: wf_router_def wf_reset)
      then have e: "fine (enter_reasoning tokens fr (ob_resetState reasoning)
          (?that\<lparr>op_gemma4ReasoningClosed := False, op_reasoningParser := Some (ob_resetState reasoning)\<rparr>))"
        by (rule enter_fine) simp
      show ?thesis unfolding waiting_for_tool_phase_def Some Let_def option.case
        using e waiting_rest_fine [OF wf t, of tokens fr] wf
        by (cases "lookupTags (op_buffer ?that) (pc_startTags (ob_config reasoning))") (auto simp del: OutputParser.simps)
    qed
    then show ?thesis by (simp add: op_parseChunk_def PH_TOOL_CALLS_WAITING_FOR_TOOL Let_def)
  qed
qed

section \<open>Sequences of calls\<close>

text \<open>The calls a streamer makes.\<close>

datatype router_call =
    ParseChunk string "int list" bool FinishReason
  | DrainPendingDelta
  | ResetStreamingState
  | SetImplicitReasoningStart bool
  | DetectImplicitReasoningStart string
  | SetContentSpecialTokensVisible bool

fun router_step :: "router_call \<Rightarrow> ('t, 'r, 'c) OutputParser \<Rightarrow> ('t, 'r, 'c) outcome" where
  "router_step (ParseChunk chunk tokens tools fr) this = op_parseChunk chunk tokens tools fr this"
| "router_step DrainPendingDelta this = op_drainPendingDelta this"
| "router_step ResetStreamingState this = (resetStreamingState this, Inr None)"
| "router_step (SetImplicitReasoningStart b) this = (setImplicitReasoningStart b this, Inr None)"
| "router_step (DetectImplicitReasoningStart p) this = (detectAndSetImplicitReasoningStart p this, Inr None)"
| "router_step (SetContentSpecialTokensVisible b) this = (setContentSpecialTokensVisible b this, Inr None)"

text \<open>A sequence of calls, up to the first exception.\<close>

fun router_run :: "router_call list \<Rightarrow> ('t, 'r, 'c) OutputParser \<Rightarrow> (('t, 'r, 'c) OutputParser \<times> Delta list) result" where
  "router_run [] this = Inr (this, [])"
| "router_run (c # cs) this =
     (case router_step c this of
        (that, Inl e) \<Rightarrow> Inl e
      | (that, Inr d) \<Rightarrow> rbind (router_run cs that)
          (\<lambda>(last, ds). Inr (last, (case d of None \<Rightarrow> ds | Some x \<Rightarrow> x # ds))))"

lemma drain_total [simp]: "total_parser (fst (ob_drainPendingDelta ob)) = total_parser ob"
  by (simp add: ob_drainPendingDelta_def case_prod_beta)

lemma drain_fine:
  assumes "wf_router this"
  shows "fine (op_drainPendingDelta this)"
proof (cases "op_pendingGemma4ToolHandoff this")
  case True
  have "wf_router (this\<lparr>op_pendingGemma4ToolHandoff := False\<rparr>)" "op_toolParser this \<noteq> None"
    using assms True by (auto simp: wf_router_def)
  then show ?thesis using True unfolding op_drainPendingDelta_def by (auto intro!: tool_fine)
next
  case False
  let ?rest = "\<lambda>this. if op_buffer this = [] then (this, Inr None)
      else op_parseChunk [] [] (op_toolsEnabledForChunk this) FR_NONE this"
  have rest: "fine (?rest that)" if "wf_router that" for that
    using that parseChunk_fine [OF that] by auto
  have wf: "wf_router (this\<lparr>op_toolParser := Some (fst (ob_drainPendingDelta tool))\<rparr>)" if "op_toolParser this = Some tool" for tool
    using assms that by (auto simp: wf_router_def)
  show ?thesis
  proof (cases "op_toolParser this")
    case None
    then show ?thesis using False rest [OF assms] by (simp add: op_drainPendingDelta_def)
  next
    case (Some tool)
    obtain ob d where o: "ob_drainPendingDelta tool = (ob, d)" by fastforce
    have "wf_router (this\<lparr>op_toolParser := Some ob\<rparr>)" using wf [OF Some] o by simp
    then show ?thesis
      using False Some o rest [OF assms] rest [of "this\<lparr>op_toolParser := Some ob\<rparr>"]
      by (cases d) (auto simp: op_drainPendingDelta_def Let_def)
  qed
qed

lemma implicit_wf: "wf_router this \<Longrightarrow> wf_router (setImplicitReasoningStart b this)"
  by (auto simp: setImplicitReasoningStart_def wf_router_def ob_setImplicitStart_def Let_def split: option.split)

lemma detect_wf: "wf_router this \<Longrightarrow> wf_router (detectAndSetImplicitReasoningStart p this)"
  by (auto simp: detectAndSetImplicitReasoningStart_def implicit_wf Let_def split: option.split)

lemma reset_wf:
  assumes "wf_router this"
  shows "wf_router (resetStreamingState this)"
proof -
  let ?this1 = "this\<lparr>op_processingPhase := PH_UNKNOWN, op_buffer := [], op_pendingGemma4ToolHandoff := False,
            op_gemma4LogicalBoundary := True, op_gemma4ReasoningClosed := False, op_terminalContentFinish := FR_NONE,
            op_toolParser := map_option ob_resetState (op_toolParser this),
            op_reasoningParser := map_option ob_resetState (op_reasoningParser this),
            op_contentParser := ob_resetState (op_contentParser this)\<rparr>"
  have "wf_router ?this1" using assms by (auto simp: wf_router_def ob_resetState_def)
  then show ?thesis using implicit_wf [of ?this1 True] by (simp add: resetStreamingState_def Let_def)
qed

lemma new_OutputParser_wf:
  assumes "new_OutputParser mt mr mc tn rn = Inr this"
    "\<forall>n. total_parser (mt n)" "\<forall>n. total_parser (mr n)" "\<forall>k. total_parser (mc k)"
  shows "wf_router this"
proof -
  note new = assms(1) [unfolded new_OutputParser_def Let_def, simplified]
  have p: "op_toolParser this = (if tn = [] then None else Some (mt tn))"
    "op_reasoningParser this = (if rn = [] then None else Some (mr rn))"
    using new by (auto split: if_split_asm)
  have q: "op_processingPhase this = PH_UNKNOWN \<and> \<not> op_pendingGemma4ToolHandoff this \<and>
      op_contentParser this = mc (content_kind_for tn rn) \<and>
      op_gemma4ToolHandoff this = (tn = ''gemma4'' \<and> rn = ''gemma4'')"
    using new by (auto split: if_split_asm)
  have "[] \<notin> set (op_contentTokensToHide this)"
    using new by (auto split: if_split_asm)
  then show ?thesis using p q assms(2-4) by (simp add: wf_router_def)
qed

lemma visible_wf: "wf_router this \<Longrightarrow> wf_router (setContentSpecialTokensVisible b this)"
  by (simp add: setContentSpecialTokensVisible_def wf_router_def)

lemma router_step_fine: "wf_router this \<Longrightarrow> fine (router_step c this)"
  by (cases c) (simp_all add: parseChunk_fine drain_fine reset_wf implicit_wf detect_wf visible_wf fine_here)

text \<open>
  C29: A router made by the constructor from parsers that do not raise never raises itself, whatever
  calls are made in whatever order with whatever chunks: it uses a parser only in a phase in which
  that parser exists, no phase is undefined, and the erasing of hidden markers ends.
\<close>

theorem router_never_fails:
  assumes "new_OutputParser make_tool make_reasoning make_content toolName reasoningName = Inr this"
    and "\<forall>n. total_parser (make_tool n)" "\<forall>n. total_parser (make_reasoning n)" "\<forall>k. total_parser (make_content k)"
  shows "\<exists>that ds. router_run calls this = Inr (that, ds) \<and> wf_router that"
proof -
  have "wf_router this \<Longrightarrow> \<exists>that ds. router_run calls this = Inr (that, ds) \<and> wf_router that" for this :: "('a, 'b, 'c) OutputParser"
  proof (induction calls arbitrary: this)
    case (Cons c cs)
    obtain that d where s: "router_step c this = (that, Inr d)" "wf_router that"
      using router_step_fine [OF Cons.prems, of c] by (cases "router_step c this") (auto simp: fine_def)
    then show ?case using Cons.IH [OF s(2)] by auto
  qed simp
  then show ?thesis using new_OutputParser_wf [OF assms] by blast
qed

context returning_parser
begin

lemma object_total: "total_parser \<lparr>ob_ops = ops, ob_state = s, ob_resolvedStartTokenToTag = m\<rparr>"
  using returns by (simp add: total_parser_def)

end

definition qwen3_object :: "bool parser_object" where
  "qwen3_object = \<lparr>ob_ops = qwen3_reasoning_parser qwen3_config, ob_state = False, ob_resolvedStartTokenToTag = Map.empty\<rparr>"

definition content_object :: "string list \<Rightarrow> unit parser_object" where
  "content_object tags = \<lparr>ob_ops = default_content_parser tags, ob_state = (), ob_resolvedStartTokenToTag = Map.empty\<rparr>"

text \<open>A router with the Qwen3 reasoning parser and no tools.\<close>

definition qwen3_router :: "(unit, bool, unit) OutputParser result" where
  "qwen3_router = new_OutputParser (\<lambda>_. content_object []) (\<lambda>_. qwen3_object) (\<lambda>_. content_object []) [] ''qwen3''"

lemma router_never_fails_witness:
  "\<exists>this that ds. qwen3_router = Inr this \<and>
     router_run [ParseChunk ''a'' [] False FR_NONE, DrainPendingDelta, ResetStreamingState] this = Inr (that, ds)"
proof -
  obtain this where t: "qwen3_router = Inr this"
    by (simp add: qwen3_router_def new_OutputParser_def supported_reasoning_parsers_def Let_def)
  have "total_parser qwen3_object" "total_parser (content_object [])"
    unfolding qwen3_object_def content_object_def by (rule qwen3.object_total plain_content.object_total)+
  then show ?thesis using router_never_fails [OF t [unfolded qwen3_router_def]] t by blast
qed

section \<open>Where the text goes\<close>

lemma owned_chunk_splits: "owned_chunk buffer tags = (owned, remainder) \<Longrightarrow> buffer = owned @ remainder"
  by (auto simp: owned_chunk_def split: option.splits)

lemma owned_chunk_nonempty: "owned_chunk buffer tags = (owned, remainder) \<Longrightarrow> buffer \<noteq> [] \<Longrightarrow> owned \<noteq> []"
  using findEarliest_bound [of buffer tags] by (auto simp: owned_chunk_def split: option.splits)

text \<open>
  One parser gets the text: its state changes as its operation says, and the other two parsers stay
  as they are. The content parser gets no tokens, the reason the generation ended for, and a delta
  of no text is not passed on.
\<close>

definition to_tool :: "('t, 'r, 'c) OutputParser \<Rightarrow> ('t, 'r, 'c) OutputParser \<Rightarrow> string \<Rightarrow> int list \<Rightarrow> FinishReason \<Rightarrow> Delta option \<Rightarrow> bool" where
  "to_tool this that owned tokens fr d \<longleftrightarrow>
     (case op_toolParser this of
        None \<Rightarrow> False
      | Some tool \<Rightarrow> (\<exists>ob. ob_parseChunk tool owned tokens fr = (ob, Inr d) \<and> op_toolParser that = Some ob) \<and>
          op_reasoningParser that = op_reasoningParser this \<and> op_contentParser that = op_contentParser this)"

definition to_reasoning :: "('t, 'r, 'c) OutputParser \<Rightarrow> ('t, 'r, 'c) OutputParser \<Rightarrow> string \<Rightarrow> int list \<Rightarrow> FinishReason \<Rightarrow> Delta option \<Rightarrow> bool" where
  "to_reasoning this that owned tokens fr d \<longleftrightarrow>
     (case op_reasoningParser this of
        None \<Rightarrow> False
      | Some reasoning \<Rightarrow> (\<exists>ob. ob_parseChunk reasoning owned tokens fr = (ob, Inr d) \<and> op_reasoningParser that = Some ob) \<and>
          op_toolParser that = op_toolParser this \<and> op_contentParser that = op_contentParser this)"

definition to_content :: "('t, 'r, 'c) OutputParser \<Rightarrow> ('t, 'r, 'c) OutputParser \<Rightarrow> string \<Rightarrow> Delta option \<Rightarrow> bool" where
  "to_content this that owned d \<longleftrightarrow>
     (\<exists>ob d' fr. ob_parseChunk (op_contentParser this) owned [] fr = (ob, Inr (Some d')) \<and>
        op_contentParser that = ob \<and> d = (if d' = ContentDelta [] then None else Some d')) \<and>
     op_toolParser that = op_toolParser this \<and> op_reasoningParser that = op_reasoningParser this"

definition held_back :: "('t, 'r, 'c) OutputParser \<Rightarrow> ('t, 'r, 'c) OutputParser \<Rightarrow> Delta option \<Rightarrow> bool" where
  "held_back this that d \<longleftrightarrow> d = None \<and> op_buffer that = op_buffer this \<and>
     op_toolParser that = op_toolParser this \<and> op_reasoningParser that = op_reasoningParser this \<and>
     op_contentParser that = op_contentParser this"

text \<open>The content parser has seen the buffer and wants more; it will see the buffer again.\<close>

definition wants_more :: "('t, 'r, 'c) OutputParser \<Rightarrow> ('t, 'r, 'c) OutputParser \<Rightarrow> Delta option \<Rightarrow> bool" where
  "wants_more this that d \<longleftrightarrow> d = None \<and> op_buffer that = op_buffer this \<and>
     op_toolParser that = op_toolParser this \<and> op_reasoningParser that = op_reasoningParser this \<and>
     (\<exists>fr. ob_parseChunk (op_contentParser this) (op_buffer this) [] fr = (op_contentParser that, Inr None))"

definition routed :: "('t, 'r, 'c) OutputParser \<Rightarrow> int list \<Rightarrow> FinishReason \<Rightarrow> ('t, 'r, 'c) outcome \<Rightarrow> bool" where
  "routed this tokens fr o1 \<longleftrightarrow>
     (case o1 of
        (that, Inl e) \<Rightarrow> True
      | (that, Inr d) \<Rightarrow> held_back this that d \<or> wants_more this that d \<or>
          (\<exists>owned. op_buffer this = owned @ op_buffer that \<and> (op_buffer this \<noteq> [] \<longrightarrow> owned \<noteq> []) \<and>
             (to_tool this that owned tokens fr d \<or> to_reasoning this that owned tokens fr d \<or> to_content this that owned d)))"

definition plain_router :: "('t, 'r, 'c) OutputParser \<Rightarrow> bool" where
  "plain_router this \<longleftrightarrow> \<not> op_gemma4ToolHandoff this \<and> op_contentTokensToHide this = []"

lemma routed_held [simp]: "routed this tokens fr (this, Inr None)"
  by (simp add: routed_def held_back_def)

lemma routed_error [simp]: "routed this tokens fr (that, Inl e)"
  by (simp add: routed_def)

lemma routed_cong:
  assumes "op_buffer this1 = op_buffer this" "op_toolParser this1 = op_toolParser this"
    "op_reasoningParser this1 = op_reasoningParser this" "op_contentParser this1 = op_contentParser this"
  shows "routed this1 tokens fr o1 = routed this tokens fr o1"
  unfolding routed_def held_back_def wants_more_def to_tool_def to_reasoning_def to_content_def assms ..

lemma routed_tool: "routed this tokens fr (parseToolCallChunk tokens fr newPhase this)"
proof (cases "op_toolParser this")
  case (Some tool)
  obtain owned remainder where o: "owned_chunk (op_buffer this) (pc_endTags (ob_config tool)) = (owned, remainder)" by fastforce
  obtain ob r where p: "ob_parseChunk tool owned tokens fr = (ob, r)" by fastforce
  have e: "parseToolCallChunk tokens fr newPhase this = (case r of
      Inl e \<Rightarrow> (this\<lparr>op_toolParser := Some ob, op_buffer := []\<rparr>, Inl e)
    | Inr d \<Rightarrow> (this\<lparr>op_toolParser := Some ob, op_buffer := remainder, op_processingPhase := newPhase\<rparr>, Inr d))"
    by (simp add: parseToolCallChunk_def Some o p split: sum.split)
  show ?thesis unfolding e using owned_chunk_splits [OF o] owned_chunk_nonempty [OF o] p
    by (cases r) (auto simp: Some routed_def to_tool_def intro!: exI [of _ owned])
qed (simp add: parseToolCallChunk_def)

lemma routed_reasoning:
  assumes "plain_router this"
  shows "routed this tokens fr (parseReasoningChunk tokens fr newPhase this)"
proof (cases "op_reasoningParser this")
  case (Some reasoning)
  obtain owned remainder where o: "owned_chunk (op_buffer this) (pc_endTags (ob_config reasoning)) = (owned, remainder)" by fastforce
  obtain ob r where p: "ob_parseChunk reasoning owned tokens fr = (ob, r)" by fastforce
  have e: "parseReasoningChunk tokens fr newPhase this = reasoning_envelope tokens fr newPhase reasoning this"
    using assms by (simp add: parseReasoningChunk_def Some plain_router_def)
  let ?this1 = "if findEarliestTag (op_buffer this) (pc_endTags (ob_config reasoning)) = None then this
      else this\<lparr>op_gemma4ReasoningClosed := True\<rparr>"
  have "reasoning_envelope tokens fr newPhase reasoning this = (case r of
      Inl e \<Rightarrow> (?this1\<lparr>op_reasoningParser := Some ob, op_buffer := []\<rparr>, Inl e)
    | Inr d \<Rightarrow> (?this1\<lparr>op_reasoningParser := Some ob, op_buffer := remainder, op_processingPhase := newPhase\<rparr>, Inr d))"
    by (simp add: reasoning_envelope_def o p Let_def split: sum.split)
  then show ?thesis unfolding e using owned_chunk_splits [OF o] owned_chunk_nonempty [OF o] p
    by (cases r) (auto simp: Some routed_def to_reasoning_def intro!: exI [of _ owned])
qed (simp add: parseReasoningChunk_def)

lemma routed_content:
  assumes "plain_router this"
  shows "routed this tokens fr (parseContentChunk fr newPhase this)"
proof -
  let ?fr = "if op_terminalContentFinish this \<noteq> FR_NONE then op_terminalContentFinish this else fr"
  obtain ob r where p: "ob_parseChunk (op_contentParser this) (op_buffer this) [] ?fr = (ob, r)" by fastforce
  have h: "op_contentTokensToHide this = []" "\<not> op_gemma4ToolHandoff this" using assms by (simp_all add: plain_router_def)
  show ?thesis
  proof (cases r)
    case (Inr d)
    show ?thesis
    proof (cases d)
      case (Some x)
      then show ?thesis using h p Inr
        by (cases x) (auto simp: parseContentChunk_def Let_def routed_def to_content_def simp del: split_paired_Ex)
    qed (use h p Inr in \<open>simp add: parseContentChunk_def Let_def routed_def wants_more_def, blast\<close>)
  qed (use h p in \<open>simp add: parseContentChunk_def Let_def\<close>)
qed

lemma routed_enter: "plain_router this \<Longrightarrow> routed this tokens fr (enter_reasoning tokens fr reasoning this)"
  unfolding enter_reasoning_def by (auto simp: routed_reasoning split: TagLookupStatus.split)

lemma routed_unknown: "plain_router this \<Longrightarrow> routed this tokens fr (unknown_phase tokens fr reasoning tool this)"
  unfolding unknown_phase_def Let_def by (simp add: routed_enter routed_tool routed_content)

lemma routed_content_phase: "plain_router this \<Longrightarrow> routed this tokens fr (content_phase tokens fr tool this)"
  unfolding content_phase_def Let_def by (simp add: routed_tool routed_content split: option.split)

lemma routed_reasoning_phase: "plain_router this \<Longrightarrow> routed this tokens fr (reasoning_phase tokens fr this)"
  unfolding reasoning_phase_def by (simp add: routed_enter split: option.split)

lemma routed_processing: "routed this tokens fr (processing_tool_phase tokens fr this)"
  unfolding processing_tool_phase_def Let_def by (simp add: routed_tool split: option.split)

lemma routed_waiting: "plain_router this \<Longrightarrow> routed this tokens fr (waiting_for_tool_phase tokens fr this)"
  unfolding waiting_for_tool_phase_def waiting_rest_def Let_def
  by (simp add: routed_tool routed_content split: option.split) (simp add: plain_router_def)

text \<open>
  C12: Outside the Gemma4 handoff mode and with no content tokens to hide, a call of the router that
  does not raise puts the chunk behind its buffer and then does one of three things: it keeps the
  buffer, delivers nothing and leaves all three parsers alone; or the content parser, shown the whole
  buffer, gives nothing, and the buffer is kept to be shown again; or a non-empty front of the
  buffer is handed to exactly one of the three parsers, whose delta is delivered, and the rest is kept.
  No text is lost or handed to two parsers.
\<close>

theorem text_goes_to_one_parser:
  assumes "plain_router this"
  shows "routed (this\<lparr>op_buffer := op_buffer this @ chunk\<rparr>) tokens fr (op_parseChunk chunk tokens tools fr this)"
proof -
  let ?that = "this\<lparr>op_toolsEnabledForChunk := tools, op_pendingGemma4ToolHandoff := False,
            op_terminalContentFinish := (if fr \<noteq> FR_NONE then fr else op_terminalContentFinish this),
            op_buffer := op_buffer this @ chunk\<rparr>"
  have p: "plain_router ?that" using assms by (simp add: plain_router_def)
  have "routed ?that tokens fr (op_parseChunk chunk tokens tools fr this)"
    using p by (cases "op_processingPhase this")
      (simp_all add: op_parseChunk_def Let_def routed_unknown routed_content_phase routed_processing routed_waiting
        routed_reasoning_phase del: if_weak_cong)
  then show ?thesis by (subst routed_cong [of _ ?that]) simp_all
qed

lemma text_goes_to_one_parser_witness:
  "\<exists>this. qwen3_router = Inr this \<and>
     routed (this\<lparr>op_buffer := op_buffer this @ ''<think>a''\<rparr>) [] FR_NONE (op_parseChunk ''<think>a'' [] False FR_NONE this)"
proof -
  obtain this where t: "qwen3_router = Inr this" "plain_router this"
    by (simp add: qwen3_router_def new_OutputParser_def supported_reasoning_parsers_def Let_def plain_router_def)
  then show ?thesis using text_goes_to_one_parser [OF t(2)] by blast
qed

section \<open>Draining makes progress\<close>

text \<open>
  A pending handoff is about a buffer with a tool call at its front. A call that yields a delta
  shortens the buffer or announces the handoff.
\<close>

definition pending_ok :: "('t, 'r, 'c) OutputParser \<Rightarrow> bool" where
  "pending_ok this \<longleftrightarrow> (op_pendingGemma4ToolHandoff this \<longrightarrow> op_buffer this \<noteq> [])"

definition cache_rank :: "('t, 'r, 'c) OutputParser \<Rightarrow> nat" where
  "cache_rank this = 2 * length (op_buffer this) + (if op_pendingGemma4ToolHandoff this then 0 else 1)"

definition tool_ops :: "('t, 'r, 'c) OutputParser \<Rightarrow> 't parser_ops option" where
  "tool_ops this = map_option ob_ops (op_toolParser this)"

definition advances :: "('t, 'r, 'c) OutputParser \<Rightarrow> ('t, 'r, 'c) outcome \<Rightarrow> bool" where
  "advances this o1 \<longleftrightarrow> tool_ops (fst o1) = tool_ops this \<and>
     (case o1 of
        (that, Inl e) \<Rightarrow> True
      | (that, Inr d) \<Rightarrow> pending_ok that \<and> (d \<noteq> None \<and> op_buffer this \<noteq> [] \<longrightarrow> cache_rank that < cache_rank this))"

lemma advances_held [simp]: "advances this (that, Inr None) \<longleftrightarrow> tool_ops that = tool_ops this \<and> pending_ok that"
  by (simp add: advances_def)

lemma advances_error [simp]: "advances this (that, Inl e) \<longleftrightarrow> tool_ops that = tool_ops this"
  by (simp add: advances_def)

lemma tool_ops_eq: "op_toolParser that = op_toolParser this \<Longrightarrow> tool_ops that = tool_ops this"
  by (simp add: tool_ops_def)

lemma ob_parseChunk_ops: "ob_parseChunk tool chunk tokens fr = (ob, r) \<Longrightarrow> ob_ops ob = ob_ops tool"
  by (auto simp: ob_parseChunk_def split: prod.splits)

lemma not_pending_ok [simp]: "\<not> op_pendingGemma4ToolHandoff this \<Longrightarrow> pending_ok this"
  by (simp add: pending_ok_def)

lemma owned_chunk_shrinks: "owned_chunk buffer tags = (owned, remainder) \<Longrightarrow> buffer \<noteq> [] \<Longrightarrow> length remainder < length buffer"
  using owned_chunk_splits owned_chunk_nonempty by fastforce

lemma advances_tool:
  assumes "\<not> op_pendingGemma4ToolHandoff this"
  shows "advances this (parseToolCallChunk tokens fr newPhase this)"
proof (cases "op_toolParser this")
  case (Some tool)
  obtain owned remainder where o: "owned_chunk (op_buffer this) (pc_endTags (ob_config tool)) = (owned, remainder)" by fastforce
  obtain ob r where p: "ob_parseChunk tool owned tokens fr = (ob, r)" by fastforce
  show ?thesis using owned_chunk_shrinks [OF o] assms
    ob_parseChunk_ops [OF p]
    by (cases r) (simp_all add: parseToolCallChunk_def Some o p advances_def cache_rank_def tool_ops_def)
qed (simp add: parseToolCallChunk_def)

lemma advances_envelope:
  assumes "\<not> op_pendingGemma4ToolHandoff this"
  shows "advances this (reasoning_envelope tokens fr newPhase reasoning this)"
proof -
  obtain owned remainder where o: "owned_chunk (op_buffer this) (pc_endTags (ob_config reasoning)) = (owned, remainder)" by fastforce
  obtain ob r where p: "ob_parseChunk reasoning owned tokens fr = (ob, r)" by fastforce
  show ?thesis using owned_chunk_shrinks [OF o] assms
    by (cases r) (simp_all add: reasoning_envelope_def o p advances_def cache_rank_def Let_def tool_ops_def)
qed

lemma advances_content:
  assumes "\<not> op_pendingGemma4ToolHandoff this"
  shows "advances this (parseContentChunk fr newPhase this)"
proof -
  let ?filtering = "\<not> op_contentSpecialTokensVisible this \<and> \<not> op_toolsEnabledForChunk this \<and> op_contentTokensToHide this \<noteq> []"
  let ?fr = "if op_terminalContentFinish this \<noteq> FR_NONE then op_terminalContentFinish this else fr"
  define shown where "shown = (if ?filtering then erase_tags (op_contentTokensToHide this) (op_buffer this) else Inr (op_buffer this))"
  have "parseContentChunk fr newPhase this = (this, Inl e)" if "shown = Inl e" for e
    using that unfolding shown_def parseContentChunk_def Let_def by (simp only: sum.case)
  moreover have "advances this (parseContentChunk fr newPhase this)" if c: "shown = Inr content" for content
  proof -
    obtain ob r where p: "ob_parseChunk (op_contentParser this) content [] ?fr = (ob, r)" by fastforce
    have step: "parseContentChunk fr newPhase this = (let that = this\<lparr>op_contentParser := ob\<rparr>;
          there = that\<lparr>op_buffer := [], op_processingPhase := newPhase\<rparr>
        in if ?filtering \<and> ?fr = FR_NONE \<and> list_ex (stringsOverlap content) (op_contentTokensToHide this) then (this, Inr None)
        else case r of Inl e \<Rightarrow> (that, Inl e) | Inr None \<Rightarrow> (that, Inr None)
        | Inr (Some (ContentDelta t)) \<Rightarrow> (there\<lparr>op_gemma4LogicalBoundary := (if op_gemma4ToolHandoff this
             then content_boundary t (op_gemma4LogicalBoundary this) else op_gemma4LogicalBoundary this)\<rparr>,
             Inr (if t = [] then None else Some (ContentDelta t)))
        | Inr (Some x) \<Rightarrow> (there, Inr (Some x)))"
      unfolding parseContentChunk_def shown_def [symmetric] c Let_def sum.case p prod.case
      by (auto split: sum.split option.split Delta.split)
    show ?thesis unfolding step Let_def
      using assms by (auto simp: advances_def cache_rank_def tool_ops_def split: sum.split option.split Delta.split)
  qed
  ultimately show ?thesis by (cases shown) simp_all
qed

lemma advances_reasoning:
  assumes pend: "\<not> op_pendingGemma4ToolHandoff this"
  shows "advances this (parseReasoningChunk tokens fr newPhase this)"
proof (cases "op_reasoningParser this")
  case (Some reasoning)
  note env = advances_envelope [OF pend, of tokens fr newPhase reasoning]
  show ?thesis
  proof (cases "op_gemma4ToolHandoff this \<and> op_toolsEnabledForChunk this")
    case True
    show ?thesis
    proof (cases "op_toolParser this")
      case tool: (Some tool)
      let ?start = "findEarliestTag (op_buffer this) (pc_startTags (ob_config tool))"
      show ?thesis
      proof (cases "before_end ?start (findEarliestTag (op_buffer this) (pc_endTags (ob_config reasoning)))")
        case handoff: True
        then obtain p l where s: "?start = Some (p, l)" by (auto simp: before_end_def split: option.splits)
        have b: "p < length (op_buffer this)" using findEarliest_bound [OF s] by simp
        let ?text = "take p (op_buffer this) @
            (if pc_endTags (ob_config reasoning) = [] then [] else hd (pc_endTags (ob_config reasoning)))"
        obtain ob r where q: "ob_parseChunk reasoning ?text tokens FR_NONE = (ob, r)" by fastforce
        let ?that = "this\<lparr>op_reasoningParser := Some ob, op_buffer := drop p (op_buffer this),
          op_processingPhase := PH_UNKNOWN, op_gemma4ReasoningClosed := True\<rparr>"
        have e: "parseReasoningChunk tokens fr newPhase this = (case r of
            Inl e \<Rightarrow> (this\<lparr>op_reasoningParser := Some ob\<rparr>, Inl e)
          | Inr (Some x) \<Rightarrow> (?that\<lparr>op_pendingGemma4ToolHandoff := True\<rparr>, Inr (Some x))
          | Inr None \<Rightarrow> parseToolCallChunk tokens fr PH_TOOL_CALLS_PROCESSING_TOOL (?that\<lparr>op_pendingGemma4ToolHandoff := False\<rparr>))"
          using True handoff q s by (simp add: parseReasoningChunk_def Some tool Let_def del: append.simps split: sum.split option.split)
        have t: "advances this (parseToolCallChunk tokens fr PH_TOOL_CALLS_PROCESSING_TOOL (?that\<lparr>op_pendingGemma4ToolHandoff := False\<rparr>))"
          using advances_tool [of "?that\<lparr>op_pendingGemma4ToolHandoff := False\<rparr>" tokens fr PH_TOOL_CALLS_PROCESSING_TOOL] b pend
          by (auto simp: advances_def cache_rank_def tool_ops_def split: sum.splits prod.splits)
        show ?thesis unfolding e using t b pend
          by (auto simp: advances_def cache_rank_def pending_ok_def tool_ops_def split: sum.split option.split simp del: OutputParser.simps(1))
      qed (use True env pend in \<open>simp add: parseReasoningChunk_def Some tool Let_def\<close>)
    qed (use True in \<open>simp add: parseReasoningChunk_def Some\<close>)
  qed (use env in \<open>simp add: parseReasoningChunk_def Some\<close>)
qed (simp add: parseReasoningChunk_def)

lemma advances_enter:
  "\<not> op_pendingGemma4ToolHandoff this \<Longrightarrow> advances this (enter_reasoning tokens fr reasoning this)"
  unfolding enter_reasoning_def by (auto simp: advances_reasoning split: TagLookupStatus.split)

lemma advances_rest: "\<not> op_pendingGemma4ToolHandoff this \<Longrightarrow> advances this (waiting_rest tokens fr this)"
  unfolding waiting_rest_def Let_def by (simp add: advances_tool advances_content split: option.split)

lemma advances_cong:
  "op_toolParser this1 = op_toolParser this \<Longrightarrow> op_buffer this1 = op_buffer this \<Longrightarrow> op_pendingGemma4ToolHandoff this1 = op_pendingGemma4ToolHandoff this \<Longrightarrow>
     advances this1 o1 = advances this o1"
  unfolding advances_def cache_rank_def tool_ops_def by simp

lemma advances_waiting:
  assumes "\<not> op_pendingGemma4ToolHandoff this"
  shows "advances this (waiting_for_tool_phase tokens fr this)"
proof (cases "if op_gemma4ToolHandoff this then op_reasoningParser this else None")
  case None
  then show ?thesis using advances_rest [OF assms] by (simp add: waiting_for_tool_phase_def)
next
  case (Some reasoning)
  let ?that = "this\<lparr>op_gemma4ReasoningClosed := False, op_reasoningParser := Some (ob_resetState reasoning)\<rparr>"
  have "advances this (enter_reasoning tokens fr (ob_resetState reasoning) ?that)"
    using advances_enter [of ?that tokens fr "ob_resetState reasoning"] assms
    by (subst advances_cong [of _ ?that]) simp_all
  then show ?thesis using assms advances_rest [OF assms]
    unfolding waiting_for_tool_phase_def Some Let_def option.case by (auto split: TagLookupStatus.split)
qed

lemma parseChunk_advances:
  "advances (this\<lparr>op_pendingGemma4ToolHandoff := False, op_buffer := op_buffer this @ chunk\<rparr>) (op_parseChunk chunk tokens tools fr this)"
proof -
  let ?that = "this\<lparr>op_toolsEnabledForChunk := tools, op_pendingGemma4ToolHandoff := False,
            op_terminalContentFinish := (if fr \<noteq> FR_NONE then fr else op_terminalContentFinish this),
            op_buffer := op_buffer this @ chunk\<rparr>"
  have p: "\<not> op_pendingGemma4ToolHandoff ?that" by simp
  have u: "advances ?that (unknown_phase tokens fr reasoning tool ?that)" for reasoning tool
    unfolding unknown_phase_def Let_def using p by (simp add: advances_enter advances_tool advances_content)
  have c: "advances ?that (content_phase tokens fr tool ?that)" for tool
    unfolding content_phase_def Let_def using p by (simp add: advances_tool advances_content split: option.split)
  have r: "advances ?that (reasoning_phase tokens fr ?that)"
    unfolding reasoning_phase_def using advances_enter [OF p] by (cases "op_reasoningParser this") (simp_all del: if_weak_cong)
  have t: "advances ?that (processing_tool_phase tokens fr ?that)"
    unfolding processing_tool_phase_def Let_def using p by (simp add: advances_tool split: option.split)
  have "advances ?that (op_parseChunk chunk tokens tools fr this)"
    using u c r t advances_waiting [OF p] by (cases "op_processingPhase this") (simp_all add: op_parseChunk_def Let_def del: if_weak_cong)
  then show ?thesis by (subst advances_cong [of _ ?that]) simp_all
qed

text \<open>
  With the contract the parsers' header states, that each delta of a tool parser's own drain
  consumes something it holds, measured by \<open>held\<close>: each delta of the router's drain consumes cached
  text or, leaving the cache, what the tool parser holds.
\<close>

definition tool_rank :: "('t \<Rightarrow> nat) \<Rightarrow> ('t, 'r, 'c) OutputParser \<Rightarrow> nat" where
  "tool_rank held this = (case op_toolParser this of None \<Rightarrow> 0 | Some ob \<Rightarrow> held (ob_state ob))"

definition consuming :: "('t \<Rightarrow> nat) \<Rightarrow> ('t, 'r, 'c) OutputParser \<Rightarrow> bool" where
  "consuming held this \<longleftrightarrow>
     (\<forall>ob s s' d. op_toolParser this = Some ob \<longrightarrow> po_drainPendingDelta (ob_ops ob) s = (s', Some d) \<longrightarrow> held s' < held s)"

lemma drain_progress:
  assumes "consuming held this" "pending_ok this" "op_drainPendingDelta this = (that, Inr (Some d))"
  shows "(that, this) \<in> measures [cache_rank, tool_rank held]"
proof (cases "op_pendingGemma4ToolHandoff this")
  case True
  let ?this = "this\<lparr>op_pendingGemma4ToolHandoff := False\<rparr>"
  have "advances ?this (that, Inr (Some d))"
    using advances_tool [of ?this "[]" FR_NONE PH_TOOL_CALLS_PROCESSING_TOOL] assms(3) True by (simp add: op_drainPendingDelta_def)
  moreover have "op_buffer this \<noteq> []" using assms(2) True by (simp add: pending_ok_def)
  ultimately have "cache_rank that < 2 * length (op_buffer this) + 1" by (simp add: advances_def cache_rank_def)
  moreover obtain tool where "op_toolParser this = Some tool" using assms(3) True
    by (cases "op_toolParser this") (auto simp: op_drainPendingDelta_def parseToolCallChunk_def)
  moreover obtain owned remainder where o: "owned_chunk (op_buffer this) (pc_endTags (ob_config tool)) = (owned, remainder)" by fastforce
  ultimately have "op_buffer that = remainder" "\<not> op_pendingGemma4ToolHandoff that"
    using assms(3) True by (auto simp: op_drainPendingDelta_def parseToolCallChunk_def split: sum.splits prod.splits)
  then show ?thesis using owned_chunk_shrinks [OF o] \<open>op_buffer this \<noteq> []\<close> True by (simp add: cache_rank_def)
next
  case False
  let ?call = "\<lambda>this. op_parseChunk [] [] (op_toolsEnabledForChunk this) FR_NONE this"
  have go: "(that, this) \<in> measures [cache_rank, tool_rank held]"
    if "?call this1 = (that, Inr (Some d))" "op_buffer this1 \<noteq> []" "op_buffer this1 = op_buffer this" for this1
    using parseChunk_advances [of this1 "[]" "[]" "op_toolsEnabledForChunk this1" FR_NONE] that False
    by (simp add: advances_def cache_rank_def)
  show ?thesis
  proof (cases "op_toolParser this")
    case None
    then show ?thesis using assms(3) False go [of this] by (auto simp: op_drainPendingDelta_def split: if_splits)
  next
    case (Some tool)
    obtain s d' where dr: "po_drainPendingDelta (ob_ops tool) (ob_state tool) = (s, d')" by fastforce
    have o: "ob_drainPendingDelta tool = (tool\<lparr>ob_state := s\<rparr>, d')" by (simp add: ob_drainPendingDelta_def dr)
    show ?thesis
    proof (cases "op_processingPhase this \<in> {PH_TOOL_CALLS_PROCESSING_TOOL, PH_TOOL_CALLS_WAITING_FOR_TOOL} \<and> d' \<noteq> None")
      case True
      then have "that = this\<lparr>op_toolParser := Some (tool\<lparr>ob_state := s\<rparr>)\<rparr>" using assms(3) False Some o
        by (auto simp: op_drainPendingDelta_def)
      moreover have "held s < held (ob_state tool)" using assms(1) Some dr True by (auto simp: consuming_def)
      ultimately show ?thesis using Some by (simp add: cache_rank_def tool_rank_def)
    next
      case F: False
      then show ?thesis
        using assms(3) False Some o go [of this] go [of "this\<lparr>op_toolParser := Some (tool\<lparr>ob_state := s\<rparr>)\<rparr>"]
        by (auto simp: op_drainPendingDelta_def split: if_splits)
    qed
  qed
qed

text \<open>The chunks one after the other, drained twice each, and the end of the generation.\<close>

definition generation :: "string list \<Rightarrow> router_call list" where
  "generation chunks = concat (map (\<lambda>c. [ParseChunk c [] False FR_NONE, DrainPendingDelta, DrainPendingDelta]) chunks) @
     [ParseChunk [] [] False FR_STOP, DrainPendingDelta]"

text \<open>
  How the text is cut into chunks decides what it counts as: a start tag anywhere in the cached
  text sends all of it to the reasoning parser. So text before the first tag is dropped when it
  comes in one chunk with the thought, and content between two thoughts comes out as reasoning, while
  the same text in smaller chunks is content, tags included.
\<close>

theorem text_before_a_start_tag_depends_on_chunks:
  "map_option snd (case router_run (generation [''Hi<think>x</think>y'']) (projr qwen3_router) of Inl _ \<Rightarrow> None | Inr r \<Rightarrow> Some r) =
     Some [ReasoningDelta ''x'', ContentDelta ''y''] \<and>
   map_option snd (case router_run (generation [''Hi'', ''<think>x</think>y'']) (projr qwen3_router) of Inl _ \<Rightarrow> None | Inr r \<Rightarrow> Some r) =
     Some [ContentDelta ''Hi'', ContentDelta ''<think>x</think>y''] \<and>
   map_option snd (case router_run (generation [''<think>x</think>'', ''y<think>u</think>w'']) (projr qwen3_router) of Inl _ \<Rightarrow> None | Inr r \<Rightarrow> Some r) =
     Some [ReasoningDelta ''x'', ReasoningDelta ''y<think>u'', ContentDelta ''w'']"
  by code_simp

end
