(* ===== verification/Text_Streamer.thy ===== *)
theory Text_Streamer
  imports Output_Router
begin

text \<open>
  The streamer between the token generator and the output parser
  (\<open>src/llm/ovms_text_streamer.cpp\<close>): it decodes tokens, holds the last ones back, hands text to the
  router, drains it and calls the client. The tokenizer is a parameter \<open>decode\<close> from tokens and
  whether special tokens are shown to text; the client is a function from its own state, a delta and
  the flag of the last one to its next state and a status or an exception. A read outside a text is
  the error \<open>OutOfRange\<close>. An operation is \<open>None\<close> when it does not return. The list of all tokens,
  which only a trace reads, is left out.
\<close>

section \<open>State\<close>

datatype StreamingStatus = SS_RUNNING | SS_STOP | SS_CANCEL

datatype CompletionState = Open | Finished | Aborted

record ('t, 'r, 'c, 'k) OVMSTextStreamer =
  ts_tokens_cache :: "int list"
  ts_decoded_lengths :: "int list"
  ts_printed_len :: nat
  ts_completion :: CompletionState
  ts_had_parser_error :: bool
  ts_finished_reason :: "FinishReason option"
  ts_abort_status :: StreamingStatus
  ts_output_parser :: "('t, 'r, 'c) OutputParser option"
  ts_tools_available :: bool
  ts_user_wants_special :: bool
  ts_decode_special_tokens :: bool
  ts_client :: 'k

type_synonym 'k callback = "'k \<Rightarrow> Delta \<Rightarrow> bool \<Rightarrow> 'k \<times> StreamingStatus result"

type_synonym decoder = "int list \<Rightarrow> bool \<Rightarrow> string"

text \<open>Operations that return or raise with a next state, or do not return.\<close>

type_synonym ('s, 'a) act = "'s \<Rightarrow> ('s \<times> 'a result) option"

definition act_bind :: "('s, 'a) act \<Rightarrow> ('a \<Rightarrow> ('s, 'b) act) \<Rightarrow> ('s, 'b) act" where
  "act_bind m f this =
     (case m this of
        None \<Rightarrow> None
      | Some (that, Inl e) \<Rightarrow> Some (that, Inl e)
      | Some (that, Inr x) \<Rightarrow> f x that)"

definition is_incomplete :: "string \<Rightarrow> bool" where
  "is_incomplete s \<longleftrightarrow> 3 \<le> length s \<and> drop (length s - 3) s = [CHR 0xEF, CHR 0xBF, CHR 0xBD]"

definition DELAY_N_TOKENS :: nat where "DELAY_N_TOKENS = 3"

definition clear_cache :: "('t, 'r, 'c, 'k) OVMSTextStreamer \<Rightarrow> ('t, 'r, 'c, 'k) OVMSTextStreamer" where
  "clear_cache this = this\<lparr>ts_tokens_cache := [], ts_decoded_lengths := [], ts_printed_len := 0\<rparr>"

definition latch_failure :: "('t, 'r, 'c, 'k) OVMSTextStreamer \<Rightarrow> ('t, 'r, 'c, 'k) OVMSTextStreamer" where
  "latch_failure this = clear_cache (this\<lparr>ts_completion := Aborted, ts_abort_status := SS_CANCEL\<rparr>)"

definition observe ::
  "StreamingStatus \<Rightarrow> ('t, 'r, 'c, 'k) OVMSTextStreamer \<Rightarrow> ('t, 'r, 'c, 'k) OVMSTextStreamer \<times> StreamingStatus" where
  "observe status this =
     (if ts_completion this = Aborted then (this, ts_abort_status this)
      else if status = SS_RUNNING then (this, status)
      else (clear_cache (this\<lparr>ts_completion := Aborted, ts_abort_status := status\<rparr>), status))"

definition call_back ::
  "'k callback \<Rightarrow> Delta \<Rightarrow> bool \<Rightarrow> ('t, 'r, 'c, 'k) OVMSTextStreamer \<Rightarrow> ('t, 'r, 'c, 'k) OVMSTextStreamer \<times> StreamingStatus result" where
  "call_back callback d isLast this =
     (case callback (ts_client this) d isLast of
        (k, Inl e) \<Rightarrow> (this\<lparr>ts_client := k\<rparr>, Inl e)
      | (k, Inr status) \<Rightarrow> (let (that, s) = observe status (this\<lparr>ts_client := k\<rparr>) in (that, Inr s)))"

definition apply_decode_params :: "bool \<Rightarrow> ('t, 'r, 'c, 'k) OVMSTextStreamer \<Rightarrow> ('t, 'r, 'c, 'k) OVMSTextStreamer" where
  "apply_decode_params decode_special_tokens this = this\<lparr>ts_decode_special_tokens := decode_special_tokens\<rparr>"

definition needs_special :: "('t, 'r, 'c, 'k) OVMSTextStreamer \<Rightarrow> bool" where
  "needs_special this =
     (case ts_output_parser this of
        None \<Rightarrow> ts_user_wants_special this
      | Some op \<Rightarrow> needSpecialTokensForCurrentDecode (ts_user_wants_special this) op)"

text \<open>\<open>skip_special\<close> is the client's parameter, when it has one that is a truth value.\<close>

definition new_OVMSTextStreamer ::
  "('t, 'r, 'c) OutputParser option \<Rightarrow> bool \<Rightarrow> bool option \<Rightarrow> 'k \<Rightarrow> ('t, 'r, 'c, 'k) OVMSTextStreamer" where
  "new_OVMSTextStreamer output_parser tools_available skip_special client =
     (let wants = (case skip_special of None \<Rightarrow> False | Some b \<Rightarrow> \<not> b);
          this = \<lparr>ts_tokens_cache = [], ts_decoded_lengths = [], ts_printed_len = 0, ts_completion = Open,
                  ts_had_parser_error = False, ts_finished_reason = None, ts_abort_status = SS_CANCEL,
                  ts_output_parser = map_option (setContentSpecialTokensVisible wants) output_parser,
                  ts_tools_available = tools_available, ts_user_wants_special = wants,
                  ts_decode_special_tokens = False, ts_client = client\<rparr>
      in apply_decode_params (needs_special this) this)"

section \<open>Handing a chunk to the router\<close>

text \<open>The binary search of the standard library's \<open>upper_bound\<close>.\<close>

function upper_bound_from :: "int list \<Rightarrow> int \<Rightarrow> nat \<Rightarrow> nat \<Rightarrow> nat" where
  "upper_bound_from xs v first len =
     (if len = 0 then first
      else let half = len div 2; mid = first + half
           in if v < xs ! mid then upper_bound_from xs v first half
              else upper_bound_from xs v (mid + 1) (len - half - 1))"
  by pat_completeness auto
termination by (relation "measure (\<lambda>(_, _, _, len). len)") auto

declare upper_bound_from.simps [simp del]

definition upper_bound :: "int list \<Rightarrow> int \<Rightarrow> nat" where
  "upper_bound xs v = upper_bound_from xs v 0 (length xs)"

definition token_slice :: "nat \<Rightarrow> ('t, 'r, 'c, 'k) OVMSTextStreamer \<Rightarrow> int list" where
  "token_slice print_until this =
     (let first_idx = upper_bound (ts_decoded_lengths this) (int (ts_printed_len this));
          last_idx = upper_bound (ts_decoded_lengths this) (int print_until)
      in take (last_idx - first_idx) (drop first_idx (ts_tokens_cache this)))"

text \<open>
  Draining the router: what is left is the last delta, which the caller of the loop hands on; a
  status other than running ends it early.
\<close>

partial_function (option) drain_loop ::
  "'k callback \<Rightarrow> Delta option \<Rightarrow> ('t, 'r, 'c, 'k) OVMSTextStreamer \<Rightarrow>
   (('t, 'r, 'c, 'k) OVMSTextStreamer \<times> (StreamingStatus + Delta option) result) option" where
  "drain_loop callback delta this =
     (case ts_output_parser this of
        None \<Rightarrow> Some (this, Inr (Inr delta))
      | Some op \<Rightarrow>
          (case op_drainPendingDelta op of
             (op', Inl e) \<Rightarrow>
               Some (latch_failure (this\<lparr>ts_output_parser := Some op', ts_had_parser_error := True\<rparr>), Inl e)
           | (op', Inr None) \<Rightarrow> Some (this\<lparr>ts_output_parser := Some op'\<rparr>, Inr (Inr delta))
           | (op', Inr (Some next)) \<Rightarrow>
               (case delta of
                  None \<Rightarrow> drain_loop callback (Some next) (this\<lparr>ts_output_parser := Some op'\<rparr>)
                | Some d \<Rightarrow>
                    (case call_back callback d False (this\<lparr>ts_output_parser := Some op'\<rparr>) of
                       (that, Inl e) \<Rightarrow> Some (that, Inl e)
                     | (that, Inr status) \<Rightarrow>
                         if status \<noteq> SS_RUNNING then Some (that, Inr (Inl status))
                         else drain_loop callback (Some next) that))))"

definition parse_step ::
  "string \<Rightarrow> int list \<Rightarrow> FinishReason \<Rightarrow> ('t, 'r, 'c, 'k) OVMSTextStreamer \<Rightarrow>
   ('t, 'r, 'c, 'k) OVMSTextStreamer \<times> Delta option result" where
  "parse_step chunk tokens finish_reason this =
     (case ts_output_parser this of
        None \<Rightarrow> (this, Inr (if chunk = [] then None else Some (ContentDelta chunk)))
      | Some op \<Rightarrow>
          (case op_parseChunk chunk tokens (ts_tools_available this) finish_reason op of
             (op', Inl e) \<Rightarrow> (latch_failure (this\<lparr>ts_output_parser := Some op', ts_had_parser_error := True\<rparr>), Inl e)
           | (op', Inr d) \<Rightarrow> (this\<lparr>ts_output_parser := Some op'\<rparr>, Inr d)))"

definition flush_chunk ::
  "'k callback \<Rightarrow> string \<Rightarrow> nat \<Rightarrow> FinishReason \<Rightarrow> (('t, 'r, 'c, 'k) OVMSTextStreamer, StreamingStatus) act" where
  "flush_chunk callback s print_until finish_reason this =
     (if print_until < ts_printed_len this \<or> length s < print_until then Some (this, Inl OutOfRange)
      else
        let chunk = take (print_until - ts_printed_len this) (drop (ts_printed_len this) s);
            tokens = token_slice print_until this;
            isLast = (finish_reason \<noteq> FR_NONE)
        in case parse_step chunk tokens finish_reason (this\<lparr>ts_printed_len := print_until\<rparr>) of
             (that, Inl e) \<Rightarrow> Some (that, Inl e)
           | (that, Inr delta) \<Rightarrow>
               act_bind (drain_loop callback delta)
                 (\<lambda>r there. case r of
                    Inl status \<Rightarrow> Some (there, Inr status)
                  | Inr (Some d) \<Rightarrow> Some (call_back callback d isLast there)
                  | Inr None \<Rightarrow>
                      if isLast then Some (call_back callback FinishDelta True there) else Some (there, Inr SS_RUNNING))
                 that)"

section \<open>Writing tokens\<close>

definition flush_pending :: "decoder \<Rightarrow> 'k callback \<Rightarrow> (('t, 'r, 'c, 'k) OVMSTextStreamer, StreamingStatus) act" where
  "flush_pending decode callback this =
     (if ts_tokens_cache this = [] then Some (this, Inr SS_RUNNING)
      else let pending = decode (ts_tokens_cache this) (ts_decode_special_tokens this)
           in if ts_printed_len this < length pending then flush_chunk callback pending (length pending) FR_NONE this
              else Some (this, Inr SS_RUNNING))"

definition start_tag :: "int \<Rightarrow> ('t, 'r, 'c, 'k) OVMSTextStreamer \<Rightarrow> string" where
  "start_tag token this =
     (case ts_output_parser this of
        None \<Rightarrow> []
      | Some op \<Rightarrow> if ts_decode_special_tokens this then [] else getPhaseStartTagForToken token (ts_tools_available this) op)"

definition handle_decoding_params_change ::
  "decoder \<Rightarrow> 'k callback \<Rightarrow> int \<Rightarrow> (('t, 'r, 'c, 'k) OVMSTextStreamer, StreamingStatus option) act" where
  "handle_decoding_params_change decode callback token this =
     (let startTag = start_tag token this
      in if startTag \<noteq> []
         then act_bind (flush_pending decode callback)
                (\<lambda>s that. if s \<noteq> SS_RUNNING then Some (that, Inr (Some s))
                  else act_bind (flush_chunk callback startTag (length startTag) FR_NONE)
                         (\<lambda>s there. let clean = clear_cache there
                            in Some (apply_decode_params (needs_special clean) clean, Inr (Some s)))
                         ((clear_cache that)\<lparr>ts_tokens_cache := [token], ts_decoded_lengths := [int (length startTag)]\<rparr>))
                this
         else if ts_output_parser this \<noteq> None \<and> needs_special this \<noteq> ts_decode_special_tokens this
         then act_bind (flush_pending decode callback)
                (\<lambda>s that. if s \<noteq> SS_RUNNING then Some (that, Inr (Some s))
                  else Some (apply_decode_params (needs_special this) (clear_cache that), Inr None))
                this
         else Some (this, Inr None))"

definition push_token :: "int \<Rightarrow> string \<Rightarrow> ('t, 'r, 'c, 'k) OVMSTextStreamer \<Rightarrow> ('t, 'r, 'c, 'k) OVMSTextStreamer" where
  "push_token token s this =
     this\<lparr>ts_tokens_cache := ts_tokens_cache this @ [token],
          ts_decoded_lengths := ts_decoded_lengths this @ [if is_incomplete s then -1 else int (length s)]\<rparr>"

text \<open>
  The part of \<open>write\<close> after the decoding mode is settled. A text that ends in a newline is not
  incomplete, so its own length is the one entered.
\<close>

definition emit_token ::
  "decoder \<Rightarrow> 'k callback \<Rightarrow> int \<Rightarrow> bool \<Rightarrow> (('t, 'r, 'c, 'k) OVMSTextStreamer, StreamingStatus) act" where
  "emit_token decode callback token immediate_flush this =
     (let s = decode (ts_tokens_cache this @ [token]) (ts_decode_special_tokens this);
          that = push_token token s this
      in if s \<noteq> [] \<and> last s = newline \<and> ts_printed_len that < length s
         then act_bind (flush_chunk callback s (length s) FR_NONE) (\<lambda>status there. Some (clear_cache there, Inr status)) that
         else if is_incomplete s then Some (that, Inr SS_RUNNING)
         else if immediate_flush
         then (if ts_printed_len that < length s then flush_chunk callback s (length s) FR_NONE that
               else Some (that, Inr SS_RUNNING))
         else let n = length (ts_decoded_lengths that)
              in if n < DELAY_N_TOKENS then Some (that, Inr SS_RUNNING)
                 else let print_until_len = ts_decoded_lengths that ! (n - DELAY_N_TOKENS)
                      in if print_until_len \<le> 0 \<or> nat print_until_len \<le> ts_printed_len that
                         then Some (that, Inr SS_RUNNING)
                         else flush_chunk callback s (nat print_until_len) FR_NONE that)"

definition write_token ::
  "decoder \<Rightarrow> 'k callback \<Rightarrow> int \<Rightarrow> bool \<Rightarrow> (('t, 'r, 'c, 'k) OVMSTextStreamer, StreamingStatus) act" where
  "write_token decode callback token immediate_flush =
     act_bind (handle_decoding_params_change decode callback token)
       (\<lambda>r that. case r of Some s \<Rightarrow> Some (that, Inr s) | None \<Rightarrow> emit_token decode callback token immediate_flush that)"

definition write_one :: "decoder \<Rightarrow> 'k callback \<Rightarrow> int \<Rightarrow> (('t, 'r, 'c, 'k) OVMSTextStreamer, StreamingStatus) act" where
  "write_one decode callback token this =
     (if ts_completion this = Aborted then Some (this, Inr (ts_abort_status this))
      else if ts_completion this = Finished then Some (this, Inr SS_CANCEL)
      else write_token decode callback token False this)"

fun write_all :: "decoder \<Rightarrow> 'k callback \<Rightarrow> int list \<Rightarrow> (('t, 'r, 'c, 'k) OVMSTextStreamer, StreamingStatus) act" where
  "write_all decode callback [] this = Some (this, Inr SS_RUNNING)"
| "write_all decode callback (token # tokens) this =
     act_bind (write_one decode callback token)
       (\<lambda>s that. if s \<noteq> SS_RUNNING then Some (that, Inr s) else write_all decode callback tokens that) this"

section \<open>Ending a generation\<close>

fun first_unprinted :: "int list \<Rightarrow> nat \<Rightarrow> nat" where
  "first_unprinted [] printed_len = 0"
| "first_unprinted (dlen # ls) printed_len =
     (if 0 < dlen \<and> nat dlen \<le> printed_len then Suc (first_unprinted ls printed_len) else 0)"

fun write_unprinted :: "decoder \<Rightarrow> 'k callback \<Rightarrow> int list \<Rightarrow> (('t, 'r, 'c, 'k) OVMSTextStreamer, StreamingStatus) act" where
  "write_unprinted decode callback [] this = Some (this, Inr SS_RUNNING)"
| "write_unprinted decode callback (token # tokens) this =
     act_bind (write_token decode callback token True)
       (\<lambda>s that. if s \<noteq> SS_RUNNING then (let (there, s') = observe s that in Some (there, Inr s'))
                 else write_unprinted decode callback tokens that) this"

definition drain_terminal ::
  "decoder \<Rightarrow> 'k callback \<Rightarrow> FinishReason \<Rightarrow> (('t, 'r, 'c, 'k) OVMSTextStreamer, StreamingStatus) act" where
  "drain_terminal decode callback reason this =
     (let idx = first_unprinted (ts_decoded_lengths this) (ts_printed_len this);
          unprinted = drop idx (ts_tokens_cache this);
          this1 = this\<lparr>ts_tokens_cache := take idx (ts_tokens_cache this),
                       ts_decoded_lengths := take idx (ts_decoded_lengths this)\<rparr>
      in act_bind (write_unprinted decode callback unprinted)
           (\<lambda>s that. if s \<noteq> SS_RUNNING then Some (that, Inr s)
             else let final_text = (if ts_tokens_cache that = [] then []
                                    else decode (ts_tokens_cache that) (ts_decode_special_tokens that))
                  in act_bind (flush_chunk callback final_text (ts_printed_len that) reason)
                       (\<lambda>s there. Some (if s \<noteq> SS_RUNNING then there else clear_cache there, Inr s)) that)
           this1)"

text \<open>An exception latches the streamer and goes on.\<close>

definition latching :: "(('t, 'r, 'c, 'k) OVMSTextStreamer, 'a) act \<Rightarrow> (('t, 'r, 'c, 'k) OVMSTextStreamer, 'a) act" where
  "latching m this =
     (case m this of
        Some (that, Inl e) \<Rightarrow> Some (latch_failure that, Inl e)
      | r \<Rightarrow> r)"

definition stream_end :: "decoder \<Rightarrow> 'k callback \<Rightarrow> (('t, 'r, 'c, 'k) OVMSTextStreamer, unit) act" where
  "stream_end decode callback this =
     (if ts_completion this \<noteq> Open then Some (this, Inr ())
      else act_bind (latching (drain_terminal decode callback FR_STOP)) (\<lambda>_ that. Some (that, Inr ())) this)"

definition is_explicit_finish_reason :: "FinishReason \<Rightarrow> bool" where
  "is_explicit_finish_reason reason \<longleftrightarrow> reason = FR_STOP \<or> reason = FR_LENGTH \<or> reason = FR_TOOL_CALL"

definition finish ::
  "decoder \<Rightarrow> 'k callback \<Rightarrow> FinishReason \<Rightarrow> (('t, 'r, 'c, 'k) OVMSTextStreamer, StreamingStatus) act" where
  "finish decode callback reason this =
     (if ts_completion this = Aborted then Some (this, Inr (ts_abort_status this))
      else if \<not> is_explicit_finish_reason reason then Some (this, Inr SS_CANCEL)
      else if ts_completion this = Finished
      then Some (this, Inr (if ts_finished_reason this = Some reason then SS_RUNNING else SS_CANCEL))
      else latching (act_bind (drain_terminal decode callback reason)
             (\<lambda>s that. if s \<noteq> SS_RUNNING then Some (that, Inr s)
               else Some (that\<lparr>ts_completion := Finished, ts_finished_reason := Some reason\<rparr>, Inr SS_RUNNING))) this)"

section \<open>Every operation returns\<close>

text \<open>
  The streamer's router knows of no handoff without text, and its tool parser keeps the contract of
  draining. The parsers may raise; a router whose parsers do not is calm.
\<close>

definition wf_streamer :: "('t \<Rightarrow> nat) \<Rightarrow> ('t, 'r, 'c, 'k) OVMSTextStreamer \<Rightarrow> bool" where
  "wf_streamer held this \<longleftrightarrow>
     (case ts_output_parser this of None \<Rightarrow> True | Some op \<Rightarrow> pending_ok op \<and> consuming held op)"

definition calm :: "('t, 'r, 'c, 'k) OVMSTextStreamer \<Rightarrow> bool" where
  "calm this \<longleftrightarrow> (case ts_output_parser this of None \<Rightarrow> True | Some op \<Rightarrow> wf_router op)"

text \<open>
  The operation returns; it raises with the streamer aborted, or leaves it well-formed; an error of the
  router aborts it, and a calm router has none.
\<close>

definition returns_fine :: "('t \<Rightarrow> nat) \<Rightarrow> ('t, 'r, 'c, 'k) OVMSTextStreamer \<Rightarrow> (('t, 'r, 'c, 'k) OVMSTextStreamer \<times> 'a result) option \<Rightarrow> bool" where
  "returns_fine held this res \<longleftrightarrow>
     (\<exists>that r. res = Some (that, r) \<and>
        (wf_streamer held that \<or> (\<exists>e. r = Inl e) \<and> ts_completion that = Aborted) \<and>
        (ts_had_parser_error that \<longrightarrow> ts_had_parser_error this \<or> (\<exists>e. r = Inl e) \<and> ts_completion that = Aborted) \<and>
        (calm this \<longrightarrow> calm that \<and> (ts_had_parser_error that \<longrightarrow> ts_had_parser_error this)))"

lemma returns_here [simp]:
  "returns_fine held this (Some (that, r)) \<longleftrightarrow>
     (wf_streamer held that \<or> (\<exists>e. r = Inl e) \<and> ts_completion that = Aborted) \<and>
     (ts_had_parser_error that \<longrightarrow> ts_had_parser_error this \<or> (\<exists>e. r = Inl e) \<and> ts_completion that = Aborted) \<and>
     (calm this \<longrightarrow> calm that \<and> (ts_had_parser_error that \<longrightarrow> ts_had_parser_error this))"
  by (simp add: returns_fine_def)

lemma returns_bind:
  assumes "returns_fine held this (m this)"
    and "\<And>x that. wf_streamer held that \<Longrightarrow> returns_fine held that (f x that)"
  shows "returns_fine held this (act_bind m f this)"
proof -
  obtain that r where m: "m this = Some (that, r)"
    "wf_streamer held that \<or> (\<exists>e. r = Inl e) \<and> ts_completion that = Aborted"
    "ts_had_parser_error that \<longrightarrow> ts_had_parser_error this \<or> (\<exists>e. r = Inl e) \<and> ts_completion that = Aborted"
    "calm this \<longrightarrow> calm that \<and> (ts_had_parser_error that \<longrightarrow> ts_had_parser_error this)"
    using assms(1) by (auto simp: returns_fine_def)
  show ?thesis
  proof (cases r)
    case (Inl e)
    then show ?thesis using m by (simp add: act_bind_def)
  next
    case (Inr x)
    then have "returns_fine held that (f x that)" using assms(2) m(2) by simp
    then show ?thesis using m Inr unfolding returns_fine_def act_bind_def by auto
  qed
qed

lemma returns_cong:
  "ts_had_parser_error this1 = ts_had_parser_error this \<Longrightarrow> calm this1 = calm this \<Longrightarrow>
     returns_fine held this1 res = returns_fine held this res"
  by (simp add: returns_fine_def)

lemma wf_streamer_cong: "ts_output_parser this1 = ts_output_parser this \<Longrightarrow> wf_streamer held this1 = wf_streamer held this"
  by (simp add: wf_streamer_def)

lemma calm_cong: "ts_output_parser this1 = ts_output_parser this \<Longrightarrow> calm this1 = calm this"
  by (simp add: calm_def)

lemma wf_streamer_updates [simp]:
  "wf_streamer held (clear_cache this) = wf_streamer held this"
  "wf_streamer held (latch_failure this) = wf_streamer held this"
  "wf_streamer held (apply_decode_params b this) = wf_streamer held this"
  "wf_streamer held (push_token t s this) = wf_streamer held this"
  by (rule wf_streamer_cong, simp add: clear_cache_def latch_failure_def apply_decode_params_def push_token_def)+

lemma calm_updates [simp]:
  "calm (clear_cache this) = calm this"
  "calm (latch_failure this) = calm this"
  "calm (apply_decode_params b this) = calm this"
  "calm (push_token t s this) = calm this"
  by (rule calm_cong, simp add: clear_cache_def latch_failure_def apply_decode_params_def push_token_def)+

lemma caches_updates [simp]:
  "wf_streamer held (this\<lparr>ts_tokens_cache := c, ts_decoded_lengths := l\<rparr>) = wf_streamer held this"
  "calm (this\<lparr>ts_tokens_cache := c, ts_decoded_lengths := l\<rparr>) = calm this"
  "wf_streamer held (this\<lparr>ts_printed_len := n\<rparr>) = wf_streamer held this"
  "calm (this\<lparr>ts_printed_len := n\<rparr>) = calm this"
  "wf_streamer held (this\<lparr>ts_completion := cs, ts_finished_reason := fr\<rparr>) = wf_streamer held this"
  "calm (this\<lparr>ts_completion := cs, ts_finished_reason := fr\<rparr>) = calm this"
  by (rule wf_streamer_cong calm_cong, simp)+

lemma error_updates [simp]:
  "ts_had_parser_error (clear_cache this) = ts_had_parser_error this"
  "ts_had_parser_error (latch_failure this) = ts_had_parser_error this"
  "ts_had_parser_error (apply_decode_params b this) = ts_had_parser_error this"
  "ts_had_parser_error (push_token t s this) = ts_had_parser_error this"
  "ts_completion (latch_failure this) = Aborted"
  "ts_output_parser (latch_failure this) = ts_output_parser this"
  by (simp_all add: clear_cache_def latch_failure_def apply_decode_params_def push_token_def)

lemma observe_keeps:
  "observe s this = (that, s') \<Longrightarrow> wf_streamer held that = wf_streamer held this \<and> calm that = calm this \<and>
     ts_had_parser_error that = ts_had_parser_error this \<and> ts_output_parser that = ts_output_parser this"
  by (auto simp: observe_def clear_cache_def wf_streamer_def calm_def split: if_splits)

lemma call_back_keeps:
  "call_back callback d l this = (that, r) \<Longrightarrow> wf_streamer held that = wf_streamer held this \<and> calm that = calm this \<and>
     ts_had_parser_error that = ts_had_parser_error this \<and> ts_output_parser that = ts_output_parser this"
  using observe_keeps by (fastforce simp: call_back_def wf_streamer_def calm_def split: prod.splits sum.splits)

lemma returns_call_back: "wf_streamer held this \<Longrightarrow> returns_fine held this (Some (call_back callback d l this))"
  using call_back_keeps [of callback d l this] by (cases "call_back callback d l this") simp

lemma drain_keeps_tool:
  assumes "pending_ok op" "op_drainPendingDelta op = (op', r)"
  shows "tool_ops op' = tool_ops op \<and> (pending_ok op' \<or> (\<exists>e. r = Inl e))"
proof (cases "op_pendingGemma4ToolHandoff op")
  case True
  have "advances (op\<lparr>op_pendingGemma4ToolHandoff := False\<rparr>) (op', r)"
    using advances_tool [of "op\<lparr>op_pendingGemma4ToolHandoff := False\<rparr>" "[]" FR_NONE PH_TOOL_CALLS_PROCESSING_TOOL] assms(2) True
    by (simp add: op_drainPendingDelta_def)
  then show ?thesis by (cases r) (simp_all add: advances_def tool_ops_def)
next
  case False
  let ?rest = "\<lambda>this. if op_buffer this = [] then (this, Inr None)
      else op_parseChunk [] [] (op_toolsEnabledForChunk this) FR_NONE this"
  have go: "tool_ops op' = tool_ops op \<and> (pending_ok op' \<or> (\<exists>e. r = Inl e))"
    if "?rest op1 = (op', r)" "tool_ops op1 = tool_ops op" "pending_ok op1" for op1
  proof (cases "op_buffer op1 = []")
    case F: False
    then have "advances (op1\<lparr>op_pendingGemma4ToolHandoff := False, op_buffer := op_buffer op1 @ []\<rparr>) (op', r)"
      using parseChunk_advances [of op1 "[]" "[]" "op_toolsEnabledForChunk op1" FR_NONE] that(1) by simp
    then show ?thesis using that(2) by (cases r) (simp_all add: advances_def tool_ops_def)
  qed (use that in auto)
  show ?thesis
  proof (cases "op_toolParser op")
    case None
    then show ?thesis using go [of op] assms False by (simp add: op_drainPendingDelta_def)
  next
    case (Some tool)
    obtain ob d where o: "ob_drainPendingDelta tool = (ob, d)" by fastforce
    then have "ob_ops ob = ob_ops tool" by (auto simp: ob_drainPendingDelta_def split: prod.splits)
    then have k: "tool_ops (op\<lparr>op_toolParser := Some ob\<rparr>) = tool_ops op" using Some by (simp add: tool_ops_def)
    show ?thesis
    proof (cases "op_processingPhase op \<in> {PH_TOOL_CALLS_PROCESSING_TOOL, PH_TOOL_CALLS_WAITING_FOR_TOOL}")
      case T: True
      show ?thesis
      proof (cases d)
        case None
        then have "?rest (op\<lparr>op_toolParser := Some ob\<rparr>) = (op', r)" using assms(2) False Some o T
          by (simp add: op_drainPendingDelta_def)
        then show ?thesis using go [of "op\<lparr>op_toolParser := Some ob\<rparr>"] k False by simp
      next
        case (Some x)
        then have "op' = op\<lparr>op_toolParser := Some ob\<rparr>" using assms(2) False \<open>op_toolParser op = Some tool\<close> o T
          by (simp add: op_drainPendingDelta_def)
        then show ?thesis using k False by simp
      qed
    next
      case F: False
      then have "?rest op = (op', r)" using assms(2) False Some by (simp add: op_drainPendingDelta_def)
      then show ?thesis using go assms(1) by blast
    qed
  qed
qed

lemma consuming_ops: "tool_ops op' = tool_ops op \<Longrightarrow> consuming held op' = consuming held op"
  by (cases "op_toolParser op'"; cases "op_toolParser op") (auto simp: tool_ops_def consuming_def)

text \<open>The router inside a streamer moves on well-formed, or raises.\<close>

lemma drain_wf_streamer:
  assumes "wf_streamer held this" "ts_output_parser this = Some op" "op_drainPendingDelta op = (op', r)"
  shows "wf_streamer held (this\<lparr>ts_output_parser := Some op'\<rparr>) \<or> (\<exists>e. r = Inl e)"
    and "calm this \<Longrightarrow> calm (this\<lparr>ts_output_parser := Some op'\<rparr>) \<and> (\<exists>d. r = Inr d)"
proof -
  have w: "pending_ok op" "consuming held op" using assms by (simp_all add: wf_streamer_def)
  have k: "tool_ops op' = tool_ops op" "pending_ok op' \<or> (\<exists>e. r = Inl e)" using drain_keeps_tool [OF w(1) assms(3)] by auto
  show "wf_streamer held (this\<lparr>ts_output_parser := Some op'\<rparr>) \<or> (\<exists>e. r = Inl e)"
    using k w(2) consuming_ops [OF k(1)] by (auto simp: wf_streamer_def)
  assume "calm this"
  then show "calm (this\<lparr>ts_output_parser := Some op'\<rparr>) \<and> (\<exists>d. r = Inr d)"
    using drain_fine [of op] assms(2,3) by (auto simp: calm_def fine_def split: sum.splits)
qed

lemma parse_step_wf:
  assumes "wf_streamer held this" "parse_step chunk tokens fr this = (that, r)"
  shows "wf_streamer held that \<or> (\<exists>e. r = Inl e) \<and> ts_completion that = Aborted"
    and "ts_had_parser_error that \<longrightarrow> ts_had_parser_error this \<or> (\<exists>e. r = Inl e) \<and> ts_completion that = Aborted"
    and "calm this \<Longrightarrow> calm that \<and> (ts_had_parser_error that \<longrightarrow> ts_had_parser_error this)"
proof -
  have *: "(wf_streamer held that \<or> (\<exists>e. r = Inl e) \<and> ts_completion that = Aborted) \<and>
    (ts_had_parser_error that \<longrightarrow> ts_had_parser_error this \<or> (\<exists>e. r = Inl e) \<and> ts_completion that = Aborted) \<and>
    (calm this \<longrightarrow> calm that \<and> (ts_had_parser_error that \<longrightarrow> ts_had_parser_error this))"
  proof (cases "ts_output_parser this")
    case None
    then show ?thesis using assms by (auto simp: parse_step_def)
  next
    case (Some op)
    obtain op' x where o: "op_parseChunk chunk tokens (ts_tools_available this) fr op = (op', x)" by fastforce
    have c: "wf_router op' \<and> (\<exists>d. x = Inr d)" if "calm this"
      using parseChunk_fine [of op chunk tokens "ts_tools_available this" fr] o Some that
      by (auto simp: calm_def fine_def split: sum.splits)
    show ?thesis
    proof (cases x)
      case (Inl e)
      then show ?thesis using assms(2) Some o c by (auto simp: parse_step_def)
    next
      case (Inr d)
      have "tool_ops op' = tool_ops op" "pending_ok op'"
        using parseChunk_advances [of op chunk tokens "ts_tools_available this" fr] o Inr by (simp_all add: advances_def tool_ops_def)
      then show ?thesis using assms Some o c Inr consuming_ops [of op' op held] by (auto simp: parse_step_def wf_streamer_def calm_def)
    qed
  qed
  show "wf_streamer held that \<or> (\<exists>e. r = Inl e) \<and> ts_completion that = Aborted"
    "ts_had_parser_error that \<longrightarrow> ts_had_parser_error this \<or> (\<exists>e. r = Inl e) \<and> ts_completion that = Aborted"
    "calm this \<Longrightarrow> calm that \<and> (ts_had_parser_error that \<longrightarrow> ts_had_parser_error this)" using * by blast+
qed

lemma returns_trans:
  "returns_fine held that res \<Longrightarrow> (ts_had_parser_error that \<longrightarrow> ts_had_parser_error this) \<Longrightarrow> (calm this \<longrightarrow> calm that) \<Longrightarrow>
     returns_fine held this res"
  by (auto simp: returns_fine_def)

lemma drain_loop_returns:
  "wf_streamer held this \<Longrightarrow> returns_fine held this (drain_loop callback delta this)"
proof (induction "case ts_output_parser this of None \<Rightarrow> (0, 0) | Some op \<Rightarrow> (cache_rank op, tool_rank held op)"
    arbitrary: this delta rule: wf_induct [OF wf_lex_prod [OF wf_less_than wf_less_than]])
  case (1 this delta)
  show ?case
  proof (cases "ts_output_parser this")
    case None
    then show ?thesis using 1 by (subst drain_loop.simps) simp
  next
    case (Some op)
    obtain op' r where o: "op_drainPendingDelta op = (op', r)" by fastforce
    let ?there = "this\<lparr>ts_output_parser := Some op'\<rparr>"
    have w: "wf_streamer held ?there \<or> (\<exists>e. r = Inl e)" "calm this \<longrightarrow> calm ?there \<and> (\<exists>d. r = Inr d)"
      using drain_wf_streamer [OF 1(2) Some o] by blast+
    have again: "returns_fine held this (drain_loop callback delta' that)"
      if "r = Inr (Some x)" "ts_output_parser that = Some op'" "wf_streamer held that" "ts_had_parser_error that = ts_had_parser_error this"
      for x delta' that
    proof -
      have "(op', op) \<in> measures [cache_rank, tool_rank held]"
        using drain_progress [of held op op'] o that 1(2) Some by (simp add: wf_streamer_def)
      then have "returns_fine held that (drain_loop callback delta' that)"
        using 1(1) that Some by (auto simp: in_measures)
      then show ?thesis by (rule returns_trans) (use that w(2) in \<open>auto simp: calm_def\<close>)
    qed
    show ?thesis
    proof (cases r)
      case (Inl e)
      then have "\<not> calm this" using w(2) by auto
      then show ?thesis using o Some Inl by (subst drain_loop.simps) simp
    next
      case (Inr d)
      then have wt: "wf_streamer held ?there" using w(1) by simp
      show ?thesis
      proof (cases d)
        case None
        then show ?thesis using o Some Inr wt w(2) by (subst drain_loop.simps) simp
      next
        case next_delta: (Some x)
        show ?thesis
        proof (cases delta)
          case None
          then show ?thesis using o Some Inr next_delta again [of x ?there] wt
            by (subst drain_loop.simps) simp
        next
          case held_delta: (Some y)
          obtain that s where c: "call_back callback y False ?there = (that, s)" by fastforce
          note k = call_back_keeps [OF c]
          then have v: "wf_streamer held that" "ts_had_parser_error that = ts_had_parser_error this"
            "ts_output_parser that = Some op'" "calm that = calm ?there"
            using wt by simp_all
          then show ?thesis using o Some Inr next_delta held_delta c again [of x that] w(2)
            by (cases s) (subst drain_loop.simps, simp)+
        qed
      qed
    qed
  qed
qed

lemma flush_chunk_returns:
  assumes "wf_streamer held this"
  shows "returns_fine held this (flush_chunk callback s print_until fr this)"
proof -
  let ?chunk = "take (print_until - ts_printed_len this) (drop (ts_printed_len this) s)"
  let ?that = "this\<lparr>ts_printed_len := print_until\<rparr>"
  have "wf_streamer held ?that" using assms by simp
  obtain that r where p: "parse_step ?chunk (token_slice print_until this) fr ?that = (that, r)" by fastforce
  note k = parse_step_wf [OF \<open>wf_streamer held ?that\<close> p]
  show ?thesis
  proof (cases "print_until < ts_printed_len this \<or> length s < print_until")
    case True
    then show ?thesis using assms by (simp add: flush_chunk_def)
  next
    case range: False
    show ?thesis
    proof (cases r)
      case (Inl e)
      then show ?thesis using range k unfolding flush_chunk_def Let_def p by simp
    next
      case (Inr d)
      let ?f = "\<lambda>r there. case r of
          Inl status \<Rightarrow> Some (there, Inr status)
        | Inr (Some d) \<Rightarrow> Some (call_back callback d (fr \<noteq> FR_NONE) there)
        | Inr None \<Rightarrow> if fr \<noteq> FR_NONE then Some (call_back callback FinishDelta True there) else Some (there, Inr SS_RUNNING)"
      have "wf_streamer held that" using k(1) Inr by simp
      then have "returns_fine held that (act_bind (drain_loop callback d) ?f that)"
        by (intro returns_bind drain_loop_returns) (auto simp: returns_call_back split: sum.split option.split)
      then have "returns_fine held this (act_bind (drain_loop callback d) ?f that)"
        by (rule returns_trans) (use k(2,3) Inr in auto)
      then show ?thesis using range unfolding flush_chunk_def Let_def p Inr prod.case sum.case by (simp only: if_False)
    qed
  qed
qed

lemma flush_pending_returns: "wf_streamer held this \<Longrightarrow> returns_fine held this (flush_pending decode callback this)"
  by (simp add: flush_pending_def flush_chunk_returns Let_def)

lemma handle_returns:
  assumes "wf_streamer held this"
  shows "returns_fine held this (handle_decoding_params_change decode callback token this)"
proof -
  have t: "returns_fine held that (act_bind (flush_chunk callback tag (length tag) FR_NONE)
      (\<lambda>s there. Some (apply_decode_params (needs_special (clear_cache there)) (clear_cache there), Inr (Some s)))
      ((clear_cache that)\<lparr>ts_tokens_cache := [token], ts_decoded_lengths := [n]\<rparr>))"
    if "wf_streamer held that" for that tag n
  proof -
    let ?there = "(clear_cache that)\<lparr>ts_tokens_cache := [token], ts_decoded_lengths := [n]\<rparr>"
    have "returns_fine held ?there (flush_chunk callback tag (length tag) FR_NONE ?there)"
      using that by (intro flush_chunk_returns) simp
    then have "returns_fine held ?there (act_bind (flush_chunk callback tag (length tag) FR_NONE)
      (\<lambda>s there. Some (apply_decode_params (needs_special (clear_cache there)) (clear_cache there), Inr (Some s))) ?there)"
      by (rule returns_bind) simp
    then show ?thesis by (subst returns_cong [of _ ?there]) simp_all
  qed
  show ?thesis
    unfolding handle_decoding_params_change_def Let_def
    using assms t by (auto intro!: returns_bind flush_pending_returns)
qed

lemma emit_returns:
  assumes "wf_streamer held this"
  shows "returns_fine held this (emit_token decode callback token imm this)"
proof -
  let ?s = "decode (ts_tokens_cache this @ [token]) (ts_decode_special_tokens this)"
  let ?that = "push_token token ?s this"
  have "wf_streamer held ?that" "ts_had_parser_error ?that = ts_had_parser_error this" using assms by simp_all
  note f = flush_chunk_returns [OF this(1)] and c = returns_cong [OF this(2)]
  have "returns_fine held ?that (act_bind (flush_chunk callback ?s (length ?s) FR_NONE) (\<lambda>st there. Some (clear_cache there, Inr st)) ?that)"
    by (rule returns_bind, rule f) simp
  then show ?thesis
    unfolding emit_token_def Let_def using assms f by (simp add: c)
qed

lemma write_token_returns: "wf_streamer held this \<Longrightarrow> returns_fine held this (write_token decode callback token imm this)"
  unfolding write_token_def by (rule returns_bind, erule handle_returns) (auto simp: emit_returns split: option.split)

lemma write_one_returns: "wf_streamer held this \<Longrightarrow> returns_fine held this (write_one decode callback token this)"
  by (simp add: write_one_def write_token_returns)

lemma write_all_returns: "wf_streamer held this \<Longrightarrow> returns_fine held this (write_all decode callback tokens this)"
  by (induction tokens arbitrary: this) (auto intro!: returns_bind write_one_returns)

lemma observe_returns:
  "wf_streamer held this \<Longrightarrow> returns_fine held this (case observe s this of (there, s') \<Rightarrow> Some (there, Inr s'))"
  using observe_keeps [of s this] by (cases "observe s this") simp

lemma write_unprinted_returns: "wf_streamer held this \<Longrightarrow> returns_fine held this (write_unprinted decode callback tokens this)"
proof (induction tokens arbitrary: this)
  case (Cons token tokens)
  show ?case unfolding write_unprinted.simps
    by (rule returns_bind, rule write_token_returns [OF Cons.prems]) (simp add: Cons.IH observe_returns)
qed simp

lemma drain_terminal_returns:
  assumes "wf_streamer held this"
  shows "returns_fine held this (drain_terminal decode callback reason this)"
proof -
  have w: "wf_streamer held (this\<lparr>ts_tokens_cache := c, ts_decoded_lengths := l\<rparr>)" for c l using assms by (simp add: wf_streamer_def)
  have f: "returns_fine held that (act_bind (flush_chunk callback s p reason)
      (\<lambda>s there. Some (if s \<noteq> SS_RUNNING then there else clear_cache there, Inr s)) that)" if "wf_streamer held that" for that s p
    by (rule returns_bind, rule flush_chunk_returns [OF that]) simp
  have key: "returns_fine held (this\<lparr>ts_tokens_cache := c, ts_decoded_lengths := l\<rparr>) (act_bind (write_unprinted decode callback u)
       (\<lambda>s that. if s \<noteq> SS_RUNNING then Some (that, Inr s)
         else act_bind (flush_chunk callback (final that) (ts_printed_len that) reason)
                (\<lambda>s there. Some (if s \<noteq> SS_RUNNING then there else clear_cache there, Inr s)) that)
       (this\<lparr>ts_tokens_cache := c, ts_decoded_lengths := l\<rparr>))" for c l u final
    by (rule returns_bind, rule write_unprinted_returns [OF w]) (simp add: f)
  show ?thesis unfolding drain_terminal_def Let_def by (rule iffD1 [OF returns_cong key]) simp_all
qed

lemma latching_returns: "returns_fine held this (m this) \<Longrightarrow> returns_fine held this (latching m this)"
  by (auto simp: latching_def returns_fine_def split: sum.split)

lemma stream_end_returns: "wf_streamer held this \<Longrightarrow> returns_fine held this (stream_end decode callback this)"
  unfolding stream_end_def by (auto intro!: returns_bind latching_returns drain_terminal_returns)

lemma finish_returns: "wf_streamer held this \<Longrightarrow> returns_fine held this (finish decode callback reason this)"
proof -
  have u: "wf_streamer held (that\<lparr>ts_completion := c, ts_finished_reason := r\<rparr>) = wf_streamer held that" for that c r
    by (simp add: wf_streamer_def)
  assume "wf_streamer held this"
  then show ?thesis unfolding finish_def by (auto intro!: latching_returns returns_bind drain_terminal_returns simp: u)
qed

section \<open>Sequences of calls\<close>

datatype streamer_call = Write int | WriteAll "int list" | End | Finish FinishReason

definition streamer_step ::
  "decoder \<Rightarrow> 'k callback \<Rightarrow> streamer_call \<Rightarrow> (('t, 'r, 'c, 'k) OVMSTextStreamer, StreamingStatus) act" where
  "streamer_step decode callback c =
     (case c of
        Write token \<Rightarrow> write_one decode callback token
      | WriteAll tokens \<Rightarrow> write_all decode callback tokens
      | End \<Rightarrow> act_bind (stream_end decode callback) (\<lambda>_ that. Some (that, Inr SS_RUNNING))
      | Finish reason \<Rightarrow> finish decode callback reason)"

text \<open>All calls are made, whatever the earlier ones returned or raised.\<close>

fun streamer_run ::
  "decoder \<Rightarrow> 'k callback \<Rightarrow> streamer_call list \<Rightarrow> ('t, 'r, 'c, 'k) OVMSTextStreamer \<Rightarrow>
   (('t, 'r, 'c, 'k) OVMSTextStreamer \<times> StreamingStatus result list) option" where
  "streamer_run decode callback [] this = Some (this, [])"
| "streamer_run decode callback (c # cs) this =
     (case streamer_step decode callback c this of
        None \<Rightarrow> None
      | Some (that, r) \<Rightarrow> map_option (\<lambda>(last_state, rs). (last_state, r # rs)) (streamer_run decode callback cs that))"

lemma streamer_step_returns: "wf_streamer held this \<Longrightarrow> returns_fine held this (streamer_step decode callback c this)"
  unfolding streamer_step_def
  by (cases c) (auto simp: write_one_returns write_all_returns finish_returns intro!: returns_bind stream_end_returns)

text \<open>A streamer that is no longer open does nothing any more.\<close>

lemma closed_step:
  "ts_completion this \<noteq> Open \<Longrightarrow> \<exists>s. streamer_step decode callback c this = Some (this, Inr s)"
proof (cases c)
  case (WriteAll tokens)
  assume c: "ts_completion this \<noteq> Open"
  have "\<exists>s. write_all decode callback tokens this = Some (this, Inr s)"
    using c by (cases "ts_completion this"; induction tokens) (auto simp: write_one_def act_bind_def)
  then show ?thesis by (simp add: streamer_step_def WriteAll)
qed (cases "ts_completion this", auto simp: streamer_step_def write_one_def stream_end_def finish_def act_bind_def)+

lemma closed_run: "ts_completion this \<noteq> Open \<Longrightarrow> \<exists>rs. streamer_run decode callback cs this = Some (this, map Inr rs)"
proof (induction cs)
  case (Cons c cs)
  obtain s where "streamer_step decode callback c this = Some (this, Inr s)" using closed_step [OF Cons.prems] by blast
  moreover obtain rs where "streamer_run decode callback cs this = Some (this, map Inr rs)" using Cons by blast
  ultimately show ?case by (auto intro: exI [of _ "s # rs"])
qed simp

lemma streamer_run_returns:
  "wf_streamer held this \<or> ts_completion this = Aborted \<Longrightarrow> (ts_had_parser_error this \<longrightarrow> ts_completion this = Aborted) \<Longrightarrow>
     \<exists>that rs. streamer_run decode callback cs this = Some (that, rs) \<and>
       (ts_had_parser_error that \<longrightarrow> ts_completion that = Aborted) \<and>
       (calm this \<longrightarrow> ts_had_parser_error that \<longrightarrow> ts_had_parser_error this)"
proof (induction cs arbitrary: this)
  case (Cons c cs)
  show ?case
  proof (cases "ts_completion this = Aborted")
    case True
    then have "ts_completion this \<noteq> Open" by simp
    then show ?thesis using closed_run [of this decode callback "c # cs"] True by blast
  next
    case False
    then obtain that r where s: "streamer_step decode callback c this = Some (that, r)"
      "wf_streamer held that \<or> ts_completion that = Aborted" "ts_had_parser_error that \<longrightarrow> ts_completion that = Aborted"
      "calm this \<longrightarrow> calm that \<and> (ts_had_parser_error that \<longrightarrow> ts_had_parser_error this)"
      using streamer_step_returns [of held this decode callback c] Cons.prems by (auto simp: returns_fine_def)
    then show ?thesis using Cons.IH [OF s(2,3)] by auto
  qed
qed simp

text \<open>
  C21: Every call of a streamer returns, whatever tokens come, whatever the tokenizer makes of them,
  however the client answers and also when parsers raise, provided that the tool parser holds less
  after every delta it gives while it is drained: the loop that drains the router ends, because each
  of its rounds consumes cached text, announces a handoff or lets the tool parser consume. An error of
  the router leaves the streamer aborted, and with parsers that never raise there is none.
\<close>

theorem streamer_always_returns:
  assumes "new_OutputParser make_tool make_reasoning make_content toolName reasoningName = Inr op"
    and "\<forall>n s s' d. po_drainPendingDelta (ob_ops (make_tool n)) s = (s', Some d) \<longrightarrow> held s' < (held s :: nat)"
  shows "\<exists>that rs. streamer_run decode callback calls
             (new_OVMSTextStreamer (Some (setImplicitReasoningStart implicit op)) tools skip client) = Some (that, rs) \<and>
           (ts_had_parser_error that \<longrightarrow> ts_completion that = Aborted) \<and>
           ((\<forall>n. total_parser (make_tool n)) \<and> (\<forall>n. total_parser (make_reasoning n)) \<and> (\<forall>k. total_parser (make_content k)) \<longrightarrow>
              \<not> ts_had_parser_error that)"
proof -
  let ?start = "new_OVMSTextStreamer (Some (setImplicitReasoningStart implicit op)) tools skip client"
  let ?op = "\<lambda>wants. setContentSpecialTokensVisible wants (setImplicitReasoningStart implicit op)"
  have t: "op_toolParser op = (if toolName = [] then None else Some (make_tool toolName))" "\<not> op_pendingGemma4ToolHandoff op"
    using assms(1) by (auto simp: new_OutputParser_def Let_def split: if_split_asm)
  have "op_toolParser (?op w) = op_toolParser op" "\<not> op_pendingGemma4ToolHandoff (?op w)" for w
    using t by (auto simp: setContentSpecialTokensVisible_def setImplicitReasoningStart_def Let_def split: option.split)
  then have w: "wf_streamer held ?start" "\<not> ts_had_parser_error ?start"
    using t assms(2) by (auto simp: new_OVMSTextStreamer_def wf_streamer_def consuming_def Let_def apply_decode_params_def)
  have "calm ?start" if "\<forall>n. total_parser (make_tool n)" "\<forall>n. total_parser (make_reasoning n)" "\<forall>k. total_parser (make_content k)"
  proof -
    have "wf_router (?op w)" for w using new_OutputParser_wf [OF assms(1) that] implicit_wf visible_wf by blast
    then show ?thesis by (simp add: new_OVMSTextStreamer_def calm_def Let_def apply_decode_params_def)
  qed
  then show ?thesis using streamer_run_returns [of held ?start decode callback calls] w by blast
qed

definition collect :: "(Delta \<times> bool) list callback" where
  "collect k d isLast = (k @ [(d, isLast)], Inr SS_RUNNING)"

definition qwen3_streamer :: "(unit, bool, unit, (Delta \<times> bool) list) OVMSTextStreamer" where
  "qwen3_streamer = new_OVMSTextStreamer (Some (setImplicitReasoningStart False (projr qwen3_router))) False None []"

lemma streamer_always_returns_witness:
  "\<exists>that rs. streamer_run (\<lambda>ts _. map (\<lambda>_. CHR ''a'') ts) collect [Write 1, WriteAll [2, 3, 4], End] qwen3_streamer = Some (that, rs) \<and>
     \<not> ts_had_parser_error that"
proof -
  obtain op where t: "qwen3_router = Inr op"
    by (simp add: qwen3_router_def new_OutputParser_def supported_reasoning_parsers_def Let_def)
  have tot: "total_parser qwen3_object" "total_parser (content_object [])"
    unfolding qwen3_object_def content_object_def by (rule qwen3.object_total plain_content.object_total)+
  have "\<forall>n s s' d. po_drainPendingDelta (ob_ops ((\<lambda>_. content_object []) n)) s = (s', Some d) \<longrightarrow> (\<lambda>_. 0) s' < ((\<lambda>_. 0) s :: nat)"
    by (simp add: content_object_def default_content_parser_def)
  from streamer_always_returns [OF t [unfolded qwen3_router_def] this, where implicit = False and tools = False and skip = None and client = "[]"]
  show ?thesis unfolding qwen3_streamer_def t sum.sel using tot by blast
qed

section \<open>The client is left alone\<close>

text \<open>
  A client whose calls are recorded with its answers. It declines with an answer that is a status
  other than running.
\<close>

type_synonym heard = "(Delta \<times> bool \<times> StreamingStatus result) list"

fun recorded :: "'k callback \<Rightarrow> ('k \<times> heard) callback" where
  "recorded callback (k, heard) d isLast = (case callback k d isLast of (k', r) \<Rightarrow> ((k', heard @ [(d, isLast, r)]), r))"

fun declines :: "StreamingStatus \<Rightarrow> Delta \<times> bool \<times> StreamingStatus result \<Rightarrow> bool" where
  "declines s (d, isLast, r) \<longleftrightarrow> s \<noteq> SS_RUNNING \<and> r = Inr s"

definition willing :: "heard \<Rightarrow> bool" where
  "willing h \<longleftrightarrow> (\<forall>x\<in>set h. \<forall>s. \<not> declines s x)"

definition declined_last :: "StreamingStatus \<Rightarrow> heard \<Rightarrow> bool" where
  "declined_last s h \<longleftrightarrow> (\<exists>us x. h = us @ [x] \<and> willing us \<and> declines s x)"

lemma willing_append [simp]: "willing (us @ vs) \<longleftrightarrow> willing us \<and> willing vs"
  by (auto simp: willing_def)

text \<open>
  From an open streamer with a willing client, what an operation gives is running and leaves both so, or is the
  status with which the client has declined at last, and the streamer is aborted with it.
\<close>

definition latched :: "('t, 'r, 'c, 'k \<times> heard) OVMSTextStreamer \<Rightarrow> StreamingStatus \<Rightarrow> bool" where
  "latched that status \<longleftrightarrow>
     (if status = SS_RUNNING then ts_completion that = Open \<and> willing (snd (ts_client that))
      else ts_completion that = Aborted \<and> ts_abort_status that = status \<and> declined_last status (snd (ts_client that)))"

definition latches :: "('a \<Rightarrow> StreamingStatus) \<Rightarrow> (('t, 'r, 'c, 'k \<times> heard) OVMSTextStreamer \<times> 'a result) option \<Rightarrow> bool" where
  "latches status res \<longleftrightarrow>
     (case res of
        Some (that, Inr x) \<Rightarrow> latched that (status x)
      | Some (that, Inl e) \<Rightarrow> willing (snd (ts_client that))
      | None \<Rightarrow> True)"

lemma latches_simps [simp]:
  "latches status None" "latches status (Some (that, Inl e)) = willing (snd (ts_client that))"
  "latches status (Some (that, Inr x)) = latched that (status x)"
  by (simp_all add: latches_def)

lemma latched_willing: "latched this SS_RUNNING \<Longrightarrow> willing (snd (ts_client this))"
  by (simp add: latched_def)

lemma latched_updates [simp]:
  "latched (clear_cache this) s = latched this s"
  "latched (apply_decode_params b this) s = latched this s"
  "latched (push_token t txt' this) s = latched this s"
  "latched (this\<lparr>ts_tokens_cache := c, ts_decoded_lengths := l\<rparr>) s = latched this s"
  "latched (this\<lparr>ts_tokens_cache := c\<rparr>) s = latched this s"
  "latched (this\<lparr>ts_printed_len := n\<rparr>) s = latched this s"
  "latched (this\<lparr>ts_output_parser := p\<rparr>) s = latched this s"
  by (simp_all add: latched_def clear_cache_def apply_decode_params_def push_token_def)

lemma latches_bind:
  assumes "latches st (m this)"
    and "\<And>x that. latched that (st x) \<Longrightarrow> latches st' (f x that)"
  shows "latches st' (act_bind m f this)"
proof (cases "m this")
  case (Some res)
  obtain that r where res: "res = (that, r)" by fastforce
  show ?thesis using assms(1) assms(2) [of that] by (cases r) (simp_all add: act_bind_def Some res)
qed (simp add: act_bind_def)

lemma latched_failure [simp]: "ts_client (latch_failure this) = ts_client this"
  by (simp add: latch_failure_def clear_cache_def)

lemma latches_call_back: "latched this SS_RUNNING \<Longrightarrow> latches (\<lambda>s. s) (Some (call_back (recorded callback) d l this))"
  by (cases "ts_client this")
    (auto simp: call_back_def latches_def latched_def observe_def clear_cache_def willing_def declined_last_def
      split: prod.split sum.split if_splits)

lemma latches_drain_loop:
  "drain_loop cb delta this = Some res \<Longrightarrow> cb = recorded callback \<Longrightarrow> latched this SS_RUNNING \<Longrightarrow>
     latches (\<lambda>x. case x of Inl s \<Rightarrow> s | Inr _ \<Rightarrow> SS_RUNNING) (Some res)"
proof (induction rule: drain_loop.raw_induct [rotated -1, consumes 1])
  case (1 loop cb delta this res)
  show ?case
  proof (cases "ts_output_parser this")
    case None
    then show ?thesis using "1.prems" "1.hyps" latched_willing by auto
  next
    case (Some op)
    obtain op' r where o: "op_drainPendingDelta op = (op', r)" by fastforce
    let ?there = "this\<lparr>ts_output_parser := Some op'\<rparr>"
    have l: "latched ?there SS_RUNNING" using "1.prems" by simp
    show ?thesis
    proof (cases r)
      case (Inl e)
      then show ?thesis using "1.hyps" Some o latched_willing [OF l] by auto
    next
      case r: (Inr d)
      show ?thesis
      proof (cases d)
        case None
        then show ?thesis using "1.hyps" Some o r l by auto
      next
        case d: (Some x)
        show ?thesis
        proof (cases delta)
          case None
          then have "loop cb (Some x) ?there = Some res" using "1.hyps" Some o r d by simp
          then show ?thesis using "1.IH" "1.prems"(1) l by blast
        next
          case delta: (Some y)
          obtain that s where c: "call_back cb y False ?there = (that, s)" by fastforce
          have lt: "latches (\<lambda>s. s) (Some (that, s))" using latches_call_back [OF l, of callback y False] c "1.prems"(1) by simp
          show ?thesis
          proof (cases "s = Inr SS_RUNNING")
            case True
            then have "loop cb (Some x) that = Some res" using "1.hyps" Some o r d delta c by simp
            then show ?thesis using "1.IH" "1.prems"(1) lt True by simp
          next
            case False
            then show ?thesis using "1.hyps" Some o r d delta c lt by (cases s) auto
          qed
        qed
      qed
    qed
  qed
qed

lemma latches_parse_step:
  "latched this SS_RUNNING \<Longrightarrow> parse_step chunk tokens fr this = (that, Inr d) \<Longrightarrow> latched that SS_RUNNING"
  by (auto simp: parse_step_def split: option.splits prod.splits sum.splits)

lemma parse_step_client: "parse_step chunk tokens fr this = (that, r) \<Longrightarrow> ts_client that = ts_client this"
  by (auto simp: parse_step_def split: option.splits prod.splits sum.splits)

lemma latches_flush:
  assumes "latched this SS_RUNNING"
  shows "latches (\<lambda>s. s) (flush_chunk (recorded callback) s print_until fr this)"
proof -
  let ?chunk = "take (print_until - ts_printed_len this) (drop (ts_printed_len this) s)"
  obtain that r where p: "parse_step ?chunk (token_slice print_until this) fr (this\<lparr>ts_printed_len := print_until\<rparr>) = (that, r)"
    by fastforce
  show ?thesis
  proof (cases "print_until < ts_printed_len this \<or> length s < print_until")
    case False
    show ?thesis
    proof (cases r)
      case (Inr d)
      have l: "latched that SS_RUNNING" using latches_parse_step [OF _ p [unfolded Inr]] assms by simp
      have "latches (\<lambda>x. case x of Inl s \<Rightarrow> s | Inr _ \<Rightarrow> SS_RUNNING) (drain_loop (recorded callback) d that)"
        using latches_drain_loop [OF _ refl l] by (cases "drain_loop (recorded callback) d that") auto
      then show ?thesis using False unfolding flush_chunk_def Let_def p Inr prod.case sum.case
        by (simp only: if_False) (rule latches_bind, auto simp: latches_call_back split: sum.splits option.splits)
    qed (use False p parse_step_client [OF p] latched_willing [OF assms] in \<open>simp add: flush_chunk_def Let_def\<close>)
  qed (use latched_willing [OF assms] in \<open>simp add: flush_chunk_def\<close>)
qed

lemma latches_flush_pending: "latched this SS_RUNNING \<Longrightarrow> latches (\<lambda>s. s) (flush_pending decode (recorded callback) this)"
  by (simp add: flush_pending_def latches_flush Let_def)

lemma latches_handle:
  assumes "latched this SS_RUNNING"
  shows "latches (\<lambda>r. case r of None \<Rightarrow> SS_RUNNING | Some s \<Rightarrow> s) (handle_decoding_params_change decode (recorded callback) token this)"
proof -
  have f: "latches (\<lambda>s. s) (flush_pending decode (recorded callback) this)" using assms by (rule latches_flush_pending)
  have t: "latches (\<lambda>r. case r of None \<Rightarrow> SS_RUNNING | Some s \<Rightarrow> s) (act_bind (flush_chunk (recorded callback) tag (length tag) FR_NONE)
      (\<lambda>s there. Some (apply_decode_params (needs_special (clear_cache there)) (clear_cache there), Inr (Some s)))
      ((clear_cache that)\<lparr>ts_tokens_cache := [token], ts_decoded_lengths := [n]\<rparr>))"
    if "latched that SS_RUNNING" for tag n and that :: "('a, 'b, 'c, 'd \<times> heard) OVMSTextStreamer"
    using that by (intro latches_bind [where st = "\<lambda>s. s"] latches_flush) simp_all
  have "latches (\<lambda>r. case r of None \<Rightarrow> SS_RUNNING | Some s \<Rightarrow> s) (act_bind (flush_pending decode (recorded callback))
      (\<lambda>s that. if s \<noteq> SS_RUNNING then Some (that, Inr (Some s)) else g that) this)"
    if "\<And>that. latched that SS_RUNNING \<Longrightarrow> latches (\<lambda>r. case r of None \<Rightarrow> SS_RUNNING | Some s \<Rightarrow> s) (g that)" for g
    by (rule latches_bind, rule f) (use that in auto)
  then show ?thesis unfolding handle_decoding_params_change_def Let_def using assms t by simp
qed

lemma latches_emit:
  assumes "latched this SS_RUNNING"
  shows "latches (\<lambda>s. s) (emit_token decode (recorded callback) token imm this)"
proof -
  let ?s = "decode (ts_tokens_cache this @ [token]) (ts_decode_special_tokens this)"
  have l: "latched (push_token token ?s this) SS_RUNNING" using assms by simp
  have "latches (\<lambda>s. s) (act_bind (flush_chunk (recorded callback) ?s (length ?s) FR_NONE) (\<lambda>st there. Some (clear_cache there, Inr st))
      (push_token token ?s this))"
    using l by (intro latches_bind [where st = "\<lambda>s. s"] latches_flush) simp_all
  then show ?thesis unfolding emit_token_def Let_def using latches_flush [OF l] l by simp
qed

lemma latches_write_token:
  assumes "latched this SS_RUNNING"
  shows "latches (\<lambda>s. s) (write_token decode (recorded callback) token imm this)"
  unfolding write_token_def
  by (rule latches_bind, rule latches_handle [OF assms]) (auto simp: latches_emit split: option.splits)

lemma latches_write_one: "latched this SS_RUNNING \<Longrightarrow> latches (\<lambda>s. s) (write_one decode (recorded callback) token this)"
  using latches_write_token [of this] by (auto simp: write_one_def latched_def)

lemma latches_write_all: "latched this SS_RUNNING \<Longrightarrow> latches (\<lambda>s. s) (write_all decode (recorded callback) tokens this)"
proof (induction tokens arbitrary: this)
  case (Cons token tokens)
  show ?case unfolding write_all.simps
    by (rule latches_bind, rule latches_write_one [OF Cons.prems]) (auto simp: Cons.IH)
qed simp

lemma latches_write_unprinted: "latched this SS_RUNNING \<Longrightarrow> latches (\<lambda>s. s) (write_unprinted decode (recorded callback) tokens this)"
proof (induction tokens arbitrary: this)
  case (Cons token tokens)
  show ?case unfolding write_unprinted.simps
    by (rule latches_bind, rule latches_write_token [OF Cons.prems])
      (auto simp: Cons.IH observe_def latched_def)
qed simp

lemma latches_drain_terminal:
  assumes "latched this SS_RUNNING"
  shows "latches (\<lambda>s. s) (drain_terminal decode (recorded callback) reason this)"
proof -
  have "latches (\<lambda>s. s) (act_bind (flush_chunk (recorded callback) s p reason)
      (\<lambda>s there. Some (if s \<noteq> SS_RUNNING then there else clear_cache there, Inr s)) that)"
    if "latched that SS_RUNNING" for that :: "('a, 'b, 'c, 'd \<times> heard) OVMSTextStreamer" and s p
    using that by (intro latches_bind [where st = "\<lambda>s. s"] latches_flush) auto
  then show ?thesis unfolding drain_terminal_def Let_def
    using assms by (intro latches_bind [where st = "\<lambda>s. s"] latches_write_unprinted) (auto split: if_split_asm)
qed

lemma aborted_step:
  "ts_completion this = Aborted \<Longrightarrow> ts_abort_status this \<noteq> SS_RUNNING \<Longrightarrow> streamer_step decode callback c this =
     Some (this, Inr (if c = End \<or> c = WriteAll [] then SS_RUNNING else ts_abort_status this))"
proof (cases c)
  case (WriteAll tokens)
  assume "ts_completion this = Aborted" "ts_abort_status this \<noteq> SS_RUNNING"
  then show ?thesis by (cases tokens) (auto simp: streamer_step_def WriteAll write_one_def act_bind_def)
qed (auto simp: streamer_step_def write_one_def stream_end_def finish_def act_bind_def)

definition left_alone :: "('t, 'r, 'c, 'k \<times> heard) OVMSTextStreamer \<Rightarrow> bool" where
  "left_alone this \<longleftrightarrow> willing (snd (ts_client this)) \<or>
     ts_completion this = Aborted \<and> declined_last (ts_abort_status this) (snd (ts_client this))"

lemma latches_left_alone: "latches st (Some (that, r)) \<Longrightarrow> left_alone that"
  by (cases r) (auto simp: latched_def left_alone_def split: if_splits)

lemma left_alone_latch_failure: "willing (snd (ts_client this)) \<Longrightarrow> left_alone (latch_failure this)"
  by (simp add: left_alone_def latch_failure_def clear_cache_def)

lemma latching_left_alone:
  "latches st (m this) \<Longrightarrow> latching m this = Some (that, r) \<Longrightarrow> left_alone that"
  using left_alone_latch_failure
  by (auto simp: latching_def split: option.splits sum.splits prod.splits dest: latches_left_alone)

lemma step_left_alone:
  assumes "left_alone this" "streamer_step decode (recorded callback) c this = Some (that, r)"
  shows "left_alone that"
proof (cases "ts_completion this = Open")
  case True
  then have l: "latched this SS_RUNNING" using assms(1) by (simp add: left_alone_def latched_def)
  have d: "latches (\<lambda>s. s) (drain_terminal decode (recorded callback) reason this)" for reason
    by (rule latches_drain_terminal [OF l])
  show ?thesis
  proof (cases c)
    case (Write token)
    then show ?thesis using latches_write_one [OF l, of decode callback token] assms(2)
      by (auto simp: streamer_step_def intro: latches_left_alone)
  next
    case (WriteAll tokens)
    then show ?thesis using latches_write_all [OF l, of decode callback tokens] assms(2)
      by (auto simp: streamer_step_def intro: latches_left_alone)
  next
    case End
    then obtain r' where "latching (drain_terminal decode (recorded callback) FR_STOP) this = Some (that, r')"
      using assms(2) True by (auto simp: streamer_step_def stream_end_def act_bind_def split: option.splits prod.splits sum.splits)
    then show ?thesis using latching_left_alone [where m = "drain_terminal decode (recorded callback) FR_STOP", OF d [of FR_STOP]] by blast
  next
    case (Finish reason)
    let ?m = "act_bind (drain_terminal decode (recorded callback) reason)
        (\<lambda>s that. if s \<noteq> SS_RUNNING then Some (that, Inr s)
          else Some (that\<lparr>ts_completion := Finished, ts_finished_reason := Some reason\<rparr>, Inr SS_RUNNING))"
    show ?thesis
    proof (cases "is_explicit_finish_reason reason")
      case False
      then show ?thesis using assms Finish True by (simp add: streamer_step_def finish_def)
    next
      case e: True
      then have f: "latching ?m this = Some (that, r)" using assms(2) Finish True by (simp add: streamer_step_def finish_def)
      obtain mid x where "drain_terminal decode (recorded callback) reason this = Some (mid, x)"
        using f by (cases "drain_terminal decode (recorded callback) reason this") (auto simp: latching_def act_bind_def)
      then show ?thesis using d [of reason] f left_alone_latch_failure
        by (cases x) (auto simp: latching_def act_bind_def left_alone_def latched_def split: if_splits)
    qed
  qed
next
  case False
  then show ?thesis using closed_step [OF False, of decode "recorded callback" c] assms by auto
qed

lemma run_left_alone:
  "left_alone this \<Longrightarrow> streamer_run decode (recorded callback) cs this = Some (that, rs) \<Longrightarrow> left_alone that"
proof (induction cs arbitrary: this rs)
  case (Cons c cs)
  then obtain mid r rs' where "streamer_step decode (recorded callback) c this = Some (mid, r)"
    "streamer_run decode (recorded callback) cs mid = Some (that, rs')" by (auto split: option.splits)
  then show ?case using Cons.IH step_left_alone [OF Cons.prems(1)] by blast
qed simp

lemma declined_last_unique:
  "declined_last s h \<Longrightarrow> h = us @ x # vs \<Longrightarrow> declines s' x \<Longrightarrow> vs = [] \<and> s' = s"
proof -
  assume "declined_last s h" "h = us @ x # vs" "declines s' x"
  then obtain ws y where h: "us @ x # vs = ws @ [y]" "willing ws" "declines s y" by (auto simp: declined_last_def)
  then have "x \<notin> set ws" using \<open>declines s' x\<close> unfolding willing_def by blast
  then have "vs = []" "x = y" using h(1) by (cases vs rule: rev_cases; force)+
  then show ?thesis using h(3) \<open>declines s' x\<close> by (cases x) auto
qed

text \<open>
  C30: Once the client declines, it is left alone: whatever router, tokens and calls of any kind a streamer
  gets, and whatever the client answers or raises, an answer of the client that is not running is
  its last; the streamer is aborted with the status the client has answered, and no later call
  changes anything, calls the client or touches the router: writing and finishing report that
  status.
\<close>

theorem client_is_left_alone:
  assumes "streamer_run decode (recorded callback) calls (new_OVMSTextStreamer router tools skip (k, [])) = Some (that, rs)"
    and "snd (ts_client that) = us @ (d, isLast, Inr status) # vs" "status \<noteq> SS_RUNNING"
  shows "vs = [] \<and> ts_completion that = Aborted \<and> ts_abort_status that = status \<and>
    (\<forall>c. streamer_step decode (recorded callback) c that =
       Some (that, Inr (if c = End \<or> c = WriteAll [] then SS_RUNNING else status)))"
proof -
  have "left_alone (new_OVMSTextStreamer router tools skip (k, []) :: ('a, 'b, 'c, 'd \<times> heard) OVMSTextStreamer)"
    by (simp add: left_alone_def new_OVMSTextStreamer_def apply_decode_params_def willing_def Let_def)
  then have l: "left_alone that" using run_left_alone assms(1) by blast
  have x: "declines status (d, isLast, Inr status)" using assms(3) by simp
  then have "\<not> willing (snd (ts_client that))" unfolding assms(2) by (force simp: willing_def)
  then have a: "ts_completion that = Aborted" "declined_last (ts_abort_status that) (snd (ts_client that))"
    using l by (auto simp: left_alone_def)
  moreover have "ts_abort_status that = status" "vs = []" using declined_last_unique [OF a(2) assms(2) x] by simp_all
  ultimately show ?thesis using aborted_step [OF a(1), of decode "recorded callback"] assms(3) by simp
qed

definition declining :: "nat callback" where
  "declining n d isLast = (n + 1, Inr (if n = 0 then SS_RUNNING else SS_STOP))"

definition plain_streamer :: "'k \<Rightarrow> (unit, unit, unit, 'k) OVMSTextStreamer" where
  "plain_streamer client = new_OVMSTextStreamer None False None client"

lemma client_is_left_alone_witness:
  "\<exists>that rs us. streamer_run (\<lambda>ts _. map (\<lambda>_. CHR ''a'') ts) (recorded declining) [WriteAll [1, 2, 3, 4, 5]] (plain_streamer (0, [])) =
      Some (that, rs) \<and> snd (ts_client that) = us @ [(ContentDelta ''a'', False, Inr SS_STOP)] \<and>
    streamer_step (\<lambda>ts _. map (\<lambda>_. CHR ''a'') ts) (recorded declining) (Finish FR_STOP) that = Some (that, Inr SS_STOP)"
proof -
  let ?decode = "\<lambda>ts (_::bool). map (\<lambda>_. CHR ''a'') (ts :: int list)"
  obtain that rs us where w: "streamer_run ?decode (recorded declining) [WriteAll [1, 2, 3, 4, 5]]
        (new_OVMSTextStreamer None False None (0, []) :: (unit, unit, unit, nat \<times> heard) OVMSTextStreamer) = Some (that, rs)"
    "snd (ts_client that) = us @ [(ContentDelta ''a'', False, Inr SS_STOP)]"
    by (simp add: streamer_step_def new_OVMSTextStreamer_def apply_decode_params_def Let_def write_one_def write_token_def
        handle_decoding_params_change_def start_tag_def act_bind_def emit_token_def push_token_def is_incomplete_def newline_def
        DELAY_N_TOKENS_def flush_chunk_def parse_step_def drain_loop.simps call_back_def declining_def observe_def clear_cache_def)
  show ?thesis unfolding plain_streamer_def using w client_is_left_alone [OF w(1) w(2)] by auto
qed

section \<open>Token slices\<close>

lemma upper_bound_from_0 [simp]: "upper_bound_from xs v first 0 = first"
  by (subst upper_bound_from.simps) simp

lemma upper_bound_from_range: "first \<le> upper_bound_from xs v first len \<and> upper_bound_from xs v first len \<le> first + len"
proof (induction xs v first len rule: upper_bound_from.induct)
  case (1 xs v first len)
  show ?case
  proof (cases "len = 0")
    case False
    then show ?thesis using 1 [OF False refl refl] by (subst (1 2) upper_bound_from.simps) (auto simp: Let_def)
  qed simp
qed

lemma upper_bound_from_mono:
  "p \<le> q \<Longrightarrow> upper_bound_from xs p first len \<le> upper_bound_from xs q first len"
proof (induction len arbitrary: first rule: less_induct)
  case (less len)
  show ?case
  proof (cases "len = 0")
    case False
    let ?half = "len div 2"
    have "upper_bound_from xs p first ?half \<le> first + ?half" "first + ?half + 1 \<le> upper_bound_from xs q (first + ?half + 1) (len - ?half - 1)"
      using upper_bound_from_range by blast+
    then show ?thesis
      using False less.prems less.IH [of ?half first] less.IH [of "len - ?half - 1" "first + ?half + 1"]
      by (subst (1 2) upper_bound_from.simps) (auto simp: Let_def)
  qed simp
qed

lemma upper_bound_from_sorted:
  assumes "sorted xs" "first + len \<le> length xs" "\<forall>i<first. xs ! i \<le> v" "\<forall>i<length xs. first + len \<le> i \<longrightarrow> v < xs ! i"
  shows "(\<forall>i<upper_bound_from xs v first len. xs ! i \<le> v) \<and> (\<forall>i<length xs. upper_bound_from xs v first len \<le> i \<longrightarrow> v < xs ! i)"
  using assms
proof (induction xs v first len rule: upper_bound_from.induct)
  case (1 xs v first len)
  show ?case
  proof (cases "len = 0")
    case False
    define half where "half = len div 2"
    have h: "half < len" using False by (simp add: half_def)
    show ?thesis
    proof (cases "v < xs ! (first + half)")
      case True
      have "\<forall>i<length xs. first + half \<le> i \<longrightarrow> v < xs ! i" using True "1.prems"(1) by (auto dest: sorted_nth_mono order.strict_trans2)
      moreover have "upper_bound_from xs v first len = upper_bound_from xs v first half"
        using True False by (subst upper_bound_from.simps) (simp add: half_def Let_def)
      ultimately show ?thesis using "1.IH"(1) [OF False half_def refl True "1.prems"(1) _ "1.prems"(3)] "1.prems"(2) h by simp
    next
      case F: False
      have "\<forall>i<first + half + 1. xs ! i \<le> v"
      proof (intro allI impI)
        fix i assume "i < first + half + 1"
        then have "xs ! i \<le> xs ! (first + half)" using "1.prems"(1,2) h by (intro sorted_nth_mono) auto
        then show "xs ! i \<le> v" using F by simp
      qed
      moreover have "upper_bound_from xs v first len = upper_bound_from xs v (first + half + 1) (len - half - 1)"
        using F False by (subst upper_bound_from.simps) (simp add: half_def Let_def)
      ultimately show ?thesis using "1.IH"(2) [OF False half_def refl F "1.prems"(1)] "1.prems"(2,4) h by simp
    qed
  qed (use "1.prems" in simp)
qed

text \<open>
  The slice of tokens that goes with a chunk is always a range of the cache, also when entries of
  -1 for incomplete texts leave the decoded lengths unsorted: the two binary searches give ordered
  positions within the lengths. Where the lengths are sorted, the slice ends after the last token
  decoded within the chunk.
\<close>

theorem token_slice_in_range:
  assumes "p \<le> q"
  shows "upper_bound xs p \<le> upper_bound xs q \<and> upper_bound xs q \<le> length xs \<and>
    (sorted xs \<longrightarrow> (\<forall>i<length xs. xs ! i \<le> q \<longleftrightarrow> i < upper_bound xs q))"
proof -
  have "xs ! i \<le> q \<longleftrightarrow> i < upper_bound xs q" if "sorted xs" "i < length xs" for i
    using upper_bound_from_sorted [of xs 0 "length xs" q] that unfolding upper_bound_def by (simp add: not_le [symmetric]) (metis not_le)
  then show ?thesis
    using upper_bound_from_mono [OF assms] upper_bound_from_range [of 0 xs q "length xs"] by (simp add: upper_bound_def)
qed

lemma token_slice_in_range_witness:
  "upper_bound [5, -1, 8, 9] 5 \<le> upper_bound [5, -1, 8, 9] 8 \<and> upper_bound [5, -1, 8, 9] 8 \<le> 4"
  using token_slice_in_range [of 5 8 "[5, -1, 8, 9]"] by simp

section \<open>Streaming without a router\<close>

text \<open>
  What the streamer relies on: no tokens are no text, after a newline the decoding starts anew, and,
  the reason of the delay buffer, later tokens can change the text of earlier ones only until as many
  tokens have come as the buffer holds back.
\<close>

definition settling_decoder :: "(int list \<Rightarrow> string) \<Rightarrow> bool" where
  "settling_decoder dec \<longleftrightarrow> dec [] = [] \<and>
     (\<forall>ts us. dec ts \<noteq> [] \<and> last (dec ts) = newline \<longrightarrow> dec (ts @ us) = dec ts @ dec us) \<and>
     (\<forall>ts us vs. \<not> is_incomplete (dec ts) \<and> length us = DELAY_N_TOKENS - 1 \<longrightarrow>
        length (dec ts) \<le> length (dec (ts @ us)) \<and>
        take (length (dec ts)) (dec (ts @ us @ vs)) = take (length (dec ts)) (dec (ts @ us)))"

text \<open>The tokens \<open>rest\<close> leave the text of the tokens before them as it is.\<close>

definition leaves_text :: "(int list \<Rightarrow> string) \<Rightarrow> int list \<Rightarrow> int list \<Rightarrow> bool" where
  "leaves_text dec ts rest \<longleftrightarrow> (\<not> is_incomplete (dec ts) \<longrightarrow> (\<exists>z. dec (ts @ rest) = dec ts @ z))"

fun content_of :: "(Delta \<times> bool) list \<Rightarrow> string" where
  "content_of [] = []"
| "content_of ((ContentDelta s, _) # ds) = s @ content_of ds"
| "content_of (_ # ds) = content_of ds"

lemma content_of_append [simp]: "content_of (xs @ ys) = content_of xs @ content_of ys"
  by (induction xs rule: content_of.induct) auto

text \<open>
  What the client has together with what is still to come is the whole text, for the tokens \<open>rest\<close>
  that follow the cache.
\<close>

definition on_track :: "(int list \<Rightarrow> string) \<Rightarrow> int list \<Rightarrow> int list \<Rightarrow> ('t, 'r, 'c, (Delta \<times> bool) list) OVMSTextStreamer \<Rightarrow> bool" where
  "on_track dec all_tokens rest this \<longleftrightarrow>
     ts_output_parser this = None \<and> ts_completion this = Open \<and>
     (\<forall>x\<in>set (ts_client this). \<not> snd x) \<and>
     ts_printed_len this \<le> length (dec (ts_tokens_cache this @ rest)) \<and>
     content_of (ts_client this) @ drop (ts_printed_len this) (dec (ts_tokens_cache this @ rest)) = dec all_tokens \<and>
     (\<exists>pre. all_tokens = pre @ ts_tokens_cache this @ rest \<and> (\<forall>us. dec (pre @ us) = dec pre @ dec us) \<and>
        (dec pre = [] \<or> last (dec pre) = newline))"

text \<open>Every beginning of the cache with complete text is shown.\<close>

definition complete_shown :: "(int list \<Rightarrow> string) \<Rightarrow> ('t, 'r, 'c, 'k) OVMSTextStreamer \<Rightarrow> bool" where
  "complete_shown dec this \<longleftrightarrow>
     (\<forall>j\<le>length (ts_tokens_cache this). \<not> is_incomplete (dec (take j (ts_tokens_cache this))) \<longrightarrow>
        length (dec (take j (ts_tokens_cache this))) \<le> ts_printed_len this)"

lemma flush_plain:
  assumes "ts_output_parser this = None" "ts_completion this = Open" "ts_printed_len this \<le> n" "n \<le> length s"
  shows "flush_chunk collect s n FR_NONE this =
    Some (this\<lparr>ts_printed_len := n, ts_client := ts_client this @
      (if n = ts_printed_len this then [] else [(ContentDelta (drop (ts_printed_len this) (take n s)), False)])\<rparr>, Inr SS_RUNNING)"
  using assms by (auto simp: flush_chunk_def parse_step_def drain_loop.simps act_bind_def call_back_def collect_def observe_def
      Let_def drop_take)

lemma emit_plain:
  assumes t: "on_track (\<lambda>ts. decode ts (ts_decode_special_tokens this)) all_tokens (token # rest) this"
    and n: "s = decode (ts_tokens_cache this @ [token]) (ts_decode_special_tokens this)"
      "ts_printed_len this \<le> n" "n \<le> length s" "take n (decode (ts_tokens_cache this @ [token] @ rest) (ts_decode_special_tokens this)) = take n s"
  shows "on_track (\<lambda>ts. decode ts (ts_decode_special_tokens this)) all_tokens rest
    (this\<lparr>ts_tokens_cache := ts_tokens_cache this @ [token], ts_decoded_lengths := ls, ts_printed_len := n,
      ts_client := ts_client this @ (if n = ts_printed_len this then [] else [(ContentDelta (drop (ts_printed_len this) (take n s)), False)])\<rparr>)"
proof -
  let ?all = "decode (ts_tokens_cache this @ [token] @ rest) (ts_decode_special_tokens this)"
  have "n \<le> length ?all" using n(3,4) by (metis length_take min.absorb2 min.cobounded1)
  moreover have "drop (ts_printed_len this) (take n s) @ drop n ?all = drop (ts_printed_len this) ?all"
    using n(2,4) \<open>n \<le> length ?all\<close> by (metis append_take_drop_id drop_append length_take min.absorb2 diff_is_0_eq drop_0)
  ultimately show ?thesis using t by (auto simp: on_track_def)
qed

definition lengths_of :: "(int list \<Rightarrow> string) \<Rightarrow> int list \<Rightarrow> int list" where
  "lengths_of dec ts = map (\<lambda>i. let s = dec (take (Suc i) ts) in if is_incomplete s then -1 else int (length s)) [0..<length ts]"

lemma lengths_of_snoc:
  "lengths_of dec (ts @ [t]) = lengths_of dec ts @ [if is_incomplete (dec (ts @ [t])) then -1 else int (length (dec (ts @ [t])))]"
  by (simp add: lengths_of_def Let_def)

lemma length_lengths_of [simp]: "length (lengths_of dec ts) = length ts"
  by (simp add: lengths_of_def)

lemma lengths_of_nth:
  "i < length ts \<Longrightarrow> lengths_of dec ts ! i =
     (if is_incomplete (dec (take (Suc i) ts)) then -1 else int (length (dec (take (Suc i) ts))))"
  by (simp add: lengths_of_def Let_def)

lemma lengths_of_take: "lengths_of dec (take n ts) = take n (lengths_of dec ts)"
  by (auto simp: lengths_of_def take_map take_upt min_def intro!: map_cong)

definition plain_open :: "decoder \<Rightarrow> ('t, 'r, 'c, (Delta \<times> bool) list) OVMSTextStreamer \<Rightarrow> bool" where
  "plain_open decode this \<longleftrightarrow> ts_output_parser this = None \<and> ts_completion this = Open \<and>
     ts_decoded_lengths this = lengths_of (\<lambda>ts. decode ts (ts_decode_special_tokens this)) (ts_tokens_cache this)"

text \<open>One token: the text stays on track, and written at once it is shown unless incomplete.\<close>

lemma emit_plain_step:
  fixes this :: "('t, 'r, 'c, (Delta \<times> bool) list) OVMSTextStreamer"
  assumes d: "settling_decoder (\<lambda>ts. decode ts b)" and o: "plain_open decode this" and b: "b = ts_decode_special_tokens this"
  shows "\<exists>that. emit_token decode collect token imm this = Some (that, Inr SS_RUNNING) \<and> plain_open decode that \<and>
    ts_decode_special_tokens that = b \<and>
    (\<forall>all rest. on_track (\<lambda>ts. decode ts b) all (token # rest) this \<and>
       (imm \<longrightarrow> leaves_text (\<lambda>ts. decode ts b) (ts_tokens_cache this @ [token]) rest) \<longrightarrow> on_track (\<lambda>ts. decode ts b) all rest that) \<and>
    (imm \<and> complete_shown (\<lambda>ts. decode ts b) this \<longrightarrow> complete_shown (\<lambda>ts. decode ts b) that)"
proof -
  let ?dec = "\<lambda>ts. decode ts b" and ?cache = "ts_tokens_cache this @ [token]"
  define s where "s = ?dec ?cache"
  have s': "decode ?cache (ts_decode_special_tokens this) = s" by (simp add: s_def b)
  let ?that = "push_token token s this"
  have p: "ts_output_parser this = None" "ts_completion this = Open" and
    l: "ts_decoded_lengths ?that = lengths_of ?dec ?cache" "ts_tokens_cache ?that = ?cache" "ts_printed_len ?that = ts_printed_len this"
    using o b by (simp_all add: plain_open_def push_token_def lengths_of_snoc s_def)
  define out where "out n = this\<lparr>ts_tokens_cache := ?cache, ts_decoded_lengths := ts_decoded_lengths ?that, ts_printed_len := n,
      ts_client := ts_client this @ (if n = ts_printed_len this then [] else [(ContentDelta (drop (ts_printed_len this) (take n s)), False)])\<rparr>" for n
  have fl: "flush_chunk collect s n FR_NONE ?that = Some (out n, Inr SS_RUNNING)" if "ts_printed_len this \<le> n" "n \<le> length s" for n
    using flush_plain [of ?that n s] that p by (simp add: push_token_def out_def)
  have op: "plain_open decode (out n)" for n
    using p l b by (simp add: plain_open_def out_def)
  have sh: "on_track ?dec all rest (out n)"
    if "ts_printed_len this \<le> n" "n \<le> length s" "take n (?dec (?cache @ rest)) = take n s" "on_track ?dec all (token # rest) this" for n all rest
    using emit_plain [of decode this all token rest s n "ts_decoded_lengths ?that"] that b by (simp add: s_def out_def)
  have whole: "take (length s) (?dec (?cache @ rest)) = take (length s) s" if "\<not> is_incomplete s" "leaves_text ?dec ?cache rest" for rest
    using that by (auto simp: leaves_text_def s_def)
  have idle: "on_track ?dec all rest ?that" if "on_track ?dec all (token # rest) this" for all rest
    using that by (simp add: on_track_def push_token_def)
  have op0: "plain_open decode ?that" using p l b by (simp add: plain_open_def) (simp add: push_token_def)
  show ?thesis
  proof (cases "s \<noteq> [] \<and> last s = newline \<and> ts_printed_len this < length s")
    case True
    have ni: "\<not> is_incomplete s"
    proof
      assume i: "is_incomplete s"
      then have "drop (length s - 3) s = [CHR 0xEF, CHR 0xBF, CHR 0xBD]" by (simp add: is_incomplete_def)
      then have "last (drop (length s - 3) s) = CHR 0xBD" by simp
      moreover have "last (drop (length s - 3) s) = last s" using i by (intro last_drop) (auto simp: is_incomplete_def)
      ultimately show False using True by (simp add: newline_def)
    qed
    have "on_track ?dec all rest (clear_cache (out (length s)))" if t: "on_track ?dec all (token # rest) this" for all rest
    proof -
      have n: "?dec (?cache @ us) = s @ ?dec us" for us using d True unfolding settling_decoder_def s_def by blast
      have a: "on_track ?dec all rest (out (length s))" using sh [OF _ order_refl _ t] True n [of rest] by simp
      have k: "ts_output_parser (out (length s)) = None" "ts_completion (out (length s)) = Open"
        "\<forall>x\<in>set (ts_client (out (length s))). \<not> snd x"
        "content_of (ts_client (out (length s))) @ drop (length s) (?dec (?cache @ rest)) = ?dec all"
        "\<exists>pre. all = pre @ ?cache @ rest \<and> (\<forall>us. ?dec (pre @ us) = ?dec pre @ ?dec us) \<and> (?dec pre = [] \<or> last (?dec pre) = newline)"
        using a unfolding on_track_def by (simp_all add: out_def)
      obtain pre where pre: "all = pre @ ?cache @ rest" "\<And>us. ?dec (pre @ us) = ?dec pre @ ?dec us" using k(5) by blast
      have "s @ ?dec [] = s" using d by (simp add: settling_decoder_def)
      then have "?dec ((pre @ ?cache) @ us) = ?dec (pre @ ?cache) @ ?dec us" for us
        using pre(2) [of "?cache @ us"] pre(2) [of ?cache] n [of us] n [of "[]"] by (metis append.assoc append_Nil2)
      moreover have "last (?dec (pre @ ?cache)) = newline" using pre(2) [of ?cache] True by (simp add: s_def)
      ultimately have "\<exists>pre. all = pre @ [] @ rest \<and> (\<forall>us. ?dec (pre @ us) = ?dec pre @ ?dec us) \<and> (?dec pre = [] \<or> last (?dec pre) = newline)"
        using pre(1) by (intro exI [of _ "pre @ ?cache"]) (metis append.assoc append_Nil)
      then show ?thesis using k(1-4) n [of rest] unfolding on_track_def clear_cache_def by simp
    qed
    moreover have "emit_token decode collect token imm this = Some (clear_cache (out (length s)), Inr SS_RUNNING)"
      using True fl [of "length s"] l(3) unfolding emit_token_def Let_def s' by (simp add: act_bind_def)
    moreover have "plain_open decode (clear_cache (out (length s)))"
      using op [of "length s"] by (simp add: plain_open_def clear_cache_def lengths_of_def)
    moreover have "ts_decode_special_tokens (clear_cache (out (length s))) = b" "complete_shown ?dec (clear_cache (out (length s)))"
      using b d by (simp_all add: clear_cache_def out_def settling_decoder_def complete_shown_def)
    ultimately show ?thesis by (intro exI [of _ "clear_cache (out (length s))"]) simp
  next
    case keep: False
    have e: "emit_token decode collect token imm this =
      (if is_incomplete s then Some (?that, Inr SS_RUNNING)
       else if imm then (if ts_printed_len this < length s then flush_chunk collect s (length s) FR_NONE ?that else Some (?that, Inr SS_RUNNING))
       else let n = length (ts_decoded_lengths ?that)
            in if n < DELAY_N_TOKENS then Some (?that, Inr SS_RUNNING)
               else let m = ts_decoded_lengths ?that ! (n - DELAY_N_TOKENS)
                    in if m \<le> 0 \<or> nat m \<le> ts_printed_len this then Some (?that, Inr SS_RUNNING)
                       else flush_chunk collect s (nat m) FR_NONE ?that)"
      using keep l(3) unfolding emit_token_def Let_def s' by auto
    have stay: ?thesis if "emit_token decode collect token imm this = Some (?that, Inr SS_RUNNING)"
      "imm \<longrightarrow> is_incomplete s \<or> length s \<le> ts_printed_len this"
    proof -
      have "complete_shown ?dec ?that" if i: imm and c: "complete_shown ?dec this"
        unfolding complete_shown_def l(2,3)
      proof (intro allI impI)
        fix j assume j: "j \<le> length ?cache" "\<not> is_incomplete (?dec (take j ?cache))"
        show "length (?dec (take j ?cache)) \<le> ts_printed_len this"
        proof (cases "j = length ?cache")
          case True
          then show ?thesis using j(2) \<open>imm \<longrightarrow> is_incomplete s \<or> length s \<le> ts_printed_len this\<close> i by (simp add: s_def)
        next
          case False
          then show ?thesis using j c by (simp add: complete_shown_def)
        qed
      qed
      then show ?thesis using that op0 idle b by (intro exI [of _ ?that]) (simp add: push_token_def)
    qed
    have go: ?thesis if "emit_token decode collect token imm this = Some (out n, Inr SS_RUNNING)" "ts_printed_len this \<le> n" "n \<le> length s"
      "\<forall>us. (imm \<longrightarrow> leaves_text ?dec ?cache us) \<longrightarrow> take n (?dec (?cache @ us)) = take n s" "imm \<longrightarrow> n = length s" for n
    proof -
      have "complete_shown ?dec (out n)" if i: imm and c: "complete_shown ?dec this"
        unfolding complete_shown_def
      proof (intro allI impI)
        fix j assume j: "j \<le> length (ts_tokens_cache (out n))" "\<not> is_incomplete (?dec (take j (ts_tokens_cache (out n))))"
        show "length (?dec (take j (ts_tokens_cache (out n)))) \<le> ts_printed_len (out n)"
        proof (cases "j = length ?cache")
          case False
          then have "j \<le> length (ts_tokens_cache this)" "take j ?cache = take j (ts_tokens_cache this)" using j(1) by (simp_all add: out_def)
          then show ?thesis using j(2) c \<open>ts_printed_len this \<le> n\<close> unfolding complete_shown_def
            by (simp add: out_def) (meson le_trans)
        qed (use i \<open>imm \<longrightarrow> n = length s\<close> in \<open>simp add: out_def s_def\<close>)
      qed
      then show ?thesis using that op sh [OF that(2,3)] b by (intro exI [of _ "out n"]) (auto simp: out_def)
    qed
    show ?thesis
    proof (cases "is_incomplete s")
      case ni: False
      show ?thesis
      proof (cases imm)
        case True
        then show ?thesis using e ni fl [of "length s"] stay go [of "length s"] whole [OF ni] l(3)
          by (cases "ts_printed_len this < length s") auto
      next
        case False
        define m where "m = ts_decoded_lengths ?that ! (length (ts_decoded_lengths ?that) - DELAY_N_TOKENS)"
        show ?thesis
        proof (cases "length (ts_decoded_lengths ?that) < DELAY_N_TOKENS \<or> m \<le> 0 \<or> nat m \<le> ts_printed_len this")
          case True
          then show ?thesis using e ni False stay by (auto simp: m_def [symmetric] Let_def)
        next
          case flush: False
          define i where "i = length ?cache - DELAY_N_TOKENS"
          have i: "i < length ?cache" by (simp add: i_def DELAY_N_TOKENS_def)
          have m: "m = lengths_of ?dec ?cache ! i" unfolding m_def l(1) i_def by simp
          let ?s = "?dec (take (Suc i) ?cache)"
          have c: "\<not> is_incomplete ?s" "m = int (length ?s)" using m flush lengths_of_nth [OF i, of ?dec] by (auto split: if_splits)
          have long: "DELAY_N_TOKENS \<le> length ?cache" using flush l(1) by simp
          define us where "us = drop (Suc i) ?cache"
          have us: "take (Suc i) ?cache @ us = ?cache" "length us = DELAY_N_TOKENS - 1"
            using long by (simp_all add: us_def i_def DELAY_N_TOKENS_def del: append_take_drop_id take_append drop_append)
              (simp add: append_take_drop_id del: take_append drop_append)
          then have "length ?s \<le> length s \<and> take (length ?s) (?dec (?cache @ vs)) = take (length ?s) s" for vs
            using d c(1) unfolding settling_decoder_def s_def by (metis append_assoc)
          then have "nat m \<le> length s" and "take (nat m) (?dec (?cache @ vs)) = take (nat m) s" for vs
            using c(2) by simp_all
          then show ?thesis using e ni False flush fl [of "nat m"] go [of "nat m"] by (simp add: m_def [symmetric] Let_def)
        qed
      qed
    qed (use e stay in simp)
  qed
qed

lemma write_token_plain: "ts_output_parser this = None \<Longrightarrow> write_token decode callback token imm this = emit_token decode callback token imm this"
  by (simp add: write_token_def handle_decoding_params_change_def start_tag_def act_bind_def)

lemma write_all_plain:
  fixes this :: "('t, 'r, 'c, (Delta \<times> bool) list) OVMSTextStreamer"
  assumes "settling_decoder (\<lambda>ts. decode ts b)"
  shows "plain_open decode this \<Longrightarrow> b = ts_decode_special_tokens this \<Longrightarrow> \<forall>rest. on_track (\<lambda>ts. decode ts b) (done_tokens @ tokens @ rest) (tokens @ rest) this \<Longrightarrow>
    \<exists>that. write_all decode collect tokens this = Some (that, Inr SS_RUNNING) \<and> plain_open decode that \<and>
      ts_decode_special_tokens that = b \<and> (\<forall>rest. on_track (\<lambda>ts. decode ts b) (done_tokens @ tokens @ rest) rest that)"
proof (induction tokens arbitrary: this done_tokens)
  case (Cons token tokens)
  obtain that where t: "emit_token decode collect token False this = Some (that, Inr SS_RUNNING)" "plain_open decode that"
    "ts_decode_special_tokens that = b"
    "\<forall>all rest. on_track (\<lambda>ts. decode ts b) all (token # rest) this \<longrightarrow> on_track (\<lambda>ts. decode ts b) all rest that"
    using emit_plain_step [OF assms Cons.prems(1,2), of token False] by blast
  have w: "write_one decode collect token this = Some (that, Inr SS_RUNNING)"
    using t(1) Cons.prems(1) by (simp add: write_one_def write_token_plain plain_open_def)
  have "\<forall>rest. on_track (\<lambda>ts. decode ts b) ((done_tokens @ [token]) @ tokens @ rest) (tokens @ rest) that"
    using t(4) Cons.prems(3) by simp
  from Cons.IH [OF t(2) t(3) [symmetric] this] show ?case using w by (simp add: act_bind_def)
qed auto

lemma incomplete_after_newline:
  assumes "is_incomplete (a @ b)" "a = [] \<or> last a = newline"
  shows "is_incomplete b"
proof (cases "3 \<le> length b \<or> a = []")
  case True
  then have "drop (length (a @ b) - 3) (a @ b) = drop (length b - 3) b" by auto
  then show ?thesis using assms(1) True by (auto simp: is_incomplete_def)
next
  case False
  have "drop (length (a @ b) - 3) (a @ b) = drop (length (a @ b) - 3) a @ b" using False by simp
  moreover have "length (a @ b) - 3 < length a" using False by (cases a) auto
  then have "last a \<in> set (drop (length (a @ b) - 3) a)" by (metis drop_eq_Nil last_drop last_in_set not_less)
  ultimately have "newline \<in> {CHR 0xEF, CHR 0xBF, CHR 0xBD}"
    using assms False unfolding is_incomplete_def by (metis Un_iff list.set(1,2) set_append)
  then show ?thesis by (simp add: newline_def)
qed

text \<open>In a generation without fused text the tokens of every beginning leave its text as it is.\<close>

definition unfused :: "(int list \<Rightarrow> string) \<Rightarrow> int list \<Rightarrow> bool" where
  "unfused dec tokens \<longleftrightarrow> (\<forall>ts us vs. tokens = ts @ us @ vs \<longrightarrow> leaves_text dec ts us)"

lemma unfused_in_line:
  assumes "unfused dec (pre @ ts @ us)" "\<forall>us. dec (pre @ us) = dec pre @ dec us" "dec pre = [] \<or> last (dec pre) = newline"
  shows "leaves_text dec ts us"
  unfolding leaves_text_def
proof
  assume "\<not> is_incomplete (dec ts)"
  then have "\<not> is_incomplete (dec (pre @ ts))" using incomplete_after_newline assms(2,3) by metis
  moreover have "leaves_text dec (pre @ ts) us" using assms(1) unfolding unfused_def by (metis append_assoc append_Nil2)
  ultimately obtain z where "dec ((pre @ ts) @ us) = dec (pre @ ts) @ z" unfolding leaves_text_def by blast
  then have "dec pre @ dec (ts @ us) = dec pre @ dec ts @ z" using assms(2) by simp
  then show "\<exists>z. dec (ts @ us) = dec ts @ z" by blast
qed

lemma write_unprinted_plain:
  fixes this :: "('t, 'r, 'c, (Delta \<times> bool) list) OVMSTextStreamer"
  assumes "settling_decoder (\<lambda>ts. decode ts b)" and u: "unfused (\<lambda>ts. decode ts b) all_tokens"
  shows "plain_open decode this \<Longrightarrow> b = ts_decode_special_tokens this \<Longrightarrow> on_track (\<lambda>ts. decode ts b) all_tokens tokens this \<Longrightarrow>
    complete_shown (\<lambda>ts. decode ts b) this \<Longrightarrow>
    \<exists>that. write_unprinted decode collect tokens this = Some (that, Inr SS_RUNNING) \<and> ts_decode_special_tokens that = b \<and>
      on_track (\<lambda>ts. decode ts b) all_tokens [] that \<and> complete_shown (\<lambda>ts. decode ts b) that"
proof (induction tokens arbitrary: this)
  case (Cons token tokens)
  have leaves: "leaves_text (\<lambda>ts. decode ts b) (ts_tokens_cache this @ [token]) tokens"
  proof -
    obtain pre where pre: "all_tokens = pre @ ts_tokens_cache this @ token # tokens" "\<forall>us. decode (pre @ us) b = decode pre b @ decode us b"
      "decode pre b = [] \<or> last (decode pre b) = newline" using Cons.prems(3) unfolding on_track_def by blast
    show ?thesis by (rule unfused_in_line [where pre = pre]) (use pre u in simp_all)
  qed
  obtain that where t: "emit_token decode collect token True this = Some (that, Inr SS_RUNNING)" "plain_open decode that"
    "ts_decode_special_tokens that = b"
    "on_track (\<lambda>ts. decode ts b) all_tokens tokens that" "complete_shown (\<lambda>ts. decode ts b) that"
    using emit_plain_step [OF assms(1) Cons.prems(1,2), of token True] Cons.prems(3,4) leaves by blast
  have w: "write_token decode collect token True this = Some (that, Inr SS_RUNNING)"
    using t(1) Cons.prems(1) by (simp add: write_token_plain plain_open_def)
  from Cons.IH [OF t(2) t(3) [symmetric] t(4)] t(5) show ?case using w by (simp add: act_bind_def)
qed auto

lemma first_unprinted_range:
  "first_unprinted ls p \<le> length ls \<and> (\<forall>i<first_unprinted ls p. 0 < ls ! i \<and> nat (ls ! i) \<le> p)"
  by (induction ls p rule: first_unprinted.induct) (auto simp: nth_Cons')

lemma is_incomplete_append: "is_incomplete s \<Longrightarrow> is_incomplete (pre @ s)"
  by (auto simp: is_incomplete_def)

lemma drain_terminal_plain:
  fixes this :: "('t, 'r, 'c, (Delta \<times> bool) list) OVMSTextStreamer"
  assumes d: "settling_decoder (\<lambda>ts. decode ts b)" and o: "plain_open decode this" and b: "b = ts_decode_special_tokens this"
    and u: "unfused (\<lambda>ts. decode ts b) all_tokens" and t: "on_track (\<lambda>ts. decode ts b) all_tokens [] this" and r: "reason \<noteq> FR_NONE"
  shows "\<exists>that ds lost. drain_terminal decode collect reason this = Some (that, Inr SS_RUNNING) \<and>
    ts_client that = ds @ [(FinishDelta, True)] \<and> (\<forall>x\<in>set ds. \<not> snd x) \<and> content_of ds @ lost = decode all_tokens b \<and>
    (\<forall>i. \<not> is_incomplete (decode (take i all_tokens) b) \<longrightarrow> length (decode (take i all_tokens) b) \<le> length (content_of ds))"
proof -
  let ?dec = "\<lambda>ts. decode ts b"
  let ?idx = "first_unprinted (ts_decoded_lengths this) (ts_printed_len this)"
  let ?rest = "drop ?idx (ts_tokens_cache this)"
  let ?this1 = "this\<lparr>ts_tokens_cache := take ?idx (ts_tokens_cache this), ts_decoded_lengths := take ?idx (ts_decoded_lengths this)\<rparr>"
  have l: "ts_decoded_lengths this = lengths_of ?dec (ts_tokens_cache this)" using o b by (simp add: plain_open_def)
  have "plain_open decode ?this1" using o b by (simp add: plain_open_def lengths_of_take)
  moreover have "on_track ?dec all_tokens ?rest ?this1" using t by (simp add: on_track_def)
  moreover have "complete_shown ?dec ?this1"
    unfolding complete_shown_def
  proof (intro allI impI)
    fix j assume j: "j \<le> length (ts_tokens_cache ?this1)" "\<not> is_incomplete (?dec (take j (ts_tokens_cache ?this1)))"
    have r: "?idx \<le> length (ts_tokens_cache this)" "\<forall>i<?idx. 0 < lengths_of ?dec (ts_tokens_cache this) ! i \<and>
        nat (lengths_of ?dec (ts_tokens_cache this) ! i) \<le> ts_printed_len this"
      using first_unprinted_range [of "ts_decoded_lengths this" "ts_printed_len this"] l by simp_all
    show "length (?dec (take j (ts_tokens_cache ?this1))) \<le> ts_printed_len ?this1"
    proof (cases j)
      case (Suc i)
      then have "i < ?idx" "i < length (ts_tokens_cache this)" "take j (ts_tokens_cache ?this1) = take (Suc i) (ts_tokens_cache this)"
        using j(1) r(1) by (simp_all add: min_def split: if_split_asm)
      then show ?thesis using r(2) lengths_of_nth [of i "ts_tokens_cache this" ?dec] by (auto split: if_splits)
    qed (use d in \<open>simp add: settling_decoder_def\<close>)
  qed
  ultimately obtain that where w: "write_unprinted decode collect ?rest ?this1 = Some (that, Inr SS_RUNNING)"
    "ts_decode_special_tokens that = b" "on_track ?dec all_tokens [] that"
    "complete_shown ?dec that"
    using write_unprinted_plain [of decode b all_tokens ?this1 ?rest, OF d u] b by auto
  define final where "final = (if ts_tokens_cache that = [] then [] else ?dec (ts_tokens_cache that))"
  have f: "final = ?dec (ts_tokens_cache that)" using d by (simp add: final_def settling_decoder_def)
  have k: "ts_output_parser that = None" "ts_completion that = Open" "ts_printed_len that \<le> length final"
    "content_of (ts_client that) @ drop (ts_printed_len that) final = ?dec all_tokens" "\<forall>x\<in>set (ts_client that). \<not> snd x"
    using w(3) f by (auto simp: on_track_def)
  obtain pre where pre: "all_tokens = pre @ ts_tokens_cache that" "\<forall>us. ?dec (pre @ us) = ?dec pre @ ?dec us"
    using w(3) by (auto simp: on_track_def)
  have len: "length (content_of (ts_client that)) = length (?dec pre) + ts_printed_len that"
    using arg_cong [OF k(4), of length] k(3) pre f by simp
  have fl: "flush_chunk collect final (ts_printed_len that) reason that =
      Some (that\<lparr>ts_client := ts_client that @ [(FinishDelta, True)]\<rparr>, Inr SS_RUNNING)"
    using k r by (simp add: flush_chunk_def parse_step_def drain_loop.simps act_bind_def call_back_def collect_def observe_def Let_def)
  have "drain_terminal decode collect reason this =
      Some (clear_cache (that\<lparr>ts_client := ts_client that @ [(FinishDelta, True)]\<rparr>), Inr SS_RUNNING)"
    using fl unfolding drain_terminal_def Let_def
    by (cases "ts_tokens_cache that = []") (simp_all add: act_bind_def w(1,2) final_def)
  moreover have "length (?dec (take i all_tokens)) \<le> length (content_of (ts_client that))"
    if i: "\<not> is_incomplete (?dec (take i all_tokens))" for i
  proof (cases "i \<le> length pre")
    case True
    then have "all_tokens = take i all_tokens @ drop i pre @ ts_tokens_cache that" "take i all_tokens @ drop i pre = pre" using pre(1) by simp_all
    then have "leaves_text ?dec (take i all_tokens) (drop i pre)" using u unfolding unfused_def by metis
    then have "length (?dec (take i all_tokens)) \<le> length (?dec pre)"
      using i \<open>take i all_tokens @ drop i pre = pre\<close> unfolding leaves_text_def by (metis length_append le_add1)
    then show ?thesis using len by simp
  next
    case False
    let ?c = "take (i - length pre) (ts_tokens_cache that)"
    have t: "take i all_tokens = pre @ ?c" using pre(1) False by simp
    then have "\<not> is_incomplete (?dec ?c)" using i pre(2) is_incomplete_append by metis
    then have "length (?dec ?c) \<le> ts_printed_len that"
      using w(4) unfolding complete_shown_def by (metis nle_le take_all_iff order_refl)
    then show ?thesis using len t pre(2) by simp
  qed
  ultimately show ?thesis using k by (intro exI [of _ "clear_cache (that\<lparr>ts_client := ts_client that @ [(FinishDelta, True)]\<rparr>)"]
      exI [of _ "ts_client that"] exI [of _ "drop (ts_printed_len that) final"]) (simp add: clear_cache_def)
qed

text \<open>
  C15: Without a router and for a tokenizer that starts anew after a newline and settles the text of a token
  within the tokens the delay buffer holds back (\<open>settling_decoder\<close>), what the client gets while tokens
  are written is never wrong: its pieces put together are the beginning of the decoding of the tokens
  so far and of every continuation of them. When moreover no text of this generation is changed by later
  tokens (\<open>unfused\<close>), the end delivers the rest: the pieces are then the beginning of the decoding of
  all tokens and contain the decoding of every beginning of the tokens that decodes to complete text,
  so only bytes of a last, incomplete character can be missing; and exactly the last delta is marked
  as the last.
\<close>

theorem plain_text_is_streamed_whole:
  fixes fresh :: "('t, 'r, 'c, (Delta \<times> bool) list) OVMSTextStreamer"
  assumes "fresh = new_OVMSTextStreamer None tools skip []" "b = (case skip of None \<Rightarrow> False | Some x \<Rightarrow> \<not> x)" "settling_decoder (\<lambda>ts. decode ts b)"
  shows "(\<exists>that. streamer_run decode collect [WriteAll tokens] fresh = Some (that, [Inr SS_RUNNING]) \<and>
      (\<forall>x\<in>set (ts_client that). \<not> snd x) \<and> (\<forall>further. \<exists>z. decode (tokens @ further) b = content_of (ts_client that) @ z)) \<and>
    (unfused (\<lambda>ts. decode ts b) tokens \<longrightarrow>
      (\<exists>that ds lost. streamer_run decode collect [WriteAll tokens, End] fresh =
          Some (that, [Inr SS_RUNNING, Inr SS_RUNNING]) \<and>
        ts_client that = ds @ [(FinishDelta, True)] \<and> (\<forall>x\<in>set ds. \<not> snd x) \<and> content_of ds @ lost = decode tokens b \<and>
        (\<forall>i. \<not> is_incomplete (decode (take i tokens) b) \<longrightarrow> length (decode (take i tokens) b) \<le> length (content_of ds))))"
proof -
  let ?dec = "\<lambda>ts. decode ts b"
  have o: "plain_open decode fresh" "ts_decode_special_tokens fresh = b"
    by (simp_all add: assms(1,2) new_OVMSTextStreamer_def plain_open_def apply_decode_params_def needs_special_def lengths_of_def Let_def)
  have "\<forall>rest. on_track ?dec ([] @ tokens @ rest) (tokens @ rest) fresh"
    using assms by (simp add: on_track_def new_OVMSTextStreamer_def apply_decode_params_def Let_def settling_decoder_def)
  then obtain that where w: "write_all decode collect tokens fresh = Some (that, Inr SS_RUNNING)" "plain_open decode that"
    "ts_decode_special_tokens that = b" "\<forall>rest. on_track ?dec (tokens @ rest) rest that"
    using write_all_plain [of decode b fresh "[]" tokens, OF assms(3) o(1) o(2) [symmetric]] by (metis append_Nil)
  have "on_track ?dec tokens [] that" using w(4) [rule_format, of "[]"] by simp
  moreover have "\<exists>z. decode (tokens @ us) b = content_of (ts_client that) @ z" for us
    using w(4) [rule_format, of us] unfolding on_track_def by metis
  ultimately have "\<exists>that. streamer_run decode collect [WriteAll tokens] fresh = Some (that, [Inr SS_RUNNING]) \<and>
      (\<forall>x\<in>set (ts_client that). \<not> snd x) \<and> (\<forall>further. \<exists>z. decode (tokens @ further) b = content_of (ts_client that) @ z)"
    using w(1) by (intro exI [of _ that]) (simp add: streamer_step_def act_bind_def on_track_def)
  moreover have "\<exists>that ds lost. streamer_run decode collect [WriteAll tokens, End] fresh = Some (that, [Inr SS_RUNNING, Inr SS_RUNNING]) \<and>
      ts_client that = ds @ [(FinishDelta, True)] \<and> (\<forall>x\<in>set ds. \<not> snd x) \<and> content_of ds @ lost = decode tokens b \<and>
      (\<forall>i. \<not> is_incomplete (decode (take i tokens) b) \<longrightarrow> length (decode (take i tokens) b) \<le> length (content_of ds))"
    if u: "unfused ?dec tokens"
  proof -
    have e: "ts_completion that = Open" using w(2) by (simp add: plain_open_def)
    obtain fin ds lost where "drain_terminal decode collect FR_STOP that = Some (fin, Inr SS_RUNNING)"
      "ts_client fin = ds @ [(FinishDelta, True)]" "\<forall>x\<in>set ds. \<not> snd x" "content_of ds @ lost = ?dec tokens"
      "\<forall>i. \<not> is_incomplete (?dec (take i tokens)) \<longrightarrow> length (?dec (take i tokens)) \<le> length (content_of ds)"
      using drain_terminal_plain [of decode b that tokens FR_STOP, OF assms(3) w(2) w(3) [symmetric] u] \<open>on_track ?dec tokens [] that\<close> by auto
    then show ?thesis
      using w(1) e by (intro exI [of _ fin] exI [of _ ds] exI [of _ lost] conjI)
        (simp_all add: streamer_step_def stream_end_def act_bind_def latching_def)
  qed
  ultimately show ?thesis by blast
qed

lemma plain_text_is_streamed_whole_witness:
  "\<exists>that ds. streamer_run (\<lambda>ts _. map (\<lambda>t. if t = 0 then newline else CHR ''a'') ts) collect [WriteAll [1, 2, 0, 3], End]
      (plain_streamer []) = Some (that, [Inr SS_RUNNING, Inr SS_RUNNING]) \<and>
    ts_client that = ds @ [(FinishDelta, True)] \<and> content_of ds = [CHR ''a'', CHR ''a'', newline, CHR ''a'']"
proof -
  let ?decode = "\<lambda>ts (_::bool). map (\<lambda>t::int. if t = 0 then newline else CHR ''a'') ts"
  have "settling_decoder (\<lambda>ts. ?decode ts False)" by (simp add: settling_decoder_def)
  note whole = plain_text_is_streamed_whole [where decode = ?decode and skip = None and b = False, OF refl _ this, where tokens = "[1, 2, 0, 3]" and tools = False]
  let ?text = "[CHR ''a'', CHR ''a'', newline, CHR ''a'']"
  have t: "?decode [1, 2, 0, 3] False = ?text" by simp
  have "unfused (\<lambda>ts. ?decode ts False) [1, 2, 0, 3]" by (simp add: unfused_def leaves_text_def)
  then obtain that ds lost where w: "streamer_run ?decode collect [WriteAll [1, 2, 0, 3], End] (plain_streamer []) =
      Some (that, [Inr SS_RUNNING, Inr SS_RUNNING])" "ts_client that = ds @ [(FinishDelta, True)]" "content_of ds @ lost = ?text"
    "\<not> is_incomplete ?text \<longrightarrow> length ?text \<le> length (content_of ds)"
    using whole unfolding t plain_streamer_def by (metis (no_types, lifting) t take_all_iff order_refl option.case(1))
  moreover have "\<not> is_incomplete ?text" by (simp add: is_incomplete_def)
  ultimately have "length ?text \<le> length (content_of ds)" by blast
  then have "lost = []" using arg_cong [OF w(3), of length] by (metis add_le_same_cancel1 le_zero_eq length_0_conv length_append)
  then show ?thesis using w(1-3) by auto
qed

declare drain_loop.simps [code]

text \<open>
  The delay is one token shorter than its name: with three tokens in the cache the text of the first is
  delivered, so text that the third of three later tokens would still change is not held back. And the end
  gives up the delay: it delivers the text of each token it has held back before it looks at the next
  one, so that a token which joins the text of its predecessor comes too late.
\<close>

fun joining :: decoder where
  "joining (t # u # ts) _ =
     (if t = 1 \<and> u = 2 then ''Ab'' else [if t = 1 then CHR ''a'' else CHR ''b'', if u = 1 then CHR ''a'' else CHR ''b'']) @
     map (\<lambda>_. CHR ''c'') ts"
| "joining ts _ = map (\<lambda>t. if t = 1 then CHR ''a'' else CHR ''b'') ts"

lemma joining_settles: "settling_decoder (\<lambda>ts. joining ts b)"
proof -
  have "set (joining ts b) \<subseteq> set ''Aabc''" for ts by (induction ts b rule: joining.induct) auto
  then have "joining ts b \<noteq> [] \<Longrightarrow> last (joining ts b) \<noteq> newline" for ts by (force simp: newline_def dest: last_in_set)
  moreover have "length (joining ts b) = length ts" for ts by (induction ts b rule: joining.induct) auto
  moreover have "take (length ts) (joining (ts @ us @ vs) b) = take (length ts) (joining (ts @ us) b)"
    if us: "length us = 2" for ts us vs
  proof -
    obtain u v where "us = [u, v]" using us by (auto simp: numeral_2_eq_2 length_Suc_conv)
    then show ?thesis by (cases ts; cases "tl ts") auto
  qed
  ultimately show ?thesis unfolding settling_decoder_def DELAY_N_TOKENS_def by auto
qed

theorem end_delivers_text_too_early:
  "settling_decoder (\<lambda>ts. joining ts False) \<and> joining [1, 2] False = ''Ab'' \<and>
   (\<exists>that rs. streamer_run joining collect [WriteAll [1, 2], End] (plain_streamer []) = Some (that, rs) \<and>
      content_of (ts_client that) = ''ab'')"
proof (intro conjI joining_settles)
  let ?r = "streamer_run joining collect [WriteAll [1, 2], End] (plain_streamer [])"
  have "map_option (\<lambda>(that, _). content_of (ts_client that)) ?r = Some ''ab''" by code_simp
  then show "\<exists>that rs. ?r = Some (that, rs) \<and> content_of (ts_client that) = ''ab''" by auto
qed code_simp

section \<open>Text that is emitted again\<close>

text \<open>
  A tokenizer with a character of two tokens, 1 and 2, a closing marker 3 that shows only with
  special tokens, and letters otherwise.
\<close>

definition piece :: "bool \<Rightarrow> int \<Rightarrow> string" where
  "piece special token =
     (if token = 1 then [CHR 0xC3] else if token = 2 then [CHR 0xA9]
      else if token = 3 then (if special then ''<channel|>'' else []) else ''a'')"

definition two_token_decoder :: decoder where
  "two_token_decoder tokens special =
     (if tokens \<noteq> [] \<and> last tokens = 1
      then concat (map (piece special) (butlast tokens)) @ [CHR 0xEF, CHR 0xBF, CHR 0xBD]
      else concat (map (piece special) tokens))"

definition gemma4_object :: "gemma4_reasoning parser_object" where
  "gemma4_object = \<lparr>ob_ops = gemma4_reasoning_parser gemma4_reasoning_config, ob_state = new_gemma4_reasoning,
     ob_resolvedStartTokenToTag = Map.empty\<rparr>"

definition gemma4_streamer :: "(unit, gemma4_reasoning, unit, (Delta \<times> bool) list) OVMSTextStreamer" where
  "gemma4_streamer = new_OVMSTextStreamer
     (Some (setImplicitReasoningStart True (projr (new_OutputParser (\<lambda>_. content_object []) (\<lambda>_. gemma4_object)
       (\<lambda>_. content_object []) [] ''gemma4'')))) False None []"


text \<open>
  Text that was shown can be shown again at the end of a generation, even as content: when the
  character at the front of the cache takes several tokens, its first entry of -1 makes the final
  drain write all cached tokens once more, and if the decoding mode has changed meanwhile the printed
  length is reset. Here the character is the whole thought, and the client gets it first as
  reasoning and then as content.
\<close>

theorem shown_text_is_emitted_again:
  "map_option (\<lambda>(that, _). ts_client that)
     (streamer_run two_token_decoder collect [WriteAll [1, 2, 3, 4, 4], End] gemma4_streamer) =
   Some [(ReasoningDelta [CHR 0xC3, CHR 0xA9], False), (ContentDelta [CHR 0xC3, CHR 0xA9], False),
     (ContentDelta ''a'', False), (ContentDelta ''a'', False), (FinishDelta, True)]"
  by code_simp

end
