(* ===== verification/Pipeline_Graph.thy ===== *)
theory Pipeline_Graph
  imports Ovms_Prelude "HOL-Library.Word"
begin

text \<open>
  The graph of a pipeline definition (\<open>src/dags/nodeinfo.hpp\<close>, \<open>src/dags/pipelinedefinition.cpp\<close>): its
  nodes and connections, the search for cycles and unconnected nodes, and the check that what is
  demultiplied is gathered in the right order. An unordered map is the list of its entries in the
  order in which it is run through; its keys are distinct.
\<close>

section \<open>Nodes and connections\<close>

datatype NodeKind = ENTRY | DL | CUSTOM | EXIT

type_synonym Aliases = "(string \<times> string) list"

text \<open>The library of a custom node is a parameter.\<close>

record 'l NodeInfo =
  ni_kind :: NodeKind
  ni_nodeName :: string
  ni_modelName :: string
  ni_modelVersion :: "int option"
  ni_outputNameAliases :: "(string \<times> string) list"
  ni_demultiplyCount :: "64 word option"
  ni_gatherFromNode :: "string set"
  ni_library :: 'l
  ni_parameters :: "(string \<times> string) list"

text \<open>From a node to the nodes it depends on, with the names of the connected tensors.\<close>

type_synonym pipeline_connections = "(string \<times> (string \<times> Aliases) list) list"

text \<open>\<open>connections[nodeName]\<close>, which inserts an empty entry for a name without one.\<close>

definition connected_to :: "pipeline_connections \<Rightarrow> string \<Rightarrow> (string \<times> Aliases) list" where
  "connected_to connections nodeName = (case map_of connections nodeName of None \<Rightarrow> [] | Some ms \<Rightarrow> ms)"

definition with_entry :: "pipeline_connections \<Rightarrow> string \<Rightarrow> pipeline_connections" where
  "with_entry connections nodeName =
     (case map_of connections nodeName of None \<Rightarrow> connections @ [(nodeName, [])] | Some _ \<Rightarrow> connections)"

definition findNodeByName :: "'l NodeInfo list \<Rightarrow> string \<Rightarrow> 'l NodeInfo option" where
  "findNodeByName nodeInfos name = List.find (\<lambda>info. ni_nodeName info = name) nodeInfos"

definition exit_node :: "'l NodeInfo list \<Rightarrow> 'l NodeInfo option" where
  "exit_node nodeInfos = List.find (\<lambda>info. ni_kind info = EXIT) nodeInfos"

section \<open>Cycles\<close>

datatype scan = CycleHere | Descend string | Exhausted

fun scan_connected :: "string \<Rightarrow> string list \<Rightarrow> string list \<Rightarrow> (string \<times> Aliases) list \<Rightarrow> scan" where
  "scan_connected nodeName visited parentNodes [] = Exhausted"
| "scan_connected nodeName visited parentNodes ((node, _) # nodes) =
     (if nodeName = node then CycleHere
      else if node \<notin> set visited then Descend node
      else if node \<in> set parentNodes then CycleHere
      else scan_connected nodeName visited parentNodes nodes)"

definition names_in :: "pipeline_connections \<Rightarrow> string set" where
  "names_in connections = (\<Union>(_, ms)\<in>set connections. fst ` set ms)"

lemma finite_names_in [simp]: "finite (names_in connections)"
  by (auto simp: names_in_def)

lemma names_in_with_entry [simp]: "names_in (with_entry connections n) = names_in connections"
  by (auto simp: names_in_def with_entry_def split: option.split)

lemma connected_to_names: "fst ` set (connected_to connections n) \<subseteq> names_in connections"
proof (cases "map_of connections n")
  case (Some ms)
  then have "(n, ms) \<in> set connections" by (rule map_of_SomeD)
  then show ?thesis using Some unfolding connected_to_def names_in_def by fastforce
qed (simp add: connected_to_def)

lemma scan_connected_cases:
  "case scan_connected n visited parents ms of
     Descend m \<Rightarrow> m \<in> fst ` set ms \<and> m \<notin> set visited \<and> m \<noteq> n
   | CycleHere \<Rightarrow> n \<in> fst ` set ms \<or> (\<exists>m\<in>set parents. m \<in> fst ` set ms)
   | Exhausted \<Rightarrow> (\<forall>m\<in>fst ` set ms. m \<noteq> n \<and> m \<in> set visited \<and> m \<notin> set parents)"
proof (induction n visited parents ms rule: scan_connected.induct)
  case (2 nodeName visited parents node a nodes)
  show ?case
  proof (cases "nodeName = node \<or> node \<notin> set visited \<or> node \<in> set parents")
    case False
    then show ?thesis using 2 by (cases "scan_connected nodeName visited parents nodes") auto
  qed (use 2 in auto)
qed simp

function cycle_loop ::
  "nat \<Rightarrow> string list \<Rightarrow> string list \<Rightarrow> string \<Rightarrow> pipeline_connections \<Rightarrow> StatusCode \<times> pipeline_connections" where
  "cycle_loop nodeCount visited parentNodes nodeName connections =
     (let connections' = with_entry connections nodeName
      in case scan_connected nodeName visited parentNodes (connected_to connections nodeName) of
           CycleHere \<Rightarrow> (SC_PIPELINE_CYCLE_FOUND, connections')
         | Descend node \<Rightarrow> cycle_loop nodeCount (visited @ [node]) (parentNodes @ [nodeName]) node connections'
         | Exhausted \<Rightarrow>
             if parentNodes = []
             then (if length visited \<noteq> nodeCount then SC_PIPELINE_CONTAINS_UNCONNECTED_NODES else SC_OK, connections')
             else cycle_loop nodeCount visited (butlast parentNodes) (last parentNodes) connections')"
  by pat_completeness auto
termination
proof (relation "measures [\<lambda>(_, visited, _, _, connections). card (names_in connections - set visited),
      \<lambda>(_, _, parentNodes, _, _). length parentNodes]")
  fix k :: nat and visited parents :: "string list" and n :: string and connections connections' :: pipeline_connections
    and m :: string
  assume c: "connections' = with_entry connections n"
    and "scan_connected n visited parents (connected_to connections n) = Descend m"
  then have m: "m \<in> names_in connections" "m \<notin> set visited"
    using scan_connected_cases [where n = n and visited = visited and parents = parents and ms = "connected_to connections n"] connected_to_names [of connections n]
    by auto
  then have "card (names_in connections - set (visited @ [m])) < card (names_in connections - set visited)"
    by (intro psubset_card_mono) auto
  then show "((k, visited @ [m], parents @ [n], m, connections'), k, visited, parents, n, connections)
      \<in> measures [\<lambda>(_, visited, _, _, connections). card (names_in connections - set visited),
        \<lambda>(_, _, parentNodes, _, _). length parentNodes]"
    by (simp add: c)
qed auto

declare cycle_loop.simps [simp del]

text \<open>Whether the pipeline has a cycle or a node without connection; and the connections it leaves.\<close>

definition validateForCycles :: "'l NodeInfo list \<Rightarrow> pipeline_connections \<Rightarrow> StatusCode \<times> pipeline_connections" where
  "validateForCycles nodeInfos connections =
     (case exit_node nodeInfos of
        None \<Rightarrow> (SC_PIPELINE_MISSING_ENTRY_OR_EXIT, connections)
      | Some info \<Rightarrow> cycle_loop (length nodeInfos) [ni_nodeName info] [] (ni_nodeName info) connections)"

section \<open>The graph the search sees\<close>

definition depends_on :: "pipeline_connections \<Rightarrow> (string \<times> string) set" where
  "depends_on connections = {(n, m). m \<in> fst ` set (connected_to connections n)}"

lemma connected_to_with_entry [simp]: "connected_to (with_entry connections n) m = connected_to connections m"
  by (auto simp: connected_to_def with_entry_def map_add_def split: option.split)

lemma depends_on_with_entry [simp]: "depends_on (with_entry connections n) = depends_on connections"
  by (simp add: depends_on_def)

text \<open>
  The invariant of the search from \<open>start\<close>: the parents and the current node are a path of visited
  nodes, every visited node is reached, and the nodes left behind only lead to such nodes and lie on
  no cycle.
\<close>

definition finished_nodes :: "string list \<Rightarrow> string list \<Rightarrow> string \<Rightarrow> string set" where
  "finished_nodes visited parents n = set visited - set (parents @ [n])"

definition search_inv :: "(string \<times> string) set \<Rightarrow> string \<Rightarrow> string list \<Rightarrow> string list \<Rightarrow> string \<Rightarrow> bool" where
  "search_inv E start visited parents n \<longleftrightarrow>
     distinct visited \<and> distinct (parents @ [n]) \<and> set (parents @ [n]) \<subseteq> set visited \<and>
     hd (parents @ [n]) = start \<and> successively (\<lambda>a b. (a, b) \<in> E) (parents @ [n]) \<and>
     set visited \<subseteq> E\<^sup>* `` {start} \<and>
     E `` finished_nodes visited parents n \<subseteq> finished_nodes visited parents n \<and>
     (\<forall>v\<in>finished_nodes visited parents n. (v, v) \<notin> E\<^sup>+)"

lemma path_to_last:
  "successively (\<lambda>a b. (a, b) \<in> E) (xs @ [n]) \<Longrightarrow> m \<in> set xs \<Longrightarrow> (m, n) \<in> E\<^sup>+"
proof (induction xs arbitrary: m)
  case (Cons x xs)
  note IH = Cons.IH and prems = Cons.prems
  show ?case
  proof (cases xs)
    case Nil
    then show ?thesis using prems by auto
  next
    case (Cons y ys)
    have s: "successively (\<lambda>a b. (a, b) \<in> E) (xs @ [n])" "(x, y) \<in> E" using prems Cons by auto
    show ?thesis
    proof (cases "m = x")
      case True
      have "(y, n) \<in> E\<^sup>+" by (rule IH [OF s(1)]) (simp add: Cons)
      with s(2) show ?thesis unfolding True by (rule trancl_into_trancl2)
    next
      case False
      then show ?thesis using IH [OF s(1)] prems(2) by simp
    qed
  qed
qed simp

lemma trancl_stays:
  assumes "E `` S \<subseteq> S" "(v, w) \<in> E\<^sup>+" "v \<in> S"
  shows "w \<in> S"
  using assms(2,3) by (induction rule: trancl_induct) (use assms(1) in auto)

lemma rtrancl_stays: "E `` S \<subseteq> S \<Longrightarrow> (v, w) \<in> E\<^sup>* \<Longrightarrow> v \<in> S \<Longrightarrow> w \<in> S"
  using trancl_stays by (metis rtranclD)

text \<open>When all connected nodes are finished, so is the node.\<close>

lemma search_finish:
  assumes inv: "search_inv E start visited parents n"
    and out: "\<forall>m\<in>E `` {n}. m \<noteq> n \<and> m \<in> set visited \<and> m \<notin> set parents"
  shows "E `` (insert n (finished_nodes visited parents n)) \<subseteq> finished_nodes visited parents n"
    "\<forall>v\<in>insert n (finished_nodes visited parents n). (v, v) \<notin> E\<^sup>+"
proof -
  let ?F = "finished_nodes visited parents n"
  have F: "E `` ?F \<subseteq> ?F" "\<forall>v\<in>?F. (v, v) \<notin> E\<^sup>+" using inv by (simp_all add: search_inv_def)
  have n: "E `` {n} \<subseteq> ?F" using out by (auto simp: finished_nodes_def)
  show "E `` (insert n ?F) \<subseteq> ?F" using F(1) n by blast
  have "(n, n) \<notin> E\<^sup>+"
  proof
    assume "(n, n) \<in> E\<^sup>+"
    then obtain m where "(n, m) \<in> E" "m = n \<or> (m, n) \<in> E\<^sup>+" by (metis converse_tranclE)
    moreover have "m \<in> ?F" using calculation(1) n by blast
    ultimately have "n \<in> ?F" using trancl_stays [OF F(1)] by blast
    then show False by (simp add: finished_nodes_def)
  qed
  then show "\<forall>v\<in>insert n ?F. (v, v) \<notin> E\<^sup>+" using F(2) by blast
qed

lemma search_step_down:
  assumes inv: "search_inv E start visited parents n" and m: "(n, m) \<in> E" "m \<notin> set visited"
  shows "search_inv E start (visited @ [m]) (parents @ [n]) m"
proof -
  have sub: "set (parents @ [n]) \<subseteq> set visited" using inv by (simp add: search_inv_def)
  have f: "finished_nodes (visited @ [m]) (parents @ [n]) m = finished_nodes visited parents n"
    using sub m(2) by (auto simp: finished_nodes_def)
  have "n \<in> E\<^sup>* `` {start}" using inv by (auto simp: search_inv_def)
  then have "m \<in> E\<^sup>* `` {start}" using m(1) by (auto intro: rtrancl_into_rtrancl)
  moreover have "successively (\<lambda>a b. (a, b) \<in> E) ((parents @ [n]) @ [m])"
    using inv m(1) by (simp add: search_inv_def successively_append_iff)
  moreover have "hd ((parents @ [n]) @ [m]) = start" using inv by (cases parents) (simp_all add: search_inv_def)
  ultimately show ?thesis using inv m(2) sub unfolding search_inv_def f by auto
qed

lemma search_step_up:
  assumes inv: "search_inv E start visited parents n" and p: "parents \<noteq> []"
    and out: "\<forall>m\<in>E `` {n}. m \<noteq> n \<and> m \<in> set visited \<and> m \<notin> set parents"
  shows "search_inv E start visited (butlast parents) (last parents)"
proof -
  have l: "butlast parents @ [last parents] = parents" using p by simp
  have f: "finished_nodes visited (butlast parents) (last parents) = insert n (finished_nodes visited parents n)"
    using inv l unfolding finished_nodes_def search_inv_def by auto
  show ?thesis
    using inv search_finish [OF inv out] p unfolding search_inv_def f l
    by (auto simp: successively_append_iff hd_append)
qed

text \<open>What the search answers.\<close>

lemma cycle_loop_exact:
  assumes "search_inv (depends_on connections) start visited parents n"
  shows "(fst (cycle_loop k visited parents n connections) = SC_PIPELINE_CYCLE_FOUND \<longleftrightarrow>
      (\<exists>v. (start, v) \<in> (depends_on connections)\<^sup>* \<and> (v, v) \<in> (depends_on connections)\<^sup>+)) \<and>
    (fst (cycle_loop k visited parents n connections) = SC_OK \<longleftrightarrow>
      \<not> (\<exists>v. (start, v) \<in> (depends_on connections)\<^sup>* \<and> (v, v) \<in> (depends_on connections)\<^sup>+) \<and>
      card ((depends_on connections)\<^sup>* `` {start}) = k)"
  using assms
proof (induction k visited parents n connections rule: cycle_loop.induct)
  case (1 k visited parents n connections)
  let ?E = "depends_on connections"
  have img: "?E `` {n} = fst ` set (connected_to connections n)" by (auto simp: depends_on_def)
  note scan = scan_connected_cases [where n = n and visited = visited and parents = parents and ms = "connected_to connections n", folded img]
  have n: "(start, n) \<in> ?E\<^sup>*" using "1.prems" by (auto simp: search_inv_def)
  show ?case
  proof (cases "scan_connected n visited parents (connected_to connections n)")
    case CycleHere
    obtain m where m: "(n, m) \<in> ?E" "m = n \<or> m \<in> set parents" using scan CycleHere by auto
    have "(m, n) \<in> ?E\<^sup>*"
      using m(2) "1.prems" path_to_last [of ?E parents n m] by (auto simp: search_inv_def)
    then have "(n, n) \<in> ?E\<^sup>+" using m(1) by (rule rtrancl_into_trancl2 [rotated])
    then show ?thesis using CycleHere n by (subst (1 2) cycle_loop.simps) (auto simp: Let_def)
  next
    case (Descend m)
    have "search_inv ?E start (visited @ [m]) (parents @ [n]) m"
      using search_step_down [OF "1.prems"] scan Descend by auto
    then show ?thesis using "1.IH"(1) [OF refl Descend] Descend by (subst (1 2) cycle_loop.simps) (simp add: Let_def)
  next
    case Exhausted
    have out: "\<forall>m\<in>?E `` {n}. m \<noteq> n \<and> m \<in> set visited \<and> m \<notin> set parents" using scan Exhausted by simp
    show ?thesis
    proof (cases "parents = []")
      case True
      have inv: "n = start" "distinct visited" "n \<in> set visited" "set visited \<subseteq> ?E\<^sup>* `` {start}"
        using "1.prems" True by (auto simp: search_inv_def)
      have v: "insert n (finished_nodes visited parents n) = set visited"
        using inv(3) True by (auto simp: finished_nodes_def)
      note fin = search_finish [OF "1.prems" out, unfolded v]
      have closed: "?E `` set visited \<subseteq> set visited" using fin(1) v by blast
      have "v \<in> set visited" if "(start, v) \<in> ?E\<^sup>*" for v
        using rtrancl_stays [OF closed that] inv(1,3) by simp
      then have "?E\<^sup>* `` {start} \<subseteq> set visited" by blast
      then have reach: "?E\<^sup>* `` {start} = set visited" using inv(4) by blast
      then have "card (?E\<^sup>* `` {start}) = length visited" using inv(2) by (simp add: distinct_card)
      moreover have "\<not> (\<exists>v. (start, v) \<in> ?E\<^sup>* \<and> (v, v) \<in> ?E\<^sup>+)" using reach fin(2) by blast
      ultimately show ?thesis using Exhausted True by (subst (1 2) cycle_loop.simps) (simp add: Let_def)
    next
      case False
      have "search_inv ?E start visited (butlast parents) (last parents)" using search_step_up [OF "1.prems" False out] .
      then show ?thesis using "1.IH"(2) [OF refl Exhausted False] Exhausted False
        by (subst (1 2) cycle_loop.simps) (simp add: Let_def)
    qed
  qed
qed

lemma validateForCycles_exact:
  assumes "exit_node nodeInfos = Some info"
  shows "(fst (validateForCycles nodeInfos connections) = SC_PIPELINE_CYCLE_FOUND \<longleftrightarrow>
      (\<exists>v. (ni_nodeName info, v) \<in> (depends_on connections)\<^sup>* \<and> (v, v) \<in> (depends_on connections)\<^sup>+)) \<and>
    (fst (validateForCycles nodeInfos connections) = SC_OK \<longleftrightarrow>
      \<not> (\<exists>v. (ni_nodeName info, v) \<in> (depends_on connections)\<^sup>* \<and> (v, v) \<in> (depends_on connections)\<^sup>+) \<and>
      card ((depends_on connections)\<^sup>* `` {ni_nodeName info}) = length nodeInfos)"
proof -
  have "search_inv (depends_on connections) (ni_nodeName info) [ni_nodeName info] [] (ni_nodeName info)"
    by (auto simp: search_inv_def finished_nodes_def)
  from cycle_loop_exact [OF this] show ?thesis using assms by (simp add: validateForCycles_def)
qed

text \<open>
  C9: The search for cycles is exact: it reports a cycle exactly when one can be reached from the exit
  node, and accepts a pipeline exactly when none can and as many nodes are reached from the exit as
  the pipeline has.
\<close>

theorem cycle_search_is_exact:
  assumes "exit_node nodeInfos = Some info"
  shows "(fst (validateForCycles nodeInfos connections) = SC_PIPELINE_CYCLE_FOUND \<longleftrightarrow>
      (\<exists>v. (ni_nodeName info, v) \<in> (depends_on connections)\<^sup>* \<and> (v, v) \<in> (depends_on connections)\<^sup>+)) \<and>
    (fst (validateForCycles nodeInfos connections) = SC_OK \<longleftrightarrow>
      \<not> (\<exists>v. (ni_nodeName info, v) \<in> (depends_on connections)\<^sup>* \<and> (v, v) \<in> (depends_on connections)\<^sup>+) \<and>
      card ((depends_on connections)\<^sup>* `` {ni_nodeName info}) = length nodeInfos)"
  using assms by (rule validateForCycles_exact)

definition plain_node :: "NodeKind \<Rightarrow> string \<Rightarrow> unit NodeInfo" where
  "plain_node kind name = \<lparr>ni_kind = kind, ni_nodeName = name, ni_modelName = [], ni_modelVersion = None,
     ni_outputNameAliases = [], ni_demultiplyCount = None, ni_gatherFromNode = {}, ni_library = (), ni_parameters = []\<rparr>"

lemma cycle_search_is_exact_witness:
  "\<exists>v. (''response'', v) \<in> (depends_on [(''response'', [(''a'', [])]), (''a'', [(''b'', [])]), (''b'', [(''a'', [])])])\<^sup>* \<and>
     (v, v) \<in> (depends_on [(''response'', [(''a'', [])]), (''a'', [(''b'', [])]), (''b'', [(''a'', [])])])\<^sup>+"
proof -
  let ?infos = "[plain_node EXIT ''response'', plain_node DL ''a'', plain_node DL ''b'']"
  let ?c = "[(''response'', [(''a'', [])]), (''a'', [(''b'', [])]), (''b'', [(''a'', [])])] :: pipeline_connections"
  have e: "exit_node ?infos = Some (plain_node EXIT ''response'')" by (simp add: exit_node_def plain_node_def)
  have "fst (validateForCycles ?infos ?c) = SC_PIPELINE_CYCLE_FOUND" by code_simp
  then show ?thesis using cycle_search_is_exact [OF e, of ?c] by (simp add: plain_node_def)
qed

section \<open>Demultiplexers and gathering nodes\<close>

text \<open>
  The stack of sets of demultiplexers that still have to be met, its top first, after a connected
  node; \<open>None\<close> where the source returns its error.
\<close>

definition pop_demultiplexer :: "string \<Rightarrow> string set list \<Rightarrow> string set list option" where
  "pop_demultiplexer node stack =
     (case stack of
        [] \<Rightarrow> None
      | lastGatherSet # rest \<Rightarrow>
          if node \<notin> lastGatherSet then None
          else if lastGatherSet - {node} = {} then Some rest
          else Some ((lastGatherSet - {node}) # rest))"

definition connected_stack :: "'l NodeInfo \<Rightarrow> string set list \<Rightarrow> string set list option" where
  "connected_stack info stack =
     (case (if ni_demultiplyCount info = None then Some stack else pop_demultiplexer (ni_nodeName info) stack) of
        None \<Rightarrow> None
      | Some popped \<Rightarrow>
          let pushed = (if ni_gatherFromNode info = {} then popped else ni_gatherFromNode info # popped)
          in if ni_kind info = ENTRY \<and> pushed \<noteq> [] then None else Some pushed)"

type_synonym stacks = "(string \<times> string set list) list"

text \<open>The inner loop. \<open>None\<close> stands for reading a node that is not there.\<close>

fun check_connected ::
  "'l NodeInfo list \<Rightarrow> string set list \<Rightarrow> (string \<times> Aliases) list \<Rightarrow> stacks \<Rightarrow> stacks
     \<Rightarrow> (StatusCode + stacks \<times> stacks) option" where
  "check_connected nodeInfos stack [] todo visited = Some (Inr (todo, visited))"
| "check_connected nodeInfos stack ((node, _) # nodes) todo visited =
     (case findNodeByName nodeInfos node of
        None \<Rightarrow> None
      | Some info \<Rightarrow>
          (case connected_stack info stack of
             None \<Rightarrow> Some (Inl SC_PIPELINE_WRONG_DEMULTIPLEXER_GATHER_NODES_ORDER)
           | Some new \<Rightarrow>
               (case map_of visited node of
                  Some old \<Rightarrow>
                    if old \<noteq> new then Some (Inl SC_PIPELINE_WRONG_DEMULTIPLEXER_GATHER_NODES_ORDER)
                    else check_connected nodeInfos stack nodes todo visited
                | None \<Rightarrow> check_connected nodeInfos stack nodes ((node, new) # todo) ((node, new) # visited))))"

definition unvisited :: "pipeline_connections \<Rightarrow> stacks \<Rightarrow> string set" where
  "unvisited connections visited = names_in connections - fst ` set visited"

lemma unvisited_with_entry [simp]: "unvisited (with_entry connections n) visited = unvisited connections visited"
  by (simp add: unvisited_def)

lemma finite_unvisited [simp]: "finite (unvisited connections visited)"
  by (simp add: unvisited_def)

lemma check_connected_visits:
  assumes "check_connected nodeInfos stack nodes todo visited = Some (Inr (todo', visited'))"
    and "fst ` set nodes \<subseteq> N"
  shows "\<exists>new. todo' = new @ todo \<and> visited' = new @ visited \<and> fst ` set new \<subseteq> N - fst ` set visited"
  using assms
proof (induction nodeInfos stack nodes todo visited rule: check_connected.induct)
  case (2 nodeInfos stack node a nodes todo visited)
  obtain info st where f: "findNodeByName nodeInfos node = Some info" "connected_stack info stack = Some st"
    using "2.prems"(1) by (auto split: option.splits)
  show ?case
  proof (cases "map_of visited node")
    case None
    then obtain new where "todo' = new @ (node, st) # todo" "visited' = new @ (node, st) # visited"
      "fst ` set new \<subseteq> N - fst ` set ((node, st) # visited)"
      using "2.IH"(1) [OF f None] "2.prems" f by auto
    then show ?thesis using None "2.prems"(2) by (intro exI [of _ "new @ [(node, st)]"]) (auto simp: map_of_eq_None_iff)
  next
    case (Some old)
    then have "old = st" using "2.prems"(1) f by (auto split: if_split_asm)
    then show ?thesis using "2.IH"(2) [OF f Some] "2.prems" f Some by auto
  qed
qed simp

function gather_loop ::
  "'l NodeInfo list \<Rightarrow> stacks \<Rightarrow> stacks \<Rightarrow> pipeline_connections \<Rightarrow> (StatusCode \<times> pipeline_connections) option" where
  "gather_loop nodeInfos [] visited connections = Some (SC_OK, connections)"
| "gather_loop nodeInfos ((nodeName, stack) # todo) visited connections =
     (case check_connected nodeInfos stack (connected_to connections nodeName) todo visited of
        None \<Rightarrow> None
      | Some (Inl status) \<Rightarrow> Some (status, with_entry connections nodeName)
      | Some (Inr (todo', visited')) \<Rightarrow> gather_loop nodeInfos todo' visited' (with_entry connections nodeName))"
  by pat_completeness auto
termination
proof (relation "measures [\<lambda>(_, todo, visited, connections). card (unvisited connections visited),
      \<lambda>(_, todo, _, _). length todo]")
  fix nodeInfos :: "'l NodeInfo list" and nodeName stack todo visited and connections :: pipeline_connections
    and todo' visited' and r :: "StatusCode + stacks \<times> stacks" and b :: "stacks \<times> stacks"
  assume "check_connected nodeInfos stack (connected_to connections nodeName) todo visited = Some r"
    "r = Inr b" "(todo', visited') = b"
  then obtain new where new: "todo' = new @ todo" "visited' = new @ visited"
    "fst ` set new \<subseteq> names_in connections - fst ` set visited"
    using check_connected_visits [OF _ connected_to_names] by blast
  have "card (unvisited connections visited') < card (unvisited connections visited)" if nonempty: "new \<noteq> []"
  proof (rule psubset_card_mono)
    obtain x where "x \<in> set new" using nonempty by (cases new) auto
    then have "fst x \<in> unvisited connections visited - unvisited connections visited'"
      using new by (auto simp: unvisited_def)
    then show "unvisited connections visited' \<subset> unvisited connections visited" using new by (auto simp: unvisited_def)
  qed simp
  then show "((nodeInfos, todo', visited', with_entry connections nodeName),
      nodeInfos, (nodeName, stack) # todo, visited, connections)
      \<in> measures [\<lambda>(_, todo, visited, connections). card (unvisited connections visited), \<lambda>(_, todo, _, _). length todo]"
    using new by (cases "new = []") auto
qed simp

declare gather_loop.simps [simp del]

definition first_stack :: "'l NodeInfo \<Rightarrow> string set list" where
  "first_stack exitNode = (if ni_gatherFromNode exitNode = {} then [] else [ni_gatherFromNode exitNode])"

definition validateDemultiplexerGatherNodesOrder ::
  "'l NodeInfo list \<Rightarrow> pipeline_connections \<Rightarrow> (StatusCode \<times> pipeline_connections) option" where
  "validateDemultiplexerGatherNodesOrder nodeInfos connections =
     (case exit_node nodeInfos of
        None \<Rightarrow> None
      | Some exitNode \<Rightarrow> gather_loop nodeInfos [(ni_nodeName exitNode, first_stack exitNode)] [] connections)"

text \<open>
  The specification: the stack along a path, given by the names after its start. \<open>None\<close> is a path on
  which something is gathered that was not demultiplied, or in another order.
\<close>

primrec stack_along :: "'l NodeInfo list \<Rightarrow> string set list \<Rightarrow> string list \<Rightarrow> string set list option" where
  "stack_along nodeInfos stack [] = Some stack"
| "stack_along nodeInfos stack (n # ns) =
     (case findNodeByName nodeInfos n of
        None \<Rightarrow> None
      | Some info \<Rightarrow> (case connected_stack info stack of None \<Rightarrow> None | Some new \<Rightarrow> stack_along nodeInfos new ns))"

definition path_from :: "pipeline_connections \<Rightarrow> string \<Rightarrow> string list \<Rightarrow> bool" where
  "path_from connections start ns \<longleftrightarrow> successively (\<lambda>a b. (a, b) \<in> depends_on connections) (start # ns)"

definition gathers_consistently :: "'l NodeInfo list \<Rightarrow> pipeline_connections \<Rightarrow> string \<Rightarrow> string set list \<Rightarrow> bool" where
  "gathers_consistently nodeInfos connections start stack \<longleftrightarrow>
     (\<forall>p. p \<noteq> [] \<and> path_from connections start p \<longrightarrow> stack_along nodeInfos stack p \<noteq> None) \<and>
     (\<forall>p q. p \<noteq> [] \<and> q \<noteq> [] \<and> path_from connections start p \<and> path_from connections start q \<and> last p = last q \<longrightarrow>
        stack_along nodeInfos stack p = stack_along nodeInfos stack q)"

lemma stack_along_append:
  "stack_along nodeInfos stack (p @ q) =
     (case stack_along nodeInfos stack p of None \<Rightarrow> None | Some new \<Rightarrow> stack_along nodeInfos new q)"
  by (induction p arbitrary: stack) (auto split: option.split)

lemma path_from_with_entry [simp]: "path_from (with_entry connections n) = path_from connections"
  by (simp add: path_from_def fun_eq_iff)

lemma path_from_snoc:
  "path_from connections start (p @ [m]) \<longleftrightarrow>
     path_from connections start p \<and> m \<in> fst ` set (connected_to connections (last (start # p)))"
proof -
  have "successively R ((start # p) @ [m]) \<longleftrightarrow> successively R (start # p) \<and> R (last (start # p)) m" for R
    unfolding successively_append_iff by auto
  from this [of "\<lambda>a b. (a, b) \<in> depends_on connections"] show ?thesis
    by (simp add: path_from_def depends_on_def)
qed

text \<open>A node with a stack is reached when a path to the node gives the stack.\<close>

definition reached_with ::
  "'l NodeInfo list \<Rightarrow> pipeline_connections \<Rightarrow> string \<Rightarrow> string set list \<Rightarrow> bool \<Rightarrow> string \<times> string set list \<Rightarrow> bool" where
  "reached_with nodeInfos connections start stack proper x \<longleftrightarrow>
     (\<exists>p. (proper \<longrightarrow> p \<noteq> []) \<and> path_from connections start p \<and> last (start # p) = fst x \<and>
        stack_along nodeInfos stack p = Some (snd x))"

lemma reached_with_extend:
  assumes "reached_with nodeInfos connections start stack b (n, st)" "m \<in> fst ` set (connected_to connections n)"
  obtains p where "p \<noteq> []" "path_from connections start p" "last p = m"
    "stack_along nodeInfos stack p = (case findNodeByName nodeInfos m of None \<Rightarrow> None | Some info \<Rightarrow> connected_stack info st)"
proof -
  obtain p where "path_from connections start p" "last (start # p) = n" "stack_along nodeInfos stack p = Some st"
    using assms(1) by (auto simp: reached_with_def)
  then show thesis using assms(2)
    by (intro that [of "p @ [m]"]) (auto simp: path_from_snoc stack_along_append split: option.split)
qed

lemma gathers_consistentlyD:
  assumes "gathers_consistently nodeInfos connections start stack"
  shows "p \<noteq> [] \<Longrightarrow> path_from connections start p \<Longrightarrow> stack_along nodeInfos stack p \<noteq> None"
    and "p \<noteq> [] \<Longrightarrow> q \<noteq> [] \<Longrightarrow> path_from connections start p \<Longrightarrow> path_from connections start q \<Longrightarrow>
      last p = last q \<Longrightarrow> stack_along nodeInfos stack p = stack_along nodeInfos stack q"
  using assms unfolding gathers_consistently_def by metis+

lemma inconsistent_paths:
  assumes "p \<noteq> []" "path_from connections start p" "last p = m" "stack_along nodeInfos stack p = x"
    and "x = None \<or> (\<exists>y. reached_with nodeInfos connections start stack True (m, y) \<and> x \<noteq> Some y)"
  shows "\<not> gathers_consistently nodeInfos connections start stack"
proof
  assume ok: "gathers_consistently nodeInfos connections start stack"
  have "stack_along nodeInfos stack p \<noteq> None" by (rule gathers_consistentlyD(1) [OF ok assms(1,2)])
  then obtain y where y: "reached_with nodeInfos connections start stack True (m, y)" "x \<noteq> Some y"
    using assms(5) unfolding assms(4) by blast
  then obtain q where q: "q \<noteq> []" "path_from connections start q" "last q = m" "stack_along nodeInfos stack q = Some y"
    by (auto simp: reached_with_def)
  have "stack_along nodeInfos stack p = stack_along nodeInfos stack q"
    by (rule gathers_consistentlyD(2) [OF ok assms(1) q(1) assms(2) q(2)]) (simp add: assms(3) q(3))
  then show False using y(2) q(4) assms(4) by simp
qed

definition stack_after :: "'l NodeInfo list \<Rightarrow> string set list \<Rightarrow> string \<Rightarrow> string set list option" where
  "stack_after nodeInfos stack m =
     (case findNodeByName nodeInfos m of None \<Rightarrow> None | Some info \<Rightarrow> connected_stack info stack)"

definition passes_on ::
  "'l NodeInfo list \<Rightarrow> string set list \<Rightarrow> string set \<Rightarrow> stacks \<Rightarrow> stacks \<Rightarrow> stacks \<Rightarrow> stacks \<Rightarrow> stacks \<Rightarrow> bool" where
  "passes_on nodeInfos stack ms todo visited todo' visited' new \<longleftrightarrow>
     todo' = new @ todo \<and> visited' = new @ visited \<and> fst ` set new \<inter> fst ` set visited = {} \<and>
     (\<forall>x\<in>set new. fst x \<in> ms \<and> stack_after nodeInfos stack (fst x) = Some (snd x)) \<and>
     (\<forall>m\<in>ms. stack_after nodeInfos stack m \<noteq> None \<and> stack_after nodeInfos stack m = map_of visited' m)"

lemma check_connected_passes:
  assumes "check_connected nodeInfos stack nodes todo visited = Some (Inr (todo', visited'))"
  shows "\<exists>new. passes_on nodeInfos stack (fst ` set nodes) todo visited todo' visited' new"
  using assms
proof (induction nodeInfos stack nodes todo visited rule: check_connected.induct)
  case (1 nodeInfos stack todo visited)
  then show ?case by (simp add: passes_on_def)
next
  case (2 nodeInfos stack node a nodes todo visited)
  obtain info st where f: "findNodeByName nodeInfos node = Some info" "connected_stack info stack = Some st"
    using "2.prems"(1) by (auto split: option.splits)
  then have s: "stack_after nodeInfos stack node = Some st" by (simp add: stack_after_def)
  show ?case
  proof (cases "map_of visited node")
    case None
    then obtain new where
      new: "passes_on nodeInfos stack (fst ` set nodes) ((node, st) # todo) ((node, st) # visited) todo' visited' new"
      using "2.IH"(1) [OF f None] "2.prems" f by auto
    then have "map_of new node = None" by (auto simp: map_of_eq_None_iff passes_on_def)
    then have "map_of visited' node = Some st" using new by (simp add: passes_on_def map_add_def)
    then have "passes_on nodeInfos stack (fst ` set ((node, a) # nodes)) todo visited todo' visited' (new @ [(node, st)])"
      using new s None unfolding passes_on_def by (auto simp: map_of_eq_None_iff)
    then show ?thesis by blast
  next
    case (Some old)
    then have old: "old = st" using "2.prems"(1) f by (auto split: if_split_asm)
    then obtain new where new: "passes_on nodeInfos stack (fst ` set nodes) todo visited todo' visited' new"
      using "2.IH"(2) [OF f Some] "2.prems" f Some by auto
    have "node \<in> fst ` set visited" using Some by (metis map_of_eq_None_iff option.distinct(1))
    then have "map_of new node = None" using new by (auto simp: map_of_eq_None_iff passes_on_def)
    then have "map_of visited' node = Some st" using new Some old by (simp add: passes_on_def map_add_def)
    then have "passes_on nodeInfos stack (fst ` set ((node, a) # nodes)) todo visited todo' visited' new"
      using new s unfolding passes_on_def by auto
    then show ?thesis by blast
  qed
qed

lemma check_connected_fails:
  assumes "check_connected nodeInfos stack nodes todo visited = Some (Inl status)"
    and "\<forall>x\<in>set visited. R x" "\<And>m st. m \<in> fst ` set nodes \<Longrightarrow> stack_after nodeInfos stack m = Some st \<Longrightarrow> R (m, st)"
  shows "status = SC_PIPELINE_WRONG_DEMULTIPLEXER_GATHER_NODES_ORDER \<and>
    (\<exists>m\<in>fst ` set nodes. stack_after nodeInfos stack m = None \<or> (\<exists>y. R (m, y) \<and> stack_after nodeInfos stack m \<noteq> Some y))"
  using assms
proof (induction nodeInfos stack nodes todo visited rule: check_connected.induct)
  case (2 nodeInfos stack node a nodes todo visited)
  obtain info where f: "findNodeByName nodeInfos node = Some info"
    using "2.prems"(1) by (auto split: option.splits)
  show ?case
  proof (cases "connected_stack info stack")
    case None
    then show ?thesis using "2.prems"(1) f by (auto simp: stack_after_def)
  next
    case (Some st)
    note g = f Some
    then have s: "stack_after nodeInfos stack node = Some st" by (simp add: stack_after_def)
    have R: "R (node, st)" using "2.prems"(3) s by simp
    have step: "m \<in> fst ` set nodes \<Longrightarrow> stack_after nodeInfos stack m = Some y \<Longrightarrow> R (m, y)" for m y
      using "2.prems"(3) by simp
    show ?thesis
    proof (cases "map_of visited node")
      case None
      have "\<forall>x\<in>set ((node, st) # visited). R x" using "2.prems"(2) R by simp
      moreover have "check_connected nodeInfos stack nodes ((node, st) # todo) ((node, st) # visited) = Some (Inl status)"
        using "2.prems"(1) g None by simp
      ultimately have "status = SC_PIPELINE_WRONG_DEMULTIPLEXER_GATHER_NODES_ORDER \<and>
        (\<exists>m\<in>fst ` set nodes. stack_after nodeInfos stack m = None \<or> (\<exists>y. R (m, y) \<and> stack_after nodeInfos stack m \<noteq> Some y))"
        by (intro "2.IH"(1) [OF g None] step)
      then show ?thesis by simp
    next
      case (Some old)
      then have "R (node, old)" using "2.prems"(2) by (auto dest: map_of_SomeD)
      show ?thesis
      proof (cases "old = st")
        case True
        then have "check_connected nodeInfos stack nodes todo visited = Some (Inl status)"
          using "2.prems"(1) g Some by simp
        moreover have "\<not> old \<noteq> st" using True by simp
        ultimately have "status = SC_PIPELINE_WRONG_DEMULTIPLEXER_GATHER_NODES_ORDER \<and>
          (\<exists>m\<in>fst ` set nodes. stack_after nodeInfos stack m = None \<or> (\<exists>y. R (m, y) \<and> stack_after nodeInfos stack m \<noteq> Some y))"
          by (intro "2.IH"(2) [OF g Some] step "2.prems"(2))
        then show ?thesis by simp
      next
        case False
        then have "status = SC_PIPELINE_WRONG_DEMULTIPLEXER_GATHER_NODES_ORDER" using "2.prems"(1) g Some by simp
        then show ?thesis using False s \<open>R (node, old)\<close> by auto
      qed
    qed
  qed
qed simp

lemma check_connected_reads:
  assumes "\<forall>m\<in>fst ` set nodes. findNodeByName nodeInfos m \<noteq> None"
  shows "check_connected nodeInfos stack nodes todo visited \<noteq> None"
  using assms
  by (induction nodeInfos stack nodes todo visited rule: check_connected.induct) (auto split: option.splits)

lemma gathers_consistently_with_entry [simp]:
  "gathers_consistently nodeInfos (with_entry connections n) = gathers_consistently nodeInfos connections"
  by (simp add: gathers_consistently_def fun_eq_iff)

lemma reached_with_with_entry [simp]:
  "reached_with nodeInfos (with_entry connections n) = reached_with nodeInfos connections"
  by (simp add: reached_with_def fun_eq_iff)

lemma reached_with_step:
  assumes "reached_with nodeInfos connections start stack b (n, st)" "m \<in> fst ` set (connected_to connections n)"
    and "stack_after nodeInfos st m = Some y"
  shows "reached_with nodeInfos connections start stack True (m, y)"
proof -
  obtain p where "p \<noteq> []" "path_from connections start p" "last p = m"
    "stack_along nodeInfos stack p = stack_after nodeInfos st m"
    using reached_with_extend [OF assms(1,2)] unfolding stack_after_def by blast
  then show ?thesis using assms(3) unfolding reached_with_def by auto
qed

text \<open>
  The invariant of the loop: what is visited was reached, what is not to do any more is closed under
  the connections.
\<close>

definition gather_inv ::
  "'l NodeInfo list \<Rightarrow> pipeline_connections \<Rightarrow> string \<Rightarrow> string set list \<Rightarrow> stacks \<Rightarrow> stacks \<Rightarrow> bool" where
  "gather_inv nodeInfos connections start stack todo visited \<longleftrightarrow>
     (\<forall>x\<in>set visited. reached_with nodeInfos connections start stack True x) \<and>
     set todo \<subseteq> insert (start, stack) (set visited) \<and>
     (\<forall>x\<in>insert (start, stack) (set visited) - set todo. \<forall>m\<in>fst ` set (connected_to connections (fst x)).
        stack_after nodeInfos (snd x) m \<noteq> None \<and> stack_after nodeInfos (snd x) m = map_of visited m)"

lemma gather_inv_closed:
  "gather_inv nodeInfos connections start stack todo visited \<Longrightarrow>
     \<forall>x\<in>insert (start, stack) (set visited) - set todo. \<forall>m\<in>fst ` set (connected_to connections (fst x)).
       stack_after nodeInfos (snd x) m \<noteq> None \<and> stack_after nodeInfos (snd x) m = map_of visited m"
  unfolding gather_inv_def by (elim conjE)

lemma gather_inv_start: "gather_inv nodeInfos connections start stack [(start, stack)] []"
  by (simp add: gather_inv_def)

lemma gather_inv_reached:
  assumes "gather_inv nodeInfos connections start stack ((n, st) # todo) visited"
  shows "reached_with nodeInfos connections start stack False (n, st)"
proof -
  have "(n, st) = (start, stack) \<or> (n, st) \<in> set visited" using assms by (auto simp: gather_inv_def)
  then show ?thesis
  proof
    assume "(n, st) = (start, stack)"
    then show ?thesis by (auto simp: reached_with_def path_from_def intro!: exI [of _ "[]"])
  next
    assume "(n, st) \<in> set visited"
    then have "reached_with nodeInfos connections start stack True (n, st)"
      using assms unfolding gather_inv_def by blast
    then show ?thesis unfolding reached_with_def by blast
  qed
qed

lemma gather_inv_step:
  assumes inv: "gather_inv nodeInfos connections start stack ((n, st) # todo) visited"
    and new: "passes_on nodeInfos st (fst ` set (connected_to connections n)) todo visited todo' visited' new"
  shows "gather_inv nodeInfos connections start stack todo' visited'"
proof -
  have v: "todo' = new @ todo" "visited' = new @ visited" "fst ` set new \<inter> fst ` set visited = {}"
    using new by (simp_all add: passes_on_def)
  have "reached_with nodeInfos connections start stack True x" if "x \<in> set new" for x
    using reached_with_step [OF gather_inv_reached [OF inv], of "fst x" "snd x"] that new
    by (simp add: passes_on_def)
  then have c1: "\<forall>x\<in>set visited'. reached_with nodeInfos connections start stack True x"
    using inv v by (auto simp: gather_inv_def)
  have c2: "set todo' \<subseteq> insert (start, stack) (set visited')" using inv unfolding v gather_inv_def by auto
  have c3: "stack_after nodeInfos (snd x) m \<noteq> None \<and> stack_after nodeInfos (snd x) m = map_of visited' m"
    if x: "x \<in> insert (start, stack) (set visited') - set todo'" and m: "m \<in> fst ` set (connected_to connections (fst x))" for x m
  proof (cases "x = (n, st)")
    case True
    have "\<forall>m\<in>fst ` set (connected_to connections n). stack_after nodeInfos st m \<noteq> None \<and> stack_after nodeInfos st m = map_of visited' m"
      using new unfolding passes_on_def by blast
    then show ?thesis using m unfolding True by (metis fst_conv snd_conv)
  next
    case False
    moreover have "x \<in> insert (start, stack) (set (new @ visited)) - set (new @ todo)" using x unfolding v .
    ultimately have "x \<in> insert (start, stack) (set visited) - set ((n, st) # todo)" by (simp, blast)
    then have old: "stack_after nodeInfos (snd x) m \<noteq> None" "stack_after nodeInfos (snd x) m = map_of visited m"
      using bspec [OF bspec [OF gather_inv_closed [OF inv]] m] by blast+
    then have "map_of new m = None" using v(3) by (metis disjoint_iff map_of_eq_None_iff)
    then show ?thesis using old v(2) by (simp add: map_add_def)
  qed
  show ?thesis unfolding gather_inv_def by (rule conjI [OF c1 conjI [OF c2]], intro ballI, rule c3)
qed

lemma gather_inv_done:
  assumes inv: "gather_inv nodeInfos connections start stack [] visited"
  shows "p \<noteq> [] \<Longrightarrow> path_from connections start p \<Longrightarrow>
    stack_along nodeInfos stack p \<noteq> None \<and> stack_along nodeInfos stack p = map_of visited (last p)"
proof (induction p rule: rev_induct)
  case (snoc m p)
  have p: "path_from connections start p" "m \<in> fst ` set (connected_to connections (last (start # p)))"
    using snoc.prems by (auto simp: path_from_snoc)
  obtain st where st: "stack_along nodeInfos stack p = Some st" "(last (start # p), st) \<in> insert (start, stack) (set visited)"
  proof (cases "p = []")
    case False
    then obtain st where "stack_along nodeInfos stack p = Some st" "map_of visited (last p) = Some st"
      using snoc.IH p(1) by force
    then show thesis using that False by (simp add: map_of_SomeD)
  qed (use that in simp)
  have "stack_after nodeInfos st m \<noteq> None \<and> stack_after nodeInfos st m = map_of visited m"
    using inv st(2) p(2) unfolding gather_inv_def by fastforce
  then show ?case using st(1) by (auto simp: stack_along_append stack_after_def split: option.splits)
qed simp

lemma path_from_reaches: "path_from connections start p \<Longrightarrow> (start, last (start # p)) \<in> (depends_on connections)\<^sup>*"
proof (induction p rule: rev_induct)
  case (snoc m p)
  then have "(start, last (start # p)) \<in> (depends_on connections)\<^sup>*" "(last (start # p), m) \<in> depends_on connections"
    by (auto simp: path_from_snoc depends_on_def)
  then show ?case by (simp add: rtrancl_into_rtrancl)
qed simp

text \<open>Every name that the connections lead to from a node is the name of a node.\<close>

definition leads_to_nodes :: "'l NodeInfo list \<Rightarrow> pipeline_connections \<Rightarrow> string \<Rightarrow> bool" where
  "leads_to_nodes nodeInfos connections start \<longleftrightarrow>
     (\<forall>m. (start, m) \<in> (depends_on connections)\<^sup>+ \<longrightarrow> findNodeByName nodeInfos m \<noteq> None)"

lemma leads_to_nodes_with_entry [simp]:
  "leads_to_nodes nodeInfos (with_entry connections n) = leads_to_nodes nodeInfos connections"
  by (simp add: leads_to_nodes_def fun_eq_iff)

lemma reaches_names: "(start, m) \<in> (depends_on connections)\<^sup>+ \<Longrightarrow> m \<in> names_in connections"
  by (erule trancl.cases) (use connected_to_names in \<open>auto simp: depends_on_def\<close>)

lemma gather_loop_exact:
  assumes "gather_inv nodeInfos connections start stack todo visited"
    and "leads_to_nodes nodeInfos connections start"
  shows "\<exists>connections'. gather_loop nodeInfos todo visited connections =
    Some (if gathers_consistently nodeInfos connections start stack then SC_OK
      else SC_PIPELINE_WRONG_DEMULTIPLEXER_GATHER_NODES_ORDER, connections')"
  using assms
proof (induction nodeInfos todo visited connections rule: gather_loop.induct)
  case (1 nodeInfos visited connections)
  note all = gather_inv_done [OF "1.prems"(1)]
  have "gathers_consistently nodeInfos connections start stack"
    unfolding gathers_consistently_def using all by (metis (no_types, lifting))
  then show ?case by (simp add: gather_loop.simps)
next
  case (2 nodeInfos n st todo visited connections)
  let ?ms = "connected_to connections n"
  have "(start, n) \<in> (depends_on connections)\<^sup>*"
    using gather_inv_reached [OF "2.prems"(1)] path_from_reaches unfolding reached_with_def by (metis fst_conv)
  then have "(start, m) \<in> (depends_on connections)\<^sup>+" if "m \<in> fst ` set ?ms" for m
    by (rule rtrancl_into_trancl1) (use that in \<open>simp add: depends_on_def\<close>)
  then have "\<forall>m\<in>fst ` set ?ms. findNodeByName nodeInfos m \<noteq> None"
    using "2.prems"(2) unfolding leads_to_nodes_def by blast
  then obtain r where r: "check_connected nodeInfos st ?ms todo visited = Some r"
    using check_connected_reads [of ?ms nodeInfos st todo visited] by blast
  show ?case
  proof (cases r)
    case (Inl status)
    let ?R = "reached_with nodeInfos connections start stack True"
    have "\<forall>x\<in>set visited. ?R x" using "2.prems"(1) by (simp add: gather_inv_def)
    then obtain m where m: "status = SC_PIPELINE_WRONG_DEMULTIPLEXER_GATHER_NODES_ORDER" "m \<in> fst ` set ?ms"
      "stack_after nodeInfos st m = None \<or> (\<exists>y. ?R (m, y) \<and> stack_after nodeInfos st m \<noteq> Some y)"
      using check_connected_fails [OF r [unfolded Inl], of ?R]
        reached_with_step [OF gather_inv_reached [OF "2.prems"(1)]] by blast
    obtain p where "p \<noteq> []" "path_from connections start p" "last p = m"
      "stack_along nodeInfos stack p = stack_after nodeInfos st m"
      using reached_with_extend [OF gather_inv_reached [OF "2.prems"(1)] m(2)] unfolding stack_after_def by blast
    then have "\<not> gathers_consistently nodeInfos connections start stack" using m(3) by (rule inconsistent_paths)
    then show ?thesis using r Inl m(1) by (simp add: gather_loop.simps)
  next
    case (Inr b)
    obtain todo' visited' where b: "b = (todo', visited')" by (cases b)
    obtain new where "passes_on nodeInfos st (fst ` set ?ms) todo visited todo' visited' new"
      using check_connected_passes r Inr b by blast
    from gather_inv_step [OF "2.prems"(1) this]
    have "gather_inv nodeInfos (with_entry connections n) start stack todo' visited'"
      unfolding gather_inv_def connected_to_with_entry reached_with_with_entry .
    then show ?thesis using "2.IH" [OF r Inr b [symmetric]] "2.prems"(2) r Inr b by (simp add: gather_loop.simps)
  qed
qed

lemma validateDemultiplexerGatherNodesOrder_exact:
  assumes "exit_node nodeInfos = Some info" "leads_to_nodes nodeInfos connections (ni_nodeName info)"
  shows "\<exists>connections'. validateDemultiplexerGatherNodesOrder nodeInfos connections =
    Some (if gathers_consistently nodeInfos connections (ni_nodeName info) (first_stack info) then SC_OK
      else SC_PIPELINE_WRONG_DEMULTIPLEXER_GATHER_NODES_ORDER, connections')"
  using gather_loop_exact [OF gather_inv_start assms(2)] assms(1)
  by (simp add: validateDemultiplexerGatherNodesOrder_def)

section \<open>What the searches leave\<close>

text \<open>The searches only add empty entries.\<close>

lemma cycle_loop_graph: "connected_to (snd (cycle_loop k visited parents n connections)) = connected_to connections"
proof (induction k visited parents n connections rule: cycle_loop.induct)
  case (1 k visited parents n connections)
  then show ?case
    by (subst cycle_loop.simps) (auto simp: Let_def fun_eq_iff split: scan.split)
qed

lemma validateForCycles_graph: "connected_to (snd (validateForCycles nodeInfos connections)) = connected_to connections"
  by (simp add: validateForCycles_def cycle_loop_graph split: option.split)

lemma gather_loop_graph:
  "gather_loop nodeInfos todo visited connections = Some (s, connections') \<Longrightarrow> connected_to connections' = connected_to connections"
proof (induction nodeInfos todo visited connections rule: gather_loop.induct)
  case (2 nodeInfos n st todo visited connections)
  show ?case
  proof (cases "check_connected nodeInfos st (connected_to connections n) todo visited")
    case (Some r)
    then show ?thesis using "2.IH" [OF Some] "2.prems"
      by (cases r) (auto simp: gather_loop.simps fun_eq_iff)
  qed (use "2.prems" in \<open>simp add: gather_loop.simps\<close>)
qed (simp add: gather_loop.simps)

lemma gather_order_graph:
  "validateDemultiplexerGatherNodesOrder nodeInfos connections = Some (s, connections') \<Longrightarrow>
     connected_to connections' = connected_to connections"
  using gather_loop_graph by (auto simp: validateDemultiplexerGatherNodesOrder_def split: option.split_asm)

text \<open>The graph only depends on what the nodes are connected to.\<close>

lemma same_graph:
  assumes "connected_to connections' = connected_to connections"
  shows "depends_on connections' = depends_on connections" "path_from connections' = path_from connections"
    "gathers_consistently nodeInfos connections' = gathers_consistently nodeInfos connections"
proof -
  show d: "depends_on connections' = depends_on connections" using assms by (simp add: depends_on_def)
  show p: "path_from connections' = path_from connections" by (simp add: path_from_def d fun_eq_iff)
  show "gathers_consistently nodeInfos connections' = gathers_consistently nodeInfos connections"
    by (simp add: gathers_consistently_def p fun_eq_iff)
qed

lemma findNodeByName_Some:
  "findNodeByName nodeInfos n = Some info \<Longrightarrow> info \<in> set nodeInfos \<and> ni_nodeName info = n"
  by (auto simp: findNodeByName_def find_Some_iff)

lemma findNodeByName_None: "findNodeByName nodeInfos n = None \<longleftrightarrow> n \<notin> ni_nodeName ` set nodeInfos"
  by (auto simp: findNodeByName_def find_None_iff)

lemma exit_node_Some: "exit_node nodeInfos = Some info \<Longrightarrow> info \<in> set nodeInfos \<and> ni_kind info = EXIT"
  by (auto simp: exit_node_def find_Some_iff)

text \<open>A search that finds no cycle leaves an entry for every node it visited.\<close>

definition has_entry :: "pipeline_connections \<Rightarrow> string \<Rightarrow> bool" where
  "has_entry connections n \<longleftrightarrow> map_of connections n \<noteq> None"

lemma has_entry_with_entry: "has_entry (with_entry connections n) m \<longleftrightarrow> m = n \<or> has_entry connections m"
  by (auto simp: has_entry_def with_entry_def map_add_def split: option.split)

lemma cycle_loop_entries:
  assumes "cycle_loop k visited parents n connections = (SC_OK, connections')"
    and "\<forall>m\<in>finished_nodes visited parents n \<union> set parents. has_entry connections m"
    and "search_inv E start visited parents n" "E = depends_on connections"
  shows "\<exists>visited'. (\<forall>m\<in>set visited'. has_entry connections' m) \<and> E\<^sup>* `` {start} \<subseteq> set visited'"
  using assms
proof (induction k visited parents n connections rule: cycle_loop.induct)
  case (1 k visited parents n connections)
  have img: "E `` {n} = fst ` set (connected_to connections n)" using "1.prems"(4) by (auto simp: depends_on_def)
  note scan = scan_connected_cases [where n = n and visited = visited and parents = parents and ms = "connected_to connections n", folded img]
  have E: "E = depends_on (with_entry connections n)" using "1.prems"(4) by simp
  show ?case
  proof (cases "scan_connected n visited parents (connected_to connections n)")
    case CycleHere
    then show ?thesis using "1.prems"(1) unfolding cycle_loop.simps [of k visited parents n connections] by (simp add: Let_def)
  next
    case (Descend m)
    have "(n, m) \<in> E" "m \<notin> set visited" using scan Descend by auto
    note inv = search_step_down [OF "1.prems"(3) this]
    have "cycle_loop k (visited @ [m]) (parents @ [n]) m (with_entry connections n) = (SC_OK, connections')"
      using "1.prems"(1) Descend by (subst (asm) cycle_loop.simps) (simp add: Let_def)
    moreover have "\<forall>x\<in>finished_nodes (visited @ [m]) (parents @ [n]) m \<union> set (parents @ [n]). has_entry (with_entry connections n) x"
      using "1.prems"(2) \<open>m \<notin> set visited\<close> by (auto simp: has_entry_with_entry finished_nodes_def)
    ultimately show ?thesis using "1.IH"(1) [OF refl Descend _ _ inv E] by blast
  next
    case Exhausted
    have out: "\<forall>m\<in>E `` {n}. m \<noteq> n \<and> m \<in> set visited \<and> m \<notin> set parents" using scan Exhausted by simp
    show ?thesis
    proof (cases "parents = []")
      case True
      have inv: "n = start" "n \<in> set visited" using "1.prems"(3) True by (auto simp: search_inv_def)
      have v: "insert n (finished_nodes visited parents n) = set visited" using inv(2) True by (auto simp: finished_nodes_def)
      have "connections' = with_entry connections n"
        using "1.prems"(1) Exhausted True by (subst (asm) cycle_loop.simps) (simp add: Let_def split: if_split_asm)
      then have "\<forall>m\<in>set visited. has_entry connections' m" using "1.prems"(2) v by (auto simp: has_entry_with_entry)
      moreover have closed: "E `` set visited \<subseteq> set visited" using search_finish(1) [OF "1.prems"(3) out] v by blast
      have "x \<in> set visited" if "(start, x) \<in> E\<^sup>*" for x
        using rtrancl_stays [OF closed that] inv by simp
      then have "E\<^sup>* `` {start} \<subseteq> set visited" by blast
      ultimately show ?thesis by blast
    next
      case False
      note inv = search_step_up [OF "1.prems"(3) False out]
      have l: "butlast parents @ [last parents] = parents" using False by simp
      have "cycle_loop k visited (butlast parents) (last parents) (with_entry connections n) = (SC_OK, connections')"
        using "1.prems"(1) Exhausted False by (subst (asm) cycle_loop.simps) (simp add: Let_def)
      moreover have "\<forall>x\<in>finished_nodes visited (butlast parents) (last parents) \<union> set (butlast parents). has_entry (with_entry connections n) x"
        using "1.prems"(2) by (auto simp: has_entry_with_entry finished_nodes_def l dest: in_set_butlastD)
      ultimately show ?thesis using "1.IH"(2) [OF refl Exhausted False _ _ inv E] by blast
    qed
  qed
qed

lemma validateForCycles_entries:
  assumes "validateForCycles nodeInfos connections = (SC_OK, connections')" "exit_node nodeInfos = Some e"
    and "m \<in> (depends_on connections)\<^sup>* `` {ni_nodeName e}"
  shows "has_entry connections' m"
proof -
  have "search_inv (depends_on connections) (ni_nodeName e) [ni_nodeName e] [] (ni_nodeName e)"
    by (auto simp: search_inv_def finished_nodes_def)
  moreover have "cycle_loop (length nodeInfos) [ni_nodeName e] [] (ni_nodeName e) connections = (SC_OK, connections')"
    using assms(1,2) by (simp add: validateForCycles_def)
  moreover have "\<forall>x\<in>finished_nodes [ni_nodeName e] [] (ni_nodeName e) \<union> set []. has_entry connections x"
    by (simp add: finished_nodes_def)
  ultimately show ?thesis using cycle_loop_entries assms(3) by blast
qed

lemma gather_loop_entries:
  "gather_loop nodeInfos todo visited connections = Some (s, connections') \<Longrightarrow> has_entry connections m \<Longrightarrow> has_entry connections' m"
proof (induction nodeInfos todo visited connections rule: gather_loop.induct)
  case (2 nodeInfos n st todo visited connections)
  show ?case
  proof (cases "check_connected nodeInfos st (connected_to connections n) todo visited")
    case (Some r)
    then show ?thesis using "2.IH" [OF Some] "2.prems"
      by (cases r) (auto simp: gather_loop.simps has_entry_with_entry)
  qed (use "2.prems" in \<open>simp add: gather_loop.simps\<close>)
qed (simp add: gather_loop.simps)

lemma gather_order_entries:
  "validateDemultiplexerGatherNodesOrder nodeInfos connections = Some (s, connections') \<Longrightarrow> has_entry connections m \<Longrightarrow>
     has_entry connections' m"
  using gather_loop_entries by (fastforce simp: validateDemultiplexerGatherNodesOrder_def split: option.split_asm)

text \<open>What is open in the stack at the start of a path is closed on the path or still open at its end.\<close>

lemma connected_stack_closes:
  "connected_stack info stack = Some stack' \<Longrightarrow> \<Union> (set stack) \<subseteq> insert (ni_nodeName info) (\<Union> (set stack'))"
  by (auto simp: connected_stack_def pop_demultiplexer_def Let_def split: list.split_asm if_split_asm option.split_asm)

lemma stack_along_closes:
  "stack_along nodeInfos stack p = Some stack' \<Longrightarrow> \<Union> (set stack) \<subseteq> set p \<union> \<Union> (set stack')"
proof (induction p arbitrary: stack)
  case (Cons n ns)
  obtain info new where i: "findNodeByName nodeInfos n = Some info" "connected_stack info stack = Some new"
    "stack_along nodeInfos new ns = Some stack'"
    using Cons.prems by (auto split: option.split_asm)
  have "ni_nodeName info = n" using findNodeByName_Some [OF i(1)] by simp
  then show ?case using connected_stack_closes [OF i(2)] Cons.IH [OF i(3)] by auto
qed simp

lemma stack_at_entry:
  assumes "stack_along nodeInfos stack (p @ [n]) = Some stack'" "findNodeByName nodeInfos n = Some info" "ni_kind info = ENTRY"
  shows "stack' = []"
  using assms by (auto simp: stack_along_append connected_stack_def Let_def split: option.split_asm if_split_asm)

section \<open>The order of gathering, without stacks\<close>

text \<open>
  The specification of the check. Along the nodes \<open>ps\<close> of a path from the exit node, \<open>m\<close> says for each
  position of a demultiplexer which position gathers from it. What a position still has to get back
  before position \<open>j\<close> is what it gathers from without the demultiplexers it got between.
\<close>

definition still_open :: "'l NodeInfo list \<Rightarrow> (nat \<Rightarrow> nat) \<Rightarrow> nat \<Rightarrow> nat \<Rightarrow> string set" where
  "still_open ps m i j =
     ni_gatherFromNode (ps ! i) -
     {ni_nodeName (ps ! k) | k. 0 < k \<and> k < j \<and> ni_demultiplyCount (ps ! k) \<noteq> None \<and> m k = i}"

text \<open>
  Every demultiplexer is gathered once, by a position before it that gathers from it, and everything
  that gathers between the two is complete; at an entry node nothing is left.
\<close>

definition gathers_in_order :: "'l NodeInfo list \<Rightarrow> (nat \<Rightarrow> nat) \<Rightarrow> bool" where
  "gathers_in_order ps m \<longleftrightarrow>
     (\<forall>j. 0 < j \<and> j < length ps \<and> ni_demultiplyCount (ps ! j) \<noteq> None \<longrightarrow>
        m j < j \<and> ni_nodeName (ps ! j) \<in> still_open ps m (m j) j \<and>
        (\<forall>i. m j < i \<and> i < j \<longrightarrow> still_open ps m i j = {})) \<and>
     (\<forall>e. 0 < e \<and> e < length ps \<and> ni_kind (ps ! e) = ENTRY \<longrightarrow> (\<forall>i\<le>e. still_open ps m i (Suc e) = {}))"

text \<open>What is left at the end of the path, the latest first.\<close>

definition open_levels :: "'l NodeInfo list \<Rightarrow> (nat \<Rightarrow> nat) \<Rightarrow> string set list" where
  "open_levels ps m = filter (\<lambda>G. G \<noteq> {}) (map (\<lambda>i. still_open ps m i (length ps)) (rev [0..<length ps]))"

definition nodes_along :: "'l NodeInfo list \<Rightarrow> 'l NodeInfo \<Rightarrow> string list \<Rightarrow> 'l NodeInfo list" where
  "nodes_along nodeInfos start p = start # map (\<lambda>n. the (findNodeByName nodeInfos n)) p"

definition gather_order_ok :: "'l NodeInfo list \<Rightarrow> pipeline_connections \<Rightarrow> 'l NodeInfo \<Rightarrow> bool" where
  "gather_order_ok nodeInfos connections start \<longleftrightarrow>
     (\<forall>p. p \<noteq> [] \<and> path_from connections (ni_nodeName start) p \<longrightarrow>
        (\<exists>m. gathers_in_order (nodes_along nodeInfos start p) m)) \<and>
     (\<forall>p q m m'. p \<noteq> [] \<and> q \<noteq> [] \<and> last p = last q \<and>
        path_from connections (ni_nodeName start) p \<and> path_from connections (ni_nodeName start) q \<and>
        gathers_in_order (nodes_along nodeInfos start p) m \<and> gathers_in_order (nodes_along nodeInfos start q) m' \<longrightarrow>
        open_levels (nodes_along nodeInfos start p) m = open_levels (nodes_along nodeInfos start q) m')"

text \<open>The stack of the code is what is left.\<close>

primrec stack_over :: "string set list \<Rightarrow> 'l NodeInfo list \<Rightarrow> string set list option" where
  "stack_over stack [] = Some stack"
| "stack_over stack (x # xs) = (case connected_stack x stack of None \<Rightarrow> None | Some st \<Rightarrow> stack_over st xs)"

lemma stack_over_snoc:
  "stack_over stack (xs @ [x]) = (case stack_over stack xs of None \<Rightarrow> None | Some st \<Rightarrow> connected_stack x st)"
  by (induction xs arbitrary: stack) (auto split: option.split)

lemma stack_along_over:
  assumes "\<forall>n\<in>set p. findNodeByName nodeInfos n \<noteq> None"
  shows "stack_along nodeInfos stack p = stack_over stack (map (\<lambda>n. the (findNodeByName nodeInfos n)) p)"
  using assms by (induction p arbitrary: stack) (auto split: option.split)

lemma still_open_grow: "i < length ps \<Longrightarrow> j \<le> length ps \<Longrightarrow> still_open (ps @ qs) m i j = still_open ps m i j"
proof -
  assume i: "i < length ps" "j \<le> length ps"
  have "(ps @ qs) ! k = ps ! k" if "k < j" for k using i(2) that by (simp add: nth_append)
  then have "{ni_nodeName ((ps @ qs) ! k) | k. 0 < k \<and> k < j \<and> ni_demultiplyCount ((ps @ qs) ! k) \<noteq> None \<and> m k = i} =
      {ni_nodeName (ps ! k) | k. 0 < k \<and> k < j \<and> ni_demultiplyCount (ps ! k) \<noteq> None \<and> m k = i}"
    by (intro Collect_cong) metis
  then show ?thesis using i(1) by (simp add: still_open_def nth_append)
qed

lemma still_open_cong: "(\<And>k. k < j \<Longrightarrow> m k = m' k) \<Longrightarrow> still_open ps m i j = still_open ps m' i j"
  by (auto simp: still_open_def)

lemma still_open_Suc:
  "0 < j \<Longrightarrow> still_open ps m i (Suc j) =
     (if ni_demultiplyCount (ps ! j) \<noteq> None \<and> m j = i then still_open ps m i j - {ni_nodeName (ps ! j)} else still_open ps m i j)"
  by (auto simp: still_open_def less_Suc_eq)

lemma gathers_in_order_snoc:
  assumes "ps \<noteq> []"
  shows "gathers_in_order (ps @ [x]) m \<longleftrightarrow> gathers_in_order ps m \<and>
    (ni_demultiplyCount x \<noteq> None \<longrightarrow> m (length ps) < length ps \<and> ni_nodeName x \<in> still_open ps m (m (length ps)) (length ps) \<and>
       (\<forall>i. m (length ps) < i \<and> i < length ps \<longrightarrow> still_open ps m i (length ps) = {})) \<and>
    (ni_kind x = ENTRY \<longrightarrow> (\<forall>i\<le>length ps. still_open (ps @ [x]) m i (Suc (length ps)) = {}))"
proof -
  let ?k = "length ps"
  let ?demux = "\<lambda>ps j. m j < j \<and> ni_nodeName (ps ! j) \<in> still_open ps m (m j) j \<and> (\<forall>i. m j < i \<and> i < j \<longrightarrow> still_open ps m i j = {})"
  let ?entry = "\<lambda>ps e. \<forall>i\<le>e. still_open ps m i (Suc e) = {}"
  have old: "still_open (ps @ [x]) m i j = still_open ps m i j" if "i < j" "j \<le> ?k" for i j
    using that by (intro still_open_grow) auto
  have d: "?demux (ps @ [x]) j \<longleftrightarrow> ?demux ps j" if "j < ?k" for j
    using that old by (auto simp: nth_append)
  have dk: "?demux (ps @ [x]) ?k \<longleftrightarrow> m ?k < ?k \<and> ni_nodeName x \<in> still_open ps m (m ?k) ?k \<and>
      (\<forall>i. m ?k < i \<and> i < ?k \<longrightarrow> still_open ps m i ?k = {})"
    using old by (auto simp: nth_append)
  have e: "?entry (ps @ [x]) e \<longleftrightarrow> ?entry ps e" if "e < ?k" for e
    using that old by auto
  have all: "(\<forall>j. 0 < j \<and> j < length (ps @ [x]) \<and> D (ps @ [x]) j \<longrightarrow> P (ps @ [x]) j) \<longleftrightarrow>
      (\<forall>j. 0 < j \<and> j < ?k \<and> D ps j \<longrightarrow> P ps j) \<and> (D (ps @ [x]) ?k \<longrightarrow> P (ps @ [x]) ?k)"
    if "\<And>j. j < ?k \<Longrightarrow> D (ps @ [x]) j = D ps j" "\<And>j. j < ?k \<Longrightarrow> P (ps @ [x]) j = P ps j"
    for D P :: "'a NodeInfo list \<Rightarrow> nat \<Rightarrow> bool"
    using assms that by (auto simp: less_Suc_eq)
  show ?thesis
    unfolding gathers_in_order_def conj_assoc [symmetric, of "0 < _"]
    using all [of "\<lambda>ps j. ni_demultiplyCount (ps ! j) \<noteq> None" ?demux, OF _ d]
      all [of "\<lambda>ps e. ni_kind (ps ! e) = ENTRY" ?entry, OF _ e] dk by (simp add: nth_append conj_ac)
qed

lemma open_levels_start: "open_levels [x] m = first_stack x"
  by (simp add: open_levels_def first_stack_def still_open_def)

text \<open>The top of the stack belongs to the last position that still has something open.\<close>

abbreviation nonempty_sets :: "(nat \<Rightarrow> string set) \<Rightarrow> nat \<Rightarrow> string set list" where
  "nonempty_sets L k \<equiv> filter (\<lambda>G. G \<noteq> {}) (map L (rev [0..<k]))"

lemma nonempty_sets_top:
  assumes "i < k" "\<forall>i'. i < i' \<and> i' < k \<longrightarrow> L i' = {}"
  shows "nonempty_sets L k = (if L i = {} then [] else [L i]) @ nonempty_sets L i"
  using assms
proof (induction k)
  case (Suc k)
  then show ?case by (cases "i = k") auto
qed simp

lemma nonempty_sets_Cons:
  "nonempty_sets L k = G # st \<Longrightarrow> \<exists>i<k. L i = G \<and> (\<forall>i'. i < i' \<and> i' < k \<longrightarrow> L i' = {}) \<and> nonempty_sets L i = st"
proof (induction k)
  case (Suc k)
  show ?case
  proof (cases "L k = {}")
    case True
    then obtain i where "i < k" "L i = G" "\<forall>i'. i < i' \<and> i' < k \<longrightarrow> L i' = {}" "nonempty_sets L i = st"
      using Suc by auto
    then show ?thesis using True by (intro exI [of _ i]) (auto simp: less_Suc_eq)
  next
    case False
    then show ?thesis using Suc.prems by (intro exI [of _ k]) auto
  qed
qed simp

lemma nonempty_sets_cong: "(\<And>i. i < k \<Longrightarrow> L i = L' i) \<Longrightarrow> nonempty_sets L k = nonempty_sets L' k"
  by (intro arg_cong [where f = "filter (\<lambda>G. G \<noteq> {})"] map_cong) auto

lemma nonempty_sets_Nil: "nonempty_sets L k = [] \<longleftrightarrow> (\<forall>i<k. L i = {})"
  by (induction k) (auto simp: less_Suc_eq)

lemma connected_stack_iff:
  assumes "\<forall>G\<in>set st. G \<noteq> {}"
  shows "connected_stack x st = Some st' \<longleftrightarrow>
    (\<exists>popped. (if ni_demultiplyCount x = None then popped = st
       else st \<noteq> [] \<and> ni_nodeName x \<in> hd st \<and>
         popped = (if hd st - {ni_nodeName x} = {} then tl st else (hd st - {ni_nodeName x}) # tl st)) \<and>
     st' = (if ni_gatherFromNode x = {} then popped else ni_gatherFromNode x # popped) \<and> (ni_kind x = ENTRY \<longrightarrow> st' = []))"
  by (auto simp: connected_stack_def pop_demultiplexer_def Let_def split: option.splits list.splits if_splits)

text \<open>One node more: the levels change the way the code changes its stack.\<close>

definition gathered_at :: "'l NodeInfo \<Rightarrow> (nat \<Rightarrow> nat) \<Rightarrow> nat \<Rightarrow> nat \<Rightarrow> string set" where
  "gathered_at x m k i = (if ni_demultiplyCount x \<noteq> None \<and> m k = i then {ni_nodeName x} else {})"

lemma open_levels_snoc:
  assumes "ps \<noteq> []" "gathers_in_order ps m" "ni_demultiplyCount x \<noteq> None \<longrightarrow> m (length ps) < length ps"
  shows "open_levels (ps @ [x]) m = (if ni_gatherFromNode x = {} then [] else [ni_gatherFromNode x]) @
    nonempty_sets (\<lambda>i. still_open ps m i (length ps) - gathered_at x m (length ps) i) (length ps)"
proof -
  let ?k = "length ps"
  have "still_open (ps @ [x]) m i (Suc ?k) = still_open ps m i ?k - gathered_at x m ?k i" if "i < ?k" for i
    using assms(1) that by (auto simp: still_open_Suc still_open_grow gathered_at_def)
  then have "nonempty_sets (\<lambda>i. still_open (ps @ [x]) m i (Suc ?k)) ?k =
      nonempty_sets (\<lambda>i. still_open ps m i ?k - gathered_at x m ?k i) ?k"
    by (rule nonempty_sets_cong)
  moreover have "still_open (ps @ [x]) m ?k (Suc ?k) = ni_gatherFromNode x"
  proof -
    have "m k \<noteq> ?k" if "0 < k" "k < Suc ?k" "ni_demultiplyCount ((ps @ [x]) ! k) \<noteq> None" for k
    proof (cases "k = ?k")
      case False
      then have "m k < k" using assms(2) that by (auto simp: gathers_in_order_def nth_append)
      then show ?thesis using that(2) by simp
    qed (use assms(3) that(3) in auto)
    then show ?thesis by (auto simp: still_open_def)
  qed
  ultimately show ?thesis by (simp add: open_levels_def)
qed

lemma gathers_in_order_cong:
  assumes "\<And>k. k < length ps \<Longrightarrow> m k = m' k" "gathers_in_order ps m"
  shows "gathers_in_order ps m'"
proof -
  have "still_open ps m i j = still_open ps m' i j" if "j \<le> length ps" for i j
    using assms(1) that by (intro still_open_cong) simp
  then show ?thesis using assms unfolding gathers_in_order_def by (metis Suc_leI less_imp_le_nat)
qed

lemma open_levels_eq: "open_levels ps m = nonempty_sets (\<lambda>i. still_open ps m i (length ps)) (length ps)"
  by (simp add: open_levels_def)

lemma at_entry: "(\<forall>i\<le>length ps. still_open (ps @ [x]) m i (Suc (length ps)) = {}) \<longleftrightarrow> open_levels (ps @ [x]) m = []"
  by (simp add: open_levels_eq nonempty_sets_Nil less_Suc_eq_le del: upt_Suc)

lemma one_more_node:
  assumes ps: "ps \<noteq> []" and ok: "gathers_in_order ps m"
  shows "connected_stack x (open_levels ps m) = Some st \<longleftrightarrow>
    (\<exists>i. gathers_in_order (ps @ [x]) (m(length ps := i)) \<and> open_levels (ps @ [x]) (m(length ps := i)) = st)"
proof -
  let ?k = "length ps" and ?L = "\<lambda>i. still_open ps m i (length ps)"
  let ?push = "if ni_gatherFromNode x = {} then [] else [ni_gatherFromNode x]"
  have ok': "gathers_in_order ps (m(?k := i))" for i by (rule gathers_in_order_cong [OF _ ok]) simp
  have L: "still_open ps (m(?k := i)) i' ?k = ?L i'" for i i' by (rule still_open_cong) simp
  have g: "gathered_at x (m(?k := i)) ?k i' = (if ni_demultiplyCount x \<noteq> None \<and> i = i' then {ni_nodeName x} else {})" for i i'
    by (simp add: gathered_at_def)
  have step: "gathers_in_order (ps @ [x]) (m(?k := i)) \<longleftrightarrow>
      (ni_demultiplyCount x \<noteq> None \<longrightarrow> i < ?k \<and> ni_nodeName x \<in> ?L i \<and> (\<forall>i'. i < i' \<and> i' < ?k \<longrightarrow> ?L i' = {})) \<and>
      (ni_kind x = ENTRY \<longrightarrow> open_levels (ps @ [x]) (m(?k := i)) = [])" for i
    using ok' [of i] by (auto simp: gathers_in_order_snoc [OF ps] at_entry L)
  have ne: "\<forall>G\<in>set (open_levels ps m). G \<noteq> {}" by (auto simp: open_levels_def)
  show ?thesis
  proof (cases "ni_demultiplyCount x = None")
    case True
    then have "open_levels (ps @ [x]) (m(?k := i)) = ?push @ open_levels ps m" for i
      using open_levels_snoc [OF ps ok', of x i] by (simp add: L g open_levels_eq)
    then show ?thesis using True by (auto simp: connected_stack_iff [OF ne] step)
  next
    case False
    have lv: "open_levels (ps @ [x]) (m(?k := i)) = ?push @
        (if ?L i - {ni_nodeName x} = {} then [] else [?L i - {ni_nodeName x}]) @ nonempty_sets ?L i"
      and old: "open_levels ps m = (if ?L i = {} then [] else [?L i]) @ nonempty_sets ?L i"
      if "i < ?k" "\<forall>i'. i < i' \<and> i' < ?k \<longrightarrow> ?L i' = {}" for i
    proof -
      have "nonempty_sets (\<lambda>i'. ?L i' - gathered_at x (m(?k := i)) ?k i') i = nonempty_sets ?L i"
        by (rule nonempty_sets_cong) (simp add: g)
      then show "open_levels (ps @ [x]) (m(?k := i)) = ?push @
        (if ?L i - {ni_nodeName x} = {} then [] else [?L i - {ni_nodeName x}]) @ nonempty_sets ?L i"
        using open_levels_snoc [OF ps ok', of x i] False that
          nonempty_sets_top [of i ?k "\<lambda>i'. ?L i' - gathered_at x (m(?k := i)) ?k i'"] by (simp add: L g)
      show "open_levels ps m = (if ?L i = {} then [] else [?L i]) @ nonempty_sets ?L i"
        unfolding open_levels_eq by (rule nonempty_sets_top) (use that in auto)
    qed
    show ?thesis
    proof
      assume c: "connected_stack x (open_levels ps m) = Some st"
      obtain G rest where g: "open_levels ps m = G # rest"
        using c False unfolding connected_stack_iff [OF ne] by (cases "open_levels ps m") simp_all
      have s: "ni_nodeName x \<in> G" "ni_kind x = ENTRY \<longrightarrow> st = []"
        "st = ?push @ (if G - {ni_nodeName x} = {} then rest else (G - {ni_nodeName x}) # rest)"
        using c [unfolded connected_stack_iff [OF ne]] False g by (auto split: if_split_asm)
      obtain i where i: "i < ?k" "?L i = G" "\<forall>i'. i < i' \<and> i' < ?k \<longrightarrow> ?L i' = {}" "nonempty_sets ?L i = rest"
        using nonempty_sets_Cons [OF g [unfolded open_levels_eq]] by blast
      have "open_levels (ps @ [x]) (m(?k := i)) = st" unfolding lv [OF i(1,3)] s(3) i(2,4) by simp
      then show "\<exists>i. gathers_in_order (ps @ [x]) (m(?k := i)) \<and> open_levels (ps @ [x]) (m(?k := i)) = st"
        using i s(1,2) unfolding step by blast
    next
      assume "\<exists>i. gathers_in_order (ps @ [x]) (m(?k := i)) \<and> open_levels (ps @ [x]) (m(?k := i)) = st"
      then obtain i where i: "i < ?k" "ni_nodeName x \<in> ?L i" "\<forall>i'. i < i' \<and> i' < ?k \<longrightarrow> ?L i' = {}"
        "ni_kind x = ENTRY \<longrightarrow> st = []" "open_levels (ps @ [x]) (m(?k := i)) = st" using False unfolding step by blast
      have "open_levels ps m = ?L i # nonempty_sets ?L i" using old [OF i(1,3)] i(2) by auto
      moreover have "st = ?push @ (if ?L i - {ni_nodeName x} = {} then [] else [?L i - {ni_nodeName x}]) @ nonempty_sets ?L i"
        using lv [OF i(1,3)] i(5) by simp
      ultimately show "connected_stack x (open_levels ps m) = Some st"
        using i(2,4) False by (subst connected_stack_iff [OF ne]) auto
    qed
  qed
qed

lemma stack_over_iff:
  "stack_over (first_stack start) xs = Some st \<longleftrightarrow>
     (\<exists>m. gathers_in_order (start # xs) m \<and> open_levels (start # xs) m = st)"
proof (induction xs arbitrary: st rule: rev_induct)
  case Nil
  then show ?case by (auto simp: open_levels_start gathers_in_order_def)
next
  case (snoc x xs)
  let ?ps = "start # xs"
  have "stack_over (first_stack start) (xs @ [x]) = Some st \<longleftrightarrow>
      (\<exists>m. gathers_in_order ?ps m \<and> connected_stack x (open_levels ?ps m) = Some st)"
  proof -
    have "stack_over (first_stack start) (xs @ [x]) = Some st \<longleftrightarrow>
        (\<exists>st0. stack_over (first_stack start) xs = Some st0 \<and> connected_stack x st0 = Some st)"
      by (simp add: stack_over_snoc split: option.split)
    then show ?thesis unfolding snoc.IH by blast
  qed
  also have "\<dots> \<longleftrightarrow> (\<exists>m. gathers_in_order (?ps @ [x]) m \<and> open_levels (?ps @ [x]) m = st)"
  proof
    assume "\<exists>m. gathers_in_order ?ps m \<and> connected_stack x (open_levels ?ps m) = Some st"
    then show "\<exists>m. gathers_in_order (?ps @ [x]) m \<and> open_levels (?ps @ [x]) m = st"
      using one_more_node [of ?ps _ x st] by blast
  next
    assume "\<exists>m. gathers_in_order (?ps @ [x]) m \<and> open_levels (?ps @ [x]) m = st"
    then obtain m where m: "gathers_in_order (?ps @ [x]) m" "open_levels (?ps @ [x]) m = st" by blast
    then have "gathers_in_order ?ps m" by (simp add: gathers_in_order_snoc del: append_Cons)
    moreover have "\<exists>i. gathers_in_order (?ps @ [x]) (m(length ?ps := i)) \<and> open_levels (?ps @ [x]) (m(length ?ps := i)) = st"
      using m by (intro exI [of _ "m (length ?ps)"]) simp
    ultimately show "\<exists>m. gathers_in_order ?ps m \<and> connected_stack x (open_levels ?ps m) = Some st"
      using one_more_node [of ?ps m x st] by blast
  qed
  finally show ?case by simp
qed

lemma path_in_graph: "path_from connections start p \<Longrightarrow> n \<in> set p \<Longrightarrow> (start, n) \<in> (depends_on connections)\<^sup>+"
proof (induction p rule: rev_induct)
  case (snoc m p)
  then show ?case using path_from_reaches [of connections start p]
    by (auto simp: path_from_snoc depends_on_def intro: rtrancl_into_trancl1)
qed simp

lemma gather_order_ok_iff:
  assumes "leads_to_nodes nodeInfos connections (ni_nodeName start)"
  shows "gathers_consistently nodeInfos connections (ni_nodeName start) (first_stack start) \<longleftrightarrow>
    gather_order_ok nodeInfos connections start"
proof -
  have *: "stack_along nodeInfos (first_stack start) p = Some st \<longleftrightarrow>
      (\<exists>m. gathers_in_order (nodes_along nodeInfos start p) m \<and> open_levels (nodes_along nodeInfos start p) m = st)"
    if "path_from connections (ni_nodeName start) p" for p st
  proof -
    have "\<forall>n\<in>set p. findNodeByName nodeInfos n \<noteq> None"
      using path_in_graph [OF that] assms by (auto simp: leads_to_nodes_def)
    from stack_along_over [OF this] show ?thesis by (simp add: nodes_along_def stack_over_iff)
  qed
  have ex: "stack_along nodeInfos (first_stack start) p \<noteq> None \<longleftrightarrow> (\<exists>m. gathers_in_order (nodes_along nodeInfos start p) m)"
    if "path_from connections (ni_nodeName start) p" for p
    using * [OF that] by (auto simp del: not_None_eq simp: not_None_eq [of "stack_along nodeInfos (first_stack start) p"])
  show ?thesis
  proof
    assume g: "gathers_consistently nodeInfos connections (ni_nodeName start) (first_stack start)"
    show "gather_order_ok nodeInfos connections start"
      unfolding gather_order_ok_def
    proof (intro conjI allI impI; elim conjE)
      fix p assume p: "p \<noteq> []" "path_from connections (ni_nodeName start) p"
      then show "\<exists>m. gathers_in_order (nodes_along nodeInfos start p) m"
        using gathers_consistentlyD(1) [OF g p] ex [OF p(2)] by blast
    next
      fix p q m m'
      assume pq: "p \<noteq> []" "q \<noteq> []" "last p = last q" "path_from connections (ni_nodeName start) p"
        "path_from connections (ni_nodeName start) q" and
        m: "gathers_in_order (nodes_along nodeInfos start p) m" "gathers_in_order (nodes_along nodeInfos start q) m'"
      have "stack_along nodeInfos (first_stack start) p = stack_along nodeInfos (first_stack start) q"
        using gathers_consistentlyD(2) [OF g pq(1,2,4,5,3)] .
      moreover have "stack_along nodeInfos (first_stack start) p = Some (open_levels (nodes_along nodeInfos start p) m)"
        "stack_along nodeInfos (first_stack start) q = Some (open_levels (nodes_along nodeInfos start q) m')"
        using * [OF pq(4)] * [OF pq(5)] m by blast+
      ultimately show "open_levels (nodes_along nodeInfos start p) m = open_levels (nodes_along nodeInfos start q) m'" by simp
    qed
  next
    assume g: "gather_order_ok nodeInfos connections start"
    have some: "\<exists>m. gathers_in_order (nodes_along nodeInfos start p) m" if "p \<noteq> []" "path_from connections (ni_nodeName start) p" for p
      using g that unfolding gather_order_ok_def by blast
    show "gathers_consistently nodeInfos connections (ni_nodeName start) (first_stack start)"
      unfolding gathers_consistently_def
    proof (intro conjI allI impI; elim conjE)
      fix p assume p: "p \<noteq> []" "path_from connections (ni_nodeName start) p"
      then show "stack_along nodeInfos (first_stack start) p \<noteq> None" using some [OF p] ex [OF p(2)] by blast
    next
      fix p q assume pq: "p \<noteq> []" "q \<noteq> []" "path_from connections (ni_nodeName start) p"
        "path_from connections (ni_nodeName start) q" "last p = last q"
      obtain m m' where m: "gathers_in_order (nodes_along nodeInfos start p) m" "gathers_in_order (nodes_along nodeInfos start q) m'"
        using some [OF pq(1,3)] some [OF pq(2,4)] by blast
      then have "open_levels (nodes_along nodeInfos start p) m = open_levels (nodes_along nodeInfos start q) m'"
        using g pq unfolding gather_order_ok_def by blast
      moreover have "stack_along nodeInfos (first_stack start) p = Some (open_levels (nodes_along nodeInfos start p) m)"
        "stack_along nodeInfos (first_stack start) q = Some (open_levels (nodes_along nodeInfos start q) m')"
        using * [OF pq(3)] * [OF pq(4)] m by blast+
      ultimately show "stack_along nodeInfos (first_stack start) p = stack_along nodeInfos (first_stack start) q" by simp
    qed
  qed
qed

text \<open>
  C10: The check of the gathering order is exact: when every connection that can be reached from the
  exit node leads to a node, it returns OK if and only if along every path from the exit node every
  demultiplexer is gathered once, by a node before it on the path and after everything that node
  began to gather in between is complete, nothing is left to gather at the entry node, and two paths
  to one node leave the same demultiplexers to be met; otherwise it returns the error for a wrong
  order. The statement speaks of positions on the paths, not of the stacks of the code.
\<close>

theorem gather_order_check_is_exact:
  assumes "exit_node nodeInfos = Some info" "leads_to_nodes nodeInfos connections (ni_nodeName info)"
  shows "\<exists>connections'. validateDemultiplexerGatherNodesOrder nodeInfos connections =
    Some (if gather_order_ok nodeInfos connections info then SC_OK
      else SC_PIPELINE_WRONG_DEMULTIPLEXER_GATHER_NODES_ORDER, connections')"
  using validateDemultiplexerGatherNodesOrder_exact [OF assms] by (simp add: gather_order_ok_iff [OF assms(2)])

lemma gather_order_check_is_exact_witness:
  "\<not> gather_order_ok
     [plain_node ENTRY ''request'', (plain_node DL ''a'')\<lparr>ni_demultiplyCount := Some 2\<rparr>, plain_node DL ''b'',
      (plain_node EXIT ''response'')\<lparr>ni_gatherFromNode := {''a''}\<rparr>]
     [(''response'', [(''b'', []), (''a'', [])]), (''b'', [(''request'', [])]), (''a'', [(''request'', [])])]
     ((plain_node EXIT ''response'')\<lparr>ni_gatherFromNode := {''a''}\<rparr>)"
proof -
  let ?exit = "(plain_node EXIT ''response'')\<lparr>ni_gatherFromNode := {''a''}\<rparr>"
  let ?infos = "[plain_node ENTRY ''request'', (plain_node DL ''a'')\<lparr>ni_demultiplyCount := Some 2\<rparr>, plain_node DL ''b'', ?exit]"
  let ?c = "[(''response'', [(''b'', []), (''a'', [])]), (''b'', [(''request'', [])]), (''a'', [(''request'', [])])]
    :: pipeline_connections"
  have e: "exit_node ?infos = Some ?exit" by (simp add: exit_node_def plain_node_def)
  have "\<forall>m\<in>names_in ?c. findNodeByName ?infos m \<noteq> None"
    by (simp add: names_in_def findNodeByName_def plain_node_def)
  then have n: "leads_to_nodes ?infos ?c (ni_nodeName ?exit)" using reaches_names unfolding leads_to_nodes_def by blast
  have "map_option fst (validateDemultiplexerGatherNodesOrder ?infos ?c) = Some SC_PIPELINE_WRONG_DEMULTIPLEXER_GATHER_NODES_ORDER"
    by code_simp
  then show ?thesis using gather_order_check_is_exact [OF e n]
    by (auto split: if_split_asm)
qed

end
