(* ===== verification/Tensor_Info.thy ===== *)
theory Tensor_Info
  imports Shapes Layouts Text_Utils
begin

text \<open>
  The description of a tensor (\<open>src/tensorinfo.cpp\<close>, \<open>src/tensorinfo.hpp\<close>, \<open>src/precision.hpp\<close>): name,
  precision, shape and layout, the hints that follow from them, and the copies that the pipelines
  make: with another shape, with a dimension in front for a demultiplexer, and the intersection of two
  descriptions of one input.
\<close>

section \<open>The record\<close>

datatype Precision =
    BF16 | FP64 | FP32 | FP16 | I64 | I32 | I16 | I8 | I4 | U64 | U32 | U16 | U8 | U4 | U1 | BOOL
  | PRECISION_CUSTOM | UNDEFINED | DYNAMIC | MIXED | Q78 | BIN | STRING | PRECISION_END

datatype ProcessingHint = IMAGE | STRING_2D_U8 | STRING_NATIVE | NO_PROCESSING

record TensorInfo =
  ti_name :: string
  ti_mapping :: string
  ti_precision :: Precision
  ti_shape :: Shape
  ti_layout :: Layout
  ti_influencedByDemultiplexer :: bool
  ti_preProcessingHint :: ProcessingHint
  ti_postProcessingHint :: ProcessingHint

definition STRING_SERIALIZATION_HINT_NAME_SUFFIX :: string where
  "STRING_SERIALIZATION_HINT_NAME_SUFFIX = ''_string''"

definition ti_getMappedName :: "TensorInfo \<Rightarrow> string" where
  "ti_getMappedName i = (if ti_mapping i = [] then ti_name i else ti_mapping i)"

definition createProcessingHints :: "TensorInfo \<Rightarrow> TensorInfo" where
  "createProcessingHints i =
     (let expectedDimsForImage = (if ti_influencedByDemultiplexer i then 5 else 4);
          pre = (if ti_precision i = STRING then STRING_NATIVE
                 else if length (ti_shape i) = 2 \<and> ti_precision i = U8 \<and> \<not> ti_influencedByDemultiplexer i
                 then STRING_2D_U8
                 else if length (ti_shape i) = expectedDimsForImage then IMAGE
                 else NO_PROCESSING);
          post = (if ti_precision i = STRING then STRING_NATIVE
                  else if ti_precision i = U8 \<and> length (ti_shape i) = 2 \<and>
                    endsWith (ti_getMappedName i) STRING_SERIALIZATION_HINT_NAME_SUFFIX
                  then STRING_2D_U8
                  else NO_PROCESSING)
      in i\<lparr>ti_preProcessingHint := pre, ti_postProcessingHint := post\<rparr>)"

definition new_TensorInfo_mapped :: "string \<Rightarrow> string \<Rightarrow> Precision \<Rightarrow> Shape \<Rightarrow> Layout \<Rightarrow> TensorInfo" where
  "new_TensorInfo_mapped name mapping precision sh layout =
     createProcessingHints \<lparr>ti_name = name, ti_mapping = mapping, ti_precision = precision, ti_shape = sh,
       ti_layout = layout, ti_influencedByDemultiplexer = False, ti_preProcessingHint = NO_PROCESSING,
       ti_postProcessingHint = NO_PROCESSING\<rparr>"

definition new_TensorInfo_layout :: "string \<Rightarrow> Precision \<Rightarrow> Shape \<Rightarrow> Layout \<Rightarrow> TensorInfo" where
  "new_TensorInfo_layout name precision sh layout = new_TensorInfo_mapped name [] precision sh layout"

definition new_TensorInfo :: "string \<Rightarrow> Precision \<Rightarrow> Shape \<Rightarrow> TensorInfo" where
  "new_TensorInfo name precision sh = new_TensorInfo_mapped name [] precision sh (getDefaultLayout (length sh))"

section \<open>Copies\<close>

definition createCopyWithNewShape :: "Shape \<Rightarrow> TensorInfo \<Rightarrow> TensorInfo" where
  "createCopyWithNewShape sh i = createProcessingHints (i\<lparr>ti_shape := sh, ti_layout := getUnspecifiedLayout\<rparr>)"

definition createCopyWithNewMappedName :: "string \<Rightarrow> TensorInfo \<Rightarrow> TensorInfo" where
  "createCopyWithNewMappedName mappedName i = createProcessingHints (i\<lparr>ti_mapping := mappedName\<rparr>)"

text \<open>The batch letter of the layout becomes an undefined dimension and the new dimension the batch.\<close>

definition demultiplexed_layout :: "string \<Rightarrow> string" where
  "demultiplexed_layout s =
     BATCH_DIMENSION_LETTER @
       (case str_find BATCH_DIMENSION_LETTER s 0 of
          None \<Rightarrow> s
        | Some batchPosition \<Rightarrow> s[batchPosition := UNDEFINED_DIMENSION_CHAR])"

definition createCopyWithDemultiplexerDimensionPrefix :: "Dimension \<Rightarrow> TensorInfo \<Rightarrow> TensorInfo" where
  "createCopyWithDemultiplexerDimensionPrefix dim i =
     createProcessingHints (i\<lparr>ti_influencedByDemultiplexer := True, ti_shape := dim # ti_shape i,
       ti_layout := Layout_of (demultiplexed_layout (lay_str (ti_layout i)))\<rparr>)"

definition isTensorUnspecified :: "TensorInfo \<Rightarrow> bool" where
  "isTensorUnspecified i \<longleftrightarrow> ti_precision i = UNDEFINED \<and> ti_name i = [] \<and> shape_eq (ti_shape i) []"

definition getUnspecifiedTensorInfo :: TensorInfo where
  "getUnspecifiedTensorInfo = new_TensorInfo [] UNDEFINED []"

definition isTensorSpecEqual :: "TensorInfo \<Rightarrow> TensorInfo \<Rightarrow> bool" where
  "isTensorSpecEqual this other \<longleftrightarrow>
     shape_eq (ti_shape this) (ti_shape other) \<and> ti_precision this = ti_precision other \<and>
     lay_str (ti_layout this) = lay_str (ti_layout other)"

definition common_precision :: "Precision \<Rightarrow> Precision \<Rightarrow> Precision option" where
  "common_precision p q =
     (if p \<noteq> q then (if p = UNDEFINED then Some q else if q = UNDEFINED then Some p else None) else Some p)"

definition ti_createIntersection :: "TensorInfo \<Rightarrow> TensorInfo \<Rightarrow> TensorInfo option result" where
  "ti_createIntersection this other =
     (if isTensorUnspecified this then Inr (Some other)
      else if isTensorUnspecified other then Inr (Some this)
      else if ti_name this \<noteq> ti_name other \<or> ti_getMappedName this \<noteq> ti_getMappedName other then Inr None
      else case common_precision (ti_precision this) (ti_precision other) of
             None \<Rightarrow> Inr None
           | Some precision \<Rightarrow>
               rbind (shape_createIntersection (ti_shape this) (ti_shape other)) (\<lambda>newShape.
                 case newShape of
                   None \<Rightarrow> Inr None
                 | Some sh \<Rightarrow>
                     (case layout_createIntersection (ti_layout this) (ti_layout other) (length sh) of
                        None \<Rightarrow> Inr None
                      | Some layout \<Rightarrow>
                          Inr (Some (new_TensorInfo_mapped (ti_name this) (ti_getMappedName this) precision sh layout)))))"

definition ti_getBatchSize :: "TensorInfo \<Rightarrow> Dimension option result" where
  "ti_getBatchSize i =
     (case lay_batchIndex (ti_layout i) of
        None \<Rightarrow> (case ti_shape i of [] \<Rightarrow> Inr None | d # _ \<Rightarrow> Inr (Some d))
      | Some batchIndex \<Rightarrow>
          if length (ti_shape i) < batchIndex + 1 then Inl (LogicError ''batch outside of shape range'')
          else Inr (Some (ti_shape i ! batchIndex)))"

text \<open>The names of the precisions; what has no name is \<open>UNKNOWN\<close> and reads as \<open>UNDEFINED\<close>.\<close>

definition precision_names :: "(Precision \<times> string) list" where
  "precision_names =
     [(BF16, ''BF16''), (FP64, ''FP64''), (FP32, ''FP32''), (FP16, ''FP16''), (I64, ''I64''), (I32, ''I32''),
      (I16, ''I16''), (I8, ''I8''), (I4, ''I4''), (U64, ''U64''), (U32, ''U32''), (U16, ''U16''), (U8, ''U8''),
      (U4, ''U4''), (U1, ''U1''), (MIXED, ''MIXED''), (Q78, ''Q78''), (BIN, ''BIN''), (BOOL, ''BOOL''),
      (UNDEFINED, ''UNDEFINED''), (STRING, ''STRING''), (PRECISION_CUSTOM, ''CUSTOM'')]"

definition precision_toString :: "Precision \<Rightarrow> string" where
  "precision_toString p = (case map_of precision_names p of None \<Rightarrow> ''UNKNOWN'' | Some s \<Rightarrow> s)"

definition precision_fromString :: "string \<Rightarrow> Precision" where
  "precision_fromString s =
     (case map_of (map (\<lambda>(p, n). (n, p)) precision_names) s of None \<Rightarrow> UNDEFINED | Some p \<Rightarrow> p)"

definition ti_asString :: "TensorInfo \<Rightarrow> string" where
  "ti_asString i =
     ''name: '' @ ti_name i @ ''; '' @ ''mapping_name: '' @ ti_getMappedName i @ ''; '' @
     ''shape: '' @ shape_toString (ti_shape i) @ ''; '' @ ''precision: '' @ precision_toString (ti_precision i) @ ''; '' @
     ''layout: '' @ lay_str (ti_layout i)"

section \<open>Lemmas\<close>

lemma precision_name_roundtrip:
  "precision_fromString (precision_toString p) = (if p \<in> {DYNAMIC, PRECISION_END} then UNDEFINED else p)"
  by (cases p) (simp_all add: precision_toString_def precision_fromString_def precision_names_def)

lemma hints_keep [simp]:
  "ti_name (createProcessingHints i) = ti_name i" "ti_mapping (createProcessingHints i) = ti_mapping i"
  "ti_precision (createProcessingHints i) = ti_precision i" "ti_shape (createProcessingHints i) = ti_shape i"
  "ti_layout (createProcessingHints i) = ti_layout i"
  "ti_influencedByDemultiplexer (createProcessingHints i) = ti_influencedByDemultiplexer i"
  by (simp_all add: createProcessingHints_def Let_def)

lemma new_TensorInfo_fields [simp]:
  "ti_name (new_TensorInfo_mapped n m p s l) = n" "ti_mapping (new_TensorInfo_mapped n m p s l) = m"
  "ti_precision (new_TensorInfo_mapped n m p s l) = p" "ti_shape (new_TensorInfo_mapped n m p s l) = s"
  "ti_layout (new_TensorInfo_mapped n m p s l) = l"
  by (simp_all add: new_TensorInfo_mapped_def)

lemma find_batch:
  "str_find BATCH_DIMENSION_LETTER s 0 = None \<longleftrightarrow> CHR ''N'' \<notin> set s"
  "str_find BATCH_DIMENSION_LETTER s 0 = Some i \<Longrightarrow> i < length s \<and> s ! i = CHR ''N''"
proof -
  show "str_find BATCH_DIMENSION_LETTER s 0 = None \<longleftrightarrow> CHR ''N'' \<notin> set s"
    unfolding str_find_None_iff occurs_at_iff_append BATCH_DIMENSION_LETTER_def in_set_conv_decomp by auto
  assume i: "str_find BATCH_DIMENSION_LETTER s 0 = Some i"
  then obtain u v where "s = u @ ''N'' @ v" "length u = i"
    by (auto simp: str_find_Some_iff occurs_at_iff_append BATCH_DIMENSION_LETTER_def)
  then show "i < length s \<and> s ! i = CHR ''N''" by (auto simp: nth_append)
qed

definition no_batch :: "char \<Rightarrow> char" where
  "no_batch c = (if c = CHR ''N'' then UNDEFINED_DIMENSION_CHAR else c)"

lemma demultiplexed_layout_map:
  assumes "count_list s (CHR ''N'') \<le> 1"
  shows "demultiplexed_layout s = CHR ''N'' # map no_batch s"
proof (cases "str_find BATCH_DIMENSION_LETTER s 0")
  case None
  then have "map no_batch s = s" by (auto simp: find_batch(1) no_batch_def intro: map_idI)
  then show ?thesis using None by (simp add: demultiplexed_layout_def BATCH_DIMENSION_LETTER_def)
next
  case (Some i)
  note i = find_batch(2) [OF Some]
  have "s[i := UNDEFINED_DIMENSION_CHAR] = map no_batch s"
  proof (rule nth_equalityI)
    fix j
    assume j: "j < length (s[i := UNDEFINED_DIMENSION_CHAR])"
    have "s ! j \<noteq> CHR ''N''" if "j \<noteq> i"
      using count_list_two [of i j s "CHR ''N''"] count_list_two [of j i s "CHR ''N''"] i j that assms
      by (cases "i < j") auto
    then show "s[i := UNDEFINED_DIMENSION_CHAR] ! j = map no_batch s ! j"
      using i j by (cases "j = i") (auto simp: no_batch_def)
  qed simp
  then show ?thesis using Some by (simp add: demultiplexed_layout_def BATCH_DIMENSION_LETTER_def)
qed

lemma no_batch_chars [simp]:
  "no_batch c = ETC_CHAR \<longleftrightarrow> c = ETC_CHAR"
  "no_batch c \<noteq> CHR ''N''"
  "c \<in> set ALLOWED_DIMENSION_LETTERS_AND_CHARS \<Longrightarrow> no_batch c \<in> set ALLOWED_DIMENSION_LETTERS_AND_CHARS"
  "no_batch c \<in> set ALLOWED_DIMENSION_LETTERS \<or> no_batch c = UNDEFINED_DIMENSION_CHAR \<longleftrightarrow>
     c \<in> set ALLOWED_DIMENSION_LETTERS \<or> c = UNDEFINED_DIMENSION_CHAR"
  by (auto simp: no_batch_def layout_consts)

lemma count_no_batch: "c \<in> set ALLOWED_DIMENSION_LETTERS \<Longrightarrow> count_list (map no_batch s) c \<le> count_list s c"
  by (induction s) (auto simp: no_batch_def layout_consts)

lemma no_batch_count_N: "count_list (map no_batch s) (CHR ''N'') = 0"
  unfolding count_list_0_iff set_map by (metis imageE no_batch_chars(2))

lemma map_no_batch_dots: "map no_batch ETC_LAYOUT_DELIMETER = ETC_LAYOUT_DELIMETER"
  by (simp add: no_batch_def ETC_LAYOUT_DELIMETER_def)

lemma demultiplexed_layout_valid:
  assumes "layout_validate s = SC_OK"
  shows "layout_validate (demultiplexed_layout s) = SC_OK"
proof -
  note v = assms [unfolded layout_validate_OK]
  have N: "CHR ''N'' \<in> set ALLOWED_DIMENSION_LETTERS" by (simp add: layout_consts)
  then have N': "CHR ''N'' \<in> set ALLOWED_DIMENSION_LETTERS_AND_CHARS"
    unfolding ALLOWED_DIMENSION_LETTERS_AND_CHARS_def by simp
  have d: "demultiplexed_layout s = CHR ''N'' # map no_batch s" using v N by (intro demultiplexed_layout_map) blast
  have "only_chars ALLOWED_DIMENSION_LETTERS_AND_CHARS (demultiplexed_layout s)"
    using v N' unfolding d by (auto simp: only_chars_def list_all_iff)
  moreover have "\<forall>c\<in>set ALLOWED_DIMENSION_LETTERS. count_list (demultiplexed_layout s) c \<le> 1"
  proof
    fix c
    assume c: "c \<in> set ALLOWED_DIMENSION_LETTERS"
    then have "count_list s c \<le> 1" using v by blast
    then show "count_list (demultiplexed_layout s) c \<le> 1"
      using count_no_batch [OF c, of s] no_batch_count_N [of s] unfolding d by (cases "c = CHR ''N''") auto
  qed
  moreover have "ETC_CHAR \<notin> set (demultiplexed_layout s) \<or>
      (\<exists>u v. demultiplexed_layout s = u @ ETC_LAYOUT_DELIMETER @ v \<and> ETC_CHAR \<notin> set u \<and> ETC_CHAR \<notin> set v)"
  proof (cases "ETC_CHAR \<in> set s")
    case False
    moreover have "CHR ''N'' \<noteq> ETC_CHAR" by (simp add: layout_consts)
    ultimately show ?thesis unfolding d by (auto simp: eq_commute [of ETC_CHAR])
  next
    case True
    then obtain u w where u: "s = u @ ETC_LAYOUT_DELIMETER @ w" "ETC_CHAR \<notin> set u" "ETC_CHAR \<notin> set w" using v by blast
    have "demultiplexed_layout s = (CHR ''N'' # map no_batch u) @ ETC_LAYOUT_DELIMETER @ map no_batch w"
      using d unfolding u(1) map_append map_no_batch_dots by simp
    moreover have "ETC_CHAR \<notin> set (CHR ''N'' # map no_batch u)" "ETC_CHAR \<notin> set (map no_batch w)"
      using u(2,3) by (auto simp: layout_consts no_batch_def split: if_splits)
    ultimately show ?thesis by blast
  qed
  ultimately show ?thesis by (simp add: layout_validate_OK)
qed

lemma containsEtc_valid: "layout_validate s = SC_OK \<Longrightarrow> containsEtc s \<longleftrightarrow> ETC_CHAR \<in> set s"
  using no_etc [of s] find_etc by (auto simp: layout_validate_OK containsEtc_def ETC_LAYOUT_DELIMETER_def ETC_CHAR_def)

lemma demultiplexed_layout_batch:
  assumes "layout_validate s = SC_OK"
  shows "retrieveBatchIndex (demultiplexed_layout s) = Some 0"
proof -
  have d: "demultiplexed_layout s = BATCH_DIMENSION_LETTER @ tl (demultiplexed_layout s)"
    by (simp add: demultiplexed_layout_def BATCH_DIMENSION_LETTER_def)
  then have "str_find BATCH_DIMENSION_LETTER (demultiplexed_layout s) 0 = Some 0"
    unfolding str_find_Some_iff occurs_at_iff_append by (metis append_Nil le_refl length_0_conv not_less_zero)
  moreover have "demultiplexed_layout s \<noteq> UNSPECIFIED_LAYOUT"
    by (simp add: demultiplexed_layout_def layout_consts)
  ultimately show ?thesis
    using demultiplexed_layout_valid [OF assms] by (auto simp: retrieveBatchIndex_def Let_def split: option.split)
qed

text \<open>
  A dimension put in front for a demultiplexer becomes the batch: for a tensor whose layout is
  valid and fits its shape, the layout of the copy is valid, fits the longer shape, and the batch size
  of the copy is the new dimension.
\<close>

theorem demultiplexer_prefix_is_the_batch:
  assumes "layout_validate (lay_str (ti_layout i)) = SC_OK" "layout_isCompatible (lay_str (ti_layout i)) (ti_shape i)"
  shows "layout_validate (lay_str (ti_layout (createCopyWithDemultiplexerDimensionPrefix dim i))) = SC_OK \<and>
    layout_isCompatible (lay_str (ti_layout (createCopyWithDemultiplexerDimensionPrefix dim i)))
      (ti_shape (createCopyWithDemultiplexerDimensionPrefix dim i)) \<and>
    ti_getBatchSize (createCopyWithDemultiplexerDimensionPrefix dim i) = Inr (Some dim)"
proof -
  let ?s = "lay_str (ti_layout i)"
  have N: "count_list ?s (CHR ''N'') \<le> 1" "CHR ''N'' \<in> set ALLOWED_DIMENSION_LETTERS"
    using assms(1) by (auto simp: layout_validate_OK ALLOWED_DIMENSION_LETTERS_def)
  note d = demultiplexed_layout_map [OF N(1)] and valid = demultiplexed_layout_valid [OF assms(1)]
  have known: "getNumberOfKnownDimensions (demultiplexed_layout ?s) = Suc (getNumberOfKnownDimensions ?s)"
    using N(2) by (simp add: d getNumberOfKnownDimensions_def filter_map comp_def)
  have "ETC_CHAR \<in> set (demultiplexed_layout ?s) \<longleftrightarrow> ETC_CHAR \<in> set ?s"
    unfolding d by (auto simp: layout_consts no_batch_def)
  then have "containsEtc (demultiplexed_layout ?s) = containsEtc ?s"
    using containsEtc_valid [OF assms(1)] containsEtc_valid [OF valid] by simp
  then have "layout_isCompatible (demultiplexed_layout ?s) (dim # ti_shape i)"
    using assms(2) known by (auto simp: layout_isCompatible_def)
  then show ?thesis
    using valid demultiplexed_layout_batch [OF assms(1)]
    by (simp add: createCopyWithDemultiplexerDimensionPrefix_def ti_getBatchSize_def Layout_of_def)
qed

lemma demultiplexer_prefix_is_the_batch_witness:
  "ti_getBatchSize (createCopyWithDemultiplexerDimensionPrefix \<lparr>dim_minimum = 3, dim_maximum = 3\<rparr>
     (new_TensorInfo_layout ''in'' FP32 [dim_any, dim_any] (Layout_of ''CN''))) =
   Inr (Some \<lparr>dim_minimum = 3, dim_maximum = 3\<rparr>)"
proof -
  let ?i = "new_TensorInfo_layout ''in'' FP32 [dim_any, dim_any] (Layout_of ''CN'')"
  have "layout_validate (lay_str (ti_layout ?i)) = SC_OK" by code_simp
  moreover have "layout_isCompatible (lay_str (ti_layout ?i)) (ti_shape ?i)" by code_simp
  ultimately show ?thesis using demultiplexer_prefix_is_the_batch by blast
qed

end
