(* ===== verification/Pipeline_Validation.thy ===== *)
theory Pipeline_Validation
  imports Pipeline_Graph Tensor_Info Serving_Status "HOL-Library.List_Lexorder" "HOL-Library.Char_ord" "HOL-Library.Multiset"
begin

text \<open>
  The validation of a pipeline definition (\<open>src/dags/pipelinedefinition.cpp\<close>): the libraries of custom
  nodes are initialised, every node and its connections are checked (\<open>NodeValidator\<close>), then the graph,
  and the inputs and outputs of the pipeline are derived. The models and the functions of the libraries
  are parameters (\<open>Backend\<close>).
\<close>

section \<open>Outcomes and environment\<close>

text \<open>
  A function returns an error status or raises an exception; \<open>Undefined\<close> stands for undefined
  behaviour, such as an access past the end of a vector.
\<close>

datatype failure = Raised exn | Returned StatusCode | Undefined

type_synonym 'a outcome = "failure + 'a"

fun raising :: "'a result \<Rightarrow> 'a outcome" where
  "raising (Inl e) = Inl (Raised e)"
| "raising (Inr x) = Inr x"

definition returned :: "StatusCode \<Rightarrow> 'a outcome" where
  "returned s = Inl (Returned s)"

definition map_at :: "('k \<times> 'v) list \<Rightarrow> 'k \<Rightarrow> 'v outcome" where
  "map_at m k = (case map_of m k of None \<Rightarrow> Inl (Raised OutOfRange) | Some v \<Rightarrow> Inr v)"

fun check_each :: "('a \<Rightarrow> unit outcome) \<Rightarrow> 'a list \<Rightarrow> unit outcome" where
  "check_each f [] = Inr ()"
| "check_each f (x # xs) = rbind (f x) (\<lambda>_. check_each f xs)"

lemma check_each_Inr: "check_each f xs = Inr () \<longleftrightarrow> (\<forall>x\<in>set xs. f x = Inr ())"
  by (induction xs) (auto simp: rbind_Inr_iff)

text \<open>A map ordered by its keys; \<open>emplace\<close> and \<open>insert\<close> keep an entry that is there.\<close>

type_synonym tensor_map = "(string \<times> TensorInfo) list"

fun map_emplace :: "string \<Rightarrow> 'v \<Rightarrow> (string \<times> 'v) list \<Rightarrow> (string \<times> 'v) list" where
  "map_emplace k v [] = [(k, v)]"
| "map_emplace k v ((k', v') # m) =
     (if k = k' then (k', v') # m else if k < k' then (k, v) # (k', v') # m else (k', v') # map_emplace k v m)"

fun map_put :: "string \<Rightarrow> 'v \<Rightarrow> (string \<times> 'v) list \<Rightarrow> (string \<times> 'v) list" where
  "map_put k v [] = [(k, v)]"
| "map_put k v ((k', v') # m) =
     (if k = k' then (k, v) # m else if k < k' then (k, v) # (k', v') # m else (k', v') # map_put k v m)"

text \<open>The functions a library of custom nodes exports; they may be missing.\<close>

record 'f NodeLibrary =
  nl_initialize :: "'f option"
  nl_deinitialize :: "'f option"
  nl_execute :: "'f option"
  nl_getInputsInfo :: "'f option"
  nl_getOutputsInfo :: "'f option"
  nl_release :: "'f option"
  nl_basePath :: string

definition nl_isValid :: "'f NodeLibrary \<Rightarrow> bool" where
  "nl_isValid l \<longleftrightarrow> nl_execute l \<noteq> None \<and> nl_getInputsInfo l \<noteq> None \<and> nl_getOutputsInfo l \<noteq> None \<and>
     nl_release l \<noteq> None \<and> nl_initialize l \<noteq> None \<and> nl_deinitialize l \<noteq> None"

datatype CustomNodeTensorPrecision =
    CN_UNSPECIFIED | CN_FP32 | CN_FP16 | CN_U8 | CN_I8 | CN_I16 | CN_U16 | CN_I32 | CN_FP64 | CN_I64

fun toInferenceEnginePrecision :: "CustomNodeTensorPrecision \<Rightarrow> Precision" where
  "toInferenceEnginePrecision CN_FP32 = FP32"
| "toInferenceEnginePrecision CN_FP64 = FP64"
| "toInferenceEnginePrecision CN_I32 = I32"
| "toInferenceEnginePrecision CN_I64 = I64"
| "toInferenceEnginePrecision CN_I8 = I8"
| "toInferenceEnginePrecision CN_U8 = U8"
| "toInferenceEnginePrecision CN_FP16 = FP16"
| "toInferenceEnginePrecision CN_I16 = I16"
| "toInferenceEnginePrecision CN_U16 = U16"
| "toInferenceEnginePrecision CN_UNSPECIFIED = UNDEFINED"

record CustomNodeTensorInfo =
  cn_name :: "string option"
  cn_dims :: "nat list"
  cn_precision :: CustomNodeTensorPrecision

type_synonym 'f node = "'f NodeLibrary NodeInfo"

text \<open>
  The models of the server and the calls into the libraries. A library answers with a result code and,
  through pointers, with descriptions of tensors or its internal manager \<open>'r\<close>.
\<close>

record ('f, 'r) Backend =
  be_getModelInputsInfo :: "string \<Rightarrow> int \<Rightarrow> StatusCode + tensor_map"
  be_getModelOutputsInfo :: "string \<Rightarrow> int \<Rightarrow> StatusCode + tensor_map"
  be_hasAutoModelParameters :: "string \<Rightarrow> int \<Rightarrow> StatusCode + bool \<times> bool"
  be_metadata :: "'f \<Rightarrow> (string \<times> string) list \<Rightarrow> 'r \<Rightarrow> int \<times> CustomNodeTensorInfo list option"
  be_initialize :: "'f \<Rightarrow> (string \<times> string) list \<Rightarrow> int \<times> 'r"
  be_servableExists :: "string \<Rightarrow> bool"

definition version_of :: "'l NodeInfo \<Rightarrow> int" where
  "version_of info = (case ni_modelVersion info of None \<Rightarrow> 0 | Some v \<Rightarrow> v)"

section \<open>Metadata of the nodes\<close>

fun dims_shape :: "nat list \<Rightarrow> Shape outcome" where
  "dims_shape [] = Inr []"
| "dims_shape (dim # dims) =
     rbind (if dim \<noteq> 0 then raising (Dimension_static (to_dimension_value dim)) else Inr dim_any) (\<lambda>d.
       rbind (dims_shape dims) (\<lambda>ds. Inr (d # ds)))"

fun tensor_infos :: "CustomNodeTensorInfo list \<Rightarrow> tensor_map \<Rightarrow> tensor_map outcome" where
  "tensor_infos [] out = Inr out"
| "tensor_infos (info # infos) out =
     (case cn_name info of
        None \<Rightarrow> tensor_infos infos out
      | Some name \<Rightarrow>
          rbind (dims_shape (cn_dims info)) (\<lambda>sh.
            tensor_infos infos (map_emplace name
              (new_TensorInfo_layout name (toInferenceEnginePrecision (cn_precision info)) sh getUnspecifiedLayout) out)))"

definition createTensorInfoMap :: "CustomNodeTensorInfo list option \<Rightarrow> tensor_map outcome" where
  "createTensorInfoMap info =
     (case info of
        None \<Rightarrow> returned SC_NODE_LIBRARY_OUTPUTS_CORRUPTED
      | Some infos \<Rightarrow>
          if infos = [] then returned SC_NODE_LIBRARY_OUTPUTS_CORRUPTED_COUNT else tensor_infos infos [])"

definition getCustomNodeMetadata :: "('f, 'r) Backend \<Rightarrow> 'f node \<Rightarrow> 'f option \<Rightarrow> 'r \<Rightarrow> tensor_map outcome" where
  "getCustomNodeMetadata be info callback manager =
     (case callback of
        None \<Rightarrow> Inl Undefined
      | Some f \<Rightarrow>
          (let (result, infos) = be_metadata be f (ni_parameters info) manager
           in if result \<noteq> 0 then returned SC_NODE_LIBRARY_METADATA_FAILED else createTensorInfoMap infos))"

definition custom_metadata ::
  "('f, 'r) Backend \<Rightarrow> (string \<times> 'r) list \<Rightarrow> 'f node \<Rightarrow> ('f NodeLibrary \<Rightarrow> 'f option) \<Rightarrow> tensor_map outcome" where
  "custom_metadata be resources info callback =
     rbind (map_at resources (ni_nodeName info)) (getCustomNodeMetadata be info (callback (ni_library info)))"

definition model_metadata :: "StatusCode + tensor_map \<Rightarrow> StatusCode \<Rightarrow> tensor_map outcome" where
  "model_metadata answer s = (case answer of Inl _ \<Rightarrow> returned s | Inr m \<Rightarrow> Inr m)"

text \<open>The inputs and outputs of a node; those of an entry or exit node are left empty.\<close>

definition fetchMetadata ::
  "('f, 'r) Backend \<Rightarrow> (string \<times> 'r) list \<Rightarrow> 'f node \<Rightarrow> (tensor_map \<times> tensor_map) outcome" where
  "fetchMetadata be resources info =
     (case ni_kind info of
        DL \<Rightarrow>
          rbind (model_metadata (be_getModelInputsInfo be (ni_modelName info) (version_of info))
                   SC_PIPELINE_NODE_REFERING_TO_MISSING_MODEL) (\<lambda>inputs.
          rbind (model_metadata (be_getModelOutputsInfo be (ni_modelName info) (version_of info))
                   SC_PIPELINE_NODE_REFERING_TO_MISSING_MODEL) (\<lambda>outputs. Inr (inputs, outputs)))
      | CUSTOM \<Rightarrow>
          rbind (custom_metadata be resources info nl_getInputsInfo) (\<lambda>inputs.
          rbind (custom_metadata be resources info nl_getOutputsInfo) (\<lambda>outputs. Inr (inputs, outputs)))
      | _ \<Rightarrow> Inr ([], []))"

section \<open>The validator of a node\<close>

definition checkForForbiddenDynamicParameters :: "('f, 'r) Backend \<Rightarrow> 'f node \<Rightarrow> unit outcome" where
  "checkForForbiddenDynamicParameters be info =
     (case be_hasAutoModelParameters be (ni_modelName info) (version_of info) of
        Inl s \<Rightarrow> returned s
      | Inr (batchAuto, shapeAuto) \<Rightarrow>
          if batchAuto \<or> shapeAuto then returned SC_FORBIDDEN_MODEL_DYNAMIC_PARAMETER else Inr ())"

definition checkForForbiddenStringDemultiplicator :: "'f node \<Rightarrow> tensor_map \<Rightarrow> unit outcome" where
  "checkForForbiddenStringDemultiplicator info inputsInfo =
     (if ni_demultiplyCount info = None then Inr ()
      else if list_ex (\<lambda>(_, inputInfo). ti_precision inputInfo = STRING) inputsInfo
      then returned SC_PIPELINE_STRING_DEMUILTIPLICATION_UNSUPPORTED
      else Inr ())"

definition validateGatherNode :: "'f node list \<Rightarrow> 'f node \<Rightarrow> unit outcome" where
  "validateGatherNode nodeInfos info =
     check_each (\<lambda>gather.
       case findNodeByName nodeInfos gather of
         None \<Rightarrow> returned SC_PIPELINE_NODE_GATHER_FROM_NOT_EXISTING_NODE
       | Some it \<Rightarrow>
           if ni_demultiplyCount it = None then returned SC_PIPELINE_NODE_GATHER_FROM_NOT_DEMULTIPLEXER else Inr ())
       (sorted_list_of_set (ni_gatherFromNode info))"

definition getDependencyNodeInfo :: "'f node list \<Rightarrow> string \<Rightarrow> 'f node outcome" where
  "getDependencyNodeInfo nodeInfos dependencyNodeName =
     (case findNodeByName nodeInfos dependencyNodeName of
        None \<Rightarrow> returned SC_PIPELINE_NODE_REFERING_TO_MISSING_NODE
      | Some info \<Rightarrow> if ni_kind info = EXIT then returned SC_PIPELINE_EXIT_USED_AS_NODE_DEPENDENCY else Inr info)"

definition is_computing :: "'l NodeInfo \<Rightarrow> bool" where
  "is_computing info \<longleftrightarrow> ni_kind info = DL \<or> ni_kind info = CUSTOM"

definition checkConnectionMappedToExistingDataSource :: "'f node \<Rightarrow> tensor_map \<Rightarrow> string \<Rightarrow> unit outcome" where
  "checkConnectionMappedToExistingDataSource info dependencyOutputsInfo dataSource =
     (case map_of (ni_outputNameAliases info) dataSource of
        None \<Rightarrow> returned SC_PIPELINE_NODE_REFERING_TO_MISSING_DATA_SOURCE
      | Some modelOutputName \<Rightarrow>
          if is_computing info \<and> map_of dependencyOutputsInfo modelOutputName = None
          then returned SC_PIPELINE_NODE_REFERING_TO_MISSING_MODEL_OUTPUT
          else Inr ())"

text \<open>The count is a \<open>size_t\<close>; compared with -1 it is the largest one, as a dimension it is read signed.\<close>

definition validateShapeWithDemultiplexer :: "Shape \<Rightarrow> 'l NodeInfo \<Rightarrow> unit outcome" where
  "validateShapeWithDemultiplexer sh info =
     (case ni_demultiplyCount info of
        None \<Rightarrow> Inr ()
      | Some n \<Rightarrow>
          if length sh < 3 then returned SC_PIPELINE_NOT_ENOUGH_SHAPE_DIMENSIONS_TO_DEMULTIPLY
          else if n \<noteq> -1 \<and> \<not> dim_isAny (sh ! 0) then
            rbind (raising (Dimension_static (sint n))) (\<lambda>demultiplyDimension.
            rbind (raising (partiallyFitsInto (sh ! 0) demultiplyDimension)) (\<lambda>fits.
              if fits then Inr () else returned SC_PIPELINE_DEMULTIPLY_COUNT_DOES_NOT_MATCH_TENSOR_SHARD_COUNT))
          else Inr ())"

definition influenceShapeWithDemultiplexer :: "Shape \<Rightarrow> 'l NodeInfo \<Rightarrow> Shape outcome" where
  "influenceShapeWithDemultiplexer sh info =
     rbind (validateShapeWithDemultiplexer sh info) (\<lambda>_. if sh = [] then Inl Undefined else Inr (tl sh))"

fun fitting_dims :: "(Dimension \<times> Dimension) list \<Rightarrow> bool outcome" where
  "fitting_dims [] = Inr True"
| "fitting_dims ((i, out) # rest) =
     rbind (raising (partiallyFitsInto i out)) (\<lambda>fits. if \<not> fits then Inr False else fitting_dims rest)"

definition areShapesMatching :: "Shape \<Rightarrow> Shape \<Rightarrow> bool outcome" where
  "areShapesMatching tensorInputShape tensorOutputShape =
     (if length tensorInputShape \<noteq> length tensorOutputShape then Inr False
      else fitting_dims (zip tensorInputShape tensorOutputShape))"

text \<open>
  The input shape without the dimension that is gathered. When the check fails, its message reads the
  second dimension of the input before the error is returned.
\<close>

definition with_message :: "Shape \<Rightarrow> 'a outcome \<Rightarrow> 'a outcome" where
  "with_message sh r =
     (case r of Inl (Returned s) \<Rightarrow> if length sh < 2 then Inl Undefined else Inl (Returned s) | _ \<Rightarrow> r)"

definition gathered_input_shape :: "'f node list \<Rightarrow> 'f node \<Rightarrow> Shape \<Rightarrow> Shape outcome" where
  "gathered_input_shape nodeInfos dependantNodeInfo sh =
     (if card (ni_gatherFromNode dependantNodeInfo) = 1 then
        rbind (getDependencyNodeInfo nodeInfos (hd (sorted_list_of_set (ni_gatherFromNode dependantNodeInfo))))
          (\<lambda>demultiplicatorNode.
            with_message sh (influenceShapeWithDemultiplexer sh demultiplicatorNode))
      else if 1 < card (ni_gatherFromNode dependantNodeInfo)
      then returned SC_PIPELINE_MANUAL_GATHERING_FROM_MULTIPLE_NODES_NOT_SUPPORTED
      else Inr sh)"

definition demultiplied_output_shape :: "'f node \<Rightarrow> Shape \<Rightarrow> Shape outcome" where
  "demultiplied_output_shape dependencyNodeInfo sh =
     (if ni_demultiplyCount dependencyNodeInfo \<noteq> None then influenceShapeWithDemultiplexer sh dependencyNodeInfo
      else Inr sh)"

definition checkConnectionMetadataCorrectness ::
  "'f node list \<Rightarrow> 'f node \<Rightarrow> tensor_map \<Rightarrow> 'f node \<Rightarrow> tensor_map \<Rightarrow> string \<Rightarrow> string \<Rightarrow> unit outcome" where
  "checkConnectionMetadataCorrectness nodeInfos dependantNodeInfo inputsInfo dependencyNodeInfo dependencyOutputsInfo
       modelInputName modelOutputName =
     rbind (map_at inputsInfo modelInputName) (\<lambda>tensorInput.
     rbind (map_at dependencyOutputsInfo modelOutputName) (\<lambda>tensorOutput.
     rbind (demultiplied_output_shape dependencyNodeInfo (ti_shape tensorOutput)) (\<lambda>tensorOutputShape.
     rbind (gathered_input_shape nodeInfos dependantNodeInfo (ti_shape tensorInput)) (\<lambda>tensorInputShape.
     rbind (areShapesMatching tensorInputShape tensorOutputShape) (\<lambda>matching.
       if \<not> matching then returned SC_INVALID_SHAPE
       else if ti_precision tensorInput \<noteq> ti_precision tensorOutput then returned SC_INVALID_PRECISION
       else if ti_precision tensorInput = STRING then returned SC_NOT_IMPLEMENTED
       else Inr ())))))"

text \<open>The inputs that still wait for a source are threaded through.\<close>

definition markInputAsConnected :: "tensor_map \<Rightarrow> string \<Rightarrow> string list \<Rightarrow> string list outcome" where
  "markInputAsConnected inputsInfo name remaining =
     (if map_of inputsInfo name = None then returned SC_PIPELINE_CONNECTION_TO_MISSING_MODEL_INPUT
      else if name \<notin> set remaining then returned SC_PIPELINE_MODEL_INPUT_CONNECTED_TO_MULTIPLE_DATA_SOURCES
      else Inr (removeAll name remaining))"

text \<open>One pair of the mapping, then the whole mapping.\<close>

definition validate_mapping ::
  "'f node list \<Rightarrow> 'f node \<Rightarrow> tensor_map \<Rightarrow> 'f node \<Rightarrow> tensor_map \<Rightarrow> string \<times> string \<Rightarrow> string list \<Rightarrow> string list outcome" where
  "validate_mapping nodeInfos dependant inputsInfo dependency dependencyOutputsInfo mapping remaining =
     (let (alias, realName) = mapping in
      rbind (if is_computing dependant then markInputAsConnected inputsInfo realName remaining else Inr remaining)
        (\<lambda>remaining'.
      rbind (checkConnectionMappedToExistingDataSource dependency dependencyOutputsInfo alias) (\<lambda>_.
      rbind (if ni_kind dependency = ENTRY \<and> ni_demultiplyCount dependency \<noteq> None
             then rbind (map_at inputsInfo realName) (\<lambda>input.
               if ti_precision input = STRING then returned SC_PIPELINE_STRING_DEMUILTIPLICATION_UNSUPPORTED else Inr ())
             else Inr ()) (\<lambda>_.
      rbind (if is_computing dependant \<and> is_computing dependency
             then rbind (map_at (ni_outputNameAliases dependency) alias)
               (checkConnectionMetadataCorrectness nodeInfos dependant inputsInfo dependency dependencyOutputsInfo realName)
             else Inr ()) (\<lambda>_. Inr remaining')))))"

fun validate_mappings ::
  "'f node list \<Rightarrow> 'f node \<Rightarrow> tensor_map \<Rightarrow> 'f node \<Rightarrow> tensor_map \<Rightarrow> Aliases \<Rightarrow> string list \<Rightarrow> string list outcome" where
  "validate_mappings nodeInfos dependant inputsInfo dependency outs [] remaining = Inr remaining"
| "validate_mappings nodeInfos dependant inputsInfo dependency outs (m # ms) remaining =
     rbind (validate_mapping nodeInfos dependant inputsInfo dependency outs m remaining)
       (validate_mappings nodeInfos dependant inputsInfo dependency outs ms)"

definition validateConnection ::
  "('f, 'r) Backend \<Rightarrow> (string \<times> 'r) list \<Rightarrow> 'f node list \<Rightarrow> 'f node \<Rightarrow> tensor_map \<Rightarrow> 'f node \<Rightarrow> Aliases \<Rightarrow> string list
     \<Rightarrow> string list outcome" where
  "validateConnection be resources nodeInfos dependant inputsInfo dependency mapping remaining =
     rbind (fetchMetadata be resources dependency) (\<lambda>(_, dependencyOutputsInfo).
       validate_mappings nodeInfos dependant inputsInfo dependency dependencyOutputsInfo mapping remaining)"

fun validate_connections ::
  "('f, 'r) Backend \<Rightarrow> (string \<times> 'r) list \<Rightarrow> 'f node list \<Rightarrow> 'f node \<Rightarrow> tensor_map \<Rightarrow> (string \<times> Aliases) list \<Rightarrow> string list
     \<Rightarrow> string list outcome" where
  "validate_connections be resources nodeInfos dependant inputsInfo [] remaining = Inr remaining"
| "validate_connections be resources nodeInfos dependant inputsInfo ((dependencyNodeName, mapping) # rest) remaining =
     (if mapping = [] then returned SC_UNKNOWN_ERROR
      else rbind (getDependencyNodeInfo nodeInfos dependencyNodeName) (\<lambda>dependency.
           rbind (validateConnection be resources nodeInfos dependant inputsInfo dependency mapping remaining)
             (validate_connections be resources nodeInfos dependant inputsInfo rest)))"

definition validate_outputs :: "'f node \<Rightarrow> tensor_map \<Rightarrow> unit outcome" where
  "validate_outputs info outputsInfo =
     check_each (\<lambda>(_, tensorOutput). validateShapeWithDemultiplexer (ti_shape tensorOutput) info) outputsInfo"

definition validateNode ::
  "('f, 'r) Backend \<Rightarrow> (string \<times> 'r) list \<Rightarrow> 'f node list \<Rightarrow> pipeline_connections \<Rightarrow> 'f node \<Rightarrow> unit outcome" where
  "validateNode be resources nodeInfos connections dependant =
     rbind (if ni_kind dependant = CUSTOM \<and> \<not> nl_isValid (ni_library dependant)
            then returned SC_PIPELINE_DEFINITION_INVALID_NODE_LIBRARY else Inr ()) (\<lambda>_.
     rbind (fetchMetadata be resources dependant) (\<lambda>(inputsInfo, outputsInfo).
     rbind (if ni_kind dependant = DL
            then rbind (checkForForbiddenDynamicParameters be dependant) (\<lambda>_.
              checkForForbiddenStringDemultiplicator dependant inputsInfo)
            else Inr ()) (\<lambda>_.
     rbind (if is_computing dependant then validate_outputs dependant outputsInfo else Inr ()) (\<lambda>_.
     rbind (if ni_gatherFromNode dependant \<noteq> {} then validateGatherNode nodeInfos dependant else Inr ()) (\<lambda>_.
     rbind (validate_connections be resources nodeInfos dependant inputsInfo
              (connected_to connections (ni_nodeName dependant)) (map fst inputsInfo)) (\<lambda>remaining.
       if remaining \<noteq> [] then returned SC_PIPELINE_NOT_ALL_INPUTS_CONNECTED else Inr ()))))))"

definition kind_count :: "NodeKind \<Rightarrow> 'l NodeInfo list \<Rightarrow> nat" where
  "kind_count kind nodeInfos = length (filter (\<lambda>info. ni_kind info = kind) nodeInfos)"

text \<open>The counts over all nodes, then the nodes one by one.\<close>

definition check_counts :: "'l NodeInfo list \<Rightarrow> unit outcome" where
  "check_counts nodeInfos =
     (if kind_count ENTRY nodeInfos = 0 then returned SC_PIPELINE_MISSING_ENTRY_OR_EXIT
      else if kind_count EXIT nodeInfos = 0 then returned SC_PIPELINE_MISSING_ENTRY_OR_EXIT
      else if 1 < kind_count ENTRY nodeInfos then returned SC_PIPELINE_MULTIPLE_ENTRY_NODES
      else if 1 < kind_count EXIT nodeInfos then returned SC_PIPELINE_MULTIPLE_EXIT_NODES
      else if list_ex (\<lambda>info. ni_demultiplyCount info = Some (-1)) nodeInfos \<and>
          1 < length (filter (\<lambda>info. ni_demultiplyCount info \<noteq> None) nodeInfos)
      then returned SC_NOT_IMPLEMENTED
      else Inr ())"

definition validateNodes ::
  "('f, 'r) Backend \<Rightarrow> (string \<times> 'r) list \<Rightarrow> 'f node list \<Rightarrow> pipeline_connections \<Rightarrow> unit outcome" where
  "validateNodes be resources nodeInfos connections =
     rbind (check_counts nodeInfos) (\<lambda>_.
       check_each (\<lambda>node.
         if 1 < length (filter (\<lambda>info. ni_nodeName info = ni_nodeName node) nodeInfos)
         then returned SC_PIPELINE_NODE_NAME_DUPLICATE
         else validateNode be resources nodeInfos connections node) nodeInfos)"

section \<open>Inputs and outputs of the pipeline\<close>

text \<open>
  The maps of the definition are changed in place, so a function returns what the map holds when it
  ends, also when it ends with a failure.
\<close>

type_synonym 's update = "'s \<times> unit outcome"

definition and_then :: "'s update \<Rightarrow> ('s \<Rightarrow> 's update) \<Rightarrow> 's update" where
  "and_then u f = (case u of (s, Inl e) \<Rightarrow> (s, Inl e) | (s, Inr _) \<Rightarrow> f s)"

fun update_each :: "('a \<Rightarrow> 's \<Rightarrow> 's update) \<Rightarrow> 'a list \<Rightarrow> 's \<Rightarrow> 's update" where
  "update_each f [] s = (s, Inr ())"
| "update_each f (x # xs) s = and_then (f x s) (update_each f xs)"

definition with_value :: "'a outcome \<Rightarrow> 's \<Rightarrow> ('a \<Rightarrow> 's update) \<Rightarrow> 's update" where
  "with_value v s f = (case v of Inl e \<Rightarrow> (s, Inl e) | Inr x \<Rightarrow> f x)"

definition find_node :: "'f node list \<Rightarrow> string \<Rightarrow> 'f node outcome" where
  "find_node nodeInfos name = (case findNodeByName nodeInfos name of None \<Rightarrow> Inl Undefined | Some info \<Rightarrow> Inr info)"

definition updateInputsInfoWithNodeConnection :: "TensorInfo \<Rightarrow> string \<Rightarrow> tensor_map \<Rightarrow> tensor_map update" where
  "updateInputsInfoWithNodeConnection tensorInfo alias inputsInfo =
     (let newTensorInfo = new_TensorInfo_layout alias (ti_precision tensorInfo) (ti_shape tensorInfo) (ti_layout tensorInfo)
      in case map_of inputsInfo alias of
           None \<Rightarrow> (map_put alias newTensorInfo inputsInfo, Inr ())
         | Some it \<Rightarrow>
             if isTensorSpecEqual it newTensorInfo then (map_put alias newTensorInfo inputsInfo, Inr ())
             else with_value (raising (ti_createIntersection it newTensorInfo)) inputsInfo (\<lambda>intersection.
                    case intersection of
                      None \<Rightarrow> (inputsInfo, returned SC_PIPELINE_INPUTS_AMBIGUOUS_METADATA)
                    | Some i \<Rightarrow> (map_put alias i inputsInfo, Inr ())))"

definition updateInputsInfoWithNodeConnections :: "tensor_map \<Rightarrow> Aliases \<Rightarrow> tensor_map \<Rightarrow> tensor_map update" where
  "updateInputsInfoWithNodeConnections info mapping inputsInfo =
     update_each (\<lambda>(alias, realName) inputs.
       with_value (map_at info realName) inputs (\<lambda>t. updateInputsInfoWithNodeConnection t alias inputs)) mapping inputsInfo"

text \<open>What one connection from the entry node adds to the inputs.\<close>

definition inputs_of_connection ::
  "('f, 'r) Backend \<Rightarrow> (string \<times> 'r) list \<Rightarrow> 'f node list \<Rightarrow> string \<Rightarrow> string \<times> Aliases \<Rightarrow> tensor_map \<Rightarrow> tensor_map update" where
  "inputs_of_connection be resources nodeInfos dependantName connection inputsInfo =
     (let (dependencyName, mapping) = connection in
      with_value (find_node nodeInfos dependencyName) inputsInfo (\<lambda>dependency.
        if ni_kind dependency \<noteq> ENTRY then (inputsInfo, Inr ())
        else with_value (find_node nodeInfos dependantName) inputsInfo (\<lambda>dependant.
          case ni_kind dependant of
            EXIT \<Rightarrow> (fold (\<lambda>(alias, _). map_emplace alias getUnspecifiedTensorInfo) mapping inputsInfo, Inr ())
          | DL \<Rightarrow>
              with_value (model_metadata (be_getModelInputsInfo be (ni_modelName dependant) (version_of dependant))
                  SC_MODEL_MISSING) inputsInfo
                (\<lambda>info. updateInputsInfoWithNodeConnections info mapping inputsInfo)
          | CUSTOM \<Rightarrow>
              if \<not> nl_isValid (ni_library dependant) then (inputsInfo, returned SC_NODE_LIBRARY_MISSING)
              else with_value (custom_metadata be resources dependant nl_getInputsInfo) inputsInfo
                (\<lambda>info. updateInputsInfoWithNodeConnections info mapping inputsInfo)
          | ENTRY \<Rightarrow> (inputsInfo, returned SC_UNKNOWN_ERROR))))"

text \<open>The count of the entry node is read as a 32-bit number.\<close>

definition demultiplexer_dimension :: "64 word \<Rightarrow> Dimension outcome" where
  "demultiplexer_dimension n =
     (let demultiplyCount = signed_take_bit 31 (uint n)
      in if demultiplyCount \<noteq> 0 then raising (Dimension_static demultiplyCount) else Inr dim_any)"

fun demultiplex_inputs :: "64 word \<Rightarrow> tensor_map \<Rightarrow> tensor_map update" where
  "demultiplex_inputs n [] = ([], Inr ())"
| "demultiplex_inputs n ((name, info) # rest) =
     (case demultiplexer_dimension n of
        Inl e \<Rightarrow> ((name, info) # rest, Inl e)
      | Inr dim \<Rightarrow>
          (case demultiplex_inputs n rest of
             (rest', r) \<Rightarrow> ((name, createCopyWithDemultiplexerDimensionPrefix dim info) # rest', r)))"

definition updateInputsInfo ::
  "('f, 'r) Backend \<Rightarrow> (string \<times> 'r) list \<Rightarrow> 'f node list \<Rightarrow> pipeline_connections \<Rightarrow> tensor_map update" where
  "updateInputsInfo be resources nodeInfos connections =
     and_then
       (update_each (\<lambda>(dependantName, mappings).
          update_each (inputs_of_connection be resources nodeInfos dependantName) mappings) connections [])
       (\<lambda>inputsInfo.
          case List.find (\<lambda>info. ni_kind info = ENTRY \<and> ni_demultiplyCount info \<noteq> None) nodeInfos of
            None \<Rightarrow> (inputsInfo, Inr ())
          | Some it \<Rightarrow> demultiplex_inputs (the (ni_demultiplyCount it)) inputsInfo)"

text \<open>
  The dimension of a gathered demultiplexer; \<open>None\<close> ends the search. The search is recursive without
  a bound, here the fuel.
\<close>

definition gather_dimension ::
  "('f, 'r) Backend \<Rightarrow> (string \<times> 'r) list \<Rightarrow> 'f node \<Rightarrow> Dimension option outcome" where
  "gather_dimension be resources info =
     (let demultiplyCount = (case ni_demultiplyCount info of None \<Rightarrow> 0 | Some c \<Rightarrow> sint c) in
      rbind (if demultiplyCount = 0 then Inr dim_any else raising (Dimension_static demultiplyCount)) (\<lambda>dim.
        if dim_isAny dim \<and> ni_kind info = CUSTOM then
          (case custom_metadata be resources info nl_getOutputsInfo of
             Inl (Returned _) \<Rightarrow> Inr None
           | Inl e \<Rightarrow> Inl e
           | Inr [] \<Rightarrow> Inr None
           | Inr ((_, output) # _) \<Rightarrow>
               if length (ti_shape output) < 3 then Inr None else Inr (Some (ti_shape output ! 0)))
        else Inr (Some dim)))"

fun gather_search ::
  "nat \<Rightarrow> ('f, 'r) Backend \<Rightarrow> (string \<times> 'r) list \<Rightarrow> 'f node list \<Rightarrow> pipeline_connections \<Rightarrow> string set \<Rightarrow> string \<Rightarrow> Shape outcome" where
  "gather_search 0 be resources nodeInfos connections gatherFrom nodeName = Inl (Raised Diverges)"
| "gather_search (Suc fuel) be resources nodeInfos connections gatherFrom nodeName =
     (case map_of connections nodeName of
        None \<Rightarrow> Inr []
      | Some ms \<Rightarrow>
          rbind (if nodeName \<in> gatherFrom
                 then rbind (find_node nodeInfos nodeName) (\<lambda>info.
                   rbind (gather_dimension be resources info) (\<lambda>dim. Inr (map_option (\<lambda>d. [d]) dim)))
                 else Inr (Some [])) (\<lambda>found.
            case found of
              None \<Rightarrow> Inr []
            | Some ds \<Rightarrow>
                rbind (case ms of [] \<Rightarrow> Inr []
                       | (m, _) # _ \<Rightarrow> gather_search fuel be resources nodeInfos connections gatherFrom m)
                  (\<lambda>rest. Inr (ds @ rest))))"

definition getNodeGatherShape ::
  "('f, 'r) Backend \<Rightarrow> (string \<times> 'r) list \<Rightarrow> 'f node list \<Rightarrow> pipeline_connections \<Rightarrow> 'f node \<Rightarrow> Shape outcome" where
  "getNodeGatherShape be resources nodeInfos connections info =
     (if ni_gatherFromNode info = {} then Inr []
      else rbind (gather_search (Suc (length connections)) be resources nodeInfos connections
             (ni_gatherFromNode info) (ni_nodeName info)) (\<lambda>sh.
        if card (ni_gatherFromNode info) \<noteq> length sh
        then Inl (Raised (InvalidArgument ''Gather shape has different number of dimensions that gather from node elements''))
        else Inr (rev sh)))"

definition createOutputTensorInfoForPipeline :: "string \<Rightarrow> TensorInfo \<Rightarrow> Shape \<Rightarrow> bool \<Rightarrow> TensorInfo outcome" where
  "createOutputTensorInfoForPipeline mappedName tensorInfo gatherShape isConnectionFromDemultiplexer =
     (if gatherShape = [] then Inr (createCopyWithNewMappedName mappedName tensorInfo)
      else if isConnectionFromDemultiplexer \<and> ti_shape tensorInfo = [] then Inl Undefined
      else let newShape = gatherShape @ (if isConnectionFromDemultiplexer then tl (ti_shape tensorInfo) else ti_shape tensorInfo)
           in Inr (createCopyWithNewMappedName mappedName (createCopyWithNewShape newShape tensorInfo)))"

definition populate_outputs :: "'f node \<Rightarrow> tensor_map \<Rightarrow> Shape \<Rightarrow> Aliases \<Rightarrow> tensor_map \<Rightarrow> tensor_map update" where
  "populate_outputs dependency info gatherShape mapping outputsInfo =
     update_each (\<lambda>(alias, realName) outputs.
       let finalName = (case map_of (ni_outputNameAliases dependency) alias of None \<Rightarrow> alias | Some n \<Rightarrow> n)
       in with_value (map_at info finalName) outputs (\<lambda>t.
            with_value (createOutputTensorInfoForPipeline realName t gatherShape (ni_demultiplyCount dependency \<noteq> None))
              outputs (\<lambda>out. (map_put realName out outputs, Inr ())))) mapping outputsInfo"

definition outputs_of_connection ::
  "('f, 'r) Backend \<Rightarrow> (string \<times> 'r) list \<Rightarrow> 'f node list \<Rightarrow> Shape \<Rightarrow> string \<times> Aliases \<Rightarrow> tensor_map \<Rightarrow> tensor_map update" where
  "outputs_of_connection be resources nodeInfos gatherShape connection outputsInfo =
     (let (dependencyName, mapping) = connection in
      with_value (find_node nodeInfos dependencyName) outputsInfo (\<lambda>dependency.
        case ni_kind dependency of
          ENTRY \<Rightarrow> (fold (\<lambda>(_, realName). map_emplace realName getUnspecifiedTensorInfo) mapping outputsInfo, Inr ())
        | DL \<Rightarrow>
            with_value (model_metadata (be_getModelOutputsInfo be (ni_modelName dependency) (version_of dependency))
                SC_MODEL_MISSING) outputsInfo
              (\<lambda>info. populate_outputs dependency info gatherShape mapping outputsInfo)
        | CUSTOM \<Rightarrow>
            if \<not> nl_isValid (ni_library dependency) then (outputsInfo, returned SC_NODE_LIBRARY_MISSING)
            else with_value (custom_metadata be resources dependency nl_getOutputsInfo) outputsInfo
              (\<lambda>info. populate_outputs dependency info gatherShape mapping outputsInfo)
        | EXIT \<Rightarrow> (outputsInfo, returned SC_UNKNOWN_ERROR)))"

definition updateOutputsInfo ::
  "('f, 'r) Backend \<Rightarrow> (string \<times> 'r) list \<Rightarrow> 'f node list \<Rightarrow> pipeline_connections \<Rightarrow> tensor_map update" where
  "updateOutputsInfo be resources nodeInfos connections =
     update_each (\<lambda>(dependantName, mappings) outputsInfo.
       with_value (find_node nodeInfos dependantName) outputsInfo (\<lambda>dependant.
         if ni_kind dependant \<noteq> EXIT then (outputsInfo, Inr ())
         else with_value (getNodeGatherShape be resources nodeInfos connections dependant) outputsInfo (\<lambda>gatherShape.
           update_each (outputs_of_connection be resources nodeInfos gatherShape) mappings outputsInfo)))
       connections []"

section \<open>The definition and its operations\<close>

record ('f, 'r) PipelineDefinition =
  pd_name :: string
  pd_nodeInfos :: "'f node list"
  pd_connections :: pipeline_connections
  pd_nodeResources :: "(string \<times> 'r) list"
  pd_inputsInfo :: tensor_map
  pd_outputsInfo :: tensor_map
  pd_status :: PipelineState
  pd_subscriptions :: "(string \<times> int) list"

definition new_PipelineDefinition :: "string \<Rightarrow> 'f node list \<Rightarrow> pipeline_connections \<Rightarrow> ('f, 'r) PipelineDefinition" where
  "new_PipelineDefinition name nodeInfos connections =
     \<lparr>pd_name = name, pd_nodeInfos = nodeInfos, pd_connections = connections, pd_nodeResources = [],
      pd_inputsInfo = [], pd_outputsInfo = [], pd_status = pds_initial, pd_subscriptions = []\<rparr>"

text \<open>An entry that is there is kept by \<open>emplace\<close>, also when the library is another one.\<close>

definition initialize_node ::
  "('f, 'r) Backend \<Rightarrow> 'f node \<Rightarrow> (string \<times> 'r) list \<Rightarrow> (string \<times> 'r) list update" where
  "initialize_node be info resources =
     (if ni_kind info \<noteq> CUSTOM then (resources, Inr ())
      else if \<not> nl_isValid (ni_library info) then (resources, returned SC_PIPELINE_DEFINITION_INVALID_NODE_LIBRARY)
      else let (status, manager) = be_initialize be (the (nl_initialize (ni_library info))) (ni_parameters info)
           in if status \<noteq> 0 then (resources, returned SC_NODE_LIBRARY_INITIALIZE_FAILED)
              else (map_emplace (ni_nodeName info) manager resources, Inr ()))"

definition initializeNodeResources ::
  "('f, 'r) Backend \<Rightarrow> 'f node list \<Rightarrow> (string \<times> 'r) list \<Rightarrow> (string \<times> 'r) list update" where
  "initializeNodeResources be nodeInfos resources = update_each (initialize_node be) nodeInfos resources"

definition calculateNodeInfosDiff :: "'f node list \<Rightarrow> 'f node list \<Rightarrow> 'f node list" where
  "calculateNodeInfosDiff own nodeInfos =
     filter (\<lambda>info. \<not> list_ex (\<lambda>x. ni_nodeName x = ni_nodeName info) nodeInfos) own"

definition deinitializeNodeResources :: "'f node list \<Rightarrow> (string \<times> 'r) list \<Rightarrow> (string \<times> 'r) list" where
  "deinitializeNodeResources nodeInfosDiff resources =
     filter (\<lambda>(name, _). \<not> list_ex (\<lambda>info. ni_kind info = CUSTOM \<and> ni_nodeName info = name) nodeInfosDiff) resources"

definition returned_status :: "StatusCode \<Rightarrow> unit outcome" where
  "returned_status s = (if s = SC_OK then Inr () else returned s)"

text \<open>The steps of the validation under the notifier.\<close>

definition check_name :: "('f, 'r) Backend \<Rightarrow> ('f, 'r) PipelineDefinition \<Rightarrow> ('f, 'r) PipelineDefinition update" where
  "check_name be pd =
     (pd, if be_servableExists be (pd_name pd) then returned SC_PIPELINE_NAME_OCCUPIED else Inr ())"

definition initialize_resources :: "('f, 'r) Backend \<Rightarrow> ('f, 'r) PipelineDefinition \<Rightarrow> ('f, 'r) PipelineDefinition update" where
  "initialize_resources be pd =
     map_prod (\<lambda>r. pd\<lparr>pd_nodeResources := r\<rparr>) id
       (initializeNodeResources be (pd_nodeInfos pd) (pd_nodeResources pd))"

definition validate_nodes :: "('f, 'r) Backend \<Rightarrow> ('f, 'r) PipelineDefinition \<Rightarrow> ('f, 'r) PipelineDefinition update" where
  "validate_nodes be pd = (pd, validateNodes be (pd_nodeResources pd) (pd_nodeInfos pd) (pd_connections pd))"

definition validate_cycles :: "('f, 'r) PipelineDefinition \<Rightarrow> ('f, 'r) PipelineDefinition update" where
  "validate_cycles pd =
     (let (s, connections) = validateForCycles (pd_nodeInfos pd) (pd_connections pd)
      in (pd\<lparr>pd_connections := connections\<rparr>, returned_status s))"

definition validate_gather_order :: "('f, 'r) PipelineDefinition \<Rightarrow> ('f, 'r) PipelineDefinition update" where
  "validate_gather_order pd =
     (case validateDemultiplexerGatherNodesOrder (pd_nodeInfos pd) (pd_connections pd) of
        None \<Rightarrow> (pd, Inl Undefined)
      | Some (s, connections) \<Rightarrow> (pd\<lparr>pd_connections := connections\<rparr>, returned_status s))"

definition update_inputs :: "('f, 'r) Backend \<Rightarrow> ('f, 'r) PipelineDefinition \<Rightarrow> ('f, 'r) PipelineDefinition update" where
  "update_inputs be pd =
     map_prod (\<lambda>m. pd\<lparr>pd_inputsInfo := m\<rparr>) id
       (updateInputsInfo be (pd_nodeResources pd) (pd_nodeInfos pd) (pd_connections pd))"

definition update_outputs :: "('f, 'r) Backend \<Rightarrow> ('f, 'r) PipelineDefinition \<Rightarrow> ('f, 'r) PipelineDefinition update" where
  "update_outputs be pd =
     map_prod (\<lambda>m. pd\<lparr>pd_outputsInfo := m\<rparr>) id
       (updateOutputsInfo be (pd_nodeResources pd) (pd_nodeInfos pd) (pd_connections pd))"

definition validation_steps :: "('f, 'r) Backend \<Rightarrow> ('f, 'r) PipelineDefinition \<Rightarrow> ('f, 'r) PipelineDefinition update" where
  "validation_steps be pd =
     and_then (check_name be pd) (\<lambda>pd.
     and_then (initialize_resources be pd) (\<lambda>pd.
     and_then (validate_nodes be pd) (\<lambda>pd.
     and_then (validate_cycles pd) (\<lambda>pd.
     and_then (validate_gather_order pd) (\<lambda>pd.
     and_then (update_inputs be pd) (update_outputs be))))))"

text \<open>
  The destructor of the notifier reports the result to the state machine; it must not raise: a
  transition that the state machine refuses ends the process.
\<close>

definition terminated :: exn where
  "terminated = RuntimeError ''std::terminate''"

definition pd_validate :: "('f, 'r) Backend \<Rightarrow> ('f, 'r) PipelineDefinition \<Rightarrow> ('f, 'r) PipelineDefinition update" where
  "pd_validate be pd =
     (let (pd', r) = validation_steps be pd
      in case pds_handle (pd_status pd') (if r = Inr () then ValidationPassedEvent else ValidationFailedEvent) of
           Inl _ \<Rightarrow> (pd', Inl (Raised terminated))
         | Inr s \<Rightarrow> (pd'\<lparr>pd_status := s\<rparr>, r))"

text \<open>The subscriptions to models that exist; \<open>subscribes\<close> says which do.\<close>

definition makeSubscriptions :: "(string \<Rightarrow> int \<Rightarrow> bool) \<Rightarrow> ('f, 'r) PipelineDefinition \<Rightarrow> ('f, 'r) PipelineDefinition" where
  "makeSubscriptions subscribes pd =
     pd\<lparr>pd_subscriptions := fold (\<lambda>info subs.
       let key = (ni_modelName info, version_of info)
       in if ni_kind info \<noteq> DL \<or> key \<in> set subs \<or> \<not> subscribes (fst key) (snd key) then subs else subs @ [key])
       (pd_nodeInfos pd) (pd_subscriptions pd)\<rparr>"

definition resetSubscriptions :: "('f, 'r) PipelineDefinition \<Rightarrow> ('f, 'r) PipelineDefinition" where
  "resetSubscriptions pd = pd\<lparr>pd_subscriptions := []\<rparr>"

definition pd_receiveNotification :: "('f, 'r) PipelineDefinition \<Rightarrow> ('f, 'r) PipelineDefinition update" where
  "pd_receiveNotification pd =
     with_value (raising (pds_handle (pd_status pd) UsedModelChangedEvent)) pd (\<lambda>s. (pd\<lparr>pd_status := s\<rparr>, Inr ()))"

text \<open>The wait for the requests in flight is left out: it ends before the nodes are replaced.\<close>

definition pd_reload ::
  "('f, 'r) Backend \<Rightarrow> (string \<Rightarrow> int \<Rightarrow> bool) \<Rightarrow> 'f node list \<Rightarrow> pipeline_connections
     \<Rightarrow> ('f, 'r) PipelineDefinition \<Rightarrow> ('f, 'r) PipelineDefinition update" where
  "pd_reload be subscribes nodeInfos connections pd =
     with_value (raising (pds_handle (pd_status pd) ReloadEvent)) pd (\<lambda>s.
       let pd1 = resetSubscriptions (pd\<lparr>pd_status := s\<rparr>);
           resources = deinitializeNodeResources (calculateNodeInfosDiff (pd_nodeInfos pd1) nodeInfos) (pd_nodeResources pd1)
       in pd_validate be (makeSubscriptions subscribes
            (pd1\<lparr>pd_nodeResources := resources, pd_nodeInfos := nodeInfos, pd_connections := connections\<rparr>)))"

definition pd_retire :: "('f, 'r) PipelineDefinition \<Rightarrow> ('f, 'r) PipelineDefinition update" where
  "pd_retire pd =
     (let pd1 = resetSubscriptions pd
      in with_value (raising (pds_handle (pd_status pd1) RetireEvent)) pd1 (\<lambda>s.
           (pd1\<lparr>pd_status := s, pd_nodeResources := [], pd_nodeInfos := [], pd_connections := []\<rparr>, Inr ())))"

section \<open>The factory\<close>

type_synonym ('f, 'r) definitions = "(string \<times> ('f, 'r) PipelineDefinition) list"

definition findDefinitionByName :: "('f, 'r) definitions \<Rightarrow> string \<Rightarrow> ('f, 'r) PipelineDefinition option" where
  "findDefinitionByName definitions name = map_of definitions name"

definition createDefinition ::
  "('f, 'r) Backend \<Rightarrow> (string \<Rightarrow> int \<Rightarrow> bool) \<Rightarrow> string \<Rightarrow> 'f node list \<Rightarrow> pipeline_connections
     \<Rightarrow> ('f, 'r) definitions \<Rightarrow> ('f, 'r) definitions update" where
  "createDefinition be subscribes pipelineName nodeInfos connections definitions =
     (if findDefinitionByName definitions pipelineName \<noteq> None
      then (definitions, returned SC_PIPELINE_DEFINITION_ALREADY_EXIST)
      else case pd_validate be (makeSubscriptions subscribes (new_PipelineDefinition pipelineName nodeInfos connections)) of
             (pd, Inr _) \<Rightarrow> (map_put pipelineName pd definitions, Inr ())
           | (pd, Inl (Returned s)) \<Rightarrow>
               if s = SC_PIPELINE_NAME_OCCUPIED then (definitions, returned s)
               else (map_put pipelineName pd definitions, returned s)
           | (pd, Inl e) \<Rightarrow> (definitions, Inl e))"

definition reloadDefinition ::
  "('f, 'r) Backend \<Rightarrow> (string \<Rightarrow> int \<Rightarrow> bool) \<Rightarrow> string \<Rightarrow> 'f node list \<Rightarrow> pipeline_connections
     \<Rightarrow> ('f, 'r) definitions \<Rightarrow> ('f, 'r) definitions update" where
  "reloadDefinition be subscribes pipelineName nodeInfos connections definitions =
     (case findDefinitionByName definitions pipelineName of
        None \<Rightarrow> (definitions, returned SC_UNKNOWN_ERROR)
      | Some pd \<Rightarrow>
          (case pd_reload be subscribes nodeInfos connections pd of
             (pd', r) \<Rightarrow> (map_put pipelineName pd' definitions, r)))"

text \<open>An exception leaves the loop; an error status is kept, the first one is returned.\<close>

fun revalidate_loop :: "('f, 'r) Backend \<Rightarrow> ('f, 'r) definitions \<Rightarrow> unit outcome \<Rightarrow> ('f, 'r) definitions update" where
  "revalidate_loop be [] first = ([], first)"
| "revalidate_loop be ((name, pd) # rest) first =
     (if \<not> pds_isRevalidationRequired (pd_status pd)
      then (case revalidate_loop be rest first of (rest', r) \<Rightarrow> ((name, pd) # rest', r))
      else case pd_validate be pd of
             (pd', Inr _) \<Rightarrow> (case revalidate_loop be rest first of (rest', r) \<Rightarrow> ((name, pd') # rest', r))
           | (pd', Inl (Returned s)) \<Rightarrow>
               (case revalidate_loop be rest (if first = Inr () then returned s else first) of
                  (rest', r) \<Rightarrow> ((name, pd') # rest', r))
           | (pd', Inl e) \<Rightarrow> ((name, pd') # rest, Inl e))"

definition revalidatePipelines :: "('f, 'r) Backend \<Rightarrow> ('f, 'r) definitions \<Rightarrow> ('f, 'r) definitions update" where
  "revalidatePipelines be definitions = revalidate_loop be definitions (Inr ())"

fun retireOtherThan :: "string set \<Rightarrow> ('f, 'r) definitions \<Rightarrow> ('f, 'r) definitions update" where
  "retireOtherThan pipelinesInConfigFile [] = ([], Inr ())"
| "retireOtherThan pipelinesInConfigFile ((name, pd) # rest) =
     (if pd_name pd \<notin> pipelinesInConfigFile \<and> pds_getStateCode (pd_status pd) \<noteq> RETIRED
      then (case pd_retire pd of
              (pd', Inl e) \<Rightarrow> ((name, pd') # rest, Inl e)
            | (pd', Inr _) \<Rightarrow> (case retireOtherThan pipelinesInConfigFile rest of (rest', r) \<Rightarrow> ((name, pd') # rest', r)))
      else (case retireOtherThan pipelinesInConfigFile rest of (rest', r) \<Rightarrow> ((name, pd) # rest', r)))"

definition getNamesOfAvailablePipelines :: "('f, 'r) definitions \<Rightarrow> string list" where
  "getNamesOfAvailablePipelines definitions =
     map (\<lambda>(_, pd). pd_name pd) (filter (\<lambda>(_, pd). pds_isAvailable (pd_status pd)) definitions)"

definition getPipelinesNames :: "('f, 'r) definitions \<Rightarrow> string list" where
  "getPipelinesNames definitions = map (\<lambda>(_, pd). pd_name pd) definitions"

section \<open>What a validated node relies on\<close>

lemma returned_not_Inr [simp]: "returned s \<noteq> Inr x" "Inr x \<noteq> returned s"
  by (simp_all add: returned_def)

lemma raising_Inr [simp]: "raising r = Inr x \<longleftrightarrow> r = Inr x"
  by (cases r) simp_all

lemma map_at_Inr: "map_at m k = Inr v \<longleftrightarrow> map_of m k = Some v"
  by (simp add: map_at_def split: option.split)

lemma rbind_unit_Inr: "rbind m (\<lambda>_. f) = Inr y \<longleftrightarrow> (\<exists>x. m = Inr x) \<and> f = Inr y"
  by (cases m) auto

text \<open>The inputs of a node that its connections feed, in order and with repetitions.\<close>

definition fed_inputs :: "(string \<times> Aliases) list \<Rightarrow> string list" where
  "fed_inputs connected = concat (map (\<lambda>(_, mapping). map snd mapping) connected)"

lemma marked_once:
  "markInputAsConnected inputsInfo name remaining = Inr remaining' \<Longrightarrow> distinct remaining \<Longrightarrow>
     distinct remaining' \<and> mset remaining = add_mset name (mset remaining')"
  by (auto simp: markInputAsConnected_def distinct_removeAll distinct_remove1_removeAll [symmetric] split: if_split_asm)

lemma validate_mapping_marks:
  assumes "validate_mapping nodeInfos dependant inputsInfo dependency outs m remaining = Inr remaining'" "is_computing dependant"
  shows "markInputAsConnected inputsInfo (snd m) remaining = Inr remaining'"
  using assms by (cases m) (auto simp: validate_mapping_def rbind_Inr_iff)

lemma validate_mappings_mark:
  assumes "validate_mappings nodeInfos dependant inputsInfo dependency outs ms remaining = Inr remaining'"
    and "is_computing dependant" "distinct remaining"
  shows "distinct remaining' \<and> mset remaining = mset (map snd ms) + mset remaining'"
  using assms
proof (induction ms arbitrary: remaining)
  case (Cons m ms)
  obtain r where r: "validate_mapping nodeInfos dependant inputsInfo dependency outs m remaining = Inr r"
    "validate_mappings nodeInfos dependant inputsInfo dependency outs ms r = Inr remaining'"
    using Cons.prems(1) by (auto simp: rbind_Inr_iff)
  note marked = marked_once [OF validate_mapping_marks [OF r(1) Cons.prems(2)] Cons.prems(3)]
  then show ?case using Cons.IH [OF r(2) Cons.prems(2)] by simp
qed simp

lemma validate_connections_mark:
  assumes "validate_connections be resources nodeInfos dependant inputsInfo cs remaining = Inr remaining'"
    and "is_computing dependant" "distinct remaining"
  shows "distinct remaining' \<and> mset remaining = mset (fed_inputs cs) + mset remaining'"
  using assms
proof (induction cs arbitrary: remaining)
  case Nil
  then show ?case by (simp add: fed_inputs_def)
next
  case (Cons c cs)
  obtain name mapping where c: "c = (name, mapping)" by (cases c)
  obtain dependency r outs where r:
    "validate_mappings nodeInfos dependant inputsInfo dependency outs mapping remaining = Inr r"
    "validate_connections be resources nodeInfos dependant inputsInfo cs r = Inr remaining'"
    using Cons.prems(1) by (auto simp: c rbind_Inr_iff validateConnection_def split: if_split_asm)
  from validate_mappings_mark [OF r(1) Cons.prems(2,3)]
  show ?case using Cons.IH [OF r(2) Cons.prems(2)] by (auto simp: c fed_inputs_def)
qed

lemma validateNode_parts:
  assumes "validateNode be resources nodeInfos connections node = Inr ()"
  obtains inputs outputs where "fetchMetadata be resources node = Inr (inputs, outputs)"
    "ni_gatherFromNode node \<noteq> {} \<longrightarrow> validateGatherNode nodeInfos node = Inr ()"
    "is_computing node \<longrightarrow> validate_outputs node outputs = Inr ()"
    "validate_connections be resources nodeInfos node inputs (connected_to connections (ni_nodeName node)) (map fst inputs) = Inr []"
  using assms unfolding validateNode_def
  by (fastforce simp: rbind_Inr_iff split: if_split_asm)

text \<open>
  C8: In a validated pipeline every input of a model or custom node is fed exactly once: the names that
  the connections into the node mention are, with multiplicities, the names of its inputs.
\<close>

theorem validated_inputs_have_one_source:
  assumes "validateNode be resources nodeInfos connections node = Inr ()" "is_computing node"
    and "fetchMetadata be resources node = Inr (inputs, outputs)" "distinct (map fst inputs)"
  shows "mset (fed_inputs (connected_to connections (ni_nodeName node))) = mset (map fst inputs)"
proof -
  have "validate_connections be resources nodeInfos node inputs (connected_to connections (ni_nodeName node)) (map fst inputs) = Inr []"
    using validateNode_parts [OF assms(1)] assms(3) by (metis Inr_inject Pair_inject)
  from validate_connections_mark [OF this assms(2,4)] show ?thesis by simp
qed

lemma validate_mappings_each:
  assumes "validate_mappings nodeInfos dependant inputsInfo dependency outs ms remaining = Inr remaining'" "m \<in> set ms"
  shows "\<exists>r r'. validate_mapping nodeInfos dependant inputsInfo dependency outs m r = Inr r'"
  using assms by (induction ms arbitrary: remaining) (auto simp: rbind_Inr_iff)

lemma validate_connections_each:
  assumes "validate_connections be resources nodeInfos dependant inputsInfo cs remaining = Inr remaining'" "(name, mapping) \<in> set cs"
  shows "\<exists>dependency r r'. getDependencyNodeInfo nodeInfos name = Inr dependency \<and>
    validateConnection be resources nodeInfos dependant inputsInfo dependency mapping r = Inr r'"
  using assms
proof (induction cs arbitrary: remaining)
  case (Cons c cs)
  obtain n ms where c: "c = (n, ms)" by (cases c)
  obtain dependency r where r: "getDependencyNodeInfo nodeInfos n = Inr dependency"
    "validateConnection be resources nodeInfos dependant inputsInfo dependency ms remaining = Inr r"
    "validate_connections be resources nodeInfos dependant inputsInfo cs r = Inr remaining'"
    using Cons.prems(1) by (auto simp: c rbind_Inr_iff split: if_split_asm)
  show ?case
  proof (cases "c = (name, mapping)")
    case True
    then show ?thesis using r(1,2) c by auto
  next
    case False
    then show ?thesis using Cons.IH [OF r(3)] Cons.prems(2) by auto
  qed
qed simp

lemma fitting_dims_Inr:
  "fitting_dims ps = Inr True \<longleftrightarrow> (\<forall>(i, out)\<in>set ps. partiallyFitsInto i out = Inr True)"
  by (induction ps rule: fitting_dims.induct) (auto simp: rbind_Inr_iff)

lemma areShapesMatching_iff:
  "areShapesMatching s t = Inr True \<longleftrightarrow> list_all2 (\<lambda>i out. partiallyFitsInto i out = Inr True) s t"
  by (auto simp: areShapesMatching_def fitting_dims_Inr list_all2_iff)

lemma influenced_shape:
  "influenceShapeWithDemultiplexer sh info = Inr sh' \<Longrightarrow> sh' = tl sh"
  by (auto simp: influenceShapeWithDemultiplexer_def rbind_Inr_iff split: if_split_asm)

lemma demultiplied_shape:
  "demultiplied_output_shape info sh = Inr sh' \<Longrightarrow> sh' = (if ni_demultiplyCount info = None then sh else tl sh)"
  using influenced_shape by (auto simp: demultiplied_output_shape_def split: if_split_asm)

lemma with_message_Inr: "with_message sh r = Inr x \<longleftrightarrow> r = Inr x"
  by (cases r) (auto simp: with_message_def split: failure.split)

lemma gathered_shape:
  assumes "gathered_input_shape nodeInfos node sh = Inr sh'" "finite (ni_gatherFromNode node)"
  shows "sh' = (if ni_gatherFromNode node = {} then sh else tl sh)"
proof (cases "card (ni_gatherFromNode node) = 1")
  case True
  then obtain info :: "'a node" where "influenceShapeWithDemultiplexer sh info = Inr sh'"
    using assms(1) by (auto simp: gathered_input_shape_def rbind_Inr_iff with_message_Inr)
  then have "sh' = tl sh" by (rule influenced_shape)
  then show ?thesis using True by auto
next
  case False
  then have "card (ni_gatherFromNode node) = 0 \<and> sh' = sh"
    using assms(1) by (auto simp: gathered_input_shape_def split: if_split_asm)
  then show ?thesis using assms(2) by auto
qed

text \<open>The shapes of two connected tensors, without the dimensions that are gathered and demultiplied.\<close>

definition connected_shapes :: "'l NodeInfo \<Rightarrow> 'l NodeInfo \<Rightarrow> Shape \<Rightarrow> Shape \<Rightarrow> bool" where
  "connected_shapes node dependency input output \<longleftrightarrow>
     list_all2 (\<lambda>i out. partiallyFitsInto i out = Inr True)
       (if ni_gatherFromNode node = {} then input else tl input)
       (if ni_demultiplyCount dependency = None then output else tl output)"

lemma checkConnectionMetadataCorrectness_Inr:
  assumes "checkConnectionMetadataCorrectness nodeInfos node inputs dependency outs real out = Inr ()"
    and "finite (ni_gatherFromNode node)"
  shows "\<exists>i t. map_of inputs real = Some i \<and> map_of outs out = Some t \<and> ti_precision i = ti_precision t \<and>
    ti_precision i \<noteq> STRING \<and> connected_shapes node dependency (ti_shape i) (ti_shape t)"
proof -
  obtain i t where it: "map_at inputs real = Inr i" "map_at outs out = Inr t"
    using assms(1) unfolding checkConnectionMetadataCorrectness_def by (auto simp: rbind_Inr_iff)
  obtain s s' where v: "demultiplied_output_shape dependency (ti_shape t) = Inr s'"
    "gathered_input_shape nodeInfos node (ti_shape i) = Inr s"
    "areShapesMatching s s' = Inr True" "ti_precision i = ti_precision t" "ti_precision i \<noteq> STRING"
    using assms(1) unfolding checkConnectionMetadataCorrectness_def it
    by (auto simp: rbind_Inr_iff split: if_split_asm)
  have "s' = (if ni_demultiplyCount dependency = None then ti_shape t else tl (ti_shape t))"
    by (rule demultiplied_shape [OF v(1)])
  then have "connected_shapes node dependency (ti_shape i) (ti_shape t)"
    using v(3) gathered_shape [OF v(2) assms(2)] by (simp add: connected_shapes_def areShapesMatching_iff)
  then show ?thesis using v(4,5) it unfolding map_at_Inr by blast
qed

text \<open>
  C20: In a validated pipeline every connection is typed: it comes from a node that exists and is no exit
  node, out of an output the node declares; between two model or custom nodes both tensors exist, have
  the same precision, not strings, and shapes that fit once the gathered and the demultiplied dimension
  are dropped.
\<close>

theorem validated_connections_are_typed:
  assumes "validateNode be resources nodeInfos connections node = Inr ()" "finite (ni_gatherFromNode node)"
    and "(name, mapping) \<in> set (connected_to connections (ni_nodeName node))" "(alias, realName) \<in> set mapping"
  shows "\<exists>dependency source. findNodeByName nodeInfos name = Some dependency \<and> ni_kind dependency \<noteq> EXIT \<and>
    map_of (ni_outputNameAliases dependency) alias = Some source \<and>
    (is_computing node \<and> is_computing dependency \<longrightarrow>
      (\<exists>inputs outputs dinputs doutputs i t. fetchMetadata be resources node = Inr (inputs, outputs) \<and>
         fetchMetadata be resources dependency = Inr (dinputs, doutputs) \<and>
         map_of inputs realName = Some i \<and> map_of doutputs source = Some t \<and>
         ti_precision i = ti_precision t \<and> ti_precision i \<noteq> STRING \<and>
         connected_shapes node dependency (ti_shape i) (ti_shape t)))"
proof -
  obtain inputs outputs where f: "fetchMetadata be resources node = Inr (inputs, outputs)"
    "validate_connections be resources nodeInfos node inputs (connected_to connections (ni_nodeName node)) (map fst inputs) = Inr []"
    using validateNode_parts [OF assms(1)] by metis
  obtain dependency r r' where d: "getDependencyNodeInfo nodeInfos name = Inr dependency"
    "validateConnection be resources nodeInfos node inputs dependency mapping r = Inr r'"
    using validate_connections_each [OF f(2) assms(3)] by blast
  obtain dinputs doutputs where df: "fetchMetadata be resources dependency = Inr (dinputs, doutputs)"
    "validate_mappings nodeInfos node inputs dependency doutputs mapping r = Inr r'"
    using d(2) by (auto simp: validateConnection_def rbind_Inr_iff)
  obtain r1 r2 where m: "validate_mapping nodeInfos node inputs dependency doutputs (alias, realName) r1 = Inr r2"
    using validate_mappings_each [OF df(2) assms(4)] by blast
  have dep: "findNodeByName nodeInfos name = Some dependency" "ni_kind dependency \<noteq> EXIT"
    using d(1) by (auto simp: getDependencyNodeInfo_def split: option.split_asm if_split_asm)
  have "checkConnectionMappedToExistingDataSource dependency doutputs alias = Inr ()"
    using m by (auto simp: validate_mapping_def rbind_Inr_iff)
  then obtain source where out: "map_of (ni_outputNameAliases dependency) alias = Some source"
    by (auto simp: checkConnectionMappedToExistingDataSource_def split: option.split_asm)
  have "\<exists>i t. map_of inputs realName = Some i \<and> map_of doutputs source = Some t \<and> ti_precision i = ti_precision t \<and>
      ti_precision i \<noteq> STRING \<and> connected_shapes node dependency (ti_shape i) (ti_shape t)"
    if c: "is_computing node" "is_computing dependency"
  proof -
    have "checkConnectionMetadataCorrectness nodeInfos node inputs dependency doutputs realName source = Inr ()"
      using m c out by (auto simp: validate_mapping_def rbind_Inr_iff map_at_Inr)
    then show ?thesis by (rule checkConnectionMetadataCorrectness_Inr) (rule assms(2))
  qed
  then show ?thesis using dep out f(1) df(1) by blast
qed

section \<open>Available pipelines are well-formed\<close>

definition well_formed_pipeline :: "'f node list \<Rightarrow> pipeline_connections \<Rightarrow> bool" where
  "well_formed_pipeline nodeInfos connections \<longleftrightarrow>
     kind_count ENTRY nodeInfos = 1 \<and> kind_count EXIT nodeInfos = 1 \<and> distinct (map ni_nodeName nodeInfos) \<and>
     (\<exists>exitNode. exit_node nodeInfos = Some exitNode \<and>
        (depends_on connections)\<^sup>* `` {ni_nodeName exitNode} = ni_nodeName ` set nodeInfos \<and>
        acyclic (depends_on connections \<inter> UNIV \<times> ni_nodeName ` set nodeInfos) \<and>
        gathers_consistently nodeInfos connections (ni_nodeName exitNode) (first_stack exitNode))"

lemma and_then_Inr: "and_then u f = (s', Inr ()) \<longleftrightarrow> (\<exists>s. u = (s, Inr ()) \<and> f s = (s', Inr ()))"
  by (auto simp: and_then_def split: prod.split sum.split)

lemma and_then_keeps:
  "P (fst u) \<Longrightarrow> (\<And>s. P s \<Longrightarrow> P (fst (f s))) \<Longrightarrow> P (fst (and_then u f))"
  by (cases u) (auto simp: and_then_def split: sum.split)

lemma returned_status_Inr [simp]: "returned_status s = Inr () \<longleftrightarrow> s = SC_OK"
  by (simp add: returned_status_def)

lemmas validation_step_defs = check_name_def initialize_resources_def validate_nodes_def validate_cycles_def
  validate_gather_order_def update_inputs_def update_outputs_def

lemma validation_steps_keep:
  "pd_status (fst (validation_steps be pd)) = pd_status pd \<and>
   pd_nodeInfos (fst (validation_steps be pd)) = pd_nodeInfos pd \<and> pd_name (fst (validation_steps be pd)) = pd_name pd"
  unfolding validation_steps_def
  by (rule and_then_keeps [where P = "\<lambda>p. pd_status p = pd_status pd \<and> pd_nodeInfos p = pd_nodeInfos pd \<and> pd_name p = pd_name pd"]
      | simp add: validation_step_defs split: prod.split option.split)+

lemma check_each_filter_distinct:
  "\<forall>x\<in>set xs. \<not> 1 < length (filter (\<lambda>y. f y = f x) xs) \<Longrightarrow> distinct (map f xs)"
proof (induction xs)
  case (Cons x xs)
  have "filter (\<lambda>y. f y = f x) xs = []" using Cons.prems by (simp add: not_less_eq_eq)
  then have "f x \<notin> f ` set xs" by (auto simp: filter_empty_conv)
  moreover have "distinct (map f xs)"
  proof (rule Cons.IH, rule ballI)
    fix y
    assume "y \<in> set xs"
    then have "\<not> 1 < length (filter (\<lambda>z. f z = f y) (x # xs))" using Cons.prems by simp
    then show "\<not> 1 < length (filter (\<lambda>z. f z = f y) xs)" by (auto split: if_split_asm)
  qed
  ultimately show ?case by simp
qed simp

lemma validateNodes_Inr:
  assumes "validateNodes be resources nodeInfos connections = Inr ()"
  shows "kind_count ENTRY nodeInfos = 1" "kind_count EXIT nodeInfos = 1" "distinct (map ni_nodeName nodeInfos)"
    "\<forall>node\<in>set nodeInfos. validateNode be resources nodeInfos connections node = Inr ()"
proof -
  have c: "check_counts nodeInfos = Inr ()"
    and n: "\<forall>node\<in>set nodeInfos. \<not> 1 < length (filter (\<lambda>info. ni_nodeName info = ni_nodeName node) nodeInfos) \<and>
      validateNode be resources nodeInfos connections node = Inr ()"
    using assms unfolding validateNodes_def by (auto simp: rbind_Inr_iff check_each_Inr split: if_split_asm)
  show "kind_count ENTRY nodeInfos = 1" "kind_count EXIT nodeInfos = 1"
    using c by (auto simp: check_counts_def split: if_split_asm)
  show "\<forall>node\<in>set nodeInfos. validateNode be resources nodeInfos connections node = Inr ()" using n by blast
  show "distinct (map ni_nodeName nodeInfos)" using n by (intro check_each_filter_distinct) blast
qed

lemma validated_dependency_exists:
  assumes "validateNode be resources nodeInfos connections node = Inr ()" "m \<in> fst ` set (connected_to connections (ni_nodeName node))"
  shows "m \<in> ni_nodeName ` set nodeInfos"
proof -
  obtain mapping where m: "(m, mapping) \<in> set (connected_to connections (ni_nodeName node))" using assms(2) by auto
  obtain inputs where "validate_connections be resources nodeInfos node inputs (connected_to connections (ni_nodeName node)) (map fst inputs) = Inr []"
    using validateNode_parts [OF assms(1)] by metis
  from validate_connections_each [OF this m] obtain dependency where "getDependencyNodeInfo nodeInfos m = Inr dependency"
    by blast
  then have "findNodeByName nodeInfos m = Some dependency"
    by (auto simp: getDependencyNodeInfo_def split: option.split_asm if_split_asm)
  then show ?thesis using findNodeByName_Some by fastforce
qed

lemma validated_graph_closed:
  assumes "\<forall>node\<in>set nodeInfos. validateNode be resources nodeInfos connections node = Inr ()"
    and "(n, m) \<in> (depends_on connections)\<^sup>*" "n \<in> ni_nodeName ` set nodeInfos"
  shows "m \<in> ni_nodeName ` set nodeInfos"
  using assms(2,3)
proof (induction rule: rtrancl_induct)
  case (step y z)
  then obtain node where "node \<in> set nodeInfos" "ni_nodeName node = y" by auto
  then show ?case using validated_dependency_exists [of be _ nodeInfos connections node z] assms(1) step(2)
    by (auto simp: depends_on_def)
qed simp

lemma acyclic_within:
  assumes "\<forall>v\<in>S. (v, v) \<notin> E\<^sup>+" shows "acyclic (E \<inter> UNIV \<times> S)"
proof (rule acyclicI, rule allI, rule notI)
  fix v
  assume v: "(v, v) \<in> (E \<inter> UNIV \<times> S)\<^sup>+"
  then have "v \<in> S" by (metis IntD2 SigmaD2 tranclD2)
  moreover have "(v, v) \<in> E\<^sup>+" using v by (rule trancl_mono) blast
  ultimately show False using assms by blast
qed

lemma checked_graph_well_formed:
  assumes nodes: "validateNodes be resources nodeInfos connections = Inr ()"
    and cycles: "validateForCycles nodeInfos connections = (SC_OK, c1)"
    and order: "validateDemultiplexerGatherNodesOrder nodeInfos c1 = Some (SC_OK, c2)"
  shows "well_formed_pipeline nodeInfos c2"
proof -
  note valid = validateNodes_Inr [OF nodes]
  have g1: "connected_to c1 = connected_to connections" using validateForCycles_graph [of nodeInfos connections] cycles by simp
  have g2: "connected_to c2 = connected_to connections" using gather_order_graph [OF order] g1 by simp
  obtain e where e: "exit_node nodeInfos = Some e" using cycles by (auto simp: validateForCycles_def split: option.split_asm)
  have mem: "ni_nodeName e \<in> ni_nodeName ` set nodeInfos" using exit_node_Some [OF e] by simp
  let ?E = "depends_on connections" and ?N = "ni_nodeName ` set nodeInfos"
  have sub: "?E\<^sup>* `` {ni_nodeName e} \<subseteq> ?N" using validated_graph_closed [OF valid(4)] mem by blast
  have acyc: "\<forall>v\<in>?E\<^sup>* `` {ni_nodeName e}. (v, v) \<notin> ?E\<^sup>+" and "card (?E\<^sup>* `` {ni_nodeName e}) = length nodeInfos"
    using validateForCycles_exact [OF e, of connections] cycles by auto
  moreover have "card ?N = length nodeInfos" using valid(3) by (metis distinct_card length_map set_map)
  ultimately have reach: "?E\<^sup>* `` {ni_nodeName e} = ?N" using sub by (metis card_subset_eq finite_imageI finite_set)
  have leads: "leads_to_nodes nodeInfos c1 (ni_nodeName e)"
    unfolding leads_to_nodes_def same_graph(1) [OF g1] findNodeByName_None using sub trancl_into_rtrancl by fastforce
  have "gathers_consistently nodeInfos c1 (ni_nodeName e) (first_stack e)"
    using validateDemultiplexerGatherNodesOrder_exact [OF e leads] order by (auto split: if_split_asm)
  then have gathers: "gathers_consistently nodeInfos c2 (ni_nodeName e) (first_stack e)"
    by (simp add: same_graph(3) [OF g1] same_graph(3) [OF g2])
  have "acyclic (?E \<inter> UNIV \<times> ?N)" using acyclic_within [OF acyc] unfolding reach .
  then show ?thesis
    using valid(1,2,3) e reach gathers unfolding well_formed_pipeline_def same_graph(1) [OF g2] by simp
qed

lemma updates_keep:
  "update_inputs be pd = (pd', r) \<Longrightarrow> pd_nodeInfos pd' = pd_nodeInfos pd \<and> pd_connections pd' = pd_connections pd"
  "update_outputs be pd = (pd', r) \<Longrightarrow> pd_nodeInfos pd' = pd_nodeInfos pd \<and> pd_connections pd' = pd_connections pd"
  by (auto simp: update_inputs_def update_outputs_def map_prod_def split: prod.split_asm)

lemma validation_steps_well_formed:
  assumes "validation_steps be pd = (pd', Inr ())"
  shows "well_formed_pipeline (pd_nodeInfos pd') (pd_connections pd')"
proof -
  obtain p1 p2 p3 p4 p5 where s: "initialize_resources be p1 = (p2, Inr ())" "validate_nodes be p2 = (p3, Inr ())"
    "validate_cycles p3 = (p4, Inr ())" "validate_gather_order p4 = (p5, Inr ())"
    "and_then (update_inputs be p5) (update_outputs be) = (pd', Inr ())"
    using assms unfolding validation_steps_def and_then_Inr by (auto simp: and_then_Inr)
  have p3: "p3 = p2" "validateNodes be (pd_nodeResources p2) (pd_nodeInfos p2) (pd_connections p2) = Inr ()"
    using s(2) by (auto simp: validate_nodes_def)
  obtain c1 where c1: "validateForCycles (pd_nodeInfos p2) (pd_connections p2) = (SC_OK, c1)" "p4 = p2\<lparr>pd_connections := c1\<rparr>"
    using s(3) p3(1) by (auto simp: validate_cycles_def split: prod.split_asm)
  obtain c2 where c2: "validateDemultiplexerGatherNodesOrder (pd_nodeInfos p2) c1 = Some (SC_OK, c2)"
    "p5 = p4\<lparr>pd_connections := c2\<rparr>"
    using s(4) c1(2) by (auto simp: validate_gather_order_def split: option.split_asm prod.split_asm)
  have "well_formed_pipeline (pd_nodeInfos p2) c2" by (rule checked_graph_well_formed [OF p3(2) c1(1) c2(1)])
  moreover have "pd_nodeInfos pd' = pd_nodeInfos p2" "pd_connections pd' = c2"
    using s(5) c1(2) c2(2) by (auto simp: and_then_Inr dest!: updates_keep)
  ultimately show ?thesis by simp
qed

text \<open>The states in which a validation may be run, as the transitions of the state machine say.\<close>

definition can_validate :: "PipelineState \<Rightarrow> bool" where
  "can_validate s \<longleftrightarrow> s \<in> {BeginState, ReloadState, AvailableRequiredRevalidation, LoadingFailedLastValidationRequiredRevalidation}"

lemma pd_validate_decides:
  assumes "pd_validate be pd = (pd', r)" "can_validate (pd_status pd)"
  shows "pd_status pd' = (if r = Inr () then AvailableState else LoadingPreconditionFailedState)"
    "r = Inr () \<Longrightarrow> well_formed_pipeline (pd_nodeInfos pd') (pd_connections pd')" "pd_name pd' = pd_name pd"
proof -
  obtain p q where v: "validation_steps be pd = (p, q)" by (cases "validation_steps be pd")
  have k: "pd_status p = pd_status pd" "pd_name p = pd_name pd" using validation_steps_keep [of be pd] v by simp_all
  have h: "pds_handle (pd_status p) (if q = Inr () then ValidationPassedEvent else ValidationFailedEvent) =
      Inr (if q = Inr () then AvailableState else LoadingPreconditionFailedState)"
    using assms(2) unfolding k by (auto simp: can_validate_def pds_handle_def)
  then have e: "r = q" "pd' = p\<lparr>pd_status := (if q = Inr () then AvailableState else LoadingPreconditionFailedState)\<rparr>"
    using assms(1) v by (auto simp: pd_validate_def)
  show "pd_status pd' = (if r = Inr () then AvailableState else LoadingPreconditionFailedState)" using e by simp
  show "pd_name pd' = pd_name pd" using e k by simp
  assume "r = Inr ()"
  then show "well_formed_pipeline (pd_nodeInfos pd') (pd_connections pd')"
    using validation_steps_well_formed [of be pd p] v e by simp
qed

text \<open>
  What the server does with its definitions: the models may change between the operations, so each
  one comes with its environment.
\<close>

datatype ('f, 'r) factory_operation =
    CreateDefinition "('f, 'r) Backend" "string \<Rightarrow> int \<Rightarrow> bool" string "'f node list" pipeline_connections
  | ReloadDefinition "('f, 'r) Backend" "string \<Rightarrow> int \<Rightarrow> bool" string "'f node list" pipeline_connections
  | RevalidatePipelines "('f, 'r) Backend"
  | RetireOtherThan "string set"
  | ModelChanged string

definition notify_definition :: "string \<Rightarrow> ('f, 'r) definitions \<Rightarrow> ('f, 'r) definitions update" where
  "notify_definition name definitions =
     (case findDefinitionByName definitions name of
        None \<Rightarrow> (definitions, Inr ())
      | Some pd \<Rightarrow> (case pd_receiveNotification pd of (pd', r) \<Rightarrow> (map_put name pd' definitions, r)))"

fun factory_step :: "('f, 'r) factory_operation \<Rightarrow> ('f, 'r) definitions \<Rightarrow> ('f, 'r) definitions update" where
  "factory_step (CreateDefinition be subscribes name nodeInfos connections) = createDefinition be subscribes name nodeInfos connections"
| "factory_step (ReloadDefinition be subscribes name nodeInfos connections) = reloadDefinition be subscribes name nodeInfos connections"
| "factory_step (RevalidatePipelines be) = revalidatePipelines be"
| "factory_step (RetireOtherThan names) = retireOtherThan names"
| "factory_step (ModelChanged name) = notify_definition name"

definition factory_run :: "('f, 'r) factory_operation list \<Rightarrow> ('f, 'r) definitions" where
  "factory_run operations = fold (\<lambda>operation definitions. fst (factory_step operation definitions)) operations []"

definition sound_definition :: "('f, 'r) PipelineDefinition \<Rightarrow> bool" where
  "sound_definition pd \<longleftrightarrow>
     (pds_isAvailable (pd_status pd) \<longrightarrow> well_formed_pipeline (pd_nodeInfos pd) (pd_connections pd))"

lemma isAvailable_iff: "pds_isAvailable s \<longleftrightarrow> s \<in> {AvailableState, AvailableRequiredRevalidation}"
  by (cases s) (simp_all add: pds_isAvailable_def)

lemma isRevalidationRequired_can_validate: "pds_isRevalidationRequired s \<Longrightarrow> can_validate s"
  by (cases s) (simp_all add: pds_isRevalidationRequired_def can_validate_def)

lemma set_map_put: "set (map_put k v m) \<subseteq> insert (k, v) (set m)"
  by (induction k v m rule: map_put.induct) auto

lemma pd_validate_sound:
  assumes "can_validate (pd_status pd)" shows "sound_definition (fst (pd_validate be pd))"
proof -
  obtain pd' r where v: "pd_validate be pd = (pd', r)" by (cases "pd_validate be pd")
  show ?thesis
    using pd_validate_decides(1,2) [OF v assms] v by (cases "r = Inr ()") (simp_all add: sound_definition_def isAvailable_iff)
qed

lemma makeSubscriptions_status [simp]: "pd_status (makeSubscriptions subscribes pd) = pd_status pd"
  by (simp add: makeSubscriptions_def)

lemma handled_state:
  "pds_handle s ReloadEvent = Inr s' \<Longrightarrow> s' = ReloadState"
  "pds_handle s RetireEvent = Inr s' \<Longrightarrow> s' = RetiredState"
  "pds_handle s UsedModelChangedEvent = Inr s' \<Longrightarrow> pds_isAvailable s' \<Longrightarrow> pds_isAvailable s"
proof -
  show "pds_handle s ReloadEvent = Inr s' \<Longrightarrow> s' = ReloadState" by (cases s) (auto simp: pds_handle_def)
  show "pds_handle s RetireEvent = Inr s' \<Longrightarrow> s' = RetiredState" by (cases s) (auto simp: pds_handle_def)
  show "pds_handle s UsedModelChangedEvent = Inr s' \<Longrightarrow> pds_isAvailable s' \<Longrightarrow> pds_isAvailable s"
    by (cases s) (auto simp: pds_handle_def isAvailable_iff)
qed

lemma with_value_sound:
  assumes "sound_definition pd" "\<And>x. v = Inr x \<Longrightarrow> sound_definition (fst (f x))"
  shows "sound_definition (fst (with_value v pd f))"
  using assms by (cases v) (auto simp: with_value_def)

lemma pd_reload_sound:
  assumes "sound_definition pd" shows "sound_definition (fst (pd_reload be subscribes nodeInfos connections pd))"
  unfolding pd_reload_def Let_def
proof (rule with_value_sound [OF assms])
  fix s
  assume "raising (pds_handle (pd_status pd) ReloadEvent) = Inr s"
  then have "s = ReloadState" using handled_state(1) by simp
  then show "sound_definition (fst (pd_validate be (makeSubscriptions subscribes (resetSubscriptions (pd\<lparr>pd_status := s\<rparr>)
      \<lparr>pd_nodeResources := deinitializeNodeResources
          (calculateNodeInfosDiff (pd_nodeInfos (resetSubscriptions (pd\<lparr>pd_status := s\<rparr>))) nodeInfos)
          (pd_nodeResources (resetSubscriptions (pd\<lparr>pd_status := s\<rparr>))),
       pd_nodeInfos := nodeInfos, pd_connections := connections\<rparr>))))"
    by (intro pd_validate_sound) (simp add: can_validate_def resetSubscriptions_def)
qed

lemma pd_retire_sound:
  assumes "sound_definition pd" shows "sound_definition (fst (pd_retire pd))"
  unfolding pd_retire_def Let_def
proof (rule with_value_sound)
  show "sound_definition (resetSubscriptions pd)" using assms by (simp add: sound_definition_def resetSubscriptions_def)
  fix s
  assume "raising (pds_handle (pd_status (resetSubscriptions pd)) RetireEvent) = Inr s"
  then have "s = RetiredState" using handled_state(2) by simp
  then show "sound_definition (fst (resetSubscriptions pd\<lparr>pd_status := s, pd_nodeResources := [], pd_nodeInfos := [],
      pd_connections := []\<rparr>, Inr ()))"
    by (simp add: sound_definition_def isAvailable_iff)
qed

lemma pd_receiveNotification_sound:
  assumes "sound_definition pd" shows "sound_definition (fst (pd_receiveNotification pd))"
  unfolding pd_receiveNotification_def
proof (rule with_value_sound [OF assms])
  fix s
  assume "raising (pds_handle (pd_status pd) UsedModelChangedEvent) = Inr s"
  then have "pds_isAvailable s \<Longrightarrow> pds_isAvailable (pd_status pd)" using handled_state(3) by simp
  then show "sound_definition (fst (pd\<lparr>pd_status := s\<rparr>, Inr ()))" using assms by (simp add: sound_definition_def)
qed

lemma sound_map_put:
  assumes "\<forall>(n, pd)\<in>set definitions. sound_definition pd" "sound_definition pd"
  shows "\<forall>(n, pd)\<in>set (map_put name pd definitions). sound_definition pd"
  using assms set_map_put [of name pd definitions] by auto

lemma sound_found:
  "\<forall>(n, pd)\<in>set definitions. sound_definition pd \<Longrightarrow> findDefinitionByName definitions name = Some pd \<Longrightarrow> sound_definition pd"
  unfolding findDefinitionByName_def by (drule map_of_SomeD) auto

lemma createDefinition_sound:
  assumes "\<forall>(n, pd)\<in>set definitions. sound_definition pd"
  shows "\<forall>(n, pd)\<in>set (fst (createDefinition be subscribes name nodeInfos connections definitions)). sound_definition pd"
proof -
  let ?pd = "makeSubscriptions subscribes (new_PipelineDefinition name nodeInfos connections)"
  obtain pd r where v: "pd_validate be ?pd = (pd, r)" by (cases "pd_validate be ?pd")
  have "can_validate (pd_status ?pd)" by (simp add: new_PipelineDefinition_def pds_initial_def can_validate_def)
  then have "sound_definition pd" using pd_validate_sound [of ?pd be] v by simp
  then show ?thesis
    using assms sound_map_put [OF assms] v
    by (simp add: createDefinition_def split: sum.split failure.split)
qed

lemma reloadDefinition_sound:
  assumes "\<forall>(n, pd)\<in>set definitions. sound_definition pd"
  shows "\<forall>(n, pd)\<in>set (fst (reloadDefinition be subscribes name nodeInfos connections definitions)). sound_definition pd"
proof (cases "findDefinitionByName definitions name")
  case None
  then show ?thesis using assms by (simp add: reloadDefinition_def)
next
  case (Some pd)
  have "sound_definition (fst (pd_reload be subscribes nodeInfos connections pd))"
    by (rule pd_reload_sound [OF sound_found [OF assms Some]])
  then show ?thesis
    using sound_map_put [OF assms] Some by (simp add: reloadDefinition_def split: prod.split)
qed

lemma notify_definition_sound:
  assumes "\<forall>(n, pd)\<in>set definitions. sound_definition pd"
  shows "\<forall>(n, pd)\<in>set (fst (notify_definition name definitions)). sound_definition pd"
proof (cases "findDefinitionByName definitions name")
  case None
  then show ?thesis using assms by (simp add: notify_definition_def)
next
  case (Some pd)
  have "sound_definition (fst (pd_receiveNotification pd))"
    by (rule pd_receiveNotification_sound [OF sound_found [OF assms Some]])
  then show ?thesis
    using sound_map_put [OF assms] Some by (simp add: notify_definition_def split: prod.split)
qed

lemma revalidate_loop_sound:
  "\<forall>(n, pd)\<in>set definitions. sound_definition pd \<Longrightarrow>
     \<forall>(n, pd)\<in>set (fst (revalidate_loop be definitions first)). sound_definition pd"
proof (induction be definitions first rule: revalidate_loop.induct)
  case (2 be name pd rest first)
  show ?case
  proof (cases "pds_isRevalidationRequired (pd_status pd)")
    case False
    then show ?thesis using 2 by (auto split: prod.split)
  next
    case True
    obtain pd' r where v: "pd_validate be pd = (pd', r)" by (cases "pd_validate be pd")
    have s: "sound_definition pd'"
      using pd_validate_sound [OF isRevalidationRequired_can_validate [OF True], of be] v by simp
    have rest: "\<forall>(n, pd)\<in>set rest. sound_definition pd" using "2.prems" by simp
    show ?thesis
    proof (cases r)
      case (Inr u)
      then show ?thesis using "2.IH"(3) [OF _ v [symmetric] Inr rest] True v s by (auto split: prod.split)
    next
      case (Inl e)
      show ?thesis
      proof (cases e)
        case (Returned c)
        then show ?thesis using "2.IH"(2) [OF _ v [symmetric] Inl Returned rest] Inl True v s by (auto split: prod.split)
      qed (use Inl True v s rest in auto)
    qed
  qed
qed simp

lemma retireOtherThan_sound:
  "\<forall>(n, pd)\<in>set definitions. sound_definition pd \<Longrightarrow>
     \<forall>(n, pd)\<in>set (fst (retireOtherThan names definitions)). sound_definition pd"
proof (induction names definitions rule: retireOtherThan.induct)
  case (2 names name pd rest)
  have rest: "\<forall>(n, pd)\<in>set rest. sound_definition pd" and pd: "sound_definition pd" using "2.prems" by simp_all
  show ?case
  proof (cases "pd_name pd \<notin> names \<and> pds_getStateCode (pd_status pd) \<noteq> RETIRED")
    case False
    then show ?thesis using "2.IH"(2) [OF False rest] pd by (auto split: prod.split)
  next
    case True
    obtain pd' r where v: "pd_retire pd = (pd', r)" by (cases "pd_retire pd")
    then have s: "sound_definition pd'" using pd_retire_sound [OF pd] by simp
    show ?thesis
    proof (cases r)
      case (Inr u)
      then show ?thesis using "2.IH"(1) [OF True v [symmetric] Inr rest] True v s by (auto split: prod.split)
    qed (use True v s rest in auto)
  qed
qed simp

lemma factory_step_sound:
  assumes "\<forall>(n, pd)\<in>set definitions. sound_definition pd"
  shows "\<forall>(n, pd)\<in>set (fst (factory_step operation definitions)). sound_definition pd"
proof (cases operation)
  case (CreateDefinition be subscribes name nodeInfos connections)
  then show ?thesis unfolding CreateDefinition factory_step.simps by (intro createDefinition_sound assms)
next
  case (ReloadDefinition be subscribes name nodeInfos connections)
  then show ?thesis unfolding ReloadDefinition factory_step.simps by (intro reloadDefinition_sound assms)
next
  case (RevalidatePipelines be)
  then show ?thesis unfolding RevalidatePipelines factory_step.simps revalidatePipelines_def
    by (intro revalidate_loop_sound assms)
next
  case (RetireOtherThan names)
  then show ?thesis unfolding RetireOtherThan factory_step.simps by (intro retireOtherThan_sound assms)
next
  case (ModelChanged name)
  then show ?thesis unfolding ModelChanged factory_step.simps by (intro notify_definition_sound assms)
qed

lemma factory_run_sound: "\<forall>(n, pd)\<in>set (factory_run operations). sound_definition pd"
proof (induction operations rule: rev_induct)
  case Nil
  then show ?case by (simp add: factory_run_def)
next
  case (snoc operation operations)
  then show ?case using factory_step_sound [OF snoc] by (simp add: factory_run_def)
qed

text \<open>
  C1: Whatever sequence of creations, reloads, revalidations, retirements and notifications the server
  goes through, and however the models and libraries answer in between, a pipeline that is available is
  well-formed: one entry and one exit node, distinct node names, every node connected with the exit and
  none in a cycle, and what is gathered is demultiplied consistently.
\<close>

theorem available_pipelines_are_well_formed:
  assumes "(name, pd) \<in> set (factory_run operations)" "pds_isAvailable (pd_status pd)"
  shows "well_formed_pipeline (pd_nodeInfos pd) (pd_connections pd)"
  using factory_run_sound [of operations] assms by (auto simp: sound_definition_def)

definition no_library :: "unit NodeLibrary" where
  "no_library = \<lparr>nl_initialize = None, nl_deinitialize = None, nl_execute = None, nl_getInputsInfo = None,
     nl_getOutputsInfo = None, nl_release = None, nl_basePath = []\<rparr>"

definition simple_node :: "NodeKind \<Rightarrow> string \<Rightarrow> (string \<times> string) list \<Rightarrow> unit node" where
  "simple_node kind name aliases = \<lparr>ni_kind = kind, ni_nodeName = name, ni_modelName = ''m'', ni_modelVersion = None,
     ni_outputNameAliases = aliases, ni_demultiplyCount = None, ni_gatherFromNode = {}, ni_library = no_library,
     ni_parameters = []\<rparr>"

text \<open>A server with one model from \<open>x\<close> to \<open>y\<close>, and the pipeline around it.\<close>

definition one_model :: "(unit, unit) Backend" where
  "one_model =
     \<lparr>be_getModelInputsInfo = \<lambda>_ _. Inr [(''x'', new_TensorInfo ''x'' FP32 [dim_any, dim_any])],
      be_getModelOutputsInfo = \<lambda>_ _. Inr [(''y'', new_TensorInfo ''y'' FP32 [dim_any, dim_any])],
      be_hasAutoModelParameters = \<lambda>_ _. Inr (False, False), be_metadata = \<lambda>_ _ _. (1, None),
      be_initialize = \<lambda>_ _. (1, ()), be_servableExists = \<lambda>_. False\<rparr>"

definition one_model_nodes :: "unit node list" where
  "one_model_nodes = [simple_node ENTRY ''request'' [(''in'', ''in'')], simple_node DL ''node'' [(''out'', ''y'')],
     simple_node EXIT ''response'' []]"

definition one_model_connections :: pipeline_connections where
  "one_model_connections =
     [(''response'', [(''node'', [(''out'', ''out'')])]), (''node'', [(''request'', [(''in'', ''x'')])])]"

lemma available_pipelines_are_well_formed_witness:
  "\<exists>pd. factory_run [CreateDefinition one_model (\<lambda>_ _. True) ''p'' one_model_nodes one_model_connections] = [(''p'', pd)] \<and>
     pds_isAvailable (pd_status pd) \<and> well_formed_pipeline (pd_nodeInfos pd) (pd_connections pd)"
proof -
  let ?ops = "[CreateDefinition one_model (\<lambda>_ _. True) ''p'' one_model_nodes one_model_connections]"
  have "map (\<lambda>(n, pd). (n, pd_status pd)) (factory_run ?ops) = [(''p'', AvailableState)]" by code_simp
  then obtain pd where pd: "factory_run ?ops = [(''p'', pd)]" "pd_status pd = AvailableState" by auto
  then show ?thesis
    using available_pipelines_are_well_formed [of "''p''" pd ?ops] by (simp add: isAvailable_iff)
qed

section \<open>The gathered dimensions\<close>

lemma path_from_Cons:
  "path_from connections n (m # ns) \<longleftrightarrow> m \<in> fst ` set (connected_to connections n) \<and> path_from connections m ns"
  by (simp add: path_from_def depends_on_def)

text \<open>
  The search follows the first connection of every node down to a node without connections, and finds
  every gathered node on that way once.
\<close>

lemma gather_search_path:
  assumes "finite ((depends_on connections)\<^sup>* `` {n})" "card ((depends_on connections)\<^sup>* `` {n}) \<le> fuel"
    and "\<forall>v\<in>(depends_on connections)\<^sup>* `` {n}. (v, v) \<notin> (depends_on connections)\<^sup>+"
    and "\<forall>v\<in>(depends_on connections)\<^sup>* `` {n}. has_entry connections v"
    and "\<forall>v\<in>(depends_on connections)\<^sup>* `` {n} \<inter> G. \<exists>info d. findNodeByName nodeInfos v = Some info \<and>
      gather_dimension be resources info = Inr (Some d)"
  shows "\<exists>ns sh. path_from connections n ns \<and> connected_to connections (last (n # ns)) = [] \<and> distinct (n # ns) \<and>
    set (n # ns) \<subseteq> (depends_on connections)\<^sup>* `` {n} \<and>
    gather_search fuel be resources nodeInfos connections G n = Inr sh \<and> length sh = card (G \<inter> set (n # ns))"
  using assms
proof (induction fuel arbitrary: n)
  case 0
  then have "(depends_on connections)\<^sup>* `` {n} = {}" by simp
  then show ?case by auto
next
  case (Suc fuel)
  let ?E = "depends_on connections"
  obtain ms where ms: "map_of connections n = Some ms" using Suc.prems(4) by (auto simp: has_entry_def)
  then have c: "connected_to connections n = ms" by (simp add: connected_to_def)
  have found: "\<exists>ds. (if n \<in> G then rbind (find_node nodeInfos n) (\<lambda>info.
      rbind (gather_dimension be resources info) (\<lambda>dim. Inr (map_option (\<lambda>d. [d]) dim))) else Inr (Some [])) = Inr (Some ds) \<and>
      length ds = (if n \<in> G then 1 else 0)"
  proof (cases "n \<in> G")
    case True
    then obtain info d where "findNodeByName nodeInfos n = Some info" "gather_dimension be resources info = Inr (Some d)"
      using Suc.prems(5) by blast
    then show ?thesis using True by (simp add: find_node_def)
  qed simp
  then obtain ds where ds: "(if n \<in> G then rbind (find_node nodeInfos n) (\<lambda>info.
      rbind (gather_dimension be resources info) (\<lambda>dim. Inr (map_option (\<lambda>d. [d]) dim))) else Inr (Some [])) = Inr (Some ds)"
    "length ds = (if n \<in> G then 1 else 0)" by blast
  show ?case
  proof (cases ms)
    case Nil
    have "gather_search (Suc fuel) be resources nodeInfos connections G n = Inr ds"
      unfolding gather_search.simps ms option.case ds(1) Nil by simp
    moreover have "length ds = card (G \<inter> set [n])" using ds(2) by simp
    ultimately show ?thesis using c Nil by (intro exI [of _ "[]"] exI [of _ ds]) (simp add: path_from_def)
  next
    case (Cons x rest)
    obtain m a where x: "x = (m, a)" by (cases x)
    have e: "(n, m) \<in> ?E" using c Cons x by (auto simp: depends_on_def)
    then have sub: "?E\<^sup>* `` {m} \<subseteq> ?E\<^sup>* `` {n}" by (auto intro: converse_rtrancl_into_rtrancl)
    have n: "n \<notin> ?E\<^sup>* `` {m}"
    proof
      assume "n \<in> ?E\<^sup>* `` {m}"
      then have "(m, n) \<in> ?E\<^sup>*" by simp
      with e have "(n, n) \<in> ?E\<^sup>+" by (rule rtrancl_into_trancl2)
      then show False using Suc.prems(3) by blast
    qed
    then have "?E\<^sup>* `` {m} \<subset> ?E\<^sup>* `` {n}" using sub by auto
    then have fuel: "card (?E\<^sup>* `` {m}) \<le> fuel"
      using psubset_card_mono [OF Suc.prems(1), of "?E\<^sup>* `` {m}"] Suc.prems(2) by linarith
    obtain ns sh where ns: "path_from connections m ns" "connected_to connections (last (m # ns)) = []" "distinct (m # ns)"
      "set (m # ns) \<subseteq> ?E\<^sup>* `` {m}" "gather_search fuel be resources nodeInfos connections G m = Inr sh"
      "length sh = card (G \<inter> set (m # ns))"
    proof -
      have "\<forall>v\<in>?E\<^sup>* `` {m}. (v, v) \<notin> ?E\<^sup>+" "\<forall>v\<in>?E\<^sup>* `` {m}. has_entry connections v"
        "\<forall>v\<in>?E\<^sup>* `` {m} \<inter> G. \<exists>info d. findNodeByName nodeInfos v = Some info \<and>
          gather_dimension be resources info = Inr (Some d)"
        using Suc.prems(3,4,5) sub by blast+
      from Suc.IH [OF finite_subset [OF sub Suc.prems(1)] fuel this] show thesis using that by blast
    qed
    have "gather_search (Suc fuel) be resources nodeInfos connections G n = Inr (ds @ sh)"
      unfolding gather_search.simps ms option.case ds(1) Cons x by (simp add: ns(5))
    moreover have "n \<notin> set (m # ns)" using ns(4) n by blast
    moreover have "length (ds @ sh) = card (G \<inter> set (n # m # ns))"
      using ds(2) ns(6) \<open>n \<notin> set (m # ns)\<close> by (simp add: Int_insert_right card_insert_if)
    moreover have "path_from connections n (m # ns)" using ns(1) c Cons x by (simp add: path_from_Cons)
    moreover have "set (n # m # ns) \<subseteq> ?E\<^sup>* `` {n}" using ns(4) sub by auto
    ultimately show ?thesis using ns(2,3) by (intro exI [of _ "m # ns"] exI [of _ "ds @ sh"]) simp
  qed
qed

lemma has_entry_key: "has_entry connections v \<Longrightarrow> v \<in> fst ` set connections"
  by (auto simp: has_entry_def map_of_eq_None_iff)

lemma first_stack_open: "\<Union> (set (first_stack e)) = ni_gatherFromNode e"
  by (simp add: first_stack_def)

text \<open>
  C28: In a pipeline in which every node but the entry is connected and every node the exit node gathers from
  has a dimension to report, deriving the outputs does not fail for the exit node once the checks of the
  nodes, of cycles and of the gathering order have passed: the search for the gathered dimensions ends and
  finds as many as the exit node gathers.
\<close>

theorem gather_shape_is_complete:
  assumes "validateNodes be resources nodeInfos c0 = Inr ()" "validateForCycles nodeInfos c0 = (SC_OK, c1)"
    and "validateDemultiplexerGatherNodesOrder nodeInfos c1 = Some (SC_OK, c2)" "exit_node nodeInfos = Some e"
    and "\<forall>info\<in>set nodeInfos. ni_kind info = ENTRY \<or> connected_to c0 (ni_nodeName info) \<noteq> []"
    and "\<forall>info\<in>set nodeInfos. ni_nodeName info \<notin> ni_gatherFromNode e \<or> (\<exists>d. gather_dimension be resources info = Inr (Some d))"
  shows "\<exists>sh. getNodeGatherShape be resources nodeInfos c2 e = Inr sh \<and> length sh = card (ni_gatherFromNode e)"
proof (cases "ni_gatherFromNode e = {}")
  case True
  then show ?thesis by (simp add: getNodeGatherShape_def)
next
  case False
  let ?E = "depends_on c2" and ?n = "ni_nodeName e" and ?G = "ni_gatherFromNode e"
  have g1: "connected_to c1 = connected_to c0" using validateForCycles_graph [of nodeInfos c0] assms(2) by simp
  have g2: "connected_to c2 = connected_to c0" using gather_order_graph [OF assms(3)] g1 by simp
  note E = same_graph(1) [OF g2]
  have wf: "?E\<^sup>* `` {?n} = ni_nodeName ` set nodeInfos" "acyclic (?E \<inter> UNIV \<times> ni_nodeName ` set nodeInfos)"
    "gathers_consistently nodeInfos c2 ?n (first_stack e)" "distinct (map ni_nodeName nodeInfos)"
    using checked_graph_well_formed [OF assms(1,2,3)] assms(4) by (auto simp: well_formed_pipeline_def)
  have reach: "?E\<^sup>* `` {?n} = (depends_on c0)\<^sup>* `` {?n}" by (simp add: E)
  have entries: "\<forall>v\<in>?E\<^sup>* `` {?n}. has_entry c2 v"
    using validateForCycles_entries [OF assms(2,4)] gather_order_entries [OF assms(3)] unfolding reach by blast
  then have keys: "?E\<^sup>* `` {?n} \<subseteq> fst ` set c2" using has_entry_key by blast
  have "card (?E\<^sup>* `` {?n}) \<le> card (fst ` set c2)" by (rule card_mono [OF _ keys]) simp
  also have "\<dots> \<le> Suc (length c2)" using card_image_le [of "set c2" fst] card_length [of c2] by simp
  finally have fuel: "card (?E\<^sup>* `` {?n}) \<le> Suc (length c2)" .
  have fin: "finite (?E\<^sup>* `` {?n})" unfolding wf(1) by simp
  have acyc: "\<forall>v\<in>?E\<^sup>* `` {?n}. (v, v) \<notin> ?E\<^sup>+"
    using validateForCycles_exact [OF assms(4), of c0] assms(2) by (auto simp: E)
  have node: "\<exists>info. findNodeByName nodeInfos v = Some info \<and> info \<in> set nodeInfos \<and> ni_nodeName info = v"
    if "v \<in> ?E\<^sup>* `` {?n}" for v
    using that findNodeByName_None [of nodeInfos v] findNodeByName_Some [of nodeInfos v] unfolding wf(1) by auto
  have dims: "\<forall>v\<in>?E\<^sup>* `` {?n} \<inter> ?G. \<exists>info d. findNodeByName nodeInfos v = Some info \<and>
      gather_dimension be resources info = Inr (Some d)"
    using node assms(6) by (metis IntE)
  obtain ns sh where ns: "path_from c2 ?n ns" "connected_to c2 (last (?n # ns)) = []" "distinct (?n # ns)"
    "set (?n # ns) \<subseteq> ?E\<^sup>* `` {?n}" "gather_search (Suc (length c2)) be resources nodeInfos c2 ?G ?n = Inr sh"
    "length sh = card (?G \<inter> set (?n # ns))"
    using gather_search_path [OF fin fuel acyc entries dims] by blast
  have "last (?n # ns) \<in> set (?n # ns)" by (rule last_in_set) simp
  then obtain info where info: "findNodeByName nodeInfos (last (?n # ns)) = Some info" "info \<in> set nodeInfos"
    "ni_nodeName info = last (?n # ns)" using node ns(4) by blast
  then have entry: "ni_kind info = ENTRY"
    using bspec [OF assms(5) info(2)] ns(2) unfolding g2 info(3) by blast
  have "ns \<noteq> []"
  proof
    assume "ns = []"
    then have "info = e" using info wf(4) exit_node_Some [OF assms(4)] by (simp add: distinct_map inj_on_def)
    then show False using entry exit_node_Some [OF assms(4)] by simp
  qed
  then obtain p m where p: "ns = p @ [m]" by (metis rev_exhaust)
  obtain st where st: "stack_along nodeInfos (first_stack e) ns = Some st"
    using gathers_consistentlyD(1) [OF wf(3) \<open>ns \<noteq> []\<close> ns(1)] by blast
  then have "st = []" using stack_at_entry [of nodeInfos _ p m st info] info(1) entry p by simp
  then have "?G \<subseteq> set ns" using stack_along_closes [OF st] first_stack_open [of e] by auto
  then have "card (?G \<inter> set (?n # ns)) = card ?G" by (metis Int_absorb2 list.set_intros(2) subset_iff)
  then show ?thesis using ns(5,6) False by (simp add: getNodeGatherShape_def)
qed

text \<open>A model with a tensor of three dimensions, demultiplied by its node and gathered at the exit.\<close>

definition split_model :: "(unit, unit) Backend" where
  "split_model = one_model
     \<lparr>be_getModelOutputsInfo := \<lambda>_ _. Inr [(''y'', new_TensorInfo ''y'' FP32 [dim_any, dim_any, dim_any])]\<rparr>"

definition split_nodes :: "unit node list" where
  "split_nodes = [simple_node ENTRY ''request'' [(''in'', ''in'')],
     (simple_node DL ''node'' [(''out'', ''y'')])\<lparr>ni_demultiplyCount := Some 2\<rparr>,
     (simple_node EXIT ''response'' [])\<lparr>ni_gatherFromNode := {''node''}\<rparr>]"

lemma validated_inputs_have_one_source_witness:
  "mset (fed_inputs (connected_to one_model_connections ''node'')) = {#''x''#}"
proof -
  let ?node = "simple_node DL ''node'' [(''out'', ''y'')]"
  have "validateNode one_model [] one_model_nodes one_model_connections ?node = Inr ()" by code_simp
  moreover have "is_computing ?node" by code_simp
  moreover have "fetchMetadata one_model [] ?node =
      Inr ([(''x'', new_TensorInfo ''x'' FP32 [dim_any, dim_any])], [(''y'', new_TensorInfo ''y'' FP32 [dim_any, dim_any])])"
    by (simp add: fetchMetadata_def simple_node_def one_model_def model_metadata_def)
  ultimately have "mset (fed_inputs (connected_to one_model_connections (ni_nodeName ?node))) =
      mset (map fst [(''x'', new_TensorInfo ''x'' FP32 [dim_any, dim_any])])"
    by (rule validated_inputs_have_one_source) simp
  then show ?thesis by (simp add: simple_node_def)
qed

lemma validated_connections_are_typed_witness:
  "\<exists>dependency source. findNodeByName one_model_nodes ''request'' = Some dependency \<and> ni_kind dependency \<noteq> EXIT \<and>
    map_of (ni_outputNameAliases dependency) ''in'' = Some source"
proof -
  let ?node = "simple_node DL ''node'' [(''out'', ''y'')]"
  have "validateNode one_model [] one_model_nodes one_model_connections ?node = Inr ()" by code_simp
  moreover have "finite (ni_gatherFromNode ?node)" by (simp add: simple_node_def)
  moreover have "(''request'', [(''in'', ''x'')]) \<in> set (connected_to one_model_connections (ni_nodeName ?node))" by code_simp
  moreover have "(''in'', ''x'') \<in> set [(''in'', ''x'')]" by simp
  ultimately show ?thesis using validated_connections_are_typed by blast
qed

lemma gather_shape_is_complete_witness:
  "\<exists>sh. getNodeGatherShape split_model [] split_nodes (one_model_connections @ [(''request'', [])])
     (split_nodes ! 2) = Inr sh \<and> length sh = 1"
proof -
  let ?e = "split_nodes ! 2" and ?c = "one_model_connections @ [(''request'', [])]"
  have "validateNodes split_model [] split_nodes one_model_connections = Inr ()" by code_simp
  moreover have "validateForCycles split_nodes one_model_connections = (SC_OK, ?c)" by code_simp
  moreover have "validateDemultiplexerGatherNodesOrder split_nodes ?c = Some (SC_OK, ?c)" by code_simp
  moreover have "exit_node split_nodes = Some ?e" by (simp add: exit_node_def split_nodes_def simple_node_def)
  moreover have "\<forall>info\<in>set split_nodes. ni_kind info = ENTRY \<or> connected_to one_model_connections (ni_nodeName info) \<noteq> []"
    by code_simp
  moreover have "\<forall>info\<in>set split_nodes. ni_nodeName info \<notin> ni_gatherFromNode ?e \<or>
      (\<exists>d. gather_dimension split_model [] info = Inr (Some d))"
  proof -
    have "gather_dimension split_model [] (split_nodes ! 1) = Inr (Some \<lparr>dim_minimum = 2, dim_maximum = 2\<rparr>)" by code_simp
    then show ?thesis by (auto simp: split_nodes_def simple_node_def)
  qed
  ultimately have "\<exists>sh. getNodeGatherShape split_model [] split_nodes ?c ?e = Inr sh \<and> length sh = card (ni_gatherFromNode ?e)"
    by (rule gather_shape_is_complete)
  then show ?thesis by (simp add: split_nodes_def simple_node_def)
qed

section \<open>Where the validation goes wrong\<close>




definition direct_nodes :: "unit node list" where
  "direct_nodes = [(simple_node ENTRY ''request'' [(''in'', ''in'')])\<lparr>ni_demultiplyCount := Some 2\<rparr>,
     (simple_node EXIT ''response'' [])\<lparr>ni_gatherFromNode := {''request''}\<rparr>]"

definition direct_connections :: pipeline_connections where
  "direct_connections = [(''response'', [(''request'', [(''in'', ''out'')])])]"


text \<open>The creation ends with the exception, and the definition, which has subscribed to its models before, is dropped.\<close>

theorem definition_is_dropped_by_the_exception:
  "createDefinition one_model (\<lambda>_ _. True) ''p'' direct_nodes direct_connections [] = ([], Inl (Raised OutOfRange))"
  by code_simp

text \<open>
  A model without inputs that is the first dependency of the exit node: the pipeline passes all checks of
  nodes and graph, but the search for the gathered dimensions, which follows the first connections, ends
  there, and the exception of the failed search leaves the validation.
\<close>

definition inputless_nodes :: "unit node list" where
  "inputless_nodes = [simple_node ENTRY ''request'' [(''in'', ''in'')],
     (simple_node DL ''source'' [(''out'', ''y'')])\<lparr>ni_modelName := ''source''\<rparr>,
     (simple_node DL ''node'' [(''out'', ''y'')])\<lparr>ni_demultiplyCount := Some 2\<rparr>,
     (simple_node EXIT ''response'' [])\<lparr>ni_gatherFromNode := {''node''}\<rparr>]"

definition inputless_server :: "(unit, unit) Backend" where
  "inputless_server = split_model
     \<lparr>be_getModelInputsInfo := \<lambda>name _.
        Inr (if name = ''source'' then [] else [(''x'', new_TensorInfo ''x'' FP32 [dim_any, dim_any])])\<rparr>"

definition inputless_connections :: pipeline_connections where
  "inputless_connections = [(''response'', [(''source'', [(''out'', ''s'')]), (''node'', [(''out'', ''out'')])]),
     (''node'', [(''request'', [(''in'', ''x'')])])]"

theorem inputless_node_breaks_the_gather_shape:
  "validateNodes inputless_server [] inputless_nodes inputless_connections = Inr ()"
  "fst (validateForCycles inputless_nodes inputless_connections) = SC_OK"
  "map_option fst (validateDemultiplexerGatherNodesOrder inputless_nodes (snd (validateForCycles inputless_nodes inputless_connections))) = Some SC_OK"
  "createDefinition inputless_server (\<lambda>_ _. True) ''p'' inputless_nodes inputless_connections [] =
     ([], Inl (Raised (InvalidArgument ''Gather shape has different number of dimensions that gather from node elements'')))"
  by code_simp+

text \<open>Two libraries that mark their internal manager, and a custom node with either of them.\<close>

definition marked_library :: "nat \<Rightarrow> nat NodeLibrary" where
  "marked_library k = \<lparr>nl_initialize = Some k, nl_deinitialize = Some k, nl_execute = Some k, nl_getInputsInfo = Some k,
     nl_getOutputsInfo = Some k, nl_release = Some k, nl_basePath = []\<rparr>"

definition marking_backend :: "(nat, nat) Backend" where
  "marking_backend =
     \<lparr>be_getModelInputsInfo = \<lambda>_ _. Inl SC_MODEL_MISSING, be_getModelOutputsInfo = \<lambda>_ _. Inl SC_MODEL_MISSING,
      be_hasAutoModelParameters = \<lambda>_ _. Inr (False, False),
      be_metadata = \<lambda>_ _ _. (0, Some [\<lparr>cn_name = Some ''x'', cn_dims = [1, 1], cn_precision = CN_FP32\<rparr>]),
      be_initialize = \<lambda>f _. (0, f), be_servableExists = \<lambda>_. False\<rparr>"

definition marked_nodes :: "nat \<Rightarrow> nat node list" where
  "marked_nodes k =
     [\<lparr>ni_kind = ENTRY, ni_nodeName = ''request'', ni_modelName = [], ni_modelVersion = None,
       ni_outputNameAliases = [(''in'', ''in'')], ni_demultiplyCount = None, ni_gatherFromNode = {},
       ni_library = marked_library k, ni_parameters = []\<rparr>,
      \<lparr>ni_kind = CUSTOM, ni_nodeName = ''node'', ni_modelName = [], ni_modelVersion = None,
       ni_outputNameAliases = [(''out'', ''x'')], ni_demultiplyCount = None, ni_gatherFromNode = {},
       ni_library = marked_library k, ni_parameters = []\<rparr>,
      \<lparr>ni_kind = EXIT, ni_nodeName = ''response'', ni_modelName = [], ni_modelVersion = None,
       ni_outputNameAliases = [], ni_demultiplyCount = None, ni_gatherFromNode = {},
       ni_library = marked_library k, ni_parameters = []\<rparr>]"

text \<open>
  A reload that gives a custom node another library keeps the internal manager of the old one: the
  new library is initialised, its manager is dropped because the node has an entry, and the pipeline
  becomes available with the new library and the old manager.
\<close>

theorem reload_keeps_the_old_manager:
  "map (\<lambda>(_, pd). (pd_status pd, pd_nodeResources pd, nl_execute (ni_library (pd_nodeInfos pd ! 1))))
     (factory_run [CreateDefinition marking_backend (\<lambda>_ _. True) ''p'' (marked_nodes 1) one_model_connections,
        ReloadDefinition marking_backend (\<lambda>_ _. True) ''p'' (marked_nodes 2) one_model_connections]) =
   [(AvailableState, [(''node'', 1)], Some 2)]"
  by code_simp

end
