(* ===== verification/Node_Execution.thy ===== *)
theory Node_Execution
  imports Sessions Stream_Queue Pipeline_Validation
begin

text \<open>
  The nodes of a pipeline at run time (\<open>src/dags/node.cpp\<close>): finding or creating the session of a
  metadata, setting its inputs from the results of a dependency, cutting the outputs of a demultiplexer
  into shards, and the four classes of nodes with their sessions: model nodes (\<open>src/dags/dl_node.cpp\<close>,
  \<open>src/dags/dlnodesession.cpp\<close>), nodes of a custom library (\<open>src/dags/custom_node.cpp\<close>,
  \<open>src/dags/customnodesession.cpp\<close>), the entry (\<open>src/dags/entry_node_impl.hpp\<close>) and the exit
  (\<open>src/dags/exit_node_impl.hpp\<close>). What OpenVINO, the models, the libraries and the frontends answer is
  the record \<open>environment\<close>.
\<close>

section \<open>Evaluation\<close>

text \<open>The reductions modulo \<open>2 ^ 32\<close> of \<open>Sessions\<close>, computed on \<open>int\<close> when a witness evaluates them.\<close>

definition wrap32 :: "nat \<Rightarrow> nat" where
  "wrap32 n = n mod 2 ^ 32"

lemma wrap32_code [code]: "wrap32 n = (if int n < 4294967296 then n else nat (int n mod 4294967296))"
  by (simp add: wrap32_def nat_mod_as_int)

lemma decrement_code [code]: "decrement n = (if n = 0 then nat 4294967295 else wrap32 (n - 1))"
proof (cases n)
  case (Suc m)
  then have "decrement n = (m + 2 ^ 32) mod 2 ^ 32" by (simp add: decrement_def)
  also have "\<dots> = m mod 2 ^ 32" by (rule mod_add_self2)
  finally show ?thesis by (simp add: Suc wrap32_def)
qed (simp add: decrement_def)

lemma new_GatherNodeInputHandler_code [code]:
  "new_GatherNodeInputHandler inputsMissingCount collapsingDetails =
     \<lparr>gh_base = (new_NodeInputHandler inputsMissingCount)
        \<lparr>ih_remainingDependencies := foldl (\<lambda>a s. wrap32 (a * s)) inputsMissingCount (cd_collapsedSessionSizes collapsingDetails)\<rparr>,
      gh_shardsStorage = [], gh_collapsingDetails = collapsingDetails\<rparr>"
  by (simp add: new_GatherNodeInputHandler_def wrap32_def)

lemma shard_loop_code [code]:
  "shard_loop details [] multiplyFactor shardId = Inr shardId"
  "shard_loop details (level # rest) multiplyFactor shardId =
     (case map_of details level of
        None \<Rightarrow> Inl OutOfRange
      | Some (sid, sessionSize) \<Rightarrow>
          shard_loop details rest (wrap32 (multiplyFactor * sessionSize)) (wrap32 (shardId + multiplyFactor * sid)))"
  by (simp_all add: wrap32_def split: option.split)

section \<open>Element types\<close>

text \<open>The types of \<open>ov::element\<close> the server names.\<close>

datatype ElementType =
    E_f64 | E_f32 | E_f16 | E_bf16 | E_i64 | E_i32 | E_i16 | E_i8 | E_i4 | E_u64 | E_u32 | E_u16 | E_u8 | E_u4
  | E_u1 | E_boolean | E_string | E_dynamic

fun ovmsPrecisionToIE2Precision :: "Precision \<Rightarrow> ElementType" where
  "ovmsPrecisionToIE2Precision FP64 = E_f64"
| "ovmsPrecisionToIE2Precision FP32 = E_f32"
| "ovmsPrecisionToIE2Precision FP16 = E_f16"
| "ovmsPrecisionToIE2Precision I64 = E_i64"
| "ovmsPrecisionToIE2Precision I32 = E_i32"
| "ovmsPrecisionToIE2Precision I16 = E_i16"
| "ovmsPrecisionToIE2Precision I8 = E_i8"
| "ovmsPrecisionToIE2Precision I4 = E_i4"
| "ovmsPrecisionToIE2Precision U64 = E_u64"
| "ovmsPrecisionToIE2Precision U32 = E_u32"
| "ovmsPrecisionToIE2Precision U16 = E_u16"
| "ovmsPrecisionToIE2Precision U8 = E_u8"
| "ovmsPrecisionToIE2Precision U4 = E_u4"
| "ovmsPrecisionToIE2Precision U1 = E_u1"
| "ovmsPrecisionToIE2Precision BOOL = E_boolean"
| "ovmsPrecisionToIE2Precision BF16 = E_bf16"
| "ovmsPrecisionToIE2Precision STRING = E_string"
| "ovmsPrecisionToIE2Precision _ = E_dynamic"

fun ovElementTypeToOvmsPrecision :: "ElementType \<Rightarrow> Precision" where
  "ovElementTypeToOvmsPrecision E_f64 = FP64"
| "ovElementTypeToOvmsPrecision E_f32 = FP32"
| "ovElementTypeToOvmsPrecision E_f16 = FP16"
| "ovElementTypeToOvmsPrecision E_bf16 = BF16"
| "ovElementTypeToOvmsPrecision E_i64 = I64"
| "ovElementTypeToOvmsPrecision E_i32 = I32"
| "ovElementTypeToOvmsPrecision E_i16 = I16"
| "ovElementTypeToOvmsPrecision E_i8 = I8"
| "ovElementTypeToOvmsPrecision E_i4 = I4"
| "ovElementTypeToOvmsPrecision E_u64 = U64"
| "ovElementTypeToOvmsPrecision E_u32 = U32"
| "ovElementTypeToOvmsPrecision E_u16 = U16"
| "ovElementTypeToOvmsPrecision E_u8 = U8"
| "ovElementTypeToOvmsPrecision E_u4 = U4"
| "ovElementTypeToOvmsPrecision E_u1 = U1"
| "ovElementTypeToOvmsPrecision E_string = STRING"
| "ovElementTypeToOvmsPrecision E_dynamic = UNDEFINED"
| "ovElementTypeToOvmsPrecision E_boolean = BOOL"

lemma element_type_roundtrip [simp]: "ovmsPrecisionToIE2Precision (ovElementTypeToOvmsPrecision t) = t"
  by (cases t) simp_all

type_synonym tensor = "ElementType Tensor"

type_synonym TensorWithSourceMap = "(string \<times> ElementType TensorWithSource) list"

type_synonym SessionResults = "(string \<times> (NodeSessionMetadata \<times> TensorWithSourceMap)) list"

section \<open>Nodes, sessions and the environment\<close>

text \<open>The model behind a session: the descriptions of its inputs and outputs by mapped name.\<close>

record model_view =
  mv_inputsInfo :: tensor_map
  mv_outputsInfo :: tensor_map

text \<open>
  A session with the parts of its subclasses: the model and the stream guard of \<open>DLNodeSession\<close>, the
  tensors of \<open>CustomNodeSession\<close>.
\<close>

record node_session =
  se_base :: "ElementType NodeSession"
  se_model :: "model_view option"
  se_nodeStreamIdGuard :: "stream_guard option"
  se_resultTensors :: "(string \<times> tensor) list"

datatype node_class =
    EntryNode
  | ExitNode
  | DLNode (dl_nodeOutputNameAlias: "(string \<times> string) list")
  | CustomNode (cn_nodeOutputNameAlias: "(string \<times> string) list")

text \<open>A node refers to others by their position in the pipeline's list of nodes.\<close>

record exec_node =
  en_nodeName :: string
  en_class :: node_class
  en_previous :: "nat list"
  en_next :: "nat list"
  en_nodeSessions :: "(string \<times> node_session) list"
  en_tensorNamesMapping :: "(string \<times> (string \<times> string) list) list"
  en_demultiplexCount :: "int option"
  en_gatherFrom :: "string list option"

definition new_Node :: "string \<Rightarrow> node_class \<Rightarrow> int option \<Rightarrow> string list \<Rightarrow> exec_node" where
  "new_Node nodeName cls demultiplyCount gatherFromNode =
     \<lparr>en_nodeName = nodeName, en_class = cls, en_previous = [], en_next = [], en_nodeSessions = [],
      en_tensorNamesMapping = [], en_demultiplexCount = demultiplyCount,
      en_gatherFrom = (if gatherFromNode \<noteq> [] then Some gatherFromNode else None)\<rparr>"

record CustomNodeTensor =
  ct_name :: "string option"
  ct_data :: "string option"
  ct_dataBytes :: nat
  ct_dims :: "nat list"
  ct_precision :: CustomNodeTensorPrecision

text \<open>
  What the code calls and does not contain, for the node and session of the call: the model of a node,
  the stream its queue has handed over by the time of the look, OpenVINO's inference request and
  allocation, the library of a custom node, the request and the response of the frontend.
\<close>

record environment =
  env_element_size :: "ElementType \<Rightarrow> nat"
  env_getModelInstance :: "nat \<Rightarrow> string \<Rightarrow> StatusCode + model_view"
  env_stream :: "nat \<Rightarrow> string \<Rightarrow> int option"
  env_set_tensor_throws :: "nat \<Rightarrow> string \<Rightarrow> string \<Rightarrow> bool"
  env_start_async_throws :: "nat \<Rightarrow> string \<Rightarrow> bool"
  env_wait_throws :: "nat \<Rightarrow> string \<Rightarrow> bool"
  env_get_tensor :: "nat \<Rightarrow> string \<Rightarrow> string \<Rightarrow> tensor option"
  env_tensorClone :: "tensor \<Rightarrow> StatusCode + tensor"
  env_library_execute :: "nat \<Rightarrow> string \<Rightarrow> (string \<times> tensor) list \<Rightarrow> int \<times> CustomNodeTensor list option"
  env_tensor_throws :: "ElementType \<Rightarrow> nat list \<Rightarrow> bool"
  env_request :: "StatusCode + TensorWithSourceMap"
  env_response_buffer :: "ElementType \<Rightarrow> nat list \<Rightarrow> nat \<Rightarrow> StatusCode + string option"
  env_serialize :: "(string \<times> tensor) list \<Rightarrow> StatusCode"

text \<open>\<open>Pipeline::connect\<close>: the dependant, the dependency and the names of the tensors.\<close>

definition addDependant :: "nat \<Rightarrow> exec_node \<Rightarrow> exec_node outcome" where
  "addDependant to n =
     (if en_class n = ExitNode then Inl (Raised (LogicError ''This node cannot have dependent''))
      else Inr (n\<lparr>en_next := en_next n @ [to]\<rparr>))"

definition addDependency :: "nat \<Rightarrow> string \<Rightarrow> (string \<times> string) list \<Rightarrow> exec_node \<Rightarrow> exec_node" where
  "addDependency from fromName mapping n =
     n\<lparr>en_previous := en_previous n @ [from],
       en_tensorNamesMapping := (fromName, mapping) # filter (\<lambda>(name, _). name \<noteq> fromName) (en_tensorNamesMapping n)\<rparr>"

definition connect :: "nat \<Rightarrow> nat \<Rightarrow> (string \<times> string) list \<Rightarrow> exec_node list \<Rightarrow> exec_node list outcome" where
  "connect from to mapping nodes =
     rbind (addDependant to (nodes ! from)) (\<lambda>n.
       let nodes' = nodes[from := n]
       in Inr (nodes'[to := addDependency from (en_nodeName n) mapping (nodes' ! to)]))"

section \<open>Sessions of a node\<close>

definition createNodeSession :: "NodeSessionMetadata \<Rightarrow> CollapseDetails \<Rightarrow> exec_node \<Rightarrow> node_session result" where
  "createNodeSession metadata collapsingDetails n =
     rbind (new_NodeSession metadata (en_nodeName n) (length (en_previous n)) collapsingDetails) (\<lambda>s.
       Inr \<lparr>se_base = s, se_model = None, se_nodeStreamIdGuard = None, se_resultTensors = []\<rparr>)"

text \<open>
  \<open>getNodeSession\<close> of a metadata gives the key of the session it has found or created, or no session
  when the metadata cannot be collapsed.
\<close>

definition getNodeSession :: "NodeSessionMetadata \<Rightarrow> exec_node \<Rightarrow> (string option \<times> exec_node) outcome" where
  "getNodeSession metadata n =
     (let create = (\<lambda>key m d. rbind (raising (createNodeSession m d n)) (\<lambda>s.
            Inr (Some key, n\<lparr>en_nodeSessions := en_nodeSessions n @ [(key, s)]\<rparr>)))
      in case en_gatherFrom n of
           Some names \<Rightarrow>
             (case getSessionKey metadata names of
                Inl _ \<Rightarrow> Inr (None, n)
              | Inr (key, _) \<Rightarrow>
                  if map_of (en_nodeSessions n) key \<noteq> None then Inr (Some key, n)
                  else case getCollapsedSessionMetadata metadata names of
                         Inl _ \<Rightarrow> Inr (None, n)
                       | Inr (m, d) \<Rightarrow> create key m d)
         | None \<Rightarrow>
             rbind (raising (getSessionKey metadata [])) (\<lambda>(key, _).
               if map_of (en_nodeSessions n) key \<noteq> None then Inr (Some key, n)
               else create key metadata \<lparr>cd_collapsedSessionNames = [], cd_collapsedSessionSizes = []\<rparr>))"

text \<open>\<open>getNodeSession\<close> of a key, which throws when there is none; a session is written back in place.\<close>

definition session_at :: "string \<Rightarrow> exec_node \<Rightarrow> node_session outcome" where
  "session_at key n =
     (case map_of (en_nodeSessions n) key of
        None \<Rightarrow> Inl (Raised (RuntimeError ''Tried to get non existing session''))
      | Some s \<Rightarrow> Inr s)"

definition put_session :: "string \<Rightarrow> node_session \<Rightarrow> exec_node \<Rightarrow> exec_node" where
  "put_session key s n =
     n\<lparr>en_nodeSessions := map (\<lambda>(k, t). if k = key then (k, s) else (k, t)) (en_nodeSessions n)\<rparr>"

definition erase_session :: "string \<Rightarrow> exec_node \<Rightarrow> exec_node" where
  "erase_session key n = n\<lparr>en_nodeSessions := filter (\<lambda>(k, _). k \<noteq> key) (en_nodeSessions n)\<rparr>"

definition getReadySessions :: "exec_node \<Rightarrow> string list" where
  "getReadySessions n = map fst (filter (\<lambda>(_, s). session_isReady (se_base s)) (en_nodeSessions n))"

section \<open>Inputs from a dependency\<close>

text \<open>\<open>std::accumulate\<close> over \<open>size_t\<close> dimensions with an \<open>int\<close> accumulator that starts at 1.\<close>

definition int_of_size_t :: "nat \<Rightarrow> int" where
  "int_of_size_t n = (let m = int n mod 2 ^ 32 in if m < 2 ^ 31 then m else m - 2 ^ 32)"

definition accumulate_product :: "nat list \<Rightarrow> int" where
  "accumulate_product dims = foldl (\<lambda>a d. int_of_size_t (size_t (int (size_t a) * int d))) 1 dims"

text \<open>\<open>GatherExitNodeInputHandler::prepareConsolidatedTensor\<close>: the buffer lies in the response.\<close>

definition prepare_exit_tensor :: "environment \<Rightarrow> ElementType \<Rightarrow> nat list \<Rightarrow> StatusCode + string" where
  "prepare_exit_tensor env precision dims =
     (let numOfElements = accumulate_product dims;
          numOfBytes = size_t (int (size_t numOfElements) * int (env_element_size env precision))
      in case env_response_buffer env precision dims numOfBytes of
           Inl status \<Rightarrow> Inl status
         | Inr None \<Rightarrow> Inl SC_INTERNAL_ERROR
         | Inr (Some buffer) \<Rightarrow> Inr buffer)"

definition prepareConsolidatedTensor :: "environment \<Rightarrow> node_class \<Rightarrow> ElementType \<Rightarrow> nat list \<Rightarrow> StatusCode + string" where
  "prepareConsolidatedTensor env cls precision dims =
     (if cls = ExitNode then prepare_exit_tensor env precision dims
      else createSharedTensor (env_element_size env) precision dims)"

fun set_mapped ::
  "(string \<times> string) list \<Rightarrow> TensorWithSourceMap \<Rightarrow> session_id \<Rightarrow> ElementType NodeSession \<Rightarrow> StatusCode \<times> ElementType NodeSession" where
  "set_mapped [] inputs shardId s = (SC_OK, s)"
| "set_mapped ((dependency_output_name, current_node_input_name) # mapping) inputs shardId s =
     (case map_of inputs dependency_output_name of
        None \<Rightarrow> (SC_INVALID_MISSING_INPUT, s)
      | Some t \<Rightarrow>
          (let (status, s') = session_setInput current_node_input_name t shardId s
           in if \<not> status_ok status then (status, s') else set_mapped mapping inputs shardId s'))"

definition setInputs_result ::
  "environment \<Rightarrow> string \<Rightarrow> TensorWithSourceMap \<Rightarrow> NodeSessionMetadata \<Rightarrow> exec_node \<Rightarrow> (StatusCode \<times> exec_node) outcome" where
  "setInputs_result env dependency inputs metadata n =
     rbind (map_at (en_tensorNamesMapping n) dependency) (\<lambda>mapping.
     rbind (getNodeSession metadata n) (\<lambda>(key_opt, n).
       case key_opt of
         None \<Rightarrow> Inr (SC_INTERNAL_ERROR, n)
       | Some key \<Rightarrow>
           (case getShardId metadata (case en_gatherFrom n of None \<Rightarrow> [] | Some names \<Rightarrow> names) of
              Inl _ \<Rightarrow> Inr (SC_INTERNAL_ERROR, n)
            | Inr shardId \<Rightarrow>
                rbind (session_at key n) (\<lambda>s.
                  let (status, b) = set_mapped mapping inputs shardId (se_base s)
                  in if \<not> status_ok status then Inr (status, put_session key (s\<lparr>se_base := b\<rparr>) n)
                     else rbind (raising (session_notifyFinishedDependency (prepareConsolidatedTensor env (en_class n)) b))
                            (\<lambda>(status, b). Inr (status, put_session key (s\<lparr>se_base := b\<rparr>) n))))))"

fun setInputs :: "environment \<Rightarrow> string \<Rightarrow> SessionResults \<Rightarrow> exec_node \<Rightarrow> (StatusCode \<times> exec_node) outcome" where
  "setInputs env dependency [] n = Inr (SC_OK, n)"
| "setInputs env dependency ((sessionKey, metadata, inputs) # results) n =
     rbind (setInputs_result env dependency inputs metadata n) (\<lambda>(status, n).
       if \<not> status_ok status then Inr (status, n) else setInputs env dependency results n)"

section \<open>Demultiplexing\<close>

definition DEMULTIPLY_LIMIT :: int where
  "DEMULTIPLY_LIMIT = 10000"

text \<open>
  A shard is a view of the bytes of the tensor; a view that goes past them is \<open>Undefined\<close>. The entry node
  overrides the function with the same views.
\<close>

definition createShardedTensor :: "(ElementType \<Rightarrow> nat) \<Rightarrow> tensor \<Rightarrow> nat list \<Rightarrow> nat \<Rightarrow> nat \<Rightarrow> tensor outcome" where
  "createShardedTensor element_size t dims i step =
     (let bytes = element_size (tn_precision t) * prod_list dims
      in if length (tn_data t) < i * step + bytes then Inl Undefined
         else Inr \<lparr>tn_precision = tn_precision t, tn_shape = dims, tn_data = take bytes (drop (i * step) (tn_data t))\<rparr>)"

definition put_shard :: "string \<Rightarrow> NodeSessionMetadata \<Rightarrow> string \<Rightarrow> ElementType TensorWithSource \<Rightarrow> SessionResults \<Rightarrow> SessionResults" where
  "put_shard sessionKey metadata tensorName shard results =
     (if map_of results sessionKey = None then results @ [(sessionKey, metadata, [(tensorName, shard)])]
      else map (\<lambda>(k, m, ts). if k = sessionKey
                  then (k, m, if map_of ts tensorName = None then ts @ [(tensorName, shard)] else ts)
                  else (k, m, ts)) results)"

fun put_shards ::
  "(ElementType \<Rightarrow> nat) \<Rightarrow> string \<Rightarrow> tensor \<Rightarrow> nat list \<Rightarrow> nat \<Rightarrow> nat \<Rightarrow> NodeSessionMetadata list \<Rightarrow> SessionResults \<Rightarrow>
   SessionResults outcome" where
  "put_shards element_size tensorName t dims step i [] results = Inr results"
| "put_shards element_size tensorName t dims step i (m # ms) results =
     rbind (createShardedTensor element_size t dims i step) (\<lambda>shard.
     rbind (raising (getSessionKey m [])) (\<lambda>(sessionKey, _).
       put_shards element_size tensorName t dims step (i + 1) ms
         (put_shard sessionKey m tensorName (shard, Some t) results)))"

text \<open>The loop over the tensors; a status ends it.\<close>

fun demultiply_tensors ::
  "(ElementType \<Rightarrow> nat) \<Rightarrow> int \<Rightarrow> nat \<Rightarrow> NodeSessionMetadata list \<Rightarrow> TensorWithSourceMap \<Rightarrow> SessionResults \<Rightarrow>
   (StatusCode \<times> SessionResults) outcome" where
  "demultiply_tensors element_size demultiplexCount n metas [] results = Inr (SC_OK, results)"
| "demultiply_tensors element_size demultiplexCount n metas ((tensorName, t, _) # rest) results =
     (if tn_precision t = E_string then Inr (SC_PIPELINE_STRING_DEMUILTIPLICATION_UNSUPPORTED, results)
      else if length (tn_shape t) < 3 then Inr (SC_PIPELINE_WRONG_NUMBER_OF_DIMENSIONS_TO_DEMULTIPLY, results)
      else if demultiplexCount \<noteq> -1 \<and> tn_shape t ! 0 \<noteq> size_t demultiplexCount
      then Inr (SC_PIPELINE_WRONG_DIMENSION_SIZE_TO_DEMULTIPLY, results)
      else if n = 0 then Inr (SC_PIPELINE_DEMULTIPLEXER_NO_RESULTS, results)
      else rbind (put_shards element_size tensorName t (tl (tn_shape t)) (length (tn_data t) div n) 0 metas results)
             (demultiply_tensors element_size demultiplexCount n metas rest))"

text \<open>
  \<open>begin()->second\<close> of an empty map and \<open>firstTensorShape[0]\<close> of a scalar are undefined. When there are no
  results the session itself is erased as well; an error makes the caller drop the results.
\<close>

definition demultiplyOutputs ::
  "(ElementType \<Rightarrow> nat) \<Rightarrow> string \<Rightarrow> int option \<Rightarrow> SessionResults \<Rightarrow> (StatusCode \<times> SessionResults) outcome" where
  "demultiplyOutputs element_size nodeName demultiplexCount results =
     (case demultiplexCount of
        None \<Rightarrow> Inr (SC_INTERNAL_ERROR, results)
      | Some c \<Rightarrow>
          (case results of
             (_, metadata, tensorMap) # _ \<Rightarrow>
               (case tensorMap of
                  (_, t, _) # _ \<Rightarrow>
                    (case tn_shape t of
                       [] \<Rightarrow> Inl Undefined
                     | n # _ \<Rightarrow>
                         if DEMULTIPLY_LIMIT < int n then Inr (SC_PIPELINE_TOO_LARGE_DIMENSION_SIZE_TO_DEMULTIPLY, results)
                         else case generateSubsessions metadata nodeName n of
                                Inl _ \<Rightarrow> Inr (SC_INTERNAL_ERROR, results)
                              | Inr metas \<Rightarrow>
                                  rbind (demultiply_tensors element_size c n metas tensorMap results) (\<lambda>(status, out).
                                    if status_ok status \<or> status = SC_PIPELINE_DEMULTIPLEXER_NO_RESULTS
                                    then rbind (raising (getSessionKey metadata [])) (\<lambda>(key, _).
                                           Inr (status, filter (\<lambda>(k, _). k \<noteq> key) out))
                                    else Inr (status, out)))
                | [] \<Rightarrow> Inl Undefined)
           | [] \<Rightarrow> Inl Undefined))"

section \<open>Model nodes\<close>

text \<open>What a call of \<open>execute\<close> does to the event queue.\<close>

datatype effect = NoEvent | PushEvent | InFlight

definition set_inputHandler_base :: "('p NodeInputHandler \<Rightarrow> 'p NodeInputHandler) \<Rightarrow> 'p NodeSession \<Rightarrow> 'p NodeSession" where
  "set_inputHandler_base f s =
     s\<lparr>ns_inputHandler := (case ns_inputHandler s of
          PlainHandler h \<Rightarrow> PlainHandler (f h)
        | GatherHandler h \<Rightarrow> GatherHandler (h\<lparr>gh_base := f (gh_base h)\<rparr>))\<rparr>"

definition session_getInputs :: "node_session \<Rightarrow> (string \<times> tensor) list \<times> node_session" where
  "session_getInputs s =
     (fst (getInputs (handler_base (ns_inputHandler (se_base s)))),
      s\<lparr>se_base := set_inputHandler_base (\<lambda>h. snd (getInputs h)) (se_base s)\<rparr>)"

definition session_clearInputs :: "node_session \<Rightarrow> node_session" where
  "session_clearInputs s = s\<lparr>se_base := set_inputHandler_base clearInputs (se_base s)\<rparr>"

text \<open>\<open>DLNodeSession::validate\<close>\<close>

definition dl_validate :: "tensor \<Rightarrow> TensorInfo \<Rightarrow> StatusCode outcome" where
  "dl_validate t info =
     (let dims = tn_shape t; sh = ti_shape info
      in if ovmsPrecisionToIE2Precision (ti_precision info) \<noteq> tn_precision t then Inr SC_INVALID_PRECISION
         else if length sh \<noteq> length dims then Inr SC_INVALID_NO_OF_SHAPE_DIMENSIONS
         else case lay_batchIndex (ti_layout info) of
                None \<Rightarrow>
                  rbind (raising (shape_match sh dims)) (\<lambda>b. Inr (if \<not> b then SC_INVALID_SHAPE else SC_OK))
              | Some batchIndex \<Rightarrow>
                  if length dims \<le> batchIndex then Inr SC_INVALID_BATCH_DIMENSION
                  else rbind (raising (dim_match (sh ! batchIndex) (to_dimension_value (dims ! batchIndex)))) (\<lambda>b.
                    if \<not> b then rbind (raising (shape_match_skip sh dims batchIndex)) (\<lambda>rest.
                                  Inr (if rest then SC_INVALID_BATCH_SIZE else SC_INVALID_SHAPE))
                    else rbind (raising (shape_match sh dims)) (\<lambda>b.
                           Inr (if \<not> b then SC_INVALID_SHAPE else SC_OK))))"

fun validate_inputs :: "tensor_map \<Rightarrow> (string \<times> tensor) list \<Rightarrow> StatusCode outcome" where
  "validate_inputs inputsInfo [] = Inr SC_OK"
| "validate_inputs inputsInfo ((name, t) # rest) =
     (case map_of inputsInfo name of
        None \<Rightarrow> Inr SC_INVALID_MISSING_INPUT
      | Some info \<Rightarrow>
          rbind (dl_validate t info) (\<lambda>status.
            if \<not> status_ok status then Inr status else validate_inputs inputsInfo rest))"

definition prepareInputsAndModelForInference :: "model_view \<Rightarrow> node_session \<Rightarrow> (StatusCode \<times> node_session) outcome" where
  "prepareInputsAndModelForInference model s =
     (let (inputs, s) = session_getInputs s
      in rbind (validate_inputs (mv_inputsInfo model) inputs) (\<lambda>status. Inr (status, s)))"

definition requestExecuteRequiredResources :: "StatusCode + model_view \<Rightarrow> node_session \<Rightarrow> (StatusCode \<times> node_session) outcome" where
  "requestExecuteRequiredResources instance s =
     (case instance of
        Inl status \<Rightarrow> Inr (status, s)
      | Inr model \<Rightarrow>
          rbind (prepareInputsAndModelForInference model (s\<lparr>se_model := Some model\<rparr>)) (\<lambda>(status, s).
            if \<not> status_ok status then Inr (status, s)
            else Inr (status, s\<lparr>se_nodeStreamIdGuard := Some new_guard\<rparr>)))"

definition getRealInputName :: "model_view \<Rightarrow> string \<Rightarrow> string option" where
  "getRealInputName model alias = map_option ti_name (map_of (mv_inputsInfo model) alias)"

fun set_tensors :: "(string \<Rightarrow> bool) \<Rightarrow> model_view \<Rightarrow> (string \<times> tensor) list \<Rightarrow> StatusCode" where
  "set_tensors throws model [] = SC_OK"
| "set_tensors throws model ((name, t) # rest) =
     (case getRealInputName model name of
        None \<Rightarrow> SC_INTERNAL_ERROR
      | Some realModelInputName \<Rightarrow>
          if throws realModelInputName then SC_OV_INTERNAL_DESERIALIZATION_ERROR else set_tensors throws model rest)"

definition setInputsForInference :: "(string \<Rightarrow> bool) \<Rightarrow> model_view \<Rightarrow> node_session \<Rightarrow> StatusCode \<times> node_session" where
  "setInputsForInference throws model s =
     (let (inputs, s) = session_getInputs s in (set_tensors throws model inputs, s))"

definition executeInference :: "bool \<Rightarrow> StatusCode" where
  "executeInference start_throws = (if start_throws then SC_OV_INTERNAL_INFERENCE_ERROR else SC_OK)"

text \<open>Where \<open>this->model\<close> is read it has been set; a null model would be undefined.\<close>

definition dl_start ::
  "environment \<Rightarrow> nat \<Rightarrow> string \<Rightarrow> node_session \<Rightarrow> (StatusCode \<times> effect \<times> node_session) outcome" where
  "dl_start env i key s =
     (case se_nodeStreamIdGuard s of
        None \<Rightarrow> Inl Undefined
      | Some guard \<Rightarrow>
          rbind (raising (guard_tryGetId (env_stream env i key) guard)) (\<lambda>(stream, guard).
            let s = s\<lparr>se_nodeStreamIdGuard := Some guard\<rparr>
            in case stream of
                 None \<Rightarrow> Inr (SC_PIPELINE_STREAM_ID_NOT_READY_YET, NoEvent, s)
               | Some _ \<Rightarrow>
                   (case se_model s of
                      None \<Rightarrow> Inl Undefined
                    | Some model \<Rightarrow>
                        (let (status, s) = setInputsForInference (env_set_tensor_throws env i key) model s
                         in if \<not> status_ok status then Inr (status, PushEvent, s)
                            else let status = executeInference (env_start_async_throws env i key)
                                 in if \<not> status_ok status then Inr (status, PushEvent, s)
                                    else Inr (status, InFlight, s)))))"

definition dl_execute ::
  "environment \<Rightarrow> nat \<Rightarrow> string \<Rightarrow> node_session \<Rightarrow> (StatusCode \<times> effect \<times> node_session) outcome" where
  "dl_execute env i key s =
     (if se_nodeStreamIdGuard s = None
      then rbind (requestExecuteRequiredResources (env_getModelInstance env i key) s) (\<lambda>(status, s).
             if \<not> status_ok status then Inr (status, PushEvent, s) else dl_start env i key s)
      else dl_start env i key s)"

definition dl_release :: "node_session \<Rightarrow> node_session" where
  "dl_release s = s\<lparr>se_nodeStreamIdGuard := None, se_model := None\<rparr>"

definition dl_tryDisarm :: "int option \<Rightarrow> node_session \<Rightarrow> (bool \<times> node_session) outcome" where
  "dl_tryDisarm stream s =
     (case se_nodeStreamIdGuard s of
        None \<Rightarrow> Inr (True, s)
      | Some guard \<Rightarrow>
          rbind (raising (guard_tryDisarm stream guard)) (\<lambda>(done, guard).
            Inr (done, s\<lparr>se_nodeStreamIdGuard := Some guard\<rparr>)))"

section \<open>Nodes of a custom library\<close>

text \<open>
  \<open>createTensor\<close>: the element count is accumulated in an \<open>int\<close>, the byte count in \<open>size_t\<close>; the tensor
  is a view of the library's memory. Releasing that memory has no part in the model.
\<close>

definition createTensor :: "environment \<Rightarrow> CustomNodeTensor \<Rightarrow> StatusCode + tensor" where
  "createTensor env ct =
     (let precision = ovmsPrecisionToIE2Precision (toInferenceEnginePrecision (ct_precision ct));
          dims = ct_dims ct;
          expectedElementsCount = size_t (accumulate_product dims);
          expectedDataLength = size_t (int expectedElementsCount * int (env_element_size env precision))
      in if precision = E_dynamic then Inl SC_NODE_LIBRARY_INVALID_PRECISION
         else case ct_data ct of
                None \<Rightarrow> Inl SC_NODE_LIBRARY_INVALID_CONTENT_SIZE
              | Some data \<Rightarrow>
                  if ct_dataBytes ct \<noteq> expectedDataLength then Inl SC_NODE_LIBRARY_INVALID_CONTENT_SIZE
                  else if env_tensor_throws env precision dims then Inl SC_OV_INTERNAL_DESERIALIZATION_ERROR
                  else Inr \<lparr>tn_precision = precision, tn_shape = dims, tn_data = data\<rparr>)"

fun collect_outputs ::
  "environment \<Rightarrow> CustomNodeTensor list \<Rightarrow> StatusCode \<Rightarrow> (string \<times> tensor) list \<Rightarrow> StatusCode \<times> (string \<times> tensor) list" where
  "collect_outputs env [] status out = (status, out)"
| "collect_outputs env (ct # cts) status out =
     (case ct_name ct of
        None \<Rightarrow> collect_outputs env cts SC_NODE_LIBRARY_OUTPUT_MISSING_NAME out
      | Some name \<Rightarrow>
          (case createTensor env ct of
             Inl creationResult \<Rightarrow> collect_outputs env cts (if status_ok status then creationResult else status) out
           | Inr t \<Rightarrow> collect_outputs env cts status (if map_of out name = None then out @ [(name, t)] else out)))"

definition custom_execute :: "environment \<Rightarrow> nat \<Rightarrow> string \<Rightarrow> node_session \<Rightarrow> StatusCode \<times> effect \<times> node_session" where
  "custom_execute env i key s =
     (let (inputs, s) = session_getInputs s;
          (code, outputTensors) = env_library_execute env i key inputs
      in if code \<noteq> 0 then (SC_NODE_LIBRARY_EXECUTION_FAILED, PushEvent, s)
         else case outputTensors of
                None \<Rightarrow> (SC_NODE_LIBRARY_OUTPUTS_CORRUPTED, PushEvent, s)
              | Some cts \<Rightarrow>
                  if cts = [] then (SC_NODE_LIBRARY_OUTPUTS_CORRUPTED_COUNT, PushEvent, s)
                  else let (status, out) = collect_outputs env cts SC_OK (se_resultTensors s)
                       in (status, PushEvent, s\<lparr>se_resultTensors := out\<rparr>))"

section \<open>Results\<close>

text \<open>The tensors the next nodes ask for, each once.\<close>

fun fetch_pairs ::
  "(string \<Rightarrow> StatusCode + tensor) \<Rightarrow> (string \<times> string) list \<Rightarrow> TensorWithSourceMap \<Rightarrow> StatusCode \<times> TensorWithSourceMap" where
  "fetch_pairs get [] outputs = (SC_OK, outputs)"
| "fetch_pairs get ((output_name, _) # pairs) outputs =
     (if map_of outputs output_name \<noteq> None then fetch_pairs get pairs outputs
      else case get output_name of
             Inl status \<Rightarrow> (status, outputs)
           | Inr t \<Rightarrow> fetch_pairs get pairs (outputs @ [(output_name, (t, None))]))"

fun fetch_for ::
  "(string \<Rightarrow> StatusCode + tensor) \<Rightarrow> string \<Rightarrow> exec_node list \<Rightarrow> TensorWithSourceMap \<Rightarrow>
   (StatusCode \<times> TensorWithSourceMap) outcome" where
  "fetch_for get nodeName [] outputs = Inr (SC_OK, outputs)"
| "fetch_for get nodeName (n # ns) outputs =
     rbind (map_at (en_tensorNamesMapping n) nodeName) (\<lambda>pairs.
       let (status, outputs) = fetch_pairs get pairs outputs
       in if \<not> status_ok status then Inr (status, outputs) else fetch_for get nodeName ns outputs)"

definition getRealOutputName :: "(string \<times> string) list \<Rightarrow> model_view \<Rightarrow> string \<Rightarrow> string option" where
  "getRealOutputName nodeOutputNameAlias model alias =
     (let modelOutputName = (case map_of nodeOutputNameAlias alias of Some a \<Rightarrow> a | None \<Rightarrow> alias)
      in map_option ti_name (map_of (mv_outputsInfo model) modelOutputName))"

definition dl_output :: "environment \<Rightarrow> nat \<Rightarrow> string \<Rightarrow> (string \<times> string) list \<Rightarrow> model_view \<Rightarrow> string \<Rightarrow> StatusCode + tensor" where
  "dl_output env i key aliases model output_name =
     (case getRealOutputName aliases model output_name of
        None \<Rightarrow> Inl SC_INTERNAL_ERROR
      | Some real \<Rightarrow>
          (case env_get_tensor env i key real of
             None \<Rightarrow> Inl SC_OV_INTERNAL_SERIALIZATION_ERROR
           | Some t \<Rightarrow> env_tensorClone env t))"

definition next_nodes :: "exec_node list \<Rightarrow> exec_node \<Rightarrow> exec_node list" where
  "next_nodes nodes n = map (\<lambda>j. nodes ! j) (en_next n)"

definition dl_fetchResults ::
  "environment \<Rightarrow> exec_node list \<Rightarrow> nat \<Rightarrow> (string \<times> string) list \<Rightarrow> node_session \<Rightarrow> (StatusCode \<times> SessionResults) outcome" where
  "dl_fetchResults env nodes i aliases s =
     rbind (raising (getSessionKey (ns_metadata (se_base s)) [])) (\<lambda>(key, _).
       case (se_nodeStreamIdGuard s, se_model s) of
         (Some guard, Some model) \<Rightarrow>
           rbind (raising (guard_tryGetId (env_stream env i (ns_sessionKey (se_base s))) guard)) (\<lambda>(stream, _).
             case stream of
               None \<Rightarrow> Inl (Raised (LogicError ''Stream id is empty on already executed node''))
             | Some _ \<Rightarrow>
                 if env_wait_throws env i (ns_sessionKey (se_base s))
                 then Inr (SC_INTERNAL_ERROR, [(key, ns_metadata (se_base s), [])])
                 else rbind (fetch_for (dl_output env i (ns_sessionKey (se_base s)) aliases model)
                              (en_nodeName (nodes ! i)) (next_nodes nodes (nodes ! i)) []) (\<lambda>(status, outputs).
                        Inr (status, [(key, ns_metadata (se_base s), outputs)])))
       | _ \<Rightarrow> Inl Undefined)"

definition custom_output :: "(string \<times> string) list \<Rightarrow> (string \<times> tensor) list \<Rightarrow> string \<Rightarrow> StatusCode + tensor" where
  "custom_output aliases resultTensors output_name =
     (case map_of resultTensors (case map_of aliases output_name of Some a \<Rightarrow> a | None \<Rightarrow> output_name) of
        None \<Rightarrow> Inl SC_NODE_LIBRARY_MISSING_OUTPUT
      | Some t \<Rightarrow> Inr t)"

definition custom_fetchResults ::
  "exec_node list \<Rightarrow> nat \<Rightarrow> (string \<times> string) list \<Rightarrow> node_session \<Rightarrow> (StatusCode \<times> SessionResults) outcome" where
  "custom_fetchResults nodes i aliases s =
     rbind (raising (getSessionKey (ns_metadata (se_base s)) [])) (\<lambda>(key, _).
     rbind (fetch_for (custom_output aliases (se_resultTensors s)) (en_nodeName (nodes ! i))
              (next_nodes nodes (nodes ! i)) []) (\<lambda>(status, outputs).
       Inr (status, [(key, ns_metadata (se_base s), outputs)])))"

definition entry_fetchResults :: "environment \<Rightarrow> node_session \<Rightarrow> (StatusCode \<times> SessionResults) outcome" where
  "entry_fetchResults env s =
     (case env_request env of
        Inl status \<Rightarrow> Inr (status, [])
      | Inr outputs \<Rightarrow> Inr (SC_OK, [(ns_sessionKey (se_base s), ns_metadata (se_base s), outputs)]))"

definition exit_fetchResults :: "environment \<Rightarrow> node_session \<Rightarrow> (StatusCode \<times> SessionResults) outcome" where
  "exit_fetchResults env s = Inr (env_serialize env (fst (session_getInputs s)), [])"

definition class_fetchResults ::
  "environment \<Rightarrow> exec_node list \<Rightarrow> nat \<Rightarrow> node_session \<Rightarrow> (StatusCode \<times> SessionResults) outcome" where
  "class_fetchResults env nodes i s =
     (case en_class (nodes ! i) of
        EntryNode \<Rightarrow> entry_fetchResults env s
      | ExitNode \<Rightarrow> exit_fetchResults env s
      | DLNode aliases \<Rightarrow> dl_fetchResults env nodes i aliases s
      | CustomNode aliases \<Rightarrow> custom_fetchResults nodes i aliases s)"

definition fetchResults ::
  "environment \<Rightarrow> nat \<Rightarrow> string \<Rightarrow> exec_node list \<Rightarrow> (StatusCode \<times> SessionResults \<times> exec_node list) outcome" where
  "fetchResults env i key nodes =
     (case map_of (en_nodeSessions (nodes ! i)) key of
        None \<Rightarrow> Inr (SC_UNKNOWN_ERROR, [], nodes)
      | Some s \<Rightarrow>
          rbind (class_fetchResults env nodes i s) (\<lambda>(status, results).
          rbind (if status_ok status \<and> en_demultiplexCount (nodes ! i) \<noteq> None
                 then demultiplyOutputs (env_element_size env) (en_nodeName (nodes ! i)) (en_demultiplexCount (nodes ! i)) results
                 else Inr (status, results)) (\<lambda>(status, results).
            Inr (status, results, nodes[i := erase_session key (nodes ! i)]))))"

section \<open>The virtual functions\<close>

definition node_execute ::
  "environment \<Rightarrow> nat \<Rightarrow> string \<Rightarrow> exec_node list \<Rightarrow> (StatusCode \<times> effect \<times> exec_node list) outcome" where
  "node_execute env i key nodes =
     (case en_class (nodes ! i) of
        EntryNode \<Rightarrow> Inr (SC_OK, PushEvent, nodes)
      | ExitNode \<Rightarrow> Inr (SC_OK, PushEvent, nodes)
      | DLNode _ \<Rightarrow>
          rbind (session_at key (nodes ! i)) (\<lambda>s.
          rbind (dl_execute env i key s) (\<lambda>(status, e, s).
            Inr (status, e, nodes[i := put_session key s (nodes ! i)])))
      | CustomNode _ \<Rightarrow>
          rbind (session_at key (nodes ! i)) (\<lambda>s.
            let (status, e, s) = custom_execute env i key s
            in Inr (status, e, nodes[i := put_session key s (nodes ! i)])))"

definition node_release :: "nat \<Rightarrow> string \<Rightarrow> exec_node list \<Rightarrow> exec_node list outcome" where
  "node_release i key nodes =
     (case en_class (nodes ! i) of
        DLNode _ \<Rightarrow>
          rbind (session_at key (nodes ! i)) (\<lambda>s. Inr (nodes[i := put_session key (dl_release s) (nodes ! i)]))
      | _ \<Rightarrow> Inr nodes)"

definition node_tryDisarm ::
  "environment \<Rightarrow> nat \<Rightarrow> string \<Rightarrow> exec_node list \<Rightarrow> (bool \<times> exec_node list) outcome" where
  "node_tryDisarm env i key nodes =
     (case en_class (nodes ! i) of
        DLNode _ \<Rightarrow>
          rbind (session_at key (nodes ! i)) (\<lambda>s.
          rbind (dl_tryDisarm (env_stream env i key) s) (\<lambda>(done, s).
            Inr (done, nodes[i := put_session key s (nodes ! i)])))
      | _ \<Rightarrow> Inr (True, nodes))"

text \<open>The completion callback of an inference.\<close>

definition inference_done :: "nat \<Rightarrow> string \<Rightarrow> exec_node list \<Rightarrow> exec_node list" where
  "inference_done i key nodes =
     (case map_of (en_nodeSessions (nodes ! i)) key of
        None \<Rightarrow> nodes
      | Some s \<Rightarrow> nodes[i := put_session key (session_clearInputs s) (nodes ! i)])"

section \<open>Shards\<close>

text \<open>The shard with number \<open>i\<close> of a tensor cut along its first dimension.\<close>

definition shard :: "(ElementType \<Rightarrow> nat) \<Rightarrow> tensor \<Rightarrow> nat \<Rightarrow> tensor" where
  "shard element_size t i =
     (let bytes = element_size (tn_precision t) * prod_list (tl (tn_shape t))
      in \<lparr>tn_precision = tn_precision t, tn_shape = tl (tn_shape t), tn_data = take bytes (drop (i * bytes) (tn_data t))\<rparr>)"

text \<open>A tensor that can be cut in \<open>n\<close> shards, with the bytes its shape asks for.\<close>

definition cuttable :: "(ElementType \<Rightarrow> nat) \<Rightarrow> nat \<Rightarrow> tensor \<Rightarrow> bool" where
  "cuttable element_size n t \<longleftrightarrow> tn_precision t \<noteq> E_string \<and> 3 \<le> length (tn_shape t) \<and> hd (tn_shape t) = n \<and>
     length (tn_data t) = element_size (tn_precision t) * prod_list (tn_shape t)"

lemma cuttable_bytes:
  assumes "cuttable element_size n t"
  shows "length (tn_data t) = n * (element_size (tn_precision t) * prod_list (tl (tn_shape t)))"
  using assms by (cases "tn_shape t") (auto simp: cuttable_def)

lemma createShardedTensor_shard:
  assumes "cuttable element_size n t" "i < n"
  shows "createShardedTensor element_size t (tl (tn_shape t)) i (length (tn_data t) div n) = Inr (shard element_size t i)"
proof -
  let ?w = "element_size (tn_precision t) * prod_list (tl (tn_shape t))"
  have l: "length (tn_data t) = n * ?w" by (rule cuttable_bytes [OF assms(1)])
  have "i * ?w + ?w \<le> n * ?w" using assms(2) by (metis Suc_leI add.commute mult_Suc mult_le_mono1)
  then show ?thesis using assms(2) by (simp add: createShardedTensor_def shard_def Let_def l)
qed

text \<open>The shards in their order are the tensor.\<close>

lemma assembled_shards:
  assumes "cuttable element_size n t" "0 < n"
  shows "assembled [n] (map (\<lambda>i. (i, shard element_size t i)) [0..<n]) = t"
proof -
  let ?w = "element_size (tn_precision t) * prod_list (tl (tn_shape t))"
  let ?s = "map (\<lambda>i. (i, shard element_size t i)) [0..<n]"
  have look: "map_of ?s i = Some (shard element_size t i)" if "i < n" for i
    using that by (simp add: map_of_map_keys map_of_eq_Some_iff distinct_map inj_on_def comp_def image_iff)
  have "concat (map (\<lambda>i. tn_data (the (map_of ?s i))) [0..<n]) = concat (map (block ?w (tn_data t)) [0..<n])"
  proof (intro arg_cong [of _ _ concat] map_cong refl)
    fix i assume "i \<in> set [0..<n]"
    then have "i < n" by simp
    from look [OF this] show "tn_data (the (map_of ?s i)) = block ?w (tn_data t) i"
      by (simp add: shard_def Let_def block_def)
  qed
  also have "\<dots> = tn_data t" by (rule blocks_determine [OF cuttable_bytes [OF assms(1)]])
  finally have "concat (map (\<lambda>i. tn_data (the (map_of ?s i))) [0..<n]) = tn_data t" .
  moreover have "n # tl (tn_shape t) = tn_shape t" using assms(1) by (cases "tn_shape t") (auto simp: cuttable_def)
  ultimately show ?thesis using look [OF assms(2)] by (simp add: assembled_def Let_def shard_def)
qed

text \<open>The entries the loop over the shards makes, for the first tensor and for the later ones.\<close>

lemma put_shards_first:
  assumes "\<And>j. j < n \<Longrightarrow> createShardedTensor sz t dims j w = Inr (S j)"
    "\<And>j. j < n \<Longrightarrow> \<exists>m. getSessionKey (M j) [] = Inr (K j, m)" "inj_on K {0..<n}" "fst e \<notin> K ` {0..<n}" "i \<le> n"
  shows "put_shards sz nm t dims w i (map M [i..<n]) (e # map (\<lambda>j. (K j, M j, [(nm, S j, Some t)])) [0..<i]) =
    Inr (e # map (\<lambda>j. (K j, M j, [(nm, S j, Some t)])) [0..<n])"
  using assms(5)
proof (induction "n - i" arbitrary: i)
  case (Suc d)
  then have i: "i < n" by simp
  obtain m where m: "getSessionKey (M i) [] = Inr (K i, m)" using assms(2) [OF i] by blast
  let ?e = "\<lambda>j. (K j, M j, [(nm, S j, Some t)])"
  have "K i \<notin> K ` {0..<i}" using assms(3) i by (auto dest!: inj_onD)
  then have "map_of (e # map ?e [0..<i]) (K i) = None"
    using assms(4) i by (cases e) (auto simp: map_of_eq_None_iff image_image)
  then have "put_shard (K i) (M i) nm (S i, Some t) (e # map ?e [0..<i]) = e # map ?e [0..<Suc i]"
    by (simp add: put_shard_def)
  then show ?case
    using Suc.hyps(1) [of "Suc i"] Suc.hyps(2) i assms(1) [OF i] m by (simp add: upt_conv_Cons)
qed simp

lemma put_shards_later:
  assumes "\<And>j. j < n \<Longrightarrow> createShardedTensor sz t dims j w = Inr (S j)"
    "\<And>j. j < n \<Longrightarrow> \<exists>m. getSessionKey (M j) [] = Inr (K j, m)" "inj_on K {0..<n}" "fst e \<notin> K ` {0..<n}" "i \<le> n"
    "\<And>j. j < n \<Longrightarrow> map_of (P j) nm = None"
  shows "put_shards sz nm t dims w i (map M [i..<n])
      (e # map (\<lambda>j. (K j, M j, P j @ (if j < i then [(nm, S j, Some t)] else []))) [0..<n]) =
    Inr (e # map (\<lambda>j. (K j, M j, P j @ [(nm, S j, Some t)])) [0..<n])"
  using assms(5)
proof (induction "n - i" arbitrary: i)
  case (Suc d)
  then have i: "i < n" by simp
  obtain m where m: "getSessionKey (M i) [] = Inr (K i, m)" using assms(2) [OF i] by blast
  let ?e = "\<lambda>i j. (K j, M j, P j @ (if j < i then [(nm, S j, Some t)] else []))"
  have "K i \<in> fst ` set (map (?e i) [0..<n])" using i by (simp add: image_image)
  then have "K i \<in> fst ` set (e # map (?e i) [0..<n])" by (auto simp only: list.set image_insert)
  then have "map_of (e # map (?e i) [0..<n]) (K i) \<noteq> None" by (simp only: map_of_eq_None_iff not_not)
  moreover have "(case e of (k, m, ts) \<Rightarrow> if k = K i then (k, m, if map_of ts nm = None then ts @ [(nm, S i, Some t)] else ts)
      else (k, m, ts)) = e"
    using assms(4) i by (cases e) auto
  moreover have "map (\<lambda>j. case ?e i j of (k, m, ts) \<Rightarrow>
      if k = K i then (k, m, if map_of ts nm = None then ts @ [(nm, S i, Some t)] else ts) else (k, m, ts)) [0..<n] =
      map (?e (Suc i)) [0..<n]"
  proof (intro map_cong refl)
    fix j assume "j \<in> set [0..<n]"
    then have j: "j < n" by simp
    have "K j = K i \<longleftrightarrow> j = i" using inj_onD [OF assms(3), of j i] i j by auto
    then show "(case ?e i j of (k, m, ts) \<Rightarrow> if k = K i
        then (k, m, if map_of ts nm = None then ts @ [(nm, S i, Some t)] else ts) else (k, m, ts)) = ?e (Suc i) j"
      using assms(6) [OF j] by (cases "j = i") (simp_all add: less_Suc_eq)
  qed
  ultimately have "put_shard (K i) (M i) nm (S i, Some t) (e # map (?e i) [0..<n]) = e # map (?e (Suc i)) [0..<n]"
    by (simp add: put_shard_def comp_def)
  then show ?case
    using Suc.hyps(1) [of "Suc i"] Suc.hyps(2) i assms(1) [OF i] m by (simp add: upt_conv_Cons)
next
  case 0
  then have "map (\<lambda>j. (K j, M j, P j @ (if j < i then [(nm, S j, Some t)] else []))) [0..<n] =
      map (\<lambda>j. (K j, M j, P j @ [(nm, S j, Some t)])) [0..<n]" by auto
  then show ?case using 0 by simp
qed

lemma demultiply_tensors_value:
  assumes "\<forall>(nm, t, _)\<in>set tensors. cuttable sz n t" "distinct (map fst tensors)" "0 < n"
    "c = -1 \<or> size_t c = n"
    "\<And>j. j < n \<Longrightarrow> \<exists>m. getSessionKey (M j) [] = Inr (K j, m)" "inj_on K {0..<n}" "fst e \<notin> K ` {0..<n}"
    "fst ` set done \<inter> fst ` set tensors = {}"
  shows "demultiply_tensors sz c n (map M [0..<n]) tensors
      (if done = [] then [e] else e # map (\<lambda>j. (K j, M j, map (\<lambda>(nm, t, _). (nm, shard sz t j, Some t)) done)) [0..<n]) =
    Inr (SC_OK, if done @ tensors = [] then [e]
      else e # map (\<lambda>j. (K j, M j, map (\<lambda>(nm, t, _). (nm, shard sz t j, Some t)) (done @ tensors))) [0..<n])"
  using assms(1,2,8)
proof (induction tensors arbitrary: "done")
  case (Cons x tensors)
  obtain nm t src where x: "x = (nm, t, src)" by (cases x)
  have t: "cuttable sz n t" using Cons.prems(1) by (simp add: x)
  then obtain rest where sh: "tn_shape t = n # rest" "2 \<le> length rest" "tn_precision t \<noteq> E_string"
    by (cases "tn_shape t") (auto simp: cuttable_def)
  let ?P = "\<lambda>d j. map (\<lambda>(nm, t, _). (nm, shard sz t j, Some t)) d"
  let ?r = "\<lambda>d. if d = [] then [e] else e # map (\<lambda>j. (K j, M j, ?P d j)) [0..<n]"
  have c: "\<And>j. j < n \<Longrightarrow> createShardedTensor sz t (tl (tn_shape t)) j (length (tn_data t) div n) = Inr (shard sz t j)"
    by (rule createShardedTensor_shard [OF t])
  have put: "put_shards sz nm t (tl (tn_shape t)) (length (tn_data t) div n) 0 (map M [0..<n]) (?r done) = Inr (?r (done @ [x]))"
  proof (cases "done = []")
    case True
    then show ?thesis
      using put_shards_first [of n sz t "tl (tn_shape t)" "length (tn_data t) div n" "shard sz t" M K e 0 nm] c assms(5-7)
      by (simp add: x)
  next
    case False
    have "map_of (?P done j) nm = None" for j
      using Cons.prems(3) by (force simp: x map_of_eq_None_iff)
    then show ?thesis
      using put_shards_later [of n sz t "tl (tn_shape t)" "length (tn_data t) div n" "shard sz t" M K e 0 "?P done" nm]
        c assms(5-7) False
      by (simp add: x)
  qed
  have "demultiply_tensors sz c n (map M [0..<n]) (x # tensors) (?r done) =
      demultiply_tensors sz c n (map M [0..<n]) tensors (?r (done @ [x]))"
    using put sh assms(3,4) by (auto simp: x)
  also have "\<dots> = Inr (SC_OK, ?r ((done @ [x]) @ tensors))"
    using Cons.prems by (intro Cons.IH) auto
  finally show ?case by simp
qed simp

text \<open>The keys of subsessions are longer than the key they extend, and different.\<close>

lemma whole_key: "wf_meta m \<Longrightarrow> createSessionKey m [] = Inr (key_text m (sm_sessionsLevels m))"
  using outer_ids_of_key [of m "[]"] by (simp add: innermost_def)

lemma subsession_keys:
  assumes "wf_meta m" "length (sm_sessionsLevels m) + 1 < 2 ^ 31" "generateSubsessions m name n = Inr ms" "0 < n"
  shows "\<exists>K. (\<forall>i<n. \<exists>m'. getSessionKey (ms ! i) [] = Inr (K i, m')) \<and> inj_on K {0..<n} \<and>
    (\<forall>i<n. length (key_text m (sm_sessionsLevels m)) < length (K i)) \<and> length ms = n"
proof -
  let ?L = "sm_sessionsLevels m"
  let ?K = "\<lambda>i. key_text (ms ! i) (?L @ [name])"
  have new: "map_of (sm_details m) name = None" and ms: "ms = map (\<lambda>counter. m\<lparr>sm_details := sm_details m @ [(name, counter, n)],
      sm_sessionsLevels := sm_sessionsLevels m @ [name], sm_cached := False\<rparr>) [0..<n]"
    using assms(3,4) by (cases "map_of (sm_details m) name"; auto simp: generateSubsessions_def split: if_splits)+
  then have len: "length ms = n" by simp
  have wf: "wf_meta (ms ! i) \<and> sm_sessionsLevels (ms ! i) = ?L @ [name] \<and> ids (ms ! i) (?L @ [name]) = ids m ?L @ [i]" if "i < n" for i
    using generateSubsessions_wf [OF assms(1-3), of i] that len by auto
  have key: "\<exists>m'. getSessionKey (ms ! i) [] = Inr (?K i, m')" if "i < n" for i
    using whole_key [of "ms ! i"] wf [OF that] that by (simp add: getSessionKey_def ms)
  have "inj_on ?K {0..<n}"
  proof (rule inj_onI)
    fix i j assume "i \<in> {0..<n}" "j \<in> {0..<n}" "?K i = ?K j"
    then have "ids m ?L @ [i] = ids m ?L @ [j]" using session_key_text_inj wf by (metis atLeastLessThan_iff)
    then show "i = j" by simp
  qed
  moreover have "length (key_text m ?L) < length (?K i)" if "i < n" for i
  proof -
    have old: "key_piece (sm_details (ms ! i)) l = key_piece (sm_details m) l" if "l \<in> set ?L" for l
      using wf_meta_lookup [OF assms(1) that] \<open>i < n\<close> by (auto simp: key_piece_def ms map_add_def)
    then have "map (key_piece (sm_details (ms ! i))) (rev ?L) = map (key_piece (sm_details m)) (rev ?L)"
      by (intro map_cong) simp_all
    then have "?K i = key_piece (sm_details (ms ! i)) name @ (if ?L = [] then [] else ''_'' @ key_text m ?L)"
      by (simp only: key_text_def rev.simps rev_append append.simps list.map joins_Cons map_is_Nil_conv rev_is_Nil_conv)
    then show ?thesis by (auto simp: key_text_def key_piece_def)
  qed
  ultimately show ?thesis using key len by (intro exI[of _ ?K]) blast
qed

text \<open>
  C16: When every output of a session with a demultiplying node can be cut along one common first dimension
  (at least three dimensions, no strings, memory of the size the shape asks for), which is at most the
  limit and is the count unless the count is dynamic, and the node is not a level of the session yet, the
  node cuts every output into as many shards: one result for each subsession under its own key, which
  holds the shard of every output, and the shards put together in the order of the subsessions, the way a
  gathering handler does, are the output.
\<close>

theorem demultiplied_outputs_reassemble:
  assumes "wf_meta m" "length (sm_sessionsLevels m) + 1 < 2 ^ 31" "createSessionKey m [] = Inr key"
    "sm_cached m \<longrightarrow> sm_cachedSessionKey m = key" "name \<noteq> []" "name \<notin> set (sm_sessionsLevels m)"
    "tensors \<noteq> []" "distinct (map fst tensors)" "\<forall>(nm, t, _)\<in>set tensors. cuttable element_size n t"
    "0 < n" "n \<le> 10000" "c = -1 \<or> c = int n"
  shows "\<exists>metas results. generateSubsessions m name n = Inr metas \<and>
    demultiplyOutputs element_size name (Some c) [(key, m, tensors)] = Inr (SC_OK, results) \<and>
    length results = n \<and> distinct (map fst results) \<and>
    (\<forall>i<n. \<exists>k m'. getSessionKey (metas ! i) [] = Inr (k, m') \<and>
      results ! i = (k, metas ! i, map (\<lambda>(nm, t, _). (nm, shard element_size t i, Some t)) tensors)) \<and>
    (\<forall>(nm, t, _)\<in>set tensors. assembled [n] (map (\<lambda>i. (i, shard element_size t i)) [0..<n]) = t)"
proof -
  obtain metas where g: "generateSubsessions m name n = Inr metas"
    using assms(1,5,6,10) wf_meta_names by (auto simp: generateSubsessions_def)
  obtain K where K: "\<And>i. i < n \<Longrightarrow> \<exists>m'. getSessionKey (metas ! i) [] = Inr (K i, m')" "inj_on K {0..<n}"
      "\<And>i. i < n \<Longrightarrow> length key < length (K i)" "length metas = n"
    using subsession_keys [OF assms(1,2) g assms(10)] whole_key [OF assms(1)] assms(3) by auto
  have metas: "metas = map ((!) metas) [0..<n]" using K(4) by (metis map_nth)
  have key: "key \<notin> K ` {0..<n}" using K(3) by force
  let ?P = "\<lambda>i. map (\<lambda>(nm, t, _). (nm, shard element_size t i, Some t)) tensors"
  let ?r = "map (\<lambda>j. (K j, metas ! j, ?P j)) [0..<n]"
  obtain nm t src ts where ts: "tensors = (nm, t, src) # ts" using assms(7) by (metis list.exhaust prod_cases3)
  have "cuttable element_size n t" using assms(9) by (simp add: ts)
  then obtain rest where sh: "tn_shape t = n # rest" by (cases "tn_shape t") (auto simp: cuttable_def)
  have c: "c = -1 \<or> size_t c = n" using assms(11,12) by (auto simp: size_t_def)
  have d: "demultiply_tensors element_size c n metas tensors [(key, m, tensors)] = Inr (SC_OK, (key, m, tensors) # ?r)"
    using demultiply_tensors_value [OF assms(9,8,10) c K(1,2), of "(key, m, tensors)" "[]"] key assms(7) metas by simp
  have "getSessionKey m [] = Inr (key, if sm_cached m then m else m\<lparr>sm_cached := True, sm_cachedSessionKey := key\<rparr>)"
    using assms(3,4) by (simp add: getSessionKey_def)
  moreover have "filter (\<lambda>(k, _). k \<noteq> key) ((key, m, tensors) # ?r) = ?r"
    using key by (force simp: filter_id_conv)
  ultimately have "demultiplyOutputs element_size name (Some c) [(key, m, tensors)] = Inr (SC_OK, ?r)"
    using d g sh assms(11) by (simp add: demultiplyOutputs_def ts DEMULTIPLY_LIMIT_def status_ok_def)
  moreover have "distinct (map fst ?r)" using K(2) by (simp add: comp_def distinct_map)
  moreover have "\<forall>i<n. \<exists>k m'. getSessionKey (metas ! i) [] = Inr (k, m') \<and> ?r ! i = (k, metas ! i, ?P i)"
    using K(1) by auto
  moreover have "\<forall>(nm, t, _)\<in>set tensors. assembled [n] (map (\<lambda>i. (i, shard element_size t i)) [0..<n]) = t"
    using assms(9,10) assembled_shards by fastforce
  ultimately show ?thesis using g by (intro exI[of _ metas] exI[of _ ?r]) simp
qed

definition start_metadata :: NodeSessionMetadata where
  "start_metadata = new_NodeSessionMetadata (GRPC, ModelInfer)"

definition bytes_tensor :: "nat list \<Rightarrow> string \<Rightarrow> tensor" where
  "bytes_tensor dims data = \<lparr>tn_precision = E_u8, tn_shape = dims, tn_data = data\<rparr>"

lemma demultiplied_outputs_reassemble_witness:
  "\<exists>metas results. generateSubsessions start_metadata ''d'' 2 = Inr metas \<and>
    demultiplyOutputs (\<lambda>_. 1) ''d'' (Some 2) [([], start_metadata, [(''x'', bytes_tensor [2, 1, 1] ''ab'', None)])] =
      Inr (SC_OK, results) \<and>
    length results = 2 \<and>
    assembled [2] (map (\<lambda>i. (i, shard (\<lambda>_. 1) (bytes_tensor [2, 1, 1] ''ab'') i)) [0..<2]) = bytes_tensor [2, 1, 1] ''ab''"
proof -
  have "wf_meta start_metadata" "length (sm_sessionsLevels start_metadata) + 1 < 2 ^ 31"
    "createSessionKey start_metadata [] = Inr []" "sm_cached start_metadata \<longrightarrow> sm_cachedSessionKey start_metadata = []"
    "''d'' \<notin> set (sm_sessionsLevels start_metadata)"
    by (simp_all add: wf_meta_def start_metadata_def new_NodeSessionMetadata_def createSessionKey_def)
  moreover have "\<forall>(nm, t, _)\<in>set [(''x'', bytes_tensor [2, 1, 1] ''ab'', None :: tensor option)]. cuttable (\<lambda>_. 1) 2 t"
    by (simp add: cuttable_def bytes_tensor_def)
  ultimately show ?thesis
    using demultiplied_outputs_reassemble [of start_metadata "[]" "''d''" "[(''x'', bytes_tensor [2, 1, 1] ''ab'', None)]"
        "\<lambda>_. 1" 2 2]
    by fastforce
qed

text \<open>
  With a dynamic demultiplexer only the first output decides the number of shards. A second output
  with another first dimension is cut with steps that do not fit: of four blocks for two shards every
  second one is dropped and success is returned; of one block for two shards the second view goes past
  the memory of the tensor.
\<close>

theorem dynamic_demultiplexer_trusts_the_first_output:
  "(\<exists>m1 m2. demultiplyOutputs (\<lambda>_. 1) ''d'' (Some (-1))
      [([], start_metadata, [(''x'', bytes_tensor [2, 1, 1] ''ab'', None), (''y'', bytes_tensor [4, 1, 1] ''cdef'', None)])] =
    Inr (SC_OK,
      [(''d_0'', m1, [(''x'', bytes_tensor [1, 1] ''a'', Some (bytes_tensor [2, 1, 1] ''ab'')),
                     (''y'', bytes_tensor [1, 1] ''c'', Some (bytes_tensor [4, 1, 1] ''cdef''))]),
       (''d_1'', m2, [(''x'', bytes_tensor [1, 1] ''b'', Some (bytes_tensor [2, 1, 1] ''ab'')),
                     (''y'', bytes_tensor [1, 1] ''e'', Some (bytes_tensor [4, 1, 1] ''cdef''))])])) \<and>
   demultiplyOutputs (\<lambda>_. 1) ''d'' (Some (-1))
      [([], start_metadata, [(''x'', bytes_tensor [2, 1, 1] ''ab'', None), (''y'', bytes_tensor [1, 1, 2] ''cd'', None)])] =
    Inl Undefined"
proof
  let ?m = "\<lambda>i. \<lparr>sm_details = [(''d'', i, 2)], sm_sessionsLevels = [''d''], sm_context = (GRPC, ModelInfer),
      sm_cachedSessionKey = [], sm_cached = False\<rparr>"
  have "demultiplyOutputs (\<lambda>_. 1) ''d'' (Some (-1))
      [([], start_metadata, [(''x'', bytes_tensor [2, 1, 1] ''ab'', None), (''y'', bytes_tensor [4, 1, 1] ''cdef'', None)])] =
    Inr (SC_OK,
      [(''d_0'', ?m 0, [(''x'', bytes_tensor [1, 1] ''a'', Some (bytes_tensor [2, 1, 1] ''ab'')),
                     (''y'', bytes_tensor [1, 1] ''c'', Some (bytes_tensor [4, 1, 1] ''cdef''))]),
       (''d_1'', ?m 1, [(''x'', bytes_tensor [1, 1] ''b'', Some (bytes_tensor [2, 1, 1] ''ab'')),
                     (''y'', bytes_tensor [1, 1] ''e'', Some (bytes_tensor [4, 1, 1] ''cdef''))])])"
    by code_simp
  then show "\<exists>m1 m2. demultiplyOutputs (\<lambda>_. 1) ''d'' (Some (-1))
      [([], start_metadata, [(''x'', bytes_tensor [2, 1, 1] ''ab'', None), (''y'', bytes_tensor [4, 1, 1] ''cdef'', None)])] =
    Inr (SC_OK,
      [(''d_0'', m1, [(''x'', bytes_tensor [1, 1] ''a'', Some (bytes_tensor [2, 1, 1] ''ab'')),
                     (''y'', bytes_tensor [1, 1] ''c'', Some (bytes_tensor [4, 1, 1] ''cdef''))]),
       (''d_1'', m2, [(''x'', bytes_tensor [1, 1] ''b'', Some (bytes_tensor [2, 1, 1] ''ab'')),
                     (''y'', bytes_tensor [1, 1] ''e'', Some (bytes_tensor [4, 1, 1] ''cdef''))])])" by blast
  show "demultiplyOutputs (\<lambda>_. 1) ''d'' (Some (-1))
      [([], start_metadata, [(''x'', bytes_tensor [2, 1, 1] ''ab'', None), (''y'', bytes_tensor [1, 1, 2] ''cd'', None)])] =
    Inl Undefined"
    by code_simp
qed

section \<open>What a model node accepts\<close>

text \<open>A value of a tensor's dimension that a dimension of a model admits.\<close>

definition dim_fits :: "Dimension \<Rightarrow> nat \<Rightarrow> bool" where
  "dim_fits d v \<longleftrightarrow> d = dim_any \<or> dim_minimum d \<le> int v \<and> int v \<le> dim_maximum d"

lemma dim_match_fits: "wf_dim d \<Longrightarrow> v < 2 ^ 63 \<Longrightarrow> dim_match d (to_dimension_value v) = Inr (dim_fits d v)"
proof -
  assume d: "wf_dim d" and v: "v < 2 ^ 63"
  then have "to_dimension_value v = int v"
    unfolding to_dimension_value_def by (intro signed_take_bit_int_eq_self) auto
  then show ?thesis using d by (simp add: dim_match_wf dim_fits_def)
qed

lemma match_dims_fits:
  "\<forall>(d, v)\<in>set ps. wf_dim d \<and> v < 2 ^ 63 \<Longrightarrow> match_dims ps = Inr (\<forall>(d, v)\<in>set ps. dim_fits d v)"
  by (induction ps rule: match_dims.induct) (auto simp: dim_match_fits)

lemma shape_match_fits:
  assumes "wf_shape s" "\<forall>v\<in>set dims. v < 2 ^ 63"
  shows "shape_match s dims = Inr (list_all2 dim_fits s dims)"
proof -
  have "\<forall>(d, v)\<in>set (zip s dims). wf_dim d \<and> v < 2 ^ 63"
    using assms by (auto simp: wf_shape_def list_all_iff dest: set_zip_leftD set_zip_rightD)
  then show ?thesis by (auto simp: shape_match_def match_dims_fits list_all2_iff)
qed

lemma all_zip: "(\<forall>(d, v)\<in>set (zip xs ys). P d v) \<longleftrightarrow> (\<forall>i<min (length xs) (length ys). P (xs ! i) (ys ! i))"
  by (fastforce simp: set_zip)

lemma shape_match_skip_fits:
  assumes "wf_shape s" "\<forall>v\<in>set dims. v < 2 ^ 63" "length s = length dims" "b < length dims"
  shows "shape_match_skip s dims b = Inr (\<forall>i<length dims. i \<noteq> b \<longrightarrow> dim_fits (s ! i) (dims ! i))"
proof -
  have ok: "\<forall>(d, v)\<in>set (zip s dims). wf_dim d \<and> v < 2 ^ 63"
    using assms by (auto simp: wf_shape_def list_all_iff dest: set_zip_leftD set_zip_rightD)
  have "set (zip (take b s) (take b dims)) \<subseteq> set (zip s dims)" "set (zip (drop (b + 1) s) (drop (b + 1) dims)) \<subseteq> set (zip s dims)"
    by (simp_all add: take_zip [symmetric] drop_zip [symmetric] set_take_subset set_drop_subset)
  then have sub: "\<forall>(d, v)\<in>set (zip (take b s) (take b dims)). wf_dim d \<and> v < 2 ^ 63"
    "\<forall>(d, v)\<in>set (zip (drop (b + 1) s) (drop (b + 1) dims)). wf_dim d \<and> v < 2 ^ 63"
    using ok by blast+
  have "match_dims (zip (take b s) (take b dims)) = Inr (\<forall>(d, v)\<in>set (zip (take b s) (take b dims)). dim_fits d v)"
    "match_dims (zip (drop (b + 1) s) (drop (b + 1) dims)) =
      Inr (\<forall>(d, v)\<in>set (zip (drop (b + 1) s) (drop (b + 1) dims)). dim_fits d v)"
    by (rule match_dims_fits [OF sub(1)], rule match_dims_fits [OF sub(2)])
  moreover have "(\<forall>(d, v)\<in>set (zip (take b s) (take b dims)). dim_fits d v) \<longleftrightarrow> (\<forall>i<b. dim_fits (s ! i) (dims ! i))"
    unfolding all_zip using assms(3,4) by auto
  moreover have "(\<forall>(d, v)\<in>set (zip (drop (b + 1) s) (drop (b + 1) dims)). dim_fits d v) \<longleftrightarrow>
      (\<forall>i. b < i \<and> i < length dims \<longrightarrow> dim_fits (s ! i) (dims ! i))"
    unfolding all_zip
  proof
    assume l: "\<forall>i<min (length (drop (b + 1) s)) (length (drop (b + 1) dims)).
        dim_fits (drop (b + 1) s ! i) (drop (b + 1) dims ! i)"
    show "\<forall>i. b < i \<and> i < length dims \<longrightarrow> dim_fits (s ! i) (dims ! i)"
    proof (intro allI impI)
      fix i assume i: "b < i \<and> i < length dims"
      then have "i - Suc b < length dims - Suc b" by linarith
      with i show "dim_fits (s ! i) (dims ! i)" using l [rule_format, of "i - (b + 1)"] assms(3) by simp
    qed
  qed (use assms(3) in simp)
  moreover have "(\<forall>i<length dims. i \<noteq> b \<longrightarrow> dim_fits (s ! i) (dims ! i)) \<longleftrightarrow>
      (\<forall>i<b. dim_fits (s ! i) (dims ! i)) \<and> (\<forall>i. b < i \<and> i < length dims \<longrightarrow> dim_fits (s ! i) (dims ! i))"
    using assms(4) by (auto simp: nat_neq_iff)
  ultimately show ?thesis using assms(3,4) by (simp add: shape_match_skip_def)
qed

text \<open>
  C27: Before an inference a model node accepts exactly the tensors of the declared element type whose
  dimensions all fit the declared shape and whose batch position, if the layout has one, lies in it; the
  batch size is reported as the error exactly when it is the only thing that does not fit.
\<close>

theorem model_inputs_are_checked:
  assumes "wf_shape (ti_shape info)" "\<forall>v\<in>set (tn_shape t). v < 2 ^ 63"
  shows "\<exists>status. dl_validate t info = Inr status \<and>
    (status = SC_OK \<longleftrightarrow> ovmsPrecisionToIE2Precision (ti_precision info) = tn_precision t \<and>
       list_all2 dim_fits (ti_shape info) (tn_shape t) \<and>
       (\<forall>b. lay_batchIndex (ti_layout info) = Some b \<longrightarrow> b < length (tn_shape t))) \<and>
    (status = SC_INVALID_BATCH_SIZE \<longleftrightarrow> ovmsPrecisionToIE2Precision (ti_precision info) = tn_precision t \<and>
       length (ti_shape info) = length (tn_shape t) \<and>
       (\<exists>b < length (tn_shape t). lay_batchIndex (ti_layout info) = Some b \<and>
          \<not> dim_fits (ti_shape info ! b) (tn_shape t ! b) \<and>
          (\<forall>i < length (tn_shape t). i \<noteq> b \<longrightarrow> dim_fits (ti_shape info ! i) (tn_shape t ! i))))"
proof -
  have m: "shape_match (ti_shape info) (tn_shape t) = Inr (list_all2 dim_fits (ti_shape info) (tn_shape t))"
    by (rule shape_match_fits [OF assms])
  show ?thesis
  proof (cases "ovmsPrecisionToIE2Precision (ti_precision info) = tn_precision t \<and> length (ti_shape info) = length (tn_shape t)")
    case False
    then show ?thesis by (auto simp: dl_validate_def Let_def dest: list_all2_lengthD)
  next
    case True
    show ?thesis
    proof (cases "lay_batchIndex (ti_layout info)")
      case None
      then show ?thesis using True by (simp add: dl_validate_def m)
    next
      case (Some b)
      show ?thesis
      proof (cases "b < length (tn_shape t)")
        case False
        then show ?thesis using True Some by (auto simp: dl_validate_def Let_def)
      next
        case b: True
        have "wf_dim (ti_shape info ! b)" "tn_shape t ! b < 2 ^ 63"
          using assms b True by (auto simp: wf_shape_def list_all_length)
        note d = dim_match_fits [OF this]
        note k = shape_match_skip_fits [OF assms conjunct2 [OF True] b]
        have "list_all2 dim_fits (ti_shape info) (tn_shape t) \<Longrightarrow> dim_fits (ti_shape info ! b) (tn_shape t ! b)"
          using b True by (simp add: list_all2_conv_all_nth)
        then show ?thesis using True Some b by (auto simp: dl_validate_def Let_def d k m)
      qed
    qed
  qed
qed

lemma model_inputs_are_checked_witness:
  "\<exists>status. dl_validate (bytes_tensor [3, 2] ''abcdef'')
      (new_TensorInfo_layout ''x'' U8 [\<lparr>dim_minimum = 1, dim_maximum = 2\<rparr>, dim_any] (Layout_of ''NC'')) = Inr status \<and>
    status = SC_INVALID_BATCH_SIZE"
proof -
  let ?i = "new_TensorInfo_layout ''x'' U8 [\<lparr>dim_minimum = 1, dim_maximum = 2\<rparr>, dim_any] (Layout_of ''NC'')"
    and ?t = "bytes_tensor [3, 2] ''abcdef''"
  have i: "ti_shape ?i = [\<lparr>dim_minimum = 1, dim_maximum = 2\<rparr>, dim_any]" "ti_precision ?i = U8"
    "ti_layout ?i = Layout_of ''NC''"
    by (simp_all add: new_TensorInfo_layout_def new_TensorInfo_mapped_def createProcessingHints_def Let_def)
  have l: "lay_batchIndex (Layout_of ''NC'') = Some 0" by code_simp
  have "wf_shape (ti_shape ?i)" by (simp add: i wf_shape_def wf_dim_def)
  moreover have "\<forall>v\<in>set (tn_shape (bytes_tensor [3, 2] ''abcdef'')). v < 2 ^ 63" by (simp add: bytes_tensor_def)
  moreover have "ovmsPrecisionToIE2Precision (ti_precision ?i) = tn_precision ?t \<and> length (ti_shape ?i) = length (tn_shape ?t) \<and>
       (\<exists>b < length (tn_shape ?t). lay_batchIndex (ti_layout ?i) = Some b \<and> \<not> dim_fits (ti_shape ?i ! b) (tn_shape ?t ! b) \<and>
          (\<forall>k < length (tn_shape ?t). k \<noteq> b \<longrightarrow> dim_fits (ti_shape ?i ! k) (tn_shape ?t ! k)))"
    unfolding i l by (auto simp: bytes_tensor_def dim_fits_def dim_any_def DYNAMIC_DIMENSION_def less_Suc_eq)
  ultimately show ?thesis using model_inputs_are_checked [of ?i ?t] by blast
qed

section \<open>The size of a library's output\<close>

text \<open>The value of 32 bits that a whole number is reduced to.\<close>

definition signed32 :: "int \<Rightarrow> int" where
  "signed32 n = (let m = n mod 2 ^ 32 in if m < 2 ^ 31 then m else m - 2 ^ 32)"

lemma signed32_cong: "signed32 (signed32 a * d) = signed32 (a * d)"
proof -
  have "signed32 a mod 2 ^ 32 = a mod 2 ^ 32" by (simp add: signed32_def Let_def)
  then have "(signed32 a * d) mod 2 ^ 32 = (a * d) mod 2 ^ 32" by (metis mod_mult_cong)
  then show ?thesis by (simp add: signed32_def)
qed

lemma signed32_small: "0 \<le> n \<Longrightarrow> n < 2 ^ 31 \<Longrightarrow> signed32 n = n"
  by (simp add: signed32_def)

lemma accumulate_step: "int_of_size_t (size_t (int (size_t a) * int d)) = signed32 (a * int d)"
proof -
  have "int (size_t x) mod 2 ^ 32 = x mod 2 ^ 32" for x
  proof -
    have "int (size_t x) = x mod 2 ^ 64" by (simp add: size_t_def)
    moreover have "x mod 2 ^ 64 mod 2 ^ 32 = x mod 2 ^ 32" by (rule mod_mod_cancel) (simp add: le_imp_power_dvd)
    ultimately show ?thesis by simp
  qed
  then have "int (size_t (int (size_t a) * int d)) mod 2 ^ 32 = (a * int d) mod 2 ^ 32" by (metis mod_mult_cong)
  then show ?thesis by (simp add: int_of_size_t_def signed32_def)
qed

lemma accumulate_signed32: "accumulate_product dims = signed32 (int (prod_list dims))"
proof -
  have "foldl (\<lambda>a d. int_of_size_t (size_t (int (size_t a) * int d))) (signed32 x) dims = signed32 (x * int (prod_list dims))" for x
  proof (induction dims arbitrary: x)
    case (Cons d dims)
    then show ?case by (simp add: accumulate_step signed32_cong mult.assoc)
  qed simp
  from this [of 1] show ?thesis by (simp add: accumulate_product_def signed32_small)
qed

text \<open>
  C35: As long as an output of a library has fewer than \<open>2 ^ 31\<close> elements it is accepted exactly when it
  has a known precision and memory of the size its shape asks for, and then has that precision, shape and
  data.
\<close>

theorem library_outputs_are_checked:
  assumes "prod_list (ct_dims ct) < 2 ^ 31" "prod_list (ct_dims ct) * env_element_size env p < 2 ^ 64"
    "p = ovmsPrecisionToIE2Precision (toInferenceEnginePrecision (ct_precision ct))" "\<not> env_tensor_throws env p (ct_dims ct)"
  shows "createTensor env ct = Inr t \<longleftrightarrow> ct_precision ct \<noteq> CN_UNSPECIFIED \<and>
    ct_dataBytes ct = prod_list (ct_dims ct) * env_element_size env p \<and>
    ct_data ct = Some (tn_data t) \<and> tn_precision t = p \<and> tn_shape t = ct_dims ct"
proof -
  have "accumulate_product (ct_dims ct) = int (prod_list (ct_dims ct))"
    unfolding accumulate_signed32 using assms(1) by (intro signed32_small) auto
  then have e: "size_t (accumulate_product (ct_dims ct)) = prod_list (ct_dims ct)"
    using assms(1) by (simp add: size_t_def)
  have l: "size_t (int (prod_list (ct_dims ct)) * int (env_element_size env p)) = prod_list (ct_dims ct) * env_element_size env p"
    using assms(2) by (simp add: size_t_def nat_mod_as_int flip: of_nat_mult)
  have u: "p = E_dynamic \<longleftrightarrow> ct_precision ct = CN_UNSPECIFIED" by (cases "ct_precision ct") (simp_all add: assms(3))
  show ?thesis
    using assms(4) u l by (cases t) (auto simp: createTensor_def Let_def e assms(3) [symmetric] split: option.splits)
qed

definition any_env :: "(ElementType \<Rightarrow> nat) \<Rightarrow> environment" where
  "any_env bytes =
     \<lparr>env_element_size = bytes, env_getModelInstance = \<lambda>_ _. Inl SC_MODEL_MISSING, env_stream = \<lambda>_ _. None,
      env_set_tensor_throws = \<lambda>_ _ _. False, env_start_async_throws = \<lambda>_ _. False, env_wait_throws = \<lambda>_ _. False,
      env_get_tensor = \<lambda>_ _ _. None, env_tensorClone = Inr, env_library_execute = \<lambda>_ _ _. (1, None),
      env_tensor_throws = \<lambda>_ _. False, env_request = Inl SC_INVALID_MISSING_INPUT,
      env_response_buffer = \<lambda>_ _ _. Inr None, env_serialize = \<lambda>_. SC_OK\<rparr>"

lemma library_outputs_are_checked_witness:
  "createTensor (any_env (\<lambda>_. 4)) \<lparr>ct_name = Some ''o'', ct_data = Some ''abcdefgh'', ct_dataBytes = 8, ct_dims = [2, 1],
      ct_precision = CN_FP32\<rparr> = Inr \<lparr>tn_precision = E_f32, tn_shape = [2, 1], tn_data = ''abcdefgh''\<rparr>"
  by (subst library_outputs_are_checked) (simp_all add: any_env_def)

text \<open>
  The element count of larger outputs is reduced to 32 bits: an output of \<open>2 ^ 32\<close> bytes is accepted with
  no memory at all.
\<close>

theorem empty_output_passes_as_four_gigabytes:
  "createTensor (any_env (\<lambda>_. 1)) \<lparr>ct_name = Some ''o'', ct_data = Some [], ct_dataBytes = 0, ct_dims = [65536, 65536],
      ct_precision = CN_U8\<rparr> = Inr \<lparr>tn_precision = E_u8, tn_shape = [65536, 65536], tn_data = []\<rparr>"
  by (simp add: createTensor_def accumulate_signed32 signed32_def any_env_def size_t_def)

end
