(* ===== verification/Pipeline_Execution.thy ===== *)
theory Pipeline_Execution
  imports Node_Execution "HOL-Library.Sublist"
begin

text \<open>
  The execution of a pipeline (\<open>src/dags/pipeline.cpp\<close>): one thread starts node sessions, takes the
  events of finished sessions from a queue (\<open>src/dags/pipelineeventqueue.hpp\<close>), feeds the next nodes and
  retries the sessions that had no free stream. The loop uses the virtual functions of \<open>Node\<close>
  (\<open>node_ops\<close>); \<open>dag_nodes\<close> is their implementation. The completion callbacks of inferences run on other
  threads: an iteration names those that have run before its pull and before each retry. What an
  execution must guarantee is that no callback can still run when it returns, since the queue the
  callbacks write to is a local variable of the loop.
\<close>

section \<open>The virtual functions\<close>

record 's node_ops =
  op_getName :: "nat \<Rightarrow> 's \<Rightarrow> string"
  op_getNextNodes :: "nat \<Rightarrow> 's \<Rightarrow> nat list"
  op_getNodeSession :: "NodeSessionMetadata \<Rightarrow> nat \<Rightarrow> 's \<Rightarrow> (bool \<times> 's) outcome"
  op_execute :: "environment \<Rightarrow> nat \<Rightarrow> string \<Rightarrow> 's \<Rightarrow> (StatusCode \<times> effect \<times> 's) outcome"
  op_fetchResults :: "environment \<Rightarrow> nat \<Rightarrow> string \<Rightarrow> 's \<Rightarrow> (StatusCode \<times> SessionResults \<times> 's) outcome"
  op_setInputs :: "environment \<Rightarrow> nat \<Rightarrow> nat \<Rightarrow> SessionResults \<Rightarrow> 's \<Rightarrow> (StatusCode \<times> 's) outcome"
  op_getReadySessions :: "nat \<Rightarrow> 's \<Rightarrow> string list"
  op_release :: "nat \<Rightarrow> string \<Rightarrow> 's \<Rightarrow> 's outcome"
  op_tryDisarm :: "environment \<Rightarrow> nat \<Rightarrow> string \<Rightarrow> 's \<Rightarrow> (bool \<times> 's) outcome"
  op_inference_done :: "nat \<Rightarrow> string \<Rightarrow> 's \<Rightarrow> 's"

definition dag_nodes :: "exec_node list node_ops" where
  "dag_nodes =
     \<lparr>op_getName = \<lambda>i nodes. en_nodeName (nodes ! i),
      op_getNextNodes = \<lambda>i nodes. en_next (nodes ! i),
      op_getNodeSession = \<lambda>metadata i nodes. rbind (getNodeSession metadata (nodes ! i)) (\<lambda>(key, n).
        Inr (key \<noteq> None, nodes[i := n])),
      op_execute = node_execute,
      op_fetchResults = fetchResults,
      op_setInputs = \<lambda>env i from results nodes.
        rbind (setInputs env (en_nodeName (nodes ! from)) results (nodes ! i)) (\<lambda>(status, n). Inr (status, nodes[i := n])),
      op_getReadySessions = \<lambda>i nodes. getReadySessions (nodes ! i),
      op_release = node_release,
      op_tryDisarm = node_tryDisarm,
      op_inference_done = inference_done\<rparr>"

section \<open>The loop\<close>

text \<open>
  A session is named by its node and its key, which is its key in the node's map. Sets of strings are
  lists without repetitions. \<open>rs_inFlight\<close>, the inferences whose callback is to come, and \<open>rs_starts\<close>,
  every insertion into \<open>startedSessions\<close>, are no variables of the code.
\<close>

type_synonym session_ref = "nat \<times> string"

record 's run_state =
  rs_nodes :: 's
  rs_finishedNodeQueue :: "session_ref list"
  rs_inFlight :: "session_ref list"
  rs_firstErrorStatus :: StatusCode
  rs_startedSessions :: "string list"
  rs_finishedSessions :: "string list"
  rs_deferredNodeSessions :: "session_ref list"
  rs_starts :: "session_ref list"

text \<open>What happens around one iteration: the answers and the callbacks.\<close>

record iteration =
  it_env :: environment
  it_completed :: "session_ref list"
  it_completed_before :: "session_ref \<Rightarrow> session_ref list"

definition set_emplace :: "string \<Rightarrow> string list \<Rightarrow> string list" where
  "set_emplace x xs = (if x \<in> set xs then xs else xs @ [x])"

definition ident :: "'s node_ops \<Rightarrow> 's \<Rightarrow> session_ref \<Rightarrow> string" where
  "ident ops s = (\<lambda>(i, key). op_getName ops i s @ key)"

definition setFailIfNotFailEarlier :: "StatusCode \<Rightarrow> 's run_state \<Rightarrow> 's run_state" where
  "setFailIfNotFailEarlier newFailStatus rs =
     (if status_ok (rs_firstErrorStatus rs) then rs\<lparr>rs_firstErrorStatus := newFailStatus\<rparr> else rs)"

definition check_error :: "StatusCode \<Rightarrow> 's run_state \<Rightarrow> 's run_state" where
  "check_error status rs = (if \<not> status_ok status then setFailIfNotFailEarlier status rs else rs)"

definition has_error :: "'s run_state \<Rightarrow> bool" where
  "has_error rs \<longleftrightarrow> \<not> status_ok (rs_firstErrorStatus rs)"

definition all_finished :: "'s run_state \<Rightarrow> bool" where
  "all_finished rs \<longleftrightarrow> length (rs_finishedSessions rs) = length (rs_startedSessions rs)"

text \<open>The end of an iteration: leave the loop with a status, or go on.\<close>

type_synonym 's turn = "(StatusCode option \<times> 's run_state) outcome"

definition break_if_finished :: "'s run_state \<Rightarrow> 's turn" where
  "break_if_finished rs = Inr (if all_finished rs then Some (rs_firstErrorStatus rs) else None, rs)"

definition callback :: "'s node_ops \<Rightarrow> session_ref \<Rightarrow> 's run_state \<Rightarrow> 's run_state" where
  "callback ops r rs =
     (if r \<in> set (rs_inFlight rs)
      then rs\<lparr>rs_nodes := op_inference_done ops (fst r) (snd r) (rs_nodes rs),
              rs_inFlight := remove1 r (rs_inFlight rs),
              rs_finishedNodeQueue := rs_finishedNodeQueue rs @ [r]\<rparr>
      else rs)"

definition callbacks :: "'s node_ops \<Rightarrow> session_ref list \<Rightarrow> 's run_state \<Rightarrow> 's run_state" where
  "callbacks ops cs rs = foldl (\<lambda>rs r. callback ops r rs) rs cs"

text \<open>\<open>Node::execute\<close> with what it does to the queue.\<close>

definition execute_session :: "'s node_ops \<Rightarrow> environment \<Rightarrow> session_ref \<Rightarrow> 's run_state \<Rightarrow> (StatusCode \<times> 's run_state) outcome" where
  "execute_session ops env r rs =
     rbind (op_execute ops env (fst r) (snd r) (rs_nodes rs)) (\<lambda>(status, e, s).
       Inr (status,
         (case e of
            NoEvent \<Rightarrow> rs\<lparr>rs_nodes := s\<rparr>
          | PushEvent \<Rightarrow> rs\<lparr>rs_nodes := s, rs_finishedNodeQueue := rs_finishedNodeQueue rs @ [r]\<rparr>
          | InFlight \<Rightarrow> rs\<lparr>rs_nodes := s, rs_inFlight := rs_inFlight rs @ [r]\<rparr>)))"

fun feed_next :: "'s node_ops \<Rightarrow> environment \<Rightarrow> nat \<Rightarrow> SessionResults \<Rightarrow> nat list \<Rightarrow> 's run_state \<Rightarrow> 's run_state outcome" where
  "feed_next ops env finishedNode results [] rs = Inr rs"
| "feed_next ops env finishedNode results (nextNode # rest) rs =
     rbind (op_setInputs ops env nextNode finishedNode results (rs_nodes rs)) (\<lambda>(status, s).
       let rs = check_error status (rs\<lparr>rs_nodes := s\<rparr>)
       in if has_error rs then Inr rs else feed_next ops env finishedNode results rest rs)"

definition mark_started :: "'s node_ops \<Rightarrow> session_ref \<Rightarrow> 's run_state \<Rightarrow> 's run_state" where
  "mark_started ops r rs =
     rs\<lparr>rs_startedSessions := set_emplace (ident ops (rs_nodes rs) r) (rs_startedSessions rs),
        rs_starts := rs_starts rs @ [r]\<rparr>"

fun start_ready ::
  "'s node_ops \<Rightarrow> environment \<Rightarrow> nat \<Rightarrow> string list \<Rightarrow> session_ref list \<Rightarrow> 's run_state \<Rightarrow>
   (session_ref list \<times> 's run_state) outcome" where
  "start_ready ops env nextNode [] tmp rs = Inr (tmp, rs)"
| "start_ready ops env nextNode (readySessionKey # keys) tmp rs =
     rbind (execute_session ops env (nextNode, readySessionKey) (mark_started ops (nextNode, readySessionKey) rs)) (\<lambda>(status, rs).
       let (tmp, status) = (if status = SC_PIPELINE_STREAM_ID_NOT_READY_YET
                            then (tmp @ [(nextNode, readySessionKey)], SC_OK) else (tmp, status));
           rs = check_error status rs
       in if has_error rs then Inr (tmp, rs) else start_ready ops env nextNode keys tmp rs)"

fun start_next ::
  "'s node_ops \<Rightarrow> environment \<Rightarrow> nat list \<Rightarrow> session_ref list \<Rightarrow> 's run_state \<Rightarrow>
   (session_ref list \<times> 's run_state) outcome" where
  "start_next ops env [] tmp rs = Inr (tmp, rs)"
| "start_next ops env (nextNode # rest) tmp rs =
     rbind (start_ready ops env nextNode (op_getReadySessions ops nextNode (rs_nodes rs)) tmp rs) (\<lambda>(tmp, rs).
       start_next ops env rest tmp rs)"

text \<open>The retry of deferred sessions; after an event it stops as soon as another one waits.\<close>

fun try_deferred ::
  "'s node_ops \<Rightarrow> iteration \<Rightarrow> bool \<Rightarrow> session_ref list \<Rightarrow> 's run_state \<Rightarrow> (session_ref list \<times> 's run_state) outcome" where
  "try_deferred ops it stop_on_event [] rs = Inr ([], rs)"
| "try_deferred ops it stop_on_event (r # rest) rs =
     (let rs = callbacks ops (it_completed_before it r) rs
      in if stop_on_event \<and> rs_finishedNodeQueue rs \<noteq> [] then Inr (r # rest, rs)
         else rbind (execute_session ops (it_env it) r rs) (\<lambda>(status, rs).
                if status_ok status then try_deferred ops it stop_on_event rest rs
                else let rs = (if status = SC_PIPELINE_STREAM_ID_NOT_READY_YET then rs else check_error status rs)
                     in rbind (try_deferred ops it stop_on_event rest rs) (\<lambda>(kept, rs). Inr (r # kept, rs))))"

fun disarm_deferred ::
  "'s node_ops \<Rightarrow> environment \<Rightarrow> session_ref list \<Rightarrow> 's run_state \<Rightarrow> (session_ref list \<times> 's run_state) outcome" where
  "disarm_deferred ops env [] rs = Inr ([], rs)"
| "disarm_deferred ops env (r # rest) rs =
     rbind (op_tryDisarm ops env (fst r) (snd r) (rs_nodes rs)) (\<lambda>(disarmed, s).
       let rs = rs\<lparr>rs_nodes := s\<rparr>
       in if disarmed
          then disarm_deferred ops env rest
                 (rs\<lparr>rs_finishedSessions := set_emplace (ident ops s r) (rs_finishedSessions rs)\<rparr>)
          else rbind (disarm_deferred ops env rest rs) (\<lambda>(kept, rs). Inr (r # kept, rs)))"

definition process_finished :: "'s node_ops \<Rightarrow> iteration \<Rightarrow> session_ref \<Rightarrow> 's run_state \<Rightarrow> 's turn" where
  "process_finished ops it r rs =
     (let env = it_env it;
          rs = rs\<lparr>rs_finishedSessions := set_emplace (ident ops (rs_nodes rs) r) (rs_finishedSessions rs)\<rparr>
      in if has_error rs
         then rbind (op_release ops (fst r) (snd r) (rs_nodes rs)) (\<lambda>s. break_if_finished (rs\<lparr>rs_nodes := s\<rparr>))
         else rbind (op_fetchResults ops env (fst r) (snd r) (rs_nodes rs)) (\<lambda>(status, results, s).
                let rs = check_error status (rs\<lparr>rs_nodes := s\<rparr>);
                    next = op_getNextNodes ops (fst r) s
                in if has_error rs then break_if_finished rs
                   else rbind (feed_next ops env (fst r) results next rs) (\<lambda>rs.
                        rbind (start_next ops env next [] rs) (\<lambda>(tmp, rs).
                        rbind (try_deferred ops it True (rs_deferredNodeSessions rs) rs) (\<lambda>(kept, rs).
                          break_if_finished (rs\<lparr>rs_deferredNodeSessions := kept @ tmp\<rparr>))))))"

definition no_event :: "'s node_ops \<Rightarrow> iteration \<Rightarrow> 's run_state \<Rightarrow> 's turn" where
  "no_event ops it rs =
     (if has_error rs
      then rbind (disarm_deferred ops (it_env it) (rs_deferredNodeSessions rs) rs) (\<lambda>(kept, rs).
             let rs = rs\<lparr>rs_deferredNodeSessions := kept\<rparr>
             in if kept \<noteq> [] then Inr (None, rs) else break_if_finished rs)
      else rbind (try_deferred ops it False (rs_deferredNodeSessions rs) rs) (\<lambda>(kept, rs).
             Inr (None, rs\<lparr>rs_deferredNodeSessions := kept\<rparr>)))"

definition loop_body :: "'s node_ops \<Rightarrow> iteration \<Rightarrow> 's run_state \<Rightarrow> 's turn" where
  "loop_body ops it rs =
     (let rs = callbacks ops (it_completed it) rs
      in case rs_finishedNodeQueue rs of
           r # queue \<Rightarrow> process_finished ops it r (rs\<lparr>rs_finishedNodeQueue := queue\<rparr>)
         | [] \<Rightarrow> no_event ops it rs)"

text \<open>The iterations given; the result \<open>None\<close> is a loop that goes on after them.\<close>

fun run_loop :: "'s node_ops \<Rightarrow> iteration list \<Rightarrow> 's run_state \<Rightarrow> 's turn" where
  "run_loop ops [] rs = Inr (None, rs)"
| "run_loop ops (it # its) rs =
     rbind (loop_body ops it rs) (\<lambda>(status, rs).
       case status of Some s \<Rightarrow> Inr (Some s, rs) | None \<Rightarrow> run_loop ops its rs)"

definition initial_state :: "'s \<Rightarrow> 's run_state" where
  "initial_state s =
     \<lparr>rs_nodes = s, rs_finishedNodeQueue = [], rs_inFlight = [], rs_firstErrorStatus = SC_OK,
      rs_startedSessions = [], rs_finishedSessions = [], rs_deferredNodeSessions = [], rs_starts = []\<rparr>"

definition pipeline_execute ::
  "'s node_ops \<Rightarrow> nat \<Rightarrow> ExecutionContext \<Rightarrow> environment \<Rightarrow> iteration list \<Rightarrow> 's \<Rightarrow> 's turn" where
  "pipeline_execute ops entry context env its s =
     (if snd context \<noteq> ModelInfer then Inr (Some SC_INTERNAL_ERROR, initial_state s)
      else let meta = new_NodeSessionMetadata context
           in rbind (op_getNodeSession ops meta entry s) (\<lambda>(found, s).
                if \<not> found then Inr (Some SC_INTERNAL_ERROR, initial_state s)
                else rbind (raising (getSessionKey meta [])) (\<lambda>(entrySessionKey, _).
                     rbind (execute_session ops env (entry, entrySessionKey)
                              (mark_started ops (entry, entrySessionKey) (initial_state s))) (\<lambda>(status, rs).
                       if \<not> status_ok status then Inr (Some status, rs) else run_loop ops its rs))))"

section \<open>The contract of the virtual functions\<close>

text \<open>
  The environments in which no model answers with the status that is reserved for a missing stream.
\<close>

definition plain_answers :: "environment \<Rightarrow> bool" where
  "plain_answers env \<longleftrightarrow> (\<forall>i key. env_getModelInstance env i key \<noteq> Inl SC_PIPELINE_STREAM_ID_NOT_READY_YET)"

text \<open>
  What the loop relies on: a session that is not ready leaves no event, every other one leaves one or has
  an inference that will, and the names of the nodes never change.
\<close>

locale node_interface =
  fixes ops :: "'s node_ops" and good :: "environment \<Rightarrow> bool"
  assumes execute_event: "good env \<Longrightarrow> op_execute ops env i key s = Inr (status, e, s') \<Longrightarrow>
      (status = SC_PIPELINE_STREAM_ID_NOT_READY_YET \<longleftrightarrow> e = NoEvent) \<and> (\<not> status_ok status \<longrightarrow> e \<noteq> InFlight)"
    and execute_name: "op_execute ops env i key s = Inr (status, e, s') \<Longrightarrow> op_getName ops j s' = op_getName ops j s"
    and fetch_name: "op_fetchResults ops env i key s = Inr (status, results, s') \<Longrightarrow> op_getName ops j s' = op_getName ops j s"
    and set_name: "op_setInputs ops env i k rs s = Inr (status, s') \<Longrightarrow> op_getName ops j s' = op_getName ops j s"
    and session_name: "op_getNodeSession ops m i s = Inr (b, s') \<Longrightarrow> op_getName ops j s' = op_getName ops j s"
    and release_name: "op_release ops i key s = Inr s' \<Longrightarrow> op_getName ops j s' = op_getName ops j s"
    and disarm_name: "op_tryDisarm ops env i key s = Inr (b, s') \<Longrightarrow> op_getName ops j s' = op_getName ops j s"
    and done_name: "op_inference_done ops i key s = s' \<Longrightarrow> op_getName ops j s' = op_getName ops j s"
begin

lemma ident_cong: "(\<And>j. op_getName ops j s' = op_getName ops j s) \<Longrightarrow> ident ops s' = ident ops s"
  by (simp add: ident_def)

lemmas ident_kept = execute_name [THEN ident_cong] fetch_name [THEN ident_cong] set_name [THEN ident_cong]
  session_name [THEN ident_cong] release_name [THEN ident_cong] disarm_name [THEN ident_cong]
  done_name [OF refl, THEN ident_cong]

text \<open>
  The sessions of \<open>W\<close> wait for a stream; they, the events in the queue and the inferences are exactly the
  sessions started and not finished.
\<close>

definition pending :: "session_ref list \<Rightarrow> 's run_state \<Rightarrow> session_ref list" where
  "pending W rs = W @ rs_finishedNodeQueue rs @ rs_inFlight rs"

definition inv :: "(session_ref \<Rightarrow> string) \<Rightarrow> session_ref list \<Rightarrow> 's run_state \<Rightarrow> bool" where
  "inv f W rs \<longleftrightarrow> ident ops (rs_nodes rs) = f \<and> distinct (map f (pending W rs)) \<and>
     f ` set (pending W rs) \<inter> set (rs_finishedSessions rs) = {} \<and>
     set (rs_startedSessions rs) = set (rs_finishedSessions rs) \<union> f ` set (pending W rs) \<and>
     distinct (rs_startedSessions rs) \<and> distinct (rs_finishedSessions rs) \<and>
     f ` set (rs_starts rs) = set (rs_startedSessions rs)"

lemma inv_finished: "inv f W rs \<Longrightarrow> all_finished rs \<longleftrightarrow> pending W rs = []"
proof -
  assume i: "inv f W rs"
  have "card (set (rs_startedSessions rs)) = card (set (rs_finishedSessions rs)) + card (f ` set (pending W rs))"
    using i by (auto simp: inv_def intro!: card_Un_disjoint)
  moreover have "length (rs_startedSessions rs) = card (set (rs_startedSessions rs))"
    "length (rs_finishedSessions rs) = card (set (rs_finishedSessions rs))"
    using i by (metis inv_def distinct_card)+
  moreover have "card (f ` set (pending W rs)) = length (pending W rs)"
    using i distinct_card [of "map f (pending W rs)"] by (simp add: inv_def)
  ultimately show ?thesis by (auto simp: all_finished_def)
qed

lemma inv_nodes: "inv f W rs \<Longrightarrow> ident ops s = f \<Longrightarrow> inv f W (rs\<lparr>rs_nodes := s\<rparr>)"
  by (simp add: inv_def pending_def)

lemma inv_error [simp]: "inv f W (rs\<lparr>rs_firstErrorStatus := s\<rparr>) = inv f W rs"
  by (simp add: inv_def pending_def)

lemma inv_deferred [simp]: "inv f W (rs\<lparr>rs_deferredNodeSessions := d\<rparr>) = inv f W rs"
  by (simp add: inv_def pending_def)

lemma inv_check [simp]: "inv f W (check_error status rs) = inv f W rs"
  by (simp add: check_error_def setFailIfNotFailEarlier_def)

lemma check_fields [simp]:
  "rs_nodes (check_error status rs) = rs_nodes rs" "rs_finishedNodeQueue (check_error status rs) = rs_finishedNodeQueue rs"
  "rs_inFlight (check_error status rs) = rs_inFlight rs" "rs_startedSessions (check_error status rs) = rs_startedSessions rs"
  "rs_finishedSessions (check_error status rs) = rs_finishedSessions rs"
  "rs_deferredNodeSessions (check_error status rs) = rs_deferredNodeSessions rs" "rs_starts (check_error status rs) = rs_starts rs"
  by (simp_all add: check_error_def setFailIfNotFailEarlier_def)

lemma has_error_check: "has_error (check_error status rs) \<longleftrightarrow> has_error rs \<or> \<not> status_ok status"
  by (auto simp: check_error_def setFailIfNotFailEarlier_def has_error_def)

lemma inv_perm: "inv f W rs \<Longrightarrow> mset W = mset W' \<Longrightarrow> inv f W' rs"
proof -
  assume i: "inv f W rs" and m: "mset W = mset W'"
  then have "mset (pending W' rs) = mset (pending W rs)" by (simp add: pending_def)
  then have "set (pending W' rs) = set (pending W rs)"
    "distinct (map f (pending W' rs)) = distinct (map f (pending W rs))"
    by (metis mset_eq_setD, metis mset_map mset_eq_imp_distinct_iff)
  with i show "inv f W' rs" by (simp add: inv_def)
qed

text \<open>A callback moves a session from the inferences to the events.\<close>

lemma callback_inv:
  assumes "inv f W rs"
  shows "inv f W (callback ops r rs)" and "has_error (callback ops r rs) = has_error rs"
    and "f ` set (rs_finishedNodeQueue rs) \<subseteq> f ` set (rs_finishedNodeQueue (callback ops r rs))"
    and "rs_deferredNodeSessions (callback ops r rs) = rs_deferredNodeSessions rs"
    and "rs_starts (callback ops r rs) = rs_starts rs"
proof -
  show "inv f W (callback ops r rs)"
  proof (cases "r \<in> set (rs_inFlight rs)")
    case True
    then have "mset (pending W (callback ops r rs)) = mset (pending W rs)" by (simp add: callback_def pending_def)
    then have "set (pending W (callback ops r rs)) = set (pending W rs)"
      "distinct (map f (pending W (callback ops r rs))) = distinct (map f (pending W rs))"
      by (metis mset_eq_setD, metis mset_map mset_eq_imp_distinct_iff)
    moreover have "ident ops (rs_nodes (callback ops r rs)) = f"
      using assms ident_kept(7) [of "fst r" "snd r" "rs_nodes rs"] by (simp add: callback_def inv_def)
    ultimately show ?thesis using assms by (simp add: inv_def) (simp add: callback_def)
  qed (use assms in \<open>simp add: callback_def\<close>)
qed (auto simp: callback_def has_error_def)

lemma callbacks_inv:
  assumes "inv f W rs"
  shows "inv f W (callbacks ops cs rs) \<and> has_error (callbacks ops cs rs) = has_error rs \<and>
    f ` set (rs_finishedNodeQueue rs) \<subseteq> f ` set (rs_finishedNodeQueue (callbacks ops cs rs)) \<and>
    rs_deferredNodeSessions (callbacks ops cs rs) = rs_deferredNodeSessions rs \<and>
    rs_starts (callbacks ops cs rs) = rs_starts rs"
  using assms
proof (induction cs arbitrary: rs)
  case (Cons c cs)
  note step = callback_inv [OF Cons.prems, of c]
  show ?case using Cons.IH [OF step(1)] step by (simp add: callbacks_def) blast
qed (simp add: callbacks_def)

text \<open>Executing a waiting session.\<close>

lemma execute_inv:
  assumes "good env" "inv f (r # W) rs" "execute_session ops env r rs = Inr (status, rs')"
  shows "inv f (if status = SC_PIPELINE_STREAM_ID_NOT_READY_YET then r # W else W) rs' \<and>
    has_error rs' = has_error rs \<and> rs_deferredNodeSessions rs' = rs_deferredNodeSessions rs \<and>
    rs_starts rs' = rs_starts rs \<and> f ` set (rs_finishedNodeQueue rs) \<subseteq> f ` set (rs_finishedNodeQueue rs') \<and>
    (\<not> status_ok status \<and> status \<noteq> SC_PIPELINE_STREAM_ID_NOT_READY_YET \<longrightarrow> r \<in> set (rs_finishedNodeQueue rs'))"
proof -
  obtain e s where e: "op_execute ops env (fst r) (snd r) (rs_nodes rs) = Inr (status, e, s)"
    and rs': "rs' = (case e of NoEvent \<Rightarrow> rs\<lparr>rs_nodes := s\<rparr>
        | PushEvent \<Rightarrow> rs\<lparr>rs_nodes := s, rs_finishedNodeQueue := rs_finishedNodeQueue rs @ [r]\<rparr>
        | InFlight \<Rightarrow> rs\<lparr>rs_nodes := s, rs_inFlight := rs_inFlight rs @ [r]\<rparr>)"
    using assms(3) by (auto simp: execute_session_def rbind_Inr_iff)
  let ?W = "if status = SC_PIPELINE_STREAM_ID_NOT_READY_YET then r # W else W"
  have "ident ops s = f" using ident_kept(1) [OF e] assms(2) by (simp add: inv_def)
  moreover note ev = execute_event [OF assms(1) e]
  then have m: "mset (pending ?W rs') = mset (pending (r # W) rs)"
    by (cases e) (simp_all add: rs' pending_def)
  have "set (pending ?W rs') = set (pending (r # W) rs)"
    "distinct (map f (pending ?W rs')) = distinct (map f (pending (r # W) rs))"
    using m by (metis mset_eq_setD, metis mset_map mset_eq_imp_distinct_iff)
  ultimately have "inv f ?W rs'" using assms(2) unfolding inv_def by (cases e) (simp_all add: rs')
  then show ?thesis using ev by (cases e) (auto simp: rs' has_error_def)
qed

end

text \<open>The sessions that have been started only grow.\<close>

lemma execute_starts: "execute_session ops env r rs = Inr (status, rs') \<Longrightarrow> rs_starts rs' = rs_starts rs"
proof -
  assume "execute_session ops env r rs = Inr (status, rs')"
  then obtain e s where "op_execute ops env (fst r) (snd r) (rs_nodes rs) = Inr (status, e, s)"
    "rs' = (case e of NoEvent \<Rightarrow> rs\<lparr>rs_nodes := s\<rparr>
        | PushEvent \<Rightarrow> rs\<lparr>rs_nodes := s, rs_finishedNodeQueue := rs_finishedNodeQueue rs @ [r]\<rparr>
        | InFlight \<Rightarrow> rs\<lparr>rs_nodes := s, rs_inFlight := rs_inFlight rs @ [r]\<rparr>)"
    by (auto simp: execute_session_def rbind_Inr_iff)
  then show ?thesis by (cases e) simp_all
qed

lemma check_starts [simp]: "rs_starts (check_error status rs) = rs_starts rs"
  by (simp add: check_error_def setFailIfNotFailEarlier_def)

lemma start_ready_starts:
  "start_ready ops env i keys tmp rs = Inr (tmp', rs') \<Longrightarrow> prefix (rs_starts rs) (rs_starts rs')"
proof (induction keys arbitrary: tmp rs)
  case (Cons key keys)
  obtain status rs1 where e: "execute_session ops env (i, key) (mark_started ops (i, key) rs) = Inr (status, rs1)"
    using Cons.prems by (auto simp: rbind_Inr_iff)
  have "rs_starts rs1 = rs_starts rs @ [(i, key)]" using execute_starts [OF e] by (simp add: mark_started_def)
  then show ?case
    using Cons.prems e
    by (auto simp: Let_def split: if_splits dest!: Cons.IH dest: append_prefixD)
qed simp

lemma start_next_starts:
  "start_next ops env ns tmp rs = Inr (tmp', rs') \<Longrightarrow> prefix (rs_starts rs) (rs_starts rs')"
proof (induction ns arbitrary: tmp rs)
  case (Cons n ns)
  then show ?case by (auto simp: rbind_Inr_iff dest!: start_ready_starts intro: prefix_order.trans)
qed simp

lemma distinct_prefix: "prefix xs ys \<Longrightarrow> distinct (map f ys) \<Longrightarrow> distinct (map f xs)"
  by (auto simp: prefix_def)

context node_interface
begin

lemma mark_inv:
  assumes "inv f W rs" "distinct (map f (rs_starts rs @ [r]))"
  shows "inv f (r # W) (mark_started ops r rs)"
proof -
  have "f r \<notin> set (rs_startedSessions rs)" using assms by (auto simp: inv_def)
  then show ?thesis using assms(1) by (auto simp: inv_def mark_started_def pending_def set_emplace_def)
qed

lemma mark_fields [simp]:
  "rs_starts (mark_started ops r rs) = rs_starts rs @ [r]" "has_error (mark_started ops r rs) = has_error rs"
  "rs_deferredNodeSessions (mark_started ops r rs) = rs_deferredNodeSessions rs"
  by (simp_all add: mark_started_def has_error_def)

text \<open>Starting the ready sessions of the next nodes: those without a stream wait.\<close>

lemma start_ready_inv:
  assumes "good env" "start_ready ops env i keys tmp rs = Inr (tmp', rs')" "inv f (W @ tmp) rs"
    "distinct (map f (rs_starts rs'))"
  shows "inv f (W @ tmp') rs' \<and> rs_deferredNodeSessions rs' = rs_deferredNodeSessions rs \<and> (has_error rs \<longrightarrow> has_error rs')"
  using assms(2-4)
proof (induction keys arbitrary: tmp rs)
  case (Cons key keys)
  let ?r = "(i, key)"
  obtain status rs1 where e: "execute_session ops env ?r (mark_started ops ?r rs) = Inr (status, rs1)"
    using Cons.prems(1) by (auto simp: rbind_Inr_iff)
  let ?nr = "status = SC_PIPELINE_STREAM_ID_NOT_READY_YET"
  let ?tmp = "if ?nr then tmp @ [?r] else tmp" and ?rs = "check_error (if ?nr then SC_OK else status) rs1"
  have rest: "(if has_error ?rs then Inr (?tmp, ?rs) else start_ready ops env i keys ?tmp ?rs) = Inr (tmp', rs')"
    using Cons.prems(1) e by (simp add: Let_def split: if_splits)
  have "prefix (rs_starts ?rs) (rs_starts rs')"
    using rest by (auto dest!: start_ready_starts split: if_splits)
  then have "prefix (rs_starts rs @ [?r]) (rs_starts rs')" using execute_starts [OF e] by simp
  then have "distinct (map f (rs_starts rs @ [?r]))" using Cons.prems(3) by (rule distinct_prefix)
  note x = execute_inv [OF assms(1) mark_inv [OF Cons.prems(2) this] e]
  have "inv f (W @ ?tmp) ?rs" using x by (auto elim: inv_perm split: if_splits)
  then show ?case
    using rest Cons.IH [of ?tmp ?rs] Cons.prems(3) x
    by (auto simp: has_error_check split: if_splits)
qed simp

lemma start_next_inv:
  assumes "good env" "start_next ops env ns tmp rs = Inr (tmp', rs')" "inv f (W @ tmp) rs"
    "distinct (map f (rs_starts rs'))"
  shows "inv f (W @ tmp') rs' \<and> rs_deferredNodeSessions rs' = rs_deferredNodeSessions rs \<and> (has_error rs \<longrightarrow> has_error rs')"
  using assms(2-4)
proof (induction ns arbitrary: tmp rs)
  case (Cons n ns)
  obtain tmp1 rs1 where s: "start_ready ops env n (op_getReadySessions ops n (rs_nodes rs)) tmp rs = Inr (tmp1, rs1)"
    "start_next ops env ns tmp1 rs1 = Inr (tmp', rs')"
    using Cons.prems(1) by (auto simp: rbind_Inr_iff)
  have "distinct (map f (rs_starts rs1))" using start_next_starts [OF s(2)] Cons.prems(3) by (rule distinct_prefix)
  note r = start_ready_inv [OF assms(1) s(1) Cons.prems(2) this]
  show ?case using Cons.IH [OF s(2)] r Cons.prems(3) by auto
qed simp

lemma feed_inv:
  assumes "feed_next ops env i results ns rs = Inr rs'" "inv f W rs"
  shows "inv f W rs' \<and> rs_deferredNodeSessions rs' = rs_deferredNodeSessions rs \<and> rs_starts rs' = rs_starts rs"
  using assms
proof (induction ns arbitrary: rs)
  case (Cons n ns)
  obtain status s where s: "op_setInputs ops env n i results (rs_nodes rs) = Inr (status, s)"
    using Cons.prems(1) by (auto simp: rbind_Inr_iff)
  let ?rs = "check_error status (rs\<lparr>rs_nodes := s\<rparr>)"
  have "ident ops s = f" using ident_kept(3) [OF s] Cons.prems(2) by (simp add: inv_def)
  then have "inv f W ?rs" unfolding inv_check by (rule inv_nodes [OF Cons.prems(2)])
  then show ?case using Cons.IH [of ?rs] Cons.prems(1) s by (auto simp: Let_def split: if_splits)
qed simp

text \<open>
  Retrying deferred sessions: a session that stays deferred either still waits or has failed and left its
  event; the latter only after an error.
\<close>

definition failed_ones :: "(session_ref \<Rightarrow> string) \<Rightarrow> session_ref list \<Rightarrow> session_ref list \<Rightarrow> 's run_state \<Rightarrow> bool" where
  "failed_ones f W deferred rs \<longleftrightarrow> set W \<subseteq> set deferred \<and> (\<not> has_error rs \<longrightarrow> W = deferred) \<and>
     (\<forall>d\<in>set deferred - set W. f d \<in> f ` set (rs_finishedNodeQueue rs))"

lemma try_deferred_inv:
  assumes "good (it_env it)" "try_deferred ops it b ds rs = Inr (kept, rs')" "inv f (ds @ X) rs"
  shows "(\<exists>W. inv f (W @ X) rs' \<and> failed_ones f W kept rs') \<and> subseq kept ds \<and> (has_error rs \<longrightarrow> has_error rs') \<and>
    rs_deferredNodeSessions rs' = rs_deferredNodeSessions rs \<and> rs_starts rs' = rs_starts rs \<and>
    f ` set (rs_finishedNodeQueue rs) \<subseteq> f ` set (rs_finishedNodeQueue rs')"
  using assms(2,3)
proof (induction ds arbitrary: rs kept X)
  case Nil
  then show ?case by (auto simp: failed_ones_def)
next
  case (Cons r ds)
  let ?c = "callbacks ops (it_completed_before it r) rs"
  have c: "inv f (r # ds @ X) ?c" "has_error ?c = has_error rs" "rs_deferredNodeSessions ?c = rs_deferredNodeSessions rs"
    "rs_starts ?c = rs_starts rs" "f ` set (rs_finishedNodeQueue rs) \<subseteq> f ` set (rs_finishedNodeQueue ?c)"
    using callbacks_inv [OF Cons.prems(2)] by simp_all
  show ?case
  proof (cases "b \<and> rs_finishedNodeQueue ?c \<noteq> []")
    case True
    then have "kept = r # ds" "rs' = ?c" using Cons.prems(1) by (auto simp: Let_def)
    then show ?thesis using c by (auto simp: failed_ones_def intro!: exI[of _ "r # ds"])
  next
    case False
    obtain status rs1 where e: "execute_session ops (it_env it) r ?c = Inr (status, rs1)"
      using Cons.prems(1) False by (auto simp: Let_def rbind_Inr_iff)
    note x = execute_inv [OF assms(1) c(1) e]
    have grow: "f ` set (rs_finishedNodeQueue rs) \<subseteq> f ` set (rs_finishedNodeQueue rs1)"
      using x c(5) by (meson order_trans)
    show ?thesis
    proof (cases "status_ok status")
      case True
      then have "status \<noteq> SC_PIPELINE_STREAM_ID_NOT_READY_YET" by (auto simp: status_ok_def)
      then have i: "inv f (ds @ X) rs1" using x by simp
      have "try_deferred ops it b ds rs1 = Inr (kept, rs')" using Cons.prems(1) False e True by (auto simp: Let_def)
      note h = Cons.IH [OF this i]
      have "subseq kept (r # ds)" using h by (auto intro: list_emb_Cons)
      moreover have "f ` set (rs_finishedNodeQueue rs) \<subseteq> f ` set (rs_finishedNodeQueue rs')"
        using order_trans [OF grow] h by simp
      ultimately show ?thesis using h x c(2-4) by metis
    next
      case bad: False
      let ?nr = "status = SC_PIPELINE_STREAM_ID_NOT_READY_YET"
      let ?rs = "if ?nr then rs1 else check_error status rs1"
      obtain kept1 where k: "try_deferred ops it b ds ?rs = Inr (kept1, rs')" "kept = r # kept1"
        using Cons.prems(1) False e bad by (auto simp: Let_def rbind_Inr_iff)
      show ?thesis
      proof (cases ?nr)
        case True
        then have "inv f (ds @ r # X) ?rs" using x by (auto elim: inv_perm)
        from Cons.IH [OF k(1) this] obtain W where W: "inv f (W @ r # X) rs'" "failed_ones f W kept1 rs'" "subseq kept1 ds"
          "has_error ?rs \<longrightarrow> has_error rs'" "rs_deferredNodeSessions rs' = rs_deferredNodeSessions ?rs"
          "rs_starts rs' = rs_starts ?rs" "f ` set (rs_finishedNodeQueue ?rs) \<subseteq> f ` set (rs_finishedNodeQueue rs')"
          by blast
        have "inv f ((r # W) @ X) rs'" using W(1) by (rule inv_perm) simp
        moreover have "failed_ones f (r # W) kept rs'" using W(2) by (auto simp: failed_ones_def k(2))
        moreover have "has_error rs \<longrightarrow> has_error rs'" using W(4) True x c(2) by auto
        moreover have "rs_deferredNodeSessions rs' = rs_deferredNodeSessions rs" "rs_starts rs' = rs_starts rs"
          using W(5,6) True x c(3,4) by auto
        moreover have "f ` set (rs_finishedNodeQueue rs) \<subseteq> f ` set (rs_finishedNodeQueue rs')"
          using order_trans [OF grow] W(7) True by simp
        ultimately show ?thesis using W(3) k(2) by (metis subseq_Cons2)
      next
        case False
        then have "inv f (ds @ X) ?rs" "has_error ?rs" "r \<in> set (rs_finishedNodeQueue ?rs)"
          using x bad by (simp_all add: has_error_check)
        from Cons.IH [OF k(1) this(1)] this(2,3) obtain W where W: "inv f (W @ X) rs'" "failed_ones f W kept1 rs'" "subseq kept1 ds"
          "has_error rs'" "rs_deferredNodeSessions rs' = rs_deferredNodeSessions ?rs"
          "rs_starts rs' = rs_starts ?rs" "f ` set (rs_finishedNodeQueue ?rs) \<subseteq> f ` set (rs_finishedNodeQueue rs')"
          "f r \<in> f ` set (rs_finishedNodeQueue rs')"
          by blast
        have "failed_ones f W kept rs'" using W(2,4,8) by (auto simp: failed_ones_def k(2))
        moreover have "rs_deferredNodeSessions rs' = rs_deferredNodeSessions rs" "rs_starts rs' = rs_starts rs"
          using W(5,6) False x c(3,4) by auto
        moreover have "f ` set (rs_finishedNodeQueue rs) \<subseteq> f ` set (rs_finishedNodeQueue rs')"
          using order_trans [OF grow] W(7) False by simp
        ultimately show ?thesis using W(1,3,4) k(2) by (metis subseq_Cons2)
      qed
    qed
  qed
qed

end

lemma callback_fields:
  "set (rs_inFlight (callback ops r rs)) \<subseteq> set (rs_inFlight rs)"
  "rs_startedSessions (callback ops r rs) = rs_startedSessions rs" "rs_starts (callback ops r rs) = rs_starts rs"
  "rs_finishedSessions (callback ops r rs) = rs_finishedSessions rs"
  by (auto simp: callback_def dest: set_remove1_subset [THEN subsetD])

lemma callbacks_fields:
  "set (rs_inFlight (callbacks ops cs rs)) \<subseteq> set (rs_inFlight rs) \<and>
   rs_startedSessions (callbacks ops cs rs) = rs_startedSessions rs \<and> rs_starts (callbacks ops cs rs) = rs_starts rs \<and>
   rs_finishedSessions (callbacks ops cs rs) = rs_finishedSessions rs"
proof (induction cs arbitrary: rs)
  case (Cons c cs)
  show ?case using Cons [of "callback ops c rs"] callback_fields [of ops c rs] by (auto simp: callbacks_def)
qed (simp add: callbacks_def)

lemma execute_sets:
  "execute_session ops env r rs = Inr (status, rs') \<Longrightarrow> rs_startedSessions rs' = rs_startedSessions rs \<and>
     rs_finishedSessions rs' = rs_finishedSessions rs"
proof -
  assume "execute_session ops env r rs = Inr (status, rs')"
  then obtain e s where "op_execute ops env (fst r) (snd r) (rs_nodes rs) = Inr (status, e, s)"
    "rs' = (case e of NoEvent \<Rightarrow> rs\<lparr>rs_nodes := s\<rparr>
        | PushEvent \<Rightarrow> rs\<lparr>rs_nodes := s, rs_finishedNodeQueue := rs_finishedNodeQueue rs @ [r]\<rparr>
        | InFlight \<Rightarrow> rs\<lparr>rs_nodes := s, rs_inFlight := rs_inFlight rs @ [r]\<rparr>)"
    by (auto simp: execute_session_def rbind_Inr_iff)
  then show ?thesis by (cases e) simp_all
qed

lemma check_sets [simp]:
  "rs_startedSessions (check_error status rs) = rs_startedSessions rs"
  "rs_finishedSessions (check_error status rs) = rs_finishedSessions rs"
  by (simp_all add: check_error_def setFailIfNotFailEarlier_def)

lemma try_deferred_sets:
  "try_deferred ops it b ds rs = Inr (kept, rs') \<Longrightarrow> rs_starts rs' = rs_starts rs \<and>
     rs_startedSessions rs' = rs_startedSessions rs \<and> rs_finishedSessions rs' = rs_finishedSessions rs"
proof (induction ds arbitrary: rs kept)
  case (Cons r ds)
  let ?c = "callbacks ops (it_completed_before it r) rs"
  note c = callbacks_fields [of ops "it_completed_before it r" rs]
  show ?case
  proof (cases "b \<and> rs_finishedNodeQueue ?c \<noteq> []")
    case True
    then have "rs' = ?c" using Cons.prems by (auto simp: Let_def)
    then show ?thesis using c by simp
  next
    case False
    then obtain status rs1 where e: "execute_session ops (it_env it) r ?c = Inr (status, rs1)"
      using Cons.prems by (auto simp: Let_def rbind_Inr_iff)
    have "\<exists>kept1. try_deferred ops it b ds (if status_ok status \<or> status = SC_PIPELINE_STREAM_ID_NOT_READY_YET then rs1
        else check_error status rs1) = Inr (kept1, rs')"
      using Cons.prems False e by (auto simp: Let_def rbind_Inr_iff split: if_splits)
    then obtain kept1 where "try_deferred ops it b ds (if status_ok status \<or> status = SC_PIPELINE_STREAM_ID_NOT_READY_YET
        then rs1 else check_error status rs1) = Inr (kept1, rs')" ..
    from Cons.IH [OF this] show ?thesis using execute_starts [OF e] execute_sets [OF e] c by simp
  qed
qed simp

lemma subseq_distinct: "distinct ys \<Longrightarrow> subseq xs ys \<Longrightarrow> distinct xs"
proof (induction xs arbitrary: ys)
  case (Cons x xs)
  then obtain us vs where ys: "ys = us @ x # vs" "subseq xs vs"
    by (auto elim!: list_emb_ConsD [elim_format])
  then have "x \<notin> set xs" using Cons.prems(1) by (auto elim: list_emb_set)
  then show ?case using Cons.IH ys Cons.prems(1) by auto
qed simp

lemma subseq_members: "subseq xs ys \<Longrightarrow> set xs \<subseteq> set ys"
  by (auto elim: list_emb_set)

lemma disarm_deferred_fields:
  "disarm_deferred ops env ds rs = Inr (kept, rs') \<Longrightarrow> has_error rs' = has_error rs \<and>
     rs_finishedNodeQueue rs' = rs_finishedNodeQueue rs \<and> rs_inFlight rs' = rs_inFlight rs \<and>
     rs_startedSessions rs' = rs_startedSessions rs \<and> rs_starts rs' = rs_starts rs \<and> subseq kept ds"
proof (induction ds arbitrary: rs kept)
  case (Cons r ds)
  then show ?case
    by (auto simp: rbind_Inr_iff Let_def has_error_def split: if_splits dest!: Cons.IH intro: list_emb_Cons)
qed simp

context node_interface
begin

text \<open>Giving up the deferred sessions after an error, when there are no events.\<close>

lemma disarm_inv:
  assumes "disarm_deferred ops env ds rs = Inr (kept, rs')" "inv f W rs" "rs_finishedNodeQueue rs = []"
    "inj_on f D" "set ds \<subseteq> D" "set W \<subseteq> D"
    "\<forall>d\<in>set ds - set W. f d \<in> set (rs_startedSessions rs) \<and> f d \<notin> f ` set (rs_inFlight rs)" "distinct ds"
  shows "\<exists>W'. inv f W' rs' \<and> set W' = set W - (set ds - set kept)"
  using assms(1-3,5-8)
proof (induction ds arbitrary: rs kept W)
  case (Cons r ds)
  obtain b s where d: "op_tryDisarm ops env (fst r) (snd r) (rs_nodes rs) = Inr (b, s)"
    using Cons.prems(1) by (auto simp: rbind_Inr_iff)
  have s: "ident ops s = f" using ident_kept(6) [OF d] Cons.prems(2) by (simp add: inv_def)
  then have i: "inv f W (rs\<lparr>rs_nodes := s\<rparr>)" by (rule inv_nodes [OF Cons.prems(2)])
  have r: "r \<notin> set ds" using Cons.prems(7) by simp
  show ?case
  proof (cases b)
    case True
    let ?rs = "rs\<lparr>rs_nodes := s, rs_finishedSessions := set_emplace (f r) (rs_finishedSessions rs)\<rparr>"
    let ?W = "filter (\<lambda>w. w \<noteq> r) W"
    have k: "disarm_deferred ops env ds ?rs = Inr (kept, rs')" using Cons.prems(1) d True s by simp
    have "inv f ?W ?rs"
    proof (cases "r \<in> set W")
      case True
      have dW: "distinct W" using Cons.prems(2) by (auto simp: inv_def pending_def distinct_map)
      have fresh: "f r \<notin> f ` set ?W"
        using Cons.prems(2) True unfolding inv_def pending_def by (auto simp: distinct_map dest: inj_onD)
      have "f r \<notin> f ` set (rs_inFlight rs)" "f r \<notin> set (rs_finishedSessions rs)"
        using Cons.prems(2) True by (auto simp: inv_def pending_def)
      moreover have W: "f ` set W = insert (f r) (f ` set ?W)" using True by auto
      moreover have p: "pending ?W ?rs = ?W @ rs_inFlight rs" "pending W rs = W @ rs_inFlight rs"
        using Cons.prems(3) by (simp_all add: pending_def)
      moreover have "distinct (map f (?W @ rs_inFlight rs))"
        using Cons.prems(2) W by (simp add: inv_def p distinct_map_filter)
      moreover have "rs_finishedSessions ?rs = rs_finishedSessions rs @ [f r]"
        using \<open>f r \<notin> set (rs_finishedSessions rs)\<close> by (simp add: set_emplace_def)
      moreover have "set (rs_startedSessions rs) = set (rs_finishedSessions rs) \<union> (f ` set W \<union> f ` set (rs_inFlight rs))"
        "(f ` set W \<union> f ` set (rs_inFlight rs)) \<inter> set (rs_finishedSessions rs) = {}"
        using Cons.prems(2) by (simp_all add: inv_def p image_Un)
      ultimately have "f ` set (pending ?W ?rs) \<inter> set (rs_finishedSessions ?rs) = {}"
        "set (rs_startedSessions ?rs) = set (rs_finishedSessions ?rs) \<union> f ` set (pending ?W ?rs)"
        "distinct (map f (pending ?W ?rs))"
        using fresh by (simp_all add: image_Un)
      then show ?thesis
        using Cons.prems(2) s \<open>f r \<notin> set (rs_finishedSessions rs)\<close> by (simp add: inv_def set_emplace_def)
    next
      case False
      then have "?W = W" by (auto simp: filter_id_conv)
      moreover have "f r \<notin> f ` set W"
        using False assms(4) Cons.prems(4,5) by (auto dest: inj_onD)
      moreover have "f r \<in> set (rs_startedSessions rs)" "f r \<notin> f ` set (rs_inFlight rs)"
        using Cons.prems(6) False by auto
      ultimately have "f r \<in> set (rs_finishedSessions rs)"
        using Cons.prems(2,3) by (auto simp: inv_def pending_def)
      then show ?thesis using i \<open>?W = W\<close> by (simp add: set_emplace_def inv_def pending_def)
    qed
    moreover have "\<forall>d\<in>set ds - set ?W. f d \<in> set (rs_startedSessions ?rs) \<and> f d \<notin> f ` set (rs_inFlight ?rs)"
      using Cons.prems(6) r by auto
    ultimately obtain W' where W': "inv f W' rs'" "set W' = set ?W - (set ds - set kept)"
      using Cons.IH [OF k, of ?W] Cons.prems(3-5,7) by auto
    have "r \<notin> set kept" using disarm_deferred_fields [OF k] subseq_members r by blast
    then show ?thesis using W' by (intro exI[of _ W']) auto
  next
    case False
    then obtain kept1 where k: "disarm_deferred ops env ds (rs\<lparr>rs_nodes := s\<rparr>) = Inr (kept1, rs')" "kept = r # kept1"
      using Cons.prems(1) d by (auto simp: rbind_Inr_iff)
    obtain W' where "inv f W' rs'" "set W' = set W - (set ds - set kept1)"
      using Cons.IH [OF k(1) i] Cons.prems(3-7) by auto
    then show ?thesis using r by (auto simp: k(2) intro!: exI[of _ W'])
  qed
qed auto

end

context node_interface
begin

text \<open>Between two iterations.\<close>

definition loop_inv :: "(session_ref \<Rightarrow> string) \<Rightarrow> 's run_state \<Rightarrow> bool" where
  "loop_inv f rs \<longleftrightarrow> distinct (map f (rs_deferredNodeSessions rs)) \<and>
     (\<exists>W. inv f W rs \<and> set W \<subseteq> set (rs_deferredNodeSessions rs) \<and> (\<not> has_error rs \<longrightarrow> W = rs_deferredNodeSessions rs) \<and>
       (\<forall>d\<in>set (rs_deferredNodeSessions rs) - set W. f d \<in> set (rs_startedSessions rs) \<and> f d \<notin> f ` set (rs_inFlight rs)))"

lemma loop_invI:
  assumes "inv f W rs" "set W \<subseteq> set (rs_deferredNodeSessions rs)" "\<not> has_error rs \<longrightarrow> W = rs_deferredNodeSessions rs"
    "distinct (map f (rs_deferredNodeSessions rs))"
    "\<And>d. d \<in> set (rs_deferredNodeSessions rs) - set W \<Longrightarrow> f d \<in> set (rs_startedSessions rs) \<and> f d \<notin> f ` set (rs_inFlight rs)"
  shows "loop_inv f rs"
  using assms unfolding loop_inv_def by blast

lemma loop_inv_waiting:
  assumes "inv f (rs_deferredNodeSessions rs) rs"
  shows "loop_inv f rs"
  using assms by (intro loop_invI [OF assms]) (auto simp: inv_def pending_def)

lemma loop_inv_callbacks:
  assumes "loop_inv f rs"
  shows "loop_inv f (callbacks ops cs rs)"
proof -
  let ?rs = "callbacks ops cs rs"
  obtain W where W: "inv f W rs" "set W \<subseteq> set (rs_deferredNodeSessions rs)"
    "\<not> has_error rs \<longrightarrow> W = rs_deferredNodeSessions rs" "distinct (map f (rs_deferredNodeSessions rs))"
    "\<forall>d\<in>set (rs_deferredNodeSessions rs) - set W. f d \<in> set (rs_startedSessions rs) \<and> f d \<notin> f ` set (rs_inFlight rs)"
    using assms unfolding loop_inv_def by blast
  note less = callbacks_fields [of ops cs rs]
  have "inv f W ?rs" "has_error ?rs = has_error rs" "rs_deferredNodeSessions ?rs = rs_deferredNodeSessions rs"
    using callbacks_inv [OF W(1)] by blast+
  then show ?thesis using W less by (intro loop_invI [of f W]) auto
qed

lemma inv_pull:
  assumes "inv f W rs" "rs_finishedNodeQueue rs = r # queue"
  shows "inv f W (rs\<lparr>rs_finishedNodeQueue := queue,
    rs_finishedSessions := set_emplace (f r) (rs_finishedSessions rs)\<rparr>)"
  using assms by (auto simp: inv_def pending_def set_emplace_def)

definition turn_ok :: "(session_ref \<Rightarrow> string) \<Rightarrow> StatusCode option \<Rightarrow> 's run_state \<Rightarrow> bool" where
  "turn_ok f st rs \<longleftrightarrow> loop_inv f rs \<and>
     (st = None \<longrightarrow> \<not> all_finished rs \<or> has_error rs \<and> rs_deferredNodeSessions rs \<noteq> []) \<and>
     (\<forall>s. st = Some s \<longrightarrow> all_finished rs \<and> s = rs_firstErrorStatus rs)"

lemma break_ok: "break_if_finished rs = Inr (st, rs') \<Longrightarrow> loop_inv f rs \<Longrightarrow> turn_ok f st rs'"
  by (auto simp: break_if_finished_def turn_ok_def split: if_splits)

lemma loop_inv_nodes: "loop_inv f rs \<Longrightarrow> ident ops s = f \<Longrightarrow> loop_inv f (rs\<lparr>rs_nodes := s\<rparr>)"
proof -
  assume l: "loop_inv f rs" and s: "ident ops s = f"
  obtain W where W: "inv f W rs" "set W \<subseteq> set (rs_deferredNodeSessions rs)"
    "\<not> has_error rs \<longrightarrow> W = rs_deferredNodeSessions rs" "distinct (map f (rs_deferredNodeSessions rs))"
    "\<forall>d\<in>set (rs_deferredNodeSessions rs) - set W. f d \<in> set (rs_startedSessions rs) \<and> f d \<notin> f ` set (rs_inFlight rs)"
    using l unfolding loop_inv_def by blast
  then show ?thesis by (intro loop_invI [OF inv_nodes [OF W(1) s]]) (auto simp: has_error_def)
qed

lemma loop_inv_error: "inv f (rs_deferredNodeSessions rs) rs \<Longrightarrow> loop_inv f (check_error status rs)"
  by (rule loop_inv_waiting) simp

lemma failed_loop_inv:
  assumes "inv f (W @ tmp) rs" "failed_ones f W kept rs" "distinct (map f (kept @ tmp))"
  shows "loop_inv f (rs\<lparr>rs_deferredNodeSessions := kept @ tmp\<rparr>)"
proof (rule loop_invI [where W = "W @ tmp"])
  show "inv f (W @ tmp) (rs\<lparr>rs_deferredNodeSessions := kept @ tmp\<rparr>)" using assms(1) by simp
  fix d assume "d \<in> set (rs_deferredNodeSessions (rs\<lparr>rs_deferredNodeSessions := kept @ tmp\<rparr>)) - set (W @ tmp)"
  then have "f d \<in> f ` set (rs_finishedNodeQueue rs)" using assms(2) by (auto simp: failed_ones_def)
  then show "f d \<in> set (rs_startedSessions (rs\<lparr>rs_deferredNodeSessions := kept @ tmp\<rparr>)) \<and>
      f d \<notin> f ` set (rs_inFlight (rs\<lparr>rs_deferredNodeSessions := kept @ tmp\<rparr>))"
    using assms(1) by (auto simp: inv_def pending_def)
qed (use assms in \<open>auto simp: failed_ones_def has_error_def\<close>)

lemma process_finished_ok:
  assumes "good (it_env it)" "loop_inv f rs" "rs_finishedNodeQueue rs = r # queue"
    "process_finished ops it r (rs\<lparr>rs_finishedNodeQueue := queue\<rparr>) = Inr (st, rs')"
    "distinct (map f (rs_starts rs'))"
  shows "turn_ok f st rs'"
proof -
  obtain W where W: "inv f W rs" "set W \<subseteq> set (rs_deferredNodeSessions rs)"
    "\<not> has_error rs \<longrightarrow> W = rs_deferredNodeSessions rs" "distinct (map f (rs_deferredNodeSessions rs))"
    "\<forall>d\<in>set (rs_deferredNodeSessions rs) - set W. f d \<in> set (rs_startedSessions rs) \<and> f d \<notin> f ` set (rs_inFlight rs)"
    using assms(2) unfolding loop_inv_def by blast
  let ?p = "rs\<lparr>rs_finishedNodeQueue := queue, rs_finishedSessions := set_emplace (f r) (rs_finishedSessions rs)\<rparr>"
  have nodes: "ident ops (rs_nodes rs) = f" using W(1) by (simp add: inv_def)
  have p: "inv f W ?p" by (rule inv_pull [OF W(1) assms(3)])
  have err: "has_error ?p = has_error rs" by (simp add: has_error_def)
  show ?thesis
  proof (cases "has_error rs")
    case True
    have "loop_inv f ?p" using p W True by (intro loop_invI [of f W]) (auto simp: err)
    moreover obtain s where s: "op_release ops (fst r) (snd r) (rs_nodes rs) = Inr s"
      "break_if_finished (?p\<lparr>rs_nodes := s\<rparr>) = Inr (st, rs')"
      using assms(4) True nodes by (auto simp: process_finished_def has_error_def Let_def rbind_Inr_iff)
    moreover have "ident ops s = f" using ident_kept(5) [OF s(1)] nodes by simp
    ultimately show ?thesis using break_ok loop_inv_nodes by blast
  next
    case False
    let ?d = "rs_deferredNodeSessions rs"
    obtain status results s where s: "op_fetchResults ops (it_env it) (fst r) (snd r) (rs_nodes rs) = Inr (status, results, s)"
      using assms(4) False nodes by (auto simp: process_finished_def has_error_def Let_def rbind_Inr_iff)
    let ?q = "check_error status (?p\<lparr>rs_nodes := s\<rparr>)"
    have q: "inv f ?d ?q" "rs_deferredNodeSessions ?q = ?d"
      using inv_nodes [OF p] ident_kept(2) [OF s] nodes W(3) False by simp_all
    show ?thesis
    proof (cases "has_error ?q")
      case True
      then have "break_if_finished ?q = Inr (st, rs')"
        using assms(4) False nodes s by (simp add: process_finished_def has_error_def Let_def)
      then show ?thesis by (rule break_ok) (use q in \<open>auto intro: loop_inv_waiting\<close>)
    next
      case ok: False
      let ?next = "op_getNextNodes ops (fst r) s"
      obtain rs1 tmp rs2 kept rs3 where f: "feed_next ops (it_env it) (fst r) results ?next ?q = Inr rs1"
        and n: "start_next ops (it_env it) ?next [] rs1 = Inr (tmp, rs2)"
        and t: "try_deferred ops it True (rs_deferredNodeSessions rs2) rs2 = Inr (kept, rs3)"
        and b: "break_if_finished (rs3\<lparr>rs_deferredNodeSessions := kept @ tmp\<rparr>) = Inr (st, rs')"
        using assms(4) False nodes s ok by (auto simp: process_finished_def has_error_def Let_def rbind_Inr_iff)
      have i1: "inv f (?d @ []) rs1" "rs_deferredNodeSessions rs1 = ?d" using feed_inv [OF f q(1)] q(2) by simp_all
      have last: "rs_starts rs' = rs_starts rs3" using b by (auto simp: break_if_finished_def)
      have i2: "inv f (?d @ tmp) rs2" "rs_deferredNodeSessions rs2 = ?d" if "distinct (map f (rs_starts rs2))"
        using start_next_inv [OF assms(1) n i1(1) that] i1(2) by simp_all
      have s3: "rs_starts rs3 = rs_starts rs2" using try_deferred_sets [OF t] by blast
      have i2: "inv f (?d @ tmp) rs2" "rs_deferredNodeSessions rs2 = ?d"
        using i2 assms(5) last s3 by simp_all
      have t': "try_deferred ops it True ?d rs2 = Inr (kept, rs3)" using t i2(2) by simp
      obtain W' where W': "inv f (W' @ tmp) rs3" "failed_ones f W' kept rs3" "subseq kept ?d"
        using try_deferred_inv [OF assms(1) t' i2(1)] by blast
      have "distinct (map f (?d @ tmp))" using i2(1) by (auto simp: inv_def pending_def)
      moreover have "subseq (map f (kept @ tmp)) (map f (?d @ tmp))"
        using W'(3) by (intro subseq_map list_emb_append_mono) auto
      ultimately have "distinct (map f (kept @ tmp))" by (rule subseq_distinct)
      from break_ok [OF b failed_loop_inv [OF W'(1,2) this]] show ?thesis .
    qed
  qed
qed

end

text \<open>The sessions that have been started only grow in the loop.\<close>

lemma feed_starts: "feed_next ops env i results ns rs = Inr rs' \<Longrightarrow> rs_starts rs' = rs_starts rs"
proof (induction ns arbitrary: rs)
  case (Cons n ns)
  then show ?case by (auto simp: rbind_Inr_iff Let_def split: if_splits dest!: Cons.IH)
qed simp

lemma process_finished_starts:
  assumes "process_finished ops it r rs = Inr (st, rs')"
  shows "prefix (rs_starts rs) (rs_starts rs')"
proof -
  let ?rs = "rs\<lparr>rs_finishedSessions := set_emplace (ident ops (rs_nodes rs) r) (rs_finishedSessions rs)\<rparr>"
  show ?thesis
  proof (cases "has_error ?rs")
    case True
    then show ?thesis
      using assms by (auto simp: process_finished_def Let_def rbind_Inr_iff break_if_finished_def)
  next
    case False
    obtain status results s where s: "op_fetchResults ops (it_env it) (fst r) (snd r) (rs_nodes ?rs) = Inr (status, results, s)"
      using assms False by (auto simp: process_finished_def Let_def rbind_Inr_iff)
    let ?q = "check_error status (?rs\<lparr>rs_nodes := s\<rparr>)"
    show ?thesis
    proof (cases "has_error ?q")
      case True
      then have "rs' = ?q"
        using assms False s by (auto simp: process_finished_def Let_def break_if_finished_def)
      then show ?thesis by simp
    next
      case ok: False
      let ?next = "op_getNextNodes ops (fst r) s"
      obtain rs1 tmp rs2 kept rs3 where f: "feed_next ops (it_env it) (fst r) results ?next ?q = Inr rs1"
        "start_next ops (it_env it) ?next [] rs1 = Inr (tmp, rs2)"
        "try_deferred ops it True (rs_deferredNodeSessions rs2) rs2 = Inr (kept, rs3)"
        "break_if_finished (rs3\<lparr>rs_deferredNodeSessions := kept @ tmp\<rparr>) = Inr (st, rs')"
        using assms False s ok by (auto simp: process_finished_def Let_def rbind_Inr_iff)
      show ?thesis
        using feed_starts [OF f(1)] start_next_starts [OF f(2)] try_deferred_sets [OF f(3)] f(4)
        by (auto simp: break_if_finished_def)
    qed
  qed
qed

lemma no_event_starts:
  assumes "no_event ops it rs = Inr (st, rs')"
  shows "rs_starts rs' = rs_starts rs"
proof (cases "has_error rs")
  case True
  then obtain kept rs1 where "disarm_deferred ops (it_env it) (rs_deferredNodeSessions rs) rs = Inr (kept, rs1)"
    "rs' = rs1\<lparr>rs_deferredNodeSessions := kept\<rparr>"
    using assms by (auto simp: no_event_def Let_def rbind_Inr_iff break_if_finished_def split: if_splits)
  then show ?thesis using disarm_deferred_fields by fastforce
next
  case False
  then obtain kept rs1 where "try_deferred ops it False (rs_deferredNodeSessions rs) rs = Inr (kept, rs1)"
    "rs' = rs1\<lparr>rs_deferredNodeSessions := kept\<rparr>"
    using assms by (auto simp: no_event_def Let_def rbind_Inr_iff)
  then show ?thesis using try_deferred_sets by fastforce
qed

lemma loop_body_starts:
  assumes "loop_body ops it rs = Inr (st, rs')"
  shows "prefix (rs_starts rs) (rs_starts rs')"
proof -
  let ?c = "callbacks ops (it_completed it) rs"
  have "prefix (rs_starts ?c) (rs_starts rs')"
    using assms by (auto simp: loop_body_def Let_def split: list.splits dest!: no_event_starts process_finished_starts)
  then show ?thesis using callbacks_fields [of ops "it_completed it" rs] by simp
qed

lemma run_loop_starts: "run_loop ops its rs = Inr (st, rs') \<Longrightarrow> prefix (rs_starts rs) (rs_starts rs')"
proof (induction its arbitrary: rs)
  case (Cons it its)
  obtain st1 rs1 where b: "loop_body ops it rs = Inr (st1, rs1)" using Cons.prems by (auto simp: rbind_Inr_iff)
  then show ?case
    using Cons loop_body_starts [OF b] by (cases st1) (auto intro: prefix_order.trans)
qed simp

context node_interface
begin

lemma no_event_ok:
  assumes "good (it_env it)" "loop_inv f rs" "rs_finishedNodeQueue rs = []" "\<not> has_error rs \<longrightarrow> \<not> all_finished rs"
    "no_event ops it rs = Inr (st, rs')"
  shows "turn_ok f st rs'"
proof -
  let ?d = "rs_deferredNodeSessions rs"
  obtain W where W: "inv f W rs" "set W \<subseteq> set ?d" "\<not> has_error rs \<longrightarrow> W = ?d" "distinct (map f ?d)"
    "\<forall>d\<in>set ?d - set W. f d \<in> set (rs_startedSessions rs) \<and> f d \<notin> f ` set (rs_inFlight rs)"
    using assms(2) unfolding loop_inv_def by blast
  show ?thesis
  proof (cases "has_error rs")
    case True
    obtain kept rs1 where k: "disarm_deferred ops (it_env it) ?d rs = Inr (kept, rs1)"
      using assms(5) True by (auto simp: no_event_def Let_def rbind_Inr_iff)
    let ?k = "rs1\<lparr>rs_deferredNodeSessions := kept\<rparr>"
    have inj: "inj_on f (set ?d)" "distinct ?d" using W(4) by (simp_all add: distinct_map)
    obtain W' where W': "inv f W' rs1" "set W' = set W - (set ?d - set kept)"
      using disarm_inv [OF k W(1) assms(3) inj(1) subset_refl W(2,5) inj(2)] by blast
    note k' = disarm_deferred_fields [OF k]
    have l: "loop_inv f ?k"
    proof (rule loop_invI)
      show "inv f W' ?k" using W'(1) by simp
      show "distinct (map f (rs_deferredNodeSessions ?k))"
        using k' W(4) subseq_distinct [OF W(4)] subseq_map by auto
    qed (use W W' k' True subseq_members [of kept ?d] in \<open>auto simp: has_error_def\<close>)
    show ?thesis
    proof (cases "kept = []")
      case True
      then show ?thesis
        using assms(5) \<open>has_error rs\<close> k by (intro break_ok [OF _ l]) (simp add: no_event_def Let_def)
    next
      case False
      then have "st = None" "rs' = ?k" using assms(5) True k by (auto simp: no_event_def Let_def)
      then show ?thesis using l False True k' by (simp add: turn_ok_def has_error_def)
    qed
  next
    case False
    then obtain kept rs1 where k: "try_deferred ops it False ?d rs = Inr (kept, rs1)"
      "st = None" "rs' = rs1\<lparr>rs_deferredNodeSessions := kept\<rparr>"
      using assms(5) by (auto simp: no_event_def Let_def rbind_Inr_iff)
    have "inv f (?d @ []) rs" using W(1,3) False by simp
    from try_deferred_inv [OF assms(1) k(1) this] obtain W' where W': "inv f (W' @ []) rs1" "failed_ones f W' kept rs1" "subseq kept ?d"
      by blast
    have "distinct (map f (kept @ []))" using W(4) subseq_distinct subseq_map W'(3) by (metis append_Nil2)
    then have "loop_inv f rs'" using failed_loop_inv [OF W'(1,2)] k(3) by simp
    moreover have "\<not> all_finished rs'" using assms(4) False try_deferred_sets [OF k(1)] k(3) by (simp add: all_finished_def)
    ultimately show ?thesis using k(2) by (simp add: turn_ok_def)
  qed
qed

end

context node_interface
begin

definition between :: "(session_ref \<Rightarrow> string) \<Rightarrow> 's run_state \<Rightarrow> bool" where
  "between f rs \<longleftrightarrow> turn_ok f None rs"

lemma loop_body_ok:
  assumes "good (it_env it)" "between f rs" "loop_body ops it rs = Inr (st, rs')" "distinct (map f (rs_starts rs'))"
  shows "turn_ok f st rs'"
proof -
  let ?c = "callbacks ops (it_completed it) rs"
  have l: "loop_inv f rs" using assms(2) by (simp add: between_def turn_ok_def)
  note c = loop_inv_callbacks [OF l, of "it_completed it"]
  obtain W where W: "inv f W rs" using l by (auto simp: loop_inv_def)
  note h = callbacks_inv [OF W, of "it_completed it"] callbacks_fields [of ops "it_completed it" rs]
  show ?thesis
  proof (cases "rs_finishedNodeQueue ?c")
    case Nil
    have "\<not> has_error ?c \<longrightarrow> \<not> all_finished ?c"
      using assms(2) h by (auto simp: between_def turn_ok_def all_finished_def)
    moreover have "no_event ops it ?c = Inr (st, rs')" using assms(3) Nil by (simp add: loop_body_def Let_def)
    ultimately show ?thesis by (rule no_event_ok [OF assms(1) c Nil])
  next
    case (Cons r queue)
    then have "process_finished ops it r (?c\<lparr>rs_finishedNodeQueue := queue\<rparr>) = Inr (st, rs')"
      using assms(3) by (simp add: loop_body_def Let_def)
    from process_finished_ok [OF assms(1) c Cons this assms(4)] show ?thesis .
  qed
qed

lemma run_loop_ok:
  assumes "\<forall>it\<in>set its. good (it_env it)" "between f rs" "run_loop ops its rs = Inr (st, rs')"
    "distinct (map f (rs_starts rs'))"
  shows "turn_ok f st rs'"
  using assms
proof (induction its arbitrary: rs)
  case Nil
  then show ?case by (simp add: between_def)
next
  case (Cons it its)
  obtain st1 rs1 where b: "loop_body ops it rs = Inr (st1, rs1)"
    "(case st1 of Some s \<Rightarrow> Inr (Some s, rs1) | None \<Rightarrow> run_loop ops its rs1) = Inr (st, rs')"
    using Cons.prems(3) by (auto simp: rbind_Inr_iff)
  have "prefix (rs_starts rs1) (rs_starts rs')" using b(2) run_loop_starts by (cases st1) auto
  then have "distinct (map f (rs_starts rs1))" using Cons.prems(4) by (rule distinct_prefix)
  then have "turn_ok f st1 rs1"
    using loop_body_ok [OF _ Cons.prems(2) b(1)] Cons.prems(1) by simp
  then show ?case using b(2) Cons.IH [of rs1] Cons.prems(1,4) by (cases st1) (auto simp: between_def)
qed

text \<open>The end of a turn: nothing is left behind, or there is something to wait for.\<close>

lemma turn_ended:
  assumes "turn_ok f (Some s) rs"
  shows "rs_finishedNodeQueue rs = [] \<and> rs_inFlight rs = [] \<and> (status_ok s \<longrightarrow> rs_deferredNodeSessions rs = []) \<and>
    f ` set (rs_starts rs) = set (rs_finishedSessions rs)"
proof -
  obtain W where W: "inv f W rs" "\<not> has_error rs \<longrightarrow> W = rs_deferredNodeSessions rs"
    using assms by (auto simp: turn_ok_def loop_inv_def)
  have "pending W rs = []" "s = rs_firstErrorStatus rs" using assms inv_finished [OF W(1)] by (auto simp: turn_ok_def)
  then show ?thesis using W by (simp add: pending_def has_error_def inv_def)
qed

lemma turn_waiting:
  assumes "turn_ok f None rs"
  shows "rs_finishedNodeQueue rs \<noteq> [] \<or> rs_inFlight rs \<noteq> [] \<or> rs_deferredNodeSessions rs \<noteq> []"
proof -
  obtain W where W: "inv f W rs" "set W \<subseteq> set (rs_deferredNodeSessions rs)"
    using assms by (auto simp: turn_ok_def loop_inv_def)
  have "pending W rs \<noteq> [] \<or> rs_deferredNodeSessions rs \<noteq> []"
    using assms inv_finished [OF W(1)] by (auto simp: turn_ok_def)
  then show ?thesis using W(2) by (auto simp: pending_def)
qed

lemma execute_turn:
  assumes "good env" "\<forall>it\<in>set its. good (it_env it)" "pipeline_execute ops entry context env its s = Inr (st, rs)"
    "distinct (map (ident ops s) (rs_starts rs))" "snd context = ModelInfer" "rs_starts rs \<noteq> []"
    "\<And>m b s1 env key status e s2. op_getNodeSession ops m entry s = Inr (b, s1) \<Longrightarrow>
      op_execute ops env entry key s1 = Inr (status, e, s2) \<Longrightarrow> status = SC_OK"
  shows "turn_ok (ident ops s) st rs"
proof -
  let ?f = "ident ops s" and ?m = "new_NodeSessionMetadata context"
  obtain found s1 where s1: "op_getNodeSession ops ?m entry s = Inr (found, s1)"
    using assms(3,5) by (auto simp: pipeline_execute_def rbind_Inr_iff Let_def)
  have found using assms(3,5,6) s1 by (cases found) (auto simp: pipeline_execute_def initial_state_def Let_def)
  then obtain key m status rs1 where k: "getSessionKey ?m [] = Inr (key, m)"
    "execute_session ops env (entry, key) (mark_started ops (entry, key) (initial_state s1)) = Inr (status, rs1)"
    "(if \<not> status_ok status then Inr (Some status, rs1) else run_loop ops its rs1) = Inr (st, rs)"
    using assms(3,5) s1 by (auto simp: pipeline_execute_def rbind_Inr_iff Let_def)
  have f: "ident ops s1 = ?f" using ident_kept(4) [OF s1] by simp
  then have "inv ?f [] (initial_state s1)" by (simp add: inv_def pending_def initial_state_def)
  then have "inv ?f [(entry, key)] (mark_started ops (entry, key) (initial_state s1))"
    by (rule mark_inv) (simp add: initial_state_def)
  note x = execute_inv [OF assms(1) this k(2)]
  have ok: "status = SC_OK"
    using k(2) assms(7) [OF s1] by (auto simp: execute_session_def rbind_Inr_iff mark_started_def initial_state_def)
  then have i: "inv ?f [] rs1" "rs_deferredNodeSessions rs1 = []" "rs_starts rs1 = [(entry, key)]"
    using x by (simp_all add: initial_state_def)
  have "?f ` set (rs_starts rs1) = set (rs_startedSessions rs1)" using i(1) unfolding inv_def by blast
  then have "set (rs_startedSessions rs1) \<noteq> {}" unfolding i(3) by force
  moreover have "rs_finishedSessions rs1 = []" using execute_sets [OF k(2)] by (simp add: mark_started_def initial_state_def)
  ultimately have "\<not> all_finished rs1" by (simp add: all_finished_def)
  then have "between ?f rs1" using i loop_inv_waiting by (simp add: between_def turn_ok_def)
  then show ?thesis using run_loop_ok [OF assms(2) _ _ assms(4)] k(3) ok by (simp add: status_ok_def)
qed

end

section \<open>The nodes of a pipeline\<close>

lemma put_session_name [simp]: "en_nodeName (put_session key s n) = en_nodeName n"
  by (simp add: put_session_def)

lemma erase_session_name [simp]: "en_nodeName (erase_session key n) = en_nodeName n"
  by (simp add: erase_session_def)

lemma update_name: "en_nodeName n = en_nodeName (nodes ! i) \<Longrightarrow> en_nodeName (nodes[i := n] ! j) = en_nodeName (nodes ! j)"
  by (cases "i < length nodes") (auto simp: nth_list_update list_update_beyond)

lemma getNodeSession_name: "getNodeSession metadata n = Inr (key, n') \<Longrightarrow> en_nodeName n' = en_nodeName n"
  by (auto simp: getNodeSession_def Let_def rbind_Inr_iff split: option.splits sum.splits if_splits)

lemma setInputs_result_name:
  assumes "setInputs_result env d inputs metadata n = Inr (status, n')"
  shows "en_nodeName n' = en_nodeName n"
proof -
  obtain mapping key_opt n1 where m: "map_at (en_tensorNamesMapping n) d = Inr mapping"
    "getNodeSession metadata n = Inr (key_opt, n1)"
    using assms by (auto simp: setInputs_result_def rbind_Inr_iff)
  have n1: "en_nodeName n1 = en_nodeName n" by (rule getNodeSession_name [OF m(2)])
  show ?thesis
  proof (cases key_opt)
    case None
    then show ?thesis using assms m n1 by (simp add: setInputs_result_def)
  next
    case (Some key)
    let ?shard = "getShardId metadata (case en_gatherFrom n1 of None \<Rightarrow> [] | Some names \<Rightarrow> names)"
    show ?thesis
    proof (cases ?shard)
      case (Inl e)
      then show ?thesis using assms m n1 Some by (simp add: setInputs_result_def)
    next
      case (Inr shardId)
      then obtain se where se: "session_at key n1 = Inr se"
        using assms m Some by (auto simp: setInputs_result_def rbind_Inr_iff)
      obtain st b where "set_mapped mapping inputs shardId (se_base se) = (st, b)" by fastforce
      then show ?thesis
        using assms m n1 Some Inr se
        by (auto simp: setInputs_result_def rbind_Inr_iff split: if_splits)
    qed
  qed
qed

lemma setInputs_name: "setInputs env d results n = Inr (status, n') \<Longrightarrow> en_nodeName n' = en_nodeName n"
  by (induction env d results n rule: setInputs.induct)
    (auto simp: rbind_Inr_iff split: if_splits dest: setInputs_result_name)

text \<open>Which status an execution has tells what it did to the queue.\<close>

lemma dl_validate_status:
  "dl_validate t info = Inr status \<Longrightarrow> status \<noteq> SC_PIPELINE_STREAM_ID_NOT_READY_YET"
  by (auto simp: dl_validate_def Let_def rbind_Inr_iff split: if_splits option.splits)

lemma validate_inputs_status:
  "validate_inputs info inputs = Inr status \<Longrightarrow> status \<noteq> SC_PIPELINE_STREAM_ID_NOT_READY_YET"
  by (induction info inputs rule: validate_inputs.induct)
    (auto simp: rbind_Inr_iff split: if_splits option.splits dest: dl_validate_status)

lemma request_status:
  "requestExecuteRequiredResources instance s = Inr (status, s') \<Longrightarrow>
     instance \<noteq> Inl SC_PIPELINE_STREAM_ID_NOT_READY_YET \<Longrightarrow> status \<noteq> SC_PIPELINE_STREAM_ID_NOT_READY_YET"
  by (auto simp: requestExecuteRequiredResources_def prepareInputsAndModelForInference_def Let_def rbind_Inr_iff
      split: sum.splits if_splits prod.splits dest: validate_inputs_status)

lemma set_tensors_status: "set_tensors throws model inputs \<noteq> SC_PIPELINE_STREAM_ID_NOT_READY_YET"
  by (induction throws model inputs rule: set_tensors.induct) (auto split: option.splits)

definition event_fits :: "StatusCode \<Rightarrow> effect \<Rightarrow> bool" where
  "event_fits status e \<longleftrightarrow>
     (status = SC_PIPELINE_STREAM_ID_NOT_READY_YET \<longleftrightarrow> e = NoEvent) \<and> (\<not> status_ok status \<longrightarrow> e \<noteq> InFlight)"

lemma dl_start_event: "dl_start env i key s = Inr (status, e, s') \<Longrightarrow> event_fits status e"
  using set_tensors_status
  by (auto simp: dl_start_def setInputsForInference_def executeInference_def Let_def rbind_Inr_iff event_fits_def
      status_ok_def split: option.splits if_splits prod.splits)

lemma dl_execute_event:
  "dl_execute env i key s = Inr (status, e, s') \<Longrightarrow> plain_answers env \<Longrightarrow> event_fits status e"
  by (auto simp: dl_execute_def rbind_Inr_iff plain_answers_def split: if_splits
      dest!: request_status dest: dl_start_event) (auto simp: event_fits_def)

lemma createTensor_status: "createTensor env ct = Inl status \<Longrightarrow> status \<noteq> SC_PIPELINE_STREAM_ID_NOT_READY_YET"
  by (auto simp: createTensor_def Let_def split: if_splits option.splits)

lemma collect_outputs_status:
  "collect_outputs env cts status out = (status', out') \<Longrightarrow> status \<noteq> SC_PIPELINE_STREAM_ID_NOT_READY_YET \<Longrightarrow>
     status' \<noteq> SC_PIPELINE_STREAM_ID_NOT_READY_YET"
  by (induction env cts status out rule: collect_outputs.induct)
    (auto split: option.splits sum.splits if_splits dest: createTensor_status)

lemma custom_execute_event: "custom_execute env i key s = (status, e, s') \<Longrightarrow> event_fits status e"
  by (auto simp: custom_execute_def Let_def event_fits_def split: if_splits option.splits prod.splits
      dest: collect_outputs_status)

lemma node_execute_cases:
  assumes "node_execute env i key nodes = Inr (status, e, nodes')"
  obtains (queue) "en_class (nodes ! i) = EntryNode \<or> en_class (nodes ! i) = ExitNode" "status = SC_OK" "e = PushEvent" "nodes' = nodes"
  | (model) s s' where "map_of (en_nodeSessions (nodes ! i)) key = Some s" "dl_execute env i key s = Inr (status, e, s')"
      "nodes' = nodes[i := put_session key s' (nodes ! i)]"
  | (library) s s' where "map_of (en_nodeSessions (nodes ! i)) key = Some s" "custom_execute env i key s = (status, e, s')"
      "nodes' = nodes[i := put_session key s' (nodes ! i)]"
proof (cases "en_class (nodes ! i)")
  case (DLNode aliases)
  then show thesis using assms model
    by (auto simp: node_execute_def rbind_Inr_iff session_at_def split: option.splits)
next
  case (CustomNode aliases)
  then obtain s where s: "map_of (en_nodeSessions (nodes ! i)) key = Some s"
    using assms by (auto simp: node_execute_def rbind_Inr_iff session_at_def split: option.splits)
  obtain st e' s' where "custom_execute env i key s = (st, e', s')" by (cases "custom_execute env i key s")
  then show thesis using assms s CustomNode library by (auto simp: node_execute_def session_at_def)
next
  case EntryNode
  then show thesis using assms by (intro queue) (simp_all add: node_execute_def)
next
  case ExitNode
  then show thesis using assms by (intro queue) (simp_all add: node_execute_def)
qed

lemma node_execute_event:
  assumes "node_execute env i key nodes = Inr (status, e, nodes')" "plain_answers env"
  shows "event_fits status e"
  using assms(1)
  by (cases rule: node_execute_cases)
    (use assms(2) in \<open>auto dest: dl_execute_event custom_execute_event simp: event_fits_def status_ok_def\<close>)

lemma node_execute_name:
  "node_execute env i key nodes = Inr (status, e, nodes') \<Longrightarrow> en_nodeName (nodes' ! j) = en_nodeName (nodes ! j)"
  by (erule node_execute_cases) (auto simp: update_name)

lemma fetchResults_name:
  "fetchResults env i key nodes = Inr (status, results, nodes') \<Longrightarrow> en_nodeName (nodes' ! j) = en_nodeName (nodes ! j)"
  by (auto simp: fetchResults_def rbind_Inr_iff update_name split: option.splits)

interpretation dag: node_interface dag_nodes plain_answers
proof unfold_locales
  fix env i k key m s s' status e j results rs b
  show "plain_answers env \<Longrightarrow> op_execute dag_nodes env i key s = Inr (status, e, s') \<Longrightarrow>
      (status = SC_PIPELINE_STREAM_ID_NOT_READY_YET \<longleftrightarrow> e = NoEvent) \<and> (\<not> status_ok status \<longrightarrow> e \<noteq> InFlight)"
    using node_execute_event [of env i key s status e s'] by (simp add: dag_nodes_def event_fits_def)
  show "op_execute dag_nodes env i key s = Inr (status, e, s') \<Longrightarrow> op_getName dag_nodes j s' = op_getName dag_nodes j s"
    using node_execute_name by (auto simp: dag_nodes_def)
  show "op_fetchResults dag_nodes env i key s = Inr (status, results, s') \<Longrightarrow>
      op_getName dag_nodes j s' = op_getName dag_nodes j s"
    using fetchResults_name by (auto simp: dag_nodes_def)
  show "op_setInputs dag_nodes env i k rs s = Inr (status, s') \<Longrightarrow> op_getName dag_nodes j s' = op_getName dag_nodes j s"
    by (auto simp: dag_nodes_def rbind_Inr_iff update_name dest!: setInputs_name)
  show "op_getNodeSession dag_nodes m i s = Inr (b, s') \<Longrightarrow> op_getName dag_nodes j s' = op_getName dag_nodes j s"
    by (auto simp: dag_nodes_def rbind_Inr_iff update_name dest!: getNodeSession_name)
  show "op_release dag_nodes i key s = Inr s' \<Longrightarrow> op_getName dag_nodes j s' = op_getName dag_nodes j s"
    by (auto simp: dag_nodes_def node_release_def rbind_Inr_iff update_name split: node_class.splits)
  show "op_tryDisarm dag_nodes env i key s = Inr (b, s') \<Longrightarrow> op_getName dag_nodes j s' = op_getName dag_nodes j s"
    by (auto simp: dag_nodes_def node_tryDisarm_def rbind_Inr_iff update_name split: node_class.splits)
  show "op_inference_done dag_nodes i key s = s' \<Longrightarrow> op_getName dag_nodes j s' = op_getName dag_nodes j s"
    by (auto simp: dag_nodes_def inference_done_def update_name split: option.splits)
qed

lemma entry_status:
  "en_class (nodes ! entry) = EntryNode \<Longrightarrow> node_execute env entry key nodes = Inr (status, e, nodes') \<Longrightarrow> status = SC_OK"
  by (simp add: node_execute_def)

section \<open>When an execution may return\<close>

lemma getNodeSession_class: "getNodeSession metadata n = Inr (key, n') \<Longrightarrow> en_class n' = en_class n"
  by (auto simp: getNodeSession_def Let_def rbind_Inr_iff split: option.splits sum.splits if_splits)

lemma dag_execute_turn:
  assumes "pipeline_execute dag_nodes entry context env its nodes = Inr (st, rs)"
    "plain_answers env" "\<forall>it\<in>set its. plain_answers (it_env it)" "en_class (nodes ! entry) = EntryNode"
    "entry < length nodes" "distinct (map (ident dag_nodes nodes) (rs_starts rs))" "rs_starts rs \<noteq> []"
    "snd context = ModelInfer"
  shows "dag.turn_ok (ident dag_nodes nodes) st rs"
proof (rule dag.execute_turn [OF assms(2,3,1,6,8,7)])
  fix m b s1 env' key status e s2
  assume "op_getNodeSession dag_nodes m entry nodes = Inr (b, s1)" and
    ex: "op_execute dag_nodes env' entry key s1 = Inr (status, e, s2)"
  then obtain n' where "s1 = nodes[entry := n']" "en_class n' = en_class (nodes ! entry)"
    by (auto simp: dag_nodes_def rbind_Inr_iff dest: getNodeSession_class)
  then have "en_class (s1 ! entry) = EntryNode" using assms(4,5) by simp
  then show "status = SC_OK" using ex entry_status by (simp add: dag_nodes_def)
qed

lemma execute_not_started:
  assumes "pipeline_execute ops entry context env its s = Inr (st, rs)" "rs_starts rs = [] \<or> snd context \<noteq> ModelInfer"
  shows "\<exists>s'. rs = initial_state s' \<and> st = Some SC_INTERNAL_ERROR"
proof (cases "snd context = ModelInfer")
  case True
  let ?m = "new_NodeSessionMetadata context"
  obtain found s1 where s1: "op_getNodeSession ops ?m entry s = Inr (found, s1)"
    using assms(1) True by (auto simp: pipeline_execute_def rbind_Inr_iff Let_def)
  show ?thesis
  proof (cases found)
    case False
    then show ?thesis using assms(1) True s1 by (auto simp: pipeline_execute_def Let_def)
  next
    case found: True
    obtain key m status rs1 where k: "getSessionKey ?m [] = Inr (key, m)"
      "execute_session ops env (entry, key) (mark_started ops (entry, key) (initial_state s1)) = Inr (status, rs1)"
      "(if \<not> status_ok status then Inr (Some status, rs1) else run_loop ops its rs1) = Inr (st, rs)"
      using assms(1) True s1 found by (auto simp: pipeline_execute_def rbind_Inr_iff Let_def)
    have "rs_starts rs1 = [(entry, key)]" using execute_starts [OF k(2)] by (simp add: mark_started_def initial_state_def)
    then have "rs_starts rs \<noteq> []" using k(3) run_loop_starts [of ops its rs1 st rs] by (auto split: if_splits)
    then show ?thesis using assms(2) True by simp
  qed
qed (use assms(1) in \<open>auto simp: pipeline_execute_def\<close>)

text \<open>
  C2: In a run in which no two sessions have the same text of node name and key (the event loop tells sessions
  apart by that text only) and no model instance answers with the status that stands for a missing stream,
  whatever else the models, libraries and callbacks answer and in whatever order inferences complete: an
  execution that returns has no event left, no inference whose callback is still to come, every started
  session is finished, and no session still waits for a stream unless an error is returned; and an
  execution that has not returned has an event, an inference or a deferred session to wait for.
\<close>

theorem execution_leaves_no_callback:
  assumes "pipeline_execute dag_nodes entry context env its nodes = Inr (st, rs)"
    "plain_answers env" "\<forall>it\<in>set its. plain_answers (it_env it)"
    "entry < length nodes" "en_class (nodes ! entry) = EntryNode"
    "distinct (map (ident dag_nodes nodes) (rs_starts rs))"
  shows "case st of
      Some s \<Rightarrow> rs_finishedNodeQueue rs = [] \<and> rs_inFlight rs = [] \<and>
        ident dag_nodes nodes ` set (rs_starts rs) = set (rs_finishedSessions rs) \<and>
        (status_ok s \<longrightarrow> rs_deferredNodeSessions rs = [])
    | None \<Rightarrow> rs_finishedNodeQueue rs \<noteq> [] \<or> rs_inFlight rs \<noteq> [] \<or> rs_deferredNodeSessions rs \<noteq> []"
proof (cases "rs_starts rs = [] \<or> snd context \<noteq> ModelInfer")
  case True
  then show ?thesis using execute_not_started [OF assms(1)] by (auto simp: initial_state_def status_ok_def)
next
  case False
  then have "dag.turn_ok (ident dag_nodes nodes) st rs" using dag_execute_turn [OF assms(1-3,5,4,6)] by simp
  then show ?thesis
    using dag.turn_ended [of "ident dag_nodes nodes" _ rs] dag.turn_waiting [of "ident dag_nodes nodes" rs]
    by (cases st) simp_all
qed

text \<open>
  A pipeline that cuts \<open>x\<close> in shards for the model of node \<open>a\<close> and hands it, uncut, to the model of a
  second node. The request has one shard, and every call succeeds.
\<close>

definition two_models :: "string \<Rightarrow> exec_node list outcome" where
  "two_models name =
     rbind (connect 0 1 [(''x'', ''x'')]
       [new_Node ''request'' EntryNode None [], new_Node ''d'' (CustomNode []) (Some 1) [], new_Node ''a'' (DLNode []) None [],
        new_Node name (DLNode []) None [], new_Node ''g'' (CustomNode []) None [''d''], new_Node ''response'' ExitNode None []]) (\<lambda>n.
     rbind (connect 1 2 [(''x'', ''x'')] n) (\<lambda>n. rbind (connect 2 4 [(''x'', ''x'')] n) (\<lambda>n.
     rbind (connect 4 5 [(''x'', ''x'')] n) (\<lambda>n. rbind (connect 0 3 [(''x'', ''x'')] n) (connect 3 5 [(''x'', ''y'')])))))"

definition vol_tensor :: "nat list \<Rightarrow> tensor" where
  "vol_tensor dims = \<lparr>tn_precision = E_u8, tn_shape = dims, tn_data = ''v''\<rparr>"

definition two_models_env :: environment where
  "two_models_env =
     \<lparr>env_element_size = \<lambda>_. 1,
      env_getModelInstance = \<lambda>i _.
        let info = new_TensorInfo_layout ''x'' U8 (replicate (if i = 2 then 2 else 3) dim_any) getUnspecifiedLayout
        in Inr \<lparr>mv_inputsInfo = [(''x'', info)], mv_outputsInfo = [(''x'', info)]\<rparr>,
      env_stream = \<lambda>_ _. Some 0,
      env_set_tensor_throws = \<lambda>_ _ _. False,
      env_start_async_throws = \<lambda>_ _. False,
      env_wait_throws = \<lambda>_ _. False,
      env_get_tensor = \<lambda>i _ _. Some (vol_tensor (if i = 2 then [1, 1] else [1, 1, 1])),
      env_tensorClone = Inr,
      env_library_execute = \<lambda>_ _ inputs.
        (0, Some (map (\<lambda>(n, t). \<lparr>ct_name = Some n, ct_data = Some (tn_data t), ct_dataBytes = 1, ct_dims = tn_shape t,
                                 ct_precision = CN_U8\<rparr>) inputs)),
      env_tensor_throws = \<lambda>_ _. False,
      env_request = Inr [(''x'', (vol_tensor [1, 1, 1], None))],
      env_response_buffer = \<lambda>_ _ n. Inr (Some (replicate n CHR 0x00)),
      env_serialize = \<lambda>_. SC_OK\<rparr>"

definition two_models_iteration :: "session_ref list \<Rightarrow> iteration" where
  "two_models_iteration completed = \<lparr>it_env = two_models_env, it_completed = completed, it_completed_before = \<lambda>_. []\<rparr>"


text \<open>The run of a pipeline: the status, the inferences in flight, and whether no two sessions have one text.\<close>

definition run_of ::
  "exec_node list outcome \<Rightarrow> session_ref list list \<Rightarrow> (StatusCode option \<times> session_ref list \<times> bool) outcome" where
  "run_of pipeline completed =
     rbind pipeline (\<lambda>nodes.
     rbind (pipeline_execute dag_nodes 0 (GRPC, ModelInfer) two_models_env (map two_models_iteration completed) nodes) (\<lambda>(st, rs).
       Inr (st, rs_inFlight rs, distinct (map (ident dag_nodes nodes) (rs_starts rs)))))"

definition one_model :: "exec_node list outcome" where
  "one_model =
     rbind (connect 0 1 [(''x'', ''x'')]
       [new_Node ''request'' EntryNode None [], new_Node ''a'' (DLNode []) None [], new_Node ''response'' ExitNode None []])
       (connect 1 2 [(''x'', ''y'')])"

definition one_model_iterations :: "iteration list" where
  "one_model_iterations = map two_models_iteration [[], [], [(1, [])], []]"

lemma one_model_run:
  "case one_model of
     Inr nodes \<Rightarrow> en_class (nodes ! 0) = EntryNode \<and> 0 < length nodes \<and>
       (case pipeline_execute dag_nodes 0 (GRPC, ModelInfer) two_models_env one_model_iterations nodes of
          Inr (st, rs) \<Rightarrow> st = Some SC_OK \<and> distinct (map (ident dag_nodes nodes) (rs_starts rs)) \<and>
            rs_starts rs = [(0, []), (1, []), (2, [])]
        | Inl _ \<Rightarrow> False)
   | Inl _ \<Rightarrow> False"
  by code_simp

lemma plain_two_models: "plain_answers two_models_env"
  by (simp add: plain_answers_def two_models_env_def Let_def)

lemma plain_one_model: "\<forall>it\<in>set one_model_iterations. plain_answers (it_env it)"
  using plain_two_models by (simp add: one_model_iterations_def two_models_iteration_def)

theorem execution_leaves_no_callback_witness:
  "\<exists>nodes rs. one_model = Inr nodes \<and>
     pipeline_execute dag_nodes 0 (GRPC, ModelInfer) two_models_env one_model_iterations nodes = Inr (Some SC_OK, rs) \<and>
     rs_inFlight rs = [] \<and> rs_deferredNodeSessions rs = [] \<and> rs_starts rs = [(0, []), (1, []), (2, [])]"
proof -
  have "\<exists>nodes rs. one_model = Inr nodes \<and> 0 < length nodes \<and> en_class (nodes ! 0) = EntryNode \<and>
      pipeline_execute dag_nodes 0 (GRPC, ModelInfer) two_models_env one_model_iterations nodes = Inr (Some SC_OK, rs) \<and>
      distinct (map (ident dag_nodes nodes) (rs_starts rs)) \<and> rs_starts rs = [(0, []), (1, []), (2, [])]"
    using one_model_run by (fastforce split: sum.splits prod.splits)
  then obtain nodes st rs where n: "one_model = Inr nodes"
    and r: "pipeline_execute dag_nodes 0 (GRPC, ModelInfer) two_models_env one_model_iterations nodes = Inr (st, rs)"
    and f: "st = Some SC_OK" "distinct (map (ident dag_nodes nodes) (rs_starts rs))" "rs_starts rs = [(0, []), (1, []), (2, [])]"
      "0 < length nodes" "en_class (nodes ! 0) = EntryNode"
    by blast
  from execution_leaves_no_callback [OF r plain_two_models plain_one_model f(4,5,2)] f(1,3) n r show ?thesis
    by (auto simp: status_ok_def)
qed

text \<open>
  Sessions are told apart by the text of node name and key alone. In the pipeline above with the
  second node named \<open>ad_0\<close>, its session without key and the session \<open>d_0\<close> of node \<open>a\<close> have one text: when
  the first has finished the execution returns success, without having run the exit, while the inference
  of the other is in flight and its callback will write to the queue of the execution that has ended.
\<close>

theorem colliding_names_return_early:
  "run_of (two_models ''ad_0'') [[], [], [(3, [])]] = Inr (Some SC_OK, [(2, ''d_0'')], False)"
  by code_simp

section \<open>The end after an error\<close>

lemma callbacks_move:
  "distinct (rs_inFlight rs) \<Longrightarrow>
     length (rs_finishedNodeQueue (callbacks ops cs rs)) + length (rs_inFlight (callbacks ops cs rs)) =
       length (rs_finishedNodeQueue rs) + length (rs_inFlight rs) \<and>
     set (rs_inFlight (callbacks ops cs rs)) = set (rs_inFlight rs) - set cs"
proof (induction cs arbitrary: rs)
  case (Cons c cs)
  show ?case
  proof (cases "c \<in> set (rs_inFlight rs)")
    case True
    then have "0 < length (rs_inFlight rs)" by auto
    then show ?thesis
      using True Cons.IH [of "callback ops c rs"] Cons.prems
      by (auto simp: callbacks_def callback_def length_remove1)
  qed (use Cons in \<open>auto simp: callbacks_def callback_def\<close>)
qed (simp add: callbacks_def)

lemma disarm_all:
  assumes "disarm_deferred ops env ds rs = Inr (kept, rs')" "\<forall>i key s s'. op_tryDisarm ops env i key s \<noteq> Inr (False, s')"
  shows "kept = []"
  using assms(1)
proof (induction ds arbitrary: rs kept)
  case (Cons r ds)
  obtain b s where "op_tryDisarm ops env (fst r) (snd r) (rs_nodes rs) = Inr (b, s)"
    using Cons.prems by (auto simp: rbind_Inr_iff)
  then show ?case using Cons assms(2) by (cases b) (auto simp: Let_def)
qed simp

text \<open>The environment lets every inference of \<open>C\<close> complete and gives every waiting session a stream.\<close>

definition helpful :: "session_ref list \<Rightarrow> iteration \<Rightarrow> bool" where
  "helpful C it \<longleftrightarrow> set C \<subseteq> set (it_completed it) \<and> (\<forall>i key. env_stream (it_env it) i key \<noteq> None)"

context node_interface
begin

lemma error_turn:
  assumes "good (it_env it)" "between f rs" "has_error rs" "loop_body ops it rs = Inr (None, rs')"
    "set (rs_inFlight rs) \<subseteq> set (it_completed it)" "\<forall>i key s s'. op_tryDisarm ops (it_env it) i key s \<noteq> Inr (False, s')"
    "distinct (map f (rs_starts rs))"
  shows "has_error rs' \<and> rs_inFlight rs' = [] \<and> rs_starts rs' = rs_starts rs \<and>
    length (rs_finishedNodeQueue rs') < length (rs_finishedNodeQueue rs) + length (rs_inFlight rs)"
proof -
  let ?c = "callbacks ops (it_completed it) rs"
  obtain W where W: "inv f W rs" using assms(2) by (auto simp: between_def turn_ok_def loop_inv_def)
  then have "distinct (rs_inFlight rs)" by (auto simp: inv_def pending_def distinct_map)
  then have c: "rs_inFlight ?c = []" "length (rs_finishedNodeQueue ?c) = length (rs_finishedNodeQueue rs) + length (rs_inFlight rs)"
  proof -
    note m = callbacks_move [OF \<open>distinct (rs_inFlight rs)\<close>, of ops "it_completed it"]
    have "set (rs_inFlight ?c) = {}" by (simp only: conjunct2 [OF m] Diff_eq_empty_iff assms(5))
    then show e: "rs_inFlight ?c = []" by simp
    show "length (rs_finishedNodeQueue ?c) = length (rs_finishedNodeQueue rs) + length (rs_inFlight rs)"
      using conjunct1 [OF m] unfolding e by simp
  qed
  note h = callbacks_inv [OF W, of "it_completed it"]
  show ?thesis
  proof (cases "rs_finishedNodeQueue ?c")
    case (Cons r queue)
    then show ?thesis
      using assms(3,4) c h
      by (auto simp: loop_body_def process_finished_def has_error_def Let_def rbind_Inr_iff break_if_finished_def)
  next
    case Nil
    then obtain kept rs1 where k: "disarm_deferred ops (it_env it) (rs_deferredNodeSessions ?c) ?c = Inr (kept, rs1)"
      "(if kept \<noteq> [] then Inr (None, rs1\<lparr>rs_deferredNodeSessions := kept\<rparr>)
        else break_if_finished (rs1\<lparr>rs_deferredNodeSessions := kept\<rparr>)) = Inr (None, rs')"
      using assms(3,4) h by (auto simp: loop_body_def no_event_def Let_def rbind_Inr_iff)
    have "kept = []" by (rule disarm_all [OF k(1) assms(6)])
    then have e: "rs' = rs1\<lparr>rs_deferredNodeSessions := []\<rparr>" using k(2) by (simp add: break_if_finished_def)
    have s: "rs_starts rs' = rs_starts rs" using disarm_deferred_fields [OF k(1)] h e by simp
    have "distinct (map f (rs_starts rs'))" using assms(7) s by simp
    then have "turn_ok f None rs'" by (rule loop_body_ok [OF assms(1,2,4)])
    from turn_waiting [OF this] have False using e disarm_deferred_fields [OF k(1)] Nil c by simp
    then show ?thesis ..
  qed
qed

end

context node_interface
begin

lemma error_drain:
  assumes "\<forall>it\<in>set its. good (it_env it) \<and> set (rs_inFlight rs) \<subseteq> set (it_completed it) \<and>
      (\<forall>i key s s'. op_tryDisarm ops (it_env it) i key s \<noteq> Inr (False, s'))"
    "between f rs" "has_error rs" "distinct (map f (rs_starts rs))"
    "length (rs_finishedNodeQueue rs) + length (rs_inFlight rs) < length its"
  shows "run_loop ops its rs \<noteq> Inr (None, rs')"
  using assms
proof (induction its arbitrary: rs)
  case (Cons it its)
  show ?case
  proof
    assume "run_loop ops (it # its) rs = Inr (None, rs')"
    then obtain rs1 where b: "loop_body ops it rs = Inr (None, rs1)" "run_loop ops its rs1 = Inr (None, rs')"
      by (auto simp: rbind_Inr_iff split: option.splits)
    have e: "has_error rs1 \<and> rs_inFlight rs1 = [] \<and> rs_starts rs1 = rs_starts rs \<and>
        length (rs_finishedNodeQueue rs1) < length (rs_finishedNodeQueue rs) + length (rs_inFlight rs)"
      using Cons.prems(1) by (intro error_turn [OF _ Cons.prems(2,3) b(1) _ _ Cons.prems(4)]) auto
    have "between f rs1"
      unfolding between_def by (rule loop_body_ok [OF _ Cons.prems(2) b(1)]) (use Cons.prems(1,4) e in auto)
    then show False using Cons.IH [of rs1] b(2) e Cons.prems by auto
  qed
qed simp

end

lemma stream_disarms:
  assumes "env_stream env i key \<noteq> None"
  shows "node_tryDisarm env i key nodes \<noteq> Inr (False, nodes')"
proof -
  obtain v where "env_stream env i key = Some v" using assms by auto
  then show ?thesis
    by (auto simp: node_tryDisarm_def dl_tryDisarm_def guard_tryDisarm_def rbind_Inr_iff split: node_class.splits option.splits if_splits)
qed

text \<open>
  C18: After a first error an execution ends: when every inference in flight completes and every session
  that waits gets its stream, the loop leaves, with the error or by an exception, after at most one
  iteration more than there are events and inferences.
\<close>

theorem execution_ends_after_an_error:
  assumes "pipeline_execute dag_nodes entry context env its nodes = Inr (None, rs)" "has_error rs"
    "plain_answers env" "\<forall>it\<in>set (its @ its'). plain_answers (it_env it)"
    "entry < length nodes" "en_class (nodes ! entry) = EntryNode"
    "distinct (map (ident dag_nodes nodes) (rs_starts rs))"
    "\<forall>it\<in>set its'. helpful (rs_inFlight rs) it"
    "length (rs_finishedNodeQueue rs) + length (rs_inFlight rs) < length its'"
  shows "run_loop dag_nodes its' rs \<noteq> Inr (None, rs')"
proof (cases "rs_starts rs = [] \<or> snd context \<noteq> ModelInfer")
  case True
  then show ?thesis using execute_not_started [OF assms(1)] by simp
next
  case False
  then have "dag.between (ident dag_nodes nodes) rs"
    using dag_execute_turn [OF assms(1,3) _ assms(6,5,7)] assms(4) by (simp add: dag.between_def)
  then show ?thesis
    by (rule dag.error_drain [OF _ _ assms(2,7,9), rotated])
      (use assms(4,8) stream_disarms in \<open>auto simp: helpful_def dag_nodes_def\<close>)
qed

definition no_model_env :: environment where
  "no_model_env = two_models_env\<lparr>env_getModelInstance := \<lambda>_ _. Inl SC_MODEL_MISSING\<rparr>"

definition no_model_iteration :: iteration where
  "no_model_iteration = \<lparr>it_env = no_model_env, it_completed = [], it_completed_before = \<lambda>_. []\<rparr>"

lemma no_model_run:
  "case one_model of
     Inr nodes \<Rightarrow> en_class (nodes ! 0) = EntryNode \<and> 0 < length nodes \<and>
       (case pipeline_execute dag_nodes 0 (GRPC, ModelInfer) no_model_env [no_model_iteration] nodes of
          Inr (st, rs) \<Rightarrow> st = None \<and> rs_firstErrorStatus rs = SC_MODEL_MISSING \<and>
            distinct (map (ident dag_nodes nodes) (rs_starts rs)) \<and> rs_inFlight rs = [] \<and> rs_finishedNodeQueue rs = [(1, [])]
        | Inl _ \<Rightarrow> False)
   | Inl _ \<Rightarrow> False"
  by code_simp

lemma execution_ends_after_an_error_witness:
  "\<exists>nodes rs. one_model = Inr nodes \<and>
     pipeline_execute dag_nodes 0 (GRPC, ModelInfer) no_model_env [no_model_iteration] nodes = Inr (None, rs) \<and>
     rs_firstErrorStatus rs = SC_MODEL_MISSING \<and>
     (\<forall>rs'. run_loop dag_nodes [no_model_iteration, no_model_iteration] rs \<noteq> Inr (None, rs'))"
proof -
  let ?its = "[no_model_iteration, no_model_iteration]"
  have plain: "plain_answers no_model_env" by (simp add: plain_answers_def no_model_env_def)
  have "\<exists>nodes rs. one_model = Inr nodes \<and> 0 < length nodes \<and> en_class (nodes ! 0) = EntryNode \<and>
      pipeline_execute dag_nodes 0 (GRPC, ModelInfer) no_model_env [no_model_iteration] nodes = Inr (None, rs) \<and>
      rs_firstErrorStatus rs = SC_MODEL_MISSING \<and>
      distinct (map (ident dag_nodes nodes) (rs_starts rs)) \<and> rs_inFlight rs = [] \<and> rs_finishedNodeQueue rs = [(1, [])]"
    using no_model_run by (fastforce split: sum.splits prod.splits)
  then obtain nodes rs where n: "one_model = Inr nodes"
    and r: "pipeline_execute dag_nodes 0 (GRPC, ModelInfer) no_model_env [no_model_iteration] nodes = Inr (None, rs)"
    and f: "rs_firstErrorStatus rs = SC_MODEL_MISSING" "distinct (map (ident dag_nodes nodes) (rs_starts rs))"
      "rs_inFlight rs = []" "rs_finishedNodeQueue rs = [(1, [])]" "0 < length nodes" "en_class (nodes ! 0) = EntryNode"
    by blast
  have p: "\<forall>it\<in>set ([no_model_iteration] @ ?its). plain_answers (it_env it)"
    using plain by (simp add: no_model_iteration_def)
  have h: "\<forall>it\<in>set ?its. helpful (rs_inFlight rs) it"
    by (simp add: helpful_def f(3) no_model_iteration_def no_model_env_def two_models_env_def)
  have e: "has_error rs" using f(1) by (simp add: has_error_def status_ok_def)
  have l: "length (rs_finishedNodeQueue rs) + length (rs_inFlight rs) < length ?its" by (simp add: f)
  have "run_loop dag_nodes ?its rs \<noteq> Inr (None, rs')" for rs'
    by (rule execution_ends_after_an_error [OF r e plain p f(5,6,2) h l])
  with n r f(1) show ?thesis by blast
qed

end
