(* ===== verification/Partial_Json.thy ===== *)
theory Partial_Json
  imports Ovms_Prelude
begin

text \<open>
  The builder of JSON documents from the chunks of a generation
  (\<open>src/llm/io_processing/partial_json_builder.hpp\<close> and \<open>.cpp\<close>): the scanner with its stack
  of open brackets and strings, the return to the last separator, the closing of an
  unfinished text, and the difference of two documents. The parser of complete texts is
  rapidjson's and a parameter; a vector used as a stack is a list whose head is the back.
\<close>

section \<open>Documents\<close>

text \<open>
  A value of rapidjson's document model; the number type is opaque to the code. The members
  of an object are kept in order, \<open>HasMember\<close> and \<open>operator[]\<close> look at the first with the name.
\<close>

datatype 'n json =
    JNull
  | JBool bool
  | JNumber 'n
  | JString string
  | JArray "'n json list"
  | JObject "(string \<times> 'n json) list"

type_synonym 'n members = "(string \<times> 'n json) list"

text \<open>A \<open>std::string\<close> made from the characters of \<open>GetString\<close> ends at the first NUL byte.\<close>

definition c_str :: "string \<Rightarrow> string" where
  "c_str s = takeWhile (\<lambda>c. c \<noteq> CHR 0x00) s"

text \<open>\<open>computeDeltaImpl\<close>: what one member of the current object adds to the difference.\<close>

function computeDeltaImpl :: "'n members \<Rightarrow> 'n members \<Rightarrow> 'n members" where
  "computeDeltaImpl previous [] = []"
| "computeDeltaImpl previous ((name, value) # current) =
     (case map_of previous name of
        None \<Rightarrow> [(name, value)]
      | Some JNull \<Rightarrow> [(name, value)]
      | Some (JObject old) \<Rightarrow>
          (case value of
             JObject new \<Rightarrow>
               (let nested = computeDeltaImpl old new
                in if nested = [] then [] else [(name, JObject nested)])
           | _ \<Rightarrow> [])
      | Some (JArray old) \<Rightarrow>
          (case value of
             JArray new \<Rightarrow>
               (if length old < length new then [(name, JArray (drop (length old) new))] else [])
           | _ \<Rightarrow> [])
      | Some (JString old) \<Rightarrow>
          (case value of
             JString new \<Rightarrow>
               (if old \<noteq> new \<and> length (c_str old) < length (c_str new)
                then [(name, JString (drop (length (c_str old)) (c_str new)))] else [])
           | _ \<Rightarrow> [])
      | Some _ \<Rightarrow> [])
     @ computeDeltaImpl previous current"
  by pat_completeness auto
termination
  by (relation "measure (\<lambda>(p, c). size_list (size_prod (\<lambda>_. 0) size) c)") auto

declare computeDeltaImpl.simps [simp del]

text \<open>
  \<open>PartialJsonBuilder::computeDelta\<close>; \<open>GetObject\<close> of a value that is no object is an assertion
  of rapidjson.
\<close>

definition computeDelta :: "'n json \<Rightarrow> 'n json \<Rightarrow> 'n json result" where
  "computeDelta previous current =
     (case (previous, current) of
        (JObject p, JObject c) \<Rightarrow> Inr (JObject (computeDeltaImpl p c))
      | _ \<Rightarrow> Inl (LogicError ''IsObject()''))"

section \<open>The scanner\<close>

datatype IteratorState =
    BEGIN_STATE
  | AWAITING_KEY
  | PROCESSING_KEY
  | AWAITING_COLON
  | AWAITING_VALUE
  | PROCESSING_NUMBER
  | PROCESSING_KEYWORD
  | PROCESSING_STRING
  | PROCESSING_OBJECT
  | PROCESSING_ARRAY
  | AWAITING_ARRAY_ELEMENT
  | END_STATE

record LastSeparatorInfo =
  sep_position :: nat
  sep_state :: IteratorState

record PartialJsonBuilder =
  pj_buffer :: string
  currentPosition :: nat
  pj_state :: IteratorState
  lastSeparator :: LastSeparatorInfo
  openCloseStack :: "(char \<times> nat) list"

definition new_PartialJsonBuilder :: PartialJsonBuilder where
  "new_PartialJsonBuilder =
     \<lparr>pj_buffer = [], currentPosition = 0, pj_state = BEGIN_STATE,
      lastSeparator = \<lparr>sep_position = 0, sep_state = BEGIN_STATE\<rparr>, openCloseStack = []\<rparr>"

text \<open>\<open>PartialJsonBuilder::clear\<close>\<close>

definition pj_clear :: "PartialJsonBuilder \<Rightarrow> PartialJsonBuilder" where
  "pj_clear b =
     b\<lparr>pj_buffer := [], currentPosition := 0, pj_state := BEGIN_STATE,
       lastSeparator := \<lparr>sep_position = 0, sep_state = BEGIN_STATE\<rparr>, openCloseStack := []\<rparr>"

text \<open>The characters a state refuses, with the texts of the exceptions.\<close>

definition quote_char :: char where "quote_char = CHR 0x22"
definition backslash_char :: char where "backslash_char = CHR 0x5C"

definition refused :: "IteratorState \<Rightarrow> char \<Rightarrow> exn option" where
  "refused s c =
     (if s = BEGIN_STATE \<and> c \<noteq> CHR ''{'' \<and> c \<noteq> CHR ''['' then
        Some (RuntimeError ''Invalid JSON: Expected '{' or '[' at the beginning.'')
      else if s = AWAITING_KEY \<and> c \<noteq> quote_char \<and> c \<noteq> CHR ''}'' then
        Some (RuntimeError ''Invalid JSON: Expected key to start with a quote or a proper object closure.'')
      else if s = AWAITING_COLON \<and> c \<noteq> CHR '':'' then
        Some (RuntimeError ''Invalid JSON: Expected ':' after key.'')
      else if s = AWAITING_VALUE \<and> c \<noteq> CHR ''{'' \<and> c \<noteq> CHR ''['' \<and> c \<noteq> quote_char \<and> \<not> is_digit c \<and>
              c \<noteq> CHR ''t'' \<and> c \<noteq> CHR ''f'' \<and> c \<noteq> CHR ''n'' then
        Some (RuntimeError
          ''Invalid JSON: Expected value to start with '{', '[', '\"', digit, 't', 'f', or 'n'.'')
      else None)"

text \<open>The first character of a value tells a keyword from the rest.\<close>

definition value_state :: "IteratorState \<Rightarrow> char \<Rightarrow> IteratorState" where
  "value_state s c =
     (if s = AWAITING_VALUE \<or> s = AWAITING_ARRAY_ELEMENT \<or> s = PROCESSING_ARRAY
      then if c = CHR ''t'' \<or> c = CHR ''f'' \<or> c = CHR ''n'' then PROCESSING_KEYWORD else PROCESSING_NUMBER
      else s)"

definition back_is :: "char \<Rightarrow> (char \<times> nat) list \<Rightarrow> bool" where
  "back_is c st \<longleftrightarrow> (case st of [] \<Rightarrow> False | (d, _) # _ \<Rightarrow> d = c)"

definition enclosing_state :: "(char \<times> nat) list \<Rightarrow> IteratorState \<Rightarrow> IteratorState" where
  "enclosing_state st s =
     (if back_is (CHR ''{'') st then PROCESSING_OBJECT
      else if back_is (CHR ''['') st then PROCESSING_ARRAY else s)"

text \<open>A closing bracket: it is ignored unless it matches the back of the stack.\<close>

definition close_bracket :: "char \<Rightarrow> PartialJsonBuilder \<Rightarrow> PartialJsonBuilder" where
  "close_bracket open_char b =
     (if back_is open_char (openCloseStack b)
      then let st = tl (openCloseStack b)
           in b\<lparr>openCloseStack := st,
                pj_state := (if st = [] then END_STATE else enclosing_state st (pj_state b))\<rparr>
      else b)"

definition comma :: "PartialJsonBuilder \<Rightarrow> PartialJsonBuilder" where
  "comma b =
     b\<lparr>lastSeparator := \<lparr>sep_position = currentPosition b, sep_state = pj_state b\<rparr>,
       pj_state := (if back_is (CHR ''{'') (openCloseStack b) then AWAITING_KEY
                    else if back_is (CHR ''['') (openCloseStack b) then AWAITING_ARRAY_ELEMENT
                    else pj_state b)\<rparr>"

definition push_open :: "char \<Rightarrow> IteratorState \<Rightarrow> PartialJsonBuilder \<Rightarrow> PartialJsonBuilder" where
  "push_open c s b = b\<lparr>openCloseStack := (c, currentPosition b) # openCloseStack b, pj_state := s\<rparr>"

text \<open>One character outside a string or a key.\<close>

definition structural_char :: "char \<Rightarrow> PartialJsonBuilder \<Rightarrow> PartialJsonBuilder" where
  "structural_char c b =
     (let b' = b\<lparr>pj_state := value_state (pj_state b) c\<rparr>
      in if c = CHR ''{'' then push_open c AWAITING_KEY b'
         else if c = CHR ''['' then push_open c PROCESSING_ARRAY b'
         else if c = CHR ''}'' then close_bracket (CHR ''{'') b'
         else if c = CHR '']'' then close_bracket (CHR ''['') b'
         else if c = CHR '':'' then b'\<lparr>pj_state := AWAITING_VALUE\<rparr>
         else if c = CHR '','' then comma b'
         else if c = quote_char then
           (if pj_state b' = AWAITING_KEY then b'\<lparr>pj_state := PROCESSING_KEY\<rparr>
            else push_open quote_char PROCESSING_STRING b')
         else b')"

text \<open>The run of backslashes that ends the text \<open>before\<close>.\<close>

definition backslashes :: "string \<Rightarrow> nat" where
  "backslashes before = length (takeWhile (\<lambda>c. c = backslash_char) (rev before))"

text \<open>An unescaped quote ends the key or the string.\<close>

definition closing_quote :: "PartialJsonBuilder \<Rightarrow> PartialJsonBuilder" where
  "closing_quote b =
     (if pj_state b = PROCESSING_KEY then b\<lparr>pj_state := AWAITING_COLON\<rparr>
      else let st = tl (openCloseStack b)
           in b\<lparr>openCloseStack := st, pj_state := enclosing_state st (pj_state b)\<rparr>)"

text \<open>
  The body of the loop of \<open>add\<close> for the character \<open>c\<close> after the text \<open>before\<close>: the new
  builder and \<open>finishedWithEscapeCharacter\<close>.
\<close>

definition scan_char :: "string \<Rightarrow> char \<Rightarrow> PartialJsonBuilder \<Rightarrow> (PartialJsonBuilder \<times> bool) result" where
  "scan_char before c b =
     (if pj_state b \<noteq> PROCESSING_STRING \<and> pj_state b \<noteq> PROCESSING_KEY then
        (if is_space c then Inr (b, False)
         else case refused (pj_state b) c of
                Some e \<Rightarrow> Inl e
              | None \<Rightarrow> Inr (structural_char c b, False))
      else if c = quote_char then
        (if odd (backslashes before) then Inr (b, False) else Inr (closing_quote b, False))
      else if c = backslash_char then Inr (b, odd (Suc (backslashes before)))
      else Inr (b, False))"

definition advance :: "PartialJsonBuilder \<Rightarrow> PartialJsonBuilder" where
  "advance b = b\<lparr>currentPosition := Suc (currentPosition b)\<rparr>"

text \<open>The loop over the new part of the buffer.\<close>

fun scan_loop :: "string \<Rightarrow> bool \<Rightarrow> PartialJsonBuilder \<Rightarrow> PartialJsonBuilder \<times> bool result" where
  "scan_loop [] esc b = (b, Inr esc)"
| "scan_loop (c # cs) esc b =
     (if pj_state b = END_STATE then (b, Inr esc)
      else case scan_char (take (currentPosition b) (pj_buffer b)) c b of
             Inl e \<Rightarrow> (b, Inl e)
           | Inr (b', esc') \<Rightarrow> scan_loop cs esc' (advance b'))"

section \<open>Closing the text\<close>

definition awaits_rest :: "IteratorState \<Rightarrow> bool" where
  "awaits_rest s \<longleftrightarrow>
     s = AWAITING_KEY \<or> s = PROCESSING_KEY \<or> s = AWAITING_COLON \<or> s = AWAITING_ARRAY_ELEMENT \<or> s = PROCESSING_KEYWORD"

text \<open>Back to the last separator, so that the rejected part is scanned again with the next chunk.\<close>

definition restart :: "PartialJsonBuilder \<Rightarrow> PartialJsonBuilder" where
  "restart b =
     b\<lparr>openCloseStack := dropWhile (\<lambda>(c, p). sep_position (lastSeparator b) \<le> p) (openCloseStack b),
       currentPosition := sep_position (lastSeparator b), pj_state := sep_state (lastSeparator b)\<rparr>"

text \<open>The text before the closing brackets, and the builder it leaves.\<close>

definition trimmed_input :: "bool \<Rightarrow> PartialJsonBuilder \<Rightarrow> PartialJsonBuilder \<times> string" where
  "trimmed_input esc b =
     (let text' = pj_buffer b
      in if pj_state b = AWAITING_VALUE then (b, text' @ ''null'')
         else if awaits_rest (pj_state b) then
           (if sep_position (lastSeparator b) < length text'
            then (restart b, take (sep_position (lastSeparator b)) text') else (b, text'))
         else if pj_state b = PROCESSING_STRING \<and> esc \<or>
                 pj_state b = PROCESSING_NUMBER \<and> last text' = CHR ''.''
         then (b, butlast text') else (b, text'))"

definition closer :: "char \<Rightarrow> string" where
  "closer c = (if c = CHR ''{'' then [CHR ''}''] else if c = CHR ''['' then [CHR '']'']
               else if c = quote_char then [quote_char] else [])"

definition closers :: "(char \<times> nat) list \<Rightarrow> string" where
  "closers st = concat (map (\<lambda>(c, p). closer c) st)"

definition close_up ::
    "(string \<Rightarrow> 'n json option) \<Rightarrow> bool \<Rightarrow> PartialJsonBuilder \<Rightarrow> PartialJsonBuilder \<times> 'n json result" where
  "close_up parse esc b =
     (if pj_state b = END_STATE \<and> openCloseStack b = [] then
        (b, case parse (if currentPosition b = length (pj_buffer b) then c_str (pj_buffer b)
                        else take (currentPosition b) (pj_buffer b)) of
              None \<Rightarrow> Inl (RuntimeError (''Invalid JSON. Content:'' @ [CHR 0x0A] @ pj_buffer b))
            | Some d \<Rightarrow> Inr d)
      else if pj_state b = BEGIN_STATE then (b, Inr (JObject []))
      else case trimmed_input esc b of
             (b', input) \<Rightarrow>
               let closedInput = input @ closers (openCloseStack b')
               in (b', if closedInput = [] then Inr (JObject [])
                       else case parse (c_str closedInput) of
                              None \<Rightarrow> Inl (RuntimeError
                                (''Invalid JSON. Content with closure attempt:'' @ [CHR 0x0A] @ closedInput
                                 @ [CHR 0x0A] @ ''Original content:'' @ [CHR 0x0A] @ pj_buffer b'))
                            | Some d \<Rightarrow> Inr d))"

text \<open>\<open>PartialJsonBuilder::add\<close>\<close>

definition pj_add ::
    "(string \<Rightarrow> 'n json option) \<Rightarrow> string \<Rightarrow> PartialJsonBuilder \<Rightarrow> PartialJsonBuilder \<times> 'n json result" where
  "pj_add parse chunk b =
     (let b1 = b\<lparr>pj_buffer := pj_buffer b @ chunk\<rparr>
      in case scan_loop (drop (currentPosition b1) (pj_buffer b1)) False b1 of
           (b2, Inl e) \<Rightarrow> (b2, Inl e)
         | (b2, Inr esc) \<Rightarrow> close_up parse esc b2)"

definition isComplete :: "PartialJsonBuilder \<Rightarrow> bool" where
  "isComplete b \<longleftrightarrow> pj_state b = END_STATE"

definition getUnprocessedBuffer :: "PartialJsonBuilder \<Rightarrow> string" where
  "getUnprocessedBuffer b =
     (if currentPosition b < length (pj_buffer b) then drop (currentPosition b) (pj_buffer b) else [])"

section \<open>The state of a builder\<close>

lemmas pj_chars = quote_char_def backslash_char_def

lemma back_is_simps [simp]:
  "\<not> back_is c []"
  "back_is c (x # st) \<longleftrightarrow> fst x = c"
  by (auto simp: back_is_def split: prod.splits)

lemma back_is_iff: "back_is c st \<longleftrightarrow> (\<exists>p rest. st = (c, p) # rest)"
  by (cases st) auto

text \<open>
  What holds of every builder: the positions are inside the buffer and fall from the back of
  the stack to its front, only the back can be a quote, and it is one exactly while a string is
  scanned, after the last separator; a finished builder has nothing open; a separator never lies
  in a string or a key.
\<close>

definition brackets :: "(char \<times> nat) list \<Rightarrow> bool" where
  "brackets st \<longleftrightarrow> (\<forall>(c, p) \<in> set st. c = CHR ''{'' \<or> c = CHR ''['')"

definition open_ok :: "PartialJsonBuilder \<Rightarrow> bool" where
  "open_ok b \<longleftrightarrow>
     (if pj_state b = PROCESSING_STRING
      then back_is quote_char (openCloseStack b) \<and>
           sep_position (lastSeparator b) \<le> snd (hd (openCloseStack b)) \<and>
           brackets (tl (openCloseStack b))
      else brackets (openCloseStack b))"

definition open_brackets :: "PartialJsonBuilder \<Rightarrow> (char \<times> nat) list" where
  "open_brackets b =
     (if pj_state b = PROCESSING_STRING then tl (openCloseStack b) else openCloseStack b)"

definition separator_ok :: "PartialJsonBuilder \<Rightarrow> bool" where
  "separator_ok b \<longleftrightarrow>
     sep_position (lastSeparator b) \<le> currentPosition b \<and>
     sep_state (lastSeparator b) \<notin> {PROCESSING_STRING, PROCESSING_KEY, END_STATE} \<and>
     (if sep_state (lastSeparator b) = BEGIN_STATE then sep_position (lastSeparator b) = 0
      else openCloseStack b \<noteq> [] \<longrightarrow> snd (last (openCloseStack b)) < sep_position (lastSeparator b))"

definition builder_ok :: "PartialJsonBuilder \<Rightarrow> bool" where
  "builder_ok b \<longleftrightarrow>
     sorted_wrt (>) (map snd (openCloseStack b)) \<and>
     (\<forall>(c, p) \<in> set (openCloseStack b). p < currentPosition b) \<and>
     open_ok b \<and> separator_ok b \<and>
     (open_brackets b = [] \<longleftrightarrow> pj_state b \<in> {BEGIN_STATE, END_STATE}) \<and>
     (pj_state b = BEGIN_STATE \<longrightarrow> sep_state (lastSeparator b) = BEGIN_STATE)"

lemma brackets_simps [simp]:
  "brackets []"
  "brackets (x # st) \<longleftrightarrow> (fst x = CHR ''{'' \<or> fst x = CHR ''['') \<and> brackets st"
  by (auto simp: brackets_def split: prod.splits)

lemma brackets_tl: "brackets st \<Longrightarrow> brackets (tl st)"
  by (cases st) auto

lemma enclosing_state_brackets:
  "brackets st \<Longrightarrow> st \<noteq> [] \<Longrightarrow> enclosing_state st s \<in> {PROCESSING_OBJECT, PROCESSING_ARRAY}"
  by (cases st) (auto simp: enclosing_state_def)

lemmas builder_defs = builder_ok_def separator_ok_def open_brackets_def open_ok_def

lemma builder_ok_advance:
  "builder_ok b \<Longrightarrow> builder_ok (advance b)"
  by (auto simp: builder_defs advance_def)

lemma new_builder_ok: "builder_ok new_PartialJsonBuilder"
  by (simp add: builder_defs new_PartialJsonBuilder_def)

lemma clear_is_new: "pj_clear b = new_PartialJsonBuilder"
  by (simp add: pj_clear_def new_PartialJsonBuilder_def)

lemma builder_ok_buffer [simp]: "builder_ok (b\<lparr>pj_buffer := x\<rparr>) = builder_ok b"
  by (simp add: builder_defs)

text \<open>Leaving the stack alone keeps everything as long as the state is no special one.\<close>

lemma builder_ok_state:
  assumes "builder_ok b" "pj_state b \<notin> {PROCESSING_STRING, BEGIN_STATE, END_STATE}"
    and "t \<notin> {PROCESSING_STRING, BEGIN_STATE, END_STATE}"
  shows "builder_ok (b\<lparr>pj_state := t\<rparr>)"
  using assms by (simp add: builder_defs)

lemma value_state_cases:
  "value_state s c = s \<or> value_state s c \<in> {PROCESSING_KEYWORD, PROCESSING_NUMBER} \<and> s \<noteq> BEGIN_STATE"
  by (auto simp: value_state_def)

lemma push_open_ok:
  assumes "builder_ok b" "pj_state b \<notin> {PROCESSING_STRING, END_STATE}"
    and "c = CHR ''{'' \<or> c = CHR ''['' \<or> c = quote_char \<and> pj_state b \<noteq> BEGIN_STATE"
    and "s \<notin> {BEGIN_STATE, END_STATE}" "s = PROCESSING_STRING \<longleftrightarrow> c = quote_char"
  shows "builder_ok (advance (push_open c s b))"
  using assms
  by (auto simp: builder_defs push_open_def advance_def less_Suc_eq quote_char_def
      split: if_splits)

text \<open>Taking the back off the stack, for a closed bracket or a closed string.\<close>

lemma pop_ok:
  assumes ok: "builder_ok b" and st: "openCloseStack b = x # st"
    and s: "pj_state b \<noteq> END_STATE" "pj_state b = PROCESSING_STRING \<Longrightarrow> st \<noteq> []"
    and t: "t \<noteq> PROCESSING_STRING" "t \<noteq> BEGIN_STATE" "t = END_STATE \<longleftrightarrow> st = []"
  shows "builder_ok (b\<lparr>openCloseStack := st, pj_state := t\<rparr>)"
proof -
  have "separator_ok (b\<lparr>openCloseStack := st, pj_state := t\<rparr>)"
    using ok st by (auto simp: builder_ok_def separator_ok_def split: if_splits)
  moreover have "brackets st"
    using ok st by (auto simp: builder_ok_def open_ok_def split: if_splits)
  moreover have "pj_state b \<noteq> BEGIN_STATE"
    using ok st by (auto simp: builder_ok_def open_brackets_def)
  ultimately show ?thesis
    using ok st t by (auto simp: builder_ok_def open_ok_def open_brackets_def)
qed

lemma close_bracket_ok:
  assumes ok: "builder_ok b" and s: "pj_state b \<notin> {PROCESSING_STRING, END_STATE}"
  shows "builder_ok (close_bracket c b)"
proof (cases "back_is c (openCloseStack b)")
  case True
  then obtain p st where st: "openCloseStack b = (c, p) # st" by (auto simp: back_is_iff)
  then have "brackets st" using ok s by (auto simp: builder_ok_def open_ok_def)
  then have "enclosing_state st (pj_state b) \<notin> {PROCESSING_STRING, BEGIN_STATE, END_STATE}" if "st \<noteq> []"
    using enclosing_state_brackets [of st "pj_state b"] that by auto
  then have "builder_ok (b\<lparr>openCloseStack := st,
      pj_state := (if st = [] then END_STATE else enclosing_state st (pj_state b))\<rparr>)"
    using s by (intro pop_ok [OF ok st]) simp_all
  then show ?thesis using True st by (simp add: close_bracket_def)
qed (use assms in \<open>simp add: close_bracket_def\<close>)

lemma last_position_less:
  assumes "builder_ok b" "openCloseStack b \<noteq> []"
  shows "snd (last (openCloseStack b)) < currentPosition b"
proof -
  have "\<forall>x \<in> set (openCloseStack b). snd x < currentPosition b"
    using assms(1) by (auto simp: builder_ok_def)
  with assms(2) show ?thesis by simp
qed

lemma comma_ok:
  assumes ok: "builder_ok b"
    and s: "pj_state b \<notin> {BEGIN_STATE, PROCESSING_STRING, PROCESSING_KEY, END_STATE}"
  shows "builder_ok (advance (comma b))"
proof -
  have "openCloseStack b \<noteq> []" using ok s by (auto simp: builder_ok_def open_brackets_def)
  with last_position_less [OF ok this] show ?thesis
    using ok s by (auto simp: builder_defs comma_def advance_def less_SucI)
qed

lemma structural_char_ok:
  assumes ok: "builder_ok b" and s: "pj_state b \<notin> {PROCESSING_STRING, PROCESSING_KEY, END_STATE}"
    and begins: "refused (pj_state b) c = None"
  shows "builder_ok (advance (structural_char c b))"
proof -
  define b' where "b' = b\<lparr>pj_state := value_state (pj_state b) c\<rparr>"
  have s': "pj_state b' \<notin> {PROCESSING_STRING, PROCESSING_KEY, END_STATE}"
    using value_state_cases [of "pj_state b" c] s by (auto simp: b'_def)
  have ok': "builder_ok b'"
    using ok s value_state_cases [of "pj_state b" c]
    by (auto simp: b'_def intro: builder_ok_state)
  have start: "c = CHR ''{'' \<or> c = CHR ''[''" if "pj_state b' = BEGIN_STATE"
    using that begins value_state_cases [of "pj_state b" c]
    by (auto simp: b'_def refused_def split: if_splits)
  have other: "builder_ok (advance (b'\<lparr>pj_state := t\<rparr>))"
    if "t \<notin> {PROCESSING_STRING, BEGIN_STATE, END_STATE}" "pj_state b' \<noteq> BEGIN_STATE" for t
    using ok' s' that by (intro builder_ok_advance builder_ok_state) auto
  consider (obj) "c = CHR ''{''" | (arr) "c = CHR ''[''" | (eobj) "c = CHR ''}''" | (earr) "c = CHR '']''"
    | (colon) "c = CHR '':''" | (com) "c = CHR '',''" | (quo) "c = quote_char"
    | (oth) "c \<notin> {CHR ''{'', CHR ''['', CHR ''}'', CHR '']'', CHR '':'', CHR '','', quote_char}"
    by auto
  then show ?thesis
  proof cases
    case obj
    then have "structural_char c b = push_open c AWAITING_KEY b'" by (simp add: structural_char_def b'_def)
    then show ?thesis using obj s' by (auto intro!: push_open_ok ok' simp: quote_char_def)
  next
    case arr
    then have "structural_char c b = push_open c PROCESSING_ARRAY b'" by (simp add: structural_char_def b'_def)
    then show ?thesis using arr s' by (auto intro!: push_open_ok ok' simp: quote_char_def)
  next
    case eobj
    then have "structural_char c b = close_bracket (CHR ''{'') b'" by (simp add: structural_char_def b'_def)
    then show ?thesis using s' by (auto intro!: builder_ok_advance close_bracket_ok ok')
  next
    case earr
    then have "structural_char c b = close_bracket (CHR ''['') b'" by (simp add: structural_char_def b'_def)
    then show ?thesis using s' by (auto intro!: builder_ok_advance close_bracket_ok ok')
  next
    case colon
    then have "structural_char c b = b'\<lparr>pj_state := AWAITING_VALUE\<rparr>" by (simp add: structural_char_def b'_def)
    then show ?thesis using other start colon by auto
  next
    case com
    then have "structural_char c b = comma b'" by (simp add: structural_char_def b'_def)
    then show ?thesis using com s' start by (auto intro!: comma_ok ok')
  next
    case quo
    then have "structural_char c b =
        (if pj_state b' = AWAITING_KEY then b'\<lparr>pj_state := PROCESSING_KEY\<rparr>
         else push_open quote_char PROCESSING_STRING b')"
      by (simp add: structural_char_def b'_def quote_char_def)
    then show ?thesis
      using quo s' start by (auto intro!: other push_open_ok ok' simp: quote_char_def)
  next
    case oth
    then have "structural_char c b = b'" by (simp add: structural_char_def b'_def)
    then show ?thesis by (simp add: builder_ok_advance ok')
  qed
qed

lemma closing_quote_ok:
  assumes ok: "builder_ok b" and s: "pj_state b \<in> {PROCESSING_STRING, PROCESSING_KEY}"
  shows "builder_ok (closing_quote b)"
proof (cases "pj_state b = PROCESSING_KEY")
  case True then show ?thesis
    using ok by (auto simp: closing_quote_def intro: builder_ok_state)
next
  case False
  then have str: "pj_state b = PROCESSING_STRING" using s by auto
  then obtain p st where *: "openCloseStack b = (quote_char, p) # st"
    using ok by (auto simp: builder_ok_def open_ok_def back_is_iff)
  then have st: "st \<noteq> []" "brackets st"
    using ok str by (auto simp: builder_ok_def open_ok_def open_brackets_def)
  from enclosing_state_brackets [OF st(2,1), of PROCESSING_STRING]
  have "builder_ok (b\<lparr>openCloseStack := st, pj_state := enclosing_state st PROCESSING_STRING\<rparr>)"
    using st str by (intro pop_ok [OF ok *]) auto
  then show ?thesis using str * by (simp add: closing_quote_def)
qed

lemma scan_char_ok:
  assumes "builder_ok b" "pj_state b \<noteq> END_STATE" "scan_char before c b = Inr (b', esc)"
  shows "builder_ok (advance b')"
  using assms
  by (auto simp: scan_char_def split: if_splits option.splits
      intro: structural_char_ok builder_ok_advance closing_quote_ok)

text \<open>The scan never moves past the text it is given, and leaves the buffer alone.\<close>

lemma scan_char_frame:
  "scan_char before c b = Inr (b', esc) \<Longrightarrow>
     pj_buffer b' = pj_buffer b \<and> currentPosition b' = currentPosition b"
  by (auto simp: scan_char_def structural_char_def push_open_def close_bracket_def comma_def
      closing_quote_def Let_def split: if_splits option.splits)

lemma scan_loop_ok:
  "builder_ok b \<Longrightarrow> scan_loop cs esc b = (b', r) \<Longrightarrow> builder_ok b'"
proof (induction cs arbitrary: esc b)
  case (Cons c cs)
  show ?case
  proof (cases "pj_state b = END_STATE")
    case False
    show ?thesis
    proof (cases "scan_char (take (currentPosition b) (pj_buffer b)) c b")
      case (Inr p)
      obtain b1 e1 where p: "p = (b1, e1)" by fastforce
      have loop: "scan_loop cs e1 (advance b1) = (b', r)" using Cons.prems False Inr p by simp
      have "builder_ok (advance b1)" using scan_char_ok [OF Cons.prems(1) False] Inr p by simp
      from Cons.IH [OF this loop] show ?thesis .
    qed (use Cons.prems False in auto)
  qed (use Cons.prems in auto)
qed simp

lemma scan_loop_frame:
  "scan_loop cs esc b = (b', r) \<Longrightarrow>
     pj_buffer b' = pj_buffer b \<and> currentPosition b \<le> currentPosition b' \<and>
     currentPosition b' \<le> currentPosition b + length cs \<and>
     (r = Inr esc' \<longrightarrow> pj_state b' \<noteq> END_STATE \<longrightarrow> currentPosition b' = currentPosition b + length cs)"
proof (induction cs arbitrary: esc b)
  case (Cons c cs)
  show ?case
  proof (cases "pj_state b = END_STATE")
    case False
    show ?thesis
    proof (cases "scan_char (take (currentPosition b) (pj_buffer b)) c b")
      case (Inr p)
      obtain b1 e1 where p: "p = (b1, e1)" by fastforce
      have "scan_loop cs e1 (advance b1) = (b', r)" using Cons.prems False Inr p by simp
      from Cons.IH [OF this] scan_char_frame [of _ c b b1 e1] Inr p
      show ?thesis by (auto simp: advance_def)
    qed (use Cons.prems False in auto)
  qed (use Cons.prems in auto)
qed auto

lemma dropWhile_below:
  "sorted_wrt (>) (map snd xs) \<Longrightarrow> \<forall>x \<in> set (dropWhile (\<lambda>(c, p). k \<le> p) xs). snd x < (k :: nat)"
  by (induction xs) auto

lemma last_dropWhile_keeps: "\<not> P (last xs) \<Longrightarrow> xs \<noteq> [] \<Longrightarrow> last (dropWhile P xs) = last xs \<and> dropWhile P xs \<noteq> []"
  by (induction xs) auto

lemma sorted_wrt_dropWhile: "sorted_wrt R (map f xs) \<Longrightarrow> sorted_wrt R (map f (dropWhile P xs))"
  by (induction xs) auto

lemma brackets_dropWhile: "brackets xs \<Longrightarrow> brackets (dropWhile P xs)"
  by (auto simp: brackets_def dest: set_dropWhileD)

lemma dropWhile_all [simp]: "dropWhile (\<lambda>(c, p). True) xs = []"
  by (induction xs) auto

lemma restart_ok:
  assumes ok: "builder_ok b" and s: "pj_state b \<notin> {BEGIN_STATE, PROCESSING_STRING, END_STATE}"
  shows "builder_ok (restart b)"
proof -
  let ?k = "sep_position (lastSeparator b)"
  let ?drop = "dropWhile (\<lambda>(c, p). ?k \<le> p) (openCloseStack b)"
  have sorted: "sorted_wrt (>) (map snd ?drop)" and below: "\<forall>x \<in> set ?drop. snd x < ?k"
    and br: "brackets ?drop" and ne: "openCloseStack b \<noteq> []"
    using ok s dropWhile_below [of "openCloseStack b" ?k] sorted_wrt_dropWhile brackets_dropWhile
    by (auto simp: builder_defs)
  show ?thesis
  proof (cases "sep_state (lastSeparator b) = BEGIN_STATE")
    case True
    then have "?k = 0" "?drop = []" using ok by (auto simp: builder_ok_def separator_ok_def)
    then show ?thesis using True by (simp add: restart_def builder_defs)
  next
    case False
    then have "snd (last (openCloseStack b)) < ?k"
      using ok ne by (simp add: builder_ok_def separator_ok_def)
    then have "last ?drop = last (openCloseStack b) \<and> ?drop \<noteq> []"
      using ne by (intro last_dropWhile_keeps) (auto simp: split_def)
    then show ?thesis
      using ok s False sorted below br by (auto simp: builder_defs restart_def)
  qed
qed

lemma trimmed_input_ok:
  assumes "builder_ok b" "trimmed_input esc b = (b', input)"
  shows "builder_ok b' \<and> pj_buffer b' = pj_buffer b \<and> currentPosition b' \<le> currentPosition b"
proof -
  have "sep_position (lastSeparator b) \<le> currentPosition b"
    using assms(1) by (simp add: builder_ok_def separator_ok_def)
  then show ?thesis
    using assms restart_ok [of b]
    by (auto simp: trimmed_input_def awaits_rest_def restart_def Let_def split: if_splits)
qed

text \<open>\<open>add\<close> keeps the builder well-formed, whatever the text and the parser.\<close>

lemma close_up_frame:
  assumes "builder_ok b" "close_up parse esc b = (b', r)"
  shows "builder_ok b' \<and> pj_buffer b' = pj_buffer b \<and> currentPosition b' \<le> currentPosition b"
  using assms trimmed_input_ok [OF assms(1)]
  by (auto simp: close_up_def Let_def split: if_splits prod.splits)

lemma pj_add_frame:
  assumes ok: "builder_ok b" and pos: "currentPosition b \<le> length (pj_buffer b)"
    and add: "pj_add parse chunk b = (b', r)"
  shows "builder_ok b' \<and> pj_buffer b' = pj_buffer b @ chunk \<and> currentPosition b' \<le> length (pj_buffer b')"
proof -
  let ?b = "b\<lparr>pj_buffer := pj_buffer b @ chunk\<rparr>"
  obtain b2 r2 where scan: "scan_loop (drop (currentPosition b) (pj_buffer b @ chunk)) False ?b = (b2, r2)"
    by fastforce
  have ok2: "builder_ok b2" using scan_loop_ok [OF _ scan] ok by simp
  have frame: "pj_buffer b2 = pj_buffer b @ chunk \<and> currentPosition b2 \<le> length (pj_buffer b @ chunk)"
    using scan_loop_frame [OF scan] pos by auto
  show ?thesis
  proof (cases r2)
    case (Inl e)
    then show ?thesis using add scan ok2 frame by (auto simp: pj_add_def Let_def)
  next
    case (Inr esc)
    then have "close_up parse esc b2 = (b', r)" using add scan by (simp add: pj_add_def Let_def)
    from close_up_frame [OF ok2 this] show ?thesis using frame by auto
  qed
qed

section \<open>Chunks\<close>

text \<open>The scan looks at the text before the position only.\<close>

lemma scan_char_buffer:
  "scan_char before c (b\<lparr>pj_buffer := x\<rparr>) =
     map_sum id (\<lambda>(b', esc). (b'\<lparr>pj_buffer := x\<rparr>, esc)) (scan_char before c b)"
  by (simp add: scan_char_def structural_char_def push_open_def close_bracket_def comma_def
      closing_quote_def Let_def split: option.splits)

lemma advance_simps [simp]:
  "pj_buffer (advance b) = pj_buffer b"
  "currentPosition (advance b) = Suc (currentPosition b)"
  "pj_state (advance b) = pj_state b"
  "lastSeparator (advance b) = lastSeparator b"
  "openCloseStack (advance b) = openCloseStack b"
  by (simp_all add: advance_def)

lemma advance_buffer: "advance (b\<lparr>pj_buffer := x\<rparr>) = (advance b)\<lparr>pj_buffer := x\<rparr>"
  by (simp add: advance_def)

lemma scan_loop_buffer:
  assumes "currentPosition b + length cs \<le> length (pj_buffer b)"
  shows "scan_loop cs esc (b\<lparr>pj_buffer := pj_buffer b @ y\<rparr>) =
           (case scan_loop cs esc b of (b', r) \<Rightarrow> (b'\<lparr>pj_buffer := pj_buffer b @ y\<rparr>, r))"
  using assms
proof (induction cs arbitrary: esc b)
  case (Cons c cs)
  show ?case
  proof (cases "scan_char (take (currentPosition b) (pj_buffer b)) c b")
    case (Inr p)
    obtain b1 e1 where p: "p = (b1, e1)" by fastforce
    have f: "pj_buffer b1 = pj_buffer b" "currentPosition b1 = currentPosition b"
      using scan_char_frame Inr p by blast+
    show ?thesis
      using Cons.IH [of "advance b1" e1] Cons.prems Inr p f
      by (simp add: scan_char_buffer advance_buffer)
  qed (use Cons.prems in \<open>simp add: scan_char_buffer\<close>)
qed simp

lemma scan_loop_append:
  "scan_loop (xs @ ys) esc b =
     (case scan_loop xs esc b of (b', Inl e) \<Rightarrow> (b', Inl e) | (b', Inr esc') \<Rightarrow> scan_loop ys esc' b')"
proof (induction xs arbitrary: esc b)
  case (Cons c cs)
  show ?case
  proof (cases "pj_state b = END_STATE")
    case True then show ?thesis by (cases ys) auto
  next
    case False then show ?thesis using Cons by (auto split: sum.splits)
  qed
qed simp

lemma scan_loop_flag:
  "ys \<noteq> [] \<Longrightarrow> pj_state b \<noteq> END_STATE \<Longrightarrow> scan_loop ys esc b = scan_loop ys esc' b"
  by (cases ys) auto

lemma scan_loop_end: "pj_state b = END_STATE \<Longrightarrow> scan_loop ys esc b = (b, Inr esc)"
  by (cases ys) auto

text \<open>
  A text is well separated when a bracket outside strings and keys that closes a value is
  followed, blanks aside, by a comma, another closing bracket or the end of the text.
\<close>

definition after_closing :: "bool \<Rightarrow> char \<Rightarrow> PartialJsonBuilder \<Rightarrow> bool" where
  "after_closing closed c b \<longleftrightarrow>
     pj_state b \<noteq> PROCESSING_STRING \<and> pj_state b \<noteq> PROCESSING_KEY \<and>
     (c = CHR ''}'' \<or> c = CHR '']'' \<or> closed \<and> is_space c)"

fun tidy :: "bool \<Rightarrow> string \<Rightarrow> PartialJsonBuilder \<Rightarrow> bool" where
  "tidy closed [] b = True"
| "tidy closed (c # cs) b =
     (pj_state b = END_STATE \<or>
      (case scan_char (take (currentPosition b) (pj_buffer b)) c b of
         Inl _ \<Rightarrow> True
       | Inr (b', _) \<Rightarrow>
           (closed \<longrightarrow> is_space c \<or> c = CHR '','' \<or> c = CHR ''}'' \<or> c = CHR '']'') \<and>
           tidy (after_closing closed c b) cs (advance b')))"

definition text_builder :: "string \<Rightarrow> PartialJsonBuilder" where
  "text_builder t = new_PartialJsonBuilder\<lparr>pj_buffer := t\<rparr>"

definition well_separated :: "string \<Rightarrow> bool" where
  "well_separated t \<longleftrightarrow> tidy False t (text_builder t)"

lemma tidy_append: "tidy closed (xs @ ys) b \<Longrightarrow> tidy closed xs b"
  by (induction xs arbitrary: closed b) (auto split: sum.splits)

lemma after_closing_buffer [simp]: "after_closing closed c (b\<lparr>pj_buffer := x\<rparr>) = after_closing closed c b"
  by (simp add: after_closing_def)

lemma tidy_buffer:
  assumes "currentPosition b + length cs \<le> length (pj_buffer b)"
  shows "tidy closed cs (b\<lparr>pj_buffer := pj_buffer b @ y\<rparr>) = tidy closed cs b"
  using assms
proof (induction cs arbitrary: closed b)
  case (Cons c cs)
  show ?case
  proof (cases "scan_char (take (currentPosition b) (pj_buffer b)) c b")
    case (Inr p)
    obtain b1 e1 where p: "p = (b1, e1)" by fastforce
    have f: "pj_buffer b1 = pj_buffer b" "currentPosition b1 = currentPosition b"
      using scan_char_frame Inr p by blast+
    show ?thesis
      using Cons.IH [of "advance b1" "after_closing closed c b"] Cons.prems Inr p f
      by (simp add: scan_char_buffer advance_buffer)
  qed (use Cons.prems in \<open>simp add: scan_char_buffer\<close>)
qed simp

lemma well_separated_prefix: "well_separated (t @ c) \<Longrightarrow> well_separated t"
  using tidy_append [of False t c "text_builder (t @ c)"] tidy_buffer [of "text_builder t" t False c]
  by (simp add: well_separated_def text_builder_def new_PartialJsonBuilder_def)

text \<open>
  The scan from the last separator leads to the builder again: nothing opened before the
  separator has been closed since.
\<close>

definition since_separator :: "PartialJsonBuilder \<Rightarrow> string" where
  "since_separator b =
     take (currentPosition b - sep_position (lastSeparator b))
       (drop (sep_position (lastSeparator b)) (pj_buffer b))"

definition replays :: "PartialJsonBuilder \<Rightarrow> bool" where
  "replays b \<longleftrightarrow> (\<exists>esc. scan_loop (since_separator b) False (restart b) = (b, Inr esc))"

lemma replays_new: "replays (text_builder t)"
  by (simp add: replays_def text_builder_def new_PartialJsonBuilder_def since_separator_def restart_def
      exI [of _ False])

lemma replays_step:
  assumes r: "replays b" and pos: "sep_position (lastSeparator b) \<le> currentPosition b"
      "currentPosition b < length (pj_buffer b)"
    and scan: "scan_char (take (currentPosition b) (pj_buffer b)) (pj_buffer b ! currentPosition b) b = Inr (b', e)"
    and st: "pj_state b \<noteq> END_STATE" and same: "restart b' = restart b" "lastSeparator b' = lastSeparator b"
  shows "replays (advance b')"
proof -
  have f: "pj_buffer b' = pj_buffer b" "currentPosition b' = currentPosition b"
    using scan_char_frame scan by blast+
  have seg: "since_separator (advance b') = since_separator b @ [pj_buffer b ! currentPosition b]"
    using pos f same(2)
    by (simp add: since_separator_def Suc_diff_le take_Suc_conv_app_nth)
  have re: "restart (advance b') = restart b"
    using same(1) by (simp add: restart_def advance_def)
  show ?thesis
    using r scan st unfolding replays_def seg re scan_loop_append by auto
qed

lemma restart_cong:
  assumes "pj_buffer b' = pj_buffer b" "lastSeparator b' = lastSeparator b"
    and "dropWhile (\<lambda>(c, p). sep_position (lastSeparator b) \<le> p) (openCloseStack b') =
         dropWhile (\<lambda>(c, p). sep_position (lastSeparator b) \<le> p) (openCloseStack b)"
  shows "restart b' = restart b"
  using assms by (cases b, cases b') (simp add: restart_def)

lemma refused_comma:
  "refused s (CHR '','') = None \<longleftrightarrow> s \<notin> {BEGIN_STATE, AWAITING_KEY, AWAITING_COLON, AWAITING_VALUE}"
  by (auto simp: refused_def quote_char_def is_digit_def)

lemma value_state_comma:
  "value_state (value_state s (CHR '','')) (CHR '','') = value_state s (CHR '','')"
  by (simp add: value_state_def)

lemma replays_comma:
  assumes ok: "builder_ok b" and pos: "currentPosition b < length (pj_buffer b)"
    and c: "pj_buffer b ! currentPosition b = CHR '',''"
    and s: "pj_state b \<notin> {PROCESSING_STRING, PROCESSING_KEY, END_STATE}"
    and fine: "refused (pj_state b) (CHR '','') = None"
  shows "replays (advance (structural_char (CHR '','') b))"
proof -
  define s1 where "s1 = value_state (pj_state b) (CHR '','')"
  define b1 where "b1 = b\<lparr>pj_state := s1, lastSeparator := \<lparr>sep_position = currentPosition b, sep_state = s1\<rparr>\<rparr>"
  define b' where "b' = structural_char (CHR '','') b"
  have s1: "s1 \<notin> {PROCESSING_STRING, PROCESSING_KEY, END_STATE, BEGIN_STATE, AWAITING_KEY, AWAITING_COLON, AWAITING_VALUE}"
    using s fine value_state_cases [of "pj_state b" "CHR '',''"]
    by (auto simp: s1_def refused_comma value_state_def)
  have b': "b' = comma (b\<lparr>pj_state := s1\<rparr>)"
    by (simp add: b'_def structural_char_def s1_def)
  have st: "dropWhile (\<lambda>(c, p). currentPosition b \<le> p) (openCloseStack b) = openCloseStack b"
    using ok by (cases "openCloseStack b") (auto simp: builder_ok_def)
  have re: "restart (advance b') = b1"
    using st by (cases b) (simp add: b' b1_def restart_def comma_def advance_def)
  have seg: "since_separator (advance b') = [CHR '','']"
    using pos c by (simp add: since_separator_def b' comma_def take_Suc_conv_app_nth)
  have "structural_char (CHR '','') b1 = comma (b\<lparr>pj_state := s1\<rparr>)"
    by (cases b) (simp add: structural_char_def b1_def comma_def s1_def value_state_comma)
  moreover have "refused s1 (CHR '','') = None" using s1 by (simp add: refused_comma)
  ultimately have "scan_char x (CHR '','') b1 = Inr (b', False)" for x
    using s1 by (simp add: scan_char_def b1_def b' is_space_def)
  then have "scan_loop [CHR '',''] False b1 = (advance b', Inr False)"
    using s1 by (simp add: b1_def)
  then show ?thesis unfolding replays_def re seg b'_def [symmetric] by blast
qed

text \<open>After a bracket from before the separator has closed, no state that goes back is reached.\<close>

definition may_restart :: "bool \<Rightarrow> PartialJsonBuilder \<Rightarrow> bool" where
  "may_restart closed b \<longleftrightarrow>
     replays b \<or>
     closed \<and> pj_state b \<in> {PROCESSING_OBJECT, PROCESSING_ARRAY, PROCESSING_NUMBER, END_STATE}"

lemma close_bracket_states:
  "pj_state (close_bracket c b) \<in> {pj_state b, PROCESSING_OBJECT, PROCESSING_ARRAY, END_STATE}"
  by (auto simp: close_bracket_def enclosing_state_def Let_def)

lemma structural_close_states:
  assumes "c = CHR ''}'' \<or> c = CHR '']''"
  shows "pj_state (structural_char c b) \<in>
           {value_state (pj_state b) c, PROCESSING_OBJECT, PROCESSING_ARRAY, END_STATE}"
proof -
  have "\<exists>d. structural_char c b = close_bracket d (b\<lparr>pj_state := value_state (pj_state b) c\<rparr>)"
    using assms by (elim disjE) (simp_all add: structural_char_def, blast+)
  then show ?thesis
    using close_bracket_states [of _ "b\<lparr>pj_state := value_state (pj_state b) c\<rparr>"] by fastforce
qed

lemma close_bracket_matched:
  assumes ok: "builder_ok b" and s: "pj_state b \<notin> {PROCESSING_STRING, END_STATE}"
  shows "close_bracket c b = b \<or>
         pj_state (close_bracket c b) \<in> {PROCESSING_OBJECT, PROCESSING_ARRAY, END_STATE}"
proof (cases "back_is c (openCloseStack b)")
  case True
  then obtain p st where st: "openCloseStack b = (c, p) # st" by (auto simp: back_is_iff)
  then have "brackets st" using ok s by (auto simp: builder_ok_def open_ok_def)
  with enclosing_state_brackets [OF this] show ?thesis using True st by (auto simp: close_bracket_def)
qed (simp add: close_bracket_def)

lemma builder_ok_value_state:
  assumes "builder_ok b" "pj_state b \<notin> {PROCESSING_STRING, END_STATE}"
  shows "builder_ok (b\<lparr>pj_state := value_state (pj_state b) c\<rparr>)"
  using assms value_state_cases [of "pj_state b" c] by (auto intro: builder_ok_state)

lemma value_state_special: "value_state s c \<in> {PROCESSING_STRING, END_STATE} \<longleftrightarrow> s \<in> {PROCESSING_STRING, END_STATE}"
  by (auto simp: value_state_def)

text \<open>A structural character keeps the place to go back to, unless it is a comma or closes a value.\<close>

lemma structural_char_restart:
  assumes ok: "builder_ok b" and s: "pj_state b \<notin> {PROCESSING_STRING, PROCESSING_KEY, END_STATE}"
    and c: "c \<noteq> CHR '',''"
  shows "restart (structural_char c b) = restart b \<and>
           lastSeparator (structural_char c b) = lastSeparator b \<or>
         (c = CHR ''}'' \<or> c = CHR '']'') \<and>
           pj_state (structural_char c b) \<in> {PROCESSING_OBJECT, PROCESSING_ARRAY, END_STATE}"
proof -
  define b' where "b' = b\<lparr>pj_state := value_state (pj_state b) c\<rparr>"
  have ok': "builder_ok b'" and s': "pj_state b' \<notin> {PROCESSING_STRING, END_STATE}"
    using builder_ok_value_state [OF ok] s value_state_special [of "pj_state b" c] by (auto simp: b'_def)
  have re: "restart (b'\<lparr>pj_state := t\<rparr>) = restart b" for t
    by (intro restart_cong) (simp_all add: b'_def)
  have "sep_position (lastSeparator b) \<le> currentPosition b"
    using ok by (simp add: builder_ok_def separator_ok_def)
  then have push: "restart (push_open d t b') = restart b" for d t
    by (intro restart_cong) (simp_all add: push_open_def b'_def)
  have keep: "lastSeparator (push_open d t b') = lastSeparator b" "lastSeparator b' = lastSeparator b" for d t
    by (simp_all add: push_open_def b'_def)
  have same: "b' = b'\<lparr>pj_state := pj_state b'\<rparr>" by simp
  have close: "structural_char c b = close_bracket d b' \<Longrightarrow> c = CHR ''}'' \<or> c = CHR '']'' \<Longrightarrow> ?thesis" for d
    using close_bracket_matched [OF ok' s', of d] re [of "pj_state b'"] keep(2) by auto
  have eq: "structural_char c b =
      (if c = CHR ''{'' then push_open c AWAITING_KEY b'
       else if c = CHR ''['' then push_open c PROCESSING_ARRAY b'
       else if c = CHR ''}'' then close_bracket (CHR ''{'') b'
       else if c = CHR '']'' then close_bracket (CHR ''['') b'
       else if c = CHR '':'' then b'\<lparr>pj_state := AWAITING_VALUE\<rparr>
       else if c = quote_char then
         (if pj_state b' = AWAITING_KEY then b'\<lparr>pj_state := PROCESSING_KEY\<rparr>
          else push_open quote_char PROCESSING_STRING b')
       else b'\<lparr>pj_state := pj_state b'\<rparr>)"
    using c by (simp add: structural_char_def b'_def)
  show ?thesis
  proof (cases "c = CHR ''}'' \<or> c = CHR '']''")
    case True
    then obtain d where "structural_char c b = close_bracket d b'"
      unfolding eq by (elim disjE) simp_all
    from close [OF this True] show ?thesis .
  next
    case False
    moreover have "restart b' = restart b" by (intro restart_cong) (simp_all add: b'_def)
    ultimately show ?thesis unfolding eq by (simp add: push keep re)
  qed
qed

lemma closing_quote_restart:
  assumes ok: "builder_ok b" and s: "pj_state b \<in> {PROCESSING_STRING, PROCESSING_KEY}"
  shows "restart (closing_quote b) = restart b \<and> lastSeparator (closing_quote b) = lastSeparator b"
proof (cases "pj_state b = PROCESSING_KEY")
  case True
  then have "closing_quote b = b\<lparr>pj_state := AWAITING_COLON\<rparr>" by (simp add: closing_quote_def)
  moreover have "restart (b\<lparr>pj_state := AWAITING_COLON\<rparr>) = restart b"
    by (intro restart_cong) simp_all
  ultimately show ?thesis by simp
next
  case False
  then have "pj_state b = PROCESSING_STRING" using s by auto
  then obtain p st where st: "openCloseStack b = (quote_char, p) # st" "sep_position (lastSeparator b) \<le> p"
    using ok by (auto simp: builder_ok_def open_ok_def back_is_iff)
  have eq: "closing_quote b = b\<lparr>openCloseStack := st, pj_state := enclosing_state st (pj_state b)\<rparr>"
    using False st by (simp add: closing_quote_def)
  show ?thesis unfolding eq using st by (intro conjI restart_cong) simp_all
qed

lemma may_restart_step:
  assumes ok: "builder_ok b" and pos: "currentPosition b < length (pj_buffer b)"
    and c: "pj_buffer b ! currentPosition b = c" and st: "pj_state b \<noteq> END_STATE"
    and scan: "scan_char (take (currentPosition b) (pj_buffer b)) c b = Inr (b', e)"
    and m: "may_restart closed b"
    and sepd: "closed \<Longrightarrow> is_space c \<or> c = CHR '','' \<or> c = CHR ''}'' \<or> c = CHR '']''"
  shows "may_restart (after_closing closed c b) (advance b')"
proof -
  have seppos: "sep_position (lastSeparator b) \<le> currentPosition b"
    using ok by (simp add: builder_ok_def separator_ok_def)
  note step = replays_step [OF _ seppos pos scan [folded c] st]
  show ?thesis
  proof (cases "pj_state b = PROCESSING_STRING \<or> pj_state b = PROCESSING_KEY")
    case True
    then have r: "replays b" using m by (auto simp: may_restart_def)
    have "b' = b \<or> b' = closing_quote b"
      using scan True by (auto simp: scan_char_def split: if_splits)
    then have "restart b' = restart b \<and> lastSeparator b' = lastSeparator b"
      using closing_quote_restart [OF ok] True by auto
    then show ?thesis using step [OF r] by (simp add: may_restart_def)
  next
    case False
    then have s: "pj_state b \<notin> {PROCESSING_STRING, PROCESSING_KEY, END_STATE}" using st by auto
    show ?thesis
    proof (cases "is_space c")
      case True
      then have "b' = b" using scan False by (simp add: scan_char_def)
      then show ?thesis using step m True False by (auto simp: may_restart_def after_closing_def)
    next
      case nospace: False
      then have b': "b' = structural_char c b" and fine: "refused (pj_state b) c = None"
        using scan False by (auto simp: scan_char_def split: option.splits)
      show ?thesis
      proof (cases "c = CHR '',''")
        case True
        then show ?thesis
          using replays_comma [OF ok pos _ s] fine c b' by (simp add: may_restart_def)
      next
        case nocomma: False
        from structural_char_restart [OF ok s nocomma, folded b'] show ?thesis
        proof (elim disjE conjE)
          assume same: "restart b' = restart b" "lastSeparator b' = lastSeparator b"
          show ?thesis
          proof (cases "replays b")
            case True
            then show ?thesis using step same by (simp add: may_restart_def)
          next
            case False
            then have cl: "closed" "pj_state b \<in> {PROCESSING_OBJECT, PROCESSING_ARRAY, PROCESSING_NUMBER}"
              using m st by (auto simp: may_restart_def)
            then have br: "c = CHR ''}'' \<or> c = CHR '']''" using sepd nospace nocomma by auto
            have "pj_state b' \<in> {PROCESSING_OBJECT, PROCESSING_ARRAY, PROCESSING_NUMBER, END_STATE}"
              using structural_close_states [OF br, of b] br cl b' by (auto simp: value_state_def)
            then show ?thesis using br s by (auto simp: may_restart_def after_closing_def)
          qed
        qed (use s in \<open>auto simp: may_restart_def after_closing_def\<close>)
      qed
    qed
  qed
qed

lemma may_restart_loop:
  assumes "builder_ok b" "may_restart closed b" "tidy closed cs b"
    and "drop (currentPosition b) (pj_buffer b) = cs @ rest"
    and "scan_loop cs esc b = (b', Inr e)"
  shows "\<exists>closed'. may_restart closed' b'"
  using assms
proof (induction cs arbitrary: closed esc b)
  case (Cons c cs)
  show ?case
  proof (cases "pj_state b = END_STATE")
    case True then show ?thesis using Cons.prems by auto
  next
    case False
    obtain b1 e1 where scan: "scan_char (take (currentPosition b) (pj_buffer b)) c b = Inr (b1, e1)"
      using Cons.prems(5) False
      by (cases "scan_char (take (currentPosition b) (pj_buffer b)) c b") auto
    have at: "currentPosition b < length (pj_buffer b)" "pj_buffer b ! currentPosition b = c"
      using Cons.prems(4) by (metis append_Cons drop_eq_Nil leI list.distinct(1), 
          metis append_Cons nth_via_drop)
    have f: "pj_buffer b1 = pj_buffer b" "currentPosition b1 = currentPosition b"
      using scan_char_frame [OF scan] by auto
    have t: "closed \<longrightarrow> is_space c \<or> c = CHR '','' \<or> c = CHR ''}'' \<or> c = CHR '']''"
      "tidy (after_closing closed c b) cs (advance b1)"
      using Cons.prems(3) False scan by simp_all
    have rest: "drop (Suc (currentPosition b)) (pj_buffer b) = cs @ rest"
      using Cons.prems(4) by (metis append_Cons drop_Suc list.sel(3) tl_drop)
    show ?thesis
    proof (rule Cons.IH)
      show "builder_ok (advance b1)" by (rule scan_char_ok [OF Cons.prems(1) False scan])
      show "may_restart (after_closing closed c b) (advance b1)"
        by (rule may_restart_step [OF Cons.prems(1) at False scan Cons.prems(2)]) (use t in blast)
      show "tidy (after_closing closed c b) cs (advance b1)" by (rule t)
      show "drop (currentPosition (advance b1)) (pj_buffer (advance b1)) = cs @ rest"
        using rest f by simp
      show "scan_loop cs e1 (advance b1) = (b', Inr e)" using Cons.prems(5) False scan by simp
    qed
  qed
qed auto

text \<open>The chunks of a generation added one after the other, up to the first exception.\<close>

fun pj_feed ::
    "(string \<Rightarrow> 'n json option) \<Rightarrow> string list \<Rightarrow> PartialJsonBuilder \<Rightarrow> PartialJsonBuilder \<times> 'n json list result" where
  "pj_feed parse [] b = (b, Inr [])"
| "pj_feed parse (c # cs) b =
     (case pj_add parse c b of
        (b', Inl e) \<Rightarrow> (b', Inl e)
      | (b', Inr d) \<Rightarrow>
          (case pj_feed parse cs b' of
             (b'', Inl e) \<Rightarrow> (b'', Inl e)
           | (b'', Inr ds) \<Rightarrow> (b'', Inr (d # ds))))"

lemma pj_feed_snoc:
  "pj_feed parse (cs @ [c]) b = (b2, Inr ds) \<Longrightarrow>
     \<exists>b1 ds1 d. pj_feed parse cs b = (b1, Inr ds1) \<and> pj_add parse c b1 = (b2, Inr d)"
  by (induction cs arbitrary: b ds) (fastforce split: prod.splits sum.splits)+

lemma close_up_flag: "pj_state b \<noteq> PROCESSING_STRING \<Longrightarrow> close_up parse e b = close_up parse e' b"
proof -
  assume "pj_state b \<noteq> PROCESSING_STRING"
  then have "trimmed_input e b = trimmed_input e' b" by (simp add: trimmed_input_def Let_def)
  then show ?thesis by (simp add: close_up_def)
qed

lemma close_up_builder:
  "fst (close_up parse e b) = b \<or> fst (close_up parse e b) = restart b \<and> awaits_rest (pj_state b)"
  by (auto simp: close_up_def trimmed_input_def Let_def)

lemma text_builder_simps [simp]:
  "pj_buffer (text_builder t) = t" "currentPosition (text_builder t) = 0"
  "pj_state (text_builder t) = BEGIN_STATE" "builder_ok (text_builder t)"
  "(text_builder t)\<lparr>pj_buffer := u\<rparr> = text_builder u"
  by (auto simp: text_builder_def new_PartialJsonBuilder_def builder_defs)

lemma whole_text_replays:
  assumes scan: "scan_loop t False (text_builder t) = (b, Inr e)" and ws: "well_separated t"
    and s: "awaits_rest (pj_state b)"
  shows "replays b"
proof -
  have "\<exists>closed. may_restart closed b"
    using replays_new [of t] ws scan
    by (intro may_restart_loop [where closed = False and rest = "[]" and cs = t and esc = False])
       (auto simp: may_restart_def well_separated_def)
  with s show ?thesis by (auto simp: may_restart_def awaits_rest_def)
qed

text \<open>Scanning the next chunk and scanning the whole text again reach the same builder.\<close>

definition settled :: "string \<Rightarrow> PartialJsonBuilder \<Rightarrow> bool" where
  "settled t b \<longleftrightarrow>
     (\<exists>b0 e0. scan_loop t False (text_builder t) = (b0, Inr e0) \<and>
        (b = b0 \<or> b = restart b0 \<and> awaits_rest (pj_state b0) \<and> replays b0))"

lemma restart_buffer: "restart (b\<lparr>pj_buffer := x\<rparr>) = (restart b)\<lparr>pj_buffer := x\<rparr>"
  by (simp add: restart_def)

lemma scan_text_extend:
  assumes scan: "scan_loop t False (text_builder t) = (b0, Inr e0)"
  shows "scan_loop (t @ c) False (text_builder (t @ c)) = scan_loop c e0 (b0\<lparr>pj_buffer := t @ c\<rparr>)"
  using scan scan_loop_buffer [of "text_builder t" t False c] by (simp add: scan_loop_append)

lemma rescan:
  fixes c :: string
  assumes "settled t b"
  defines "fresh \<equiv> scan_loop (t @ c) False (text_builder (t @ c))"
    and "again \<equiv> scan_loop (drop (currentPosition b) (t @ c)) False (b\<lparr>pj_buffer := t @ c\<rparr>)"
  shows "fresh = again \<or>
     (\<exists>b2 e e'. fresh = (b2, Inr e) \<and> again = (b2, Inr e') \<and> (c = [] \<or> pj_state b2 \<noteq> PROCESSING_STRING))"
proof -
  obtain b0 e0 where scan: "scan_loop t False (text_builder t) = (b0, Inr e0)"
    and b: "b = b0 \<or> b = restart b0 \<and> awaits_rest (pj_state b0) \<and> replays b0"
    using assms(1) unfolding settled_def by blast
  have fresh: "fresh = scan_loop c e0 (b0\<lparr>pj_buffer := t @ c\<rparr>)"
    unfolding fresh_def by (rule scan_text_extend [OF scan])
  have f: "pj_buffer b0 = t" "pj_state b0 \<noteq> END_STATE \<Longrightarrow> currentPosition b0 = length t"
    using scan_loop_frame [OF scan, of e0] by auto
  have ok0: "builder_ok b0" by (rule scan_loop_ok [OF _ scan]) simp
  have flag: "scan_loop c e0 (b0\<lparr>pj_buffer := t @ c\<rparr>) = scan_loop c e1 (b0\<lparr>pj_buffer := t @ c\<rparr>)"
    if "c \<noteq> []" "pj_state b0 \<noteq> END_STATE" for e1
    using that by (intro scan_loop_flag) simp_all
  from b show ?thesis
  proof
    assume b: "b = b0"
    show ?thesis
    proof (cases "pj_state b0 = END_STATE")
      case True
      then have "fresh = (b0\<lparr>pj_buffer := t @ c\<rparr>, Inr e0)" "again = (b0\<lparr>pj_buffer := t @ c\<rparr>, Inr False)"
        unfolding fresh again_def b by (simp_all add: scan_loop_end)
      then show ?thesis using True by auto
    next
      case False
      then have "again = scan_loop c False (b0\<lparr>pj_buffer := t @ c\<rparr>)"
        unfolding again_def b using f by simp
      then show ?thesis using flag [of False] False fresh by (cases "c = []") auto
    qed
  next
    assume b: "b = restart b0 \<and> awaits_rest (pj_state b0) \<and> replays b0"
    then have ne: "pj_state b0 \<noteq> END_STATE" "pj_state b0 \<noteq> PROCESSING_STRING"
      by (auto simp: awaits_rest_def)
    have sep: "sep_position (lastSeparator b0) \<le> length t"
      using ok0 f(2) ne by (auto simp: builder_ok_def separator_ok_def)
    have pos: "currentPosition b = sep_position (lastSeparator b0)" using b by (simp add: restart_def)
    have seg: "since_separator b0 = drop (sep_position (lastSeparator b0)) t"
      using f ne by (simp add: since_separator_def)
    obtain e1 where r: "scan_loop (since_separator b0) False b = (b0, Inr e1)"
      using b by (auto simp: replays_def)
    have "scan_loop (since_separator b0) False (b\<lparr>pj_buffer := t @ c\<rparr>) = (b0\<lparr>pj_buffer := t @ c\<rparr>, Inr e1)"
      using scan_loop_buffer [of b "since_separator b0" False c] r b f seg sep pos
      by (simp add: restart_def)
    then have "again = scan_loop c e1 (b0\<lparr>pj_buffer := t @ c\<rparr>)"
      unfolding again_def pos using seg sep by (simp add: scan_loop_append)
    then show ?thesis using flag [of e1] ne fresh by (cases "c = []") auto
  qed
qed

lemma settled_buffer: "settled t b \<Longrightarrow> pj_buffer b = t"
proof -
  assume "settled t b"
  then obtain b0 e0 where scan: "scan_loop t False (text_builder t) = (b0, Inr e0)"
    and b: "b = b0 \<or> b = restart b0"
    unfolding settled_def by blast
  have "pj_buffer b0 = t" using scan_loop_frame [OF scan, of e0] by simp
  then show ?thesis using b by (elim disjE) (simp_all add: restart_def)
qed

lemma pj_add_settled:
  assumes st: "settled t b" and ws: "well_separated (t @ c)" and add: "pj_add parse c b = (b', Inr d)"
  shows "settled (t @ c) b'"
proof -
  let ?again = "scan_loop (drop (currentPosition b) (t @ c)) False (b\<lparr>pj_buffer := t @ c\<rparr>)"
  obtain b2 e where nx: "?again = (b2, Inr e)" and cl: "close_up parse e b2 = (b', Inr d)"
    using add settled_buffer [OF st] by (auto simp: pj_add_def Let_def split: prod.splits sum.splits)
  obtain e' where fresh: "scan_loop (t @ c) False (text_builder (t @ c)) = (b2, Inr e')"
    using rescan [OF st, of c] nx by (metis prod.inject)
  have "b' = b2 \<or> b' = restart b2 \<and> awaits_rest (pj_state b2)"
    using close_up_builder [of parse e b2] cl by simp
  then show ?thesis
    using fresh whole_text_replays [OF fresh ws] unfolding settled_def by blast
qed

lemma settled_new: "settled [] new_PartialJsonBuilder"
  unfolding settled_def by (intro exI [of _ "text_builder []"] exI [of _ False])
    (simp add: text_builder_def new_PartialJsonBuilder_def)

lemma pj_feed_settled:
  "pj_feed parse cs new_PartialJsonBuilder = (b, Inr ds) \<Longrightarrow> well_separated (concat cs) \<Longrightarrow> settled (concat cs) b"
proof (induction cs arbitrary: b ds rule: rev_induct)
  case Nil then show ?case using settled_new by simp
next
  case (snoc c cs)
  obtain b1 ds1 d where b1: "pj_feed parse cs new_PartialJsonBuilder = (b1, Inr ds1)"
    and add: "pj_add parse c b1 = (b, Inr d)"
    using pj_feed_snoc [OF snoc.prems(1)] by blast
  have "well_separated (concat cs)"
    using snoc.prems(2) well_separated_prefix [of "concat cs" c] by simp
  from pj_add_settled [OF snoc.IH [OF b1 this] _ add] snoc.prems(2) show ?case by simp
qed

lemma pj_add_whole:
  assumes st: "settled t b" and c: "c \<noteq> []"
  shows "pj_add parse c b = pj_add parse (t @ c) new_PartialJsonBuilder"
proof -
  let ?fresh = "scan_loop (t @ c) False (text_builder (t @ c))"
  let ?again = "scan_loop (drop (currentPosition b) (t @ c)) False (b\<lparr>pj_buffer := t @ c\<rparr>)"
  have new: "pj_add parse (t @ c) new_PartialJsonBuilder =
      (case ?fresh of (b2, Inl e) \<Rightarrow> (b2, Inl e) | (b2, Inr esc) \<Rightarrow> close_up parse esc b2)"
    by (simp add: pj_add_def text_builder_def new_PartialJsonBuilder_def)
  have old: "pj_add parse c b =
      (case ?again of (b2, Inl e) \<Rightarrow> (b2, Inl e) | (b2, Inr esc) \<Rightarrow> close_up parse esc b2)"
    using settled_buffer [OF st] by (simp add: pj_add_def)
  from rescan [OF st, of c] show ?thesis
  proof
    assume "\<exists>b2 e e'. ?fresh = (b2, Inr e) \<and> ?again = (b2, Inr e') \<and> (c = [] \<or> pj_state b2 \<noteq> PROCESSING_STRING)"
    then obtain b2 e e' where "?fresh = (b2, Inr e)" "?again = (b2, Inr e')" "pj_state b2 \<noteq> PROCESSING_STRING"
      using c by blast
    then show ?thesis unfolding new old using close_up_flag [of b2 parse e e'] by simp
  qed (simp add: new old)
qed

section \<open>Deltas\<close>

text \<open>
  What a client does with a difference: a string and an array are continued, an object is
  merged_value, and a member that is new, or was null, is taken over.
\<close>

fun take_over :: "string \<Rightarrow> 'n json \<Rightarrow> 'n members \<Rightarrow> 'n members" where
  "take_over name v [] = [(name, v)]"
| "take_over name v ((n, old) # ms) = (if n = name then (name, v) # ms else (n, old) # take_over name v ms)"

function apply_delta :: "'n members \<Rightarrow> 'n members \<Rightarrow> 'n members" where
  "apply_delta members [] = members"
| "apply_delta members ((name, d) # ds) =
     apply_delta
       (take_over name
          (case (map_of members name, d) of
             (Some (JObject old), JObject new) \<Rightarrow> JObject (apply_delta old new)
           | (Some (JArray old), JArray new) \<Rightarrow> JArray (old @ new)
           | (Some (JString old), JString new) \<Rightarrow> JString (old @ new)
           | _ \<Rightarrow> d) members) ds"
  by pat_completeness auto
termination
  by (relation "measure (\<lambda>(m, ds). size_list (size_prod (\<lambda>_. 0) size) ds)") auto

declare apply_delta.simps [simp del]

text \<open>
  How documents grow while their text is generated: a string or an array gets longer at its
  end, the known members of an object grow in place and new ones follow; a null may become
  anything, as it stands for a value not yet begun. Member names are distinct, and strings
  hold no NUL.
\<close>

inductive grows :: "'n json \<Rightarrow> 'n json \<Rightarrow> bool" and members_grow :: "'n members \<Rightarrow> 'n members \<Rightarrow> bool" where
  grows_same: "\<forall>ms. v \<noteq> JObject ms \<Longrightarrow> grows v v"
| grows_null: "grows JNull v"
| grows_string: "CHR 0x00 \<notin> set (s @ t) \<Longrightarrow> grows (JString s) (JString (s @ t))"
| grows_array: "grows (JArray xs) (JArray (xs @ ys))"
| grows_object: "members_grow old new \<Longrightarrow> grows (JObject old) (JObject new)"
| members_new: "distinct (map fst new) \<Longrightarrow> members_grow [] new"
| members_old: "grows v w \<Longrightarrow> members_grow old new \<Longrightarrow> name \<notin> set (map fst new) \<Longrightarrow>
     members_grow ((name, v) # old) ((name, w) # new)"

definition member_delta :: "string \<Rightarrow> 'n json option \<Rightarrow> 'n json \<Rightarrow> 'n members" where
  "member_delta name old v =
     (case (old, v) of
        (None, _) \<Rightarrow> [(name, v)]
      | (Some JNull, _) \<Rightarrow> [(name, v)]
      | (Some (JObject ms), JObject new) \<Rightarrow>
          (if computeDeltaImpl ms new = [] then [] else [(name, JObject (computeDeltaImpl ms new))])
      | (Some (JArray xs), JArray ys) \<Rightarrow>
          (if length xs < length ys then [(name, JArray (drop (length xs) ys))] else [])
      | (Some (JString s), JString t) \<Rightarrow>
          (if s \<noteq> t \<and> length (c_str s) < length (c_str t)
           then [(name, JString (drop (length (c_str s)) (c_str t)))] else [])
      | _ \<Rightarrow> [])"

definition merged_value :: "'n json option \<Rightarrow> 'n json \<Rightarrow> 'n json" where
  "merged_value old d =
     (case (old, d) of
        (Some (JObject ms), JObject new) \<Rightarrow> JObject (apply_delta ms new)
      | (Some (JArray xs), JArray ys) \<Rightarrow> JArray (xs @ ys)
      | (Some (JString s), JString t) \<Rightarrow> JString (s @ t)
      | _ \<Rightarrow> d)"

lemma computeDeltaImpl_Nil [simp]: "computeDeltaImpl p [] = []"
  by (simp add: computeDeltaImpl.simps)

lemma computeDeltaImpl_Cons:
  "computeDeltaImpl p ((name, v) # c) = member_delta name (map_of p name) v @ computeDeltaImpl p c"
  by (auto simp: computeDeltaImpl.simps(2) member_delta_def Let_def split: option.split json.split)

lemma apply_delta_Nil [simp]: "apply_delta m [] = m"
  by (simp add: apply_delta.simps)

lemma apply_delta_Cons:
  "apply_delta m ((name, d) # ds) = apply_delta (take_over name (merged_value (map_of m name) d) m) ds"
  by (simp add: apply_delta.simps(2) merged_value_def)

lemma take_over_new: "name \<notin> set (map fst ms) \<Longrightarrow> take_over name v ms = ms @ [(name, v)]"
  by (induction name v ms rule: take_over.induct) auto

lemma take_over_old:
  "name \<notin> set (map fst pre) \<Longrightarrow> take_over name v (pre @ (name, w) # ms) = pre @ (name, v) # ms"
  by (induction name v pre rule: take_over.induct) auto

lemma c_str_id: "CHR 0x00 \<notin> set s \<Longrightarrow> c_str s = s"
  by (auto simp: c_str_def takeWhile_eq_all_conv)

lemma apply_delta_new:
  "distinct (map fst new) \<Longrightarrow> set (map fst pre) \<inter> set (map fst new) = {} \<Longrightarrow>
     \<forall>n \<in> set (map fst new). map_of p n = None \<Longrightarrow>
     apply_delta pre (computeDeltaImpl p new) = pre @ new"
proof (induction new arbitrary: pre)
  case (Cons m new)
  obtain n v where m: "m = (n, v)" by fastforce
  have pre: "map_of pre n = None" using Cons.prems(2) m by (auto simp: map_of_eq_None_iff)
  have "apply_delta pre (computeDeltaImpl p (m # new)) = apply_delta (pre @ [(n, v)]) (computeDeltaImpl p new)"
    using Cons.prems m pre
    by (simp add: computeDeltaImpl_Cons apply_delta_Cons member_delta_def merged_value_def take_over_new)
  also have "\<dots> = (pre @ [(n, v)]) @ new"
    using Cons.prems m by (intro Cons.IH) auto
  finally show ?case using m by simp
qed simp

lemma members_grow_names:
  "members_grow old new \<Longrightarrow> distinct (map fst new) \<and> (\<exists>more. map fst new = map fst old @ more)"
  by (induction rule: grows_members_grow.inducts(2) [where ?P1.0 = "\<lambda>_ _. True"]) auto

lemma delta_applied:
  fixes v w :: "'n json" and old new :: "'n members"
  shows "grows v w \<Longrightarrow>
     (\<forall>n. member_delta n (Some v) w = [] \<and> v = w \<or>
          (\<exists>d. member_delta n (Some v) w = [(n, d)] \<and> merged_value (Some v) d = w))" and
  "members_grow old new \<Longrightarrow>
     (\<forall>pre p. set (map fst pre) \<inter> set (map fst new) = {} \<longrightarrow>
        (\<forall>n \<in> set (map fst new). map_of p n = map_of old n) \<longrightarrow>
        apply_delta (pre @ old) (computeDeltaImpl p new) = pre @ new)"
proof (induction rule: grows_members_grow.inducts)
  case (grows_same v)
  then show ?case by (cases v) (auto simp: member_delta_def merged_value_def)
next
  case (grows_null v)
  show ?case by (cases v) (auto simp: member_delta_def merged_value_def)
next
  case (grows_string s t)
  then show ?case by (auto simp: member_delta_def merged_value_def c_str_id)
next
  case (grows_array xs ys)
  show ?case by (auto simp: member_delta_def merged_value_def)
next
  case (grows_object old new)
  have "apply_delta old (computeDeltaImpl old new) = new"
    using grows_object.IH [rule_format, of "[]" old] by simp
  then show ?case by (auto simp: member_delta_def merged_value_def)
next
  case (members_new new)
  then show ?case using apply_delta_new by (auto simp: Ball_def)
next
  case (members_old v w old new name)
  show ?case
  proof (intro allI impI)
    fix pre p :: "'n members"
    assume dis: "set (map fst pre) \<inter> set (map fst ((name, w) # new)) = {}"
      and look: "\<forall>n \<in> set (map fst ((name, w) # new)). map_of p n = map_of ((name, v) # old) n"
    have pn: "map_of p name = Some v" using look by simp
    have mn: "map_of (pre @ (name, v) # old) name = Some v"
      using dis map_of_eq_None_iff [of pre name] by (simp add: map_add_def)
    have rest: "apply_delta ((pre @ [(name, w)]) @ old) (computeDeltaImpl p new) = (pre @ [(name, w)]) @ new"
    proof -
      have "set (map fst (pre @ [(name, w)])) \<inter> set (map fst new) = {}"
        using dis members_old.hyps(3) by auto
      moreover have "\<forall>n \<in> set (map fst new). map_of p n = map_of old n"
      proof
        fix n assume n: "n \<in> set (map fst new)"
        then have "n \<noteq> name" using members_old.hyps(3) by blast
        moreover have "map_of p n = map_of ((name, v) # old) n" by (rule bspec [OF look]) (use n in simp)
        ultimately show "map_of p n = map_of old n" by simp
      qed
      ultimately show ?thesis using members_old.IH(2) by blast
    qed
    from members_old.IH(1) [rule_format, of name]
    show "apply_delta (pre @ (name, v) # old) (computeDeltaImpl p ((name, w) # new)) = pre @ (name, w) # new"
    proof (elim disjE exE conjE)
      assume "member_delta name (Some v) w = []" "v = w"
      then show ?thesis using rest pn by (simp add: computeDeltaImpl_Cons)
    next
      fix d assume d: "member_delta name (Some v) w = [(name, d)]" "merged_value (Some v) d = w"
      have "take_over name w (pre @ (name, v) # old) = pre @ (name, w) # old"
        using dis by (intro take_over_old) auto
      then show ?thesis using rest pn mn d by (simp add: computeDeltaImpl_Cons apply_delta_Cons)
    qed
  qed
qed

section \<open>Properties\<close>

text \<open>The builder after any chunks, exceptions or not.\<close>

definition pj_run :: "(string \<Rightarrow> 'n json option) \<Rightarrow> string list \<Rightarrow> PartialJsonBuilder" where
  "pj_run parse cs = fold (\<lambda>c b. fst (pj_add parse c b)) cs new_PartialJsonBuilder"

lemma pj_run_frame:
  "builder_ok (pj_run parse cs) \<and> pj_buffer (pj_run parse cs) = concat cs \<and>
     currentPosition (pj_run parse cs) \<le> length (concat cs)"
proof (induction cs rule: rev_induct)
  case Nil
  have "pj_run parse [] = new_PartialJsonBuilder" by (simp add: pj_run_def)
  then show ?case using new_builder_ok by (simp add: new_PartialJsonBuilder_def)
next
  case (snoc c cs)
  obtain b' r where add: "pj_add parse c (pj_run parse cs) = (b', r)" by fastforce
  then have "pj_run parse (cs @ [c]) = b'" by (simp add: pj_run_def)
  with snoc pj_add_frame [OF _ _ add] show ?case by auto
qed

text \<open>
  What the entries of the stack and the separator stand for: each open character is where its entry says, and the
  separator is the comma it says, unless there was none yet.
\<close>

definition in_text :: "PartialJsonBuilder \<Rightarrow> bool" where
  "in_text b \<longleftrightarrow>
     (\<forall>(c, p)\<in>set (openCloseStack b). p < length (pj_buffer b) \<and> pj_buffer b ! p = c) \<and>
     (sep_state (lastSeparator b) \<noteq> BEGIN_STATE \<longrightarrow>
        sep_position (lastSeparator b) < length (pj_buffer b) \<and> pj_buffer b ! sep_position (lastSeparator b) = CHR '','')"

lemma in_text_simps [simp]:
  "in_text (b\<lparr>pj_state := s\<rparr>) = in_text b" "in_text (advance b) = in_text b"
  by (simp_all add: in_text_def advance_def)

lemma in_text_pop: "in_text b \<Longrightarrow> in_text (b\<lparr>openCloseStack := tl (openCloseStack b), pj_state := s\<rparr>)"
  by (cases "openCloseStack b") (auto simp: in_text_def)

lemma in_text_scan_char:
  assumes "in_text b" "currentPosition b < length (pj_buffer b)" "pj_buffer b ! currentPosition b = c"
    and "scan_char before c b = Inr (b', esc)"
  shows "in_text b'"
proof -
  have push: "d = c \<Longrightarrow> in_text (push_open d s (b\<lparr>pj_state := t\<rparr>))" for d s t
    using assms(1-3) by (auto simp: in_text_def push_open_def)
  have comma: "CHR '','' = c \<Longrightarrow> in_text (comma (b\<lparr>pj_state := t\<rparr>))" for t
    using assms(1-3) by (auto simp: in_text_def comma_def)
  have close: "in_text (close_bracket o' (b\<lparr>pj_state := t\<rparr>))" for o' t
    using assms(1) in_text_pop [of "b\<lparr>pj_state := t\<rparr>"] by (simp add: close_bracket_def Let_def)
  have "in_text (structural_char c b)"
    unfolding structural_char_def Let_def using assms(1) by (simp add: push comma close split: if_split)
  moreover have "in_text (closing_quote b)" using assms(1) in_text_pop by (simp add: closing_quote_def Let_def)
  ultimately show ?thesis using assms(1,4) by (auto simp: scan_char_def split: if_splits option.splits)
qed

lemma in_text_scan:
  "in_text b \<Longrightarrow> currentPosition b \<le> length (pj_buffer b) \<Longrightarrow> cs = take n (drop (currentPosition b) (pj_buffer b)) \<Longrightarrow>
     scan_loop cs esc b = (b', r) \<Longrightarrow> in_text b'"
proof (induction cs arbitrary: n esc b)
  case (Cons c cs)
  show ?case
  proof (cases "pj_state b = END_STATE")
    case False
    have n: "n \<noteq> 0" "currentPosition b < length (pj_buffer b)" using Cons.prems(3) by (auto intro: ccontr)
    then have "c # cs = pj_buffer b ! currentPosition b # take (n - 1) (drop (Suc (currentPosition b)) (pj_buffer b))"
      using Cons.prems(3) by (metis Cons_nth_drop_Suc Suc_diff_1 bot_nat_0.not_eq_extremum take_Suc_Cons)
    then have c: "pj_buffer b ! currentPosition b = c" "cs = take (n - 1) (drop (Suc (currentPosition b)) (pj_buffer b))" by simp_all
    show ?thesis
    proof (cases "scan_char (take (currentPosition b) (pj_buffer b)) c b")
      case (Inr p)
      obtain b1 e1 where p: "p = (b1, e1)" by fastforce
      have loop: "scan_loop cs e1 (advance b1) = (b', r)" using Cons.prems(4) False Inr p by simp
      have s: "scan_char (take (currentPosition b) (pj_buffer b)) c b = Inr (b1, e1)" using Inr p by simp
      have f: "pj_buffer b1 = pj_buffer b" "currentPosition b1 = currentPosition b" using scan_char_frame [OF s] by auto
      have "in_text (advance b1)" using in_text_scan_char [OF Cons.prems(1) n(2) c(1) s] by simp
      then show ?thesis by (rule Cons.IH [OF _ _ _ loop]) (use n(2) f c(2) in \<open>simp_all add: advance_def\<close>)
    qed (use Cons.prems(1,4) False in simp)
  qed (use Cons.prems(1,4) in simp)
qed simp

lemma in_text_close_up:
  assumes "in_text b" "close_up parse esc b = (b', r)"
  shows "in_text b'"
proof -
  have "in_text (restart b)" using assms(1) by (auto simp: in_text_def restart_def dest!: set_dropWhileD)
  then show ?thesis using assms by (auto simp: close_up_def trimmed_input_def Let_def split: if_splits)
qed

lemma in_text_run: "in_text (pj_run parse cs)"
proof (induction cs rule: rev_induct)
  case Nil
  show ?case by (simp add: pj_run_def in_text_def new_PartialJsonBuilder_def)
next
  case (snoc c cs)
  let ?b = "pj_run parse cs"
  let ?b1 = "?b\<lparr>pj_buffer := pj_buffer ?b @ c\<rparr>"
  obtain b2 r2 where scan: "scan_loop (drop (currentPosition ?b) (pj_buffer ?b1)) False ?b1 = (b2, r2)" by fastforce
  have "in_text ?b1" using snoc by (auto simp: in_text_def nth_append)
  then have "in_text b2"
    using in_text_scan [of ?b1 "drop (currentPosition ?b) (pj_buffer ?b1)" "length (pj_buffer ?b1)" False b2 r2] scan
      pj_run_frame [of parse cs] by simp
  moreover have "pj_run parse (cs @ [c]) = (case r2 of Inl e \<Rightarrow> b2 | Inr esc \<Rightarrow> fst (close_up parse esc b2))"
    using scan by (simp add: pj_run_def pj_add_def Let_def split: sum.split)
  ultimately show ?case using in_text_close_up [of b2 parse] by (cases r2) (auto intro: prod.collapse [symmetric])
qed

lemma scanning_ok:
  assumes "b' = fst (scan_loop (take n (drop (currentPosition (pj_run parse cs)) (concat cs @ y))) False
      ((pj_run parse cs)\<lparr>pj_buffer := concat cs @ y\<rparr>))"
  shows "builder_ok b' \<and> in_text b'"
proof -
  let ?b = "(pj_run parse cs)\<lparr>pj_buffer := concat cs @ y\<rparr>"
  note frame = pj_run_frame [of parse cs]
  obtain r where scan: "scan_loop (take n (drop (currentPosition (pj_run parse cs)) (concat cs @ y))) False ?b = (b', r)"
    using assms by (metis prod.collapse)
  have "in_text ?b" using in_text_run [of parse cs] frame by (auto simp: in_text_def nth_append)
  then have "in_text b'" by (rule in_text_scan [OF _ _ _ scan]) (use frame in auto)
  then show ?thesis using scan_loop_ok [OF _ scan] frame by simp
qed

text \<open>
  C25: Whatever chunks are added, exceptions or not, and wherever the loop then stands in the text that follows:
  the buffer begins with the text received and the position is inside it; every entry of the stack is an
  opening character that stands in the text at the position of the entry; positions fall from the back of
  the stack; only the back can be a quote, which it is exactly while a string is scanned, and all other
  entries are brackets, of which there is none exactly at the beginning and at the end; and the last
  separator is a comma of the text that stands not after the position, before the string being scanned and
  after the outermost open bracket, unless there was none yet.
\<close>

theorem builder_stays_well_formed:
  assumes "b = pj_run parse cs \<or> (\<exists>n y. b = (fst (scan_loop (take n (drop (currentPosition (pj_run parse cs)) (concat cs @ y))) False
      ((pj_run parse cs)\<lparr>pj_buffer := concat cs @ y\<rparr>)))\<lparr>pj_buffer := concat cs @ y\<rparr>)"
  shows "take (length (concat cs)) (pj_buffer b) = concat cs \<and> currentPosition b \<le> length (pj_buffer b) \<and>
    (\<forall>(c, p)\<in>set (openCloseStack b). p < currentPosition b \<and> pj_buffer b ! p = c) \<and>
    sorted_wrt (>) (map snd (openCloseStack b)) \<and>
    (if pj_state b = PROCESSING_STRING
     then back_is quote_char (openCloseStack b) \<and> brackets (tl (openCloseStack b)) \<and> tl (openCloseStack b) \<noteq> []
     else brackets (openCloseStack b) \<and> (openCloseStack b = [] \<longleftrightarrow> pj_state b \<in> {BEGIN_STATE, END_STATE})) \<and>
    sep_position (lastSeparator b) \<le> currentPosition b \<and>
    sep_state (lastSeparator b) \<notin> {PROCESSING_STRING, PROCESSING_KEY, END_STATE} \<and>
    (pj_state b = PROCESSING_STRING \<longrightarrow> sep_position (lastSeparator b) \<le> snd (hd (openCloseStack b))) \<and>
    (if sep_state (lastSeparator b) = BEGIN_STATE then sep_position (lastSeparator b) = 0
     else pj_buffer b ! sep_position (lastSeparator b) = CHR '','' \<and>
       (openCloseStack b \<noteq> [] \<longrightarrow> snd (last (openCloseStack b)) < sep_position (lastSeparator b)))"
proof -
  note frame = pj_run_frame [of parse cs]
  have "builder_ok b \<and> in_text b \<and> take (length (concat cs)) (pj_buffer b) = concat cs \<and> currentPosition b \<le> length (pj_buffer b)"
    using assms
  proof (elim disjE exE)
    fix n y assume b: "b = (fst (scan_loop (take n (drop (currentPosition (pj_run parse cs)) (concat cs @ y))) False
      ((pj_run parse cs)\<lparr>pj_buffer := concat cs @ y\<rparr>)))\<lparr>pj_buffer := concat cs @ y\<rparr>"
    let ?b1 = "(pj_run parse cs)\<lparr>pj_buffer := concat cs @ y\<rparr>"
    obtain b' r where scan: "scan_loop (take n (drop (currentPosition (pj_run parse cs)) (concat cs @ y))) False ?b1 = (b', r)"
      by fastforce
    have f: "pj_buffer b' = concat cs @ y" "currentPosition b' \<le> currentPosition (pj_run parse cs) +
        length (take n (drop (currentPosition (pj_run parse cs)) (concat cs @ y)))" using scan_loop_frame [OF scan] by auto
    then have "b = b'" using b scan by simp
    moreover have "builder_ok b' \<and> in_text b'" by (rule scanning_ok [of _ n parse cs y]) (simp only: scan fst_conv)
    ultimately show ?thesis using f frame by (auto simp: min_def split: if_splits)
  qed (use frame in_text_run in auto)
  then show ?thesis by (auto simp: builder_ok_def open_ok_def separator_ok_def open_brackets_def in_text_def split: if_splits)
qed

definition half_object :: string where
  "half_object = [CHR ''{'', quote_char, CHR ''a'', quote_char, CHR '':'', CHR '' '']"

theorem builder_stays_well_formed_witness:
  "back_is quote_char (openCloseStack (fst (scan_loop [quote_char, CHR ''x''] False
      ((pj_run (\<lambda>s. Some (JString s :: int json)) [half_object])\<lparr>pj_buffer := concat [half_object] @ [quote_char, CHR ''x'']\<rparr>))))"
proof -
  let ?p = "\<lambda>s. Some (JString s :: int json)" and ?y = "[quote_char, CHR ''x'']"
  let ?b = "fst (scan_loop ?y False ((pj_run ?p [half_object])\<lparr>pj_buffer := concat [half_object] @ ?y\<rparr>)) \<lparr>pj_buffer := concat [half_object] @ ?y\<rparr>"
  have "take 2 (drop (currentPosition (pj_run ?p [half_object])) (concat [half_object] @ ?y)) = ?y" by code_simp
  then have "?b = pj_run ?p [half_object] \<or> (\<exists>n y. ?b = (fst (scan_loop (take n (drop (currentPosition (pj_run ?p [half_object])) (concat [half_object] @ y))) False
      ((pj_run ?p [half_object])\<lparr>pj_buffer := concat [half_object] @ y\<rparr>)))\<lparr>pj_buffer := concat [half_object] @ y\<rparr>)"
    by (intro disjI2 exI [of _ 2] exI [of _ ?y]) simp
  from builder_stays_well_formed [OF this] have "pj_state ?b = PROCESSING_STRING \<Longrightarrow> back_is quote_char (openCloseStack ?b)" by simp
  moreover have "pj_state ?b = PROCESSING_STRING" by code_simp
  ultimately show ?thesis by simp
qed

text \<open>
  C7: In a well separated text the cut into chunks does not matter: after chunks that raised
  nothing, a further nonempty chunk gives the builder, the document or the exception that the
  whole text gives a fresh builder at once, although the builder goes back to the last separator
  whenever a value is not finished.
\<close>

theorem chunks_of_json_do_not_matter:
  assumes "pj_feed parse cs new_PartialJsonBuilder = (b, Inr docs)"
    and "well_separated (concat cs @ c)" and "c \<noteq> []"
  shows "pj_add parse c b = pj_add parse (concat cs @ c) new_PartialJsonBuilder"
  using pj_add_whole [OF pj_feed_settled [OF assms(1)] assms(3)]
    well_separated_prefix [OF assms(2)] by simp

definition echo :: "string \<Rightarrow> int json option" where
  "echo s = Some (JString s)"

definition json_chunks :: "string list" where
  "json_chunks = [half_object @ ''[1,'', '' tr'', ''ue], '' @ [quote_char]]"

definition json_last :: string where
  "json_last = [CHR ''b'', quote_char] @ '':{}}''"

theorem chunks_of_json_do_not_matter_witness:
  "pj_add echo json_last (fst (pj_feed echo json_chunks new_PartialJsonBuilder)) =
     pj_add echo (concat json_chunks @ json_last) new_PartialJsonBuilder \<and>
   isComplete (fst (pj_add echo (concat json_chunks @ json_last) new_PartialJsonBuilder))"
proof
  have ok: "\<exists>docs. snd (pj_feed echo json_chunks new_PartialJsonBuilder) = Inr docs"
    by (intro exI [of _ "projr (snd (pj_feed echo json_chunks new_PartialJsonBuilder))"]) code_simp
  then obtain docs where
    feed: "pj_feed echo json_chunks new_PartialJsonBuilder =
      (fst (pj_feed echo json_chunks new_PartialJsonBuilder), Inr docs)"
    by (metis prod.collapse)
  have ws: "well_separated (concat json_chunks @ json_last)" by code_simp
  show "pj_add echo json_last (fst (pj_feed echo json_chunks new_PartialJsonBuilder)) =
     pj_add echo (concat json_chunks @ json_last) new_PartialJsonBuilder"
    by (rule chunks_of_json_do_not_matter [OF feed ws]) (simp add: json_last_def)
  show "isComplete (fst (pj_add echo (concat json_chunks @ json_last) new_PartialJsonBuilder))" by code_simp
qed

text \<open>The differences of successive documents.\<close>

fun deltas :: "'n members \<Rightarrow> 'n members list \<Rightarrow> 'n members list" where
  "deltas previous [] = []"
| "deltas previous (current # rest) = computeDeltaImpl previous current # deltas current rest"

lemma one_delta: "members_grow old new \<Longrightarrow> apply_delta old (computeDeltaImpl old new) = new"
  using delta_applied(2) [of old new, rule_format, of "[]" old] by simp

text \<open>
  C17: The deltas of a growing document rebuild it: a client that applies the differences of
  the successive documents, one after the other, to the first ends with the last.
\<close>

theorem deltas_rebuild_the_document:
  assumes "successively members_grow (first # docs)"
  shows "fold (\<lambda>d m. apply_delta m d) (deltas first docs) first = last (first # docs)"
  using assms
proof (induction docs arbitrary: first)
  case (Cons d docs)
  then show ?case using one_delta [of first d] by simp
qed simp

theorem deltas_rebuild_the_document_witness:
  "fold (\<lambda>d m. apply_delta m d)
     (deltas [] [[(''name'', JString ''f'')], [(''name'', JString ''f''), (''arguments'', JNull)],
                 [(''name'', JString ''f''), (''arguments'', JString ''{a'')],
                 [(''name'', JString ''f''), (''arguments'', JString ''{a:1}'')]]) [] =
   [(''name'', JString ''f''), (''arguments'', (JString ''{a:1}'' :: int json))]"
proof -
  have g: "grows (JString s) (JString (s @ t) :: int json)" if "CHR 0x00 \<notin> set (s @ t)" for s t
    using that by (rule grows_string)
  have s: "successively members_grow
     ([] # [[(''name'', JString ''f'')], [(''name'', JString ''f''), (''arguments'', JNull)],
      [(''name'', JString ''f''), (''arguments'', JString ''{a'')],
      [(''name'', JString ''f''), (''arguments'', (JString ''{a:1}'' :: int json))]])"
    using g [of "''{a''" "'':1}''"] by (auto intro!: grows_members_grow.intros)
  show ?thesis using deltas_rebuild_the_document [OF s] by simp
qed

text \<open>
  A number with a sign is refused as the value of a member: where a value is awaited, a
  chunk that begins with a minus raises the exception for an invalid value, whatever follows.
\<close>

theorem negative_members_are_refused:
  assumes "pj_state b = AWAITING_VALUE" "currentPosition b = length (pj_buffer b)"
  shows "pj_add parse (CHR ''-'' # digits) b =
    (b\<lparr>pj_buffer := pj_buffer b @ CHR ''-'' # digits\<rparr>,
     Inl (RuntimeError ''Invalid JSON: Expected value to start with '{', '[', '\"', digit, 't', 'f', or 'n'.''))"
  using assms by (simp add: pj_add_def scan_char_def refused_def is_space_def is_digit_def quote_char_def)

theorem negative_members_are_refused_witness:
  "snd (pj_add echo ''-1}'' (pj_run echo [half_object])) =
     Inl (RuntimeError ''Invalid JSON: Expected value to start with '{', '[', '\"', digit, 't', 'f', or 'n'.'')"
proof -
  have "pj_state (pj_run echo [half_object]) = AWAITING_VALUE"
    "currentPosition (pj_run echo [half_object]) = length (pj_buffer (pj_run echo [half_object]))"
    by code_simp+
  from negative_members_are_refused [OF this, of echo "''1}''"] show ?thesis by simp
qed

text \<open>
  The escape that ends the buffer is forgotten when the next chunk is empty: the text the
  parser gets then has its closing quote escaped.
\<close>

definition escaped_end :: string where
  "escaped_end = half_object @ [quote_char, CHR ''x'', backslash_char]"

lemma empty_chunk_forgets_the_escape:
  "snd (pj_add echo escaped_end new_PartialJsonBuilder) =
     Inr (JString (half_object @ [quote_char, CHR ''x'', quote_char, CHR ''}''])) \<and>
   snd (pj_add echo [] (fst (pj_add echo escaped_end new_PartialJsonBuilder))) =
     Inr (JString (half_object @ [quote_char, CHR ''x'', backslash_char, quote_char, CHR ''}'']))"
  by code_simp

end
