(* ===== verification/Tool_Parsers.thy ===== *)
theory Tool_Parsers
  imports Partial_Json Output_Parsers
begin

text \<open>
  The tool parsers whose calls are JSON objects between tags: the Hermes3 parser
  (\<open>src/llm/io_processing/hermes3/tool_parser.cpp\<close> and \<open>.hpp\<close>) and the Llama3 parser
  (\<open>src/llm/io_processing/llama3/tool_parser.cpp\<close> and \<open>.hpp\<close>), with what all JSON tool parsers
  share. rapidjson's parser of complete texts is the parameter \<open>parse\<close>, and \<open>random_id k\<close> is
  the identifier \<open>generateRandomId\<close> draws as its \<open>k\<close>-th.
\<close>

section \<open>Documents of a tool call\<close>

text \<open>
  \<open>HasMember\<close> and the string members. The last document is null before the first call, and a
  null has no members; a parsed document that is neither null nor an object is an assertion of
  rapidjson, written out in \<open>object_only\<close>.
\<close>

definition has_member :: "string \<Rightarrow> 'n json \<Rightarrow> bool" where
  "has_member name v \<longleftrightarrow> (case v of JObject ms \<Rightarrow> map_of ms name \<noteq> None | _ \<Rightarrow> False)"

definition string_member :: "string \<Rightarrow> 'n json \<Rightarrow> string option" where
  "string_member name v =
     (case v of
        JObject ms \<Rightarrow> (case map_of ms name of Some (JString s) \<Rightarrow> Some (c_str s) | _ \<Rightarrow> None)
      | _ \<Rightarrow> None)"

definition object_only :: "'n json \<Rightarrow> 'n json result" where
  "object_only v = (case v of JObject _ \<Rightarrow> Inr v | JNull \<Rightarrow> Inr v | _ \<Rightarrow> Inl (LogicError ''IsObject()''))"

abbreviation arguments_key :: string where "arguments_key \<equiv> ''arguments''"

text \<open>The name of the function, from the last document or else from the new one.\<close>

definition function_name :: "'n json \<Rightarrow> 'n json \<Rightarrow> string option" where
  "function_name lastJson newJson =
     (case string_member ''name'' lastJson of Some n \<Rightarrow> Some n | None \<Rightarrow> string_member ''name'' newJson)"

text \<open>
  The delta of a running call: nothing when the difference is empty or has a null or an empty
  string in it.
\<close>

definition silent :: "'n json \<Rightarrow> bool" where
  "silent v \<longleftrightarrow> (case v of JNull \<Rightarrow> True | JString s \<Rightarrow> c_str s = [] | _ \<Rightarrow> False)"

definition arguments_delta :: "int \<Rightarrow> 'n json \<Rightarrow> Delta option" where
  "arguments_delta index d =
     (case d of
        JObject ms \<Rightarrow>
          (if ms = [] \<or> list_ex (\<lambda>(_, v). silent v) ms then None
           else Some (ToolCallDelta index None None
                  (case string_member arguments_key d of Some s \<Rightarrow> s | None \<Rightarrow> [])))
      | _ \<Rightarrow> None)"

abbreviation broken_call :: exn where
  "broken_call \<equiv> RuntimeError ''Generated tool call structure is not valid''"

abbreviation missing_name :: exn where
  "missing_name \<equiv> RuntimeError ''Tool call name is missing in generated output''"

section \<open>Quotes around the arguments\<close>

text \<open>\<open>openArgumentsString\<close>: a quote before the first character that is no blank.\<close>

definition openArgumentsString :: "string \<Rightarrow> string" where
  "openArgumentsString chunk =
     (if dropWhile is_space chunk \<noteq> []
      then takeWhile is_space chunk @ quote_char # dropWhile is_space chunk else chunk @ [quote_char])"

text \<open>Where the last closing brace is; a quote in front of it.\<close>

definition last_brace :: "string \<Rightarrow> nat option" where
  "last_brace chunk = str_rfind [CHR ''}''] chunk"

definition insert_quote :: "nat \<Rightarrow> string \<Rightarrow> string" where
  "insert_quote p chunk = take p chunk @ quote_char # drop p chunk"

text \<open>\<open>closeArgumentsString\<close>, the \<open>handleGenerationFinish\<close> of other parsers.\<close>

definition closeArgumentsString :: "string \<Rightarrow> string" where
  "closeArgumentsString chunk =
     (case last_brace chunk of Some p \<Rightarrow> insert_quote p chunk | None \<Rightarrow> chunk @ [quote_char])"

section \<open>The Hermes3 tool parser\<close>

record 'n hermes3 =
  h3_lastJson :: "'n json"
  h3_builder :: PartialJsonBuilder
  h3_index :: int
  h3_window0 :: string
  h3_window1 :: string
  h3_unprocessed :: string
  h3_completed :: bool
  h3_drawn :: nat

definition toolCallStartTag :: string where "toolCallStartTag = ''<tool_call>''"
definition toolCallEndTag :: string where "toolCallEndTag = ''</tool_call>''"

definition new_hermes3 :: "'n hermes3" where
  "new_hermes3 =
     \<lparr>h3_lastJson = JNull, h3_builder = new_PartialJsonBuilder, h3_index = -1, h3_window0 = [],
      h3_window1 = [], h3_unprocessed = [], h3_completed = False, h3_drawn = 0\<rparr>"

definition hermes3_config :: OutputParsingConfig where
  "hermes3_config = empty_OutputParsingConfig\<lparr>pc_startTags := [''<tool_call>''], pc_endTags := [''</tool_call>'']\<rparr>"

definition hermes3_resetState :: "'n hermes3 \<Rightarrow> 'n hermes3" where
  "hermes3_resetState s =
     s\<lparr>h3_lastJson := JNull, h3_builder := pj_clear (h3_builder s), h3_index := -1, h3_window0 := [],
       h3_window1 := [], h3_unprocessed := [], h3_completed := False\<rparr>"

definition hermes3_clearState :: "'n hermes3 \<Rightarrow> 'n hermes3" where
  "hermes3_clearState s =
     s\<lparr>h3_unprocessed := [], h3_builder := pj_clear (h3_builder s), h3_lastJson := JObject [],
       h3_window0 := [], h3_window1 := []\<rparr>"

text \<open>The splits of phase 1: what goes on is the chunk, the rest waits for the next call.\<close>

definition h3_postpone :: "nat \<Rightarrow> string \<Rightarrow> 'n hermes3 \<Rightarrow> string \<times> 'n hermes3" where
  "h3_postpone p chunk s = (take p chunk, s\<lparr>h3_unprocessed := drop p chunk @ h3_unprocessed s\<rparr>)"

definition h3_movePostColon :: "string \<Rightarrow> 'n hermes3 \<Rightarrow> string \<times> 'n hermes3" where
  "h3_movePostColon chunk s =
     (case str_find '':'' chunk 0 of None \<Rightarrow> (chunk, s) | Some p \<Rightarrow> h3_postpone (p + 1) chunk s)"

definition h3_movePostEndTag :: "string \<Rightarrow> 'n hermes3 \<Rightarrow> string \<times> 'n hermes3" where
  "h3_movePostEndTag chunk s =
     (case str_find toolCallEndTag chunk 0 of
        None \<Rightarrow> (chunk, s) | Some p \<Rightarrow> h3_postpone (p + length toolCallEndTag) chunk s)"

definition h3_moveStartTag :: "string \<Rightarrow> 'n hermes3 \<Rightarrow> string \<times> 'n hermes3" where
  "h3_moveStartTag chunk s =
     (case str_find toolCallStartTag chunk 0 of
        None \<Rightarrow> (chunk, s) | Some p \<Rightarrow> if p \<noteq> 0 then h3_postpone p chunk s else (chunk, s))"

definition h3_split :: "string \<Rightarrow> 'n hermes3 \<Rightarrow> string \<times> 'n hermes3" where
  "h3_split chunk s =
     (case (if h3_window0 s = [] then h3_movePostColon chunk s else (chunk, s)) of
        (m, s1) \<Rightarrow> case h3_movePostEndTag m s1 of (m, s2) \<Rightarrow> h3_moveStartTag m s2)"

text \<open>\<open>findAndHandleEndTag\<close> and \<open>findAndHandleStartTag\<close>\<close>

definition findAndHandleEndTag :: "string \<Rightarrow> 'n hermes3 \<Rightarrow> bool \<times> string \<times> 'n hermes3" where
  "findAndHandleEndTag chunk s =
     (case str_find toolCallEndTag chunk 0 of
        None \<Rightarrow> (False, chunk, s) | Some p \<Rightarrow> (True, take p chunk, s\<lparr>h3_completed := True\<rparr>))"

definition findAndHandleStartTag :: "string \<Rightarrow> 'n hermes3 \<Rightarrow> bool \<times> string \<times> 'n hermes3" where
  "findAndHandleStartTag chunk s =
     (case str_find toolCallStartTag chunk 0 of
        None \<Rightarrow> (False, chunk, s)
      | Some p \<Rightarrow>
          (True, drop (p + length toolCallStartTag) chunk,
           (hermes3_clearState s)\<lparr>h3_index := h3_index s + 1\<rparr>))"

text \<open>
  Phase 3, once the arguments have begun: the new state, and the chunk when the builder is
  to be fed in this call.
\<close>

definition hermes3_window :: "string \<Rightarrow> 'n hermes3 \<Rightarrow> 'n hermes3 \<times> string option" where
  "hermes3_window chunk s =
     (let first = (h3_window0 s = []);
          m = (if first then openArgumentsString (escapeSpecialCharacters chunk)
               else escapeSpecialCharacters chunk);
          w = (if first then m
               else if h3_window1 s \<noteq> [] then h3_window1 s @ (if h3_completed s then m else [])
               else h3_window0 s);
          s1 = s\<lparr>h3_window0 := (if h3_completed s then closeArgumentsString w else w)\<rparr>
      in if first \<and> \<not> h3_completed s then (s1, None)
         else (s1\<lparr>h3_window1 := m\<rparr>, Some m))"

text \<open>Phase 4: the builder and the three cases.\<close>

definition hermes3_emit ::
    "(nat \<Rightarrow> string) \<Rightarrow> 'n json \<Rightarrow> 'n hermes3 \<Rightarrow> 'n hermes3 \<times> Delta option result" where
  "hermes3_emit random_id newJson s =
     (if has_member arguments_key newJson \<and> \<not> has_member arguments_key (h3_lastJson s) then
        (case function_name (h3_lastJson s) newJson of
           None \<Rightarrow> (s, Inl missing_name)
         | Some name \<Rightarrow>
             (s\<lparr>h3_lastJson := newJson, h3_drawn := Suc (h3_drawn s)\<rparr>,
              Inr (Some (ToolCallDelta (h3_index s) (Some (random_id (h3_drawn s))) (Some name) []))))
      else if has_member arguments_key (h3_lastJson s) then
        (case computeDelta (h3_lastJson s) newJson of
           Inl e \<Rightarrow> (s, Inl e)
         | Inr d \<Rightarrow> (s\<lparr>h3_lastJson := newJson\<rparr>, Inr (arguments_delta (h3_index s) d)))
      else (s\<lparr>h3_lastJson := newJson\<rparr>, Inr None))"

definition hermes3_feed ::
    "(string \<Rightarrow> 'n json option) \<Rightarrow> (nat \<Rightarrow> string) \<Rightarrow> string \<Rightarrow> 'n hermes3 \<Rightarrow> 'n hermes3 \<times> Delta option result" where
  "hermes3_feed parse random_id chunk s =
     (case pj_add parse (if h3_window0 s \<noteq> [] then h3_window0 s else chunk) (h3_builder s) of
        (b, Inl _) \<Rightarrow> (s\<lparr>h3_builder := b\<rparr>, Inl broken_call)
      | (b, Inr newJson) \<Rightarrow>
          (case object_only newJson of
             Inl e \<Rightarrow> (s\<lparr>h3_builder := b\<rparr>, Inl e)
           | Inr _ \<Rightarrow> hermes3_emit random_id newJson (s\<lparr>h3_builder := b\<rparr>)))"

definition hermes3_content ::
    "(string \<Rightarrow> 'n json option) \<Rightarrow> (nat \<Rightarrow> string) \<Rightarrow> string \<Rightarrow> 'n hermes3 \<Rightarrow> 'n hermes3 \<times> Delta option result" where
  "hermes3_content parse random_id chunk s =
     (if has_member arguments_key (h3_lastJson s) then
        (case hermes3_window chunk s of
           (s1, None) \<Rightarrow> (s1, Inr None)
         | (s1, Some m) \<Rightarrow> hermes3_feed parse random_id m s1)
      else hermes3_feed parse random_id chunk s)"

text \<open>Phase 0, and the tags of phase 2.\<close>

definition hermes3_begin :: "FinishReason \<Rightarrow> 'n hermes3 \<Rightarrow> 'n hermes3" where
  "hermes3_begin finishReason s =
     (if h3_completed s then hermes3_clearState s else s)\<lparr>h3_completed := (finishReason \<noteq> FR_NONE)\<rparr>"

definition hermes3_pending :: "'n hermes3 \<Rightarrow> bool" where
  "hermes3_pending s \<longleftrightarrow>
     h3_unprocessed s \<noteq> [] \<or> h3_window0 s \<noteq> [] \<or> h3_window1 s \<noteq> [] \<or>
     has_member arguments_key (h3_lastJson s)"

definition hermes3_tags ::
    "(string \<Rightarrow> 'n json option) \<Rightarrow> (nat \<Rightarrow> string) \<Rightarrow> string \<Rightarrow> 'n hermes3 \<Rightarrow> 'n hermes3 \<times> Delta option result" where
  "hermes3_tags parse random_id chunk s =
     (case findAndHandleEndTag chunk s of
        (ended, m, s1) \<Rightarrow>
          if ended \<and> m = [] \<and> \<not> has_member arguments_key (h3_lastJson s1) then (s1, Inr None)
          else case findAndHandleStartTag m s1 of
                 (started, m, s2) \<Rightarrow>
                   if started \<and> m = [] then (s2, Inr None) else hermes3_content parse random_id m s2)"

definition hermes3_parseChunk ::
    "(string \<Rightarrow> 'n json option) \<Rightarrow> (nat \<Rightarrow> string) \<Rightarrow> 'n hermes3 \<Rightarrow> string \<Rightarrow> int list \<Rightarrow> FinishReason \<Rightarrow>
     'n hermes3 \<times> Delta option result" where
  "hermes3_parseChunk parse random_id s chunk tokens finishReason =
     (let s1 = hermes3_begin finishReason s
      in if chunk = [] \<and> \<not> hermes3_pending s1 then (s1, Inr None)
         else case h3_split (h3_unprocessed s1 @ chunk) (s1\<lparr>h3_unprocessed := []\<rparr>) of
                (m, s2) \<Rightarrow> hermes3_tags parse random_id m s2)"

definition hermes3_tool_parser ::
    "(string \<Rightarrow> 'n json option) \<Rightarrow> (nat \<Rightarrow> string) \<Rightarrow> 'n hermes3 parser_ops" where
  "hermes3_tool_parser parse random_id =
     \<lparr>po_config = hermes3_config, po_parseChunk = hermes3_parseChunk parse random_id,
      po_drainPendingDelta = (\<lambda>s. (s, None)), po_resetState = hermes3_resetState,
      po_setImplicitStart = (\<lambda>_ s. s)\<rparr>"

section \<open>The Llama3 tool parser\<close>

record 'n llama3 =
  l3_lastJson :: "'n json"
  l3_builder :: PartialJsonBuilder
  l3_index :: int
  l3_window0 :: string
  l3_window1 :: string
  l3_drawn :: nat

definition llama3_separator :: string where "llama3_separator = '';''"

definition new_llama3 :: "'n llama3" where
  "new_llama3 =
     \<lparr>l3_lastJson = JNull, l3_builder = new_PartialJsonBuilder, l3_index = -1, l3_window0 = [],
      l3_window1 = [], l3_drawn = 0\<rparr>"

definition llama3_config :: OutputParsingConfig where
  "llama3_config =
     empty_OutputParsingConfig\<lparr>pc_startTags := [''<|python_tag|>''],
       pc_tokenIdStartTags := [''<|python_tag|>''], pc_preambleStartTags := [''{'']\<rparr>"

definition llama3_resetState :: "'n llama3 \<Rightarrow> 'n llama3" where
  "llama3_resetState s =
     s\<lparr>l3_lastJson := JNull, l3_builder := pj_clear (l3_builder s), l3_index := -1, l3_window0 := [], l3_window1 := []\<rparr>"

text \<open>
  \<open>lastJson.Clear()\<close> empties the document in place: an object keeps its type without members, a null stays.
\<close>

definition doc_Clear :: "'n json \<Rightarrow> 'n json" where
  "doc_Clear v = (case v of JNull \<Rightarrow> JNull | JArray _ \<Rightarrow> JArray [] | _ \<Rightarrow> JObject [])"

definition llama3_startNextToolCall :: "'n llama3 \<Rightarrow> 'n llama3" where
  "llama3_startNextToolCall s =
     s\<lparr>l3_lastJson := doc_Clear (l3_lastJson s), l3_builder := pj_clear (l3_builder s), l3_index := l3_index s + 1,
       l3_window0 := [], l3_window1 := []\<rparr>"

definition jsonHasArgumentsOrParameters :: "'n json \<Rightarrow> bool" where
  "jsonHasArgumentsOrParameters v \<longleftrightarrow> has_member arguments_key v \<or> has_member ''parameters'' v"

text \<open>The member is moved to the end under its new name, and the last member fills its place.\<close>

fun rename_parameters :: "'n members \<Rightarrow> 'n members" where
  "rename_parameters [] = []"
| "rename_parameters ((n, v) # ms) =
     (if n = ''parameters'' then (arguments_key, v) # ms else (n, v) # rename_parameters ms)"

definition changeParametersToArguments :: "'n json \<Rightarrow> 'n json" where
  "changeParametersToArguments v = (case v of JObject ms \<Rightarrow> JObject (rename_parameters ms) | _ \<Rightarrow> v)"

text \<open>
  The delay window: the new state, whether the call is finished, and whether the builder is to
  be fed in this call.
\<close>

definition llama3_window :: "FinishReason \<Rightarrow> string \<Rightarrow> 'n llama3 \<Rightarrow> 'n llama3 \<times> bool \<times> bool" where
  "llama3_window finishReason chunk s =
     (let m = escapeSpecialCharacters chunk
      in if l3_window0 s = [] then (s\<lparr>l3_window0 := openArgumentsString m\<rparr>, False, False)
         else
           let w = (if l3_window1 s \<noteq> [] then l3_window1 s else l3_window0 s);
               close = (\<lambda>t. case last_brace t of Some p \<Rightarrow> insert_quote p t | None \<Rightarrow> t)
           in if finishReason \<noteq> FR_NONE then
                (s\<lparr>l3_window0 := (if m = [] then close w else w @ close m)\<rparr>, True, True)
              else if contains llama3_separator m then (s\<lparr>l3_window0 := close w\<rparr>, True, True)
              else (s\<lparr>l3_window0 := w, l3_window1 := m\<rparr>, False, True))"

definition llama3_emit ::
    "(nat \<Rightarrow> string) \<Rightarrow> bool \<Rightarrow> 'n json \<Rightarrow> 'n llama3 \<Rightarrow> 'n llama3 \<times> Delta option result" where
  "llama3_emit random_id finished_call newJson s =
     (if jsonHasArgumentsOrParameters newJson \<and> \<not> jsonHasArgumentsOrParameters (l3_lastJson s) then
        (let renamed = changeParametersToArguments newJson
         in case function_name (l3_lastJson s) renamed of
              None \<Rightarrow> (s, Inl missing_name)
            | Some name \<Rightarrow>
                (s\<lparr>l3_lastJson := renamed, l3_drawn := Suc (l3_drawn s)\<rparr>,
                 Inr (Some (ToolCallDelta (l3_index s) (Some (random_id (l3_drawn s))) (Some name) []))))
      else if jsonHasArgumentsOrParameters (l3_lastJson s) then
        (let renamed = changeParametersToArguments newJson
         in case computeDelta (l3_lastJson s) renamed of
              Inl e \<Rightarrow> (s, Inl e)
            | Inr d \<Rightarrow>
                (let s1 = s\<lparr>l3_lastJson := renamed\<rparr>
                 in case arguments_delta (l3_index s) d of
                      None \<Rightarrow> (s1, Inr None)
                    | Some delta \<Rightarrow>
                        ((if finished_call then llama3_startNextToolCall s1 else s1), Inr (Some delta))))
      else (s\<lparr>l3_lastJson := newJson\<rparr>, Inr None))"

definition llama3_feed ::
    "(string \<Rightarrow> 'n json option) \<Rightarrow> (nat \<Rightarrow> string) \<Rightarrow> bool \<Rightarrow> string \<Rightarrow> 'n llama3 \<Rightarrow> 'n llama3 \<times> Delta option result" where
  "llama3_feed parse random_id finished_call chunk s =
     (case pj_add parse (if l3_window0 s \<noteq> [] then l3_window0 s else chunk) (l3_builder s) of
        (b, Inl _) \<Rightarrow> (s\<lparr>l3_builder := b\<rparr>, Inl broken_call)
      | (b, Inr newJson) \<Rightarrow>
          (case object_only newJson of
             Inl e \<Rightarrow> (s\<lparr>l3_builder := b\<rparr>, Inl e)
           | Inr _ \<Rightarrow> llama3_emit random_id finished_call newJson (s\<lparr>l3_builder := b\<rparr>)))"

definition llama3_pending :: "'n llama3 \<Rightarrow> bool" where
  "llama3_pending s \<longleftrightarrow>
     l3_window0 s \<noteq> [] \<or> l3_window1 s \<noteq> [] \<or> jsonHasArgumentsOrParameters (l3_lastJson s)"

definition llama3_parseChunk ::
    "OutputParsingConfig \<Rightarrow> (string \<Rightarrow> 'n json option) \<Rightarrow> (nat \<Rightarrow> string) \<Rightarrow> 'n llama3 \<Rightarrow> string \<Rightarrow> int list \<Rightarrow>
     FinishReason \<Rightarrow> 'n llama3 \<times> Delta option result" where
  "llama3_parseChunk cfg parse random_id s chunk tokens finishReason =
     (if chunk = [] \<and> \<not> llama3_pending s then (s, Inr None)
      else case front_of (pc_startTags cfg) of
             Inl e \<Rightarrow> (s, Inl e)
           | Inr tag \<Rightarrow>
               if contains tag chunk then (llama3_startNextToolCall s, Inr None)
               else
                 let s1 = (if l3_index s < 0 then llama3_startNextToolCall s else s)
                 in if jsonHasArgumentsOrParameters (l3_lastJson s1) then
                      (case llama3_window finishReason chunk s1 of
                         (s2, finished_call, feed) \<Rightarrow>
                           if feed then llama3_feed parse random_id finished_call chunk s2 else (s2, Inr None))
                    else llama3_feed parse random_id False chunk s1)"

definition llama3_tool_parser ::
    "(string \<Rightarrow> 'n json option) \<Rightarrow> (nat \<Rightarrow> string) \<Rightarrow> 'n llama3 parser_ops" where
  "llama3_tool_parser parse random_id =
     \<lparr>po_config = llama3_config, po_parseChunk = llama3_parseChunk llama3_config parse random_id,
      po_drainPendingDelta = (\<lambda>s. (s, None)), po_resetState = llama3_resetState,
      po_setImplicitStart = (\<lambda>_ s. s)\<rparr>"

section \<open>Calls are announced before their arguments\<close>

text \<open>
  What a client of a tool parser relies on: the first delta of a call carries its index, an
  identifier and the name, and deltas of arguments belong to the call announced last.
\<close>

fun announced :: "int option \<Rightarrow> Delta list \<Rightarrow> bool" where
  "announced current [] \<longleftrightarrow> True"
| "announced current (ToolCallDelta i (Some k) (Some n) a # ds) \<longleftrightarrow> a = [] \<and> announced (Some i) ds"
| "announced current (ToolCallDelta i None None a # ds) \<longleftrightarrow> current = Some i \<and> announced current ds"
| "announced current (d # ds) \<longleftrightarrow> False"

definition delta_list :: "Delta option result \<Rightarrow> Delta list" where
  "delta_list r = (case r of Inr (Some d) \<Rightarrow> [d] | _ \<Rightarrow> [])"

text \<open>A run over chunks; a call that raises delivers nothing, and the caller may go on.\<close>

fun parser_run :: "'s parser_ops \<Rightarrow> 's \<Rightarrow> (string \<times> int list \<times> FinishReason) list \<Rightarrow> Delta list" where
  "parser_run ops s [] = []"
| "parser_run ops s ((chunk, tokens, fr) # calls) =
     (case po_parseChunk ops s chunk tokens fr of
        (s', r) \<Rightarrow> delta_list r @ parser_run ops s' calls)"

text \<open>Chunks that do not end a generation, without their tokens.\<close>

definition quietly :: "string list \<Rightarrow> (string \<times> int list \<times> FinishReason) list" where
  "quietly cs = map (\<lambda>c. (c, [], FR_NONE)) cs"

text \<open>The contract of one call; \<open>open_call\<close> is the call whose arguments the parser collects.\<close>

definition call_contract :: "int option \<Rightarrow> int option \<Rightarrow> Delta option result \<Rightarrow> bool" where
  "call_contract before after r \<longleftrightarrow>
     (case r of
        Inr (Some d) \<Rightarrow>
          (\<exists>i k n. d = ToolCallDelta i (Some k) (Some n) [] \<and> (after = None \<or> after = Some i)) \<or>
          (\<exists>i a. d = ToolCallDelta i None None a \<and> before = Some i \<and> (after = None \<or> after = before))
      | _ \<Rightarrow> after = None \<or> after = before)"

locale tool_call_stream =
  fixes ops :: "'s parser_ops" and open_call :: "'s \<Rightarrow> int option"
  assumes contract: "po_parseChunk ops s chunk tokens fr = (s', r) \<Longrightarrow> call_contract (open_call s) (open_call s') r"
    and reset: "open_call (po_resetState ops s) = None"
begin

lemma run_announced:
  "open_call s = None \<or> open_call s = current \<Longrightarrow> announced current (parser_run ops s calls)"
proof (induction calls arbitrary: s current)
  case (Cons call calls)
  obtain chunk tokens fr where call: "call = (chunk, tokens, fr)" by (metis prod_cases3)
  obtain s' r where step: "po_parseChunk ops s chunk tokens fr = (s', r)" by fastforce
  note c = contract [OF step, unfolded call_contract_def]
  show ?case
  proof (cases "\<exists>d. r = Inr (Some d)")
    case True
    then obtain d where r: "r = Inr (Some d)" by blast
    then show ?thesis
      using c Cons call step by (auto simp: delta_list_def)
  next
    case False
    then have "delta_list r = []" "open_call s' = None \<or> open_call s' = open_call s"
      using c by (auto simp: delta_list_def split: sum.splits option.splits)
    then show ?thesis using Cons call step by auto
  qed
qed simp

lemma generation_announced: "announced None (parser_run ops (po_resetState ops s) calls)"
  by (rule run_announced) (simp add: reset)

end

lemma call_contract_quiet: "after = None \<or> after = before \<Longrightarrow> call_contract before after (Inl e)"
  "after = None \<or> after = before \<Longrightarrow> call_contract before after (Inr None)"
  by (simp_all add: call_contract_def)

lemma call_contract_named:
  "call_contract before (Some i) (Inr (Some (ToolCallDelta i (Some k) (Some n) [])))"
  by (simp add: call_contract_def)

lemma call_contract_arguments:
  "after = None \<or> after = Some i \<Longrightarrow> call_contract (Some i) after (Inr (arguments_delta i d))"
  by (auto simp: call_contract_def arguments_delta_def split: json.splits)

definition h3_open :: "'n hermes3 \<Rightarrow> int option" where
  "h3_open s = (if has_member arguments_key (h3_lastJson s) then Some (h3_index s) else None)"

lemma has_member_simps [simp]:
  "\<not> has_member n JNull" "has_member n (JObject ms) \<longleftrightarrow> map_of ms n \<noteq> None"
  by (simp_all add: has_member_def)

lemma hermes3_emit_contract:
  assumes "hermes3_emit random_id newJson s = (s', r)"
  shows "call_contract (h3_open s) (h3_open s') r"
  using assms
  by (auto simp: hermes3_emit_def h3_open_def split: if_splits option.splits sum.splits
      intro!: call_contract_quiet call_contract_named call_contract_arguments)

lemma hermes3_feed_contract:
  assumes "hermes3_feed parse random_id chunk s = (s', r)"
  shows "call_contract (h3_open s) (h3_open s') r"
proof -
  have "h3_open (s\<lparr>h3_builder := b\<rparr>) = h3_open s" for b by (simp add: h3_open_def)
  then show ?thesis
    using assms hermes3_emit_contract [of random_id _ "s\<lparr>h3_builder := _\<rparr>" s' r]
    by (auto simp: hermes3_feed_def intro!: call_contract_quiet split: prod.splits sum.splits)
qed

lemma hermes3_window_open: "hermes3_window chunk s = (s', m) \<Longrightarrow> h3_open s' = h3_open s"
  by (auto simp: hermes3_window_def h3_open_def Let_def split: if_splits)

lemma hermes3_content_contract:
  assumes "hermes3_content parse random_id chunk s = (s', r)"
  shows "call_contract (h3_open s) (h3_open s') r"
  using assms hermes3_window_open [of chunk s]
  by (auto simp: hermes3_content_def split: if_splits prod.splits option.splits
      intro!: call_contract_quiet dest: hermes3_feed_contract)

lemma call_contract_None: "call_contract None after r \<Longrightarrow> call_contract before after r"
  by (auto simp: call_contract_def split: sum.splits option.splits)

text \<open>The splits and the end tag leave the document alone, a start tag empties it.\<close>

lemma h3_split_frame:
  "h3_split m s = (m', s') \<Longrightarrow> h3_open s' = h3_open s"
  by (auto simp: h3_split_def h3_movePostColon_def h3_movePostEndTag_def h3_moveStartTag_def h3_postpone_def
      h3_open_def split: if_splits option.splits prod.splits)

lemma h3_end_tag_open: "findAndHandleEndTag m s = (e, m', s') \<Longrightarrow> h3_open s' = h3_open s"
  by (auto simp: findAndHandleEndTag_def h3_open_def split: option.splits)

lemma h3_start_tag_open:
  "findAndHandleStartTag m s = (e, m', s') \<Longrightarrow> h3_open s' = h3_open s \<or> h3_open s' = None"
  by (auto simp: findAndHandleStartTag_def h3_open_def hermes3_clearState_def split: option.splits)

lemma hermes3_tags_contract:
  assumes "hermes3_tags parse random_id chunk s = (s', r)"
  shows "call_contract (h3_open s) (h3_open s') r"
proof -
  obtain e m1 s1 where e: "findAndHandleEndTag chunk s = (e, m1, s1)" by (metis prod_cases3)
  obtain b m2 s2 where b: "findAndHandleStartTag m1 s1 = (b, m2, s2)" by (metis prod_cases3)
  note open1 = h3_end_tag_open [OF e] and open2 = h3_start_tag_open [OF b]
  show ?thesis
  proof (cases "e \<and> m1 = [] \<and> \<not> has_member arguments_key (h3_lastJson s1)")
    case True
    then show ?thesis using assms e open1 by (auto simp: hermes3_tags_def intro!: call_contract_quiet)
  next
    case noend: False
    show ?thesis
    proof (cases "b \<and> m2 = []")
      case True
      then show ?thesis using assms e b noend open1 open2
        by (auto simp: hermes3_tags_def intro!: call_contract_quiet)
    next
      case False
      then have "hermes3_content parse random_id m2 s2 = (s', r)"
        using assms e b noend by (auto simp: hermes3_tags_def)
      from hermes3_content_contract [OF this] show ?thesis
        using open1 open2 call_contract_None by metis
    qed
  qed
qed

lemma h3_open_unprocessed [simp]: "h3_open (s\<lparr>h3_unprocessed := x\<rparr>) = h3_open s"
  by (cases s) (simp add: h3_open_def)

lemma hermes3_begin_open: "h3_open (hermes3_begin fr s) = h3_open s \<or> h3_open (hermes3_begin fr s) = None"
  by (simp add: hermes3_begin_def h3_open_def hermes3_clearState_def)

lemma hermes3_contract:
  assumes "hermes3_parseChunk parse random_id s chunk tokens fr = (s', r)"
  shows "call_contract (h3_open s) (h3_open s') r"
proof -
  let ?s = "hermes3_begin fr s"
  note b = hermes3_begin_open [of fr s]
  show ?thesis
  proof (cases "chunk = [] \<and> \<not> hermes3_pending ?s")
    case True
    then show ?thesis using assms b by (auto simp: hermes3_parseChunk_def Let_def intro!: call_contract_quiet)
  next
    case False
    obtain m s2 where split: "h3_split (h3_unprocessed ?s @ chunk) (?s\<lparr>h3_unprocessed := []\<rparr>) = (m, s2)"
      by fastforce
    then have "hermes3_tags parse random_id m s2 = (s', r)"
      using assms False by (auto simp: hermes3_parseChunk_def Let_def)
    from hermes3_tags_contract [OF this] h3_split_frame [OF split]
    have "call_contract (h3_open ?s) (h3_open s') r" by simp
    then show ?thesis using b call_contract_None by metis
  qed
qed

lemma hermes3_tool_stream: "tool_call_stream (hermes3_tool_parser parse random_id) h3_open"
proof
  show "po_parseChunk (hermes3_tool_parser parse random_id) s chunk tokens fr = (s', r) \<Longrightarrow>
      call_contract (h3_open s) (h3_open s') r" for s chunk tokens fr s' r
    using hermes3_contract [of parse random_id s chunk tokens fr s' r] by (simp add: hermes3_tool_parser_def)
  show "h3_open (po_resetState (hermes3_tool_parser parse random_id) s) = None" for s
    by (simp add: hermes3_tool_parser_def hermes3_resetState_def h3_open_def)
qed

interpretation hermes3: tool_call_stream "hermes3_tool_parser parse random_id" h3_open
  by (rule hermes3_tool_stream)

definition l3_open :: "'n llama3 \<Rightarrow> int option" where
  "l3_open s = (if jsonHasArgumentsOrParameters (l3_lastJson s) then Some (l3_index s) else None)"

lemma doc_Clear_empty [simp]: "\<not> jsonHasArgumentsOrParameters (doc_Clear v)"
  by (cases v) (auto simp: jsonHasArgumentsOrParameters_def doc_Clear_def has_member_def)

lemma llama3_startNext_open [simp]: "l3_open (llama3_startNextToolCall s) = None"
  by (simp add: llama3_startNextToolCall_def l3_open_def)

lemma call_contract_named':
  "after = None \<or> after = Some i \<Longrightarrow>
     call_contract before after (Inr (Some (ToolCallDelta i (Some k) (Some n) [])))"
  by (simp add: call_contract_def)

lemma arguments_delta_Some:
  "arguments_delta i d = Some delta \<Longrightarrow> \<exists>a. delta = ToolCallDelta i None None a"
  by (auto simp: arguments_delta_def split: json.splits if_splits)

lemma llama3_emit_contract:
  assumes "llama3_emit random_id f newJson s = (s', r)"
  shows "call_contract (l3_open s) (l3_open s') r"
proof -
  have keep: "l3_open (s\<lparr>l3_lastJson := v\<rparr>) \<in> {None, Some (l3_index s)}" for v
    by (simp add: l3_open_def)
  have drawn: "l3_open (s\<lparr>l3_lastJson := v, l3_drawn := k\<rparr>) \<in> {None, Some (l3_index s)}" for v k
    by (simp add: l3_open_def)
  consider (named) "jsonHasArgumentsOrParameters newJson \<and> \<not> jsonHasArgumentsOrParameters (l3_lastJson s)"
    | (args) "jsonHasArgumentsOrParameters (l3_lastJson s)"
    | (quiet) "\<not> jsonHasArgumentsOrParameters newJson" "\<not> jsonHasArgumentsOrParameters (l3_lastJson s)"
    by blast
  then show ?thesis
  proof cases
    case named
    then show ?thesis
      using assms drawn
      by (cases "function_name (l3_lastJson s) (changeParametersToArguments newJson)")
        (auto simp: llama3_emit_def Let_def intro: call_contract_quiet call_contract_named')
  next
    case args
    then have op: "l3_open s = Some (l3_index s)" by (simp add: l3_open_def)
    let ?v = "changeParametersToArguments newJson"
    show ?thesis
    proof (cases "computeDelta (l3_lastJson s) ?v")
      case (Inl e)
      then show ?thesis using assms args by (auto simp: llama3_emit_def intro: call_contract_quiet)
    next
      case (Inr d)
      show ?thesis
      proof (cases "arguments_delta (l3_index s) d")
        case None
        then have "s' = s\<lparr>l3_lastJson := ?v\<rparr>" "r = Inr None"
          using assms args Inr by (auto simp: llama3_emit_def Let_def)
        then show ?thesis using keep [of ?v] op by (auto intro: call_contract_quiet)
      next
        case (Some delta)
        then have "s' = (if f then llama3_startNextToolCall (s\<lparr>l3_lastJson := ?v\<rparr>) else s\<lparr>l3_lastJson := ?v\<rparr>)"
          "r = Inr (arguments_delta (l3_index s) d)"
          using assms args Inr Some by (auto simp: llama3_emit_def Let_def)
        then show ?thesis
          using keep [of ?v] op by (auto intro: call_contract_arguments)
      qed
    qed
  next
    case quiet
    then show ?thesis using assms by (auto simp: llama3_emit_def l3_open_def intro: call_contract_quiet)
  qed
qed

lemma l3_open_frame [simp]:
  "l3_open (s\<lparr>l3_builder := b\<rparr>) = l3_open s"
  "l3_open (s\<lparr>l3_window0 := x\<rparr>) = l3_open s"
  "l3_open (s\<lparr>l3_window1 := x\<rparr>) = l3_open s"
  by (simp_all add: l3_open_def)

lemma llama3_feed_contract:
  assumes "llama3_feed parse random_id f chunk s = (s', r)"
  shows "call_contract (l3_open s) (l3_open s') r"
  using assms llama3_emit_contract [of random_id f _ "s\<lparr>l3_builder := _\<rparr>" s' r]
  by (auto simp: llama3_feed_def intro!: call_contract_quiet split: prod.splits sum.splits)

lemma llama3_window_open: "llama3_window fr chunk s = (s', x) \<Longrightarrow> l3_open s' = l3_open s"
  by (auto simp: llama3_window_def Let_def split: if_splits)

lemma llama3_contract:
  assumes "llama3_parseChunk cfg parse random_id s chunk tokens fr = (s', r)"
  shows "call_contract (l3_open s) (l3_open s') r"
proof (cases "chunk = [] \<and> \<not> llama3_pending s \<or> (\<exists>e. front_of (pc_startTags cfg) = Inl e) \<or>
    (\<exists>tag. front_of (pc_startTags cfg) = Inr tag \<and> contains tag chunk)")
  case True
  then show ?thesis
    using assms by (auto simp: llama3_parseChunk_def intro!: call_contract_quiet split: if_splits)
next
  case False
  then obtain tag where tag: "front_of (pc_startTags cfg) = Inr tag" "\<not> contains tag chunk"
    by (cases "front_of (pc_startTags cfg)") auto
  define s1 where "s1 = (if l3_index s < 0 then llama3_startNextToolCall s else s)"
  have s1: "l3_open s1 = l3_open s \<or> l3_open s1 = None" by (simp add: s1_def)
  have "call_contract (l3_open s1) (l3_open s') r"
  proof (cases "jsonHasArgumentsOrParameters (l3_lastJson s1)")
    case no: False
    then have "llama3_feed parse random_id False chunk s1 = (s', r)"
      using assms False tag by (auto simp: llama3_parseChunk_def Let_def s1_def [symmetric])
    then show ?thesis by (rule llama3_feed_contract)
  next
    case True
    obtain s2 f feed where w: "llama3_window fr chunk s1 = (s2, f, feed)" by (metis prod_cases3)
    have "(if feed then llama3_feed parse random_id f chunk s2 else (s2, Inr None)) = (s', r)"
      using assms False tag True w by (auto simp: llama3_parseChunk_def Let_def s1_def [symmetric])
    then show ?thesis
      using llama3_window_open [OF w] llama3_feed_contract [of parse random_id f chunk s2 s' r]
      by (cases feed) (auto intro!: call_contract_quiet)
  qed
  then show ?thesis using s1 call_contract_None by metis
qed

lemma llama3_tool_stream: "tool_call_stream (llama3_tool_parser parse random_id) l3_open"
proof
  show "po_parseChunk (llama3_tool_parser parse random_id) s chunk tokens fr = (s', r) \<Longrightarrow>
      call_contract (l3_open s) (l3_open s') r" for s chunk tokens fr s' r
    using llama3_contract [of llama3_config parse random_id s chunk tokens fr s' r]
    by (simp add: llama3_tool_parser_def)
  show "l3_open (po_resetState (llama3_tool_parser parse random_id) s) = None" for s
    by (simp add: llama3_tool_parser_def llama3_resetState_def l3_open_def jsonHasArgumentsOrParameters_def)
qed

interpretation llama3: tool_call_stream "llama3_tool_parser parse random_id" l3_open
  by (rule llama3_tool_stream)

section \<open>Text the Hermes3 parser loses\<close>

lemma str_find_char: "c \<notin> set a \<Longrightarrow> str_find [c] (a @ c # v) 0 = Some (length a)"
proof -
  assume c: "c \<notin> set a"
  have "\<not> occurs_at [c] (a @ c # v) j" if "j < length a" for j
    using c that by (auto simp: occurs_at_def nth_append take_Suc_conv_app_nth [symmetric]
        dest!: arg_cong [of _ _ hd] simp: hd_drop_conv_nth)
  moreover have "occurs_at [c] (a @ c # v) (length a)" by (simp add: occurs_at_def)
  ultimately show ?thesis by (simp add: str_find_Some_iff)
qed

lemma str_find_at_front: "str_find p (p @ x) 0 = Some 0"
  by (simp add: str_find_Some_iff occurs_at_def)

lemma h3_move_end_none: "str_find toolCallEndTag m 0 = None \<Longrightarrow> h3_movePostEndTag m s = (m, s)"
  by (simp add: h3_movePostEndTag_def)

lemma h3_move_start_front: "h3_moveStartTag (toolCallStartTag @ x) s = (toolCallStartTag @ x, s)"
  by (simp add: h3_moveStartTag_def str_find_at_front)

lemma colon_not_in_start_tag: "CHR '':'' \<notin> set toolCallStartTag"
  by (simp add: toolCallStartTag_def)

text \<open>
  When a chunk brings the start tag and a colon, all that follows the colon is ignored: it is kept for
  the next call before the tag is handled, and the tag clears what is kept.
\<close>

theorem hermes3_ignores_text_after_the_start:
  assumes s: "h3_window0 s = []" "h3_unprocessed s = []" "\<not> h3_completed s"
    and u: "CHR '':'' \<notin> set u" "str_find toolCallEndTag (toolCallStartTag @ u @ '':'') 0 = None"
  shows "hermes3_parseChunk parse random_id s (toolCallStartTag @ u @ '':'' @ v) tokens fr =
         hermes3_parseChunk parse random_id s (toolCallStartTag @ u @ '':'') tokens fr"
proof -
  let ?s = "hermes3_begin fr s"
  let ?m = "toolCallStartTag @ u @ '':''"
  have s1: "h3_window0 ?s = []" "h3_unprocessed ?s = []" using s by (simp_all add: hermes3_begin_def)
  have colon: "str_find '':'' (toolCallStartTag @ u @ '':'' @ w) 0 = Some (length (toolCallStartTag @ u))" for w
    using str_find_char [of "CHR '':''" "toolCallStartTag @ u" w] u colon_not_in_start_tag by simp
  have split: "h3_split (toolCallStartTag @ u @ '':'' @ w) (?s\<lparr>h3_unprocessed := []\<rparr>) =
      (?m, ?s\<lparr>h3_unprocessed := w\<rparr>)" for w
    using colon [of w] s1
    by (simp add: h3_split_def h3_movePostColon_def h3_postpone_def h3_move_end_none [OF u(2)] h3_move_start_front)
  have tags: "hermes3_tags parse random_id ?m (?s\<lparr>h3_unprocessed := w\<rparr>) = hermes3_tags parse random_id ?m ?s" for w
    using u(2) str_find_at_front [of toolCallStartTag "u @ '':''"]
    by (simp add: hermes3_tags_def findAndHandleEndTag_def findAndHandleStartTag_def hermes3_clearState_def)
  have "hermes3_parseChunk parse random_id s (toolCallStartTag @ u @ '':'' @ w) tokens fr =
      hermes3_tags parse random_id ?m ?s" for w
    unfolding hermes3_parseChunk_def Let_def s1 append_Nil split
    using tags [of w] by (simp add: toolCallStartTag_def)
  from this [of v] this [of "[]"] show ?thesis by simp
qed

definition call_name :: string where
  "call_name = [CHR ''{'', quote_char] @ ''name'' @ [quote_char]"

definition call_value :: string where
  "call_value = [quote_char, CHR ''f'', quote_char]"

theorem hermes3_ignores_text_after_the_start_witness:
  "hermes3_parseChunk echo (\<lambda>_. ''id'') new_hermes3 (toolCallStartTag @ call_name @ '':'' @ call_value) [] FR_NONE =
     hermes3_parseChunk echo (\<lambda>_. ''id'') new_hermes3 (toolCallStartTag @ call_name @ '':'') [] FR_NONE"
proof (rule hermes3_ignores_text_after_the_start)
  show "CHR '':'' \<notin> set call_name" "str_find toolCallEndTag (toolCallStartTag @ call_name @ '':'') 0 = None"
    by code_simp+
qed (simp_all add: new_hermes3_def)

text \<open>
  When the arguments of a call come in two chunks, the last of which ends the generation,
  the last chunk is lost: the delta and the builder do not depend on it.
\<close>

lemma hermes3_second_chunk:
  assumes s: "has_member arguments_key (h3_lastJson s)" "h3_window0 s \<noteq> []" "h3_window1 s = []"
      "h3_unprocessed s = []" "\<not> h3_completed s" and fr: "fr \<noteq> FR_NONE"
    and c: "str_find toolCallEndTag c 0 = None" "str_find toolCallStartTag c 0 = None"
  shows "hermes3_parseChunk parse random_id s c tokens fr =
     hermes3_feed parse random_id (escapeSpecialCharacters c)
       (s\<lparr>h3_completed := True, h3_window0 := closeArgumentsString (h3_window0 s),
         h3_window1 := escapeSpecialCharacters c\<rparr>)"
proof -
  let ?s = "s\<lparr>h3_completed := True\<rparr>"
  have bg: "hermes3_begin fr s = ?s" using s fr by (simp add: hermes3_begin_def)
  have un: "s\<lparr>h3_completed := True, h3_unprocessed := []\<rparr> = ?s" using s by (cases s) simp
  have split: "h3_split c ?s = (c, ?s)"
    using s c by (simp add: h3_split_def h3_movePostEndTag_def h3_moveStartTag_def)
  have pend: "hermes3_pending ?s" using s by (simp add: hermes3_pending_def)
  have "hermes3_parseChunk parse random_id s c tokens fr = hermes3_tags parse random_id c ?s"
    using s pend split by (simp add: hermes3_parseChunk_def bg un)
  also have "\<dots> = hermes3_content parse random_id c ?s"
    using c by (simp add: hermes3_tags_def findAndHandleEndTag_def findAndHandleStartTag_def)
  also have "\<dots> = hermes3_feed parse random_id (escapeSpecialCharacters c)
       (?s\<lparr>h3_window0 := closeArgumentsString (h3_window0 s), h3_window1 := escapeSpecialCharacters c\<rparr>)"
    using s by (simp add: hermes3_content_def hermes3_window_def Let_def)
  finally show ?thesis by simp
qed

theorem hermes3_loses_the_second_of_two_chunks:
  assumes "has_member arguments_key (h3_lastJson s)" "h3_window0 s \<noteq> []" "h3_window1 s = []"
      "h3_unprocessed s = []" "\<not> h3_completed s" "fr \<noteq> FR_NONE"
    and "str_find toolCallEndTag c 0 = None" "str_find toolCallStartTag c 0 = None"
    and "str_find toolCallEndTag c' 0 = None" "str_find toolCallStartTag c' 0 = None"
  shows "snd (hermes3_parseChunk parse random_id s c tokens fr) = snd (hermes3_parseChunk parse random_id s c' tokens fr) \<and>
     h3_builder (fst (hermes3_parseChunk parse random_id s c tokens fr)) =
     h3_builder (fst (hermes3_parseChunk parse random_id s c' tokens fr))"
proof -
  have ne: "closeArgumentsString (h3_window0 s) \<noteq> []"
    using assms(2) by (auto simp: closeArgumentsString_def insert_quote_def split: option.splits)
  have feed: "snd (hermes3_feed parse random_id x (s1\<lparr>h3_window1 := w\<rparr>)) = snd (hermes3_feed parse random_id x' s1) \<and>
      h3_builder (fst (hermes3_feed parse random_id x (s1\<lparr>h3_window1 := w\<rparr>))) =
      h3_builder (fst (hermes3_feed parse random_id x' s1))" if "h3_window0 s1 \<noteq> []" for x x' w and s1 :: "'a hermes3"
    using that
    by (simp add: hermes3_feed_def hermes3_emit_def split: prod.split sum.split option.split)
  let ?s = "s\<lparr>h3_completed := True, h3_window0 := closeArgumentsString (h3_window0 s)\<rparr>"
  show ?thesis
    using feed [of ?s "escapeSpecialCharacters c" "escapeSpecialCharacters c" "escapeSpecialCharacters c"]
      feed [of ?s "escapeSpecialCharacters c'" "escapeSpecialCharacters c'" "escapeSpecialCharacters c"] ne
    unfolding hermes3_second_chunk [OF assms(1-6) assms(7,8)] hermes3_second_chunk [OF assms(1-6) assms(9,10)]
    by simp
qed

text \<open>The parser that collects arguments, for the examples: the name is known, one chunk is delayed.\<close>

definition collecting :: "int hermes3" where
  "collecting = new_hermes3\<lparr>h3_lastJson := JObject [(''name'', JString ''f''), (arguments_key, JNull)],
     h3_index := 0, h3_window0 := quote_char # ''{a'',
     h3_builder := pj_run echo [[CHR ''{'', quote_char] @ arguments_key @ [quote_char, CHR '':'']]\<rparr>"

theorem hermes3_loses_the_second_of_two_chunks_witness:
  "snd (hermes3_parseChunk echo (\<lambda>_. ''id'') collecting ''}}'' [] FR_STOP) =
     snd (hermes3_parseChunk echo (\<lambda>_. ''id'') collecting '': 1}}'' [] FR_STOP) \<and>
   h3_builder (fst (hermes3_parseChunk echo (\<lambda>_. ''id'') collecting ''}}'' [] FR_STOP)) =
     h3_builder (fst (hermes3_parseChunk echo (\<lambda>_. ''id'') collecting '': 1}}'' [] FR_STOP))"
proof (rule hermes3_loses_the_second_of_two_chunks)
  show "str_find toolCallEndTag ''}}'' 0 = None" "str_find toolCallStartTag ''}}'' 0 = None"
    "str_find toolCallEndTag '': 1}}'' 0 = None" "str_find toolCallStartTag '': 1}}'' 0 = None"
    by code_simp+
qed (simp_all add: collecting_def new_hermes3_def)

section \<open>A null member\<close>

text \<open>
  A member that is null in two successive documents is in their difference again, as the
  builder stands a null for a value not yet begun; the parsers then send nothing.
\<close>

lemma null_stays_in_the_delta:
  "map_of p n = Some JNull \<Longrightarrow> (n, JNull) \<in> set c \<Longrightarrow> (n, JNull) \<in> set (computeDeltaImpl p c)"
  by (induction c) (auto simp: computeDeltaImpl_Cons member_delta_def)

theorem null_member_silences_the_arguments:
  assumes "map_of p n = Some JNull" "(n, JNull) \<in> set c"
  shows "\<exists>d. computeDelta (JObject p) (JObject c) = Inr d \<and> arguments_delta i d = None"
proof -
  have "(n, JNull) \<in> set (computeDeltaImpl p c)" by (rule null_stays_in_the_delta [OF assms])
  then show ?thesis by (auto simp: computeDelta_def arguments_delta_def list_ex_iff silent_def intro!: bexI)
qed

end
