(* ===== verification/Array_Tool_Parsers.thy ===== *)
theory Array_Tool_Parsers
  imports Tool_Parsers
begin

text \<open>
  The tool parsers whose calls are the elements of a JSON array: Mistral
  (\<open>src/llm/io_processing/mistral/tool_parser.cpp\<close> and \<open>.hpp\<close>) and Phi4
  (\<open>src/llm/io_processing/phi4/tool_parser.cpp\<close> and \<open>.hpp\<close>). The two classes share most of their
  text; where they differ the definitions take the class as an argument.
\<close>

section \<open>State\<close>

datatype parser_class = Mistral | Phi4

datatype InternalState =
    AWAITING_START_TAG
  | AWAITING_TOOL_CALLS_OPENING_BRACKET
  | AWAITING_TOOL_CALL_OPENING_BRACE
  | PROCESSING_TOOL_CALL

record 'n array_parser =
  ap_state :: InternalState
  ap_lastJson :: "'n json"
  ap_builder :: PartialJsonBuilder
  ap_index :: int
  ap_opened :: bool
  ap_unprocessed :: string
  ap_braces :: int
  ap_drawn :: nat

definition new_array_parser :: "'n array_parser" where
  "new_array_parser =
     \<lparr>ap_state = AWAITING_START_TAG, ap_lastJson = JNull, ap_builder = new_PartialJsonBuilder, ap_index = -1,
      ap_opened = False, ap_unprocessed = [], ap_braces = 1, ap_drawn = 0\<rparr>"

definition mistral_config :: OutputParsingConfig where
  "mistral_config =
     empty_OutputParsingConfig\<lparr>pc_startTags := [''[TOOL_CALLS]'', [CHR ''['', CHR ''{'', quote_char]],
       pc_tokenIdStartTags := [''[TOOL_CALLS]'']\<rparr>"

definition phi4_config :: OutputParsingConfig where
  "phi4_config = empty_OutputParsingConfig\<lparr>pc_startTags := [''functools'']\<rparr>"

text \<open>\<open>resetState\<close>: the Mistral parser keeps its unprocessed buffer; neither resets the count of braces.\<close>

definition array_resetState :: "parser_class \<Rightarrow> 'n array_parser \<Rightarrow> 'n array_parser" where
  "array_resetState p s =
     (let s1 = s\<lparr>ap_state := AWAITING_START_TAG, ap_lastJson := JNull, ap_builder := pj_clear (ap_builder s),
                 ap_index := -1, ap_opened := False\<rparr>
      in case p of Mistral \<Rightarrow> s1 | Phi4 \<Rightarrow> s1\<lparr>ap_unprocessed := []\<rparr>)"

definition array_clearState :: "'n array_parser \<Rightarrow> 'n array_parser" where
  "array_clearState s =
     s\<lparr>ap_lastJson := doc_Clear (ap_lastJson s), ap_builder := pj_clear (ap_builder s), ap_index := ap_index s + 1,
       ap_opened := False, ap_braces := 1\<rparr>"

section \<open>Helpers\<close>

definition ap_movePostColon :: "string \<Rightarrow> 'n array_parser \<Rightarrow> string \<times> 'n array_parser" where
  "ap_movePostColon chunk s =
     (case str_find '':'' chunk 0 of
        None \<Rightarrow> (chunk, s)
      | Some p \<Rightarrow> (take (p + 1) chunk, s\<lparr>ap_unprocessed := drop (p + 1) chunk @ ap_unprocessed s\<rparr>))"

text \<open>\<open>movePostToolCallEndContentToUnprocessedBuffer\<close>: every backslash is removed.\<close>

definition ap_movePostToolCallEnd :: "'n array_parser \<Rightarrow> 'n array_parser" where
  "ap_movePostToolCallEnd s =
     s\<lparr>ap_unprocessed :=
         filter (\<lambda>c. c \<noteq> backslash_char) (getUnprocessedBuffer (ap_builder s) @ ap_unprocessed s)\<rparr>"

text \<open>\<open>updateOpenBracesCount\<close>; the count is a \<open>size_t\<close> and wraps below zero.\<close>

fun updateOpenBracesCount :: "string \<Rightarrow> int \<Rightarrow> int" where
  "updateOpenBracesCount [] n = n"
| "updateOpenBracesCount (c # cs) n =
     (if c = CHR ''{'' then updateOpenBracesCount cs ((n + 1) mod 18446744073709551616)
      else if c = CHR ''}'' then
        (let m = (n - 1) mod 18446744073709551616
         in if m = 0 then m else updateOpenBracesCount cs m)
      else updateOpenBracesCount cs n)"

definition handleEndOfToolCall :: "string \<Rightarrow> 'n array_parser \<Rightarrow> string \<times> 'n array_parser" where
  "handleEndOfToolCall chunk s =
     (case last_brace chunk of
        Some p \<Rightarrow>
          (insert_quote p (take (p + 1) chunk), s\<lparr>ap_unprocessed := drop (p + 1) chunk @ ap_unprocessed s\<rparr>)
      | None \<Rightarrow> (chunk @ [quote_char], s))"

section \<open>The states before a call\<close>

text \<open>Each gives the next state, and the text with which \<open>parseChunk\<close> calls itself.\<close>

definition visibleStartTag :: string where "visibleStartTag = ''[TOOL_CALLS]''"
definition streamingParsingStartTag :: string where "streamingParsingStartTag = [CHR ''['', CHR ''{'', quote_char]"
definition parsingStartTag :: string where "parsingStartTag = ''functools''"

definition mistral_start :: "string \<Rightarrow> 'n array_parser \<Rightarrow> 'n array_parser \<times> string option" where
  "mistral_start m s =
     (if contains visibleStartTag m \<or> contains streamingParsingStartTag m
      then (s\<lparr>ap_state := AWAITING_TOOL_CALLS_OPENING_BRACKET\<rparr>,
            Some (case str_find visibleStartTag m 0 of
                    None \<Rightarrow> m | Some p \<Rightarrow> take p m @ drop (p + length visibleStartTag) m))
      else (s, None))"

definition phi4_start :: "string \<Rightarrow> 'n array_parser \<Rightarrow> 'n array_parser \<times> string option" where
  "phi4_start m s =
     (case str_find parsingStartTag m 0 of
        None \<Rightarrow> (s, None)
      | Some p \<Rightarrow>
          (let rest = drop (p + length parsingStartTag) m
           in (s\<lparr>ap_state := AWAITING_TOOL_CALLS_OPENING_BRACKET\<rparr>,
               if length parsingStartTag < length m \<and> rest \<noteq> [] then Some rest else None)))"

definition at_bracket :: "string \<Rightarrow> 'n array_parser \<Rightarrow> 'n array_parser \<times> string option" where
  "at_bracket m s =
     (case m of
        c # rest \<Rightarrow>
          if c = CHR ''['' then (s\<lparr>ap_state := AWAITING_TOOL_CALL_OPENING_BRACE\<rparr>, if rest = [] then None else Some rest)
          else (s, None)
      | [] \<Rightarrow> (s, None))"

definition at_brace :: "string \<Rightarrow> 'n array_parser \<Rightarrow> 'n array_parser \<times> string option" where
  "at_brace m s =
     (case str_find ''{'' m 0 of
        None \<Rightarrow> (s, None)
      | Some p \<Rightarrow> (array_clearState (s\<lparr>ap_state := PROCESSING_TOOL_CALL\<rparr>), Some (drop p m)))"

definition before_call :: "parser_class \<Rightarrow> string \<Rightarrow> 'n array_parser \<Rightarrow> 'n array_parser \<times> string option" where
  "before_call p m s =
     (case ap_state s of
        AWAITING_START_TAG \<Rightarrow> (case p of Mistral \<Rightarrow> mistral_start m s | Phi4 \<Rightarrow> phi4_start m s)
      | AWAITING_TOOL_CALLS_OPENING_BRACKET \<Rightarrow> at_bracket m s
      | AWAITING_TOOL_CALL_OPENING_BRACE \<Rightarrow> at_brace m s
      | PROCESSING_TOOL_CALL \<Rightarrow> (s, None))"

section \<open>Processing a call\<close>

definition array_arguments :: "parser_class \<Rightarrow> FinishReason \<Rightarrow> string \<Rightarrow> 'n array_parser \<Rightarrow> string \<times> 'n array_parser" where
  "array_arguments p finishReason chunk s =
     (let m = escapeSpecialCharacters chunk;
          braces = updateOpenBracesCount m (ap_braces s);
          m1 = (if ap_opened s then m else openArgumentsString m);
          s1 = s\<lparr>ap_braces := braces, ap_opened := True\<rparr>
      in if finishReason \<noteq> FR_NONE then (closeArgumentsString m1, s1)
         else if braces = 0 \<and> (p = Mistral \<longrightarrow> 0 < ap_braces s) then handleEndOfToolCall m1 s1
         else (m1, s1))"

definition array_emit ::
    "(nat \<Rightarrow> string) \<Rightarrow> 'n json \<Rightarrow> 'n array_parser \<Rightarrow> 'n array_parser \<times> Delta option result" where
  "array_emit random_id newJson s =
     (if has_member arguments_key newJson \<and> \<not> has_member arguments_key (ap_lastJson s) then
        (case function_name (ap_lastJson s) newJson of
           None \<Rightarrow> (s, Inl missing_name)
         | Some name \<Rightarrow>
             (s\<lparr>ap_lastJson := newJson, ap_drawn := Suc (ap_drawn s)\<rparr>,
              Inr (Some (ToolCallDelta (ap_index s) (Some (random_id (ap_drawn s))) (Some name) []))))
      else if has_member arguments_key (ap_lastJson s) then
        (case computeDelta (ap_lastJson s) newJson of
           Inl e \<Rightarrow> (s, Inl e)
         | Inr d \<Rightarrow>
             (if isComplete (ap_builder s)
              then (ap_movePostToolCallEnd s)\<lparr>ap_state := AWAITING_TOOL_CALL_OPENING_BRACE\<rparr>
              else s\<lparr>ap_lastJson := newJson\<rparr>,
              Inr (arguments_delta (ap_index s) d)))
      else (s\<lparr>ap_lastJson := newJson\<rparr>, Inr None))"

definition array_feed ::
    "(string \<Rightarrow> 'n json option) \<Rightarrow> (nat \<Rightarrow> string) \<Rightarrow> string \<Rightarrow> 'n array_parser \<Rightarrow> 'n array_parser \<times> Delta option result" where
  "array_feed parse random_id chunk s =
     (case pj_add parse chunk (ap_builder s) of
        (b, Inl _) \<Rightarrow> (s\<lparr>ap_builder := b\<rparr>, Inl broken_call)
      | (b, Inr newJson) \<Rightarrow>
          (case object_only newJson of
             Inl e \<Rightarrow> (s\<lparr>ap_builder := b\<rparr>, Inl e)
           | Inr _ \<Rightarrow> array_emit random_id newJson (s\<lparr>ap_builder := b\<rparr>)))"

definition in_call ::
    "parser_class \<Rightarrow> (string \<Rightarrow> 'n json option) \<Rightarrow> (nat \<Rightarrow> string) \<Rightarrow> FinishReason \<Rightarrow> bool \<Rightarrow> string \<Rightarrow> 'n array_parser \<Rightarrow>
     'n array_parser \<times> Delta option result" where
  "in_call p parse random_id finishReason processingArguments m s =
     (if processingArguments
      then case array_arguments p finishReason m s of (m1, s1) \<Rightarrow> array_feed parse random_id m1 s1
      else array_feed parse random_id (filter (\<lambda>c. c \<noteq> CHR 0x0A) m) s)"

section \<open>The parsers\<close>

definition ignorable :: "parser_class \<Rightarrow> 'n array_parser \<Rightarrow> bool" where
  "ignorable p s \<longleftrightarrow>
     (case p of
        Phi4 \<Rightarrow> True
      | Mistral \<Rightarrow>
          ap_unprocessed s = [] \<and>
          \<not> (ap_state s = PROCESSING_TOOL_CALL \<and> has_member arguments_key (ap_lastJson s)))"

text \<open>The merged chunk, cut after its first colon while the arguments have not begun.\<close>

definition array_take :: "string \<Rightarrow> 'n array_parser \<Rightarrow> string \<times> 'n array_parser" where
  "array_take chunk s =
     (let m = ap_unprocessed s @ chunk; s1 = s\<lparr>ap_unprocessed := []\<rparr>
      in if has_member arguments_key (ap_lastJson s) then (m, s1) else ap_movePostColon m s1)"

fun state_rank :: "InternalState \<Rightarrow> nat" where
  "state_rank AWAITING_START_TAG = 3"
| "state_rank AWAITING_TOOL_CALLS_OPENING_BRACKET = 2"
| "state_rank AWAITING_TOOL_CALL_OPENING_BRACE = 1"
| "state_rank PROCESSING_TOOL_CALL = 0"

lemma before_call_advances:
  "before_call p m s = (s', Some rest) \<Longrightarrow> state_rank (ap_state s') < state_rank (ap_state s)"
  by (auto simp: before_call_def mistral_start_def phi4_start_def at_bracket_def at_brace_def array_clearState_def
      Let_def split: InternalState.splits parser_class.splits option.splits list.splits if_splits)

lemma array_take_state: "array_take chunk s = (m, s') \<Longrightarrow> ap_state s' = ap_state s"
  by (auto simp: array_take_def ap_movePostColon_def Let_def split: if_splits option.splits)

function array_parseChunk ::
    "parser_class \<Rightarrow> (string \<Rightarrow> 'n json option) \<Rightarrow> (nat \<Rightarrow> string) \<Rightarrow> 'n array_parser \<Rightarrow> string \<Rightarrow> int list \<Rightarrow>
     FinishReason \<Rightarrow> 'n array_parser \<times> Delta option result" where
  "array_parseChunk p parse random_id s chunk tokens finishReason =
     (if chunk = [] \<and> ignorable p s then (s, Inr None)
      else case array_take chunk s of
             (m, s1) \<Rightarrow>
               if ap_state s1 = PROCESSING_TOOL_CALL
               then in_call p parse random_id finishReason (has_member arguments_key (ap_lastJson s)) m s1
               else case before_call p m s1 of
                      (s2, None) \<Rightarrow> (s2, Inr None)
                    | (s2, Some rest) \<Rightarrow> array_parseChunk p parse random_id s2 rest [] finishReason)"
  by pat_completeness auto
termination
  by (relation "measure (\<lambda>(p, parse, random_id, s, chunk, tokens, fr). state_rank (ap_state s))")
    (auto dest!: before_call_advances [OF sym] array_take_state [OF sym])

declare array_parseChunk.simps [simp del]

definition mistral_tool_parser ::
    "(string \<Rightarrow> 'n json option) \<Rightarrow> (nat \<Rightarrow> string) \<Rightarrow> 'n array_parser parser_ops" where
  "mistral_tool_parser parse random_id =
     \<lparr>po_config = mistral_config, po_parseChunk = array_parseChunk Mistral parse random_id,
      po_drainPendingDelta = (\<lambda>s. (s, None)), po_resetState = array_resetState Mistral,
      po_setImplicitStart = (\<lambda>_ s. s)\<rparr>"

definition phi4_tool_parser ::
    "(string \<Rightarrow> 'n json option) \<Rightarrow> (nat \<Rightarrow> string) \<Rightarrow> 'n array_parser parser_ops" where
  "phi4_tool_parser parse random_id =
     \<lparr>po_config = phi4_config, po_parseChunk = array_parseChunk Phi4 parse random_id,
      po_drainPendingDelta = (\<lambda>s. (s, None)), po_resetState = array_resetState Phi4,
      po_setImplicitStart = (\<lambda>_ s. s)\<rparr>"

section \<open>Calls are announced before their arguments\<close>

definition ap_open :: "'n array_parser \<Rightarrow> int option" where
  "ap_open s = (if has_member arguments_key (ap_lastJson s) then Some (ap_index s) else None)"

lemma ap_open_frame [simp]:
  "ap_open (s\<lparr>ap_builder := b\<rparr>) = ap_open s"
  "ap_open (s\<lparr>ap_unprocessed := u\<rparr>) = ap_open s"
  "ap_open (s\<lparr>ap_state := t\<rparr>) = ap_open s"
  "ap_open (ap_movePostToolCallEnd s) = ap_open s"
  "ap_open (s\<lparr>ap_braces := n, ap_opened := o'\<rparr>) = ap_open s"
  by (simp_all add: ap_open_def ap_movePostToolCallEnd_def)

lemma array_clear_open [simp]: "ap_open (array_clearState s) = None"
  by (cases "ap_lastJson s") (simp_all add: ap_open_def array_clearState_def doc_Clear_def has_member_def)

lemma array_emit_contract:
  assumes "array_emit random_id newJson s = (s', r)"
  shows "call_contract (ap_open s) (ap_open s') r"
proof -
  have keep: "ap_open (s\<lparr>ap_lastJson := v\<rparr>) \<in> {None, Some (ap_index s)}"
    "ap_open (s\<lparr>ap_lastJson := v, ap_drawn := k\<rparr>) \<in> {None, Some (ap_index s)}" for v k
    by (simp_all add: ap_open_def)
  consider (named) "has_member arguments_key newJson" "\<not> has_member arguments_key (ap_lastJson s)"
    | (args) "has_member arguments_key (ap_lastJson s)"
    | (quiet) "\<not> has_member arguments_key newJson" "\<not> has_member arguments_key (ap_lastJson s)"
    by blast
  then show ?thesis
  proof cases
    case named
    then show ?thesis
      using assms keep(2)
      by (cases "function_name (ap_lastJson s) newJson")
        (auto simp: array_emit_def intro: call_contract_quiet call_contract_named')
  next
    case args
    then have op: "ap_open s = Some (ap_index s)" by (simp add: ap_open_def)
    show ?thesis
    proof (cases "computeDelta (ap_lastJson s) newJson")
      case (Inl e)
      then show ?thesis using assms args by (auto simp: array_emit_def intro: call_contract_quiet)
    next
      case (Inr d)
      then have "s' = (if isComplete (ap_builder s)
          then (ap_movePostToolCallEnd s)\<lparr>ap_state := AWAITING_TOOL_CALL_OPENING_BRACE\<rparr>
          else s\<lparr>ap_lastJson := newJson\<rparr>)" "r = Inr (arguments_delta (ap_index s) d)"
        using assms args by (auto simp: array_emit_def)
      then show ?thesis using keep(1) [of newJson] op by (auto intro: call_contract_arguments)
    qed
  next
    case quiet
    then show ?thesis using assms by (auto simp: array_emit_def ap_open_def intro: call_contract_quiet)
  qed
qed

lemma array_feed_contract:
  assumes "array_feed parse random_id chunk s = (s', r)"
  shows "call_contract (ap_open s) (ap_open s') r"
  using assms array_emit_contract [of random_id _ "s\<lparr>ap_builder := _\<rparr>" s' r]
  by (auto simp: array_feed_def intro!: call_contract_quiet split: prod.splits sum.splits)

lemma array_arguments_open: "array_arguments p fr chunk s = (m, s') \<Longrightarrow> ap_open s' = ap_open s"
  by (auto simp: array_arguments_def handleEndOfToolCall_def Let_def split: if_splits option.splits)

lemma in_call_contract:
  assumes "in_call p parse random_id fr pa m s = (s', r)"
  shows "call_contract (ap_open s) (ap_open s') r"
  using assms array_arguments_open [of p fr m s]
  by (auto simp: in_call_def split: if_splits prod.splits dest: array_feed_contract)

lemma array_take_open: "array_take chunk s = (m, s') \<Longrightarrow> ap_open s' = ap_open s"
  by (auto simp: array_take_def ap_movePostColon_def Let_def split: if_splits option.splits)

lemma before_call_open: "before_call p m s = (s', x) \<Longrightarrow> ap_open s' = ap_open s \<or> ap_open s' = None"
  by (auto simp: before_call_def mistral_start_def phi4_start_def at_bracket_def at_brace_def Let_def
      split: InternalState.splits parser_class.splits option.splits list.splits if_splits)

lemma array_contract:
  "array_parseChunk p parse random_id s chunk tokens fr = (s', r) \<Longrightarrow> call_contract (ap_open s) (ap_open s') r"
proof (induction p parse random_id s chunk tokens fr rule: array_parseChunk.induct)
  case (1 p parse random_id s chunk tokens fr)
  show ?case
  proof (cases "chunk = [] \<and> ignorable p s")
    case True
    then show ?thesis using "1.prems" by (auto simp: array_parseChunk.simps intro: call_contract_quiet)
  next
    case False
    obtain m s1 where take: "array_take chunk s = (m, s1)" by fastforce
    note op = array_take_open [OF take]
    show ?thesis
    proof (cases "ap_state s1 = PROCESSING_TOOL_CALL")
      case True
      then have "in_call p parse random_id fr (has_member arguments_key (ap_lastJson s)) m s1 = (s', r)"
        using "1.prems" False take by (auto simp: array_parseChunk.simps [of p])
      from in_call_contract [OF this] show ?thesis by (simp add: op)
    next
      case wait: False
      obtain s2 x where b: "before_call p m s1 = (s2, x)" by fastforce
      show ?thesis
      proof (cases x)
        case None
        then have "s' = s2" "r = Inr None"
          using "1.prems" False take wait b by (auto simp: array_parseChunk.simps [of p])
        then show ?thesis using before_call_open [OF b] op by (auto intro: call_contract_quiet)
      next
        case (Some rest)
        then have rec: "array_parseChunk p parse random_id s2 rest [] fr = (s', r)"
          using "1.prems" False take wait b by (auto simp: array_parseChunk.simps [of p _ _ s])
        have "call_contract (ap_open s2) (ap_open s') r"
          using "1.IH" [OF False take [symmetric] wait b [symmetric] Some rec] .
        then show ?thesis using before_call_open [OF b] op call_contract_None by metis
      qed
    qed
  qed
qed

lemma array_reset_open [simp]: "ap_open (array_resetState p s) = None"
  by (cases p) (simp_all add: array_resetState_def ap_open_def)

interpretation mistral: tool_call_stream "mistral_tool_parser parse random_id" ap_open
  by unfold_locales (auto simp: mistral_tool_parser_def dest: array_contract)

interpretation phi4: tool_call_stream "phi4_tool_parser parse random_id" ap_open
  by unfold_locales (auto simp: phi4_tool_parser_def dest: array_contract)

section \<open>Properties\<close>

text \<open>
  C13: The JSON tool parsers announce every call before its arguments: in a generation after a
  reset, whatever the chunks are, the first delta of a call has its index, an identifier and
  the name and no arguments, and every delta of arguments belongs to the call announced last.
\<close>

theorem json_tool_parsers_announce_calls:
  "announced None (parser_run (hermes3_tool_parser parse random_id) (hermes3_resetState h) calls) \<and>
   announced None (parser_run (llama3_tool_parser parse random_id) (llama3_resetState l) calls) \<and>
   announced None (parser_run (mistral_tool_parser parse random_id) (array_resetState Mistral m) calls) \<and>
   announced None (parser_run (phi4_tool_parser parse random_id) (array_resetState Phi4 p) calls)"
proof (intro conjI)
  show "announced None (parser_run (hermes3_tool_parser parse random_id) (hermes3_resetState h) calls)"
    using hermes3.generation_announced [of parse random_id h calls] by (simp add: hermes3_tool_parser_def)
  show "announced None (parser_run (llama3_tool_parser parse random_id) (llama3_resetState l) calls)"
    using llama3.generation_announced [of parse random_id l calls] by (simp add: llama3_tool_parser_def)
  show "announced None (parser_run (mistral_tool_parser parse random_id) (array_resetState Mistral m) calls)"
    using mistral.generation_announced [of parse random_id m calls] by (simp add: mistral_tool_parser_def)
  show "announced None (parser_run (phi4_tool_parser parse random_id) (array_resetState Phi4 p) calls)"
    using phi4.generation_announced [of parse random_id p calls] by (simp add: phi4_tool_parser_def)
qed

fun start_tag_of :: "parser_class \<Rightarrow> string" where
  "start_tag_of Mistral = visibleStartTag"
| "start_tag_of Phi4 = parsingStartTag"

text \<open>
  The array parsers drop a call that begins in the chunk of the start tag: what follows the
  colon of that chunk is kept for the next call, but the parser calls itself at once, puts the
  kept text in front of the rest and does not find the bracket it waits for.
\<close>

theorem array_parsers_drop_a_call_in_the_first_chunk:
  assumes s: "ap_state s = AWAITING_START_TAG" "ap_unprocessed s = []" "\<not> has_member arguments_key (ap_lastJson s)"
    and u: "CHR '':'' \<notin> set u" and v: "CHR '':'' \<notin> set v" "v \<noteq> []" "hd v \<noteq> CHR ''[''"
  shows "array_parseChunk p parse random_id s (start_tag_of p @ ''['' @ u @ '':'' @ v) tokens fr =
    (s\<lparr>ap_state := AWAITING_TOOL_CALLS_OPENING_BRACKET\<rparr>, Inr None)"
proof -
  let ?tag = "start_tag_of p" and ?rest = "''['' @ u @ '':''"
  let ?s1 = "s\<lparr>ap_unprocessed := v\<rparr>"
  let ?s2 = "s\<lparr>ap_unprocessed := v, ap_state := AWAITING_TOOL_CALLS_OPENING_BRACKET\<rparr>"
  have tag: "CHR '':'' \<notin> set ?tag" "?tag \<noteq> []" by (cases p; simp add: visibleStartTag_def parsingStartTag_def)+
  have "str_find '':'' (?tag @ ''['' @ u @ '':'' @ v) 0 = Some (length (?tag @ ''['' @ u))"
    using str_find_char [of "CHR '':''" "?tag @ ''['' @ u" v] tag u by simp
  then have take1: "array_take (?tag @ ''['' @ u @ '':'' @ v) s = (?tag @ ?rest, ?s1)"
    using s by (simp add: array_take_def ap_movePostColon_def)
  have start: "before_call p (?tag @ ?rest) ?s1 = (?s2, Some ?rest)"
    using s str_find_at_front [of ?tag ?rest]
    by (cases p) (simp_all add: before_call_def mistral_start_def phi4_start_def contains_def)
  have "str_find '':'' (v @ ?rest) 0 = Some (length (v @ ''['' @ u))"
    using str_find_char [of "CHR '':''" "v @ ''['' @ u" "[]"] u v by simp
  then have take2: "array_take ?rest ?s2 = (v @ ?rest, s\<lparr>ap_state := AWAITING_TOOL_CALLS_OPENING_BRACKET\<rparr>)"
    using s by (cases s) (simp add: array_take_def ap_movePostColon_def)
  have bracket: "before_call p (v @ ?rest) (s\<lparr>ap_state := AWAITING_TOOL_CALLS_OPENING_BRACKET\<rparr>) =
      (s\<lparr>ap_state := AWAITING_TOOL_CALLS_OPENING_BRACKET\<rparr>, None)"
    using v by (cases v) (simp_all add: before_call_def at_bracket_def)
  have second: "array_parseChunk p parse random_id ?s2 ?rest [] fr =
      (s\<lparr>ap_state := AWAITING_TOOL_CALLS_OPENING_BRACKET\<rparr>, Inr None)"
    by (subst array_parseChunk.simps) (simp add: take2 [simplified] bracket [simplified])
  show ?thesis
    using s tag by (subst array_parseChunk.simps) (simp add: take1 [simplified] start [simplified] second [simplified])
qed

theorem array_parsers_drop_a_call_in_the_first_chunk_witness:
  "array_parseChunk Phi4 echo (\<lambda>_. ''id'') new_array_parser
     (start_tag_of Phi4 @ ''['' @ call_name @ '':'' @ call_value) [] FR_NONE =
   (new_array_parser\<lparr>ap_state := AWAITING_TOOL_CALLS_OPENING_BRACKET\<rparr>, Inr None)"
proof (rule array_parsers_drop_a_call_in_the_first_chunk)
  show "CHR '':'' \<notin> set call_name" "CHR '':'' \<notin> set call_value" "call_value \<noteq> []" "hd call_value \<noteq> CHR ''[''"
    by code_simp+
qed (simp_all add: new_array_parser_def)

text \<open>The Mistral parser carries text over a reset, in front of the next generation.\<close>

definition array_continue ::
    "parser_class \<Rightarrow> (string \<Rightarrow> 'n json option) \<Rightarrow> (nat \<Rightarrow> string) \<Rightarrow> FinishReason \<Rightarrow> bool \<Rightarrow>
     string \<times> 'n array_parser \<Rightarrow> 'n array_parser \<times> Delta option result" where
  "array_continue p parse random_id fr pa = (\<lambda>(m, s).
     if ap_state s = PROCESSING_TOOL_CALL then in_call p parse random_id fr pa m s
     else case before_call p m s of
            (s2, None) \<Rightarrow> (s2, Inr None)
          | (s2, Some rest) \<Rightarrow> array_parseChunk p parse random_id s2 rest [] fr)"

lemma array_parse_take:
  "chunk \<noteq> [] \<Longrightarrow> array_parseChunk p parse random_id s chunk tokens fr =
     array_continue p parse random_id fr (has_member arguments_key (ap_lastJson s)) (array_take chunk s)"
  by (subst array_parseChunk.simps) (simp add: array_continue_def)

lemma array_parse_merges:
  assumes "chunk \<noteq> []"
  shows "array_parseChunk p parse random_id s chunk tokens fr =
         array_parseChunk p parse random_id (s\<lparr>ap_unprocessed := []\<rparr>) (ap_unprocessed s @ chunk) tokens fr"
  using assms by (simp add: array_parse_take array_take_def Let_def)

lemma mistral_reset_keeps_old_text:
  assumes "chunk \<noteq> []"
  shows "array_parseChunk Mistral parse random_id (array_resetState Mistral s) chunk tokens fr =
         array_parseChunk Mistral parse random_id ((array_resetState Mistral s)\<lparr>ap_unprocessed := []\<rparr>)
           (ap_unprocessed s @ chunk) tokens fr"
  using array_parse_merges [OF assms, of Mistral parse random_id "array_resetState Mistral s"]
  by (simp add: array_resetState_def)

text \<open>A newline after a call comes back as the letter of its escape.\<close>

lemma newline_after_a_call_becomes_n:
  "getUnprocessedBuffer (ap_builder s) = escapeSpecialCharacters [CHR 0x0A] \<Longrightarrow> ap_unprocessed s = [] \<Longrightarrow>
     ap_unprocessed (ap_movePostToolCallEnd s) = ''n''"
  by (simp add: ap_movePostToolCallEnd_def escapeSpecialCharacters_def escape_char.simps backslash_char_def)

end
