(* ===== verification/Tool_Arguments.thy ===== *)
theory Tool_Arguments
  imports Tool_Parsers
begin

text \<open>
  The arguments of a Hermes3 tool call from end to end: the quoting and escaping of the chunks,
  the builder of partial documents, the difference of two documents and the window of two
  chunks together hand the client exactly the arguments the model generated.
\<close>

section \<open>Escaped text in the scanner\<close>

text \<open>Text whose escaped form is the body of a JSON string: no control characters but the escaped ones.\<close>

definition plain_char :: "char \<Rightarrow> bool" where
  "plain_char c \<longleftrightarrow> 32 \<le> char_code c \<or> c \<in> {CHR 0x08, CHR 0x0C, CHR 0x0A, CHR 0x0D, CHR 0x09}"

definition plain :: "string \<Rightarrow> bool" where
  "plain s \<longleftrightarrow> list_all plain_char s"

lemma plain_simps [simp]:
  "plain []" "plain (c # s) \<longleftrightarrow> plain_char c \<and> plain s" "plain (s @ t) \<longleftrightarrow> plain s \<and> plain t"
  by (simp_all add: plain_def)

lemma plain_no_nul: "plain s \<Longrightarrow> CHR 0x00 \<notin> set s"
  by (induction s) (auto simp: plain_char_def)

lemma escape_Nil [simp]: "escapeSpecialCharacters [] = []"
  and escape_Cons: "escapeSpecialCharacters (c # s) = escape_char c @ escapeSpecialCharacters s"
  and escape_append: "escapeSpecialCharacters (s @ t) = escapeSpecialCharacters s @ escapeSpecialCharacters t"
  by (simp_all add: escapeSpecialCharacters_def)

lemma escape_char_cases:
  "(c \<noteq> quote_char \<and> c \<noteq> backslash_char \<and> escape_char c = [c]) \<or>
   (\<exists>d. escape_char c = [backslash_char, d] \<and> d \<noteq> CHR ''}'')"
  by (auto simp: escape_char.simps quote_char_def backslash_char_def)

lemma escape_empty_iff [simp]: "escapeSpecialCharacters s = [] \<longleftrightarrow> s = []"
proof (cases s)
  case (Cons c t)
  then show ?thesis using escape_char_cases [of c] by (auto simp: escape_Cons)
qed simp

lemma escape_no_nul: "CHR 0x00 \<notin> set s \<Longrightarrow> CHR 0x00 \<notin> set (escapeSpecialCharacters s)"
  by (induction s) (auto simp: escape_Cons escape_char.simps split: if_splits)

lemma escape_brace: "CHR ''}'' \<notin> set s \<Longrightarrow> CHR ''}'' \<notin> set (escapeSpecialCharacters s)"
  by (induction s) (auto simp: escape_Cons escape_char.simps split: if_splits)

lemma backslashes_snoc:
  "backslashes (s @ [c]) = (if c = backslash_char then Suc (backslashes s) else 0)"
  by (simp add: backslashes_def)

text \<open>Inside a string an escaped text leaves the scanner where it is, with no escape pending.\<close>

lemma scan_char_in_string:
  assumes "pj_state b = PROCESSING_STRING"
  shows "c \<noteq> quote_char \<Longrightarrow> c \<noteq> backslash_char \<Longrightarrow> scan_char before c b = Inr (b, False)"
    and "odd (backslashes before) \<Longrightarrow> scan_char before c b = Inr (b, False)"
    and "even (backslashes before) \<Longrightarrow> scan_char before backslash_char b = Inr (b, True)"
  using assms by (auto simp: scan_char_def quote_char_def backslash_char_def)

lemma take_Suc_drop:
  "drop p t = c # r \<Longrightarrow> take (Suc p) t = take p t @ [c] \<and> drop (Suc p) t = r"
  by (metis Cons_nth_drop_Suc append_take_drop_id drop_eq_Nil le_eq_less_or_eq linorder_le_less_linear
      list.distinct(1) list.inject take_Suc_conv_app_nth)

lemma scan_escaped_char:
  assumes s: "pj_state b = PROCESSING_STRING" and e: "even (backslashes (take (currentPosition b) (pj_buffer b)))"
    and d: "drop (currentPosition b) (pj_buffer b) = escape_char c @ r"
  shows "scan_loop (escape_char c) x b =
      (b\<lparr>currentPosition := currentPosition b + length (escape_char c)\<rparr>, Inr False) \<and>
    even (backslashes (take (currentPosition b + length (escape_char c)) (pj_buffer b))) \<and>
    drop (currentPosition b + length (escape_char c)) (pj_buffer b) = r"
  using escape_char_cases [of c]
proof (elim disjE exE conjE)
  assume c: "c \<noteq> quote_char" "c \<noteq> backslash_char" "escape_char c = [c]"
  have "take (Suc (currentPosition b)) (pj_buffer b) = take (currentPosition b) (pj_buffer b) @ [c]"
    "drop (Suc (currentPosition b)) (pj_buffer b) = r"
    using take_Suc_drop [of "currentPosition b" "pj_buffer b" c r] d c by simp_all
  then show ?thesis
    using s c scan_char_in_string(1) [OF s c(1,2)] by (simp add: advance_def backslashes_snoc)
next
  fix k assume c: "escape_char c = [backslash_char, k]"
  let ?p = "currentPosition b"
  have 1: "take (Suc ?p) (pj_buffer b) = take ?p (pj_buffer b) @ [backslash_char]"
    "drop (Suc ?p) (pj_buffer b) = k # r"
    using take_Suc_drop [of ?p "pj_buffer b" backslash_char "k # r"] d c by simp_all
  have 2: "take (Suc (Suc ?p)) (pj_buffer b) = take (Suc ?p) (pj_buffer b) @ [k]"
    "drop (Suc (Suc ?p)) (pj_buffer b) = r"
    using take_Suc_drop [of "Suc ?p" "pj_buffer b" k r] 1 by simp_all
  have odd: "odd (backslashes (take (Suc ?p) (pj_buffer b)))" using e by (simp add: 1 backslashes_snoc)
  have first: "scan_char (take ?p (pj_buffer b)) backslash_char b = Inr (b, True)"
    by (rule scan_char_in_string(3) [OF s e])
  have second: "scan_char (take (Suc ?p) (pj_buffer b)) k (advance b) = Inr (advance b, False)"
    using scan_char_in_string(2) [of "advance b" "take (Suc ?p) (pj_buffer b)" k] s odd by simp
  have "scan_loop (escape_char c) x b = (advance (advance b), Inr False)"
    using s first second by (simp add: c)
  moreover have "even (backslashes (take (Suc (Suc ?p)) (pj_buffer b)))"
    using odd by (simp add: 2 backslashes_snoc)
  ultimately show ?thesis using 2 by (simp add: c advance_def)
qed

lemma scan_escaped:
  assumes "pj_state b = PROCESSING_STRING" "even (backslashes (take (currentPosition b) (pj_buffer b)))"
    and "drop (currentPosition b) (pj_buffer b) = escapeSpecialCharacters y @ r"
  shows "scan_loop (escapeSpecialCharacters y) False b =
      (b\<lparr>currentPosition := currentPosition b + length (escapeSpecialCharacters y)\<rparr>, Inr False) \<and>
    even (backslashes (take (currentPosition b + length (escapeSpecialCharacters y)) (pj_buffer b)))"
  using assms
proof (induction y arbitrary: b)
  case (Cons c y)
  let ?b = "b\<lparr>currentPosition := currentPosition b + length (escape_char c)\<rparr>"
  have d: "drop (currentPosition b) (pj_buffer b) = escape_char c @ escapeSpecialCharacters y @ r"
    using Cons.prems(3) by (simp add: escape_Cons)
  note one = scan_escaped_char [OF Cons.prems(1,2) d, of False]
  have "scan_loop (escapeSpecialCharacters y) False ?b =
      (?b\<lparr>currentPosition := currentPosition ?b + length (escapeSpecialCharacters y)\<rparr>, Inr False) \<and>
    even (backslashes (take (currentPosition ?b + length (escapeSpecialCharacters y)) (pj_buffer ?b)))"
    by (rule Cons.IH) (use Cons.prems(1) one in simp_all)
  then show ?case using one by (simp add: escape_Cons scan_loop_append add.assoc)
qed simp

section \<open>The builder while arguments arrive\<close>

text \<open>After the text \<open>pre\<close> the value of a member of the outermost object is awaited.\<close>

definition awaiting :: "string \<Rightarrow> nat \<Rightarrow> PartialJsonBuilder \<Rightarrow> bool" where
  "awaiting pre k b \<longleftrightarrow>
     pj_buffer b = pre \<and> currentPosition b = length pre \<and> pj_state b = AWAITING_VALUE \<and>
     openCloseStack b = [(CHR ''{'', k)] \<and> CHR 0x00 \<notin> set pre"

text \<open>The string with the escaped text of \<open>x\<close> has been opened after \<open>pre\<close>.\<close>

definition in_string :: "string \<Rightarrow> nat \<Rightarrow> string \<Rightarrow> PartialJsonBuilder \<Rightarrow> bool" where
  "in_string pre k x b \<longleftrightarrow>
     pj_buffer b = pre @ quote_char # escapeSpecialCharacters x \<and>
     currentPosition b = length (pj_buffer b) \<and> pj_state b = PROCESSING_STRING \<and>
     openCloseStack b = [(quote_char, length pre), (CHR ''{'', k)] \<and> CHR 0x00 \<notin> set pre"

definition closed_text :: "string \<Rightarrow> string \<Rightarrow> string" where
  "closed_text pre x = pre @ quote_char # escapeSpecialCharacters x @ [quote_char, CHR ''}'']"

lemma even_backslashes_escape:
  "even (backslashes before) \<Longrightarrow> even (backslashes (before @ escapeSpecialCharacters x))"
proof (induction x arbitrary: before)
  case (Cons c x)
  have "even (backslashes (before @ escape_char c))"
    using escape_char_cases [of c] Cons.prems
  proof (elim disjE exE conjE)
    assume "c \<noteq> backslash_char" "escape_char c = [c]"
    then show ?thesis by (simp add: backslashes_snoc)
  next
    fix d assume "escape_char c = [backslash_char, d]"
    then have "before @ escape_char c = (before @ [backslash_char]) @ [d]" by simp
    then show ?thesis using Cons.prems by (metis backslashes_snoc even_Suc even_zero)
  qed
  from Cons.IH [OF this] show ?case by (simp add: escape_Cons)
qed simp

lemma even_backslashes_string: "even (backslashes (pre @ quote_char # escapeSpecialCharacters x))"
proof -
  have "even (backslashes (pre @ [quote_char]))"
    by (simp add: backslashes_snoc quote_char_def backslash_char_def)
  from even_backslashes_escape [OF this, of x] show ?thesis by simp
qed

lemma closers_in_string [simp]:
  "closers [(quote_char, p), (CHR ''{'', k)] = [quote_char, CHR ''}'']"
  by (simp add: closers_def closer_def quote_char_def)

lemma c_str_closed_text: "plain x \<Longrightarrow> CHR 0x00 \<notin> set pre \<Longrightarrow> c_str (closed_text pre x) = closed_text pre x"
  using escape_no_nul [OF plain_no_nul, of x]
  by (intro c_str_id) (auto simp: closed_text_def quote_char_def)

lemma close_up_in_string:
  assumes "in_string pre k x b" "plain x" "parse (closed_text pre x) = Some d"
  shows "close_up parse False b = (b, Inr d)"
  using assms c_str_closed_text [of x pre]
  by (simp add: in_string_def close_up_def trimmed_input_def awaits_rest_def closed_text_def Let_def)

lemma pj_add_opens:
  assumes b: "awaiting pre k b" and x: "plain x" and p: "parse (closed_text pre x) = Some d"
  shows "\<exists>b'. pj_add parse (quote_char # escapeSpecialCharacters x) b = (b', Inr d) \<and> in_string pre k x b'"
proof -
  let ?t = "pre @ quote_char # escapeSpecialCharacters x"
  let ?b1 = "b\<lparr>pj_buffer := ?t\<rparr>"
  let ?b2 = "b\<lparr>pj_buffer := ?t, openCloseStack := [(quote_char, length pre), (CHR ''{'', k)],
      pj_state := PROCESSING_STRING, currentPosition := Suc (length pre)\<rparr>"
  let ?b3 = "?b2\<lparr>currentPosition := length ?t\<rparr>"
  have "scan_char pre quote_char ?b1 = Inr (push_open quote_char PROCESSING_STRING (?b1\<lparr>pj_state := PROCESSING_NUMBER\<rparr>), False)"
    using b by (simp add: awaiting_def scan_char_def refused_def structural_char_def value_state_def quote_char_def
        is_space_def)
  moreover have "advance (push_open quote_char PROCESSING_STRING (?b1\<lparr>pj_state := PROCESSING_NUMBER\<rparr>)) = ?b2"
    using b by (cases b) (simp add: awaiting_def push_open_def advance_def)
  ultimately have first: "scan_loop (quote_char # escapeSpecialCharacters x) False ?b1 =
      scan_loop (escapeSpecialCharacters x) False ?b2"
    using b by (simp add: awaiting_def)
  have "even (backslashes (pre @ [quote_char]))"
    by (simp add: backslashes_snoc quote_char_def backslash_char_def)
  then have "scan_loop (escapeSpecialCharacters x) False ?b2 = (?b3, Inr False)"
    using scan_escaped [of ?b2 x "[]"] by simp
  then have "pj_add parse (quote_char # escapeSpecialCharacters x) b = close_up parse False ?b3"
    using b first by (simp add: pj_add_def awaiting_def)
  moreover have "in_string pre k x ?b3" using b by (simp add: in_string_def awaiting_def)
  ultimately show ?thesis using close_up_in_string [of pre k x ?b3 parse d] x p by auto
qed

lemma scan_in_string:
  assumes b: "in_string pre k x b"
  shows "scan_loop (escapeSpecialCharacters y) False (b\<lparr>pj_buffer := pj_buffer b @ escapeSpecialCharacters y @ r\<rparr>) =
     (b\<lparr>pj_buffer := pj_buffer b @ escapeSpecialCharacters y @ r,
        currentPosition := length (pj_buffer b @ escapeSpecialCharacters y)\<rparr>, Inr False)"
  using scan_escaped [of "b\<lparr>pj_buffer := pj_buffer b @ escapeSpecialCharacters y @ r\<rparr>" y r] b
    even_backslashes_string [of pre x]
  by (simp add: in_string_def)

lemma pj_add_continues:
  assumes b: "in_string pre k x b" and xy: "plain (x @ y)" and p: "parse (closed_text pre (x @ y)) = Some d"
  shows "\<exists>b'. pj_add parse (escapeSpecialCharacters y) b = (b', Inr d) \<and> in_string pre k (x @ y) b'"
proof -
  let ?b = "b\<lparr>pj_buffer := pj_buffer b @ escapeSpecialCharacters y,
        currentPosition := length (pj_buffer b @ escapeSpecialCharacters y)\<rparr>"
  have "pj_add parse (escapeSpecialCharacters y) b = close_up parse False ?b"
    using b scan_in_string [OF b, of y "[]"] by (simp add: pj_add_def in_string_def)
  moreover have "in_string pre k (x @ y) ?b" using b by (simp add: in_string_def escape_append)
  ultimately show ?thesis using close_up_in_string [of pre k "x @ y" ?b parse d] xy p by auto
qed

lemma scan_loop_step:
  "pj_state b \<noteq> END_STATE \<Longrightarrow> take (currentPosition b) (pj_buffer b) = before \<Longrightarrow>
     scan_char before c b = Inr (b1, e) \<Longrightarrow> advance b1 = b2 \<Longrightarrow>
     scan_loop (c # cs) x b = scan_loop cs e b2"
  by simp

lemma pj_add_finishes:
  assumes b: "in_string pre k x b" and xy: "plain (x @ y)" and p: "parse (closed_text pre (x @ y)) = Some d"
  shows "\<exists>b'. pj_add parse (escapeSpecialCharacters y @ quote_char # CHR ''}'' # u) b = (b', Inr d)"
proof -
  let ?t = "pj_buffer b @ escapeSpecialCharacters y"
  let ?full = "pj_buffer b @ escapeSpecialCharacters y @ quote_char # CHR ''}'' # u"
  let ?b1 = "b\<lparr>pj_buffer := ?full, currentPosition := length ?t\<rparr>"
  let ?b2 = "b\<lparr>pj_buffer := ?full, currentPosition := Suc (length ?t), pj_state := PROCESSING_OBJECT,
      openCloseStack := [(CHR ''{'', k)]\<rparr>"
  let ?b3 = "b\<lparr>pj_buffer := ?full, currentPosition := Suc (Suc (length ?t)), pj_state := END_STATE,
      openCloseStack := []\<rparr>"
  have t: "?t = pre @ quote_char # escapeSpecialCharacters (x @ y)"
    using b by (simp add: in_string_def escape_append)
  have "scan_char ?t quote_char ?b1 = Inr (closing_quote ?b1, False)"
    using b even_backslashes_string [of pre "x @ y"] t by (simp add: scan_char_def in_string_def)
  moreover have "advance (closing_quote ?b1) = ?b2"
    using b by (cases b) (simp add: in_string_def closing_quote_def enclosing_state_def advance_def)
  moreover have "pj_state ?b1 \<noteq> END_STATE" "take (currentPosition ?b1) (pj_buffer ?b1) = ?t"
    using b by (simp_all add: in_string_def)
  ultimately have 1: "scan_loop (quote_char # CHR ''}'' # u) False ?b1 = scan_loop (CHR ''}'' # u) False ?b2"
    by (intro scan_loop_step)
  have "scan_char before (CHR ''}'') ?b2 = Inr (close_bracket (CHR ''{'') ?b2, False)" for before
    by (cases b) (simp add: scan_char_def refused_def structural_char_def value_state_def is_space_def)
  moreover have "advance (close_bracket (CHR ''{'') ?b2) = ?b3"
    by (cases b) (simp add: close_bracket_def advance_def)
  ultimately have 2: "scan_loop (CHR ''}'' # u) False ?b2 = (?b3, Inr False)"
    by (simp add: scan_loop_end)
  have "pj_add parse (escapeSpecialCharacters y @ quote_char # CHR ''}'' # u) b = close_up parse False ?b3"
    using b scan_in_string [OF b, of y "quote_char # CHR ''}'' # u"] 1 2
    by (simp add: pj_add_def in_string_def scan_loop_append)
  moreover have full: "?full = closed_text pre (x @ y) @ u"
  proof -
    have "?full = ?t @ [quote_char, CHR ''}''] @ u" by simp
    also have "\<dots> = closed_text pre (x @ y) @ u" unfolding t by (simp add: closed_text_def)
    finally show ?thesis .
  qed
  moreover have len: "Suc (Suc (length ?t)) = length (closed_text pre (x @ y))"
    unfolding t by (simp add: closed_text_def)
  moreover have "take (Suc (Suc (length ?t))) ?full = closed_text pre (x @ y)"
    unfolding full len by simp
  moreover have "Suc (Suc (length ?t)) = length ?full \<Longrightarrow> ?full = closed_text pre (x @ y)"
    unfolding full len by simp
  moreover have "c_str (closed_text pre (x @ y)) = closed_text pre (x @ y)"
    using c_str_closed_text [OF xy] b by (simp add: in_string_def)
  ultimately show ?thesis using p by (cases "u = []") (auto simp: close_up_def)
qed

section \<open>The parser while arguments arrive\<close>

definition call_doc :: "string \<Rightarrow> string \<Rightarrow> 'n json" where
  "call_doc name x = JObject [(''name'', JString name), (arguments_key, JString x)]"

text \<open>rapidjson reads the escapes of a string member back.\<close>

definition reads_strings :: "(string \<Rightarrow> 'n json option) \<Rightarrow> string \<Rightarrow> string \<Rightarrow> bool" where
  "reads_strings parse pre name \<longleftrightarrow> (\<forall>x. plain x \<longrightarrow> parse (closed_text pre x) = Some (call_doc name x))"

lemma reads_stringsD: "reads_strings parse pre name \<Longrightarrow> plain x \<Longrightarrow> parse (closed_text pre x) = Some (call_doc name x)"
  by (simp add: reads_strings_def)

definition tagless :: "string \<Rightarrow> bool" where
  "tagless c \<longleftrightarrow> str_find toolCallEndTag c 0 = None \<and> str_find toolCallStartTag c 0 = None"

text \<open>The call is announced; no chunk of arguments has come, or one, or more.\<close>

definition announced_call :: "string \<Rightarrow> nat \<Rightarrow> string \<Rightarrow> int \<Rightarrow> 'n hermes3 \<Rightarrow> bool" where
  "announced_call pre k name i s \<longleftrightarrow>
     h3_lastJson s = JObject [(''name'', JString name), (arguments_key, JNull)] \<and> awaiting pre k (h3_builder s) \<and>
     h3_index s = i \<and> h3_window0 s = [] \<and> h3_window1 s = [] \<and> h3_unprocessed s = [] \<and> \<not> h3_completed s"

definition first_chunk :: "string \<Rightarrow> nat \<Rightarrow> string \<Rightarrow> int \<Rightarrow> string \<Rightarrow> 'n hermes3 \<Rightarrow> bool" where
  "first_chunk pre k name i a s \<longleftrightarrow>
     h3_lastJson s = JObject [(''name'', JString name), (arguments_key, JNull)] \<and> awaiting pre k (h3_builder s) \<and>
     h3_index s = i \<and> h3_window0 s = quote_char # escapeSpecialCharacters a \<and> h3_window1 s = [] \<and>
     h3_unprocessed s = [] \<and> \<not> h3_completed s"

definition more_chunks :: "string \<Rightarrow> nat \<Rightarrow> string \<Rightarrow> int \<Rightarrow> string \<Rightarrow> string \<Rightarrow> 'n hermes3 \<Rightarrow> bool" where
  "more_chunks pre k name i x w s \<longleftrightarrow>
     h3_lastJson s = call_doc name x \<and> in_string pre k x (h3_builder s) \<and> h3_index s = i \<and>
     h3_window0 s \<noteq> [] \<and> h3_window1 s = escapeSpecialCharacters w \<and> w \<noteq> [] \<and>
     h3_unprocessed s = [] \<and> \<not> h3_completed s"

lemma hermes3_chunk_of_arguments:
  fixes fr :: FinishReason
  assumes s: "has_member arguments_key (h3_lastJson s)" "h3_window0 s \<noteq> []" "h3_unprocessed s = []" "\<not> h3_completed s"
    and c: "tagless c"
  defines "w \<equiv> (if h3_window1 s \<noteq> [] then h3_window1 s @ (if fr \<noteq> FR_NONE then escapeSpecialCharacters c else [])
                else h3_window0 s)"
  shows "hermes3_parseChunk parse random_id s c tokens fr =
     hermes3_feed parse random_id (escapeSpecialCharacters c)
       (s\<lparr>h3_completed := (fr \<noteq> FR_NONE), h3_window0 := (if fr \<noteq> FR_NONE then closeArgumentsString w else w),
         h3_window1 := escapeSpecialCharacters c\<rparr>)"
proof -
  let ?s = "s\<lparr>h3_completed := (fr \<noteq> FR_NONE)\<rparr>"
  have bg: "hermes3_begin fr s = ?s" using s by (simp add: hermes3_begin_def)
  have un: "s\<lparr>h3_completed := (fr \<noteq> FR_NONE), h3_unprocessed := []\<rparr> = ?s" using s by (cases s) simp
  have split: "h3_split c ?s = (c, ?s)"
    using s c by (simp add: h3_split_def h3_movePostEndTag_def h3_moveStartTag_def tagless_def)
  have pend: "hermes3_pending ?s" using s by (simp add: hermes3_pending_def)
  have "hermes3_parseChunk parse random_id s c tokens fr = hermes3_tags parse random_id c ?s"
    using s pend split by (simp add: hermes3_parseChunk_def bg un)
  also have "\<dots> = hermes3_content parse random_id c ?s"
    using c by (simp add: hermes3_tags_def findAndHandleEndTag_def findAndHandleStartTag_def tagless_def)
  also have "\<dots> = hermes3_feed parse random_id (escapeSpecialCharacters c)
       (?s\<lparr>h3_window0 := (if fr \<noteq> FR_NONE then closeArgumentsString w else w), h3_window1 := escapeSpecialCharacters c\<rparr>)"
    using s by (simp add: hermes3_content_def hermes3_window_def Let_def w_def)
  finally show ?thesis by simp
qed

text \<open>What the differences say.\<close>

lemma delta_of_first:
  "computeDelta (JObject [(''name'', JString name), (arguments_key, JNull)]) (call_doc name x) =
     Inr (JObject [(arguments_key, JString x)])"
  by (simp add: computeDelta_def call_doc_def computeDeltaImpl_Cons member_delta_def)

lemma delta_of_more:
  assumes "plain (x @ y)"
  shows "computeDelta (call_doc name x) (call_doc name (x @ y)) =
     Inr (JObject (if y = [] then [] else [(arguments_key, JString y)]))"
  using plain_no_nul [OF assms] plain_no_nul [of x] assms
  by (simp add: computeDelta_def call_doc_def computeDeltaImpl_Cons member_delta_def c_str_id)

lemma arguments_delta_string:
  "plain y \<Longrightarrow> arguments_delta i (JObject [(arguments_key, JString y)]) =
     (if y = [] then None else Some (ToolCallDelta i None None y))"
  using c_str_id [OF plain_no_nul, of y]
  by (simp add: arguments_delta_def silent_def string_member_def)

lemma arguments_delta_none [simp]: "arguments_delta i (JObject []) = None"
  by (simp add: arguments_delta_def)

lemma has_arguments_call_doc [simp]:
  "has_member arguments_key (call_doc name x)" "object_only (call_doc name x) = Inr (call_doc name x)"
  by (simp_all add: call_doc_def object_only_def)

text \<open>Feeding the builder with a known document.\<close>

lemma hermes3_feed_string:
  assumes "h3_window0 s \<noteq> []" "pj_add parse (h3_window0 s) (h3_builder s) = (b, Inr (call_doc name x))"
    and "has_member arguments_key (h3_lastJson s)" "computeDelta (h3_lastJson s) (call_doc name x) = Inr d"
  shows "hermes3_feed parse random_id c s =
     (s\<lparr>h3_builder := b, h3_lastJson := call_doc name x\<rparr>, Inr (arguments_delta (h3_index s) d))"
  using assms by (simp add: hermes3_feed_def hermes3_emit_def)

lemma step_first:
  assumes s: "announced_call pre k name i s" and a: "a = CHR ''{'' # r" "CHR '':'' \<notin> set a" "tagless a"
  shows "\<exists>s'. hermes3_parseChunk parse random_id s a tokens FR_NONE = (s', Inr None) \<and> first_chunk pre k name i a s'"
proof -
  have bg: "hermes3_begin FR_NONE s = s" using s by (simp add: hermes3_begin_def announced_call_def)
  have un: "s\<lparr>h3_unprocessed := []\<rparr> = s" using s by (cases s) (simp add: announced_call_def)
  have colon: "str_find '':'' a 0 = None"
    using a(2) by (auto simp: str_find_None_iff occurs_at_iff_append)
  have split: "h3_split a s = (a, s)"
    using s a colon by (simp add: h3_split_def h3_movePostColon_def h3_movePostEndTag_def h3_moveStartTag_def tagless_def)
  have has: "has_member arguments_key (h3_lastJson s)" using s by (simp add: announced_call_def)
  have "escapeSpecialCharacters a = CHR ''{'' # escapeSpecialCharacters r"
    by (simp add: a(1) escape_Cons escape_char.simps)
  then have op: "openArgumentsString (escapeSpecialCharacters a) = quote_char # escapeSpecialCharacters a"
    by (simp add: openArgumentsString_def is_space_def)
  have "hermes3_parseChunk parse random_id s a tokens FR_NONE = hermes3_tags parse random_id a s"
    using split a(1) s by (simp add: hermes3_parseChunk_def bg un announced_call_def)
  also have "\<dots> = hermes3_content parse random_id a s"
    using a by (simp add: hermes3_tags_def findAndHandleEndTag_def findAndHandleStartTag_def tagless_def)
  also have "\<dots> = (s\<lparr>h3_window0 := quote_char # escapeSpecialCharacters a\<rparr>, Inr None)"
    using s has op by (simp add: hermes3_content_def hermes3_window_def Let_def announced_call_def)
  finally show ?thesis using s by (simp add: first_chunk_def announced_call_def)
qed

lemma step_second:
  fixes parse :: "string \<Rightarrow> 'n json option"
  assumes s: "first_chunk pre k name i a s" and c: "tagless c" "c \<noteq> []" and a: "plain a" "a \<noteq> []"
    and p: "reads_strings parse pre name"
  shows "\<exists>s'. hermes3_parseChunk parse random_id s c tokens FR_NONE = (s', Inr (Some (ToolCallDelta i None None a))) \<and>
     more_chunks pre k name i a c s'"
proof -
  let ?s = "s\<lparr>h3_completed := False, h3_window0 := quote_char # escapeSpecialCharacters a, h3_window1 := escapeSpecialCharacters c\<rparr>"
  have has: "has_member arguments_key (h3_lastJson s)" using s by (simp add: first_chunk_def)
  have step: "hermes3_parseChunk parse random_id s c tokens FR_NONE =
      hermes3_feed parse random_id (escapeSpecialCharacters c) ?s"
    using s has hermes3_chunk_of_arguments [OF has _ _ _ c(1), of parse random_id tokens FR_NONE]
    by (simp add: first_chunk_def)
  have "awaiting pre k (h3_builder s)" using s by (simp add: first_chunk_def)
  from pj_add_opens [where parse = parse, OF this a(1), OF reads_stringsD [OF p a(1)]]
  obtain b where b: "pj_add parse (quote_char # escapeSpecialCharacters a) (h3_builder s) = (b, Inr (call_doc name a))"
    "in_string pre k a b" by blast
  have "hermes3_feed parse random_id (escapeSpecialCharacters c) ?s =
      (?s\<lparr>h3_builder := b, h3_lastJson := call_doc name a\<rparr>,
       Inr (arguments_delta (h3_index ?s) (JObject [(arguments_key, JString a)] :: 'n json)))"
    using s has b(1) delta_of_first [of name a] by (intro hermes3_feed_string) (simp_all add: first_chunk_def)
  then show ?thesis
    using s b(2) a c step arguments_delta_string [OF a(1), of i] by (simp add: first_chunk_def more_chunks_def)
qed

lemma step_more:
  fixes parse :: "string \<Rightarrow> 'n json option"
  assumes s: "more_chunks pre k name i x w s" and c: "tagless c" "c \<noteq> []" and xw: "plain (x @ w)"
    and p: "reads_strings parse pre name"
  shows "\<exists>s'. hermes3_parseChunk parse random_id s c tokens FR_NONE = (s', Inr (Some (ToolCallDelta i None None w))) \<and>
     more_chunks pre k name i (x @ w) c s'"
proof -
  let ?s = "s\<lparr>h3_completed := False, h3_window0 := escapeSpecialCharacters w, h3_window1 := escapeSpecialCharacters c\<rparr>"
  have has: "has_member arguments_key (h3_lastJson s)" and w: "w \<noteq> []" using s by (simp_all add: more_chunks_def)
  have step: "hermes3_parseChunk parse random_id s c tokens FR_NONE =
      hermes3_feed parse random_id (escapeSpecialCharacters c) ?s"
    using s has hermes3_chunk_of_arguments [OF has _ _ _ c(1), of parse random_id tokens FR_NONE]
    by (simp add: more_chunks_def)
  have "in_string pre k x (h3_builder s)" using s by (simp add: more_chunks_def)
  from pj_add_continues [where parse = parse, OF this xw, OF reads_stringsD [OF p xw]]
  obtain b where b: "pj_add parse (escapeSpecialCharacters w) (h3_builder s) = (b, Inr (call_doc name (x @ w)))"
    "in_string pre k (x @ w) b" by blast
  have "hermes3_feed parse random_id (escapeSpecialCharacters c) ?s =
      (?s\<lparr>h3_builder := b, h3_lastJson := call_doc name (x @ w)\<rparr>,
       Inr (arguments_delta (h3_index ?s) (JObject [(arguments_key, JString w)] :: 'n json)))"
    using s has b(1) w delta_of_more [OF xw, of name] by (intro hermes3_feed_string) (simp_all add: more_chunks_def)
  then show ?thesis
    using s b(2) w c step xw arguments_delta_string [of w i] by (simp add: more_chunks_def)
qed

lemma last_brace_at: "CHR ''}'' \<notin> set u \<Longrightarrow> last_brace (v @ CHR ''}'' # u) = Some (length v)"
proof -
  assume u: "CHR ''}'' \<notin> set u"
  have "\<not> occurs_at [CHR ''}''] (v @ CHR ''}'' # u) j" if "length v < j" for j
  proof
    assume "occurs_at [CHR ''}''] (v @ CHR ''}'' # u) j"
    then obtain a b where "v @ CHR ''}'' # u = a @ CHR ''}'' # b" "length a = j"
      unfolding occurs_at_iff_append by auto
    then show False
      using u that by (auto simp: append_eq_append_conv2 Cons_eq_append_conv)
  qed
  moreover have "occurs_at [CHR ''}''] (v @ CHR ''}'' # u) (length v)" by (simp add: occurs_at_def)
  ultimately show ?thesis by (simp add: last_brace_def str_rfind_def str_rfind_upto_Some_iff)
qed

lemma close_arguments:
  assumes "CHR ''}'' \<notin> set t"
  shows "closeArgumentsString (escapeSpecialCharacters (y @ CHR ''}'' # t)) =
     escapeSpecialCharacters y @ quote_char # CHR ''}'' # escapeSpecialCharacters t"
  using last_brace_at [OF escape_brace [OF assms], of "escapeSpecialCharacters y"]
  by (simp add: closeArgumentsString_def escape_append escape_Cons escape_char.simps insert_quote_def)

lemma step_last:
  fixes parse :: "string \<Rightarrow> 'n json option"
  assumes s: "more_chunks pre k name i x w s" and z: "tagless z" and fr: "fr \<noteq> FR_NONE"
    and wz: "w @ z = y @ CHR ''}'' # t" "CHR ''}'' \<notin> set t" and xy: "plain (x @ y)"
    and p: "reads_strings parse pre name"
  shows "\<exists>s'. hermes3_parseChunk parse random_id s z tokens fr =
     (s', Inr (if y = [] then None else Some (ToolCallDelta i None None y)))"
proof -
  let ?close = "escapeSpecialCharacters y @ quote_char # CHR ''}'' # escapeSpecialCharacters t"
  let ?s = "s\<lparr>h3_completed := True, h3_window0 := ?close, h3_window1 := escapeSpecialCharacters z\<rparr>"
  have has: "has_member arguments_key (h3_lastJson s)" and w: "w \<noteq> []" using s by (simp_all add: more_chunks_def)
  have "closeArgumentsString (escapeSpecialCharacters w @ escapeSpecialCharacters z) = ?close"
    unfolding escape_append [symmetric] wz(1) by (rule close_arguments [OF wz(2)])
  then have step: "hermes3_parseChunk parse random_id s z tokens fr =
      hermes3_feed parse random_id (escapeSpecialCharacters z) ?s"
    using s has fr hermes3_chunk_of_arguments [OF has _ _ _ z, of parse random_id tokens fr]
    by (simp add: more_chunks_def)
  have "in_string pre k x (h3_builder s)" using s by (simp add: more_chunks_def)
  from pj_add_finishes [where parse = parse, OF this xy, OF reads_stringsD [OF p xy]]
  obtain b where b: "pj_add parse ?close (h3_builder s) = (b, Inr (call_doc name (x @ y)))" by blast
  have "hermes3_feed parse random_id (escapeSpecialCharacters z) ?s =
      (?s\<lparr>h3_builder := b, h3_lastJson := call_doc name (x @ y)\<rparr>,
       Inr (arguments_delta (h3_index ?s) (JObject (if y = [] then [] else [(arguments_key, JString y)]) :: 'n json)))"
    using s has b w delta_of_more [OF xy, of name] by (intro hermes3_feed_string) (simp_all add: more_chunks_def)
  then show ?thesis
    using s step xy by (cases "y = []") (simp_all add: more_chunks_def arguments_delta_string)
qed

section \<open>The whole argument text\<close>

lemma run_more:
  fixes parse :: "string \<Rightarrow> 'n json option"
  assumes "more_chunks pre k name i x w s" "reads_strings parse pre name" "\<forall>c \<in> set cs. tagless c \<and> c \<noteq> []"
    and "tagless z" "fr \<noteq> FR_NONE" "plain (x @ concat (w # cs) @ z)"
    and "last (w # cs) @ z = y @ CHR ''}'' # t" "CHR ''}'' \<notin> set t"
  shows "parser_run (hermes3_tool_parser parse random_id) s (quietly cs @ [(z, [], fr)]) =
     map (ToolCallDelta i None None) (butlast (w # cs) @ (if y = [] then [] else [y]))"
  using assms
proof (induction cs arbitrary: x w s)
  case Nil
  have "plain (w @ z)" using Nil.prems(6) by simp
  then have "plain (y @ CHR ''}'' # t)" using Nil.prems(7) by (simp del: plain_simps)
  then have "plain (x @ y)" using Nil.prems(6) by simp
  then obtain s' where "hermes3_parseChunk parse random_id s z [] fr =
      (s', Inr (if y = [] then None else Some (ToolCallDelta i None None y)))"
    using step_last [OF Nil.prems(1,4,5) _ Nil.prems(8) _ Nil.prems(2), of y random_id "[]"] Nil.prems(7)
    by auto
  then show ?case by (simp add: quietly_def hermes3_tool_parser_def delta_list_def)
next
  case (Cons c cs)
  have "plain (x @ w)" using Cons.prems(6) by simp
  then obtain s' where s': "hermes3_parseChunk parse random_id s c [] FR_NONE =
      (s', Inr (Some (ToolCallDelta i None None w)))" "more_chunks pre k name i (x @ w) c s'"
    using step_more [OF Cons.prems(1) _ _ _ Cons.prems(2), of c random_id "[]"] Cons.prems(3) by auto
  have "parser_run (hermes3_tool_parser parse random_id) s' (quietly cs @ [(z, [], fr)]) =
      map (ToolCallDelta i None None) (butlast (c # cs) @ (if y = [] then [] else [y]))"
    using Cons.IH [OF s'(2) Cons.prems(2) _ Cons.prems(4,5) _ _ Cons.prems(8)] Cons.prems(3,6,7) by simp
  then show ?case using s'(1) by (simp add: quietly_def hermes3_tool_parser_def delta_list_def)
qed

lemma shorter_tail: "xs @ ys = us @ vs \<Longrightarrow> length vs \<le> length ys \<Longrightarrow> \<exists>m. ys = m @ vs \<and> us = xs @ m"
  by (auto simp: append_eq_append_conv2)

text \<open>
  C5: A Hermes3 call that has been announced, whose text the JSON parser reads, and whose arguments begin with
  a brace, consist of plain characters and come in at least two nonempty chunks without tool call tags,
  the first without a colon, before the tagless chunk that ends the generation, delivers exactly the
  arguments the model generated, whatever quotes, newlines or backslashes they hold: the pieces in order
  give the text before the closing brace of the call.
\<close>

theorem hermes3_arguments_arrive:
  fixes parse :: "string \<Rightarrow> 'n json option"
  assumes call: "announced_call pre k name i s" and reads: "reads_strings parse pre name"
    and first: "hd first = CHR ''{''" "CHR '':'' \<notin> set first"
    and chunks: "\<forall>c \<in> set (first # others). tagless c \<and> c \<noteq> []" "others \<noteq> []" "tagless z" "fr \<noteq> FR_NONE"
    and plain: "plain (concat (first # others) @ z)"
    and args: "concat (first # others) @ z = args @ CHR ''}'' # t" "CHR ''}'' \<notin> set t" "length t < length (last others @ z)"
  shows "\<exists>pieces. parser_run (hermes3_tool_parser parse random_id) s (quietly (first # others) @ [(z, [], fr)]) =
      map (ToolCallDelta i None None) pieces \<and> concat pieces = args"
proof -
  obtain c cs where others: "others = c # cs" using chunks(2) by (cases others) auto
  obtain r where r: "first = CHR ''{'' # r" using first(1) chunks(1) by (cases first) auto
  have tag: "tagless first" "tagless c" "c \<noteq> []" "first \<noteq> []" using chunks(1) by (auto simp: others)
  obtain s1 where s1: "hermes3_parseChunk parse random_id s first [] FR_NONE = (s1, Inr None)"
    "first_chunk pre k name i first s1"
    using step_first [OF call r first(2) tag(1), of parse random_id "[]"] by blast
  obtain s2 where s2: "hermes3_parseChunk parse random_id s1 c [] FR_NONE =
      (s2, Inr (Some (ToolCallDelta i None None first)))" "more_chunks pre k name i first c s2"
    using step_second [OF s1(2) tag(2,3) _ tag(4) reads, of random_id "[]"] plain by auto
  have whole: "concat (first # others) @ z = (first @ concat (butlast others)) @ (last others @ z)"
    using append_butlast_last_id [OF chunks(2)] by (metis append_assoc concat.simps(2) concat_append concat.simps(1) append_Nil2)
  then obtain y where y: "last others @ z = y @ CHR ''}'' # t" "args = first @ concat (butlast others) @ y"
    using shorter_tail [of "first @ concat (butlast others)" "last others @ z" args "CHR ''}'' # t"] args(1,3) by auto
  have "parser_run (hermes3_tool_parser parse random_id) s2 (quietly cs @ [(z, [], fr)]) =
      map (ToolCallDelta i None None) (butlast (c # cs) @ (if y = [] then [] else [y]))"
    by (rule run_more [OF s2(2) reads _ chunks(3,4) _ _ args(2)])
      (use chunks(1) plain y(1) in \<open>simp_all add: others\<close>)
  then have "parser_run (hermes3_tool_parser parse random_id) s (quietly (first # others) @ [(z, [], fr)]) =
      map (ToolCallDelta i None None) (first # butlast others @ (if y = [] then [] else [y]))"
    using s1(1) s2(1) by (simp add: others quietly_def hermes3_tool_parser_def delta_list_def)
  moreover have "concat (first # butlast others @ (if y = [] then [] else [y])) = args" using y(2) by simp
  ultimately show ?thesis by blast
qed

text \<open>A parser for the calls of one function, for the example.\<close>

definition call_parse :: "string \<Rightarrow> string \<Rightarrow> string \<Rightarrow> int json option" where
  "call_parse pre name t =
     (if take (Suc (length pre)) t = pre @ [quote_char]
      then Some (call_doc name (unescape (take (length t - length pre - 3) (drop (Suc (length pre)) t)))) else None)"

lemma call_parse_reads: "reads_strings (call_parse pre name) pre name"
  unfolding reads_strings_def
proof (intro allI impI)
  fix x
  have "closed_text pre x = (pre @ [quote_char]) @ escapeSpecialCharacters x @ [quote_char, CHR ''}'']"
    by (simp add: closed_text_def)
  then show "call_parse pre name (closed_text pre x) = Some (call_doc name x)"
    by (simp add: call_parse_def escapeSpecialCharacters_roundtrip)
qed

definition call_head :: string where
  "call_head = [CHR ''{'', quote_char] @ ''name'' @ [quote_char, CHR '':'', quote_char, CHR ''f'', quote_char, CHR '','', quote_char]
     @ arguments_key @ [quote_char, CHR '':'']"

definition announced_state :: "int hermes3" where
  "announced_state = new_hermes3\<lparr>h3_index := 0,
     h3_lastJson := JObject [(''name'', JString ''f''), (arguments_key, JNull)],
     h3_builder := pj_run echo [call_head]\<rparr>"

theorem hermes3_arguments_arrive_witness:
  "\<exists>pieces. parser_run (hermes3_tool_parser (call_parse call_head ''f'') (\<lambda>_. ''id'')) announced_state
       (quietly ([CHR ''{'', quote_char] # [CHR ''a'' # [quote_char], '': 1'']) @ [(''}}'', [], FR_STOP)]) =
     map (ToolCallDelta 0 None None) pieces \<and> concat pieces = [CHR ''{'', quote_char, CHR ''a'', quote_char] @ '': 1}''"
proof (rule hermes3_arguments_arrive [where pre = call_head and k = 0 and name = "''f''" and t = "[]"])
  show "announced_call call_head 0 ''f'' 0 announced_state"
    unfolding announced_call_def awaiting_def by (intro conjI; code_simp)
  show "reads_strings (call_parse call_head ''f'') call_head ''f''" by (rule call_parse_reads)
  show "\<forall>c \<in> set ([CHR ''{'', quote_char] # [CHR ''a'' # [quote_char], '': 1'']). tagless c \<and> c \<noteq> []"
    unfolding tagless_def by code_simp
  show "tagless ''}}''" unfolding tagless_def by code_simp
  show "plain (concat ([CHR ''{'', quote_char] # [CHR ''a'' # [quote_char], '': 1'']) @ ''}}'')" by code_simp
  show "CHR '':'' \<notin> set [CHR ''{'', quote_char]" by code_simp
qed simp_all

section \<open>An empty chunk\<close>

text \<open>
  An empty chunk in the arguments makes the parser send text twice: the empty chunk
  becomes the delayed one, the next call takes it for none and feeds the chunk before it again.
\<close>

theorem hermes3_empty_chunk_repeats_text:
  fixes parse :: "string \<Rightarrow> 'n json option"
  assumes s: "more_chunks pre k name i x w s" and reads: "reads_strings parse pre name"
    and xw: "plain (x @ w)" and c: "tagless c"
  shows "parser_run (hermes3_tool_parser parse random_id) s (quietly [[], c]) =
     [ToolCallDelta i None None w, ToolCallDelta i None None w]"
proof -
  let ?s = "s\<lparr>h3_completed := False, h3_window0 := escapeSpecialCharacters w, h3_window1 := []\<rparr>"
  have has: "has_member arguments_key (h3_lastJson s)" and w: "w \<noteq> []" using s by (simp_all add: more_chunks_def)
  have empty: "tagless []" by (simp add: tagless_def str_find_None_iff occurs_at_def toolCallEndTag_def toolCallStartTag_def)
  have one: "hermes3_parseChunk parse random_id s [] [] FR_NONE = hermes3_feed parse random_id [] ?s"
    using s has hermes3_chunk_of_arguments [OF has _ _ _ empty, of parse random_id "[]" FR_NONE]
    by (simp add: more_chunks_def)
  have "in_string pre k x (h3_builder s)" using s by (simp add: more_chunks_def)
  from pj_add_continues [where parse = parse, OF this xw, OF reads_stringsD [OF reads xw]]
  obtain b where b: "pj_add parse (escapeSpecialCharacters w) (h3_builder s) = (b, Inr (call_doc name (x @ w)))"
    "in_string pre k (x @ w) b" by blast
  let ?s1 = "?s\<lparr>h3_builder := b, h3_lastJson := call_doc name (x @ w)\<rparr>"
  have "hermes3_feed parse random_id [] ?s =
      (?s1, Inr (arguments_delta (h3_index ?s) (JObject [(arguments_key, JString w)] :: 'n json)))"
    using s has b(1) w delta_of_more [OF xw, of name] by (intro hermes3_feed_string) (simp_all add: more_chunks_def)
  then have first: "hermes3_parseChunk parse random_id s [] [] FR_NONE = (?s1, Inr (Some (ToolCallDelta i None None w)))"
    using one s w xw by (simp add: more_chunks_def arguments_delta_string)
  let ?s2 = "?s1\<lparr>h3_completed := False, h3_window0 := escapeSpecialCharacters w, h3_window1 := escapeSpecialCharacters c\<rparr>"
  have two: "hermes3_parseChunk parse random_id ?s1 c [] FR_NONE =
      hermes3_feed parse random_id (escapeSpecialCharacters c) ?s2"
    using s w hermes3_chunk_of_arguments [of ?s1 c parse random_id "[]" FR_NONE] c
    by (simp add: more_chunks_def)
  have xww: "plain ((x @ w) @ w)" using xw by simp
  from pj_add_continues [where parse = parse, OF b(2) xww, OF reads_stringsD [OF reads xww]]
  obtain b' where b': "pj_add parse (escapeSpecialCharacters w) b = (b', Inr (call_doc name ((x @ w) @ w)))"
    by blast
  have "hermes3_feed parse random_id (escapeSpecialCharacters c) ?s2 =
      (?s2\<lparr>h3_builder := b', h3_lastJson := call_doc name ((x @ w) @ w)\<rparr>,
       Inr (arguments_delta (h3_index ?s2) (JObject [(arguments_key, JString w)] :: 'n json)))"
    using s b' w delta_of_more [OF xww, of name] by (intro hermes3_feed_string) (simp_all add: more_chunks_def)
  then have "snd (hermes3_parseChunk parse random_id ?s1 c [] FR_NONE) = Inr (Some (ToolCallDelta i None None w))"
    unfolding two using s w xw by (simp add: more_chunks_def arguments_delta_string)
  then obtain s3 where "hermes3_parseChunk parse random_id ?s1 c [] FR_NONE = (s3, Inr (Some (ToolCallDelta i None None w)))"
    by (metis prod.collapse)
  with first show ?thesis by (simp add: quietly_def hermes3_tool_parser_def delta_list_def)
qed

definition collecting_state :: "int hermes3" where
  "collecting_state = announced_state\<lparr>h3_lastJson := call_doc ''f'' ''{'', h3_window0 := ''{'', h3_window1 := ''1'',
     h3_builder := pj_run echo [call_head, quote_char # ''{'']\<rparr>"

theorem hermes3_empty_chunk_repeats_text_witness:
  "parser_run (hermes3_tool_parser (call_parse call_head ''f'') (\<lambda>_. ''id'')) collecting_state (quietly [[], ''}'']) =
     [ToolCallDelta 0 None None ''1'', ToolCallDelta 0 None None ''1'']"
proof (rule hermes3_empty_chunk_repeats_text [where pre = call_head and k = 0 and name = "''f''" and x = "''{''"])
  show "more_chunks call_head 0 ''f'' 0 ''{'' ''1'' collecting_state"
    unfolding more_chunks_def in_string_def by (intro conjI; code_simp)
  show "reads_strings (call_parse call_head ''f'') call_head ''f''" by (rule call_parse_reads)
  show "plain (''{'' @ ''1'')" by code_simp
  show "tagless ''}''" unfolding tagless_def by code_simp
qed

end
