(* ===== verification/Harmony.thy ===== *)
theory Harmony
  imports Tool_Parsers
begin

text \<open>
  The harmony format of GptOss models: the parser of shown messages
  (\<open>src/llm/io_processing/gptoss/content_parser.cpp\<close>), of reasoning
  (\<open>src/llm/io_processing/gptoss/reasoning_parser.cpp\<close>) and of tool calls
  (\<open>src/llm/io_processing/gptoss/tool_parser.cpp\<close>), and the reader of a whole generation
  (\<open>src/llm/io_processing/gptoss/harmony.cpp\<close>). The text of a message is
  \<open><|start|>author<|channel|>channel<|message|>body<|end|>\<close>, with parts of the header left out.
\<close>

section \<open>Shown messages\<close>

definition MESSAGE_TAG :: string where "MESSAGE_TAG = ''<|message|>''"
definition MESSAGE_END_TAGS :: "string list" where "MESSAGE_END_TAGS = [''<|end|>'', ''<|return|>'', ''<|call|>'']"
definition START_TAG :: string where "START_TAG = ''<|start|>''"
definition CHANNEL_TAG :: string where "CHANNEL_TAG = ''<|channel|>''"

text \<open>The longest end of the text that is a proper beginning of a tag.\<close>

definition partial_step :: "string \<Rightarrow> string \<Rightarrow> nat \<Rightarrow> nat" where
  "partial_step s tag partialLength =
     (if tag = [] then partialLength
      else case List.find (\<lambda>n. drop (length s - n) s = take n tag)
                  (rev [Suc partialLength..<Suc (min (length s) (length tag - 1))]) of
             None \<Rightarrow> partialLength | Some n \<Rightarrow> n)"

definition findPartialTagLength :: "string \<Rightarrow> string list \<Rightarrow> nat" where
  "findPartialTagLength s tags = fold (partial_step s) tags 0"

definition gptoss_content_config :: OutputParsingConfig where
  "gptoss_content_config = empty_OutputParsingConfig\<lparr>pc_startTags :=
     [''<|channel|>commentary<|message|>'', ''<|start|>assistant<|channel|>commentary<|message|>'',
      ''<|channel|>final<|message|>'', ''<|start|>assistant<|channel|>final<|message|>'']\<rparr>"

datatype StreamState = READING_HEADER | READING_BODY

record gptoss_content =
  gc_state :: StreamState
  gc_pending :: string
  gc_processed :: nat
  gc_emit :: bool

definition gptoss_content_reset :: "gptoss_content \<Rightarrow> gptoss_content" where
  "gptoss_content_reset s = \<lparr>gc_state = READING_HEADER, gc_pending = [], gc_processed = 0, gc_emit = False\<rparr>"

definition shouldEmitBody :: "string \<Rightarrow> bool" where
  "shouldEmitBody header =
     (if contains ''to=functions.'' header then False
      else
        let channelPos = str_rfind CHANNEL_TAG header;
            authorStart = (case str_find START_TAG header 0 of None \<Rightarrow> 0 | Some p \<Rightarrow> p + length START_TAG);
            authorEnd = (case channelPos of None \<Rightarrow> length header | Some p \<Rightarrow> p)
        in if authorEnd < authorStart then False
           else
             let author = take (authorEnd - authorStart) (drop authorStart header)
             in if str_find ''functions.'' author 0 = Some 0 then False
                else case channelPos of
                       None \<Rightarrow> str_find ''assistant'' author 0 = Some 0
                     | Some p \<Rightarrow>
                         takeWhile (\<lambda>c. c \<notin> {CHR '' '', CHR 0x09, CHR 0x0D, CHR 0x0A, CHR ''<''})
                           (drop (p + length CHANNEL_TAG) header) \<in> {''final'', ''commentary''})"

definition appendNewChunk :: "string \<Rightarrow> gptoss_content \<Rightarrow> gptoss_content" where
  "appendNewChunk chunk s =
     s\<lparr>gc_pending := gc_pending s @ drop (min (gc_processed s) (length chunk)) chunk, gc_processed := length chunk\<rparr>"

text \<open>
  The two consumers act on the state of the stream, whether the message is shown, and the pending
  input. They say whether they advanced, what they add to the content, and what they leave.
\<close>

type_synonym content_place = "StreamState \<times> bool \<times> string"

definition consumeHeader :: "bool \<Rightarrow> string \<Rightarrow> bool \<times> string \<times> content_place" where
  "consumeHeader emit pending =
     (case str_find MESSAGE_TAG pending 0 of
        None \<Rightarrow>
          (case str_find ''<|'' pending 0 of
             None \<Rightarrow> (False, pending, READING_HEADER, emit, [])
           | Some p \<Rightarrow> (False, take p pending, READING_HEADER, emit, drop p pending))
      | Some p \<Rightarrow> (True, [], READING_BODY, shouldEmitBody (take p pending), drop (p + length MESSAGE_TAG) pending))"

definition consumeBody :: "bool \<Rightarrow> string \<Rightarrow> bool \<times> string \<times> content_place" where
  "consumeBody emit pending =
     (case findEarliestTag pending MESSAGE_END_TAGS of
        Some (p, l) \<Rightarrow> (True, if emit then take p pending else [], READING_HEADER, False, drop (p + l) pending)
      | None \<Rightarrow>
          (let contentLength = length pending - findPartialTagLength pending MESSAGE_END_TAGS
           in (False, if emit then take contentLength pending else [], READING_BODY, emit, drop contentLength pending)))"

lemma consumeHeader_shorter: "consumeHeader emit p = (True, t, st, e, r) \<Longrightarrow> length r < length p"
  by (auto simp: consumeHeader_def MESSAGE_TAG_def dest!: str_find_bound split: option.splits)

lemma consumeBody_shorter: "consumeBody emit p = (True, t, st, e, r) \<Longrightarrow> length r < length p"
  by (auto simp: consumeBody_def Let_def dest!: findEarliest_bound split: option.splits)

text \<open>The loop: the content, whether a message was finished, and the place it leaves.\<close>

function content_loop :: "StreamState \<Rightarrow> bool \<Rightarrow> string \<Rightarrow> string \<times> bool \<times> content_place" where
  "content_loop st emit pending =
     (if pending = [] then ([], False, st, emit, pending)
      else case (case st of READING_HEADER \<Rightarrow> consumeHeader emit pending | READING_BODY \<Rightarrow> consumeBody emit pending) of
             (False, t, place) \<Rightarrow> (t, False, place)
           | (True, t, st', emit', rest) \<Rightarrow>
               (case content_loop st' emit' rest of
                  (t', finished, place) \<Rightarrow> (t @ t', st = READING_BODY \<or> finished, place)))"
  by pat_completeness auto
termination
  by (relation "measure (\<lambda>(st, emit, pending). length pending)")
    (auto dest!: consumeHeader_shorter [OF sym] consumeBody_shorter [OF sym] split: StreamState.splits)

declare content_loop.simps [simp del]

definition gptoss_content_parseChunk ::
  "gptoss_content \<Rightarrow> string \<Rightarrow> int list \<Rightarrow> FinishReason \<Rightarrow> gptoss_content \<times> Delta option result" where
  "gptoss_content_parseChunk s chunk tokens finishReason =
     (let s1 = appendNewChunk chunk s
      in case content_loop (gc_state s1) (gc_emit s1) (gc_pending s1) of
           (content, finished, st, emit, pending) \<Rightarrow>
             let s2 = s1\<lparr>gc_state := st, gc_emit := emit, gc_pending := pending\<rparr>
             in if content \<noteq> [] \<or> finished then (s2\<lparr>gc_processed := 0\<rparr>, Inr (Some (ContentDelta content)))
                else (s2, Inr None))"

definition gptoss_content_parser :: "gptoss_content parser_ops" where
  "gptoss_content_parser =
     \<lparr>po_config = gptoss_content_config, po_parseChunk = gptoss_content_parseChunk,
      po_drainPendingDelta = (\<lambda>s. (s, None)), po_resetState = gptoss_content_reset, po_setImplicitStart = (\<lambda>_ s. s)\<rparr>"

section \<open>Tags and their beginnings\<close>

lemma find_rev_upt_Some_iff:
  "List.find P (rev [a..<b]) = Some i \<longleftrightarrow> a \<le> i \<and> i < b \<and> P i \<and> (\<forall>j. i < j \<and> j < b \<longrightarrow> \<not> P j)"
proof (induction b)
  case (Suc b)
  show ?case
  proof (cases "a \<le> b")
    case True
    then have "List.find P (rev [a..<Suc b]) = (if P b then Some b else List.find P (rev [a..<b]))" by simp
    then show ?thesis using Suc True by (auto simp: less_Suc_eq)
  qed auto
qed simp

text \<open>The last \<open>n\<close> characters are a proper beginning of the tag.\<close>

definition ends_in_part :: "string \<Rightarrow> string \<Rightarrow> nat \<Rightarrow> bool" where
  "ends_in_part s tag n \<longleftrightarrow> 0 < n \<and> n < length tag \<and> n \<le> length s \<and> drop (length s - n) s = take n tag"

definition longest_part :: "string \<Rightarrow> string set \<Rightarrow> nat \<Rightarrow> bool" where
  "longest_part s tags n \<longleftrightarrow>
     (n = 0 \<or> (\<exists>tag\<in>tags. ends_in_part s tag n)) \<and> (\<forall>tag\<in>tags. \<forall>m. ends_in_part s tag m \<longrightarrow> m \<le> n)"

lemma longest_part_unique: "longest_part s tags n \<Longrightarrow> longest_part s tags m \<Longrightarrow> n = m"
  by (auto simp: longest_part_def ends_in_part_def) (metis order_antisym)+

lemma partial_step_longest:
  assumes "longest_part s tags n"
  shows "longest_part s (insert tag tags) (partial_step s tag n)"
proof (cases "tag = [] \<or> List.find (\<lambda>n. drop (length s - n) s = take n tag)
    (rev [Suc n..<Suc (min (length s) (length tag - 1))]) = None")
  case True
  have "m \<le> n" if "ends_in_part s tag m" for m
  proof (rule ccontr)
    assume "\<not> m \<le> n"
    then have "m \<in> set (rev [Suc n..<Suc (min (length s) (length tag - 1))])"
      using that by (auto simp: ends_in_part_def simp del: upt_Suc)
    then show False using True that unfolding find_None_iff ends_in_part_def by auto
  qed
  moreover have "partial_step s tag n = n" using True by (auto simp: partial_step_def simp del: upt_Suc)
  ultimately show ?thesis using assms by (auto simp: longest_part_def)
next
  case False
  then obtain k where k: "List.find (\<lambda>n. drop (length s - n) s = take n tag)
      (rev [Suc n..<Suc (min (length s) (length tag - 1))]) = Some k" "tag \<noteq> []" by auto
  then have p: "partial_step s tag n = k" by (simp add: partial_step_def)
  have r: "Suc n \<le> k" "k \<le> length s" "k < length tag" "drop (length s - k) s = take k tag"
    "\<And>j. k < j \<Longrightarrow> j \<le> length s \<Longrightarrow> j < length tag \<Longrightarrow> drop (length s - j) s \<noteq> take j tag"
    using k(1,2) by (auto simp: find_rev_upt_Some_iff less_Suc_eq_le simp del: upt_Suc)
  have "m \<le> k" if "ends_in_part s tag m" for m
    using r(5) [of m] that by (auto simp: ends_in_part_def) (meson not_le)
  moreover have "ends_in_part s tag k" using r by (simp add: ends_in_part_def)
  moreover have "m \<le> k" if "t \<in> tags" "ends_in_part s t m" for t m
    using assms that r(1) by (force simp: longest_part_def)
  ultimately show ?thesis unfolding p by (auto simp: longest_part_def)
qed

lemma fold_longest: "longest_part s tags n \<Longrightarrow> longest_part s (tags \<union> set ts) (fold (partial_step s) ts n)"
proof (induction ts arbitrary: tags n)
  case (Cons t ts)
  from Cons.IH [OF partial_step_longest [OF Cons.prems, of t]] show ?case by simp
qed simp

lemma findPartial_longest: "longest_part s (set tags) (findPartialTagLength s tags)"
  using fold_longest [of s "{}" 0 tags] by (simp add: findPartialTagLength_def longest_part_def)

lemma best_match_unique: "best_match s tags m \<Longrightarrow> best_match s tags n \<Longrightarrow> m = n"
proof (cases m; cases n)
  fix a b
  assume "best_match s tags m" "best_match s tags n" "m = Some a" "n = Some b"
  then obtain p l q k where e: "m = Some (p, l)" "n = Some (q, k)" "best_match s tags (Some (p, l))" "best_match s tags (Some (q, k))"
    by (cases a; cases b) auto
  then have "p \<le> q" "q \<le> p" "p = q \<longrightarrow> l \<le> k \<and> k \<le> l" unfolding best_match_def by auto
  then show "m = n" using e by simp
qed (auto simp: best_match_def)

lemma findEarliest_eqI: "best_match s (set tags) m \<Longrightarrow> findEarliestTag s tags = m"
  using best_match_unique findEarliest_best by blast

text \<open>Tags that begin with a character they do not have again, none the beginning of another.\<close>

definition sharp :: "string list \<Rightarrow> bool" where
  "sharp tags \<longleftrightarrow> (\<forall>t\<in>set tags. t \<noteq> [] \<and> hd t = CHR ''<'' \<and> CHR ''<'' \<notin> set (tl t)) \<and>
     (\<forall>t\<in>set tags. \<forall>u\<in>set tags. take (length t) u = t \<longrightarrow> u = t)"

lemma end_tags_sharp: "sharp MESSAGE_END_TAGS"
  by code_simp

lemma occurs_at_front: "occurs_at t p i \<Longrightarrow> occurs_at t (p @ q) i"
  by (auto simp: occurs_at_def)

lemma occurs_at_front_iff: "i + length t \<le> length p \<Longrightarrow> occurs_at t (p @ q) i \<longleftrightarrow> occurs_at t p i"
  by (auto simp: occurs_at_def)

lemma occurs_at_skip: "occurs_at t (a @ r) (length a + i) \<longleftrightarrow> occurs_at t r i"
  by (auto simp: occurs_at_def)

lemma occurs_at_nth: "occurs_at t s i \<Longrightarrow> k < length t \<Longrightarrow> s ! (i + k) = t ! k"
  by (auto simp: occurs_at_def) (metis add_leD1 nth_drop nth_take)

lemma earliest_append:
  assumes sharp: "sharp tags" and e: "findEarliestTag p tags = Some (i, l)"
  shows "findEarliestTag (p @ q) tags = Some (i, l)"
proof (rule findEarliest_eqI)
  obtain t where t: "t \<in> set tags" "t \<noteq> []" "length t = l" "occurs_at t p i"
    and least: "\<And>u j. u \<in> set tags \<Longrightarrow> u \<noteq> [] \<Longrightarrow> occurs_at u p j \<Longrightarrow> i \<le> j \<and> (j = i \<longrightarrow> length u \<le> l)"
    using findEarliest_best [of p tags] by (auto simp: e best_match_def)
  have tp: "occurs_at t (p @ q) i" using t(4) by (rule occurs_at_front)
  have bound: "i + l \<le> length p" using occurs_at_bound [OF t(4)] t(3) by simp
  have "i \<le> j \<and> (j = i \<longrightarrow> length u \<le> l)" if u: "u \<in> set tags" "u \<noteq> []" "occurs_at u (p @ q) j" for u j
  proof (cases "j + length u \<le> length p")
    case True
    then show ?thesis using least u by (simp add: occurs_at_front_iff)
  next
    case False
    have "i \<le> j"
    proof (rule ccontr)
      assume j: "\<not> i \<le> j"
      then have k: "i - j < length u" "0 < i - j" using False bound by auto
      have "u ! (i - j) = (p @ q) ! i" using occurs_at_nth [OF u(3) k(1)] j by simp
      also have "\<dots> = hd t" using occurs_at_nth [OF tp, of 0] t(2) by (simp add: hd_conv_nth)
      also have "\<dots> = CHR ''<''" using sharp t by (auto simp: sharp_def)
      finally have "tl u ! (i - j - 1) = CHR ''<''" "i - j - 1 < length (tl u)" using k by (cases u; simp add: nth_Cons')+
      then have "CHR ''<'' \<in> set (tl u)" by (metis nth_mem)
      then show False using sharp u by (auto simp: sharp_def)
    qed
    moreover have "length u \<le> l" if "j = i"
    proof -
      have "l \<le> length u" using that False bound by simp
      have "take l u = take l (take (length u) (drop i (p @ q)))" using u(3) that by (simp only: occurs_at_def)
      also have "\<dots> = take l (drop i (p @ q))" using \<open>l \<le> length u\<close> by (simp only: take_take min.absorb1)
      also have "\<dots> = t" using tp t(3) by (simp only: occurs_at_def)
      finally have "take l u = t" .
      then show ?thesis using sharp t(1,3) u(1) unfolding sharp_def by (metis order_refl)
    qed
    ultimately show ?thesis by blast
  qed
  then show "best_match (p @ q) (set tags) (Some (i, l))"
    using t tp by (auto simp: best_match_def)
qed

lemma earliest_skip:
  assumes "\<forall>i<length a. \<forall>t\<in>set tags. \<not> occurs_at t (a @ r) i"
  shows "findEarliestTag (a @ r) tags = map_option (\<lambda>(i, l). (length a + i, l)) (findEarliestTag r tags)"
proof (rule findEarliest_eqI)
  have "\<exists>k. j = length a + k" if "t \<in> set tags" "occurs_at t (a @ r) j" for t j
    using assms that by (metis le_Suc_ex not_le)
  then show "best_match (a @ r) (set tags) (map_option (\<lambda>(i, l). (length a + i, l)) (findEarliestTag r tags))"
    using findEarliest_best [of r tags]
    by (auto simp: best_match_def occurs_at_skip split: option.splits) (metis add_le_cancel_left occurs_at_skip add_left_cancel)+
qed

lemma ends_in_part_skip: "m \<le> length r \<Longrightarrow> ends_in_part (a @ r) t m \<longleftrightarrow> ends_in_part r t m"
  by (auto simp: ends_in_part_def)

lemma partial_skip:
  assumes "\<forall>t\<in>set tags. \<forall>m>length r. \<not> ends_in_part (a @ r) t m"
  shows "findPartialTagLength (a @ r) tags = findPartialTagLength r tags"
proof (rule longest_part_unique [OF findPartial_longest])
  have "findPartialTagLength r tags \<le> length r"
    using findPartial_longest [of r tags] by (auto simp: longest_part_def ends_in_part_def)
  moreover have "m \<le> length r" if "t \<in> set tags" "ends_in_part (a @ r) t m" for t m
    using assms that by (meson not_le)
  ultimately show "longest_part (a @ r) (set tags) (findPartialTagLength r tags)"
    using findPartial_longest [of r tags] unfolding longest_part_def
    by (metis ends_in_part_skip)
qed

section \<open>The loop and the cut into chunks\<close>

lemma loop_empty [simp]: "content_loop st e [] = ([], False, st, e, [])"
  by (simp add: content_loop.simps)

lemma earliest_nil: "findEarliestTag [] MESSAGE_END_TAGS = None"
  by code_simp

text \<open>A front of a body that no end tag and no part of one touches is passed on.\<close>

definition clear_front :: "string \<Rightarrow> string \<Rightarrow> bool" where
  "clear_front a r \<longleftrightarrow>
     (\<forall>t\<in>set MESSAGE_END_TAGS. (\<forall>i<length a. \<not> occurs_at t (a @ r) i) \<and>
        (\<forall>m>length r. \<not> ends_in_part (a @ r) t m))"

lemma body_skip:
  assumes "clear_front a r"
  shows "content_loop READING_BODY e (a @ r) =
    (case content_loop READING_BODY e r of (t, f, pl) \<Rightarrow> ((if e then a else []) @ t, f, pl))"
proof (cases "a = []")
  case False
  have f: "findEarliestTag (a @ r) MESSAGE_END_TAGS =
      map_option (\<lambda>(i, l). (length a + i, l)) (findEarliestTag r MESSAGE_END_TAGS)"
    and n: "findPartialTagLength (a @ r) MESSAGE_END_TAGS = findPartialTagLength r MESSAGE_END_TAGS"
    using assms earliest_skip partial_skip by (simp_all add: clear_front_def)
  have "findPartialTagLength r MESSAGE_END_TAGS \<le> length r"
    using findPartial_longest [of r MESSAGE_END_TAGS] by (auto simp: longest_part_def ends_in_part_def)
  then have c: "consumeBody e (a @ r) =
      (case consumeBody e r of (adv, t, pl) \<Rightarrow> (adv, (if e then a else []) @ t, pl))"
    by (auto simp: consumeBody_def f n Let_def split: option.splits)
  show ?thesis
  proof (cases "r = []")
    case True
    have "consumeBody e ([] :: string) = (False, [], READING_BODY, e, [])"
      by (auto simp: consumeBody_def Let_def earliest_nil)
    then show ?thesis using True False c by (subst content_loop.simps) simp
  next
    case False
    then show ?thesis using c
      by (subst (1 2) content_loop.simps) (auto split: prod.splits bool.splits)
  qed
qed (simp split: prod.splits)

lemma held_front:
  assumes "findEarliestTag p MESSAGE_END_TAGS = None" "n = findPartialTagLength p MESSAGE_END_TAGS"
  shows "clear_front (take (length p - n) p) (drop (length p - n) p @ q)"
proof -
  have n: "n \<le> length p" and longest: "\<And>t m. t \<in> set MESSAGE_END_TAGS \<Longrightarrow> ends_in_part p t m \<Longrightarrow> m \<le> n"
    using findPartial_longest [of p MESSAGE_END_TAGS] assms(2) by (auto simp: longest_part_def ends_in_part_def)
  have no: "\<not> occurs_at t p i" if "t \<in> set MESSAGE_END_TAGS" for t i
  proof -
    have "t \<noteq> []" using that end_tags_sharp by (auto simp: sharp_def)
    then show ?thesis using findEarliest_best [of p MESSAGE_END_TAGS] that by (auto simp: assms(1) best_match_def)
  qed
  have pq: "take (length p - n) p @ drop (length p - n) p @ q = p @ q" by simp
  have "\<not> occurs_at t (p @ q) i" if t: "t \<in> set MESSAGE_END_TAGS" and i: "i < length p - n" for t i
  proof
    assume o: "occurs_at t (p @ q) i"
    then have len: "length p < i + length t" using no [OF t, of i] by (metis not_le occurs_at_front_iff)
    have "take (length p - i) t = take (length p - i) (take (length t) (drop i (p @ q)))"
      using o by (simp only: occurs_at_def)
    also have "\<dots> = take (length p - i) (drop i (p @ q))"
      proof -
      have "length p - i \<le> length t" using len by simp
      then show ?thesis by (simp only: take_take min.absorb1)
    qed
    also have "\<dots> = drop i p" by simp
    finally have "drop i p = take (length p - i) t" by simp
    then have "ends_in_part p t (length p - i)" using i len by (auto simp: ends_in_part_def)
    then show False using longest [OF t] i by fastforce
  qed
  moreover have "\<not> ends_in_part (p @ q) t m" if t: "t \<in> set MESSAGE_END_TAGS" and m: "n + length q < m" for t m
  proof
    assume e: "ends_in_part (p @ q) t m"
    define k where "k = m - length q"
    have k: "m = k + length q" "n < k" using m by (simp_all add: k_def)
    have b: "k \<le> length p" "m < length t" using e by (simp_all add: ends_in_part_def k(1))
    have "drop (length p - k) p @ q = take (k + length q) t" using e by (simp add: ends_in_part_def k(1))
    then have "take k (drop (length p - k) p @ q) = take k (take (k + length q) t)" by (rule arg_cong)
    also have "take k (drop (length p - k) p @ q) = drop (length p - k) p" using b(1) by simp
    also have "take k (take (k + length q) t) = take k t" by simp
    finally have "ends_in_part p t k" unfolding ends_in_part_def using k b by simp
    then show False using longest [OF t] k(2) by (meson not_le)
  qed
  ultimately show ?thesis using n by (simp add: clear_front_def pq)
qed

text \<open>
  What the loop leaves of \<open>p\<close> and more input give what it makes of both at once, provided that
  nothing was passed on while a header was read.
\<close>

function quiet :: "StreamState \<Rightarrow> bool \<Rightarrow> string \<Rightarrow> bool" where
  "quiet st emit pending =
     (if pending = [] then True
      else case (case st of READING_HEADER \<Rightarrow> consumeHeader emit pending | READING_BODY \<Rightarrow> consumeBody emit pending) of
             (False, t, place) \<Rightarrow> st = READING_BODY \<or> t = []
           | (True, t, st', emit', rest) \<Rightarrow> quiet st' emit' rest)"
  by pat_completeness auto
termination
  by (relation "measure (\<lambda>(st, emit, pending). length pending)")
    (auto dest!: consumeHeader_shorter [OF sym] consumeBody_shorter [OF sym] split: StreamState.splits)

declare quiet.simps [simp del]

lemma quiet_nil [simp]: "quiet st e []"
  by (simp add: quiet.simps)

lemma header_found:
  assumes "str_find MESSAGE_TAG p 0 = Some i"
  shows "content_loop READING_HEADER e p =
      (case content_loop READING_BODY (shouldEmitBody (take i p)) (drop (i + length MESSAGE_TAG) p) of (t, f, pl) \<Rightarrow> (t, f, pl))"
    "quiet READING_HEADER e p = quiet READING_BODY (shouldEmitBody (take i p)) (drop (i + length MESSAGE_TAG) p)"
proof -
  have "p \<noteq> []" using str_find_bound [OF assms] by (auto simp: MESSAGE_TAG_def)
  then show "content_loop READING_HEADER e p =
      (case content_loop READING_BODY (shouldEmitBody (take i p)) (drop (i + length MESSAGE_TAG) p) of (t, f, pl) \<Rightarrow> (t, f, pl))"
    "quiet READING_HEADER e p = quiet READING_BODY (shouldEmitBody (take i p)) (drop (i + length MESSAGE_TAG) p)"
    by (subst content_loop.simps quiet.simps; simp add: consumeHeader_def assms)+
qed

lemma body_found:
  assumes "findEarliestTag p MESSAGE_END_TAGS = Some (i, l)"
  shows "content_loop READING_BODY e p =
      (case content_loop READING_HEADER False (drop (i + l) p) of (t, f, pl) \<Rightarrow> ((if e then take i p else []) @ t, True, pl))"
    "quiet READING_BODY e p = quiet READING_HEADER False (drop (i + l) p)"
proof -
  have "p \<noteq> []" using findEarliest_bound [OF assms] by auto
  then show "content_loop READING_BODY e p =
      (case content_loop READING_HEADER False (drop (i + l) p) of (t, f, pl) \<Rightarrow> ((if e then take i p else []) @ t, True, pl))"
    "quiet READING_BODY e p = quiet READING_HEADER False (drop (i + l) p)"
    by (subst content_loop.simps quiet.simps; simp add: consumeBody_def assms)+
qed

lemma body_held:
  assumes "findEarliestTag p MESSAGE_END_TAGS = None" "n = findPartialTagLength p MESSAGE_END_TAGS"
  shows "content_loop READING_BODY e p =
    (if e then take (length p - n) p else [], False, READING_BODY, e, drop (length p - n) p)"
  using assms by (subst content_loop.simps) (simp add: consumeBody_def Let_def)

lemma header_held:
  assumes "str_find MESSAGE_TAG p 0 = None" "quiet READING_HEADER e p"
  shows "content_loop READING_HEADER e p = ([], False, READING_HEADER, e, p)"
proof (cases "p = []")
  case False
  have "(case consumeHeader e p of (adv, t, pl) \<Rightarrow> \<not> adv \<and> t = [])"
    using assms(2) False assms(1) by (subst (asm) quiet.simps) (auto simp: consumeHeader_def split: option.splits)
  then have "consumeHeader e p = (False, [], READING_HEADER, e, p)"
    using assms(1) False by (auto simp: consumeHeader_def split: option.splits)
  then show ?thesis using False by (subst content_loop.simps) simp
qed simp

lemma loop_append:
  "quiet st e p \<Longrightarrow> content_loop st e p = (t, f, st1, e1, p1) \<Longrightarrow>
   content_loop st e (p @ q) = (case content_loop st1 e1 (p1 @ q) of (t2, f2, pl) \<Rightarrow> (t @ t2, f \<or> f2, pl))"
proof (induction "length p" arbitrary: st e p t f rule: less_induct)
  case less
  show ?case
  proof (cases st)
    case READING_HEADER
    show ?thesis
    proof (cases "str_find MESSAGE_TAG p 0")
      case None
      then show ?thesis using less.prems by (simp add: READING_HEADER header_held split: prod.splits)
    next
      case (Some i)
      let ?r = "drop (i + length MESSAGE_TAG) p" and ?e = "shouldEmitBody (take i p)"
      have b: "i + length MESSAGE_TAG \<le> length p" using str_find_bound [OF Some] by simp
      then have "length ?r < length p" by (simp add: MESSAGE_TAG_def)
      from less.hyps [OF this, of READING_BODY ?e t f]
      have "content_loop READING_BODY ?e (?r @ q) = (case content_loop st1 e1 (p1 @ q) of (t2, f2, pl) \<Rightarrow> (t @ t2, f \<or> f2, pl))"
        using less.prems header_found [OF Some, of e] by (simp add: READING_HEADER)
      then show ?thesis using header_found(1) [OF str_find_append [OF Some, of q], of e] b
        by (simp add: READING_HEADER split: prod.splits)
    qed
  next
    case READING_BODY
    show ?thesis
    proof (cases "findEarliestTag p MESSAGE_END_TAGS")
      case None
      then show ?thesis
        using body_skip [OF held_front [OF None refl, of q], of e] body_held [OF None refl, of e] less.prems(2)
        by (auto simp: READING_BODY append_assoc [symmetric] simp del: append_assoc split: prod.splits)
    next
      case (Some il)
      obtain i l where il: "il = (i, l)" by (cases il)
      let ?r = "drop (i + l) p"
      note f = Some [unfolded il]
      have b: "i + l \<le> length p" "0 < l" using findEarliest_bound [OF f] by auto
      then have "length ?r < length p" by simp
      obtain t' f' where r: "content_loop READING_HEADER False ?r = (t', f', st1, e1, p1)"
        "t = (if e then take i p else []) @ t'" "f = True"
        using less.prems(2) body_found(1) [OF f, of e] by (auto simp: READING_BODY split: prod.splits)
      have "content_loop READING_HEADER False (?r @ q) = (case content_loop st1 e1 (p1 @ q) of (t2, f2, pl) \<Rightarrow> (t' @ t2, f' \<or> f2, pl))"
        using less.hyps [OF \<open>length ?r < length p\<close> _ r(1)] less.prems(1) body_found(2) [OF f, of e]
        by (simp add: READING_BODY)
      then show ?thesis using body_found(1) [OF earliest_append [OF end_tags_sharp f, of q], of e] b r(2,3)
        by (simp add: READING_BODY split: prod.splits)
    qed
  qed
qed

section \<open>A generation of messages\<close>

text \<open>A message: its header, its body and the tag that ends it.\<close>

type_synonym message_text = "string \<times> string \<times> string"

definition render :: "message_text \<Rightarrow> string" where
  "render = (\<lambda>(h, b, e). h @ MESSAGE_TAG @ b @ e)"

definition harmony_message :: "message_text \<Rightarrow> bool" where
  "harmony_message = (\<lambda>(h, b, e).
     take 2 h = ''<|'' \<and> str_find MESSAGE_TAG (h @ MESSAGE_TAG) 0 = Some (length h) \<and>
     findEarliestTag (b @ e) MESSAGE_END_TAGS = Some (length b, length e))"

definition shown :: "message_text \<Rightarrow> string" where
  "shown = (\<lambda>(h, b, e). if shouldEmitBody h then b else [])"

lemma find_message:
  "harmony_message (h, b, e) \<Longrightarrow> str_find MESSAGE_TAG (h @ MESSAGE_TAG @ z) 0 = Some (length h)"
  using str_find_append [of MESSAGE_TAG "h @ MESSAGE_TAG" "length h" z] by (simp add: harmony_message_def)

lemma find_end:
  "harmony_message (h, b, e) \<Longrightarrow> findEarliestTag (b @ e @ z) MESSAGE_END_TAGS = Some (length b, length e)"
  using earliest_append [OF end_tags_sharp, of "b @ e" "length b" "length e" z] by (simp add: harmony_message_def)

lemma message_loop:
  assumes "harmony_message m"
  shows "content_loop READING_HEADER x (render m @ z) =
      (case content_loop READING_HEADER False z of (t, f, pl) \<Rightarrow> (shown m @ t, True, pl))"
    "quiet READING_HEADER x (render m @ z) = quiet READING_HEADER False z"
proof -
  obtain h b e where m: "m = (h, b, e)" by (cases m)
  note w = assms [unfolded m]
  show "content_loop READING_HEADER x (render m @ z) =
      (case content_loop READING_HEADER False z of (t, f, pl) \<Rightarrow> (shown m @ t, True, pl))"
    "quiet READING_HEADER x (render m @ z) = quiet READING_HEADER False z"
    using header_found [OF find_message [OF w, of "b @ e @ z"], of x]
      body_found [OF find_end [OF w, of z], of "shouldEmitBody h"]
    by (simp_all add: m render_def shown_def split: prod.splits)
qed

lemma messages_loop:
  "list_all harmony_message ms \<Longrightarrow>
   \<exists>f. content_loop READING_HEADER False (concat (map render ms)) = (concat (map shown ms), f, READING_HEADER, False, [])"
  by (induction ms) (auto simp: message_loop split: prod.splits)

text \<open>A front of such a text is quiet, unless it ends within the first two characters of a header.\<close>

lemma quiet_in_message:
  assumes m: "harmony_message (h, b, e)" and x: "x @ y = render (h, b, e)" "y \<noteq> []"
    and last: "x = [] \<or> last x \<noteq> CHR ''<''"
  shows "quiet READING_HEADER k x"
proof (cases "str_find MESSAGE_TAG x 0")
  case None
  have h: "take 2 h = ''<|''" using m by (simp add: harmony_message_def)
  then have "length (take 2 h) = 2" by simp
  then have "2 \<le> length h" by simp
  then have "take 2 (render (h, b, e)) = ''<|''" using h by (simp add: render_def)
  then have t: "take 2 (x @ y) = ''<|''" using x(1) by simp
  have "str_find ''<|'' x 0 = Some 0" if "x \<noteq> []"
  proof -
    obtain c x' where c: "x = c # x'" using \<open>x \<noteq> []\<close> by (cases x) auto
    then have "x' \<noteq> []" using t last by (auto simp: numeral_2_eq_2)
    then have "take 2 x = ''<|''" using t c by (cases x') (auto simp: numeral_2_eq_2)
    moreover have "2 \<le> length x" using c \<open>x' \<noteq> []\<close> by (cases x') auto
    ultimately show ?thesis by (simp add: str_find_Some_iff occurs_at_def numeral_2_eq_2)
  qed
  then show ?thesis using None by (subst quiet.simps) (auto simp: consumeHeader_def)
next
  case (Some i)
  have "str_find MESSAGE_TAG (render (h, b, e)) 0 = Some i" using str_find_append [OF Some, of y] x(1) by simp
  then have i: "i = length h" using find_message [OF m, of "b @ e"] by (simp add: render_def)
  let ?r = "drop (i + length MESSAGE_TAG) x"
  have len: "i + length MESSAGE_TAG \<le> length x" using str_find_bound [OF Some] by simp
  have r: "?r @ y = b @ e"
    using arg_cong [OF x(1), of "drop (i + length MESSAGE_TAG)"] len by (simp add: render_def i)
  have "findEarliestTag ?r MESSAGE_END_TAGS = None"
  proof (cases "findEarliestTag ?r MESSAGE_END_TAGS")
    case (Some jl)
    obtain j l where jl: "jl = (j, l)" by (cases jl)
    have "Some (j, l) = Some (length b, length e)"
      using earliest_append [OF end_tags_sharp Some [unfolded jl], of y] m r by (simp add: harmony_message_def)
    then have "length b + length e \<le> length ?r" using findEarliest_bound [OF Some [unfolded jl]] by simp
    then have False using arg_cong [OF r, of length] x(2) by (cases y) simp_all
    then show ?thesis ..
  qed simp
  then have "quiet READING_BODY (shouldEmitBody (take i x)) ?r"
    by (cases "?r = []") (subst quiet.simps; simp add: consumeBody_def Let_def)+
  then show ?thesis using header_found(2) [OF Some] by simp
qed

lemma quiet_front:
  "list_all harmony_message ms \<Longrightarrow> x @ y = concat (map render ms) \<Longrightarrow> x = [] \<or> last x \<noteq> CHR ''<'' \<Longrightarrow>
   quiet READING_HEADER k x"
proof (induction ms arbitrary: x k)
  case (Cons m ms)
  obtain h b e where m: "m = (h, b, e)" by (cases m)
  show ?case
  proof (cases "length (render m) \<le> length x")
    case True
    define z where "z = drop (length (render m)) x"
    have "take (length (render m)) x = render m" "z @ y = concat (map render ms)"
      using arg_cong [OF Cons.prems(2), of "take (length (render m))"]
        arg_cong [OF Cons.prems(2), of "drop (length (render m))"] True by (simp_all add: z_def)
    then have z: "x = render m @ z" "z @ y = concat (map render ms)"
      by (metis append_take_drop_id z_def, simp)
    have "z = [] \<or> last z \<noteq> CHR ''<''" using Cons.prems(3) z(1) by auto
    then have "quiet READING_HEADER False z" using Cons.IH [OF _ z(2)] Cons.prems(1) by simp
    then show ?thesis using message_loop(2) [of m k z] Cons.prems(1) z(1) by simp
  next
    case False
    then have "x @ drop (length x) (render m) = render m" "drop (length x) (render m) \<noteq> []"
      using arg_cong [OF Cons.prems(2), of "take (length x)"] by simp_all (metis append_take_drop_id)
    then obtain v where "x @ v = render m" "v \<noteq> []" by blast
    then show ?thesis using quiet_in_message [of h b e x v k] Cons.prems(1,3) m by simp
  qed
qed simp

lemma last_of_chunks:
  "\<forall>c\<in>set cs. c = [] \<or> last c \<noteq> a \<Longrightarrow> concat cs = [] \<or> last (concat cs) \<noteq> a"
  by (induction cs rule: rev_induct) (auto simp: last_append)

text \<open>
  The caller keeps a buffer: a parser that gives nothing gets the buffer and the next chunk again.
\<close>

fun content_run :: "'s parser_ops \<Rightarrow> 's \<Rightarrow> string \<Rightarrow> string list \<Rightarrow> string" where
  "content_run ops s buf [] = []"
| "content_run ops s buf (c # cs) =
     (case po_parseChunk ops s (buf @ c) [] FR_NONE of
        (s', Inr (Some (ContentDelta t))) \<Rightarrow> t @ content_run ops s' [] cs
      | (s', Inr None) \<Rightarrow> content_run ops s' (buf @ c) cs
      | _ \<Rightarrow> [])"

lemma run_loop:
  assumes "gc_processed s = length buf"
    "content_loop READING_HEADER False x = (t0, f0, gc_state s, gc_emit s, gc_pending s)"
    "\<forall>k \<le> length cs. quiet READING_HEADER False (x @ concat (take k cs))"
  shows "\<exists>f pl. content_loop READING_HEADER False (x @ concat cs) = (t0 @ content_run gptoss_content_parser s buf cs, f, pl)"
  using assms
proof (induction cs arbitrary: s buf x t0 f0)
  case (Cons c cs)
  have q: "quiet READING_HEADER False x" using Cons.prems(3) [rule_format, of 0] by simp
  obtain t f st e p where l: "content_loop (gc_state s) (gc_emit s) (gc_pending s @ c) = (t, f, st, e, p)"
    by (metis prod_cases5)
  have x: "content_loop READING_HEADER False (x @ c) = (t0 @ t, f0 \<or> f, st, e, p)"
    using loop_append [OF q Cons.prems(2), of c] l by simp
  have rest: "\<forall>k \<le> length cs. quiet READING_HEADER False ((x @ c) @ concat (take k cs))"
    using Cons.prems(3) [rule_format, of "Suc _"] by simp
  let ?s = "s\<lparr>gc_pending := p, gc_processed := length buf + length c, gc_state := st, gc_emit := e\<rparr>"
  have step: "gptoss_content_parseChunk s (buf @ c) [] FR_NONE =
      (if t \<noteq> [] \<or> f then (?s\<lparr>gc_processed := 0\<rparr>, Inr (Some (ContentDelta t))) else (?s, Inr None))"
    using l Cons.prems(1) by (cases s) (simp add: gptoss_content_parseChunk_def appendNewChunk_def)
  show ?case
  proof (cases "t \<noteq> [] \<or> f")
    case True
    then show ?thesis using Cons.IH [of "?s\<lparr>gc_processed := 0\<rparr>" "[]" "x @ c", OF _ _ rest] x step
      by (simp add: gptoss_content_parser_def)
  next
    case False
    then show ?thesis using Cons.IH [of ?s "buf @ c" "x @ c", OF _ _ rest] x step
      by (simp add: gptoss_content_parser_def)
  qed
qed simp

section \<open>Properties of shown messages\<close>

text \<open>
  C6: For every cut of a generation of harmony messages into chunks of which none ends in an opening angle
  bracket, the content the GptOss parser gives together is the bodies of the messages to show, in order:
  markers split elsewhere, bodies that arrive in pieces and messages that are not for the user make no
  difference.
\<close>

theorem gptoss_content_is_the_shown_bodies:
  assumes "list_all harmony_message ms" "concat cs = concat (map render ms)"
    "\<forall>c\<in>set cs. c = [] \<or> last c \<noteq> CHR ''<''"
  shows "content_run gptoss_content_parser (gptoss_content_reset s) [] cs = concat (map shown ms)"
proof -
  have "quiet READING_HEADER False ([] @ concat (take k cs))" for k
  proof (rule quiet_front [OF assms(1)])
    show "([] @ concat (take k cs)) @ concat (drop k cs) = concat (map render ms)"
      using assms(2) by (metis append_Nil append_take_drop_id concat_append)
    show "[] @ concat (take k cs) = [] \<or> last ([] @ concat (take k cs)) \<noteq> CHR ''<''"
      using last_of_chunks [of "take k cs"] assms(3) by (auto dest: in_set_takeD)
  qed
  from run_loop [of "gptoss_content_reset s" "[]" "[]" "[]" False cs] this messages_loop [OF assms(1)] assms(2)
  show ?thesis by (auto simp: gptoss_content_reset_def)
qed

definition weather :: "message_text list" where
  "weather =
     [(''<|channel|>analysis'', ''hm'', ''<|end|>''),
      (''<|start|>assistant<|channel|>commentary to=functions.f '', ''{}'', ''<|call|>''),
      (''<|start|>assistant<|channel|>final'', ''a <b'', ''<|return|>'')]"

theorem gptoss_content_is_the_shown_bodies_witness:
  "content_run gptoss_content_parser (gptoss_content_reset \<lparr>gc_state = READING_BODY, gc_pending = ''x'', gc_processed = 3, gc_emit = True\<rparr>) []
     [''<|channel|>analysis<|mess'', ''age|>hm<|end|><|start|>assistant<|channel|>commen'',
      ''tary to=functions.f <|message|>{}<|call|><|start|>assistant<|channel|>fin'', ''al<|message|>a <b<|ret'', ''urn|>'']
   = ''a <b''"
proof -
  have shown: "concat (map shown weather) = ''a <b''" by code_simp
  show ?thesis unfolding shown [symmetric]
  proof (rule gptoss_content_is_the_shown_bodies)
    show "list_all harmony_message weather" by code_simp
  qed (code_simp, simp)
qed

text \<open>Cut after the first character of a header, the header is not recognised and the message is lost.\<close>

lemma gptoss_split_bracket_loses_the_message:
  "content_run gptoss_content_parser (gptoss_content_reset s) [] [''<'', ''|channel|>final<|message|>hi<|end|>''] = ''<'' \<and>
   content_run gptoss_content_parser (gptoss_content_reset s) [] [''<|channel|>final<|message|>hi<|end|>''] = ''hi''"
  by code_simp

section \<open>Reasoning\<close>

definition gptoss_reasoning_config :: OutputParsingConfig where
  "gptoss_reasoning_config = empty_OutputParsingConfig\<lparr>pc_startTags := [''<|channel|>analysis<|message|>''],
     pc_endTags := [''<|end|>''], pc_needsSpecialTokens := True, pc_defaultDecodingWithSpecialTokens := True\<rparr>"

text \<open>The state: whether reasoning is being read. What follows the start tag in its chunk is not given out.\<close>

definition gptoss_reasoning_parseChunk ::
  "OutputParsingConfig \<Rightarrow> bool \<Rightarrow> string \<Rightarrow> int list \<Rightarrow> FinishReason \<Rightarrow> bool \<times> Delta option result" where
  "gptoss_reasoning_parseChunk cfg state newChunk tokens finishReason =
     (if newChunk = [] then (state, Inr None)
      else case front_of (pc_startTags cfg) of
        Inl e \<Rightarrow> (state, Inl e)
      | Inr startTag \<Rightarrow>
          (case (if startsWith newChunk startTag then (True, drop (length startTag) newChunk)
                 else case pc_endTags cfg of
                        endTag # _ \<Rightarrow>
                          if endsWith newChunk endTag then (False, take (length newChunk - length endTag) newChunk)
                          else if endsWith newChunk ''<|return|>'' then (False, take (length newChunk - 10) newChunk)
                          else (state, newChunk)
                      | [] \<Rightarrow>
                          if endsWith newChunk ''<|return|>'' then (False, take (length newChunk - 10) newChunk)
                          else (state, newChunk)) of
             (state', chunk) \<Rightarrow> (state', Inr (if chunk \<noteq> [] \<and> state then Some (ReasoningDelta chunk) else None))))"

definition gptoss_reasoning_parser :: "OutputParsingConfig \<Rightarrow> bool parser_ops" where
  "gptoss_reasoning_parser cfg =
     \<lparr>po_config = cfg, po_parseChunk = gptoss_reasoning_parseChunk cfg,
      po_drainPendingDelta = (\<lambda>s. (s, None)), po_resetState = (\<lambda>_. False), po_setImplicitStart = (\<lambda>_ s. s)\<rparr>"

interpretation gptoss_thoughts: returning_parser "gptoss_reasoning_parser gptoss_reasoning_config"
  by unfold_locales
    (auto simp: gptoss_reasoning_parser_def gptoss_reasoning_parseChunk_def gptoss_reasoning_config_def front_of_def
      split: prod.splits)

interpretation gptoss_contents: returning_parser gptoss_content_parser
  by unfold_locales
    (auto simp: gptoss_content_parser_def gptoss_content_parseChunk_def Let_def split: prod.splits)

lemma gptoss_reasoning_after_the_tag_is_lost:
  "reasoning_run (gptoss_reasoning_parseChunk gptoss_reasoning_config) False
     (running [''<|channel|>analysis<|message|>First, '', ''think.'', ''<|end|>'']) = Inr ''think.''"
  by code_simp

section \<open>Tool calls\<close>

definition TOKEN_CONSTRAIN :: string where "TOKEN_CONSTRAIN = ''<|constrain|>''"

datatype ToolStreamState = READING_CHANNEL | READING_CONSTRAIN | READING_MESSAGE

record gptoss_tool =
  gt_state :: ToolStreamState
  gt_cache :: string
  gt_naming :: bool
  gt_index :: int
  gt_name :: string
  gt_drawn :: nat

definition new_gptoss_tool :: gptoss_tool where
  "new_gptoss_tool =
     \<lparr>gt_state = READING_CHANNEL, gt_cache = [], gt_naming = False, gt_index = -1, gt_name = [], gt_drawn = 0\<rparr>"

definition gptoss_tool_config :: OutputParsingConfig where
  "gptoss_tool_config = empty_OutputParsingConfig\<lparr>
     pc_startTags := [''<|channel|>commentary to='', ''<|channel|>analysis to=''], pc_endTags := [''<|call|>''],
     pc_needsSpecialTokens := True, pc_defaultDecodingWithSpecialTokens := True\<rparr>"

definition gt_clearState :: "gptoss_tool \<Rightarrow> gptoss_tool" where
  "gt_clearState s = s\<lparr>gt_cache := [], gt_naming := False, gt_name := []\<rparr>"

definition gt_resetState :: "gptoss_tool \<Rightarrow> gptoss_tool" where
  "gt_resetState s = gt_clearState (s\<lparr>gt_state := READING_CHANNEL, gt_index := -1\<rparr>)"

text \<open>\<open>wrapDeltaIntoDocument\<close>, and the delta that names the function.\<close>

definition gt_arguments :: "gptoss_tool \<Rightarrow> string \<Rightarrow> Delta" where
  "gt_arguments s chunk = ToolCallDelta (gt_index s) None None chunk"

definition gt_announce :: "(nat \<Rightarrow> string) \<Rightarrow> gptoss_tool \<Rightarrow> gptoss_tool \<times> Delta option" where
  "gt_announce random_id s =
     (if gt_state s = READING_CHANNEL \<and> gt_name s \<noteq> []
      then (s\<lparr>gt_drawn := Suc (gt_drawn s)\<rparr>,
            Some (ToolCallDelta (gt_index s) (Some (random_id (gt_drawn s))) (Some (gt_name s)) []))
      else (s, None))"

text \<open>The case \<open>READING_CHANNEL\<close>; the cache already has the chunk.\<close>

definition gt_channel :: "string \<Rightarrow> gptoss_tool \<Rightarrow> gptoss_tool" where
  "gt_channel chunk s =
     (case (if \<not> gt_naming s \<and> startsWith (gt_cache s) ''functions.''
            then (s\<lparr>gt_naming := True, gt_name := []\<rparr>,
                  case str_find ''.'' chunk 0 of None \<Rightarrow> chunk | Some p \<Rightarrow> drop (p + 1) chunk)
            else (s, chunk)) of
        (s, chunk) \<Rightarrow>
          if gt_naming s then
            (case str_find '' '' chunk 0 of
               None \<Rightarrow> s\<lparr>gt_name := gt_name s @ chunk\<rparr>
             | Some p \<Rightarrow> s\<lparr>gt_naming := False, gt_cache := [], gt_name := gt_name s @ take p chunk\<rparr>)
          else s)"

text \<open>From the end tags to the end of the method; \<open>result\<close> is what was announced before.\<close>

definition gt_content :: "Delta option \<Rightarrow> string \<Rightarrow> gptoss_tool \<Rightarrow> gptoss_tool \<times> Delta option result" where
  "gt_content announced_now chunk s =
     (if endsWith chunk ''<|call|>'' \<or> endsWith chunk ''<|end|>'' \<or> endsWith chunk ''<|return|>'' then
        (gt_clearState (s\<lparr>gt_state := READING_CHANNEL\<rparr>),
         Inr (case str_rfind ''<|'' chunk of
                Some p \<Rightarrow> if 0 < p then Some (gt_arguments s (take p chunk)) else announced_now
              | None \<Rightarrow> announced_now))
      else
        let s1 = s\<lparr>gt_cache := gt_cache s @ chunk\<rparr>
        in case gt_state s of
             READING_CHANNEL \<Rightarrow> (gt_channel chunk s1, Inr None)
           | READING_CONSTRAIN \<Rightarrow>
               (case str_find MESSAGE_TAG chunk 0 of
                  None \<Rightarrow> (s1, Inr None)
                | Some p \<Rightarrow>
                    (gt_clearState (s1\<lparr>gt_state := READING_MESSAGE\<rparr>),
                     Inr (Some (gt_arguments s1 (drop (p + length MESSAGE_TAG) chunk)))))
           | READING_MESSAGE \<Rightarrow> (s1, Inr (Some (gt_arguments s1 chunk))))"

definition gptoss_tool_parseChunk ::
  "OutputParsingConfig \<Rightarrow> (nat \<Rightarrow> string) \<Rightarrow> gptoss_tool \<Rightarrow> string \<Rightarrow> int list \<Rightarrow> FinishReason \<Rightarrow>
   gptoss_tool \<times> Delta option result" where
  "gptoss_tool_parseChunk cfg random_id s chunk tokens finishReason =
     (if list_ex (\<lambda>tag. contains tag chunk) (pc_startTags cfg) then (s\<lparr>gt_index := gt_index s + 1\<rparr>, Inr None)
      else if chunk = TOKEN_CONSTRAIN then
        (case gt_announce random_id s of (s1, d) \<Rightarrow> (gt_clearState (s1\<lparr>gt_state := READING_CONSTRAIN\<rparr>), Inr d))
      else case str_find MESSAGE_TAG chunk 0 of
        None \<Rightarrow> gt_content None chunk s
      | Some p \<Rightarrow>
          (case gt_announce random_id s of
             (s1, d) \<Rightarrow>
               let s2 = gt_clearState (s1\<lparr>gt_state := READING_MESSAGE\<rparr>)
               in if length MESSAGE_TAG < length chunk then gt_content d (drop (p + length MESSAGE_TAG) chunk) s2
                  else (s2, Inr d)))"

definition gptoss_tool_parser :: "(nat \<Rightarrow> string) \<Rightarrow> gptoss_tool parser_ops" where
  "gptoss_tool_parser random_id =
     \<lparr>po_config = gptoss_tool_config, po_parseChunk = gptoss_tool_parseChunk gptoss_tool_config random_id,
      po_drainPendingDelta = (\<lambda>s. (s, None)), po_resetState = gt_resetState, po_setImplicitStart = (\<lambda>_ s. s)\<rparr>"

interpretation gptoss_tools: returning_parser "gptoss_tool_parser random_id"
  by unfold_locales
    (auto simp: gptoss_tool_parser_def gptoss_tool_parseChunk_def gt_content_def Let_def
      split: prod.splits option.splits ToolStreamState.splits)

text \<open>Text without the beginning of a marker has none of the markers.\<close>

definition unmarked :: "string \<Rightarrow> bool" where
  "unmarked s \<longleftrightarrow> \<not> contains ''<|'' s"

lemma unmarked_free:
  assumes "unmarked s" "m = ''<|'' @ w"
  shows "\<not> contains m s"
proof
  assume "contains m s"
  then obtain u v where "s = u @ ''<|'' @ (w @ v)" by (auto simp: contains_iff assms(2))
  then show False using assms(1) unfolding unmarked_def contains_iff by blast
qed

lemma endsWith_lower:
  "endsWith s m \<Longrightarrow> m = ''<|'' @ w \<Longrightarrow> contains ''<|'' s"
proof -
  assume e: "endsWith s m" and m: "m = ''<|'' @ w"
  let ?t = "drop (length s - length m) s"
  have l: "list_all2 (\<lambda>a b. to_lower a = to_lower b) ?t (CHR ''<'' # CHR ''|'' # w)"
    using e m by (simp add: endsWith_def)
  then obtain a b r where t: "?t = a # b # r" "to_lower a = to_lower CHR ''<''" "to_lower b = to_lower CHR ''|''"
    by (auto simp: list_all2_Cons2)
  have lower: "c = d" if "to_lower c = to_lower d" "\<not> is_upper d" "\<not> is_lower d" for c d
    using that by (auto simp: to_lower_def is_upper_def is_lower_def split: if_splits)
  have "a = CHR ''<''" "b = CHR ''|''" using t(2,3) by (auto intro!: lower simp: is_upper_def is_lower_def)
  then have "s = take (length s - length m) s @ ''<|'' @ r" using t(1) by (metis append_Cons append_Nil append_take_drop_id)
  then show ?thesis unfolding contains_iff by blast
qed

lemma unmarked_chunk:
  assumes "unmarked c"
  shows "gptoss_tool_parseChunk gptoss_tool_config random_id s c tokens fr =
    (let s1 = s\<lparr>gt_cache := gt_cache s @ c\<rparr>
     in case gt_state s of
          READING_CHANNEL \<Rightarrow> (gt_channel c s1, Inr None)
        | READING_CONSTRAIN \<Rightarrow> (s1, Inr None)
        | READING_MESSAGE \<Rightarrow> (s1, Inr (Some (gt_arguments s1 c))))"
proof -
  have tags: "\<not> contains ''<|channel|>commentary to='' c" "\<not> contains ''<|channel|>analysis to='' c"
    "\<not> contains MESSAGE_TAG c" "\<not> contains TOKEN_CONSTRAIN c"
    by (rule unmarked_free [OF assms], simp add: MESSAGE_TAG_def TOKEN_CONSTRAIN_def)+
  have "contains TOKEN_CONSTRAIN TOKEN_CONSTRAIN" by code_simp
  then have "c \<noteq> TOKEN_CONSTRAIN" using tags(4) by blast
  moreover have "str_find MESSAGE_TAG c 0 = None" using tags(3) by (simp add: contains_def)
  moreover have "\<not> endsWith c ''<|call|>'' \<and> \<not> endsWith c ''<|end|>'' \<and> \<not> endsWith c ''<|return|>''"
    using endsWith_lower [of c] assms unfolding unmarked_def by fastforce
  ultimately show ?thesis using tags(1,2)
    by (simp add: gptoss_tool_parseChunk_def gptoss_tool_config_def gt_content_def Let_def split: ToolStreamState.splits)
qed

text \<open>The state after the part \<open>u\<close> of the prefix, the name and a space.\<close>

definition naming_state :: "int \<Rightarrow> nat \<Rightarrow> string \<Rightarrow> string \<Rightarrow> gptoss_tool \<Rightarrow> bool" where
  "naming_state i d name u s \<longleftrightarrow>
     gt_state s = READING_CHANNEL \<and> gt_index s = i \<and> gt_drawn s = d \<and>
     (if length u < 10 then gt_cache s = u \<and> \<not> gt_naming s \<and> gt_name s = []
      else if length u \<le> 10 + length name then gt_cache s = u \<and> gt_naming s \<and> gt_name s = drop 10 u
      else gt_cache s = [] \<and> \<not> gt_naming s \<and> gt_name s = name)"

lemma find_first: "c \<notin> set x \<Longrightarrow> str_find [c] (x @ c # y) 0 = Some (length x)"
  by (auto simp: str_find_Some_iff occurs_at_def nth_append in_set_conv_nth take_Suc_conv_app_nth
      simp flip: Cons_nth_drop_Suc)

lemma find_absent: "c \<notin> set x \<Longrightarrow> str_find [c] x 0 = None"
  by (auto simp: str_find_None_iff occurs_at_def in_set_conv_nth simp flip: Cons_nth_drop_Suc)

text \<open>The end of \<open>gt_channel\<close>, once the name is being read.\<close>

lemma name_tail:
  assumes name: "CHR '' '' \<notin> set name" and w: "v @ z = ''functions.'' @ name @ '' ''" "10 \<le> length v"
    and r: "n @ r = drop 10 v" "length n \<le> length name"
    and s: "gt_state s = READING_CHANNEL" "gt_index s = i" "gt_drawn s = d" "gt_cache s = v" "gt_naming s" "gt_name s = n"
  shows "naming_state i d name v
    (case str_find '' '' r 0 of
       None \<Rightarrow> s\<lparr>gt_name := gt_name s @ r\<rparr>
     | Some p \<Rightarrow> s\<lparr>gt_naming := False, gt_cache := [], gt_name := gt_name s @ take p r\<rparr>)"
proof -
  have t: "(n @ r) @ z = name @ '' ''" using arg_cong [OF w(1), of "drop 10"] w(2) r(1) by simp
  have len: "length v = 10 + length n + length r" using arg_cong [OF r(1), of length] w(2) by simp
  show ?thesis
  proof (cases "z = []")
    case True
    then have "r = drop (length n) name @ '' ''"
      using arg_cong [OF t, of "drop (length n)"] r(2) by simp
    moreover have "n = take (length n) name" using arg_cong [OF t, of "take (length n)"] r(2) by simp
    moreover have "str_find '' '' (drop (length n) name @ '' '') 0 = Some (length (drop (length n) name))"
      using name by (intro find_first) (auto dest: in_set_dropD)
    ultimately show ?thesis using s len r(2)
      by (simp add: naming_state_def) (metis append_take_drop_id)
  next
    case False
    then obtain z' where "z = z' @ '' ''" using t by (metis append_butlast_last_id last_append last_snoc)
    then have "(n @ r) @ z' = name" using t by simp
    then have "CHR '' '' \<notin> set r" "length v \<le> 10 + length name" using name len by auto
    then show ?thesis using s w(2) r(1) find_absent [of "CHR '' ''" r] by (simp add: naming_state_def)
  qed
qed

lemma drop_front: "u @ c = p @ x \<Longrightarrow> length u \<le> length p \<Longrightarrow> c = drop (length u) p @ x"
  by (drule arg_cong [where f = "drop (length u)"]) simp

lemma drop_past: "drop (length d + 1) (d @ a # x) = x"
  by simp

lemma name_step:
  assumes s: "naming_state i d name u s" and name: "CHR '' '' \<notin> set name"
    and c: "unmarked c" "u @ c @ z = ''functions.'' @ name @ '' ''"
  shows "\<exists>s'. gptoss_tool_parseChunk gptoss_tool_config random_id s c tokens fr = (s', Inr None) \<and>
    naming_state i d name (u @ c) s'"
proof -
  let ?s = "s\<lparr>gt_cache := gt_cache s @ c\<rparr>"
  have st: "gt_state s = READING_CHANNEL" "gt_index s = i" "gt_drawn s = d" using s by (simp_all add: naming_state_def)
  have p: "gptoss_tool_parseChunk gptoss_tool_config random_id s c tokens fr = (gt_channel c ?s, Inr None)"
    using unmarked_chunk [OF c(1)] st by simp
  have w: "(u @ c) @ z = ''functions.'' @ name @ '' ''" using c(2) by simp
  have len: "length u + length c + length z = length name + 11" using arg_cong [OF w, of length] by simp
  consider "length (u @ c) < 10" | "length u < 10" "10 \<le> length (u @ c)"
    | "10 \<le> length u" "length u \<le> 10 + length name" | "length u = 11 + length name" "c = []"
    using len by (cases c) force+
  then have "naming_state i d name (u @ c) (gt_channel c ?s)"
  proof cases
    case 1
    then have "\<not> startsWith (u @ c) ''functions.''" by (simp add: startsWith_def)
    then show ?thesis using 1 s by (simp add: naming_state_def gt_channel_def)
  next
    case 2
    have t: "take 10 (u @ c) = ''functions.''" using arg_cong [OF w, of "take 10"] 2(2) by simp
    have ten: "length ''functions.'' = 10" by simp
    have sw: "startsWith (u @ c) ''functions.''" unfolding startsWith_def ten using 2(2) t by (simp del: take_append)
    define x where "x = drop 10 (u @ c)"
    have "u @ c = ''functions'' @ CHR ''.'' # x" using t unfolding x_def by (metis append_Cons append_Nil append_take_drop_id)
    then have split: "c = drop (length u) ''functions'' @ CHR ''.'' # x" using 2(1) by (intro drop_front [where p = "''functions''"]) simp_all
    have "CHR ''.'' \<notin> set (drop (length u) ''functions'')" by (auto dest: in_set_dropD)
    then have dot: "str_find ''.'' c 0 = Some (length (drop (length u) ''functions''))"
      by (subst split) (rule find_first)
    have rest: "drop (length (drop (length u) ''functions'') + 1) c = drop 10 (u @ c)"
      by (subst split) (simp only: drop_past x_def)
    have s': "gt_cache s = u" "\<not> gt_naming s" "gt_name s = []" using s 2(1) by (simp_all add: naming_state_def)
    let ?t = "?s\<lparr>gt_naming := True, gt_name := []\<rparr>"
    have "gt_channel c ?s =
      (case str_find '' '' x 0 of
         None \<Rightarrow> ?t\<lparr>gt_name := gt_name ?t @ x\<rparr>
       | Some p \<Rightarrow> ?t\<lparr>gt_naming := False, gt_cache := [], gt_name := gt_name ?t @ take p x\<rparr>)"
      using s' sw dot rest unfolding x_def [symmetric] by (simp add: gt_channel_def split: option.split)
    then show ?thesis
      using name_tail [OF name w 2(2), of "[]" x ?t i d] st s'(1) by (simp add: x_def)
  next
    case 3
    have "length (drop 10 u) \<le> length name" using 3 by simp
    moreover have s': "gt_cache s = u" "gt_naming s" "gt_name s = drop 10 u" using s 3 by (simp_all add: naming_state_def)
    moreover have "gt_channel c ?s =
      (case str_find '' '' c 0 of
         None \<Rightarrow> ?s\<lparr>gt_name := gt_name ?s @ c\<rparr>
       | Some p \<Rightarrow> ?s\<lparr>gt_naming := False, gt_cache := [], gt_name := gt_name ?s @ take p c\<rparr>)"
      using s'(2) by (simp add: gt_channel_def split: option.split)
    ultimately show ?thesis
      using name_tail [OF name w, of "drop 10 u" c ?s i d] st 3 by simp
  next
    case 4
    then show ?thesis using s by (simp add: gt_channel_def naming_state_def startsWith_def)
  qed
  then show ?thesis using p by blast
qed

lemma name_run:
  assumes "naming_state i d name u s" "CHR '' '' \<notin> set name" "\<forall>c\<in>set ns. unmarked c"
    "u @ concat ns @ z = ''functions.'' @ name @ '' ''"
  shows "\<exists>s'. parser_run (gptoss_tool_parser random_id) s (quietly ns @ calls) =
      parser_run (gptoss_tool_parser random_id) s' calls \<and> naming_state i d name (u @ concat ns) s'"
  using assms
proof (induction ns arbitrary: u s)
  case (Cons c ns)
  obtain s1 where s1: "gptoss_tool_parseChunk gptoss_tool_config random_id s c [] FR_NONE = (s1, Inr None)"
    "naming_state i d name (u @ c) s1"
    using name_step [OF Cons.prems(1,2), of c "concat ns @ z" random_id "[]" FR_NONE] Cons.prems(3,4) by auto
  from Cons.IH [OF s1(2) Cons.prems(2)] s1(1) Cons.prems(3,4) show ?case
    by (simp add: gptoss_tool_parser_def quietly_def delta_list_def)
qed (auto simp: quietly_def)

lemma arguments_run:
  assumes "gt_state s = READING_MESSAGE" "\<forall>c\<in>set cs. unmarked c"
  shows "\<exists>s'. parser_run (gptoss_tool_parser random_id) s (quietly cs @ calls) =
      map (ToolCallDelta (gt_index s) None None) cs @ parser_run (gptoss_tool_parser random_id) s' calls \<and>
    gt_state s' = READING_MESSAGE \<and> gt_index s' = gt_index s"
  using assms
proof (induction cs arbitrary: s)
  case (Cons c cs)
  let ?s = "s\<lparr>gt_cache := gt_cache s @ c\<rparr>"
  have "gptoss_tool_parseChunk gptoss_tool_config random_id s c [] FR_NONE =
      (?s, Inr (Some (ToolCallDelta (gt_index s) None None c)))"
    using unmarked_chunk [of c random_id s] Cons.prems by (simp add: gt_arguments_def)
  moreover from Cons.IH [of ?s] Cons.prems obtain s' where
    "parser_run (gptoss_tool_parser random_id) ?s (quietly cs @ calls) =
      map (ToolCallDelta (gt_index s) None None) cs @ parser_run (gptoss_tool_parser random_id) s' calls"
    "gt_state s' = READING_MESSAGE" "gt_index s' = gt_index s" by auto
  ultimately show ?case by (auto simp: gptoss_tool_parser_def quietly_def delta_list_def)
qed (auto simp: quietly_def)

lemma constrain_step:
  assumes "gt_state s = READING_CHANNEL" "gt_name s = name" "name \<noteq> []"
  shows "gptoss_tool_parseChunk gptoss_tool_config random_id s TOKEN_CONSTRAIN tokens fr =
    (gt_clearState (s\<lparr>gt_drawn := Suc (gt_drawn s), gt_state := READING_CONSTRAIN\<rparr>),
     Inr (Some (ToolCallDelta (gt_index s) (Some (random_id (gt_drawn s))) (Some name) [])))"
proof -
  have "\<not> contains ''<|channel|>commentary to='' TOKEN_CONSTRAIN" "\<not> contains ''<|channel|>analysis to='' TOKEN_CONSTRAIN"
    by code_simp+
  then show ?thesis using assms
    by (simp add: gptoss_tool_parseChunk_def gptoss_tool_config_def gt_announce_def)
qed

lemma message_step:
  assumes "gt_state s = READING_CONSTRAIN"
  shows "gptoss_tool_parseChunk gptoss_tool_config random_id s MESSAGE_TAG tokens fr =
    (gt_clearState (s\<lparr>gt_state := READING_MESSAGE\<rparr>), Inr None)"
proof -
  have "\<not> contains ''<|channel|>commentary to='' MESSAGE_TAG" "\<not> contains ''<|channel|>analysis to='' MESSAGE_TAG"
    "MESSAGE_TAG \<noteq> TOKEN_CONSTRAIN" "str_find MESSAGE_TAG MESSAGE_TAG 0 = Some 0"
    by code_simp+
  then show ?thesis using assms
    by (simp add: gptoss_tool_parseChunk_def gptoss_tool_config_def gt_announce_def)
qed

lemma occurs_at_part: "occurs_at (p @ q) s i \<Longrightarrow> occurs_at p s i"
  by (auto simp: occurs_at_iff_append)

lemma call_step:
  assumes "unmarked z"
  shows "\<exists>s'. gptoss_tool_parseChunk gptoss_tool_config random_id s (z @ ''<|call|>'') tokens fr =
    (s', Inr (if z = [] then None else Some (ToolCallDelta (gt_index s) None None z)))"
proof -
  let ?c = "z @ ''<|call|>''"
  have first: "length z \<le> i" if "occurs_at ''<|'' ?c i" for i
  proof (rule ccontr)
    assume i: "\<not> length z \<le> i"
    have "z ! i = CHR ''<''" using occurs_at_nth [OF that, of 0] i by (simp add: nth_append)
    moreover have "?c ! (i + 1) = CHR ''|''" using occurs_at_nth [OF that, of 1] by simp
    ultimately have "i + 1 < length z" using i by (cases "i + 1 = length z") (auto simp: nth_append)
    then have "occurs_at ''<|'' z i" using that occurs_at_front_iff [of i "''<|''" z] by simp
    then show False using assms by (simp add: unmarked_def contains_def str_find_None_iff)
  qed
  have later: "i = length z" if o: "occurs_at ''<|'' ?c i" for i
  proof -
    obtain k where k: "i = length z + k" using le_Suc_ex [OF first [OF o]] by blast
    then have "occurs_at ''<|'' ''<|call|>'' k" using o by (simp add: occurs_at_skip)
    then have "k \<in> set (filter (occurs_at ''<|'' ''<|call|>'') [0..<9])" using occurs_at_bound [of "''<|''" "''<|call|>''" k] by simp
    also have "filter (occurs_at ''<|'' ''<|call|>'') [0..<9] = [0]" by code_simp
    finally show ?thesis using k by simp
  qed
  have at: "occurs_at ''<|'' ?c (length z)" by (simp add: occurs_at_def)
  have r: "str_rfind ''<|'' ?c = Some (length z)" unfolding str_rfind_Some_iff using at later by (metis order_refl)
  have no: "\<not> contains m ?c" if "m = ''<|'' @ w" "\<not> occurs_at m ''<|call|>'' 0" for m w
  proof
    assume "contains m ?c"
    then obtain i where i: "occurs_at m ?c i" unfolding contains_def str_find_None_iff by blast
    then have "occurs_at ''<|'' ?c i" unfolding that(1) by (rule occurs_at_part)
    then have "i = length z" by (rule later)
    then show False using i that(2) occurs_at_skip [of m z "''<|call|>''" 0] by simp
  qed
  have "\<not> contains ''<|channel|>commentary to='' ?c" "\<not> contains ''<|channel|>analysis to='' ?c"
    "\<not> contains MESSAGE_TAG ?c" "\<not> contains TOKEN_CONSTRAIN ?c"
    by (rule no, simp add: MESSAGE_TAG_def TOKEN_CONSTRAIN_def, code_simp)+
  moreover have "contains TOKEN_CONSTRAIN TOKEN_CONSTRAIN" by code_simp
  moreover have "endsWith ?c ''<|call|>''" by (simp add: endsWith_def)
  ultimately show ?thesis using r
    by (auto simp: gptoss_tool_parseChunk_def gptoss_tool_config_def gt_content_def contains_def gt_arguments_def)
qed

text \<open>
  C14: A tool call of a GptOss generation arrives when its markers come whole and one by one, each in a chunk
  of its own but the last, and neither the name nor the arguments contain the beginning of a marker: after
  the start tag, with the name of the function cut in any way into chunks before the constraint, the client
  gets one delta with index 0, an identifier and the name, and then every piece of the arguments once
  and in order.
\<close>

theorem gptoss_call_arrives:
  assumes "\<forall>c\<in>set ns. unmarked c" "concat ns = ''functions.'' @ name @ '' ''" "CHR '' '' \<notin> set name" "name \<noteq> []"
    and "\<forall>c\<in>set cs. unmarked c" "unmarked z"
  shows "parser_run (gptoss_tool_parser random_id) (gt_resetState s)
      (quietly (''<|channel|>commentary to='' # ns @ [TOKEN_CONSTRAIN, ''json'', MESSAGE_TAG] @ cs @ [z @ ''<|call|>''])) =
    ToolCallDelta 0 (Some (random_id (gt_drawn s))) (Some name) [] #
      map (ToolCallDelta 0 None None) (cs @ (if z = [] then [] else [z]))"
proof -
  let ?run = "parser_run (gptoss_tool_parser random_id)"
  let ?s0 = "(gt_resetState s)\<lparr>gt_index := 0\<rparr>"
  have step: "?run s (quietly (c # cs)) = delta_list r @ ?run s' (quietly cs)"
    if "gptoss_tool_parseChunk gptoss_tool_config random_id s c [] FR_NONE = (s', r)" for s c s' r cs
    using that by (simp add: gptoss_tool_parser_def quietly_def)
  have quiet_chunks: "quietly (xs @ ys) = quietly xs @ quietly ys" "quietly [] = []" for xs ys
    by (simp_all add: quietly_def)
  have start: "gptoss_tool_parseChunk gptoss_tool_config random_id (gt_resetState s) ''<|channel|>commentary to='' [] FR_NONE =
      (?s0, Inr None)"
    by (simp add: gptoss_tool_parseChunk_def gptoss_tool_config_def contains_def str_find_front [of _ "[]", simplified]
        gt_resetState_def gt_clearState_def)
  have "naming_state 0 (gt_drawn s) name [] ?s0" by (simp add: naming_state_def gt_resetState_def gt_clearState_def)
  then obtain s1 where s1: "?run ?s0 (quietly ns @ quietly ([TOKEN_CONSTRAIN, ''json'', MESSAGE_TAG] @ cs @ [z @ ''<|call|>''])) =
      ?run s1 (quietly ([TOKEN_CONSTRAIN, ''json'', MESSAGE_TAG] @ cs @ [z @ ''<|call|>'']))"
    "naming_state 0 (gt_drawn s) name ([] @ concat ns) s1"
    using name_run [where z = "[]", OF _ assms(3,1)] assms(2) by (metis append_Nil append_Nil2)
  have n: "gt_state s1 = READING_CHANNEL" "gt_name s1 = name" "gt_index s1 = 0" "gt_drawn s1 = gt_drawn s"
    using s1(2) by (simp_all add: naming_state_def assms(2))
  let ?s2 = "gt_clearState (s1\<lparr>gt_drawn := Suc (gt_drawn s1), gt_state := READING_CONSTRAIN\<rparr>)"
  let ?s3 = "?s2\<lparr>gt_cache := ''json''\<rparr>"
  let ?s4 = "gt_clearState (?s3\<lparr>gt_state := READING_MESSAGE\<rparr>)"
  have json: "gptoss_tool_parseChunk gptoss_tool_config random_id ?s2 ''json'' [] FR_NONE = (?s3, Inr None)"
  proof -
    have "unmarked ''json''" by code_simp
    then show ?thesis by (simp add: unmarked_chunk gt_clearState_def)
  qed
  obtain s5 where s5: "?run ?s4 (quietly cs @ quietly [z @ ''<|call|>'']) =
      map (ToolCallDelta 0 None None) cs @ ?run s5 (quietly [z @ ''<|call|>''])" "gt_index s5 = 0"
    using arguments_run [of ?s4 cs random_id "quietly [z @ ''<|call|>'']"] assms(5) n by (auto simp: gt_clearState_def)
  obtain s6 where "gptoss_tool_parseChunk gptoss_tool_config random_id s5 (z @ ''<|call|>'') [] FR_NONE =
      (s6, Inr (if z = [] then None else Some (ToolCallDelta 0 None None z)))"
    using call_step [OF assms(6), of random_id s5] s5(2) by metis
  then have "?run s5 (quietly [z @ ''<|call|>'']) = map (ToolCallDelta 0 None None) (if z = [] then [] else [z])"
    by (simp add: step quiet_chunks delta_list_def)
  then have tail: "?run ?s4 (quietly (cs @ [z @ ''<|call|>''])) = map (ToolCallDelta 0 None None) (cs @ (if z = [] then [] else [z]))"
    using s5(1) by (simp add: quiet_chunks)
  have head: "?run s1 (quietly ([TOKEN_CONSTRAIN, ''json'', MESSAGE_TAG] @ cs @ [z @ ''<|call|>''])) =
      ToolCallDelta 0 (Some (random_id (gt_drawn s))) (Some name) [] # ?run ?s4 (quietly (cs @ [z @ ''<|call|>'']))"
    using step [OF constrain_step [OF n(1,2) assms(4), of random_id "[]" FR_NONE]] step [OF json]
      step [OF message_step [of ?s3 random_id "[]" FR_NONE]] n(3,4)
    by (simp add: delta_list_def gt_clearState_def)
  show ?thesis using step [OF start] s1(1) head tail by (simp add: quiet_chunks delta_list_def)
qed

theorem gptoss_call_arrives_witness:
  "parser_run (gptoss_tool_parser (\<lambda>_. ''id'')) (gt_resetState new_gptoss_tool)
      (quietly (''<|channel|>commentary to='' # [''functions'', ''.get'', ''_x '', []] @ [TOKEN_CONSTRAIN, ''json'', MESSAGE_TAG] @
        [''{a<'', ''b''] @ [''}'' @ ''<|call|>''])) =
    [ToolCallDelta 0 (Some ''id'') (Some ''get_x'') [], ToolCallDelta 0 None None ''{a<'', ToolCallDelta 0 None None ''b'',
     ToolCallDelta 0 None None ''}'']"
proof -
  have "\<forall>c\<in>set [''functions'', ''.get'', ''_x '', []]. unmarked c" "\<forall>c\<in>set [''{a<'', ''b'']. unmarked c" "unmarked ''}''"
    by code_simp+
  then show ?thesis
    by (subst gptoss_call_arrives [where name = "''get_x''"]) (simp_all add: new_gptoss_tool_def)
qed

text \<open>
  With arguments in the chunk of the message tag the name is not given out: the delta with it is replaced by
  that of the arguments.
\<close>

lemma gptoss_arguments_replace_the_name:
  "parser_run (gptoss_tool_parser random_id) (gt_resetState new_gptoss_tool)
     (quietly [''<|channel|>commentary to='', ''functions.f'', ''<|message|>{}'', ''<|call|>'']) =
   [ToolCallDelta 0 None None ''{}'']"
  by code_simp

text \<open>What follows the start tag in its chunk is lost.\<close>

lemma gptoss_name_after_the_tag_is_lost:
  "parser_run (gptoss_tool_parser random_id) (gt_resetState new_gptoss_tool)
     (quietly [''<|channel|>commentary to=functions'', ''.f '', TOKEN_CONSTRAIN, MESSAGE_TAG, ''{}'', ''<|call|>'']) =
   [ToolCallDelta 0 None None ''{}'']"
  by code_simp

section \<open>The reader of a whole generation\<close>

text \<open>\<open>Harmony::TokenID\<close>\<close>

definition START_ID :: int where "START_ID = 200006"
definition END_ID :: int where "END_ID = 200007"
definition MESSAGE_ID :: int where "MESSAGE_ID = 200008"
definition CHANNEL_ID :: int where "CHANNEL_ID = 200005"
definition CONSTRAIN_ID :: int where "CONSTRAIN_ID = 200003"
definition RETURN_ID :: int where "RETURN_ID = 200002"
definition CALL_ID :: int where "CALL_ID = 200012"

lemmas token_ids = START_ID_def END_ID_def MESSAGE_ID_def CHANNEL_ID_def CONSTRAIN_ID_def RETURN_ID_def CALL_ID_def

datatype HarmonyState = H_UNKNOWN | H_READING_CHANNEL | H_READING_MESSAGE | H_READING_CONSTRAIN

record Message =
  msg_channel :: string
  msg_constrain :: string
  msg_content :: string

text \<open>
  The loop over the tokens with the current state, channel, constraint and cache; it gives whether the
  tokens are well formed and the messages it has appended. \<open>decode\<close> is the tokenizer.
\<close>

fun harmony_loop ::
  "(int list \<Rightarrow> string) \<Rightarrow> HarmonyState \<Rightarrow> string \<Rightarrow> string \<Rightarrow> int list \<Rightarrow> int list \<Rightarrow> bool \<times> Message list" where
  "harmony_loop decode st channel con cache [] = (True, [])"
| "harmony_loop decode st channel con cache (token # tokens) =
     (if token = CHANNEL_ID then harmony_loop decode H_READING_CHANNEL [] [] [] tokens
      else if token = CONSTRAIN_ID then
        (if st \<noteq> H_READING_CHANNEL then (False, [])
         else if cache \<noteq> [] then harmony_loop decode H_READING_CONSTRAIN (decode cache) con [] tokens
         else harmony_loop decode st channel con [] tokens)
      else if token = MESSAGE_ID then
        (if cache \<noteq> [] then
           (case st of
              H_READING_CHANNEL \<Rightarrow> harmony_loop decode H_READING_MESSAGE (decode cache) con [] tokens
            | H_READING_CONSTRAIN \<Rightarrow> harmony_loop decode H_READING_MESSAGE channel (decode cache) [] tokens
            | _ \<Rightarrow> harmony_loop decode st channel con [] tokens)
         else harmony_loop decode st channel con [] tokens)
      else if token = END_ID \<or> token = RETURN_ID \<or> token = CALL_ID then
        (if cache \<noteq> [] then
           (case harmony_loop decode H_UNKNOWN channel con [] tokens of
              (ok, messages) \<Rightarrow>
                (ok, (if st = H_READING_MESSAGE
                      then [\<lparr>msg_channel = channel, msg_constrain = con, msg_content = decode cache\<rparr>] else []) @ messages))
         else harmony_loop decode st channel con [] tokens)
      else harmony_loop decode st channel con (cache @ [token]) tokens)"

definition harmony_parse :: "(int list \<Rightarrow> string) \<Rightarrow> int list \<Rightarrow> bool \<times> Message list" where
  "harmony_parse decode tokens = harmony_loop decode H_UNKNOWN [] [] [] tokens"

text \<open>The bodies with a space between them.\<close>

fun joined :: "nat \<Rightarrow> string list \<Rightarrow> string" where
  "joined i [] = []"
| "joined i (c # cs) = (if 0 < i then '' '' else []) @ c @ joined (i + 1) cs"

definition getContent :: "Message list \<Rightarrow> string" where
  "getContent messages =
     joined 0 (map msg_content (filter (\<lambda>m. msg_channel m = ''final'' \<or> msg_channel m = ''commentary'') messages))"

definition getReasoning :: "Message list \<Rightarrow> string" where
  "getReasoning messages = joined 0 (map msg_content (filter (\<lambda>m. msg_channel m = ''analysis'') messages))"

text \<open>A call is its identifier, name and arguments; \<open>n\<close> identifiers are drawn before.\<close>

fun getToolCalls :: "(nat \<Rightarrow> string) \<Rightarrow> nat \<Rightarrow> Message list \<Rightarrow> (string \<times> string \<times> string) list" where
  "getToolCalls random_id n [] = []"
| "getToolCalls random_id n (m # ms) =
     (case (if startsWith (msg_channel m) ''commentary'' \<or> startsWith (msg_channel m) ''analysis''
            then str_find ''to=functions.'' (msg_channel m) 0 else None) of
        None \<Rightarrow> getToolCalls random_id n ms
      | Some p \<Rightarrow>
          (random_id n,
           takeWhile (\<lambda>c. c \<notin> {CHR '' '', CHR 0x09, CHR 0x0A, CHR 0x0D, CHR ''<''})
             (drop (p + length ''to=functions.'') (msg_channel m)),
           msg_content m) # getToolCalls random_id (Suc n) ms)"

text \<open>A message as tokens: what comes before the channel, channel, constraint, body and end.\<close>

definition plain_tokens :: "int list \<Rightarrow> bool" where
  "plain_tokens ts \<longleftrightarrow> (\<forall>t\<in>set ts. t \<notin> {CHANNEL_ID, CONSTRAIN_ID, MESSAGE_ID, END_ID, RETURN_ID, CALL_ID})"

type_synonym token_message = "int list \<times> int list \<times> int list option \<times> int list \<times> int"

definition token_message_ok :: "token_message \<Rightarrow> bool" where
  "token_message_ok = (\<lambda>(author, channel, con, body, e).
     plain_tokens author \<and> plain_tokens channel \<and> channel \<noteq> [] \<and> plain_tokens body \<and> body \<noteq> [] \<and>
     e \<in> {END_ID, RETURN_ID, CALL_ID} \<and> (case con of None \<Rightarrow> True | Some c \<Rightarrow> plain_tokens c \<and> c \<noteq> []))"

definition tokens_of :: "token_message \<Rightarrow> int list" where
  "tokens_of = (\<lambda>(author, channel, con, body, e).
     author @ CHANNEL_ID # channel @ (case con of None \<Rightarrow> [] | Some c \<Rightarrow> CONSTRAIN_ID # c) @ MESSAGE_ID # body @ [e])"

definition message_of :: "(int list \<Rightarrow> string) \<Rightarrow> token_message \<Rightarrow> Message" where
  "message_of decode = (\<lambda>(author, channel, con, body, e).
     \<lparr>msg_channel = decode channel, msg_constrain = (case con of None \<Rightarrow> [] | Some c \<Rightarrow> decode c),
      msg_content = decode body\<rparr>)"

lemma plain_loop:
  "plain_tokens ts \<Longrightarrow>
   harmony_loop decode st channel con cache (ts @ rest) = harmony_loop decode st channel con (cache @ ts) rest"
  by (induction ts arbitrary: cache) (auto simp: plain_tokens_def)

lemma message_tokens:
  assumes "token_message_ok m"
  shows "\<exists>channel' con'. harmony_loop decode st channel con cache (tokens_of m @ rest) =
    (case harmony_loop decode H_UNKNOWN channel' con' [] rest of (ok, ms) \<Rightarrow> (ok, message_of decode m # ms))"
proof -
  obtain a c k b e where m: "m = (a, c, k, b, e)" by (cases m)
  have "e \<noteq> CHANNEL_ID \<and> e \<noteq> CONSTRAIN_ID \<and> e \<noteq> MESSAGE_ID \<and> (e = END_ID \<or> e = RETURN_ID \<or> e = CALL_ID)"
    using assms by (auto simp: m token_message_ok_def token_ids)
  moreover have "CONSTRAIN_ID \<noteq> CHANNEL_ID" "MESSAGE_ID \<noteq> CHANNEL_ID" "MESSAGE_ID \<noteq> CONSTRAIN_ID" by (simp_all add: token_ids)
  ultimately show ?thesis using assms
    by (intro exI [of _ "decode c"] exI [of _ "case k of None \<Rightarrow> [] | Some x \<Rightarrow> decode x"], cases k)
      (auto simp: m token_message_ok_def tokens_of_def message_of_def plain_loop split: prod.splits)
qed

text \<open>
  C38: A generation written as harmony messages is read back: the reader accepts the tokens and gives the
  messages with decoded channel, constraint and body, in order.
\<close>

theorem harmony_reads_messages_back:
  assumes "list_all token_message_ok ms"
  shows "harmony_parse decode (concat (map tokens_of ms)) = (True, map (message_of decode) ms)"
proof -
  have "harmony_loop decode st channel con cache (concat (map tokens_of ms)) = (True, map (message_of decode) ms)"
    for st channel con cache
    using assms
  proof (induction ms arbitrary: st channel con cache)
    case (Cons m ms)
    then show ?case
      using message_tokens [of m decode st channel con cache "concat (map tokens_of ms)"] by auto
  qed simp
  then show ?thesis by (simp add: harmony_parse_def)
qed

theorem harmony_reads_messages_back_witness:
  "harmony_parse (map (char_of :: int \<Rightarrow> char)) (concat (map tokens_of [([], [97], None, [98, 99], END_ID),
     ([START_ID, 120], [100], Some [101], [102], CALL_ID)])) =
   (True, [\<lparr>msg_channel = ''a'', msg_constrain = [], msg_content = ''bc''\<rparr>,
     \<lparr>msg_channel = ''d'', msg_constrain = ''e'', msg_content = ''f''\<rparr>])"
  by (subst harmony_reads_messages_back, code_simp, code_simp)

end
