(* ===== verification/Spec2Isabelle.thy ===== *)
theory Spec2Isabelle
  imports Model_Versions Sessions Stream_Queue Text_Streamer Pipeline_Execution Array_Tool_Parsers Tool_Arguments Harmony
begin

text \<open>
  Verification library for the OpenVINO Model Server (C++ sources under \<open>src/src/\<close>; the paths
  below are relative to \<open>src/\<close>). The server loads versions of models, joins them into pipelines,
  runs requests through the pipelines, and streams the text that language models generate. The
  library models these four parts and what they share.

  1. \<^bold>\<open>Shared data.\<close>
  \<^item> \<open>Ovms_Prelude\<close>: exceptions as values (\<open>exn\<close>, results are \<open>exn + 'a\<close>), the status codes in use,
    \<open>std::string\<close> as a list of bytes, and the locales \<open>guarded_machine\<close> and \<open>refined_machine\<close> from
    which a component with operations that may be refused inherits that its invariant holds, or its
    abstraction is followed, along every run.
  \<^item> \<open>Text_Utils\<close>: \<open>stringutils.cpp\<close>. \<open>Parser_Text\<close>: \<open>llm/io_processing/utils.cpp\<close> and \<open>.hpp\<close>.
  \<^item> \<open>Shapes\<close>: \<open>shape.cpp\<close>; \<open>Layouts\<close>: \<open>layout.cpp\<close> and \<open>layout_configuration.cpp\<close>;
    \<open>Tensor_Info\<close>: \<open>tensorinfo.cpp\<close> and \<open>precision.cpp\<close>. The parsers are proved against the printers,
    the intersections against what a value matches (locale \<open>intersectable\<close>).

  2. \<^bold>\<open>Served models.\<close>
  \<^item> \<open>Serving_Status\<close>: the status of a version (\<open>modelversionstatus.cpp\<close>), the state machine of a
    pipeline or graph definition (\<open>dags/pipelinedefinitionstatus.cpp\<close>; one handler per state class),
    and the wait for a definition (\<open>single_version_servable_definition.cpp\<close>) over the values it reads.
    The machine refines the flag ``the last validation passed''.
  \<^item> \<open>Model_Config\<close>: when a configuration asks for a reload (\<open>modelconfig.cpp\<close>) and the version
    policies (\<open>model_version_policy.cpp\<close>, locale \<open>version_policy\<close>).
  \<^item> \<open>Model_Versions\<close>: an instance (\<open>modelinstance.cpp\<close>), the versions of a model with the default
    version (\<open>model.cpp\<close>), and the manager's procedure that starts, reloads and retires versions
    (\<open>modelmanager.cpp\<close>). The lemmas show the partition of the versions, the end of the fallback loop
    and that the default stays the highest available version whatever fails to load, when the listing
    is in increasing order and without duplicates.

  3. \<^bold>\<open>Pipelines.\<close>
  \<^item> \<open>Pipeline_Graph\<close>: nodes and connections (\<open>dags/nodeinfo.hpp\<close>), the search for cycles and
    unconnected nodes and the check of the gathering order (\<open>dags/pipelinedefinition.cpp\<close>). Both searches
    are proved to decide the property of the graph they stand for.
  \<^item> \<open>Pipeline_Validation\<close>: \<open>NodeValidator\<close>, the validation of a definition, its inputs and outputs with
    the gathered dimensions, reload and retirement (\<open>dags/pipelinedefinition.cpp\<close>,
    \<open>dags/node_library_utils.cpp\<close>) and the factory (\<open>dags/pipeline_factory.cpp\<close>) as operations whose
    every sequence keeps available pipelines well formed.
  \<^item> \<open>Sessions\<close>: the metadata of nested demultiplexer sessions (\<open>dags/nodesessionmetadata.cpp\<close>), the plain
    and the gathering input handler (\<open>dags/nodeinputhandler.cpp\<close>, \<open>dags/gathernodeinputhandler.cpp\<close>; one
    locale \<open>input_handler\<close>) and the session over them (\<open>dags/nodesession.cpp\<close>).
  \<^item> \<open>Stream_Queue\<close>: the pool of inference streams (\<open>queue.hpp\<close>) and its guards, as a step relation whose
    steps are the critical sections; invariants over all reachable states.
  \<^item> \<open>Node_Execution\<close>: a node at run time (\<open>dags/node.cpp\<close>) and the four classes of nodes with their
    sessions (\<open>dags/dl_node.cpp\<close>, \<open>dags/dlnodesession.cpp\<close>, \<open>dags/custom_node.cpp\<close>,
    \<open>dags/customnodesession.cpp\<close>, the entry and exit nodes).
  \<^item> \<open>Pipeline_Execution\<close>: the event loop (\<open>dags/pipeline.cpp\<close>) over the virtual functions of \<open>Node\<close>
    (\<open>node_ops\<close>; the laws it needs are the locale \<open>node_interface\<close>, interpreted on the nodes of
    \<open>Node_Execution\<close>). A callback of another thread may run before each pull and before each retry.

  4. \<^bold>\<open>Generated text.\<close>
  \<^item> \<open>Output_Parsers\<close>: the interface of a parser (\<open>llm/io_processing/base_output_parser.hpp\<close>) as a record
    of operations, the default content parser, the Qwen3 and Gemma4 reasoning parsers and the state of a
    rendered prompt (locales \<open>returning_parser\<close>, \<open>content_parser\<close>).
  \<^item> \<open>Output_Router\<close>: phases, buffering and dispatch (\<open>llm/io_processing/output_parser.cpp\<close>) over any
    parsers with that interface.
  \<^item> \<open>Text_Streamer\<close>: from tokens to the client (\<open>llm/ovms_text_streamer.cpp\<close>). Every call returns,
    a client that declines is left alone, and without a router the pieces are the decoded text.
  \<^item> \<open>Partial_Json\<close>: documents from the chunks of a generation
    (\<open>llm/io_processing/partial_json_builder.cpp\<close>). The scanner keeps a stack of what is open and goes back to
    the last comma when a value is not finished; the lemmas show that the stack and the separator never
    get out of step with the text, that the cut of a well separated text into chunks does not matter,
    and that the differences rebuild the document.
  \<^item> \<open>Tool_Parsers\<close> and \<open>Array_Tool_Parsers\<close>: the tool parsers of Hermes3 and Llama3, Mistral and Phi4
    (\<open>tool_parser.cpp\<close> of each). The locale \<open>tool_call_stream\<close> has the contract of one call of a parser;
    all four are interpretations, and their streams announce every call before its arguments.
  \<^item> \<open>Tool_Arguments\<close>: what becomes of the arguments of a Hermes3 call, through the window of two chunks,
    the escaping, the builder and the difference.
  \<^item> \<open>Harmony\<close>: the messages of GptOss (\<open>llm/io_processing/gptoss\<close>). The content parser holds back what may
    be the beginning of a marker, so the content is that of the messages for every cut into chunks of
    which none ends in an opening angle bracket. The tool parser, the reasoning parser and the
    reader of a whole generation are there as well.
\<close>

text \<open>
  \<^bold>\<open>Conventions.\<close> A class is a record, a method a function from the state to the next state and a
  result; a C++ exception is a value and the state it leaves behind is kept where a caller goes on.
  Status codes are values of \<open>StatusCode\<close>. A hash map is an association list in the order of
  iteration with one entry per key, a \<open>std::map\<close> one sorted by key. Integers are unbounded where the
  code only compares or counts by one per element in memory, and reduced at their width where their
  arithmetic can wrap: session ids, the dependency counter, the shards of a session, element counts
  of library outputs, the size of a gathered shape, conversions of numbers, the count of braces.

  \<^bold>\<open>Parameters.\<close> Code outside the repository is an argument: what loading a version answers
  (\<open>backend\<close>), the models and libraries a validation asks (\<open>Backend\<close>), OpenVINO, models, libraries and
  frontends at run time (\<open>environment\<close>), the tokenizer (\<open>decode\<close>), the client of a stream, the JSON
  parser (\<open>parse\<close>) and the random identifiers of calls (\<open>random_id\<close>). Hypotheses on them are named:
  \<open>plain_answers\<close> (asking for a model instance is not answered with the status of a missing stream),
  \<open>reads_strings\<close> (the JSON parser reads the strings of one call back), \<open>settling_decoder\<close> (the
  tokenizer starts anew after a newline and settles a token within the delay), \<open>unfused\<close> (no later token
  changes the text of this generation), and those of the statements themselves.

  \<^bold>\<open>Loops.\<close> The search for the gathered dimensions has the fuel \<open>Suc\<close> of the number of connections,
  proved to be enough in a validated graph. The fallback loop of the manager has a bound on its
  rounds; as many as there are version directories are enough when their numbers differ. The search for cycles and the gathering check are total
  by a measure on the nodes not yet visited or the entries of the queue. The recursion of the array
  parsers descends by \<open>state_rank\<close>. The drain loop of the streamer is a \<open>partial_function\<close> and proved to
  return. The event loop takes the list of its iterations (what has happened before each), and
  \<open>None\<close> means that it has not returned yet; liveness is stated as a list that suffices.

  \<^bold>\<open>Not modelled.\<close> The request formats and their transport (REST, gRPC, KServe, C API), the OpenAI
  handlers and the MediaPipe calculators: conversions between library objects, which the models
  above take as parameters. The configuration files and the command line. Loading itself, inference
  and tensor setup of \<open>ModelInstance\<close>: calls of OpenVINO. Chat templates, tokenization, image, audio,
  embedding and rerank endpoints: calls of OpenVINO GenAI. File systems, model download, Python,
  metrics and logging. The tool parsers of Qwen3Coder, Devstral, LFM2, Onyx, MiniCPM5 and
  Gemma4 have scanners of their own; they stand behind the interface of \<open>Output_Parsers\<close>, and the
  router is proved for every parser that satisfies it. Locks appear as the atomic steps they make;
  weak memory is not modelled.
\<close>

end
